(* ===== verification/Prelude.thy ===== *)
theory Prelude
  imports Main "HOL-Library.Monad_Syntax"
begin

text \<open>
  What every component of the development shares.  A kernel function is a HOL function
  in the option monad: \<^term>\<open>Some r\<close> is a normal return with result and final state
  \<open>r\<close>, and \<^term>\<open>None\<close> means that the call never returns, because an \<open>assert\<close> failed
  (the kernel's \<open>panic\<close> disables interrupts and stays in its monitor loop for ever) or
  because a loop over a corrupted pointer structure does not end.  Error codes that
  the C functions return (\<open>-E_NO_MEM\<close>, a null pointer) are values inside the result.
\<close>

named_theorems heap_simps \<open>effect of the pointer primitives on single cells\<close>
named_theorems inv_intros \<open>preservation of component invariants\<close>

text \<open>The kernel's \<open>assert\<close>: a false condition never returns.\<close>

definition kassert :: "bool \<Rightarrow> unit option" where
  "kassert b = (if b then Some () else None)"

lemma kassert_simps [simp]:
  "kassert True = Some ()" "kassert False = None"
  by (simp_all add: kassert_def)

lemma kassert_bind_Some [simp]:
  "Option.bind (kassert b) f = Some r \<longleftrightarrow> b \<and> f () = Some r"
  by (cases b) auto

lemma kassert_bind_True: "b \<Longrightarrow> Option.bind (kassert b) f = f ()"
  by simp

lemma bind_Some_iff: "Option.bind m f = Some r \<longleftrightarrow> (\<exists>x. m = Some x \<and> f x = Some r)"
  by (cases m) auto

lemma distinct_split_first:
  "x \<in> set xs \<Longrightarrow> \<exists>ys zs. xs = ys @ x # zs \<and> x \<notin> set ys"
  by (rule split_list_first)

section \<open>Error codes\<close>

text \<open>The codes of \<open>libs/error.h\<close>; a function fails with the negated code.\<close>

abbreviation (input) E_UNSPECIFIED :: int where "E_UNSPECIFIED \<equiv> 1"
abbreviation (input) E_BAD_PROC :: int where "E_BAD_PROC \<equiv> 2"
abbreviation (input) E_INVAL :: int where "E_INVAL \<equiv> 3"
abbreviation (input) E_NO_MEM :: int where "E_NO_MEM \<equiv> 4"
abbreviation (input) E_NO_FREE_PROC :: int where "E_NO_FREE_PROC \<equiv> 5"
abbreviation (input) E_FAULT :: int where "E_FAULT \<equiv> 6"
abbreviation (input) E_INVAL_ELF :: int where "E_INVAL_ELF \<equiv> 8"
abbreviation (input) E_KILLED :: int where "E_KILLED \<equiv> 9"
abbreviation (input) E_TOO_BIG :: int where "E_TOO_BIG \<equiv> 12"
abbreviation (input) E_NO_DEV :: int where "E_NO_DEV \<equiv> 13"
abbreviation (input) E_NA_DEV :: int where "E_NA_DEV \<equiv> 14"
abbreviation (input) E_BUSY :: int where "E_BUSY \<equiv> 15"
abbreviation (input) E_NOENT :: int where "E_NOENT \<equiv> 16"
abbreviation (input) E_ISDIR :: int where "E_ISDIR \<equiv> 17"
abbreviation (input) E_NOTDIR :: int where "E_NOTDIR \<equiv> 18"
abbreviation (input) E_XDEV :: int where "E_XDEV \<equiv> 19"
abbreviation (input) E_UNIMP :: int where "E_UNIMP \<equiv> 20"
abbreviation (input) E_SEEK :: int where "E_SEEK \<equiv> 21"
abbreviation (input) E_MAX_OPEN :: int where "E_MAX_OPEN \<equiv> 22"
abbreviation (input) E_EXISTS :: int where "E_EXISTS \<equiv> 23"
abbreviation (input) E_NOTEMPTY :: int where "E_NOTEMPTY \<equiv> 24"

end
