(* ===== verification/Linked_List.thy ===== *)
theory Linked_List
  imports Prelude
begin

text \<open>
  The circular doubly linked lists of \<open>libs/list.h\<close>.  Entries are values of an address
  type \<open>'a\<close>; the two pointer fields of \<open>struct list_entry\<close> are two functions, and every
  routine updates them in the order of the source.  Whether the routines keep the
  structure consistent is not built in: it is what the lemmas about \<open>dlist\<close> show.
\<close>

section \<open>The routines of list.h\<close>

record 'a links =
  nxt :: "'a \<Rightarrow> 'a"
  prv :: "'a \<Rightarrow> 'a"

definition list_init :: "'a \<Rightarrow> 'a links \<Rightarrow> 'a links" where
  "list_init elm h = h\<lparr>nxt := (nxt h)(elm := elm), prv := (prv h)(elm := elm)\<rparr>"

text \<open>\<open>__list_add\<close>: \<open>prev->next = next->prev = elm; elm->next = next; elm->prev = prev\<close>.\<close>

definition list_add_raw :: "'a \<Rightarrow> 'a \<Rightarrow> 'a \<Rightarrow> 'a links \<Rightarrow> 'a links" where
  "list_add_raw elm prev next h =
     (let h1 = h\<lparr>prv := (prv h)(next := elm)\<rparr>;
          h2 = h1\<lparr>nxt := (nxt h1)(prev := elm)\<rparr>;
          h3 = h2\<lparr>nxt := (nxt h2)(elm := next)\<rparr>
      in h3\<lparr>prv := (prv h3)(elm := prev)\<rparr>)"

text \<open>\<open>__list_del\<close>: \<open>prev->next = next; next->prev = prev\<close>.\<close>

definition list_del_raw :: "'a \<Rightarrow> 'a \<Rightarrow> 'a links \<Rightarrow> 'a links" where
  "list_del_raw prev next h =
     (let h1 = h\<lparr>nxt := (nxt h)(prev := next)\<rparr>
      in h1\<lparr>prv := (prv h1)(next := prev)\<rparr>)"

definition list_add_after :: "'a \<Rightarrow> 'a \<Rightarrow> 'a links \<Rightarrow> 'a links" where
  "list_add_after listelm elm h = list_add_raw elm listelm (nxt h listelm) h"

definition list_add :: "'a \<Rightarrow> 'a \<Rightarrow> 'a links \<Rightarrow> 'a links" where
  "list_add listelm elm h = list_add_after listelm elm h"

definition list_add_before :: "'a \<Rightarrow> 'a \<Rightarrow> 'a links \<Rightarrow> 'a links" where
  "list_add_before listelm elm h = list_add_raw elm (prv h listelm) listelm h"

definition list_del :: "'a \<Rightarrow> 'a links \<Rightarrow> 'a links" where
  "list_del listelm h = list_del_raw (prv h listelm) (nxt h listelm) h"

definition list_del_init :: "'a \<Rightarrow> 'a links \<Rightarrow> 'a links" where
  "list_del_init listelm h = list_init listelm (list_del listelm h)"

definition list_empty :: "'a links \<Rightarrow> 'a \<Rightarrow> bool" where
  "list_empty h l \<longleftrightarrow> nxt h l = l"

definition list_next :: "'a links \<Rightarrow> 'a \<Rightarrow> 'a" where
  "list_next h listelm = nxt h listelm"

definition list_prev :: "'a links \<Rightarrow> 'a \<Rightarrow> 'a" where
  "list_prev h listelm = prv h listelm"

section \<open>Well-formed lists\<close>

text \<open>
  \<open>seg h a xs b\<close>: from \<open>a\<close> the \<open>next\<close> pointers run through \<open>xs\<close> to \<open>b\<close>, and the
  \<open>prev\<close> pointers run back the same way.  \<open>dlist h hd xs\<close>: a proper circular list with
  head \<open>hd\<close> and the entries \<open>xs\<close>.
\<close>

fun seg :: "'a links \<Rightarrow> 'a \<Rightarrow> 'a list \<Rightarrow> 'a \<Rightarrow> bool" where
  "seg h a [] b \<longleftrightarrow> nxt h a = b \<and> prv h b = a"
| "seg h a (x # xs) b \<longleftrightarrow> nxt h a = x \<and> prv h x = a \<and> seg h x xs b"

definition dlist :: "'a links \<Rightarrow> 'a \<Rightarrow> 'a list \<Rightarrow> bool" where
  "dlist h l xs \<longleftrightarrow> distinct (l # xs) \<and> seg h l xs l"

lemmas list_defs = list_init_def list_add_raw_def list_del_raw_def list_add_after_def
  list_add_def list_add_before_def list_del_def list_del_init_def list_empty_def
  list_next_def list_prev_def Let_def

lemma seg_append [simp]:
  "seg h a (xs @ y # ys) b \<longleftrightarrow> seg h a xs y \<and> seg h y ys b"
  by (induction xs arbitrary: a) auto

lemma seg_nxt_upd [simp]:
  "e \<noteq> a \<Longrightarrow> e \<notin> set xs \<Longrightarrow> seg (h\<lparr>nxt := (nxt h)(e := v)\<rparr>) a xs b = seg h a xs b"
  by (induction xs arbitrary: a) auto

lemma seg_prv_upd [simp]:
  "e \<noteq> b \<Longrightarrow> e \<notin> set xs \<Longrightarrow> seg (h\<lparr>prv := (prv h)(e := v)\<rparr>) a xs b = seg h a xs b"
  by (induction xs arbitrary: a) auto

lemma seg_cong_ext:
  assumes "\<And>x. x \<in> set (a # xs) \<Longrightarrow> nxt h' x = nxt h x"
    and "\<And>x. x \<in> set (xs @ [b]) \<Longrightarrow> prv h' x = prv h x"
  shows "seg h' a xs b = seg h a xs b"
  using assms by (induction xs arbitrary: a) auto

lemma seg_nxt_first: "seg h a xs b \<Longrightarrow> nxt h a = hd (xs @ [b])"
  by (cases xs) auto

lemma seg_prv_last: "seg h a xs b \<Longrightarrow> prv h b = last (a # xs)"
  by (induction xs arbitrary: a) auto

lemma dlist_distinct: "dlist h l xs \<Longrightarrow> distinct xs \<and> l \<notin> set xs"
  by (simp add: dlist_def)

lemma dlist_nxt_head: "dlist h l xs \<Longrightarrow> nxt h l = hd (xs @ [l])"
  by (simp add: dlist_def seg_nxt_first)

lemma dlist_prv_head: "dlist h l xs \<Longrightarrow> prv h l = last (l # xs)"
  unfolding dlist_def by (blast intro: seg_prv_last)

lemma dlist_nxt_mid: "dlist h l (xs @ x # ys) \<Longrightarrow> nxt h x = hd (ys @ [l])"
  by (auto simp: dlist_def dest: seg_nxt_first)

lemma dlist_prv_mid: "dlist h l (xs @ x # ys) \<Longrightarrow> prv h x = last (l # xs)"
  unfolding dlist_def seg_append by (blast intro: seg_prv_last)

lemma dlist_nxt_pos: "dlist h l (xs @ ys) \<Longrightarrow> nxt h (last (l # xs)) = hd (ys @ [l])"
  by (cases xs rule: rev_cases) (auto simp: dlist_nxt_head dlist_nxt_mid)

lemma dlist_empty_iff: "dlist h l xs \<Longrightarrow> list_empty h l \<longleftrightarrow> xs = []"
  by (cases xs) (auto simp: list_empty_def dlist_def)

lemma seg_unique:
  "seg h a xs l \<Longrightarrow> seg h a ys l \<Longrightarrow> l \<notin> set xs \<Longrightarrow> l \<notin> set ys \<Longrightarrow> xs = ys"
proof (induction xs arbitrary: a ys)
  case Nil
  then show ?case by (cases ys) auto
next
  case (Cons x xs)
  then show ?case by (cases ys) auto
qed

lemma dlist_unique: "dlist h l xs \<Longrightarrow> dlist h l ys \<Longrightarrow> xs = ys"
  by (auto simp: dlist_def dest: seg_unique)

text \<open>An entry that is not in a well-formed list is in no pointer of the list's members.\<close>

lemma seg_pred_mem: "seg h a xs b \<Longrightarrow> x \<in> set (xs @ [b]) \<Longrightarrow> prv h x \<in> set (a # xs)"
  by (induction xs arbitrary: a) auto

lemma seg_succ_mem: "seg h a xs b \<Longrightarrow> x \<in> set (a # xs) \<Longrightarrow> nxt h x \<in> set (xs @ [b])"
  by (induction xs arbitrary: a) auto

section \<open>The routines implement list operations\<close>

lemma dlist_init: "dlist (list_init l h) l []"
  by (simp add: dlist_def list_init_def)

lemma seg_insert:
  assumes "seg h a (xs @ ys) b" "distinct (a # xs @ ys)" "b \<notin> set (xs @ ys)"
    and "e \<notin> set (a # b # xs @ ys)"
  shows "seg (list_add_raw e (last (a # xs)) (hd (ys @ [b])) h) a (xs @ e # ys) b"
  using assms
proof (induction xs arbitrary: a)
  case Nil
  show ?case
  proof (cases ys)
    case Nil
    with Nil.prems show ?thesis by (auto simp: list_add_raw_def Let_def)
  next
    case (Cons y ys')
    with Nil.prems have "seg (list_add_raw e a y h) y ys' b = seg h y ys' b"
      by (intro seg_cong_ext) (auto simp: list_add_raw_def Let_def)
    with Cons Nil.prems show ?thesis by (auto simp: list_add_raw_def Let_def)
  qed
next
  case (Cons x xs)
  then have "seg (list_add_raw e (last (x # xs)) (hd (ys @ [b])) h) x (xs @ e # ys) b"
    by auto
  moreover have "x \<noteq> hd (ys @ [b])" "a \<noteq> last (x # xs)" "x \<noteq> e" "a \<noteq> e"
    using Cons.prems by (cases ys; auto split: if_splits)+
  ultimately show ?case using Cons.prems by (simp add: list_add_raw_def Let_def)
qed

lemma seg_delete:
  assumes "seg h a (xs @ e # ys) b" "distinct (a # xs @ e # ys)" "b \<notin> set (xs @ e # ys)"
  shows "seg (list_del_raw (last (a # xs)) (hd (ys @ [b])) h) a (xs @ ys) b"
  using assms
proof (induction xs arbitrary: a)
  case Nil
  show ?case
  proof (cases ys)
    case Nil
    with Nil.prems show ?thesis by (auto simp: list_del_raw_def Let_def)
  next
    case (Cons y ys')
    with Nil.prems have "seg (list_del_raw a y h) y ys' b = seg h y ys' b"
      by (intro seg_cong_ext) (auto simp: list_del_raw_def Let_def)
    with Cons Nil.prems show ?thesis by (auto simp: list_del_raw_def Let_def)
  qed
next
  case (Cons x xs)
  then have "seg (list_del_raw (last (x # xs)) (hd (ys @ [b])) h) x (xs @ ys) b"
    by auto
  moreover have "x \<noteq> hd (ys @ [b])" "a \<noteq> last (x # xs)"
    using Cons.prems by (cases ys; auto split: if_splits)+
  ultimately show ?case using Cons.prems by (cases xs) (simp_all add: list_del_raw_def Let_def)
qed

lemma dlist_add_raw:
  assumes "dlist h l (xs @ ys)" "e \<notin> set (l # xs @ ys)"
  shows "dlist (list_add_raw e (last (l # xs)) (hd (ys @ [l])) h) l (xs @ e # ys)"
  using assms seg_insert[of h l xs ys l e] by (auto simp: dlist_def)

text \<open>\<open>list_add x e\<close> inserts right after \<open>x\<close>, at the front when \<open>x\<close> is the head.\<close>

lemma dlist_add_head:
  "dlist h l xs \<Longrightarrow> e \<notin> set (l # xs) \<Longrightarrow> dlist (list_add l e h) l (e # xs)"
  using dlist_add_raw[of h l "[]" xs e]
  by (simp add: list_add_def list_add_after_def dlist_nxt_head)

lemma dlist_add_after:
  assumes "dlist h l (xs @ x # ys)" "e \<notin> set (l # xs @ x # ys)"
  shows "dlist (list_add x e h) l (xs @ x # e # ys)"
  using dlist_add_raw[of h l "xs @ [x]" ys e] assms dlist_nxt_mid[of h l xs x ys]
  by (simp add: list_add_def list_add_after_def)

lemma dlist_add_last:
  assumes "dlist h l (xs @ ys)" "e \<notin> set (l # xs @ ys)"
  shows "dlist (list_add (last (l # xs)) e h) l (xs @ e # ys)"
proof (cases xs rule: rev_cases)
  case Nil
  with assms dlist_add_head[of h l ys e] show ?thesis by simp
next
  case (snoc zs z)
  with assms dlist_add_after[of h l zs z ys e] show ?thesis by simp
qed

text \<open>\<open>list_add_before x e\<close> inserts right before \<open>x\<close>, at the tail when \<open>x\<close> is the head.\<close>

lemma dlist_add_before_head:
  "dlist h l xs \<Longrightarrow> e \<notin> set (l # xs) \<Longrightarrow> dlist (list_add_before l e h) l (xs @ [e])"
  using dlist_add_raw[of h l xs "[]" e]
  by (simp add: list_add_before_def dlist_prv_head)

lemma dlist_add_before:
  assumes "dlist h l (xs @ x # ys)" "e \<notin> set (l # xs @ x # ys)"
  shows "dlist (list_add_before x e h) l (xs @ e # x # ys)"
  using dlist_add_raw[of h l xs "x # ys" e] assms dlist_prv_mid[of h l xs x ys]
  by (simp add: list_add_before_def)

lemma dlist_del:
  assumes "dlist h l (xs @ e # ys)"
  shows "dlist (list_del e h) l (xs @ ys)"
  using assms seg_delete[of h l xs e ys l] dlist_nxt_mid[OF assms] dlist_prv_mid[OF assms]
  by (simp add: dlist_def list_del_def)

lemma dlist_frame_init: "dlist h l xs \<Longrightarrow> e \<notin> set (l # xs) \<Longrightarrow> dlist (list_init e h) l xs"
  unfolding dlist_def list_init_def
  by (subst seg_cong_ext[where h = h]) auto

lemma dlist_del_init:
  assumes "dlist h l (xs @ e # ys)"
  shows "dlist (list_del_init e h) l (xs @ ys)" "list_empty (list_del_init e h) e"
proof -
  from assms have "e \<notin> set (l # xs @ ys)" by (auto simp: dlist_def)
  with dlist_del[OF assms] show "dlist (list_del_init e h) l (xs @ ys)"
    unfolding list_del_init_def by (rule dlist_frame_init)
  show "list_empty (list_del_init e h) e"
    by (simp add: list_del_init_def list_init_def list_empty_def)
qed

text \<open>A member of a list is never \<open>list_empty\<close>: the test the callers use for membership.\<close>

lemma dlist_member_not_empty: "dlist h l xs \<Longrightarrow> x \<in> set xs \<Longrightarrow> \<not> list_empty h x"
proof -
  assume d: "dlist h l xs" and "x \<in> set xs"
  then obtain ys zs where xs: "xs = ys @ x # zs" by (auto dest: split_list)
  with d have "nxt h x = hd (zs @ [l])" by (simp add: dlist_nxt_mid)
  moreover from d xs have "x \<notin> set (zs @ [l])" by (auto simp: dlist_def)
  ultimately show ?thesis by (cases zs) (auto simp: list_empty_def)
qed

text \<open>Entries of two lists in the same heap do not disturb each other.\<close>

lemma dlist_add_before_other:
  assumes d: "dlist h l xs" and o: "dlist h l' ys" and disj: "set (l # xs) \<inter> set (l' # ys) = {}"
    and e: "e \<notin> set (l # xs)"
  shows "dlist (list_add_before l' e h) l xs"
proof -
  have "prv h l' \<in> set (l' # ys)" using o by (simp add: dlist_prv_head)
  with assms show ?thesis
    unfolding dlist_def list_add_before_def list_add_raw_def Let_def
    by (subst seg_cong_ext[where h = h]) (auto dest: disjoint_iff[THEN iffD1])
qed

lemma dlist_add_head_other:
  assumes d: "dlist h l xs" and o: "dlist h l' ys" and disj: "set (l # xs) \<inter> set (l' # ys) = {}"
    and e: "e \<notin> set (l # xs)"
  shows "dlist (list_add l' e h) l xs"
proof -
  have "nxt h l' \<in> set (l' # ys)" using o by (cases ys) (simp_all add: dlist_nxt_head)
  with assms show ?thesis
    unfolding dlist_def list_add_def list_add_after_def list_add_raw_def Let_def
    by (subst seg_cong_ext[where h = h]) (auto dest: disjoint_iff[THEN iffD1])
qed

lemma dlist_del_other:
  assumes d: "dlist h l xs" and o: "dlist h l' (ys @ e # zs)"
    and disj: "set (l # xs) \<inter> set (l' # ys @ e # zs) = {}"
  shows "dlist (list_del e h) l xs"
proof -
  have "nxt h e \<in> set (l' # ys @ e # zs)" "prv h e \<in> set (l' # ys @ e # zs)"
    using dlist_nxt_mid[OF o] dlist_prv_mid[OF o] last_in_set[of "l' # ys"]
    by (cases zs; auto split: if_splits)+
  with assms show ?thesis
    unfolding dlist_def list_del_def list_del_raw_def Let_def
    by (subst seg_cong_ext[where h = h]) (auto dest: disjoint_iff[THEN iffD1])
qed

end
