(* ===== verification/Page_Frames.thy ===== *)
theory Page_Frames
  imports Linked_List
begin

text \<open>
  The physical-page descriptors (\<open>struct Page\<close> of \<open>kern/mm/memlayout.h\<close>), the free
  list of the list-based page managers, and the steps that \<open>default_pmm.c\<close> and
  \<open>best_fit_pmm.c\<close> have in common: taking a block off the list and merging two adjacent
  blocks.  A page is named by its index in the \<open>pages\<close> array, so the pointer comparison
  \<open>base < page\<close> and the pointer sum \<open>page + n\<close> are comparison and sum of indices.  Of
  the flag word the model keeps the two bits the code uses.  The counters are natural
  numbers: every subtraction of the code is guarded, and a sum of page counts stays far
  below the width of \<open>unsigned int\<close>.
\<close>

section \<open>Page descriptors and the free area\<close>

record page =
  ref :: int
  PG_reserved :: bool
  PG_property :: bool
  property :: nat

datatype page_node = FreeList | PageLink nat

record free_area =
  pages :: "nat \<Rightarrow> page"
  free_list :: "page_node links"
  nr_free :: nat

definition upd_page :: "nat \<Rightarrow> (page \<Rightarrow> page) \<Rightarrow> free_area \<Rightarrow> free_area" where
  "upd_page p f s = s\<lparr>pages := (pages s)(p := f (pages s p))\<rparr>"

definition SetPageProperty :: "nat \<Rightarrow> free_area \<Rightarrow> free_area" where
  "SetPageProperty p = upd_page p (PG_property_update (\<lambda>_. True))"

definition ClearPageProperty :: "nat \<Rightarrow> free_area \<Rightarrow> free_area" where
  "ClearPageProperty p = upd_page p (PG_property_update (\<lambda>_. False))"

definition set_property :: "nat \<Rightarrow> nat \<Rightarrow> free_area \<Rightarrow> free_area" where
  "set_property p n = upd_page p (property_update (\<lambda>_. n))"

text \<open>The loop \<open>for (p = base; p != base + n; p ++)\<close> over page descriptors.\<close>

fun for_pages :: "(nat \<Rightarrow> free_area \<Rightarrow> free_area option) \<Rightarrow> nat \<Rightarrow> nat \<Rightarrow> free_area \<Rightarrow> free_area option" where
  "for_pages body p 0 s = Some s"
| "for_pages body p (Suc k) s = do { s' \<leftarrow> body p s; for_pages body (p + 1) k s' }"

text \<open>
  What both allocators do with the block they chose: unlink it, put the tail back behind
  the old predecessor when the block is larger than \<open>n\<close>, adjust the count and clear the
  head flag.
\<close>

definition take_block :: "nat \<Rightarrow> nat \<Rightarrow> free_area \<Rightarrow> free_area" where
  "take_block page n s =
     (let prev = list_prev (free_list s) (PageLink page);
          s1 = s\<lparr>free_list := list_del (PageLink page) (free_list s)\<rparr>;
          s2 = (if property (pages s1 page) > n
                then let p = page + n;
                         t1 = set_property p (property (pages s1 page) - n) s1;
                         t2 = SetPageProperty p t1
                     in t2\<lparr>free_list := list_add prev (PageLink p) (free_list t2)\<rparr>
                else s1);
          s3 = s2\<lparr>nr_free := nr_free s2 - n\<rparr>
      in ClearPageProperty page s3)"

text \<open>Block \<open>b\<close> is merged into the block \<open>a\<close> that ends where \<open>b\<close> starts.\<close>

definition absorb :: "nat \<Rightarrow> nat \<Rightarrow> free_area \<Rightarrow> free_area" where
  "absorb a b s =
     (let s1 = set_property a (property (pages s a) + property (pages s b)) s;
          s2 = ClearPageProperty b s1
      in s2\<lparr>free_list := list_del (PageLink b) (free_list s2)\<rparr>)"

text \<open>The two merge attempts at the end of both \<open>free_pages\<close> functions.\<close>

definition merge_neighbours :: "nat \<Rightarrow> free_area \<Rightarrow> free_area" where
  "merge_neighbours base s =
     (let (base', s') =
        (case list_prev (free_list s) (PageLink base) of
           FreeList \<Rightarrow> (base, s)
         | PageLink p \<Rightarrow>
             if p + property (pages s p) = base then (p, absorb p base s) else (base, s))
      in case list_next (free_list s') (PageLink base') of
           FreeList \<Rightarrow> s'
         | PageLink p \<Rightarrow>
             if base' + property (pages s' base') = p then absorb base' p s' else s')"

section \<open>The free list as a set of frames\<close>

abbreviation prop_of :: "free_area \<Rightarrow> nat \<Rightarrow> nat" where
  "prop_of s b \<equiv> property (pages s b)"

definition blocks :: "(nat \<Rightarrow> nat) \<Rightarrow> nat list \<Rightarrow> bool" where
  "blocks P bs \<longleftrightarrow> sorted_wrt (\<lambda>a b. a + P a \<le> b) bs \<and> (\<forall>b \<in> set bs. 0 < P b)"

definition frames :: "(nat \<Rightarrow> nat) \<Rightarrow> nat list \<Rightarrow> nat set" where
  "frames P bs = (\<Union>b \<in> set bs. {b..<b + P b})"

text \<open>
  \<open>fl_inv s bs\<close>: the free list is a proper doubly linked list of the blocks \<open>bs\<close>, in
  address order and disjoint; the count is their total size; inside the free frames
  exactly the block heads carry the property flag, and no frame is reserved.
\<close>

definition fl_inv :: "free_area \<Rightarrow> nat list \<Rightarrow> bool" where
  "fl_inv s bs \<longleftrightarrow>
     dlist (free_list s) FreeList (map PageLink bs)
     \<and> blocks (prop_of s) bs
     \<and> nr_free s = sum_list (map (prop_of s) bs)
     \<and> (\<forall>p \<in> frames (prop_of s) bs.
          \<not> PG_reserved (pages s p) \<and> (PG_property (pages s p) \<longleftrightarrow> p \<in> set bs))"

abbreviation free_frames :: "free_area \<Rightarrow> nat list \<Rightarrow> nat set" where
  "free_frames s bs \<equiv> frames (prop_of s) bs"

lemmas page_upd_defs = upd_page_def SetPageProperty_def ClearPageProperty_def set_property_def

lemma frames_simps [simp]:
  "frames P [] = {}"
  "frames P (b # bs) = {b..<b + P b} \<union> frames P bs"
  "frames P (xs @ ys) = frames P xs \<union> frames P ys"
  by (auto simp: frames_def)

lemma frames_cong: "(\<And>b. b \<in> set bs \<Longrightarrow> P b = Q b) \<Longrightarrow> frames P bs = frames Q bs"
  by (simp add: frames_def)

lemma blocks_append:
  "blocks P (xs @ ys) \<longleftrightarrow>
     blocks P xs \<and> blocks P ys \<and> (\<forall>x \<in> set xs. \<forall>y \<in> set ys. x + P x \<le> y)"
  by (auto simp: blocks_def sorted_wrt_append)

lemma blocks_Cons:
  "blocks P (b # bs) \<longleftrightarrow> 0 < P b \<and> blocks P bs \<and> (\<forall>y \<in> set bs. b + P b \<le> y)"
  by (auto simp: blocks_def)

lemma blocks_Nil [simp]: "blocks P []"
  by (simp add: blocks_def)

lemmas blocks_simps = blocks_append blocks_Cons

lemma blocks_cong: "(\<And>b. b \<in> set bs \<Longrightarrow> P b = Q b) \<Longrightarrow> blocks P bs = blocks Q bs"
  by (induction bs) (auto simp: blocks_Cons)

lemma head_in_frames: "blocks P bs \<Longrightarrow> b \<in> set bs \<Longrightarrow> b \<in> frames P bs"
  by (force simp: blocks_def frames_def)

lemma frames_finite [simp]: "finite (frames P bs)"
  by (simp add: frames_def)

lemma frames_above: "\<forall>y \<in> set bs. m \<le> y \<Longrightarrow> p \<in> frames P bs \<Longrightarrow> m \<le> p"
  by (force simp: frames_def)

lemma frames_below: "\<forall>x \<in> set bs. x + P x \<le> m \<Longrightarrow> p \<in> frames P bs \<Longrightarrow> p < m"
  by (force simp: frames_def)

lemma card_frames: "blocks P bs \<Longrightarrow> card (frames P bs) = sum_list (map P bs)"
proof (induction bs)
  case (Cons b bs)
  then have "{b..<b + P b} \<inter> frames P bs = {}"
    by (auto simp: blocks_Cons dest: frames_above)
  with Cons show ?case by (simp add: blocks_Cons card_Un_disjoint)
qed simp

lemma fl_inv_nr_free: "fl_inv s bs \<Longrightarrow> nr_free s = card (free_frames s bs)"
  by (simp add: fl_inv_def card_frames)

lemma inj_PageLink: "inj PageLink"
  by (simp add: inj_def)

lemma fl_inv_unique: "fl_inv s bs \<Longrightarrow> fl_inv s cs \<Longrightarrow> bs = cs"
  unfolding fl_inv_def using dlist_unique
  by (metis inj_PageLink map_injective)

text \<open>Facts about one block in the middle of the free list.\<close>

lemma blocks_middle:
  assumes "blocks P (xs @ b # ys)"
  shows "\<And>p. p \<in> frames P xs \<Longrightarrow> p < b" "\<And>p. p \<in> frames P ys \<Longrightarrow> b + P b \<le> p"
    "\<And>x. x \<in> set xs \<Longrightarrow> x < b" "\<And>y. y \<in> set ys \<Longrightarrow> b + P b \<le> y" "0 < P b"
proof -
  from assms have b: "0 < P b" "\<forall>x \<in> set xs. x + P x \<le> b" "\<forall>x \<in> set xs. 0 < P x"
    "\<forall>y \<in> set ys. b + P b \<le> y"
    by (auto simp: blocks_def sorted_wrt_append)
  show "\<And>p. p \<in> frames P xs \<Longrightarrow> p < b" using b(2) by (rule frames_below)
  show "\<And>p. p \<in> frames P ys \<Longrightarrow> b + P b \<le> p" using b(4) by (rule frames_above)
  show "\<And>x. x \<in> set xs \<Longrightarrow> x < b" using b(2,3) by force
  show "\<And>y. y \<in> set ys \<Longrightarrow> b + P b \<le> y" "0 < P b" using b by auto
qed

lemma take_block_nr_free: "nr_free (take_block b n s) = nr_free s - n"
  by (simp add: take_block_def page_upd_defs Let_def)

lemma take_block_exact:
  assumes inv: "fl_inv s (xs @ b # ys)" and n: "prop_of s b = n"
  shows "fl_inv (take_block b n s) (xs @ ys)"
    and "free_frames (take_block b n s) (xs @ ys) = free_frames s (xs @ b # ys) - {b..<b + n}"
proof -
  let ?t = "take_block b n s"
  have pr: "prop_of ?t = prop_of s"
    using n by (auto simp: take_block_def page_upd_defs Let_def fun_eq_iff)
  note mid = blocks_middle[of "prop_of s" xs b ys]
  from inv have bl: "blocks (prop_of s) (xs @ b # ys)" by (simp add: fl_inv_def)
  have nin: "b \<notin> frames (prop_of s) (xs @ ys)" using mid[OF bl] by force
  show fr: "free_frames ?t (xs @ ys) = free_frames s (xs @ b # ys) - {b..<b + n}"
    using mid[OF bl] n unfolding pr by fastforce
  have "dlist (free_list ?t) FreeList (map PageLink (xs @ ys))"
    using inv n dlist_del[of "free_list s" FreeList "map PageLink xs" "PageLink b"]
    by (auto simp: fl_inv_def take_block_def page_upd_defs Let_def)
  moreover have "nr_free ?t = sum_list (map (prop_of ?t) (xs @ ys))"
    using inv n unfolding pr by (auto simp: fl_inv_def take_block_def page_upd_defs Let_def)
  moreover have "\<forall>p \<in> free_frames ?t (xs @ ys).
      \<not> PG_reserved (pages ?t p) \<and> (PG_property (pages ?t p) \<longleftrightarrow> p \<in> set (xs @ ys))"
    using inv n nin unfolding pr
    by (auto simp: fl_inv_def take_block_def page_upd_defs Let_def)
  ultimately show "fl_inv ?t (xs @ ys)"
    using bl unfolding fl_inv_def pr by (simp add: blocks_simps)
qed

lemma take_block_split:
  assumes inv: "fl_inv s (xs @ b # ys)" and n: "0 < n" "n < prop_of s b"
  shows "fl_inv (take_block b n s) (xs @ (b + n) # ys)"
    and "free_frames (take_block b n s) (xs @ (b + n) # ys) = free_frames s (xs @ b # ys) - {b..<b + n}"
proof -
  let ?t = "take_block b n s"
  have pr: "prop_of ?t = (prop_of s)(b + n := prop_of s b - n)"
    using n by (auto simp: take_block_def page_upd_defs Let_def fun_eq_iff)
  from inv have bl: "blocks (prop_of s) (xs @ b # ys)" by (simp add: fl_inv_def)
  note mid = blocks_middle[OF bl]
  have new: "b + n \<notin> set (xs @ ys)" using mid n by force
  then have prc: "\<And>x. x \<in> set xs \<Longrightarrow> prop_of ?t x = prop_of s x"
    "\<And>x. x \<in> set ys \<Longrightarrow> prop_of ?t x = prop_of s x"
    using fun_cong[OF pr] by auto
  have bx: "blocks (prop_of ?t) xs = blocks (prop_of s) xs"
    "blocks (prop_of ?t) ys = blocks (prop_of s) ys"
    using prc by (simp_all cong: blocks_cong)
  have fx: "frames (prop_of ?t) xs = frames (prop_of s) xs"
    "frames (prop_of ?t) ys = frames (prop_of s) ys"
    using frames_cong[OF prc(1)] frames_cong[OF prc(2)] by simp_all
  have "b \<notin> frames (prop_of s) xs" "b \<notin> frames (prop_of s) ys" using mid by force+
  then show fr: "free_frames ?t (xs @ (b + n) # ys) = free_frames s (xs @ b # ys) - {b..<b + n}"
    using mid n fx by (fastforce simp: pr)
  have "dlist (list_del (PageLink b) (free_list s)) FreeList (map PageLink xs @ map PageLink ys)"
    using inv dlist_del[of "free_list s" FreeList "map PageLink xs" "PageLink b"]
    by (auto simp: fl_inv_def)
  moreover have "list_prev (free_list s) (PageLink b) = last (FreeList # map PageLink xs)"
    using inv dlist_prv_mid[of "free_list s" FreeList "map PageLink xs" "PageLink b"]
    by (auto simp: fl_inv_def list_prev_def)
  moreover have "PageLink (b + n) \<notin> set (FreeList # map PageLink xs @ map PageLink ys)"
    using new by auto
  ultimately have "dlist (free_list ?t) FreeList (map PageLink (xs @ (b + n) # ys))"
    using n dlist_add_last[of "list_del (PageLink b) (free_list s)" FreeList "map PageLink xs"
        "map PageLink ys" "PageLink (b + n)"]
    by (auto simp: take_block_def page_upd_defs Let_def)
  moreover have m: "map (prop_of ?t) xs = map (prop_of s) xs"
    "map (prop_of ?t) ys = map (prop_of s) ys"
    using prc by (auto intro: map_cong)
  have "nr_free ?t = sum_list (map (prop_of ?t) (xs @ (b + n) # ys))"
    using inv n fun_cong[OF pr, of "b + n"] by (simp add: m fl_inv_def take_block_nr_free)
  moreover have "\<forall>p \<in> free_frames ?t (xs @ (b + n) # ys).
      \<not> PG_reserved (pages ?t p) \<and> (PG_property (pages ?t p) \<longleftrightarrow> p \<in> set (xs @ (b + n) # ys))"
    unfolding fr using inv n
    by (auto simp: fl_inv_def take_block_def page_upd_defs Let_def)
  moreover have "blocks (prop_of ?t) (xs @ (b + n) # ys)"
    using bl n fun_cong[OF pr, of "b + n"] by (auto simp: blocks_simps bx prc)
  ultimately show "fl_inv ?t (xs @ (b + n) # ys)" by (simp add: fl_inv_def)
qed

lemma absorb_nr_free: "nr_free (absorb a b s) = nr_free s"
  by (simp add: absorb_def page_upd_defs Let_def)

lemma absorb_inv:
  assumes inv: "fl_inv s (xs @ a # b # ys)" and adj: "a + prop_of s a = b"
  shows "fl_inv (absorb a b s) (xs @ a # ys)"
    and "free_frames (absorb a b s) (xs @ a # ys) = free_frames s (xs @ a # b # ys)"
proof -
  let ?t = "absorb a b s"
  from inv have bl: "blocks (prop_of s) (xs @ a # b # ys)" by (simp add: fl_inv_def)
  note mida = blocks_middle[OF bl]
  have pr: "prop_of ?t = (prop_of s)(a := prop_of s a + prop_of s b)"
    by (auto simp: absorb_def page_upd_defs Let_def fun_eq_iff)
  have ne: "a \<notin> set xs" "a \<notin> set ys" using mida by force+
  then have prc: "\<And>x. x \<in> set xs \<Longrightarrow> prop_of ?t x = prop_of s x"
    "\<And>x. x \<in> set ys \<Longrightarrow> prop_of ?t x = prop_of s x"
    using fun_cong[OF pr] by auto
  have bx: "blocks (prop_of ?t) xs = blocks (prop_of s) xs"
    "blocks (prop_of ?t) ys = blocks (prop_of s) ys"
    using prc by (simp_all cong: blocks_cong)
  have fx: "frames (prop_of ?t) xs = frames (prop_of s) xs"
    "frames (prop_of ?t) ys = frames (prop_of s) ys"
    using frames_cong[OF prc(1)] frames_cong[OF prc(2)] by simp_all
  show fr: "free_frames ?t (xs @ a # ys) = free_frames s (xs @ a # b # ys)"
    using fx adj by (auto simp: pr)
  have "dlist (free_list ?t) FreeList (map PageLink (xs @ a # ys))"
    using inv dlist_del[of "free_list s" FreeList "map PageLink (xs @ [a])" "PageLink b"]
    by (auto simp: fl_inv_def absorb_def page_upd_defs Let_def)
  moreover have m: "map (prop_of ?t) xs = map (prop_of s) xs"
    "map (prop_of ?t) ys = map (prop_of s) ys"
    using prc by (auto intro: map_cong)
  have "nr_free ?t = sum_list (map (prop_of ?t) (xs @ a # ys))"
    using inv fun_cong[OF pr, of a] by (simp add: m fl_inv_def absorb_nr_free)
  moreover have "b \<notin> set (xs @ a # ys)"
    using bl adj mida by (force simp: blocks_simps)
  then have "\<forall>p \<in> free_frames ?t (xs @ a # ys).
      \<not> PG_reserved (pages ?t p) \<and> (PG_property (pages ?t p) \<longleftrightarrow> p \<in> set (xs @ a # ys))"
    unfolding fr using inv
    by (auto simp: fl_inv_def absorb_def page_upd_defs Let_def)
  moreover have "blocks (prop_of ?t) (xs @ a # ys)"
    using bl adj fun_cong[OF pr, of a] by (auto simp: blocks_simps bx prc)
  ultimately show "fl_inv ?t (xs @ a # ys)" by (simp add: fl_inv_def)
qed

text \<open>
  Merging keeps the free frames.  The freed block is at its place in the list; the result
  list lacks it, its successor, or both.
\<close>

lemma merge_neighbours_inv:
  assumes inv: "fl_inv s (xs @ b # ys)"
  shows "\<exists>cs. fl_inv (merge_neighbours b s) cs
    \<and> free_frames (merge_neighbours b s) cs = free_frames s (xs @ b # ys)"
proof -
  define r where "r = (case list_prev (free_list s) (PageLink b) of
       FreeList \<Rightarrow> (b, s)
     | PageLink p \<Rightarrow> if p + prop_of s p = b then (p, absorb p b s) else (b, s))"
  have "\<exists>us. fl_inv (snd r) (us @ fst r # ys)
    \<and> free_frames (snd r) (us @ fst r # ys) = free_frames s (xs @ b # ys)"
  proof (cases xs rule: rev_cases)
    case Nil
    with inv have "list_prev (free_list s) (PageLink b) = FreeList"
      by (simp add: fl_inv_def dlist_def list_prev_def)
    with inv Nil show ?thesis by (intro exI[of _ "[]"]) (simp add: r_def)
  next
    case (snoc us p)
    with inv have "list_prev (free_list s) (PageLink b) = PageLink p"
      by (simp add: fl_inv_def dlist_def list_prev_def)
    then have r: "r = (if p + prop_of s p = b then (p, absorb p b s) else (b, s))"
      by (simp add: r_def)
    show ?thesis
    proof (cases "p + prop_of s p = b")
      case True
      with inv snoc r absorb_inv[of s us p b ys] show ?thesis by (intro exI[of _ us]) simp
    next
      case False
      with inv r show ?thesis by (intro exI[of _ xs]) simp
    qed
  qed
  then obtain us where us: "fl_inv (snd r) (us @ fst r # ys)"
    "free_frames (snd r) (us @ fst r # ys) = free_frames s (xs @ b # ys)" by blast
  have m: "merge_neighbours b s = (case list_next (free_list (snd r)) (PageLink (fst r)) of
       FreeList \<Rightarrow> snd r
     | PageLink p \<Rightarrow> if fst r + prop_of (snd r) (fst r) = p then absorb (fst r) p (snd r) else snd r)"
    unfolding merge_neighbours_def r_def by (simp add: Let_def case_prod_unfold)
  show ?thesis
  proof (cases ys)
    case Nil
    with us(1) have "list_next (free_list (snd r)) (PageLink (fst r)) = FreeList"
      by (simp add: fl_inv_def dlist_def list_next_def)
    with us m show ?thesis by auto
  next
    case (Cons y zs)
    with us(1) have "list_next (free_list (snd r)) (PageLink (fst r)) = PageLink y"
      by (simp add: fl_inv_def dlist_def list_next_def)
    with us Cons m absorb_inv[of "snd r" us "fst r" y zs] show ?thesis
      by (cases "fst r + prop_of (snd r) (fst r) = y") auto
  qed
qed

text \<open>A loop over consecutive descriptors whose body keeps the links and the count.\<close>

lemma for_pages_effect:
  assumes body: "\<And>q s. ok (pages s q) \<Longrightarrow> body q s = Some (upd_page q f s)"
    and ok: "\<forall>q \<in> {p..<p + n}. ok (pages s q)"
  shows "for_pages body p n s
    = Some (s\<lparr>pages := (\<lambda>q. if p \<le> q \<and> q < p + n then f (pages s q) else pages s q)\<rparr>)"
  using ok
proof (induction n arbitrary: p s)
  case 0
  have "(\<lambda>q. if p \<le> q \<and> q < p + 0 then f (pages s q) else pages s q) = pages s" by (rule ext) auto
  then show ?case by simp
next
  case (Suc n)
  then have "for_pages body (p + 1) n (upd_page p f s)
      = Some (upd_page p f s\<lparr>pages := (\<lambda>q. if p + 1 \<le> q \<and> q < p + 1 + n
          then f (pages (upd_page p f s) q) else pages (upd_page p f s) q)\<rparr>)"
    by (intro Suc.IH) (auto simp: upd_page_def)
  moreover have "body p s = Some (upd_page p f s)" using Suc.prems by (intro body) auto
  ultimately show ?case by (auto simp: upd_page_def fun_eq_iff)
qed

lemma split_blocks:
  assumes "blocks P bs" "{b..<b + n} \<inter> frames P bs = {}" "0 < n"
  shows "\<exists>xs ys. bs = xs @ ys \<and> (\<forall>x \<in> set xs. x + P x \<le> b) \<and> (\<forall>y \<in> set ys. b + n \<le> y)"
  using assms
proof (induction bs)
  case Nil
  then show ?case by simp
next
  case (Cons c bs)
  from Cons.prems have c: "0 < P c" "\<forall>y \<in> set bs. c + P c \<le> y" "blocks P bs"
    "{b..<b + n} \<inter> {c..<c + P c} = {}" "{b..<b + n} \<inter> frames P bs = {}"
    unfolding blocks_Cons frames_simps Int_Un_distrib by simp_all
  show ?case
  proof (cases "b + n \<le> c")
    case True
    with c have "\<forall>y \<in> set (c # bs). b + n \<le> y" by force
    then show ?thesis by (intro exI[of _ "[]"] exI[of _ "c # bs"]) simp
  next
    case False
    have "c + P c \<le> b"
    proof (rule ccontr)
      assume "\<not> c + P c \<le> b"
      with False have "max b c \<in> {b..<b + n} \<inter> {c..<c + P c}" using c(1) Cons.prems(3) by auto
      with c(4) show False by simp
    qed
    moreover obtain xs ys where "bs = xs @ ys" "\<forall>x \<in> set xs. x + P x \<le> b"
      "\<forall>y \<in> set ys. b + n \<le> y"
      using Cons.IH[OF c(3,5) Cons.prems(3)] by blast
    ultimately show ?thesis by (intro exI[of _ "c # xs"] exI[of _ ys]) simp
  qed
qed

text \<open>
  Linking a freshly reset run of frames into the list at its place gives a list with the
  run as a new block: what both \<open>free_pages\<close> functions and both \<open>init_memmap\<close> functions
  establish before they merge.
\<close>

lemma link_block_inv:
  assumes inv: "fl_inv s (xs @ ys)"
    and lo: "\<forall>x \<in> set xs. x + prop_of s x \<le> b" and hi: "\<forall>y \<in> set ys. b + n \<le> y" and n: "0 < n"
    and dl: "dlist (free_list t) FreeList (map PageLink (xs @ b # ys))"
    and nf: "nr_free t = nr_free s + n"
    and same: "\<forall>q. q \<notin> {b..<b + n} \<longrightarrow> pages t q = pages s q"
    and blk: "prop_of t b = n" "\<forall>q \<in> {b..<b + n}. \<not> PG_reserved (pages t q)
        \<and> (PG_property (pages t q) \<longleftrightarrow> q = b)"
  shows "fl_inv t (xs @ b # ys)"
    and "free_frames t (xs @ b # ys) = free_frames s (xs @ ys) \<union> {b..<b + n}"
proof -
  have bl: "blocks (prop_of s) (xs @ ys)" using inv by (simp add: fl_inv_def)
  have "x < b" if "x \<in> set xs" for x
  proof -
    from that bl have "0 < prop_of s x" by (simp add: blocks_def)
    with that lo show ?thesis by fastforce
  qed
  then have out: "\<And>x. x \<in> set xs \<union> set ys \<Longrightarrow> x \<notin> {b..<b + n}"
    using hi by fastforce
  then have prc: "\<And>x. x \<in> set xs \<Longrightarrow> prop_of t x = prop_of s x"
    "\<And>x. x \<in> set ys \<Longrightarrow> prop_of t x = prop_of s x"
    using same by auto
  have bx: "blocks (prop_of t) xs = blocks (prop_of s) xs"
    "blocks (prop_of t) ys = blocks (prop_of s) ys"
    using prc by (simp_all cong: blocks_cong)
  have fx: "frames (prop_of t) xs = frames (prop_of s) xs"
    "frames (prop_of t) ys = frames (prop_of s) ys"
    using frames_cong[OF prc(1)] frames_cong[OF prc(2)] by simp_all
  have m: "map (prop_of t) xs = map (prop_of s) xs" "map (prop_of t) ys = map (prop_of s) ys"
    using prc by (auto intro: map_cong)
  show fr: "free_frames t (xs @ b # ys) = free_frames s (xs @ ys) \<union> {b..<b + n}"
    using fx blk(1) by auto
  have dis: "p \<notin> {b..<b + n}" if "p \<in> free_frames s (xs @ ys)" for p
    using that frames_below[OF lo, of p] frames_above[OF hi, of p] by fastforce
  have "blocks (prop_of t) (xs @ b # ys)"
    using bl lo hi n blk(1) by (auto simp: blocks_simps bx prc)
  moreover have "nr_free t = sum_list (map (prop_of t) (xs @ b # ys))"
    using inv nf blk(1) by (simp add: m fl_inv_def)
  moreover have "\<forall>p \<in> free_frames t (xs @ b # ys).
      \<not> PG_reserved (pages t p) \<and> (PG_property (pages t p) \<longleftrightarrow> p \<in> set (xs @ b # ys))"
  proof
    fix p assume "p \<in> free_frames t (xs @ b # ys)"
    then consider "p \<in> free_frames s (xs @ ys)" | "p \<in> {b..<b + n}" unfolding fr by blast
    then show "\<not> PG_reserved (pages t p) \<and> (PG_property (pages t p) \<longleftrightarrow> p \<in> set (xs @ b # ys))"
    proof cases
      case 1
      with dis[OF 1] same inv n show ?thesis by (auto simp: fl_inv_def)
    next
      case 2
      with blk(2) out n show ?thesis by auto
    qed
  qed
  ultimately show "fl_inv t (xs @ b # ys)" using dl by (simp add: fl_inv_def)
qed

text \<open>The place of a run among the blocks, and the state right after it was linked there.\<close>

definition placed :: "free_area \<Rightarrow> nat list \<Rightarrow> nat \<Rightarrow> nat \<Rightarrow> nat list \<Rightarrow> bool" where
  "placed s xs b n ys \<longleftrightarrow> (\<forall>x \<in> set xs. x + prop_of s x \<le> b) \<and> (\<forall>y \<in> set ys. b + n \<le> y)
     \<and> (\<forall>x \<in> set xs. x < b) \<and> (\<forall>y \<in> set ys. b < y) \<and> b \<notin> set (xs @ ys)"

lemma block_place:
  assumes "fl_inv s bs" "{b..<b + n} \<inter> free_frames s bs = {}" "0 < n"
  shows "\<exists>xs ys. bs = xs @ ys \<and> placed s xs b n ys"
proof -
  from assms(1) have bl: "blocks (prop_of s) bs" by (simp add: fl_inv_def)
  from split_blocks[OF bl assms(2,3)] obtain xs ys where bs: "bs = xs @ ys"
    and lo: "\<forall>x \<in> set xs. x + prop_of s x \<le> b" and hi: "\<forall>y \<in> set ys. b + n \<le> y" by blast
  have xlt: "x < b" if "x \<in> set xs" for x
  proof -
    from that bl bs have "0 < prop_of s x" by (simp add: blocks_def)
    with that lo show ?thesis by fastforce
  qed
  then have "placed s xs b n ys" using lo hi assms(3) by (fastforce simp: placed_def)
  with bs show ?thesis by blast
qed

definition linked :: "nat \<Rightarrow> nat \<Rightarrow> free_area \<Rightarrow> (nat \<Rightarrow> page) \<Rightarrow> page_node links \<Rightarrow> free_area" where
  "linked b n s pg h = (SetPageProperty b (set_property b n (s\<lparr>pages := pg\<rparr>)))
     \<lparr>nr_free := nr_free s + n, free_list := h\<rparr>"

lemma linked_inv:
  assumes inv: "fl_inv s bs" and bs: "bs = xs @ ys" and pl: "placed s xs b n ys" and n: "0 < n"
    and dl: "dlist h FreeList (map PageLink (xs @ b # ys))"
    and same: "\<forall>q. q \<notin> {b..<b + n} \<longrightarrow> pg q = pages s q"
    and clr: "\<forall>q \<in> {b..<b + n}. \<not> PG_reserved (pg q) \<and> \<not> PG_property (pg q)"
  shows "fl_inv (linked b n s pg h) (xs @ b # ys) \<and>
    free_frames (linked b n s pg h) (xs @ b # ys) = free_frames s (xs @ ys) \<union> {b..<b + n}"
proof -
  let ?t = "linked b n s pg h"
  have "\<forall>q. q \<notin> {b..<b + n} \<longrightarrow> pages ?t q = pages s q" "prop_of ?t b = n"
    "\<forall>q \<in> {b..<b + n}. \<not> PG_reserved (pages ?t q) \<and> (PG_property (pages ?t q) \<longleftrightarrow> q = b)"
    using same clr n by (auto simp: page_upd_defs linked_def)
  moreover have "\<forall>x \<in> set xs. x + prop_of s x \<le> b" "\<forall>y \<in> set ys. b + n \<le> y"
    using pl by (auto simp: placed_def)
  moreover have "dlist (free_list ?t) FreeList (map PageLink (xs @ b # ys))"
    "nr_free ?t = nr_free s + n"
    using dl by (simp_all add: linked_def page_upd_defs)
  ultimately show ?thesis using link_block_inv[OF inv[unfolded bs]] n by blast
qed

lemma take_block_found:
  assumes "fl_inv s (xs @ b # ys)" "0 < n" "n \<le> prop_of s b"
  shows "\<exists>cs. fl_inv (take_block b n s) cs
    \<and> free_frames (take_block b n s) cs = free_frames s (xs @ b # ys) - {b..<b + n}
    \<and> {b..<b + n} \<subseteq> free_frames s (xs @ b # ys)"
proof -
  have "{b..<b + n} \<subseteq> free_frames s (xs @ b # ys)" using assms(3) by auto
  moreover have "prop_of s b = n \<or> n < prop_of s b" using assms(3) by auto
  ultimately show ?thesis
    using take_block_exact[OF assms(1), of n] take_block_split[OF assms(1,2)] by blast
qed

end
