(* ===== verification/Pmm_Manager.thy ===== *)
theory Pmm_Manager
  imports Page_Frames
begin

text \<open>
  The interface \<open>struct pmm_manager\<close> of \<open>kern/mm/pmm.h\<close>: the table of functions through
  which the kernel reaches the page allocator it was built with.  The locale states what
  an allocator promises to \<open>alloc_pages\<close>, \<open>free_pages\<close> and \<open>nr_free_pages\<close> of
  \<open>kern/mm/pmm.c\<close>; the lemmas about sequences of calls are proved once here and hold for
  every allocator that is shown to be an instance.
\<close>

text \<open>A client that asks for several runs of pages one after the other.\<close>

fun alloc_seq :: "(nat \<Rightarrow> 's \<Rightarrow> (nat option \<times> 's) option) \<Rightarrow> nat list \<Rightarrow> 's
    \<Rightarrow> ((nat \<times> nat) list \<times> 's) option" where
  "alloc_seq alloc [] s = Some ([], s)"
| "alloc_seq alloc (n # ns) s = do {
     (r, s1) \<leftarrow> alloc n s;
     (rs, s2) \<leftarrow> alloc_seq alloc ns s1;
     Some (case r of None \<Rightarrow> rs | Some p \<Rightarrow> (p, n) # rs, s2) }"

definition runs :: "(nat \<times> nat) list \<Rightarrow> nat set" where
  "runs rs = (\<Union>(p, n) \<in> set rs. {p..<p + n})"

fun disjoint_runs :: "(nat \<times> nat) list \<Rightarrow> bool" where
  "disjoint_runs [] = True"
| "disjoint_runs ((p, n) # rs) \<longleftrightarrow> {p..<p + n} \<inter> runs rs = {} \<and> disjoint_runs rs"

lemma runs_simps [simp]: "runs [] = {}" "runs ((p, n) # rs) = {p..<p + n} \<union> runs rs"
  by (auto simp: runs_def)

locale pmm_manager =
  fixes rel :: "'s \<Rightarrow> nat set \<Rightarrow> bool"
    and init :: "'s \<Rightarrow> 's"
    and init_memmap :: "nat \<Rightarrow> nat \<Rightarrow> 's \<Rightarrow> 's option"
    and alloc_pages :: "nat \<Rightarrow> 's \<Rightarrow> (nat option \<times> 's) option"
    and free_pages :: "nat \<Rightarrow> nat \<Rightarrow> 's \<Rightarrow> 's option"
    and nr_free_pages :: "'s \<Rightarrow> nat"
    and mappable :: "'s \<Rightarrow> nat \<Rightarrow> nat \<Rightarrow> bool"
    and releasable :: "'s \<Rightarrow> nat \<Rightarrow> nat \<Rightarrow> bool"
  assumes rel_init: "rel (init s) {}"
    and rel_nr: "rel s F \<Longrightarrow> finite F \<and> nr_free_pages s = card F"
    and rel_init_memmap: "rel s F \<Longrightarrow> 0 < n \<Longrightarrow> {p..<p + n} \<inter> F = {} \<Longrightarrow> mappable s p n \<Longrightarrow>
      \<exists>s'. init_memmap p n s = Some s' \<and> rel s' (F \<union> {p..<p + n})"
    and rel_alloc: "rel s F \<Longrightarrow> 0 < n \<Longrightarrow>
      (\<exists>p s'. alloc_pages n s = Some (Some p, s') \<and> {p..<p + n} \<subseteq> F \<and> rel s' (F - {p..<p + n}))
      \<or> alloc_pages n s = Some (None, s)"
    and rel_free: "rel s F \<Longrightarrow> 0 < n \<Longrightarrow> {p..<p + n} \<inter> F = {} \<Longrightarrow> releasable s p n \<Longrightarrow>
      \<exists>s'. free_pages p n s = Some s' \<and> rel s' (F \<union> {p..<p + n})"
begin

lemma alloc_returns: "rel s F \<Longrightarrow> 0 < n \<Longrightarrow> \<exists>r s'. alloc_pages n s = Some (r, s')"
  using rel_alloc by blast

lemma alloc_counts:
  assumes "rel s F" "0 < n" "alloc_pages n s = Some (Some p, s')"
  shows "nr_free_pages s' + n = nr_free_pages s"
proof -
  from assms rel_alloc[OF assms(1,2)] have F: "{p..<p + n} \<subseteq> F" "rel s' (F - {p..<p + n})" by auto
  then have "card F = card (F - {p..<p + n}) + n"
    using rel_nr[OF assms(1)] card_Diff_subset[of "{p..<p + n}" F] card_mono[of F "{p..<p + n}"]
    by simp
  with F(2) rel_nr assms(1) show ?thesis by simp
qed

lemma alloc_seq_disjoint:
  assumes "rel s F" "\<forall>n \<in> set ns. 0 < n"
  shows "\<exists>rs s'. alloc_seq alloc_pages ns s = Some (rs, s')
    \<and> disjoint_runs rs \<and> runs rs \<subseteq> F \<and> rel s' (F - runs rs)"
  using assms
proof (induction ns arbitrary: s F)
  case Nil
  then show ?case by simp
next
  case (Cons n ns)
  from Cons.prems have n: "0 < n" by simp
  from rel_alloc[OF Cons.prems(1) n] consider
    (got) p s1 where "alloc_pages n s = Some (Some p, s1)" "{p..<p + n} \<subseteq> F"
      "rel s1 (F - {p..<p + n})"
    | (none) "alloc_pages n s = Some (None, s)" by blast
  then show ?case
  proof cases
    case got
    then obtain rs s2 where "alloc_seq alloc_pages ns s1 = Some (rs, s2)" "disjoint_runs rs"
      "runs rs \<subseteq> F - {p..<p + n}" "rel s2 (F - {p..<p + n} - runs rs)"
      using Cons.IH[OF got(3)] Cons.prems(2) by auto
    moreover have "F - {p..<p + n} - runs rs = F - runs ((p, n) # rs)" by auto
    ultimately show ?thesis using got
      by (intro exI[of _ "(p, n) # rs"] exI[of _ s2]) (auto split del: if_split)
  next
    case none
    obtain rs s2 where "alloc_seq alloc_pages ns s = Some (rs, s2)" "disjoint_runs rs"
      "runs rs \<subseteq> F" "rel s2 (F - runs rs)"
      using Cons.IH[OF Cons.prems(1)] Cons.prems(2) by auto
    with none show ?thesis by auto
  qed
qed

end

text \<open>
  An allocator whose allocated runs can always be given back: the contract a client
  needs for an unrestricted alloc/free discipline.
\<close>

locale pmm_manager_reuse = pmm_manager +
  assumes alloc_releasable: "rel s F \<Longrightarrow> 0 < n \<Longrightarrow> alloc_pages n s = Some (Some p, s') \<Longrightarrow>
      releasable s' p n"
begin

lemma alloc_free_restores:
  assumes "rel s F" "0 < n" "alloc_pages n s = Some (Some p, s')"
  shows "\<exists>s''. free_pages p n s' = Some s'' \<and> rel s'' F"
proof -
  from assms rel_alloc[OF assms(1,2)] have F: "{p..<p + n} \<subseteq> F" "rel s' (F - {p..<p + n})" by auto
  from rel_free[OF F(2) assms(2) _ alloc_releasable[OF assms]] F(1) show ?thesis
    by (auto simp: Un_absorb2 Diff_partition Un_commute)
qed

end

text \<open>
  An allocator that may grant more pages than were asked for and takes back exactly the blocks it
  granted.  The relation also knows the granted blocks; \<open>askable\<close> limits the requests.
\<close>

datatype request = Get nat | Put nat

definition granted :: "(nat \<Rightarrow> nat) \<Rightarrow> (nat \<times> nat) list \<Rightarrow> (nat \<times> nat) list" where
  "granted grant held = map (\<lambda>(p, n). (p, grant n)) held"

text \<open>A client that asks for pages and gives back what it holds, in any order; \<open>Put i\<close> names the block
  by its place among those held.\<close>

fun serve :: "(nat \<Rightarrow> 's \<Rightarrow> (nat option \<times> 's) option) \<Rightarrow> (nat \<Rightarrow> nat \<Rightarrow> 's \<Rightarrow> 's option)
    \<Rightarrow> request list \<Rightarrow> (nat \<times> nat) list \<Rightarrow> 's \<Rightarrow> ((nat \<times> nat) list \<times> 's) option" where
  "serve alloc free [] held s = Some (held, s)"
| "serve alloc free (Get n # rs) held s = do {
     (r, s1) \<leftarrow> alloc n s;
     serve alloc free rs (case r of None \<Rightarrow> held | Some p \<Rightarrow> (p, n) # held) s1 }"
| "serve alloc free (Put i # rs) held s =
     (if i < length held
      then do {
        s1 \<leftarrow> free (fst (held ! i)) (snd (held ! i)) s;
        serve alloc free rs (take i held @ drop (Suc i) held) s1 }
      else serve alloc free rs held s)"

definition fair_request :: "(nat \<Rightarrow> bool) \<Rightarrow> request \<Rightarrow> bool" where
  "fair_request askable r = (case r of Get n \<Rightarrow> 0 < n \<and> askable n | Put _ \<Rightarrow> True)"

lemma runs_append [simp]: "runs (xs @ ys) = runs xs \<union> runs ys"
  by (auto simp: runs_def)

lemma disjoint_runs_middle:
  "disjoint_runs (xs @ (p, n) # ys) \<longleftrightarrow> {p..<p + n} \<inter> runs (xs @ ys) = {} \<and> disjoint_runs (xs @ ys)"
proof (induction xs)
  case (Cons x xs)
  then show ?case by (cases x) (auto simp: Int_Un_distrib Int_commute)
qed simp

locale block_manager =
  fixes rel :: "'s \<Rightarrow> nat set \<Rightarrow> (nat \<times> nat) set \<Rightarrow> bool"
    and alloc_pages :: "nat \<Rightarrow> 's \<Rightarrow> (nat option \<times> 's) option"
    and free_pages :: "nat \<Rightarrow> nat \<Rightarrow> 's \<Rightarrow> 's option"
    and nr_free_pages :: "'s \<Rightarrow> nat"
    and grant :: "nat \<Rightarrow> nat"
    and askable :: "nat \<Rightarrow> bool"
  assumes rel_nr: "rel s F U \<Longrightarrow> finite F \<and> nr_free_pages s = card F"
    and rel_apart: "rel s F U \<Longrightarrow> (p, m) \<in> U \<Longrightarrow> {p..<p + m} \<inter> F = {} \<and> 0 < m"
    and grant_enough: "0 < n \<Longrightarrow> askable n \<Longrightarrow> n \<le> grant n"
    and rel_alloc: "rel s F U \<Longrightarrow> 0 < n \<Longrightarrow> askable n \<Longrightarrow>
      (\<exists>p s'. alloc_pages n s = Some (Some p, s') \<and> {p..<p + grant n} \<subseteq> F
         \<and> rel s' (F - {p..<p + grant n}) (insert (p, grant n) U))
      \<or> alloc_pages n s = Some (None, s)"
    and rel_free: "rel s F U \<Longrightarrow> 0 < n \<Longrightarrow> (p, m) \<in> U \<Longrightarrow>
      \<exists>s'. free_pages p n s = Some s' \<and> rel s' (F \<union> {p..<p + m}) (U - {(p, m)})"
begin

lemma serve_held:
  assumes "rel s (T - runs (granted grant held)) (set (granted grant held))" "disjoint_runs (granted grant held)"
    "runs (granted grant held) \<subseteq> T" "list_all (fair_request askable) rs" "\<forall>(p, n) \<in> set held. 0 < n"
  shows "\<exists>held' s'. serve alloc_pages free_pages rs held s = Some (held', s')
    \<and> rel s' (T - runs (granted grant held')) (set (granted grant held'))
    \<and> disjoint_runs (granted grant held') \<and> runs (granted grant held') \<subseteq> T"
  using assms
proof (induction rs arbitrary: held s)
  case (Cons r rs)
  show ?case
  proof (cases r)
    case (Get n)
    with Cons.prems(4) have n: "0 < n" "askable n" by (auto simp: fair_request_def)
    from rel_alloc[OF Cons.prems(1) n] show ?thesis
    proof (elim disjE exE conjE)
      fix p s1
      assume a: "alloc_pages n s = Some (Some p, s1)" "{p..<p + grant n} \<subseteq> T - runs (granted grant held)"
        "rel s1 (T - runs (granted grant held) - {p..<p + grant n}) (insert (p, grant n) (set (granted grant held)))"
      have "T - runs (granted grant held) - {p..<p + grant n} = T - runs (granted grant ((p, n) # held))"
        by (auto simp: granted_def)
      then show ?thesis using a Cons.IH[of s1 "(p, n) # held"] Cons.prems(2-5) n(1) Get by (auto simp: granted_def)
    qed (use Get Cons in auto)
  next
    case (Put i)
    show ?thesis
    proof (cases "i < length held")
      case True
      obtain p n where pn: "held ! i = (p, n)" by force
      let ?xs = "take i held" and ?ys = "drop (Suc i) held"
      have h: "held = ?xs @ (p, n) # ?ys" using True pn by (metis id_take_nth_drop)
      have g: "granted grant held = granted grant ?xs @ (p, grant n) # granted grant ?ys"
        by (subst h) (simp add: granted_def)
      have g': "granted grant (?xs @ ?ys) = granted grant ?xs @ granted grant ?ys" by (simp add: granted_def)
      have d: "{p..<p + grant n} \<inter> runs (granted grant (?xs @ ?ys)) = {}" "disjoint_runs (granted grant (?xs @ ?ys))"
        using Cons.prems(2) unfolding g g' disjoint_runs_middle by auto
      have "(p, n) \<in> set held" using True pn by (metis nth_mem)
      then have n: "0 < n" "(p, grant n) \<in> set (granted grant held)" using Cons.prems(5) by (auto simp: granted_def)
      then have m: "0 < grant n" using rel_apart[OF Cons.prems(1)] by blast
      have "(p, grant n) \<notin> set (granted grant (?xs @ ?ys))"
        using d(1) m by (fastforce simp: runs_def)
      then have U: "set (granted grant held) - {(p, grant n)} = set (granted grant (?xs @ ?ys))" unfolding g g' by auto
      have F: "T - runs (granted grant held) \<union> {p..<p + grant n} = T - runs (granted grant (?xs @ ?ys))"
        using d(1) Cons.prems(3) unfolding g g' by auto
      from rel_free[OF Cons.prems(1) n(1,2)] obtain s1 where
        s1: "free_pages p n s = Some s1" "rel s1 (T - runs (granted grant (?xs @ ?ys))) (set (granted grant (?xs @ ?ys)))"
        unfolding U F by blast
      have "runs (granted grant (?xs @ ?ys)) \<subseteq> T" using Cons.prems(3) unfolding g g' by auto
      moreover have "\<forall>(p, n) \<in> set (?xs @ ?ys). 0 < n" using Cons.prems(5) by (auto dest: in_set_takeD in_set_dropD)
      ultimately show ?thesis using Cons.IH[OF s1(2) d(2)] Cons.prems(4) s1(1) Put True pn by simp
    qed (use Put Cons in auto)
  qed
qed auto

lemma serve_ok:
  assumes "rel s T {}" "list_all (fair_request askable) rs"
  shows "\<exists>held s'. serve alloc_pages free_pages rs [] s = Some (held, s')
    \<and> rel s' (T - runs (granted grant held)) (set (granted grant held))
    \<and> disjoint_runs (granted grant held) \<and> runs (granted grant held) \<subseteq> T"
  using serve_held[of s T "[]" rs] assms by (simp add: granted_def)

end

end
