(* ===== verification/First_Fit.thy ===== *)
theory First_Fit
  imports Pmm_Manager
begin

text \<open>
  The first-fit page manager, \<open>kern/mm/default_pmm.c\<close>.  The insertion loop of
  \<open>default_init_memmap\<close> and \<open>default_free_pages\<close> is modelled with its missing
  \<open>break\<close>: after it appends a block at the tail it goes on with the block it just
  linked.  The theory shows that the manager meets the page-manager contract as long as
  the block that is given back lies below some free block (or the list is empty), and what
  happens otherwise.
\<close>

section \<open>Definitions\<close>

definition default_init :: "free_area \<Rightarrow> free_area" where
  "default_init s = s\<lparr>free_list := list_init FreeList (free_list s), nr_free := 0\<rparr>"

text \<open>The insertion loop; the second branch does not leave the loop.\<close>

partial_function (option) default_insert ::
  "nat \<Rightarrow> page_node \<Rightarrow> page_node links \<Rightarrow> page_node links option" where
  "default_insert base le h =
     (let le' = list_next h le in
      case le' of
        FreeList \<Rightarrow> Some h
      | PageLink page \<Rightarrow>
          if base < page then Some (list_add_before le' (PageLink base) h)
          else if list_next h le' = FreeList
               then default_insert base le' (list_add le' (PageLink base) h)
               else default_insert base le' h)"

text \<open>The common middle part of \<open>default_init_memmap\<close> and \<open>default_free_pages\<close>.\<close>

definition default_link :: "nat \<Rightarrow> nat \<Rightarrow> free_area \<Rightarrow> free_area option" where
  "default_link base n s =
     (let s1 = SetPageProperty base (set_property base n s);
          s2 = s1\<lparr>nr_free := nr_free s1 + n\<rparr>
      in if list_empty (free_list s2) FreeList
         then Some (s2\<lparr>free_list := list_add FreeList (PageLink base) (free_list s2)\<rparr>)
         else do {
           h \<leftarrow> default_insert base FreeList (free_list s2);
           Some (s2\<lparr>free_list := h\<rparr>) })"

definition default_init_memmap :: "nat \<Rightarrow> nat \<Rightarrow> free_area \<Rightarrow> free_area option" where
  "default_init_memmap base n s = do {
     kassert (n > 0);
     s1 \<leftarrow> for_pages (\<lambda>p s. do {
             kassert (PG_reserved (pages s p));
             Some (upd_page p (\<lambda>_. \<lparr>ref = 0, PG_reserved = False, PG_property = False,
                                     property = 0\<rparr>) s) }) base n s;
     default_link base n s1 }"

partial_function (option) default_find :: "free_area \<Rightarrow> nat \<Rightarrow> page_node \<Rightarrow> nat option option" where
  "default_find s n le =
     (case list_next (free_list s) le of
        FreeList \<Rightarrow> Some None
      | PageLink p \<Rightarrow> if property (pages s p) \<ge> n then Some (Some p)
                      else default_find s n (PageLink p))"

definition default_alloc_pages :: "nat \<Rightarrow> free_area \<Rightarrow> (nat option \<times> free_area) option" where
  "default_alloc_pages n s = do {
     kassert (n > 0);
     if n > nr_free s then Some (None, s)
     else do {
       r \<leftarrow> default_find s n FreeList;
       (case r of None \<Rightarrow> Some (None, s)
        | Some page \<Rightarrow> Some (Some page, take_block page n s)) } }"

definition default_free_pages :: "nat \<Rightarrow> nat \<Rightarrow> free_area \<Rightarrow> free_area option" where
  "default_free_pages base n s = do {
     kassert (n > 0);
     s1 \<leftarrow> for_pages (\<lambda>p s. do {
             kassert (\<not> PG_reserved (pages s p) \<and> \<not> PG_property (pages s p));
             Some (upd_page p (\<lambda>pg. pg\<lparr>PG_reserved := False, PG_property := False,
                                        ref := 0\<rparr>) s) }) base n s;
     s2 \<leftarrow> default_link base n s1;
     Some (merge_neighbours base s2) }"

definition default_nr_free_pages :: "free_area \<Rightarrow> nat" where
  "default_nr_free_pages s = nr_free s"

declare default_insert.simps [code] default_find.simps [code]

section \<open>The search loops\<close>

lemma default_find_spec:
  assumes "dlist (free_list s) FreeList (map PageLink (pre @ bs))"
  shows "default_find s n (last (FreeList # map PageLink pre))
    = Some (List.find (\<lambda>b. n \<le> prop_of s b) bs)"
  using assms
proof (induction bs arbitrary: pre)
  case Nil
  then have "list_next (free_list s) (last (FreeList # map PageLink pre)) = FreeList"
    using dlist_nxt_pos[of "free_list s" FreeList "map PageLink pre" "[]"] by (simp add: list_next_def)
  then show ?case by (subst default_find.simps) simp
next
  case (Cons b bs)
  then have nx: "list_next (free_list s) (last (FreeList # map PageLink pre)) = PageLink b"
    using dlist_nxt_pos[of "free_list s" FreeList "map PageLink pre" "map PageLink (b # bs)"]
    by (simp add: list_next_def)
  have "default_find s n (PageLink b) = Some (List.find (\<lambda>b. n \<le> prop_of s b) bs)"
    using Cons.IH[of "pre @ [b]"] Cons.prems by simp
  with nx show ?case by (subst default_find.simps) simp
qed

lemma default_insert_before:
  assumes "dlist h FreeList (map PageLink (pre @ xs @ y # zs))"
    and "\<forall>x \<in> set xs. x \<le> base" "base < y"
  shows "default_insert base (last (FreeList # map PageLink pre)) h
    = Some (list_add_before (PageLink y) (PageLink base) h)"
  using assms
proof (induction xs arbitrary: pre)
  case Nil
  then have "list_next h (last (FreeList # map PageLink pre)) = PageLink y"
    using dlist_nxt_pos[of h FreeList "map PageLink pre" "map PageLink (y # zs)"]
    by (simp add: list_next_def)
  with Nil show ?case by (subst default_insert.simps) (simp add: Let_def)
next
  case (Cons x xs)
  then have nx: "list_next h (last (FreeList # map PageLink pre)) = PageLink x"
    using dlist_nxt_pos[of h FreeList "map PageLink pre" "map PageLink (x # xs @ y # zs)"]
    by (simp add: list_next_def)
  have "list_next h (PageLink x) \<noteq> FreeList"
    using dlist_nxt_mid[of h FreeList "map PageLink pre" "PageLink x" "map PageLink (xs @ y # zs)"]
      Cons.prems(1) by (cases xs) (simp_all add: list_next_def)
  moreover have "default_insert base (PageLink x) h
      = Some (list_add_before (PageLink y) (PageLink base) h)"
    using Cons.IH[of "pre @ [x]"] Cons.prems by simp
  ultimately show ?case using nx Cons.prems(2)
    by (subst default_insert.simps) (simp add: Let_def)
qed

text \<open>
  At the tail the loop links the block twice, and the second time behind itself: its
  \<open>prev\<close> pointer ends up pointing to itself.
\<close>

lemma default_insert_tail:
  assumes d: "dlist h FreeList (map PageLink (pre @ xs @ [x]))"
    and le: "\<forall>z \<in> set (xs @ [x]). z \<le> base" and new: "base \<notin> set (pre @ xs @ [x])"
  shows "default_insert base (last (FreeList # map PageLink pre)) h
    = Some (list_add (PageLink base) (PageLink base) (list_add (PageLink x) (PageLink base) h))"
  using assms
proof (induction xs arbitrary: pre)
  case Nil
  let ?h1 = "list_add (PageLink x) (PageLink base) h"
  let ?h2 = "list_add (PageLink base) (PageLink base) ?h1"
  have d1: "dlist ?h1 FreeList (map PageLink (pre @ [x, base]))"
    using dlist_add_after[of h FreeList "map PageLink pre" "PageLink x" "[]" "PageLink base"] Nil
    by auto
  have n1: "list_next ?h1 (PageLink x) = PageLink base" "list_next ?h1 (PageLink base) = FreeList"
    using d1 by (simp_all add: dlist_def list_next_def)
  have n2: "list_next ?h2 (PageLink base) = FreeList"
    using n1(2) by (simp add: list_defs)
  have n0: "list_next h (last (FreeList # map PageLink pre)) = PageLink x"
    "list_next h (PageLink x) = FreeList"
    using dlist_nxt_pos[of h FreeList "map PageLink pre" "map PageLink [x]"] Nil.prems(1)
    by (simp_all add: list_next_def dlist_def)
  have "default_insert base (PageLink base) ?h2 = Some ?h2"
    using n2 by (subst default_insert.simps) (simp add: Let_def)
  then have "default_insert base (PageLink x) ?h1 = Some ?h2"
    using n1 by (subst default_insert.simps) (simp add: Let_def)
  with n0 Nil.prems(2) show ?case by (subst default_insert.simps) (simp add: Let_def)
next
  case (Cons z xs)
  then have nx: "list_next h (last (FreeList # map PageLink pre)) = PageLink z"
    using dlist_nxt_pos[of h FreeList "map PageLink pre" "map PageLink (z # xs @ [x])"]
    by (simp add: list_next_def)
  have "list_next h (PageLink z) \<noteq> FreeList"
    using dlist_nxt_mid[of h FreeList "map PageLink pre" "PageLink z" "map PageLink (xs @ [x])"]
      Cons.prems(1) by (cases xs) (simp_all add: list_next_def)
  with Cons.IH[of "pre @ [z]"] Cons.prems nx show ?case
    by (subst default_insert.simps) (simp add: Let_def)
qed

section \<open>Allocation\<close>

lemma default_alloc_cases:
  assumes "fl_inv s bs" "0 < n"
  shows "default_alloc_pages n s =
    (case (if n > nr_free s then None else List.find (\<lambda>b. n \<le> prop_of s b) bs) of
       None \<Rightarrow> Some (None, s) | Some b \<Rightarrow> Some (Some b, take_block b n s))"
  using assms default_find_spec[of s "[]" bs n]
  by (simp add: default_alloc_pages_def fl_inv_def split: option.split)

lemma default_alloc_spec:
  assumes inv: "fl_inv s bs" and n: "0 < n"
  shows "(\<exists>p s' cs. default_alloc_pages n s = Some (Some p, s') \<and> fl_inv s' cs
      \<and> {p..<p + n} \<subseteq> free_frames s bs \<and> free_frames s' cs = free_frames s bs - {p..<p + n})
    \<or> default_alloc_pages n s = Some (None, s)"
proof (cases "if n > nr_free s then None else List.find (\<lambda>b. n \<le> prop_of s b) bs")
  case None
  then show ?thesis by (simp add: default_alloc_cases[OF assms])
next
  case (Some b)
  then have "List.find (\<lambda>b. n \<le> prop_of s b) bs = Some b" by (simp split: if_splits)
  then have b: "b \<in> set bs" "n \<le> prop_of s b" by (auto simp: find_Some_iff)
  then obtain xs ys where "bs = xs @ b # ys" by (auto dest: split_list)
  with take_block_found[of s xs b ys n] inv n b Some show ?thesis
    by (auto simp: default_alloc_cases[OF assms])
qed

section \<open>Linking and freeing\<close>

definition below_some :: "nat list \<Rightarrow> nat \<Rightarrow> bool" where
  "below_some bs b \<longleftrightarrow> bs = [] \<or> (\<exists>y \<in> set bs. b < y)"

lemma default_link_ok:
  assumes inv: "fl_inv s bs" and n: "0 < n" and dis: "{b..<b + n} \<inter> free_frames s bs = {}"
    and place: "below_some bs b"
    and same: "\<forall>q. q \<notin> {b..<b + n} \<longrightarrow> pg q = pages s q"
    and clr: "\<forall>q \<in> {b..<b + n}. \<not> PG_reserved (pg q) \<and> \<not> PG_property (pg q)"
  shows "\<exists>t xs ys. default_link b n (s\<lparr>pages := pg\<rparr>) = Some t \<and> fl_inv t (xs @ b # ys)
    \<and> free_frames t (xs @ b # ys) = free_frames s bs \<union> {b..<b + n}"
proof -
  from block_place[OF inv dis n] obtain xs ys where bs: "bs = xs @ ys" and pl: "placed s xs b n ys"
    by blast
  have dl: "dlist (free_list s) FreeList (map PageLink (xs @ ys))" and new: "b \<notin> set bs"
    using inv bs pl by (simp_all add: fl_inv_def placed_def)
  define h where "h = (if bs = [] then list_add FreeList (PageLink b) (free_list s)
     else list_add_before (PageLink (hd ys)) (PageLink b) (free_list s))"
  have emp: "list_empty (free_list s) FreeList \<longleftrightarrow> bs = []"
    using dlist_empty_iff[OF dl] bs by simp
  have "default_link b n (s\<lparr>pages := pg\<rparr>) = Some (linked b n s pg h)
    \<and> dlist h FreeList (map PageLink (xs @ b # ys))"
  proof (cases "bs = []")
    case True
    with dlist_add_head[of "free_list s" FreeList "[]" "PageLink b"] bs dl emp show ?thesis
      by (simp add: default_link_def linked_def h_def page_upd_defs Let_def)
  next
    case False
    with place bs pl have "ys \<noteq> []" by (auto simp: below_some_def placed_def)
    then obtain y zs where ys: "ys = y # zs" by (cases ys) auto
    have "default_insert b FreeList (free_list s) = Some h"
      using default_insert_before[of "free_list s" "[]" xs y zs b] dl ys pl n False
      by (simp add: h_def less_imp_le placed_def)
    moreover have "PageLink b \<notin> set (FreeList # map PageLink xs @ PageLink y # map PageLink zs)"
      using new bs ys by auto
    ultimately show ?thesis
      using False emp dl ys dlist_add_before[of "free_list s" FreeList "map PageLink xs" "PageLink y"
          "map PageLink zs" "PageLink b"]
      by (simp add: default_link_def linked_def h_def page_upd_defs Let_def)
  qed
  with linked_inv[OF inv bs pl n _ same clr] show ?thesis unfolding bs by blast
qed

definition default_releasable :: "free_area \<Rightarrow> nat \<Rightarrow> nat \<Rightarrow> bool" where
  "default_releasable s p n \<longleftrightarrow>
     (\<forall>q \<in> {p..<p + n}. \<not> PG_reserved (pages s q) \<and> \<not> PG_property (pages s q))
     \<and> (\<forall>bs. dlist (free_list s) FreeList (map PageLink bs) \<longrightarrow> below_some bs p)"

definition default_mappable :: "free_area \<Rightarrow> nat \<Rightarrow> nat \<Rightarrow> bool" where
  "default_mappable s p n \<longleftrightarrow>
     (\<forall>q \<in> {p..<p + n}. PG_reserved (pages s q))
     \<and> (\<forall>bs. dlist (free_list s) FreeList (map PageLink bs) \<longrightarrow> below_some bs p)"

lemma default_init_memmap_ok:
  assumes inv: "fl_inv s bs" and n: "0 < n" and dis: "{p..<p + n} \<inter> free_frames s bs = {}"
    and rel: "default_mappable s p n"
  shows "\<exists>s' cs.  default_init_memmap p n s = Some s' \<and> fl_inv s' cs
    \<and> free_frames s' cs = free_frames s bs \<union> {p..<p + n}"
proof -
  let ?f = "\<lambda>_. \<lparr>ref = 0, PG_reserved = False, PG_property = False, property = 0\<rparr> :: page"
  let ?pg = "\<lambda>q. if p \<le> q \<and> q < p + n then ?f (pages s q) else pages s q"
  have place: "below_some bs p" using rel inv by (simp add: default_mappable_def fl_inv_def)
  have pg: "\<forall>q. q \<notin> {p..<p + n} \<longrightarrow> ?pg q = pages s q"
    "\<forall>q \<in> {p..<p + n}. \<not> PG_reserved (?pg q) \<and> \<not> PG_property (?pg q)" by auto
  have "for_pages (\<lambda>p s. do { kassert (PG_reserved (pages s p)); Some (upd_page p ?f s) }) p n s
      = Some (s\<lparr>pages := ?pg\<rparr>)"
    using rel by (intro for_pages_effect[where ok = PG_reserved]) (auto simp: default_mappable_def)
  moreover obtain t xs ys where "default_link p n (s\<lparr>pages := ?pg\<rparr>) = Some t"
    "fl_inv t (xs @ p # ys)" "free_frames t (xs @ p # ys) = free_frames s bs \<union> {p..<p + n}"
    using default_link_ok[OF inv n dis place pg] by blast
  ultimately show ?thesis using n
    by (intro exI[of _ t] exI[of _ "xs @ p # ys"]) (simp add: default_init_memmap_def)
qed

lemma default_free_ok:
  assumes inv: "fl_inv s bs" and n: "0 < n" and dis: "{p..<p + n} \<inter> free_frames s bs = {}"
    and rel: "default_releasable s p n"
  shows "\<exists>s' cs.  default_free_pages p n s = Some s' \<and> fl_inv s' cs
    \<and> free_frames s' cs = free_frames s bs \<union> {p..<p + n}"
proof -
  let ?f = "\<lambda>pg. pg\<lparr>PG_reserved := False, PG_property := False, ref := 0\<rparr> :: page"
  let ?pg = "\<lambda>q. if p \<le> q \<and> q < p + n then ?f (pages s q) else pages s q"
  have place: "below_some bs p" using rel inv by (simp add: default_releasable_def fl_inv_def)
  have pg: "\<forall>q. q \<notin> {p..<p + n} \<longrightarrow> ?pg q = pages s q"
    "\<forall>q \<in> {p..<p + n}. \<not> PG_reserved (?pg q) \<and> \<not> PG_property (?pg q)" by auto
  have "for_pages (\<lambda>p s. do { kassert (\<not> PG_reserved (pages s p) \<and> \<not> PG_property (pages s p));
        Some (upd_page p ?f s) }) p n s = Some (s\<lparr>pages := ?pg\<rparr>)"
    using rel by (intro for_pages_effect[where ok = "\<lambda>g. \<not> PG_reserved g \<and> \<not> PG_property g"])
      (auto simp: default_releasable_def)
  moreover obtain t xs ys where t: "default_link p n (s\<lparr>pages := ?pg\<rparr>) = Some t"
    "fl_inv t (xs @ p # ys)" "free_frames t (xs @ p # ys) = free_frames s bs \<union> {p..<p + n}"
    using default_link_ok[OF inv n dis place pg] by blast
  ultimately have "default_free_pages p n s = Some (merge_neighbours p t)"
    using n by (simp add: default_free_pages_def)
  with merge_neighbours_inv[OF t(2)] t(3) show ?thesis by auto
qed

section \<open>The contract\<close>

definition frame_rel :: "free_area \<Rightarrow> nat set \<Rightarrow> bool" where
  "frame_rel s F \<longleftrightarrow> (\<exists>bs. fl_inv s bs \<and> F = free_frames s bs)"

interpretation first_fit: pmm_manager frame_rel default_init default_init_memmap
  default_alloc_pages default_free_pages default_nr_free_pages default_mappable default_releasable
proof unfold_locales
  show "frame_rel (default_init s) {}" for s
    unfolding frame_rel_def
    by (intro exI[of _ "[]"]) (simp add: fl_inv_def default_init_def dlist_init)
  show "frame_rel s F \<Longrightarrow> finite F \<and> default_nr_free_pages s = card F" for s F
    by (auto simp: frame_rel_def default_nr_free_pages_def fl_inv_nr_free)
  show "\<exists>s'. default_init_memmap p n s = Some s' \<and> frame_rel s' (F \<union> {p..<p + n})"
    if "frame_rel s F" "0 < n" "{p..<p + n} \<inter> F = {}" "default_mappable s p n" for s F n p
    using that default_init_memmap_ok unfolding frame_rel_def by metis
  show "(\<exists>p s'. default_alloc_pages n s = Some (Some p, s') \<and> {p..<p + n} \<subseteq> F
      \<and> frame_rel s' (F - {p..<p + n})) \<or> default_alloc_pages n s = Some (None, s)"
    if "frame_rel s F" "0 < n" for s F n
    using that default_alloc_spec unfolding frame_rel_def by metis
  show "\<exists>s'. default_free_pages p n s = Some s' \<and> frame_rel s' (F \<union> {p..<p + n})"
    if "frame_rel s F" "0 < n" "{p..<p + n} \<inter> F = {}" "default_releasable s p n" for s F n p
    using that default_free_ok unfolding frame_rel_def by metis
qed

section \<open>Freeing above every free block\<close>

text \<open>
  A machine state for concrete runs: six pages, all reserved, and links with no content.
\<close>

definition blank_area :: free_area where
  "blank_area = \<lparr>pages = (\<lambda>_. \<lparr>ref = 0, PG_reserved = True, PG_property = False, property = 0\<rparr>),
     free_list = \<lparr>nxt = (\<lambda>_. FreeList), prv = (\<lambda>_. FreeList)\<rparr>, nr_free = 0\<rparr>"

definition double_alloc_run :: "(nat option \<times> nat option) option" where
  "double_alloc_run = do {
     s \<leftarrow> default_init_memmap 0 6 (default_init blank_area);
     (a, s) \<leftarrow> default_alloc_pages 1 s;
     (b, s) \<leftarrow> default_alloc_pages 1 s;
     (c, s) \<leftarrow> default_alloc_pages 1 s;
     (d, s) \<leftarrow> default_alloc_pages 1 s;
     (e, s) \<leftarrow> default_alloc_pages 2 s;
     s \<leftarrow> default_free_pages 0 1 s;
     s \<leftarrow> default_free_pages 2 1 s;
     s \<leftarrow> default_free_pages 4 2 s;
     (p, s) \<leftarrow> default_alloc_pages 2 s;
     (q, s) \<leftarrow> default_alloc_pages 2 s;
     Some (p, q) }"

section \<open>Properties\<close>

text \<open>A free area with one block of six pages, used by the witnesses.\<close>

definition area6 :: free_area where
  "area6 = \<lparr>pages = (\<lambda>q. \<lparr>ref = 0, PG_reserved = False, PG_property = (q = 0),
        property = (if q = 0 then 6 else 0)\<rparr>),
     free_list = \<lparr>nxt = (\<lambda>x. if x = FreeList then PageLink 0 else FreeList),
                  prv = (\<lambda>x. if x = FreeList then PageLink 0 else FreeList)\<rparr>, nr_free = 6\<rparr>"

lemma area6_inv: "fl_inv area6 [0]"
  by (auto simp: fl_inv_def area6_def dlist_def blocks_def)

lemma area6_rel: "frame_rel area6 {0..<6}"
  unfolding frame_rel_def by (intro exI[of _ "[0]"] conjI area6_inv) (auto simp: area6_def)

text \<open>One block of eight free frames, from frame \<open>g\<close> on.\<close>

definition area8 :: "nat \<Rightarrow> free_area" where
  "area8 g = \<lparr>pages = (\<lambda>q. \<lparr>ref = 0, PG_reserved = False, PG_property = (q = g),
        property = (if q = g then 8 else 0)\<rparr>),
     free_list = \<lparr>nxt = (\<lambda>x. if x = FreeList then PageLink g else FreeList),
                  prv = (\<lambda>x. if x = FreeList then PageLink g else FreeList)\<rparr>, nr_free = 8\<rparr>"

lemma area8_rel: "frame_rel (area8 g) {g..<g + 8}"
proof -
  have "fl_inv (area8 g) [g]" by (auto simp: fl_inv_def area8_def dlist_def blocks_def)
  then show ?thesis unfolding frame_rel_def by (intro exI[of _ "[g]"]) (auto simp: area8_def)
qed

text \<open>C4. First fit: a successful \<open>default_alloc_pages\<close> returns the lowest free block that
  is large enough, takes exactly its first \<open>n\<close> frames out of the free frames, keeps the free
  list well formed, and lowers the count by \<open>n\<close>; it fails exactly when no block is large
  enough, and then changes nothing.\<close>

theorem default_alloc_first_fit:
  assumes inv: "fl_inv s bs" and n: "0 < n"
  shows "\<exists>r s'. default_alloc_pages n s = Some (r, s')
    \<and> (case r of
         None \<Rightarrow> s' = s \<and> (\<forall>b \<in> set bs. prop_of s b < n)
       | Some p \<Rightarrow> p \<in> set bs \<and> n \<le> prop_of s p \<and> (\<forall>c \<in> set bs. c < p \<longrightarrow> prop_of s c < n)
           \<and> nr_free s' = nr_free s - n
           \<and> (\<exists>cs. fl_inv s' cs \<and> free_frames s' cs = free_frames s bs - {p..<p + n}))"
proof (cases "List.find (\<lambda>b. n \<le> prop_of s b) bs")
  case None
  then have "\<forall>b \<in> set bs. prop_of s b < n" by (auto simp: find_None_iff)
  with None show ?thesis by (simp add: default_alloc_cases[OF assms])
next
  case (Some p)
  from Some obtain i where i: "i < length bs" "bs ! i = p" "n \<le> prop_of s p"
    "\<forall>j < i. \<not> n \<le> prop_of s (bs ! j)" by (auto simp: find_Some_iff)
  then have p: "p \<in> set bs" by auto
  then obtain xs ys where bs: "bs = xs @ p # ys" by (auto dest: split_list)
  have "prop_of s p \<le> nr_free s"
    using inv p member_le_sum_list[of "prop_of s p" "map (prop_of s) bs"] by (simp add: fl_inv_def)
  then have eq: "default_alloc_pages n s = Some (Some p, take_block p n s)"
    using Some i(3) by (simp add: default_alloc_cases[OF assms])
  have "prop_of s c < n" if "c \<in> set bs" "c < p" for c
  proof -
    from that(1) obtain j where j: "j < length bs" "bs ! j = c" by (auto simp: in_set_conv_nth)
    have "\<not> i < j"
    proof
      assume "i < j"
      then have "bs ! i + prop_of s (bs ! i) \<le> bs ! j"
        using inv j by (auto simp: fl_inv_def blocks_def sorted_wrt_iff_nth_less)
      with i j that(2) show False by simp
    qed
    with i(2) j(2) that(2) have "j < i" by (cases "j = i") auto
    with i(4) j(2) show ?thesis by auto
  qed
  moreover obtain cs where "fl_inv (take_block p n s) cs"
    "free_frames (take_block p n s) cs = free_frames s bs - {p..<p + n}"
    using take_block_found[of s xs p ys n] inv n i(3) bs by blast
  ultimately show ?thesis using eq p i(3)
    by (intro exI[of _ "Some p"] exI[of _ "take_block p n s"]) (auto simp: take_block_nr_free)
qed

theorem default_alloc_first_fit_witness:
  "\<exists>r s'. default_alloc_pages 2 area6 = Some (r, s')
    \<and> (case r of
         None \<Rightarrow> s' = area6 \<and> (\<forall>b \<in> set [0]. prop_of area6 b < 2)
       | Some p \<Rightarrow> p \<in> set [0] \<and> 2 \<le> prop_of area6 p \<and> (\<forall>c \<in> set [0]. c < p \<longrightarrow> prop_of area6 c < 2)
           \<and> nr_free s' = nr_free area6 - 2
           \<and> (\<exists>cs. fl_inv s' cs \<and> free_frames s' cs = free_frames area6 [0] - {p..<p + 2}))"
  using default_alloc_first_fit[OF area6_inv, of 2] by simp

text \<open>Any sequence of first-fit requests returns, hands out pairwise disjoint runs that
  were all free before, and leaves exactly the other frames free.\<close>

theorem default_alloc_seq_disjoint:
  assumes "frame_rel s F" "\<forall>n \<in> set ns. 0 < n"
  shows "\<exists>rs s'. alloc_seq default_alloc_pages ns s = Some (rs, s')
    \<and> disjoint_runs rs \<and> runs rs \<subseteq> F \<and> frame_rel s' (F - runs rs)"
  using assms by (rule first_fit.alloc_seq_disjoint)

theorem default_alloc_seq_disjoint_witness:
  "\<exists>rs s'. alloc_seq default_alloc_pages [1, 2, 5] area6 = Some (rs, s')
    \<and> disjoint_runs rs \<and> runs rs \<subseteq> {0..<6} \<and> frame_rel s' ({0..<6} - runs rs)"
  by (rule default_alloc_seq_disjoint[OF area6_rel]) simp

text \<open>C25. \<open>default_free_pages\<close> of a run of allocated frames that lies below some free block (or
  when no frame is free) returns, and the free frames become exactly the old ones plus the
  run; the free list stays sorted, disjoint and doubly linked, whether or not the run was
  merged with its neighbours.\<close>

theorem default_free_pages_correct:
  assumes "fl_inv s bs" "0 < n" "{p..<p + n} \<inter> free_frames s bs = {}"
    and "\<forall>q \<in> {p..<p + n}. \<not> PG_reserved (pages s q) \<and> \<not> PG_property (pages s q)"
    and "bs = [] \<or> (\<exists>y \<in> set bs. p < y)"
  shows "\<exists>s' cs. default_free_pages p n s = Some s' \<and> fl_inv s' cs
    \<and> free_frames s' cs = free_frames s bs \<union> {p..<p + n}"
proof -
  have "below_some cs p" if "dlist (free_list s) FreeList (map PageLink cs)" for cs
  proof -
    from assms(1) have "dlist (free_list s) FreeList (map PageLink bs)" by (simp add: fl_inv_def)
    with that have "map PageLink cs = map PageLink bs" by (rule dlist_unique)
    then have "cs = bs" by (simp add: inj_PageLink)
    with assms(5) show ?thesis by (simp add: below_some_def)
  qed
  with assms(4) have "default_releasable s p n" by (simp add: default_releasable_def)
  with default_free_ok[OF assms(1-3)] show ?thesis by blast
qed

theorem default_free_pages_correct_witness:
  "\<exists>s' cs. default_free_pages 0 2 (take_block 0 2 area6) = Some s' \<and> fl_inv s' cs
    \<and> free_frames s' cs = free_frames (take_block 0 2 area6) [2] \<union> {0..<0 + 2}"
proof (rule default_free_pages_correct)
  show "fl_inv (take_block 0 2 area6) [2]"
  proof -
    have "fl_inv (take_block 0 2 area6) ([] @ (0 + 2) # [])"
      by (rule take_block_split) (simp_all add: area6_inv, simp add: area6_def)
    then show ?thesis by (simp add: numeral_2_eq_2)
  qed
qed (auto simp: area6_def take_block_def page_upd_defs Let_def)


end
