(* ===== verification/Best_Fit.thy ===== *)
theory Best_Fit
  imports First_Fit
begin

text \<open>
  The best-fit page manager, \<open>lab2/kern/mm/best_fit_pmm.c\<close>.  Its insertion loop leaves
  the loop after either insertion, so it needs no condition on where the freed run lies;
  it satisfies the stronger page-manager contract in which every allocated run can be
  given back.
\<close>

section \<open>Definitions\<close>

definition best_fit_init :: "free_area \<Rightarrow> free_area" where
  "best_fit_init s = s\<lparr>free_list := list_init FreeList (free_list s), nr_free := 0\<rparr>"

partial_function (option) best_fit_insert ::
  "nat \<Rightarrow> page_node \<Rightarrow> page_node links \<Rightarrow> page_node links option" where
  "best_fit_insert base le h =
     (let le' = list_next h le in
      case le' of
        FreeList \<Rightarrow> Some h
      | PageLink page \<Rightarrow>
          if base < page then Some (list_add_before le' (PageLink base) h)
          else if list_next h le' = FreeList then Some (list_add le' (PageLink base) h)
          else best_fit_insert base le' h)"

definition best_fit_link :: "nat \<Rightarrow> nat \<Rightarrow> free_area \<Rightarrow> free_area option" where
  "best_fit_link base n s =
     (let s1 = SetPageProperty base (set_property base n s);
          s2 = s1\<lparr>nr_free := nr_free s1 + n\<rparr>
      in if list_empty (free_list s2) FreeList
         then Some (s2\<lparr>free_list := list_add FreeList (PageLink base) (free_list s2)\<rparr>)
         else do {
           h \<leftarrow> best_fit_insert base FreeList (free_list s2);
           Some (s2\<lparr>free_list := h\<rparr>) })"

definition best_fit_init_memmap :: "nat \<Rightarrow> nat \<Rightarrow> free_area \<Rightarrow> free_area option" where
  "best_fit_init_memmap base n s = do {
     kassert (n > 0);
     s1 \<leftarrow> for_pages (\<lambda>p s. do {
             kassert (PG_reserved (pages s p));
             Some (upd_page p (\<lambda>_. \<lparr>ref = 0, PG_reserved = False, PG_property = False,
                                     property = 0\<rparr>) s) }) base n s;
     best_fit_link base n s1 }"

partial_function (option) best_fit_find ::
  "free_area \<Rightarrow> nat \<Rightarrow> page_node \<Rightarrow> nat option \<Rightarrow> nat \<Rightarrow> nat option option" where
  "best_fit_find s n le page min_size =
     (case list_next (free_list s) le of
        FreeList \<Rightarrow> Some page
      | PageLink p \<Rightarrow> do {
          kassert (PG_property (pages s p));
          if property (pages s p) \<ge> n \<and> property (pages s p) < min_size
          then best_fit_find s n (PageLink p) (Some p) (property (pages s p))
          else best_fit_find s n (PageLink p) page min_size })"

definition best_fit_alloc_pages :: "nat \<Rightarrow> free_area \<Rightarrow> (nat option \<times> free_area) option" where
  "best_fit_alloc_pages n s = do {
     kassert (n > 0);
     if n > nr_free s then Some (None, s)
     else do {
       r \<leftarrow> best_fit_find s n FreeList None (nr_free s + 1);
       (case r of None \<Rightarrow> Some (None, s)
        | Some page \<Rightarrow> Some (Some page, take_block page n s)) } }"

definition best_fit_free_pages :: "nat \<Rightarrow> nat \<Rightarrow> free_area \<Rightarrow> free_area option" where
  "best_fit_free_pages base n s = do {
     kassert (n > 0);
     s1 \<leftarrow> for_pages (\<lambda>p s. do {
             kassert (\<not> PG_reserved (pages s p) \<and> \<not> PG_property (pages s p));
             Some (upd_page p (\<lambda>_. \<lparr>ref = 0, PG_reserved = False, PG_property = False,
                                     property = 0\<rparr>) s) }) base n s;
     s2 \<leftarrow> best_fit_link base n s1;
     Some (merge_neighbours base s2) }"

definition best_fit_nr_free_pages :: "free_area \<Rightarrow> nat" where
  "best_fit_nr_free_pages s = nr_free s"

declare best_fit_insert.simps [code] best_fit_find.simps [code]

section \<open>The search loops\<close>

text \<open>What the search computes, on the list of blocks.\<close>

fun best_of :: "(nat \<Rightarrow> nat) \<Rightarrow> nat \<Rightarrow> nat list \<Rightarrow> nat option \<Rightarrow> nat \<Rightarrow> nat option" where
  "best_of P n [] r m = r"
| "best_of P n (b # bs) r m =
     (if n \<le> P b \<and> P b < m then best_of P n bs (Some b) (P b) else best_of P n bs r m)"

lemma best_fit_find_best_of:
  assumes "dlist (free_list s) FreeList (map PageLink (pre @ bs))"
    and "\<forall>b \<in> set bs. PG_property (pages s b)"
  shows "best_fit_find s n (last (FreeList # map PageLink pre)) r m
    = Some (best_of (prop_of s) n bs r m)"
  using assms
proof (induction bs arbitrary: pre r m)
  case Nil
  then have "list_next (free_list s) (last (FreeList # map PageLink pre)) = FreeList"
    using dlist_nxt_pos[of "free_list s" FreeList "map PageLink pre" "[]"] by (simp add: list_next_def)
  then show ?case by (subst best_fit_find.simps) simp
next
  case (Cons b bs)
  then have nx: "list_next (free_list s) (last (FreeList # map PageLink pre)) = PageLink b"
    using dlist_nxt_pos[of "free_list s" FreeList "map PageLink pre" "map PageLink (b # bs)"]
    by (simp add: list_next_def)
  have "best_fit_find s n (PageLink b) r' m' = Some (best_of (prop_of s) n bs r' m')" for r' m'
    using Cons.IH[of "pre @ [b]"] Cons.prems by simp
  with nx Cons.prems(2) show ?case by (subst best_fit_find.simps) simp
qed

lemma best_of_acc:
  assumes "best_of P n bs r m = r'"
  shows "(r' = r \<and> (\<forall>c \<in> set bs. n \<le> P c \<longrightarrow> m \<le> P c))
    \<or> (\<exists>b \<in> set bs. r' = Some b \<and> n \<le> P b \<and> P b < m \<and> (\<forall>c \<in> set bs. n \<le> P c \<longrightarrow> P b \<le> P c))"
  using assms
proof (induction bs arbitrary: r m)
  case Nil
  then show ?case by simp
next
  case (Cons b bs)
  show ?case
  proof (cases "n \<le> P b \<and> P b < m")
    case True
    with Cons.prems have "best_of P n bs (Some b) (P b) = r'" by simp
    from Cons.IH[OF this] True show ?thesis by force
  next
    case False
    with Cons.prems have "best_of P n bs r m = r'" by auto
    from Cons.IH[OF this] False show ?thesis by force
  qed
qed

lemma best_of_smallest:
  assumes "\<forall>b \<in> set bs. P b < m"
  shows "best_of P n bs None m = None \<Longrightarrow> \<forall>b \<in> set bs. P b < n"
    and "best_of P n bs None m = Some b \<Longrightarrow>
      b \<in> set bs \<and> n \<le> P b \<and> (\<forall>c \<in> set bs. n \<le> P c \<longrightarrow> P b \<le> P c)"
  using best_of_acc[of P n bs None m] assms by (force, force)

lemma best_fit_insert_link:
  assumes "dlist h FreeList (map PageLink (pre @ xs @ ys))" "xs @ ys \<noteq> []"
    and "\<forall>x \<in> set xs. x < base" "\<forall>y \<in> set ys. base < y"
  shows "best_fit_insert base (last (FreeList # map PageLink pre)) h
    = Some (case ys of [] \<Rightarrow> list_add (PageLink (last xs)) (PageLink base) h
            | y # zs \<Rightarrow> list_add_before (PageLink y) (PageLink base) h)"
  using assms
proof (induction xs arbitrary: pre)
  case Nil
  then obtain y zs where "ys = y # zs" by (cases ys) auto
  with Nil show ?case
    using dlist_nxt_pos[of h FreeList "map PageLink pre" "map PageLink (y # zs)"]
    by (subst best_fit_insert.simps) (simp add: list_next_def Let_def)
next
  case (Cons x xs)
  then have nx: "list_next h (last (FreeList # map PageLink pre)) = PageLink x"
    using dlist_nxt_pos[of h FreeList "map PageLink pre" "map PageLink (x # xs @ ys)"]
    by (simp add: list_next_def)
  have nxx: "list_next h (PageLink x) = hd (map PageLink (xs @ ys) @ [FreeList])"
    using dlist_nxt_mid[of h FreeList "map PageLink pre" "PageLink x" "map PageLink (xs @ ys)"]
      Cons.prems(1) by (simp add: list_next_def)
  show ?case
  proof (cases "xs @ ys = []")
    case True
    with nx nxx Cons.prems show ?thesis
      by (subst best_fit_insert.simps) (simp add: Let_def)
  next
    case False
    then have "list_next h (PageLink x) \<noteq> FreeList"
      using nxx by (cases "xs @ ys") auto
    moreover have "best_fit_insert base (PageLink x) h
      = Some (case ys of [] \<Rightarrow> list_add (PageLink (last xs)) (PageLink base) h
            | y # zs \<Rightarrow> list_add_before (PageLink y) (PageLink base) h)"
      using Cons.IH[of "pre @ [x]"] Cons.prems False by simp
    moreover have "ys = [] \<Longrightarrow> last (x # xs) = last xs" using False by simp
    ultimately show ?thesis using nx Cons.prems(3)
      by (subst best_fit_insert.simps) (simp add: Let_def split: list.split)
  qed
qed

section \<open>Allocation\<close>

lemma fl_inv_block_bound: "fl_inv s bs \<Longrightarrow> b \<in> set bs \<Longrightarrow> prop_of s b < nr_free s + 1"
  unfolding fl_inv_def using member_le_sum_list[of "prop_of s b" "map (prop_of s) bs"] by force

lemma best_of_found:
  assumes "fl_inv s bs" "best_of (prop_of s) n bs None (nr_free s + 1) = Some b"
  shows "b \<in> set bs \<and> n \<le> prop_of s b \<and> (\<forall>c \<in> set bs. n \<le> prop_of s c \<longrightarrow> prop_of s b \<le> prop_of s c)"
proof -
  have "\<forall>b \<in> set bs. prop_of s b < nr_free s + 1" using fl_inv_block_bound[OF assms(1)] by blast
  then show ?thesis using assms(2) by (rule best_of_smallest(2))
qed

lemma best_fit_alloc_cases:
  assumes "fl_inv s bs" "0 < n"
  shows "best_fit_alloc_pages n s =
    (case (if n > nr_free s then None else best_of (prop_of s) n bs None (nr_free s + 1)) of
       None \<Rightarrow> Some (None, s) | Some b \<Rightarrow> Some (Some b, take_block b n s))"
proof -
  have "\<forall>b \<in> set bs. PG_property (pages s b)"
    using assms(1) head_in_frames by (auto simp: fl_inv_def)
  with assms best_fit_find_best_of[of s "[]" bs n None "nr_free s + 1"] show ?thesis
    by (simp add: best_fit_alloc_pages_def fl_inv_def split: option.split)
qed

lemma best_fit_alloc_spec:
  assumes inv: "fl_inv s bs" and n: "0 < n"
  shows "(\<exists>p s' cs. best_fit_alloc_pages n s = Some (Some p, s') \<and> fl_inv s' cs
      \<and> {p..<p + n} \<subseteq> free_frames s bs \<and> free_frames s' cs = free_frames s bs - {p..<p + n})
    \<or> best_fit_alloc_pages n s = Some (None, s)"
proof (cases "if n > nr_free s then None else best_of (prop_of s) n bs None (nr_free s + 1)")
  case None
  then show ?thesis by (simp add: best_fit_alloc_cases[OF assms])
next
  case (Some b)
  then have "best_of (prop_of s) n bs None (nr_free s + 1) = Some b" by (simp split: if_splits)
  then have b: "b \<in> set bs" "n \<le> prop_of s b"
    using best_of_found[OF inv] by blast+
  then obtain xs ys where "bs = xs @ b # ys" by (auto dest: split_list)
  with take_block_found[of s xs b ys n] inv n b Some show ?thesis
    by (auto simp: best_fit_alloc_cases[OF assms])
qed

text \<open>After an allocation the frames of the run carry no flag.\<close>

lemma take_block_flags:
  assumes "fl_inv s (xs @ b # ys)" "0 < n" "n \<le> prop_of s b" "q \<in> {b..<b + n}"
  shows "\<not> PG_reserved (pages (take_block b n s) q) \<and> \<not> PG_property (pages (take_block b n s) q)"
proof -
  from assms have "q \<in> free_frames s (xs @ b # ys)" "q \<noteq> b + n" by auto
  moreover have "q \<notin> set (xs @ ys)"
    using assms blocks_middle[of "prop_of s" xs b ys] by (force simp: fl_inv_def)
  ultimately show ?thesis using assms(1)
    by (auto simp: fl_inv_def take_block_def page_upd_defs Let_def)
qed

section \<open>Linking and freeing\<close>

lemma best_fit_link_ok:
  assumes inv: "fl_inv s bs" and n: "0 < n" and dis: "{b..<b + n} \<inter> free_frames s bs = {}"
    and same: "\<forall>q. q \<notin> {b..<b + n} \<longrightarrow> pg q = pages s q"
    and clr: "\<forall>q \<in> {b..<b + n}. \<not> PG_reserved (pg q) \<and> \<not> PG_property (pg q)"
  shows "\<exists>t xs ys. best_fit_link b n (s\<lparr>pages := pg\<rparr>) = Some t \<and> fl_inv t (xs @ b # ys)
    \<and> free_frames t (xs @ b # ys) = free_frames s bs \<union> {b..<b + n}"
proof -
  from block_place[OF inv dis n] obtain xs ys where bs: "bs = xs @ ys" and pl: "placed s xs b n ys"
    by blast
  have dl: "dlist (free_list s) FreeList (map PageLink xs @ map PageLink ys)"
    and new: "PageLink b \<notin> set (FreeList # map PageLink xs @ map PageLink ys)"
    using inv bs pl by (auto simp: fl_inv_def placed_def)
  define h where "h = (if bs = [] then list_add FreeList (PageLink b) (free_list s)
     else case ys of [] \<Rightarrow> list_add (PageLink (last xs)) (PageLink b) (free_list s)
          | y # zs \<Rightarrow> list_add_before (PageLink y) (PageLink b) (free_list s))"
  have "dlist h FreeList (map PageLink (xs @ b # ys))"
  proof (cases ys)
    case Nil
    with dlist_add_last[OF dl new] bs show ?thesis
      by (cases "xs = []") (auto simp: h_def last_map)
  next
    case (Cons y zs)
    with dlist_add_before[of "free_list s" FreeList "map PageLink xs" "PageLink y"] dl new bs
    show ?thesis by (simp add: h_def)
  qed
  moreover have "best_fit_link b n (s\<lparr>pages := pg\<rparr>) = Some (linked b n s pg h)"
    using best_fit_insert_link[of "free_list s" "[]" xs ys b] dl bs pl dlist_empty_iff[OF dl]
    by (cases "bs = []")
      (auto simp: best_fit_link_def linked_def h_def page_upd_defs Let_def placed_def)
  ultimately show ?thesis using linked_inv[OF inv bs pl n _ same clr] unfolding bs by blast
qed

definition best_fit_releasable :: "free_area \<Rightarrow> nat \<Rightarrow> nat \<Rightarrow> bool" where
  "best_fit_releasable s p n \<longleftrightarrow>
     (\<forall>q \<in> {p..<p + n}. \<not> PG_reserved (pages s q) \<and> \<not> PG_property (pages s q))"

definition best_fit_mappable :: "free_area \<Rightarrow> nat \<Rightarrow> nat \<Rightarrow> bool" where
  "best_fit_mappable s p n \<longleftrightarrow> (\<forall>q \<in> {p..<p + n}. PG_reserved (pages s q))"

lemma best_fit_reset_link:
  assumes inv: "fl_inv s bs" and n: "0 < n" and dis: "{p..<p + n} \<inter> free_frames s bs = {}"
    and ok: "\<forall>q \<in> {p..<p + n}. ok (pages s q)"
  shows "\<exists>t xs ys. do {
      s1 \<leftarrow> for_pages (\<lambda>p s. do { kassert (ok (pages s p));
        Some (upd_page p (\<lambda>_. \<lparr>ref = 0, PG_reserved = False, PG_property = False,
           property = 0\<rparr>) s) }) p n s;
      best_fit_link p n s1 } = Some t \<and> fl_inv t (xs @ p # ys)
    \<and> free_frames t (xs @ p # ys) = free_frames s bs \<union> {p..<p + n}"
proof -
  let ?f = "\<lambda>_. \<lparr>ref = 0, PG_reserved = False, PG_property = False, property = 0\<rparr> :: page"
  let ?pg = "\<lambda>q. if p \<le> q \<and> q < p + n then ?f (pages s q) else pages s q"
  have pg: "\<forall>q. q \<notin> {p..<p + n} \<longrightarrow> ?pg q = pages s q"
    "\<forall>q \<in> {p..<p + n}. \<not> PG_reserved (?pg q) \<and> \<not> PG_property (?pg q)" by auto
  have "for_pages (\<lambda>p s. do { kassert (ok (pages s p)); Some (upd_page p ?f s) }) p n s
      = Some (s\<lparr>pages := ?pg\<rparr>)"
    using ok by (intro for_pages_effect[where ok = ok]) auto
  with best_fit_link_ok[OF inv n dis pg] show ?thesis by simp
qed

lemma best_fit_init_memmap_ok:
  assumes "fl_inv s bs" "0 < n" "{p..<p + n} \<inter> free_frames s bs = {}" "best_fit_mappable s p n"
  shows "\<exists>s' cs. best_fit_init_memmap p n s = Some s' \<and> fl_inv s' cs
    \<and> free_frames s' cs = free_frames s bs \<union> {p..<p + n}"
proof -
  from assms(4) have ok: "\<forall>q \<in> {p..<p + n}. PG_reserved (pages s q)"
    by (simp add: best_fit_mappable_def)
  from best_fit_reset_link[OF assms(1-3) ok] obtain t xs ys where
    "do { s1 \<leftarrow> for_pages (\<lambda>p s. do { kassert (PG_reserved (pages s p));
        Some (upd_page p (\<lambda>_. \<lparr>ref = 0, PG_reserved = False, PG_property = False,
           property = 0\<rparr>) s) }) p n s;
      best_fit_link p n s1 } = Some t" "fl_inv t (xs @ p # ys)"
    "free_frames t (xs @ p # ys) = free_frames s bs \<union> {p..<p + n}" by blast
  with assms(2) show ?thesis
    by (intro exI[of _ t] exI[of _ "xs @ p # ys"]) (simp add: best_fit_init_memmap_def)
qed

lemma best_fit_free_ok:
  assumes "fl_inv s bs" "0 < n" "{p..<p + n} \<inter> free_frames s bs = {}" "best_fit_releasable s p n"
  shows "\<exists>s' cs. best_fit_free_pages p n s = Some s' \<and> fl_inv s' cs
    \<and> free_frames s' cs = free_frames s bs \<union> {p..<p + n}"
proof -
  from best_fit_reset_link[OF assms(1-3), of "\<lambda>g. \<not> PG_reserved g \<and> \<not> PG_property g"] assms(4)
  obtain t xs ys where t: "do {
      s1 \<leftarrow> for_pages (\<lambda>p s. do { kassert (\<not> PG_reserved (pages s p) \<and> \<not> PG_property (pages s p));
        Some (upd_page p (\<lambda>_. \<lparr>ref = 0, PG_reserved = False, PG_property = False,
           property = 0\<rparr>) s) }) p n s;
      best_fit_link p n s1 } = Some t" "fl_inv t (xs @ p # ys)"
    "free_frames t (xs @ p # ys) = free_frames s bs \<union> {p..<p + n}"
    by (auto simp: best_fit_releasable_def)
  from t(1) assms(2) have "best_fit_free_pages p n s = Some (merge_neighbours p t)"
    by (auto simp: best_fit_free_pages_def bind_Some_iff)
  with merge_neighbours_inv[OF t(2)] t(3) show ?thesis by auto
qed

section \<open>The contract\<close>

interpretation best_fit: pmm_manager_reuse frame_rel best_fit_init best_fit_init_memmap
  best_fit_alloc_pages best_fit_free_pages best_fit_nr_free_pages best_fit_mappable
  best_fit_releasable
proof unfold_locales
  show "frame_rel (best_fit_init s) {}" for s
    unfolding frame_rel_def
    by (intro exI[of _ "[]"]) (simp add: fl_inv_def best_fit_init_def dlist_init)
  show "frame_rel s F \<Longrightarrow> finite F \<and> best_fit_nr_free_pages s = card F" for s F
    by (auto simp: frame_rel_def best_fit_nr_free_pages_def fl_inv_nr_free)
  show "\<exists>s'. best_fit_init_memmap p n s = Some s' \<and> frame_rel s' (F \<union> {p..<p + n})"
    if "frame_rel s F" "0 < n" "{p..<p + n} \<inter> F = {}" "best_fit_mappable s p n" for s F n p
    using that best_fit_init_memmap_ok unfolding frame_rel_def by metis
  show "(\<exists>p s'. best_fit_alloc_pages n s = Some (Some p, s') \<and> {p..<p + n} \<subseteq> F
      \<and> frame_rel s' (F - {p..<p + n})) \<or> best_fit_alloc_pages n s = Some (None, s)"
    if "frame_rel s F" "0 < n" for s F n
    using that best_fit_alloc_spec unfolding frame_rel_def by metis
  show "\<exists>s'. best_fit_free_pages p n s = Some s' \<and> frame_rel s' (F \<union> {p..<p + n})"
    if "frame_rel s F" "0 < n" "{p..<p + n} \<inter> F = {}" "best_fit_releasable s p n" for s F n p
    using that best_fit_free_ok unfolding frame_rel_def by metis
  show "best_fit_releasable s' p n"
    if r: "frame_rel s F" and n: "0 < n" and a: "best_fit_alloc_pages n s = Some (Some p, s')"
    for s F n p s'
  proof -
    from r obtain bs where inv: "fl_inv s bs" by (auto simp: frame_rel_def)
    from a have p: "best_of (prop_of s) n bs None (nr_free s + 1) = Some p" "s' = take_block p n s"
      by (auto simp: best_fit_alloc_cases[OF inv n] split: option.splits if_splits)
    then have b: "p \<in> set bs" "n \<le> prop_of s p"
      using best_of_found[OF inv] by blast+
    then obtain xs ys where "bs = xs @ p # ys" by (auto dest: split_list)
    with inv n b p(2) show ?thesis
      by (simp add: best_fit_releasable_def take_block_flags)
  qed
qed

section \<open>Properties\<close>

text \<open>C30. Best fit: a successful \<open>best_fit_alloc_pages\<close> returns a block that is large enough and
  no larger than any other large enough block, and takes exactly its first \<open>n\<close> frames out
  of the free frames; it fails exactly when no block is large enough, and then changes
  nothing.\<close>

theorem best_fit_alloc_smallest:
  assumes inv: "fl_inv s bs" and n: "0 < n"
  shows "\<exists>r s'. best_fit_alloc_pages n s = Some (r, s')
    \<and> (case r of
         None \<Rightarrow> s' = s \<and> (\<forall>b \<in> set bs. prop_of s b < n)
       | Some p \<Rightarrow> p \<in> set bs \<and> n \<le> prop_of s p
           \<and> (\<forall>c \<in> set bs. n \<le> prop_of s c \<longrightarrow> prop_of s p \<le> prop_of s c)
           \<and> (\<exists>cs. fl_inv s' cs \<and> free_frames s' cs = free_frames s bs - {p..<p + n}))"
proof (cases "best_of (prop_of s) n bs None (nr_free s + 1)")
  case None
  have "\<forall>b \<in> set bs. prop_of s b < nr_free s + 1" using fl_inv_block_bound[OF inv] by blast
  from best_of_smallest(1)[OF this None] None show ?thesis
    by (simp add: best_fit_alloc_cases[OF assms])
next
  case (Some p)
  from best_of_found[OF inv Some] have p: "p \<in> set bs" "n \<le> prop_of s p"
    "\<forall>c \<in> set bs. n \<le> prop_of s c \<longrightarrow> prop_of s p \<le> prop_of s c" by blast+
  then obtain xs ys where bs: "bs = xs @ p # ys" by (auto dest: split_list)
  moreover obtain cs where "fl_inv (take_block p n s) cs"
    "free_frames (take_block p n s) cs = free_frames s bs - {p..<p + n}"
    using take_block_found[of s xs p ys n] inv n p(2) bs by blast
  moreover have "best_fit_alloc_pages n s = Some (Some p, take_block p n s)"
    using Some p(2) fl_inv_block_bound[OF inv p(1)] by (simp add: best_fit_alloc_cases[OF assms])
  ultimately show ?thesis using p
    by (intro exI[of _ "Some p"] exI[of _ "take_block p n s"]) auto
qed

theorem best_fit_alloc_smallest_witness:
  "\<exists>r s'. best_fit_alloc_pages 4 area6 = Some (r, s')
    \<and> (case r of
         None \<Rightarrow> s' = area6 \<and> (\<forall>b \<in> set [0]. prop_of area6 b < 4)
       | Some p \<Rightarrow> p \<in> set [0] \<and> 4 \<le> prop_of area6 p
           \<and> (\<forall>c \<in> set [0]. 4 \<le> prop_of area6 c \<longrightarrow> prop_of area6 p \<le> prop_of area6 c)
           \<and> (\<exists>cs. fl_inv s' cs \<and> free_frames s' cs = free_frames area6 [0] - {p..<p + 4}))"
  using best_fit_alloc_smallest[OF area6_inv, of 4] by simp

text \<open>With best fit every successful allocation can be undone: freeing the run that was
  just allocated returns and restores the set of free frames, wherever the run lies.\<close>

theorem best_fit_alloc_free:
  assumes "frame_rel s F" "0 < n" "best_fit_alloc_pages n s = Some (Some p, s')"
  shows "\<exists>s''. best_fit_free_pages p n s' = Some s'' \<and> frame_rel s'' F"
  using assms by (rule best_fit.alloc_free_restores)

theorem best_fit_alloc_free_witness:
  "\<exists>s''. best_fit_free_pages 0 6 (take_block 0 6 area6) = Some s'' \<and> frame_rel s'' {0..<6}"
proof (rule best_fit_alloc_free[OF area6_rel])
  show "best_fit_alloc_pages 6 area6 = Some (Some 0, take_block 0 6 area6)"
    by (subst best_fit_alloc_cases[OF area6_inv]) (simp_all add: area6_def)
qed simp

end
