(* ===== verification/Buddy.thy ===== *)
theory Buddy
  imports Pmm_Manager "HOL-Library.Word"
begin

unbundle bit_operations_syntax

text \<open>
  The buddy page manager of lab 2, \<open>kern/mm/buddy_pmm.c\<close>, which is the manager lab 2 is built with.
  The array \<open>longest\<close> holds a complete binary tree: the entry of a node is the size of the largest
  free block below it.  Sizes and indices stay below \<open>2 ^ 15\<close> and are natural numbers; the rounding
  of a request is computed in 32-bit words, as in the code.
\<close>

section \<open>State and operations\<close>

record buddy_manager =
  bsize :: nat
  longest :: "nat \<Rightarrow> nat"
  bbase :: nat
  bpages :: nat
  total_free :: nat
  page_tab :: "nat \<Rightarrow> page"
  bnpage :: nat

abbreviation (input) BUDDY_MAX_PAGES :: nat where "BUDDY_MAX_PAGES \<equiv> 16384"
abbreviation (input) page_shift :: nat where "page_shift \<equiv> 4096"
abbreviation (input) dram_base :: nat where "dram_base \<equiv> 0x80000"

definition LEFT_LEAF :: "nat \<Rightarrow> nat" where "LEFT_LEAF i = i * 2 + 1"
definition RIGHT_LEAF :: "nat \<Rightarrow> nat" where "RIGHT_LEAF i = i * 2 + 2"
definition PARENT :: "nat \<Rightarrow> nat" where "PARENT i = (i + 1) div 2 - 1"

definition IS_POWER_OF_2 :: "nat \<Rightarrow> bool" where
  "IS_POWER_OF_2 x \<longleftrightarrow> x AND (x - 1) = 0"

definition fixsize :: "32 word \<Rightarrow> 32 word" where
  "fixsize n =
     (if n = 0 then 1
      else let a = n - 1;
               b = a OR drop_bit 1 a;
               c = b OR drop_bit 2 b;
               d = c OR drop_bit 4 c;
               e = d OR drop_bit 8 d;
               f = e OR drop_bit 16 e
           in f + 1)"

text \<open>The loop of \<open>buddy_init_tree\<close> from node \<open>i\<close> on.\<close>

function init_tree_loop :: "nat \<Rightarrow> nat \<Rightarrow> nat \<Rightarrow> (nat \<Rightarrow> nat) \<Rightarrow> nat \<Rightarrow> nat" where
  "init_tree_loop sz i node_size L =
     (if i < 2 * sz - 1
      then let n = (if IS_POWER_OF_2 (i + 1) then node_size div 2 else node_size)
           in init_tree_loop sz (i + 1) n (L(i := n))
      else L)"
  by auto
termination by (relation "measure (\<lambda>(sz, i, _, _). 2 * sz - 1 - i)") auto

declare init_tree_loop.simps [simp del]

definition buddy_init_tree :: "nat \<Rightarrow> buddy_manager \<Rightarrow> buddy_manager" where
  "buddy_init_tree sz s = s\<lparr>bsize := sz, longest := init_tree_loop sz 0 (sz * 2) (longest s), total_free := sz\<rparr>"

text \<open>\<open>buddy_alloc\<close>: the descent to a block of the size, and the way back up.\<close>

partial_function (option) descend :: "(nat \<Rightarrow> nat) \<Rightarrow> nat \<Rightarrow> nat \<Rightarrow> nat \<Rightarrow> (nat \<times> nat) option" where
  "descend L sz index node_size =
     (if node_size \<noteq> sz
      then descend L sz (if L (LEFT_LEAF index) \<ge> sz then LEFT_LEAF index else RIGHT_LEAF index) (node_size div 2)
      else Some (index, node_size))"

declare descend.simps [code]

function update_up :: "(nat \<Rightarrow> nat) \<Rightarrow> nat \<Rightarrow> nat \<Rightarrow> nat" where
  "update_up L index =
     (if index \<noteq> 0
      then let i = PARENT index in update_up (L(i := max (L (LEFT_LEAF i)) (L (RIGHT_LEAF i)))) i
      else L)"
  by auto
termination by (relation "measure snd") (auto simp: PARENT_def)

declare update_up.simps [simp del]

definition buddy_alloc :: "nat \<Rightarrow> buddy_manager \<Rightarrow> (int \<times> buddy_manager) option" where
  "buddy_alloc n s =
     (let sz = (if n = 0 then 1 else if \<not> IS_POWER_OF_2 n then unat (fixsize (word_of_nat n)) else n) in
      if longest s 0 < sz then Some (- 1, s)
      else do {
        (index, node_size) \<leftarrow> descend (longest s) sz 0 (bsize s);
        Some (int ((index + 1) * node_size) - int (bsize s),
              s\<lparr>longest := update_up ((longest s)(index := 0)) index\<rparr>) })"

text \<open>\<open>buddy_free\<close>: the search for the allocated node, and the merging of buddies.\<close>

function search_up :: "(nat \<Rightarrow> nat) \<Rightarrow> nat \<Rightarrow> nat \<Rightarrow> (nat \<times> nat) option" where
  "search_up L index node_size =
     (if L index \<noteq> 0
      then if index = 0 then None else search_up L (PARENT index) (node_size * 2)
      else Some (index, node_size))"
  by auto
termination by (relation "measure (fst \<circ> snd)") (auto simp: PARENT_def)

declare search_up.simps [simp del]

function merge_up :: "(nat \<Rightarrow> nat) \<Rightarrow> nat \<Rightarrow> nat \<Rightarrow> nat \<Rightarrow> nat" where
  "merge_up L index node_size =
     (if index \<noteq> 0
      then let i = PARENT index; n = node_size * 2; l = L (LEFT_LEAF i); r = L (RIGHT_LEAF i)
           in merge_up (L(i := (if l + r = n then n else max l r))) i n
      else L)"
  by auto
termination by (relation "measure (fst \<circ> snd)") (auto simp: PARENT_def)

declare merge_up.simps [simp del]

definition buddy_free :: "int \<Rightarrow> buddy_manager \<Rightarrow> buddy_manager option" where
  "buddy_free offset s = do {
     kassert (offset \<ge> 0 \<and> offset < int (bsize s));
     (case search_up (longest s) (nat offset + bsize s - 1) 1 of
        None \<Rightarrow> Some s
      | Some (index, node_size) \<Rightarrow>
          Some (s\<lparr>longest := merge_up ((longest s)(index := node_size)) index node_size\<rparr>)) }"

section \<open>The interface of a page manager\<close>

text \<open>A descriptor is named by its index in \<open>pages\<close>, so \<open>page2pa\<close> and \<open>pa2page\<close> are those of \<open>pmm.h\<close>.\<close>

definition buddy_page2pa :: "nat \<Rightarrow> nat" where "buddy_page2pa p = (p + dram_base) * page_shift"

definition buddy_pa2page :: "nat \<Rightarrow> buddy_manager \<Rightarrow> nat option" where
  "buddy_pa2page pa s = (if pa div page_shift \<ge> bnpage s then None else Some (pa div page_shift - dram_base))"

definition buddy_init :: "buddy_manager \<Rightarrow> buddy_manager" where
  "buddy_init s = s\<lparr>bsize := 0, longest := (\<lambda>_. 0), bbase := 0, bpages := 0, total_free := 0\<rparr>"

text \<open>The loops over descriptors \<open>base + i\<close> for \<open>i < n\<close>.\<close>

definition for_tab :: "nat \<Rightarrow> nat \<Rightarrow> (page \<Rightarrow> page) \<Rightarrow> (nat \<Rightarrow> page) \<Rightarrow> nat \<Rightarrow> page" where
  "for_tab base n f tab = (\<lambda>p. if base \<le> p \<and> p < base + n then f (tab p) else tab p)"

function root_size :: "nat \<Rightarrow> nat \<Rightarrow> nat" where
  "root_size n sz = (if 0 < sz \<and> sz * 2 \<le> n \<and> sz * 2 \<le> BUDDY_MAX_PAGES then root_size n (sz * 2) else sz)"
  by auto
termination by (relation "measure (\<lambda>(n, sz). n - sz)") auto

declare root_size.simps [simp del]

definition buddy_init_memmap :: "nat \<Rightarrow> nat \<Rightarrow> buddy_manager \<Rightarrow> buddy_manager option" where
  "buddy_init_memmap base n s = do {
     kassert (n > 0);
     let sz = root_size n 1;
     let s1 = s\<lparr>page_tab := for_tab base sz (\<lambda>p. p\<lparr>PG_reserved := False, ref := 0, PG_property := False\<rparr>) (page_tab s)\<rparr>;
     Some ((buddy_init_tree sz s1)\<lparr>bbase := buddy_page2pa base, bpages := base\<rparr>) }"

definition buddy_alloc_pages :: "nat \<Rightarrow> buddy_manager \<Rightarrow> (nat option \<times> buddy_manager) option" where
  "buddy_alloc_pages n s =
     (if n = 0 \<or> bsize s = 0 then Some (None, s)
      else let alloc_size = unat (fixsize (word_of_nat n)) in
        if alloc_size > bsize s then Some (None, s)
        else do {
          (offset, s1) \<leftarrow> buddy_alloc alloc_size s;
          if offset < 0 then Some (None, s1)
          else do {
            page \<leftarrow> buddy_pa2page (bbase s1 + nat offset * page_shift) s1;
            kassert (page \<ge> bpages s1 \<and> page + alloc_size \<le> bpages s1 + bsize s1);
            Some (Some page, s1\<lparr>page_tab := for_tab page alloc_size (\<lambda>p. p\<lparr>ref := 1, property := alloc_size\<rparr>) (page_tab s1),
               total_free := total_free s1 - alloc_size\<rparr>) } })"

definition buddy_free_pages :: "nat \<Rightarrow> nat \<Rightarrow> buddy_manager \<Rightarrow> buddy_manager option" where
  "buddy_free_pages base n s = do {
     kassert (n > 0 \<and> bsize s \<noteq> 0);
     let free_size = property (page_tab s base);
     if \<not> IS_POWER_OF_2 free_size then Some s
     else do {
       kassert (free_size \<noteq> 0 \<and> base \<ge> bpages s \<and> (base - bpages s) mod free_size = 0);
       kassert (buddy_page2pa base \<ge> bbase s);
       let offset = (buddy_page2pa base - bbase s) div page_shift;
       kassert (offset + free_size \<le> bsize s);
       s1 \<leftarrow> buddy_free (int offset) (s\<lparr>page_tab := for_tab base free_size (\<lambda>p. p\<lparr>ref := 0, property := 0\<rparr>) (page_tab s)\<rparr>);
       Some (s1\<lparr>total_free := total_free s1 + free_size\<rparr>) } }"

definition buddy_nr_free_pages :: "buddy_manager \<Rightarrow> nat" where
  "buddy_nr_free_pages s = total_free s"


section \<open>Rounding\<close>

text \<open>\<open>top x k\<close>: the highest bit of \<open>x\<close> is bit \<open>k\<close>; \<open>filled m\<close>: so are the \<open>m\<close> bits from there down.\<close>

definition filled :: "nat \<Rightarrow> nat \<Rightarrow> 32 word \<Rightarrow> bool" where
  "filled m k x \<longleftrightarrow> (\<forall>i. k < i \<longrightarrow> \<not> bit x i) \<and> (\<forall>i \<le> k. k < i + m \<longrightarrow> bit x i)"

lemma filled_smear: "filled m k x \<Longrightarrow> filled (m + m) k (x OR drop_bit m x)"
  unfolding filled_def
proof (intro conjI allI impI)
  fix i
  assume f: "(\<forall>i. k < i \<longrightarrow> \<not> bit x i) \<and> (\<forall>i \<le> k. k < i + m \<longrightarrow> bit x i)"
  show "\<not> bit (x OR drop_bit m x) i" if "k < i" using f that by (simp add: bit_or_iff bit_drop_bit_eq)
  show "bit (x OR drop_bit m x) i" if "i \<le> k" "k < i + (m + m)"
    using f that by (cases "k < i + m") (auto simp: bit_or_iff bit_drop_bit_eq ac_simps)
qed

lemma filled_mask: "k < 32 \<Longrightarrow> filled 32 k x \<Longrightarrow> x = mask (k + 1)"
  by (rule bit_word_eqI) (force simp: filled_def bit_mask_iff less_Suc_eq_le intro: leI)

lemma fixsize_mask:
  assumes "n \<noteq> 0" "filled 1 k (n - 1)" "k < 32"
  shows "fixsize n = 2 ^ (k + 1)"
proof -
  let ?s = "\<lambda>m x :: 32 word. x OR drop_bit m x"
  have 1: "filled 2 k (?s 1 (n - 1))" using filled_smear[OF assms(2)] by (simp only: one_add_one)
  have 2: "filled 4 k (?s 2 (?s 1 (n - 1)))" using filled_smear[OF 1] by (simp only: numeral_plus_numeral add_num_simps)
  have 3: "filled 8 k (?s 4 (?s 2 (?s 1 (n - 1))))" using filled_smear[OF 2] by (simp only: numeral_plus_numeral add_num_simps)
  have 4: "filled 16 k (?s 8 (?s 4 (?s 2 (?s 1 (n - 1)))))" using filled_smear[OF 3] by (simp only: numeral_plus_numeral add_num_simps)
  have "filled 32 k (?s 16 (?s 8 (?s 4 (?s 2 (?s 1 (n - 1))))))" using filled_smear[OF 4] by (simp only: numeral_plus_numeral add_num_simps)
  from filled_mask[OF assms(3) this] assms(1) show ?thesis by (simp only: fixsize_def Let_def if_False) (simp add: mask_eq_exp_minus_1)
qed

lemma highest_bit:
  fixes x :: "32 word"
  assumes "x \<noteq> 0"
  shows "\<exists>k < 32. filled 1 k x \<and> 2 ^ k \<le> unat x \<and> unat x < 2 ^ (k + 1)"
proof -
  define k where "k = Max {i. bit x i}"
  have fin: "finite {i. bit x i}" by (rule finite_subset[of _ "{..<32}"]) (auto dest: bit_imp_le_length)
  have ne: "{i. bit x i} \<noteq> {}" using assms by (auto simp: bit_eq_iff)
  have k: "bit x k" "\<And>i. k < i \<Longrightarrow> \<not> bit x i"
    using Max_in[OF fin ne] Max_ge[OF fin] unfolding k_def by (simp, meson leD mem_Collect_eq)
  then have f: "filled 1 k x" by (auto simp: filled_def less_Suc_eq_le dest: le_antisym)
  have "x = take_bit (k + 1) x"
    by (rule bit_word_eqI) (use k(2) in \<open>force simp: bit_take_bit_iff less_Suc_eq_le intro: leI\<close>)
  then have "unat x = take_bit (k + 1) (unat x)" by (metis unsigned_take_bit_eq)
  then have "unat x < 2 ^ (k + 1)" by (metis take_bit_nat_less_exp)
  moreover have "bit (unat x) k" using k(1) by (simp add: bit_unsigned_iff)
  then have "2 ^ k \<le> unat x" by (metis bit_iff_odd div_less even_zero not_le)
  ultimately show ?thesis using f bit_imp_le_length[OF k(1)] by auto
qed

lemma unat_pow: "m < 32 \<Longrightarrow> unat (2 ^ m :: 32 word) = 2 ^ m"
proof -
  assume "m < 32"
  then have "(2::nat) ^ m < 2 ^ 32" by (intro power_strict_increasing) auto
  then have "unat (word_of_nat (2 ^ m) :: 32 word) = 2 ^ m" by (simp only: unat_of_nat) (simp add: take_bit_nat_eq_self)
  then show ?thesis by simp
qed

lemma fixsize_pow:
  assumes "0 < n" "n \<le> 2 ^ 31"
  shows "\<exists>j \<le> 31. unat (fixsize (word_of_nat n)) = 2 ^ j \<and> n \<le> 2 ^ j \<and> (\<forall>i. n \<le> 2 ^ i \<longrightarrow> j \<le> i)"
proof -
  have u: "unat (word_of_nat n - 1 :: 32 word) = n - 1" "word_of_nat n \<noteq> (0 :: 32 word)"
    using assms by (simp_all add: unat_sub_if_size word_size unat_of_nat of_nat_eq_0_iff word_of_nat_eq_0_iff) (auto dest: nat_dvd_not_less)
  show ?thesis
  proof (cases "n = 1")
    case True
    then show ?thesis by (intro exI[of _ 0]) (simp add: fixsize_def)
  next
    case False
    then have "word_of_nat n - 1 \<noteq> (0 :: 32 word)" using u(1) assms(1) by (metis Suc_pred' diff_is_0_eq' le_less_linear less_one nat_less_le unat_0 One_nat_def)
    from highest_bit[OF this] obtain k where k: "k < 32" "filled 1 k (word_of_nat n - 1)" "2 ^ k \<le> n - 1" "n - 1 < 2 ^ (k + 1)"
      unfolding u(1) by auto
    have "k < 31"
    proof (rule ccontr)
      assume "\<not> k < 31"
      then have "(2::nat) ^ 31 \<le> 2 ^ k" by (intro power_increasing) auto
      with k(3) assms show False by linarith
    qed
    then have "unat (fixsize (word_of_nat n)) = 2 ^ (k + 1)"
      using fixsize_mask[OF u(2) k(2,1)] unat_pow[of "k + 1"] by simp
    moreover have "k + 1 \<le> i" if "n \<le> 2 ^ i" for i
    proof -
      have "(2::nat) ^ k < 2 ^ i" using k(3) that assms(1) by linarith
      then show ?thesis by simp
    qed
    ultimately show ?thesis using \<open>k < 31\<close> k(4) by (intro exI[of _ "k + 1"]) auto
  qed
qed

lemma fixsize_wraps:
  assumes "2 ^ 31 < n" "n < 2 ^ 32"
  shows "fixsize (word_of_nat n) = 0"
proof -
  have u: "unat (word_of_nat n - 1 :: 32 word) = n - 1" "word_of_nat n \<noteq> (0 :: 32 word)"
    using assms by (simp_all add: unat_sub_if_size word_size unat_of_nat word_of_nat_eq_0_iff) (auto dest: nat_dvd_not_less)
  then have "word_of_nat n - 1 \<noteq> (0 :: 32 word)" using assms by (auto simp: unat_eq_0[symmetric] simp del: unat_eq_0)
  from highest_bit[OF this] obtain k where k: "k < 32" "filled 1 k (word_of_nat n - 1)" "n - 1 < 2 ^ (k + 1)"
    unfolding u(1) by auto
  have "\<not> k < 31"
  proof
    assume "k < 31"
    then have "(2::nat) ^ (k + 1) \<le> 2 ^ 31" by (intro power_increasing) auto
    with k(3) assms show False by linarith
  qed
  then have "k = 31" using k(1) by simp
  with fixsize_mask[OF u(2) k(2,1)] show ?thesis by simp
qed


lemma power_of_2_iff: "0 < x \<Longrightarrow> IS_POWER_OF_2 x \<longleftrightarrow> (\<exists>j. x = 2 ^ j)"
proof (induction x rule: less_induct)
  case (less x)
  show ?case
  proof (cases "even x")
    case True
    then obtain y where y: "x = 2 * y" "0 < y" using less.prems by auto
    have "(2 * y - 1) div 2 = y - 1" by presburger
    then have "x AND (x - 1) = 2 * (y AND (y - 1))" using y and_nat_rec[of x "x - 1"] by simp
    then have "IS_POWER_OF_2 x \<longleftrightarrow> IS_POWER_OF_2 y" by (simp add: IS_POWER_OF_2_def)
    also have "\<dots> \<longleftrightarrow> (\<exists>j. y = 2 ^ j)" using less.IH[of y] y by simp
    also have "\<dots> \<longleftrightarrow> (\<exists>j. x = 2 ^ j)"
    proof
      show "\<exists>j. y = 2 ^ j \<Longrightarrow> \<exists>j. x = 2 ^ j" using y(1) by (metis power_Suc)
      assume "\<exists>j. x = 2 ^ j"
      then obtain j where j: "x = 2 ^ j" by blast
      then show "\<exists>j. y = 2 ^ j" using y by (cases j) auto
    qed
    finally show ?thesis .
  next
    case False
    then obtain y where y: "x = 2 * y + 1" by (auto elim: oddE)
    have "x AND (x - 1) = 2 * y" using y and_nat_rec[of x "x - 1"] by simp
    moreover have "x = 2 ^ j \<Longrightarrow> x = 1" for j using False by (cases j) auto
    then have "(\<exists>j. x = 2 ^ j) \<longleftrightarrow> x = 1" by (metis power_0)
    ultimately show ?thesis using y by (simp add: IS_POWER_OF_2_def)
  qed
qed

section \<open>The tree in the array\<close>

text \<open>The shape of the managed range: a block is free, allocated, or split into two buddies that are
  not both free.  \<open>rep L i k t\<close> says that the part of \<open>longest\<close> below node \<open>i\<close>, for a block of \<open>2 ^ k\<close>
  pages, represents \<open>t\<close>; the entries below an allocated node keep the values they had when it was free.\<close>

datatype btree = Free | Used | Split btree btree

fun full :: "(nat \<Rightarrow> nat) \<Rightarrow> nat \<Rightarrow> nat \<Rightarrow> bool" where
  "full L i 0 \<longleftrightarrow> L i = 1"
| "full L i (Suc k) \<longleftrightarrow> L i = 2 ^ Suc k \<and> full L (LEFT_LEAF i) k \<and> full L (RIGHT_LEAF i) k"

fun rep :: "(nat \<Rightarrow> nat) \<Rightarrow> nat \<Rightarrow> nat \<Rightarrow> btree \<Rightarrow> bool" where
  "rep L i k Free \<longleftrightarrow> full L i k"
| "rep L i 0 Used \<longleftrightarrow> L i = 0"
| "rep L i (Suc k) Used \<longleftrightarrow> L i = 0 \<and> full L (LEFT_LEAF i) k \<and> full L (RIGHT_LEAF i) k"
| "rep L i 0 (Split l r) \<longleftrightarrow> False"
| "rep L i (Suc k) (Split l r) \<longleftrightarrow> L i = max (L (LEFT_LEAF i)) (L (RIGHT_LEAF i))
     \<and> rep L (LEFT_LEAF i) k l \<and> rep L (RIGHT_LEAF i) k r \<and> \<not> (l = Free \<and> r = Free)"

text \<open>The free pages and the allocated blocks of a tree whose first page is \<open>b\<close>.\<close>

fun frees :: "nat \<Rightarrow> nat \<Rightarrow> btree \<Rightarrow> nat set" where
  "frees k b Free = {b..<b + 2 ^ k}"
| "frees k b Used = {}"
| "frees 0 b (Split l r) = {}"
| "frees (Suc k) b (Split l r) = frees k b l \<union> frees k (b + 2 ^ k) r"

fun used :: "nat \<Rightarrow> nat \<Rightarrow> btree \<Rightarrow> (nat \<times> nat) set" where
  "used k b Free = {}"
| "used k b Used = {(b, 2 ^ k)}"
| "used 0 b (Split l r) = {}"
| "used (Suc k) b (Split l r) = used k b l \<union> used k (b + 2 ^ k) r"

fun nodes :: "nat \<Rightarrow> nat \<Rightarrow> nat set" where
  "nodes i 0 = {i}"
| "nodes i (Suc k) = insert i (nodes (LEFT_LEAF i) k \<union> nodes (RIGHT_LEAF i) k)"

lemma heap_index [simp]: "PARENT (LEFT_LEAF i) = i" "PARENT (RIGHT_LEAF i) = i" "LEFT_LEAF i \<noteq> 0" "RIGHT_LEAF i \<noteq> 0"
  by (simp_all add: PARENT_def LEFT_LEAF_def RIGHT_LEAF_def)

lemma nodes_level: "x \<in> nodes i k \<Longrightarrow> \<exists>d \<le> k. (x + 1) div 2 ^ d = i + 1"
proof (induction k arbitrary: i)
  case (Suc k)
  show ?case
  proof (cases "x = i")
    case False
    with Suc obtain d where d: "d \<le> k" "(x + 1) div 2 ^ d = LEFT_LEAF i + 1 \<or> (x + 1) div 2 ^ d = RIGHT_LEAF i + 1"
      by fastforce
    then have "(x + 1) div 2 ^ d div 2 = i + 1" by (auto simp: LEFT_LEAF_def RIGHT_LEAF_def)
    then have "(x + 1) div 2 ^ Suc d = i + 1" by (simp only: power_Suc2 div_mult2_eq)
    then show ?thesis using d(1) by (intro exI[of _ "Suc d"]) simp
  qed auto
qed auto

lemma nodes_apart:
  assumes "x \<in> nodes i k" "x \<in> nodes j m" "i < j" "j \<le> 2 * i"
  shows False
proof -
  from nodes_level[OF assms(1)] obtain d where d: "(x + 1) div 2 ^ d = i + 1" by blast
  from nodes_level[OF assms(2)] obtain e where e: "(x + 1) div 2 ^ e = j + 1" by blast
  show False
  proof (cases "d \<le> e")
    case True
    then have "(x + 1) div 2 ^ e = (x + 1) div 2 ^ d div 2 ^ (e - d)" by (simp add: div_mult2_eq[symmetric] power_add[symmetric])
    then have "j + 1 = (i + 1) div 2 ^ (e - d)" using d e by simp
    also have "\<dots> \<le> i + 1" by (rule div_le_dividend)
    finally show False using assms by simp
  next
    case False
    then have "(x + 1) div 2 ^ d = (x + 1) div 2 ^ e div 2 ^ (d - e)" by (simp add: div_mult2_eq[symmetric] power_add[symmetric])
    moreover obtain c where "d - e = Suc c" using False by (cases "d - e") auto
    ultimately have "i + 1 = (j + 1) div 2 div 2 ^ c" using d e by (simp add: div_mult2_eq)
    also have "\<dots> \<le> (j + 1) div 2" by (rule div_le_dividend)
    finally show False using assms by simp
  qed
qed

lemma nodes_disjoint: "nodes (LEFT_LEAF i) k \<inter> nodes (RIGHT_LEAF i) m = {}"
proof -
  have "False" if "x \<in> nodes (LEFT_LEAF i) k" "x \<in> nodes (RIGHT_LEAF i) m" for x
    using that by (rule nodes_apart) (simp_all add: LEFT_LEAF_def RIGHT_LEAF_def)
  then show ?thesis by blast
qed

lemma nodes_ge: "x \<in> nodes i k \<Longrightarrow> i \<le> x"
  by (induction k arbitrary: i) (fastforce simp: LEFT_LEAF_def RIGHT_LEAF_def)+

lemma nodes_root: "i \<notin> nodes (LEFT_LEAF i) k" "i \<notin> nodes (RIGHT_LEAF i) k"
  using nodes_ge[of i "LEFT_LEAF i" k] nodes_ge[of i "RIGHT_LEAF i" k] by (auto simp: LEFT_LEAF_def RIGHT_LEAF_def)

lemma nodes_self [simp]: "i \<in> nodes i k" by (cases k) auto

lemma full_cong: "(\<And>x. x \<in> nodes i k \<Longrightarrow> L' x = L x) \<Longrightarrow> full L' i k = full L i k"
  by (induction k arbitrary: i) auto

lemma rep_cong: "(\<And>x. x \<in> nodes i k \<Longrightarrow> L' x = L x) \<Longrightarrow> rep L' i k t = rep L i k t"
proof (induction L i k t rule: rep.induct)
  case (1 L i k)
  then show ?case using full_cong[of i k L' L] by simp
next
  case (3 L i k)
  then show ?case using full_cong[of "LEFT_LEAF i" k L' L] full_cong[of "RIGHT_LEAF i" k L' L] by simp
next
  case (5 L i k l r)
  then show ?case by simp
qed auto

lemma full_root: "full L i k \<Longrightarrow> L i = 2 ^ k" by (cases k) auto

lemma rep_root: "rep L i k t \<Longrightarrow> L i \<le> 2 ^ k \<and> (L i = 2 ^ k \<longleftrightarrow> t = Free)"
  by (induction L i k t rule: rep.induct) (auto dest: full_root simp: max_def)


lemma rep_upd_root [simp]:
  "full (M(i := v)) (LEFT_LEAF i) k = full M (LEFT_LEAF i) k" "full (M(i := v)) (RIGHT_LEAF i) k = full M (RIGHT_LEAF i) k"
  "rep (M(i := v)) (LEFT_LEAF i) k t = rep M (LEFT_LEAF i) k t" "rep (M(i := v)) (RIGHT_LEAF i) k t = rep M (RIGHT_LEAF i) k t"
  using nodes_root[of i k] by (auto intro!: full_cong rep_cong)

lemma rep_sibling:
  "(\<And>y. y \<notin> nodes (LEFT_LEAF i) k \<Longrightarrow> M y = L y) \<Longrightarrow> rep M (RIGHT_LEAF i) k t = rep L (RIGHT_LEAF i) k t"
  "(\<And>y. y \<notin> nodes (RIGHT_LEAF i) k \<Longrightarrow> M y = L y) \<Longrightarrow> rep M (LEFT_LEAF i) k t = rep L (LEFT_LEAF i) k t"
  using nodes_disjoint[of i k k] by (auto intro!: rep_cong)

lemma child_neq [simp]: "LEFT_LEAF i \<noteq> i" "RIGHT_LEAF i \<noteq> i" "LEFT_LEAF i \<noteq> RIGHT_LEAF i"
  by (simp_all add: LEFT_LEAF_def RIGHT_LEAF_def)

lemma frees_range: "frees k b t \<subseteq> {b..<b + 2 ^ k}"
  by (induction k b t rule: frees.induct) fastforce+

lemma used_range: "(p, m) \<in> used k b t \<Longrightarrow> 0 < m \<and> b \<le> p \<and> p + m \<le> b + 2 ^ k"
  by (induction k b t rule: used.induct) fastforce+

text \<open>The node from which a tree may be split: its two halves.\<close>

lemma halves:
  assumes "rep L i (Suc k) t" "0 < L i" "\<And>l r. rep L (LEFT_LEAF i) k l \<Longrightarrow> rep L (RIGHT_LEAF i) k r \<Longrightarrow>
      (t = Free \<and> l = Free \<and> r = Free \<or> t = Split l r) \<Longrightarrow> (\<And>b. frees (Suc k) b t = frees k b l \<union> frees k (b + 2 ^ k) r) \<Longrightarrow>
      (\<And>b. used (Suc k) b t = used k b l \<union> used k (b + 2 ^ k) r) \<Longrightarrow> P"
  shows P
proof (cases t)
  case Free
  then show P using assms(1) by (intro assms(3)[of Free Free]) auto
next
  case (Split l r)
  then show P using assms(1) by (intro assms(3)[of l r]) auto
qed (use assms in auto)

abbreviation (input) block :: "nat \<Rightarrow> nat \<Rightarrow> nat set" where "block a m \<equiv> {a..<a + m}"

text \<open>\<open>takes j k q t t'\<close>: \<open>t'\<close> is \<open>t\<close> with the free block of \<open>2 ^ j\<close> pages at place \<open>q\<close> allocated.\<close>

definition takes :: "nat \<Rightarrow> nat \<Rightarrow> nat \<Rightarrow> btree \<Rightarrow> btree \<Rightarrow> bool" where
  "takes j k q t t' \<longleftrightarrow> q < 2 ^ (k - j) \<and> t' \<noteq> Free \<and> (\<forall>b. block (b + q * 2 ^ j) (2 ^ j) \<subseteq> frees k b t
     \<and> frees k b t' = frees k b t - block (b + q * 2 ^ j) (2 ^ j)
     \<and> used k b t' = insert (b + q * 2 ^ j, 2 ^ j) (used k b t))"

lemma takes_half:
  assumes "j \<le> k" "\<And>b. frees (Suc k) b t = frees k b l \<union> frees k (b + 2 ^ k) r"
    "\<And>b. used (Suc k) b t = used k b l \<union> used k (b + 2 ^ k) r"
  shows "takes j k q l l' \<Longrightarrow> takes j (Suc k) q t (Split l' r)"
    and "takes j k q r r' \<Longrightarrow> takes j (Suc k) (q + 2 ^ (k - j)) t (Split l r')"
proof -
  have p: "2 ^ (k - j) * 2 ^ j = (2::nat) ^ k" "Suc k - j = Suc (k - j)" using assms(1) by (simp_all add: power_add[symmetric])
  have in_half: "q * 2 ^ j + 2 ^ j \<le> 2 ^ k" if "q < 2 ^ (k - j)" for q :: nat
  proof -
    have "(q + 1) * 2 ^ j \<le> 2 ^ (k - j) * 2 ^ j" using that by (intro mult_le_mono1) simp
    then show ?thesis by (simp add: p)
  qed
  show "takes j (Suc k) q t (Split l' r)" if "takes j k q l l'"
  proof -
    have "block (b + q * 2 ^ j) (2 ^ j) \<inter> frees k (b + 2 ^ k) r = {}" for b
      using in_half[of q] that frees_range[of k "b + 2 ^ k" r] by (fastforce simp: takes_def)
    then show ?thesis using that assms(2,3) p(2) by (auto simp: takes_def)
  qed
  show "takes j (Suc k) (q + 2 ^ (k - j)) t (Split l r')" if "takes j k q r r'"
  proof -
    have e: "b + (q + 2 ^ (k - j)) * 2 ^ j = b + 2 ^ k + q * 2 ^ j" for b using p(1) by (simp add: add_mult_distrib)
    have "block (b + 2 ^ k + q * 2 ^ j) (2 ^ j) \<inter> frees k b l = {}" for b using frees_range[of k b l] by fastforce
    then show ?thesis using that assms(2,3) p(2) unfolding takes_def e by auto
  qed
qed

text \<open>What \<open>buddy_alloc\<close> does below node \<open>i\<close>.\<close>

lemma alloc_tree:
  assumes "rep L i k t" "2 ^ j \<le> L i" "j \<le> k"
  shows "\<exists>x q t' L'. descend L (2 ^ j) i (2 ^ k) = Some (x, 2 ^ j) \<and> x + 1 = (i + 1) * 2 ^ (k - j) + q \<and> takes j k q t t'
    \<and> update_up (L(x := 0)) x = update_up L' i \<and> rep L' i k t' \<and> (\<forall>y. y \<notin> nodes i k \<longrightarrow> L' y = L y)"
  using assms
proof (induction k arbitrary: i t)
  case 0
  then have t: "t = Free" "j = 0" using rep_root[OF 0(1)] by auto
  then show ?case using 0
    by - (rule exI[of _ i], rule exI[of _ 0], rule exI[of _ Used], rule exI[of _ "L(i := 0)"],
            simp add: descend.simps takes_def)
next
  case (Suc k)
  show ?case
  proof (cases "j = Suc k")
    case True
    then have t: "t = Free" using rep_root[OF Suc.prems(1)] Suc.prems(2) by auto
    define M where "M = L(i := 0)"
    have "rep M i (Suc k) Used" "\<forall>y. y \<notin> nodes i (Suc k) \<longrightarrow> M y = L y"
      using Suc.prems(1) unfolding t M_def by (simp_all only: rep.simps full.simps rep_upd_root fun_upd_same) auto
    then show ?thesis using True t
      by - (rule exI[of _ i], rule exI[of _ 0], rule exI[of _ Used], rule exI[of _ M],
            simp add: descend.simps takes_def M_def[symmetric])
  next
    case False
    then have j: "j \<le> k" "(2::nat) ^ Suc k \<noteq> 2 ^ j" "Suc k - j = Suc (k - j)" using Suc.prems(3) by (auto simp del: power_Suc)
    have pos: "0 < L i" using Suc.prems(2) by (meson dual_order.strict_trans1 zero_less_numeral zero_less_power)
    from Suc.prems(1) pos show ?thesis
    proof (rule halves)
      fix l r
      assume lr: "rep L (LEFT_LEAF i) k l" "rep L (RIGHT_LEAF i) k r" "t = Free \<and> l = Free \<and> r = Free \<or> t = Split l r"
        and fr: "\<And>b. frees (Suc k) b t = frees k b l \<union> frees k (b + 2 ^ k) r" "\<And>b. used (Suc k) b t = used k b l \<union> used k (b + 2 ^ k) r"
      define c where "c = (if L (LEFT_LEAF i) \<ge> 2 ^ j then LEFT_LEAF i else RIGHT_LEAF i)"
      have d: "descend L (2 ^ j) i (2 ^ Suc k) = descend L (2 ^ j) c (2 ^ k)"
        using j(2) by (subst descend.simps) (simp add: c_def)
      have up: "update_up M c = update_up (M(i := max (M (LEFT_LEAF i)) (M (RIGHT_LEAF i)))) i" for M
        by (subst update_up.simps) (simp add: c_def Let_def)
      have big: "2 ^ j \<le> L c"
        using lr Suc.prems(1,2) full_root[of L _ k] power_increasing[OF j(1), of "2::nat"] by (auto simp: c_def)
      show ?thesis
      proof (cases "L (LEFT_LEAF i) \<ge> 2 ^ j")
        case True
        then have c: "c = LEFT_LEAF i" by (simp add: c_def)
        from Suc.IH[OF lr(1) True j(1)] obtain x q l' M where
          x: "descend L (2 ^ j) c (2 ^ k) = Some (x, 2 ^ j)" "x + 1 = (c + 1) * 2 ^ (k - j) + q" "takes j k q l l'"
            "update_up (L(x := 0)) x = update_up M c" "rep M c k l'" "\<forall>y. y \<notin> nodes c k \<longrightarrow> M y = L y" unfolding c by blast
        have sib: "rep M (RIGHT_LEAF i) k r" using rep_sibling(1)[of i k M L r] x(6) lr(2) c by simp
        define M' where "M' = M(i := max (M (LEFT_LEAF i)) (M (RIGHT_LEAF i)))"
        have "rep M' i (Suc k) (Split l' r)" "\<forall>y. y \<notin> nodes i (Suc k) \<longrightarrow> M' y = L y"
          using sib x(3,5,6) c by (auto simp: takes_def M'_def)
        moreover have "x + 1 = (i + 1) * 2 ^ (Suc k - j) + q" using x(2) by (simp add: j(3) c LEFT_LEAF_def algebra_simps)
        ultimately show ?thesis using x(1,4) d up[of M, folded M'_def] takes_half(1)[OF j(1) fr x(3)] by metis
      next
        case False
        then have c: "c = RIGHT_LEAF i" by (simp add: c_def)
        from Suc.IH[OF lr(2) big[unfolded c] j(1)] obtain x q r' M where
          x: "descend L (2 ^ j) c (2 ^ k) = Some (x, 2 ^ j)" "x + 1 = (c + 1) * 2 ^ (k - j) + q" "takes j k q r r'"
            "update_up (L(x := 0)) x = update_up M c" "rep M c k r'" "\<forall>y. y \<notin> nodes c k \<longrightarrow> M y = L y" unfolding c by blast
        have sib: "rep M (LEFT_LEAF i) k l" using rep_sibling(2)[of i k M L l] x(6) lr(1) c by simp
        define M' where "M' = M(i := max (M (LEFT_LEAF i)) (M (RIGHT_LEAF i)))"
        have "rep M' i (Suc k) (Split l r')" "\<forall>y. y \<notin> nodes i (Suc k) \<longrightarrow> M' y = L y"
          using sib x(3,5,6) c by (auto simp: takes_def M'_def)
        moreover have "x + 1 = (i + 1) * 2 ^ (Suc k - j) + (q + 2 ^ (k - j))" using x(2) by (simp add: j(3) c RIGHT_LEAF_def algebra_simps)
        ultimately show ?thesis using x(1,4) d up[of M, folded M'_def] takes_half(2)[OF j(1) fr x(3)] by metis
      qed
    qed
  qed
qed


text \<open>A node from which the search for the allocated block climbs on.\<close>

definition leaf :: "nat \<Rightarrow> nat \<Rightarrow> nat \<Rightarrow> nat" where
  "leaf i k off = (i + 1) * 2 ^ k - 1 + off"

definition climbs :: "(nat \<Rightarrow> nat) \<Rightarrow> nat \<Rightarrow> nat \<Rightarrow> nat \<Rightarrow> bool" where
  "climbs L i k off \<longleftrightarrow> search_up L (leaf i k off) 1 = search_up L i (2 ^ k)"

lemma leaf_simps: "leaf i 0 0 = i" "off < 2 ^ k \<Longrightarrow> leaf i (Suc k) off = leaf (LEFT_LEAF i) k off"
  "2 ^ k \<le> off \<Longrightarrow> leaf i (Suc k) off = leaf (RIGHT_LEAF i) k (off - 2 ^ k)"
  by (simp_all add: leaf_def LEFT_LEAF_def RIGHT_LEAF_def algebra_simps)

lemma climbs_step:
  assumes "climbs L c k off" "L c \<noteq> 0" "c = LEFT_LEAF i \<or> c = RIGHT_LEAF i" "leaf i (Suc k) off' = leaf c k off"
  shows "climbs L i (Suc k) off'"
proof -
  have "search_up L c (2 ^ k) = search_up L i (2 ^ k * 2)" using assms(2,3) by (subst search_up.simps) auto
  then show ?thesis using assms(1,4) by (simp add: climbs_def mult.commute)
qed

lemma full_climbs: "full L i k \<Longrightarrow> off < 2 ^ k \<Longrightarrow> climbs L i k off"
proof (induction k arbitrary: i off)
  case 0
  then show ?case by (simp add: climbs_def leaf_simps)
next
  case (Suc k)
  then show ?case
  proof (cases "off < 2 ^ k")
    case True
    then show ?thesis using Suc full_root[of L "LEFT_LEAF i" k]
      by (intro climbs_step[where c = "LEFT_LEAF i" and off = off]) (auto simp: leaf_simps)
  next
    case False
    then show ?thesis using Suc full_root[of L "RIGHT_LEAF i" k]
      by (intro climbs_step[where c = "RIGHT_LEAF i" and off = "off - 2 ^ k"]) (auto simp: leaf_simps)
  qed
qed

text \<open>\<open>gives\<close>: \<open>t'\<close> is \<open>t\<close> with an allocated block returned; \<open>release\<close>: what \<open>buddy_free\<close> does below node \<open>i\<close>.\<close>

definition gives :: "nat \<Rightarrow> nat \<Rightarrow> nat \<Rightarrow> btree \<Rightarrow> btree \<Rightarrow> bool" where
  "gives k a m t t' \<longleftrightarrow> (\<forall>b. frees k b t' = frees k b t \<union> block (b + a) m \<and> used k b t' = used k b t - {(b + a, m)})"

definition join :: "btree \<Rightarrow> btree \<Rightarrow> btree" where
  "join l r = (if l = Free \<and> r = Free then Free else Split l r)"

lemma join_blocks [simp]: "frees (Suc k) b (join l r) = frees k b l \<union> frees k (b + 2 ^ k) r"
  "used (Suc k) b (join l r) = used k b l \<union> used k (b + 2 ^ k) r"
  by (auto simp: join_def)

lemma join_rep:
  assumes "rep M (LEFT_LEAF i) k l" "rep M (RIGHT_LEAF i) k r"
  shows "rep (M(i := (if M (LEFT_LEAF i) + M (RIGHT_LEAF i) = 2 ^ Suc k then 2 ^ Suc k
      else max (M (LEFT_LEAF i)) (M (RIGHT_LEAF i))))) i (Suc k) (join l r)"
  using assms rep_root[OF assms(1)] rep_root[OF assms(2)] by (auto simp: join_def)

lemma used_shift: "(p, m) \<in> used k (b + c) t \<longleftrightarrow> c \<le> p \<and> (p - c, m) \<in> used k b t"
proof (induction k b t arbitrary: p rule: used.induct)
  case (4 k b l r)
  have "b + c + 2 ^ k = b + 2 ^ k + c" by simp
  with 4 show ?case by (simp only: used.simps) auto
qed auto

lemma gives_half:
  shows "gives k a m l l' \<Longrightarrow> (a, m) \<in> used k 0 l \<Longrightarrow> gives (Suc k) a m (Split l r) (join l' r)"
    and "gives k a m r r' \<Longrightarrow> (a, m) \<in> used k 0 r \<Longrightarrow> gives (Suc k) (a + 2 ^ k) m (Split l r) (join l r')"
proof -
  show "gives (Suc k) a m (Split l r) (join l' r)" if "gives k a m l l'" "(a, m) \<in> used k 0 l"
  proof -
    have "(b + a, m) \<notin> used k (b + 2 ^ k) r" for b
      using used_range[of "b + a" m k "b + 2 ^ k" r] used_range[OF that(2)] by fastforce
    then show ?thesis using that(1) by (auto simp: gives_def)
  qed
  show "gives (Suc k) (a + 2 ^ k) m (Split l r) (join l r')" if "gives k a m r r'" "(a, m) \<in> used k 0 r"
  proof -
    have "(b + (a + 2 ^ k), m) \<notin> used k b l" for b
      using used_range[of "b + (a + 2 ^ k)" m k b l] used_range[OF that(2)] by fastforce
    moreover have e: "b + (a + 2 ^ k) = b + 2 ^ k + a" for b by simp
    ultimately show ?thesis using that(1) unfolding gives_def e by auto
  qed
qed

lemma free_tree:
  assumes "rep L i k t" "(a, m) \<in> used k 0 t"
  shows "\<exists>x n t' L'. search_up L (leaf i k a) 1 = Some (x, n) \<and> merge_up (L(x := n)) x n = merge_up L' i (2 ^ k)
    \<and> rep L' i k t' \<and> gives k a m t t' \<and> (\<forall>y. y \<notin> nodes i k \<longrightarrow> L' y = L y)"
  using assms
proof (induction L i k t arbitrary: a rule: rep.induct)
  case (2 L i)
  then show ?case by - (rule exI[of _ i], rule exI[of _ 1], rule exI[of _ Free], rule exI[of _ "L(i := 1)"],
      simp add: leaf_simps search_up.simps gives_def)
next
  case (3 L i k)
  then have a: "a = 0" "m = 2 ^ Suc k" by auto
  define M where "M = L(i := 2 ^ Suc k)"
  have f: "full L (LEFT_LEAF i) k" "full L (RIGHT_LEAF i) k" "L i = 0" using 3 by auto
  have "climbs L i (Suc k) 0"
    using full_climbs[OF f(1), of 0] full_root[OF f(1)] by (intro climbs_step[where c = "LEFT_LEAF i" and off = 0]) (auto simp: leaf_simps)
  then have "search_up L (leaf i (Suc k) a) 1 = Some (i, 2 ^ Suc k)" using f(3) a by (simp add: climbs_def search_up.simps)
  moreover have "rep M i (Suc k) Free" "\<forall>y. y \<notin> nodes i (Suc k) \<longrightarrow> M y = L y"
    using f unfolding M_def by (simp_all only: rep.simps full.simps rep_upd_root fun_upd_same) auto
  moreover have "gives (Suc k) a m Used Free" using a by (simp add: gives_def)
  ultimately show ?case unfolding M_def[symmetric] using M_def by metis
next
  case (5 L i k l r)
  have up: "merge_up M c (2 ^ k) = merge_up (M(i := (if M (LEFT_LEAF i) + M (RIGHT_LEAF i) = 2 ^ Suc k then 2 ^ Suc k
      else max (M (LEFT_LEAF i)) (M (RIGHT_LEAF i))))) i (2 ^ Suc k)" if "c = LEFT_LEAF i \<or> c = RIGHT_LEAF i" for M c
    using that by (subst merge_up.simps) (auto simp: Let_def mult.commute)
  have lr: "rep L (LEFT_LEAF i) k l" "rep L (RIGHT_LEAF i) k r" using 5 by auto
  show ?case
  proof (cases "(a, m) \<in> used k 0 l")
    case True
    then have "a < 2 ^ k" using used_range[OF True] by auto
    then have lf: "leaf i (Suc k) a = leaf (LEFT_LEAF i) k a" by (rule leaf_simps)
    from 5(1)[OF lr(1) True] obtain x n l' M where
      x: "search_up L (leaf (LEFT_LEAF i) k a) 1 = Some (x, n)" "merge_up (L(x := n)) x n = merge_up M (LEFT_LEAF i) (2 ^ k)"
        "rep M (LEFT_LEAF i) k l'" "gives k a m l l'" "\<forall>y. y \<notin> nodes (LEFT_LEAF i) k \<longrightarrow> M y = L y" by blast
    define M' where "M' = M(i := (if M (LEFT_LEAF i) + M (RIGHT_LEAF i) = 2 ^ Suc k then 2 ^ Suc k
      else max (M (LEFT_LEAF i)) (M (RIGHT_LEAF i))))"
    have "rep M (RIGHT_LEAF i) k r" using rep_sibling(1)[of i k M L r] x(5) lr(2) by simp
    then have "rep M' i (Suc k) (join l' r)" unfolding M'_def using x(3) by (intro join_rep)
    moreover have "\<forall>y. y \<notin> nodes i (Suc k) \<longrightarrow> M' y = L y" using x(5) by (auto simp: M'_def)
    ultimately show ?thesis using x(1,2) up[of "LEFT_LEAF i" M, folded M'_def] gives_half(1)[OF x(4) True] lf by metis
  next
    case False
    then have a: "(a, m) \<in> used k (0 + 2 ^ k) r" using 5 by simp
    then have r: "2 ^ k \<le> a" "(a - 2 ^ k, m) \<in> used k 0 r" unfolding used_shift by auto
    have lf: "leaf i (Suc k) a = leaf (RIGHT_LEAF i) k (a - 2 ^ k)" using r(1) by (rule leaf_simps)
    from 5(2)[OF lr(2) r(2)] obtain x n r' M where
      x: "search_up L (leaf (RIGHT_LEAF i) k (a - 2 ^ k)) 1 = Some (x, n)" "merge_up (L(x := n)) x n = merge_up M (RIGHT_LEAF i) (2 ^ k)"
        "rep M (RIGHT_LEAF i) k r'" "gives k (a - 2 ^ k) m r r'" "\<forall>y. y \<notin> nodes (RIGHT_LEAF i) k \<longrightarrow> M y = L y" by blast
    define M' where "M' = M(i := (if M (LEFT_LEAF i) + M (RIGHT_LEAF i) = 2 ^ Suc k then 2 ^ Suc k
      else max (M (LEFT_LEAF i)) (M (RIGHT_LEAF i))))"
    have "rep M (LEFT_LEAF i) k l" using rep_sibling(2)[of i k M L l] x(5) lr(1) by simp
    then have "rep M' i (Suc k) (join l r')" unfolding M'_def using x(3) by (intro join_rep)
    moreover have "\<forall>y. y \<notin> nodes i (Suc k) \<longrightarrow> M' y = L y" using x(5) by (auto simp: M'_def)
    moreover have "gives (Suc k) a m (Split l r) (join l r')" using gives_half(2)[OF x(4) r(2)] r(1) by simp
    ultimately show ?thesis using x(1,2) up[of "RIGHT_LEAF i" M, folded M'_def] lf by metis
  qed
qed auto

text \<open>Completeness: an aligned free block is never overlooked, since free buddies are always joined.\<close>

lemma halves_full:
  fixes b n :: nat
  assumes "A \<union> B = {b..<b + (n + n)}" "A \<subseteq> {b..<b + n}" "B \<subseteq> {b + n..<b + n + n}"
  shows "A = {b..<b + n} \<and> B = {b + n..<b + n + n}"
proof -
  have "x \<in> A" if "x \<in> {b..<b + n}" for x
  proof -
    have "x \<in> A \<union> B" "x \<notin> B" using that assms by auto
    then show ?thesis by blast
  qed
  moreover have "x \<in> B" if "x \<in> {b + n..<b + n + n}" for x
  proof -
    have "x \<in> A \<union> B" "x \<notin> A" using that assms by auto
    then show ?thesis by blast
  qed
  ultimately show ?thesis using assms by blast
qed

lemma frees_full: "rep L i k t \<Longrightarrow> frees k b t = block b (2 ^ k) \<Longrightarrow> t = Free"
proof (induction L i k t arbitrary: b rule: rep.induct)
  case (5 L i k l r)
  have "frees k b l = block b (2 ^ k)" "frees k (b + 2 ^ k) r = block (b + 2 ^ k) (2 ^ k)"
    using halves_full[OF _ frees_range[of k b l] frees_range[of k "b + 2 ^ k" r]] 5(4) by (simp_all add: mult_2)
  then show ?case using 5(1)[of b] 5(2)[of "b + 2 ^ k"] 5(3) by simp
qed auto

lemma longest_complete:
  assumes "rep L i k t" "block (b + q * 2 ^ j) (2 ^ j) \<subseteq> frees k b t" "j \<le> k" "q < 2 ^ (k - j)"
  shows "2 ^ j \<le> L i"
  using assms
proof (induction L i k t arbitrary: b q rule: rep.induct)
  case (1 L i k)
  then show ?case using full_root[of L i k] power_increasing[of j k "2::nat"] by simp
next
  case (5 L i k l r)
  show ?case
  proof (cases "j = Suc k")
    case True
    then have "block b (2 ^ Suc k) \<subseteq> frees (Suc k) b (Split l r)" using 5(4,6) by simp
    then have "frees (Suc k) b (Split l r) = block b (2 ^ Suc k)" using frees_range by blast
    from frees_full[OF 5(3) this] show ?thesis by simp
  next
    case False
    then have j: "j \<le> k" using 5(5) by simp
    then have p: "(2::nat) ^ (k - j) * 2 ^ j = 2 ^ k" "Suc k - j = Suc (k - j)" by (simp_all add: power_add[symmetric])
    show ?thesis
    proof (cases "q < 2 ^ (k - j)")
      case True
      then have "(q + 1) * 2 ^ j \<le> 2 ^ (k - j) * 2 ^ j" by (intro mult_le_mono1) simp
      then have "block (b + q * 2 ^ j) (2 ^ j) \<inter> frees k (b + 2 ^ k) r = {}"
        using frees_range[of k "b + 2 ^ k" r] p(1) by fastforce
      then have "block (b + q * 2 ^ j) (2 ^ j) \<subseteq> frees k b l" using 5(4) by auto
      then show ?thesis using 5(1)[OF _ _ j True] 5(3) by (simp add: le_max_iff_disj)
    next
      case False
      define q' where "q' = q - 2 ^ (k - j)"
      have q': "q = q' + 2 ^ (k - j)" "q' < 2 ^ (k - j)" using False 5(6) p(2) by (auto simp: q'_def)
      have e: "b + q * 2 ^ j = b + 2 ^ k + q' * 2 ^ j" unfolding q'(1) add_mult_distrib p(1) by simp
      have "block (b + q * 2 ^ j) (2 ^ j) \<inter> frees k b l = {}" using frees_range[of k b l] unfolding e by fastforce
      then have "block (b + 2 ^ k + q' * 2 ^ j) (2 ^ j) \<subseteq> frees k (b + 2 ^ k) r" using 5(4) unfolding e by auto
      then show ?thesis using 5(2)[OF _ _ j q'(2)] 5(3) by (simp add: le_max_iff_disj)
    qed
  qed
qed auto

lemma used_free_apart: "(p, m) \<in> used k b t \<Longrightarrow> block p m \<inter> frees k b t = {}"
proof (induction k b t rule: used.induct)
  case (4 k b l r)
  consider "(p, m) \<in> used k b l" | "(p, m) \<in> used k (b + 2 ^ k) r" using 4 by auto
  then show ?case
  proof cases
    case 1
    then have "block p m \<inter> frees k (b + 2 ^ k) r = {}"
      using used_range[OF 1] frees_range[of k "b + 2 ^ k" r] by fastforce
    with 4 1 show ?thesis by auto
  next
    case 2
    then have "block p m \<inter> frees k b l = {}" using used_range[OF 2] frees_range[of k b l] by fastforce
    with 4 2 show ?thesis by auto
  qed
qed auto

lemma used_aligned: "(p, m) \<in> used k b t \<Longrightarrow> m dvd p - b \<and> (\<exists>j \<le> k. m = 2 ^ j)"
proof (induction k b t rule: used.induct)
  case (4 k b l r)
  consider "(p, m) \<in> used k b l" | "(p, m) \<in> used k (b + 2 ^ k) r" using 4 by auto
  then show ?case
  proof cases
    case 1
    with 4 show ?thesis by (auto intro: le_SucI)
  next
    case 2
    with 4 obtain j where j: "m dvd p - (b + 2 ^ k)" "j \<le> k" "m = 2 ^ j" by auto
    have "p - b = p - (b + 2 ^ k) + 2 ^ k" using used_range[OF 2] by simp
    then show ?thesis using j by (auto simp: le_imp_power_dvd intro: le_SucI)
  qed
qed auto

lemma used_empty: "rep L i k t \<Longrightarrow> used k b t = {} \<Longrightarrow> t = Free"
  by (induction L i k t arbitrary: b rule: rep.induct) auto


section \<open>Initialisation\<close>

lemma full_levels:
  assumes "\<And>x d. 2 ^ d \<le> x + 1 \<Longrightarrow> x + 1 < 2 ^ (d + 1) \<Longrightarrow> d \<le> k \<Longrightarrow> L x = 2 ^ (k - d)"
  shows "2 ^ d \<le> i + 1 \<Longrightarrow> i + 1 < 2 ^ (d + 1) \<Longrightarrow> d + h = k \<Longrightarrow> full L i h"
proof (induction h arbitrary: d i)
  case 0
  then show ?case using assms[of d i] by simp
next
  case (Suc h)
  have "L i = 2 ^ Suc h" using assms[of d i] Suc.prems by auto
  moreover have "full L (LEFT_LEAF i) h" "full L (RIGHT_LEAF i) h"
    using Suc.prems by (auto intro!: Suc.IH[of "Suc d"] simp: LEFT_LEAF_def RIGHT_LEAF_def)
  ultimately show ?case by simp
qed

lemma init_tree_ok:
  assumes "2 ^ d \<le> i + 1" "i + 1 < 2 ^ (d + 1)" "d \<le> Suc k" "i + 1 \<le> 2 ^ Suc k"
    "node_size = (if i + 1 = 2 ^ d then 2 ^ (Suc k - d) else 2 ^ (k - d))"
    "\<And>x e. x < i \<Longrightarrow> 2 ^ e \<le> x + 1 \<Longrightarrow> x + 1 < 2 ^ (e + 1) \<Longrightarrow> L x = 2 ^ (k - e)"
    "2 ^ e \<le> x + 1" "x + 1 < 2 ^ (e + 1)" "e \<le> k"
  shows "init_tree_loop (2 ^ k) i node_size L x = 2 ^ (k - e)"
  using assms(1-6)
proof (induction "2 ^ Suc k - 1 - i" arbitrary: i d node_size L)
  case 0
  then have i: "i = 2 ^ Suc k - 1" by simp
  have "(2::nat) ^ (e + 1) \<le> 2 ^ Suc k" using assms(9) by (intro power_increasing) auto
  then have "x + 1 < 2 ^ Suc k" using assms(8) by linarith
  then show ?case using 0(7)[OF _ assms(7,8)] i by (subst init_tree_loop.simps) simp
next
  case (Suc w)
  then have i: "i < 2 * 2 ^ k - 1" by simp
  have d: "d \<le> k"
  proof (rule ccontr)
    assume "\<not> d \<le> k"
    then have "(2::nat) ^ Suc k \<le> 2 ^ d" by (intro power_increasing) auto
    with i Suc.prems(1) show False by simp
  qed
  have pw: "IS_POWER_OF_2 (i + 1) \<longleftrightarrow> i + 1 = 2 ^ d"
  proof
    assume "IS_POWER_OF_2 (i + 1)"
    then obtain j where j: "i + 1 = 2 ^ j" using power_of_2_iff[of "i + 1"] by auto
    then have "d \<le> j" "j < d + 1" using Suc.prems(1,2) by (simp_all only: power_increasing_iff power_strict_increasing_iff)
    then show "i + 1 = 2 ^ d" using j by (simp add: less_Suc_eq_le)
  qed (use power_of_2_iff in auto)
  let ?n = "2 ^ (k - d) :: nat"
  have n: "(if IS_POWER_OF_2 (i + 1) then node_size div 2 else node_size) = ?n"
    using Suc.prems(5) d unfolding pw by (simp add: Suc_diff_le)
  have step: "init_tree_loop (2 ^ k) i node_size L = init_tree_loop (2 ^ k) (i + 1) ?n (L(i := ?n))"
    using i n by (subst init_tree_loop.simps) (simp add: Let_def)
  have L': "(L(i := ?n)) y = 2 ^ (k - e')" if "y < i + 1" "2 ^ e' \<le> y + 1" "y + 1 < 2 ^ (e' + 1)" for y e'
  proof (cases "y = i")
    case True
    then have "e' = d" using that Suc.prems(1,2)
      by (metis Suc_eq_plus1 le_antisym less_Suc_eq_le one_less_numeral_iff order_le_less_trans power_strict_increasing_iff semiring_norm(76))
    then show ?thesis using True by simp
  qed (use that Suc.prems(6) in auto)
  show ?case
  proof (cases "i + 2 = 2 ^ Suc d")
    case True
    then show ?thesis unfolding step using d i
      by (intro Suc.hyps(1)[of "i + 1" "Suc d"] L') (use Suc.hyps(2) in auto)
  next
    case False
    then show ?thesis unfolding step using Suc.prems(1,2) d i
      by (intro Suc.hyps(1)[of "i + 1" d] L') (use Suc.hyps(2) in auto)
  qed
qed

lemma buddy_init_tree_full: "full (longest (buddy_init_tree (2 ^ k) s)) 0 k"
proof (rule full_levels[where d = 0 and k = k])
  fix x d :: nat
  assume "2 ^ d \<le> x + 1" "x + 1 < 2 ^ (d + 1)" "d \<le> k"
  then show "longest (buddy_init_tree (2 ^ k) s) x = 2 ^ (k - d)"
    by (simp add: buddy_init_tree_def) (rule init_tree_ok[where d = 0 and e = d], auto)
qed auto

lemma root_size_pow:
  assumes "sz = 2 ^ d" "sz \<le> n" "d \<le> 14"
  shows "\<exists>k \<le> 14. root_size n sz = 2 ^ k \<and> 2 ^ k \<le> n \<and> (k < 14 \<longrightarrow> n < 2 ^ Suc k)"
  using assms
proof (induction n sz arbitrary: d rule: root_size.induct)
  case (1 n sz)
  show ?case
  proof (cases "sz * 2 \<le> n \<and> sz * 2 \<le> BUDDY_MAX_PAGES")
    case True
    have "sz * 2 = 2 ^ Suc d" "Suc d \<le> 14"
    proof -
      show "sz * 2 = 2 ^ Suc d" using 1(2) by simp
      then have "(2::nat) ^ Suc d \<le> 2 ^ 14" using True by simp
      then show "Suc d \<le> 14" by (simp only: power_increasing_iff)
    qed
    then show ?thesis using 1(1)[of "Suc d"] 1(2) True by (subst root_size.simps) auto
  next
    case False
    have "n < 2 ^ Suc d" if "d < 14"
    proof -
      have "(2::nat) ^ Suc d \<le> 2 ^ 14" using that by (intro power_increasing) auto
      then show ?thesis using False 1(2) by auto
    qed
    then show ?thesis using False 1(2-4) by (subst root_size.simps) auto
  qed
qed


section \<open>The manager\<close>

text \<open>\<open>F\<close> are the free pages and \<open>U\<close> the allocated blocks, each with its first page and its size.\<close>

definition buddy_rel :: "buddy_manager \<Rightarrow> nat set \<Rightarrow> (nat \<times> nat) set \<Rightarrow> bool" where
  "buddy_rel s F U \<longleftrightarrow> (\<exists>k t. k \<le> 14 \<and> bsize s = 2 ^ k \<and> rep (longest s) 0 k t \<and> F = frees k (bpages s) t \<and> U = used k (bpages s) t)
     \<and> total_free s = card F \<and> bbase s = buddy_page2pa (bpages s) \<and> bpages s + bsize s + dram_base \<le> bnpage s
     \<and> (\<forall>(p, m) \<in> U. property (page_tab s p) = m)"

lemma buddy_relE:
  assumes b: "buddy_rel s F U"
  obtains k t where "k \<le> 14" "bsize s = 2 ^ k" "rep (longest s) 0 k t" "F = frees k (bpages s) t" "U = used k (bpages s) t"
    "total_free s = card F" "bbase s = buddy_page2pa (bpages s)" "bpages s + 2 ^ k + dram_base \<le> bnpage s"
    "\<forall>p m. (p, m) \<in> U \<longrightarrow> property (page_tab s p) = m"
proof -
  from b obtain k t where "k \<le> 14" "bsize s = 2 ^ k" "rep (longest s) 0 k t" "F = frees k (bpages s) t" "U = used k (bpages s) t"
    unfolding buddy_rel_def by blast
  then show thesis using b by (intro that[of k t]) (auto simp: buddy_rel_def)
qed

lemma buddy_pages: "bbase s = buddy_page2pa b \<Longrightarrow> buddy_pa2page (bbase s + off * 4096) s
    = (if b + off + dram_base < bnpage s then Some (b + off) else None)"
  "(buddy_page2pa (b + off) - buddy_page2pa b) div 4096 = off" "buddy_page2pa b \<le> buddy_page2pa (b + off)"
proof -
  have e: "buddy_page2pa b + off * 4096 = (b + off + dram_base) * 4096" for b by (simp add: buddy_page2pa_def)
  show "buddy_pa2page (bbase s + off * 4096) s = (if b + off + dram_base < bnpage s then Some (b + off) else None)"
    if "bbase s = buddy_page2pa b" unfolding that e by (simp add: buddy_pa2page_def)
qed (simp_all add: buddy_page2pa_def)

lemma pow_IS: "IS_POWER_OF_2 (2 ^ j)" using power_of_2_iff[of "2 ^ j"] by auto

lemma block_card: "block p m \<subseteq> F \<Longrightarrow> finite F \<Longrightarrow> card (F - block p m) = card F - m"
  by (simp add: card_Diff_subset)

lemma finite_frees: "finite (frees k b t)" by (rule finite_subset[OF frees_range]) simp

lemma leaf_root: "leaf 0 k off = off + 2 ^ k - 1" by (simp add: leaf_def)

lemma buddy_alloc_ok:
  assumes r: "rep (longest s) 0 k t" "bsize s = 2 ^ k" "j \<le> k" "2 ^ j \<le> longest s 0" and n: "n = 2 ^ j \<or> n = 0 \<and> j = 0"
  shows "\<exists>q t' L'. buddy_alloc n s = Some (int (q * 2 ^ j), s\<lparr>longest := L'\<rparr>) \<and> takes j k q t t' \<and> rep L' 0 k t'"
proof -
  from alloc_tree[OF r(1,4,3)] obtain x q t' L' where
    x: "descend (longest s) (2 ^ j) 0 (2 ^ k) = Some (x, 2 ^ j)" "x + 1 = 2 ^ (k - j) + q" "takes j k q t t'"
      "update_up ((longest s)(x := 0)) x = update_up L' 0" "rep L' 0 k t'" by auto
  have up: "update_up L' 0 = L'" by (simp add: update_up.simps)
  have p: "2 ^ (k - j) * 2 ^ j = (2::nat) ^ k" using r(3) by (simp add: power_add[symmetric])
  have "(x + 1) * 2 ^ j = 2 ^ k + q * 2 ^ j" unfolding x(2) add_mult_distrib p ..
  then have "int ((x + 1) * 2 ^ j) - int (bsize s) = int (q * 2 ^ j)" unfolding r(2) by simp
  moreover have "buddy_alloc n s = Some (int ((x + 1) * 2 ^ j) - int (bsize s), s\<lparr>longest := L'\<rparr>)"
    using n x(1,4) up r(2,4) pow_IS[of j] by (auto simp: buddy_alloc_def Let_def)
  ultimately show ?thesis using x(3,5) by auto
qed

lemma buddy_alloc_rel:
  assumes b: "buddy_rel s F U" and n: "n \<noteq> 0" "unat (fixsize (word_of_nat n)) = 2 ^ j"
  shows "(\<exists>p s'. buddy_alloc_pages n s = Some (Some p, s') \<and> block p (2 ^ j) \<subseteq> F \<and> 2 ^ j dvd p - bpages s
      \<and> buddy_rel s' (F - block p (2 ^ j)) (insert (p, 2 ^ j) U))
    \<or> buddy_alloc_pages n s = Some (None, s) \<and> (\<forall>q. \<not> block (bpages s + q * 2 ^ j) (2 ^ j) \<subseteq> F)"
proof -
  from b obtain k t where k: "k \<le> 14" "bsize s = 2 ^ k" "rep (longest s) 0 k t" "F = frees k (bpages s) t" "U = used k (bpages s) t"
    and r: "total_free s = card F" "bbase s = buddy_page2pa (bpages s)" "bpages s + 2 ^ k + dram_base \<le> bnpage s"
      "\<forall>p m. (p, m) \<in> U \<longrightarrow> property (page_tab s p) = m" by (rule buddy_relE)
  show ?thesis
  proof (cases "j \<le> k \<and> 2 ^ j \<le> longest s 0")
    case True
    then have jk: "j \<le> k" "(2::nat) ^ j \<le> 2 ^ k" by (auto intro: power_increasing)
    from buddy_alloc_ok[OF k(3,2), of j "2 ^ j"] True obtain q t' L' where
      a: "buddy_alloc (2 ^ j) s = Some (int (q * 2 ^ j), s\<lparr>longest := L'\<rparr>)" "takes j k q t t'" "rep L' 0 k t'" by auto
    let ?p = "bpages s + q * 2 ^ j"
    let ?s = "s\<lparr>longest := L', page_tab := for_tab ?p (2 ^ j) (\<lambda>p. p\<lparr>ref := 1, property := 2 ^ j\<rparr>) (page_tab s),
      total_free := total_free s - 2 ^ j\<rparr>"
    have f: "block ?p (2 ^ j) \<subseteq> F" "frees k (bpages s) t' = F - block ?p (2 ^ j)" "used k (bpages s) t' = insert (?p, 2 ^ j) U"
      using a(2) k(4,5) by (auto simp: takes_def)
    have in_range: "?p + 2 ^ j \<le> bpages s + 2 ^ k"
      using subset_trans[OF f(1)[unfolded k(4)] frees_range] by simp
    have "buddy_alloc_pages n s = Some (Some ?p, ?s)"
    proof -
      have "0 < (2::nat) ^ j" by simp
      then have "bpages s + q * 2 ^ j + dram_base < bnpage s" using in_range r(3) by linarith
      then have "buddy_pa2page (bbase s + q * 2 ^ j * 4096) (s\<lparr>longest := L'\<rparr>) = Some ?p"
        using buddy_pages(1)[of "s\<lparr>longest := L'\<rparr>" "bpages s" "q * 2 ^ j"] r(2) by simp
      then show ?thesis using n k(2) jk a(1) in_range by (simp add: buddy_alloc_pages_def Let_def del: of_nat_mult of_nat_power)
    qed
    moreover have "buddy_rel ?s (F - block ?p (2 ^ j)) (insert (?p, 2 ^ j) U)"
      unfolding buddy_rel_def
    proof (intro conjI)
      show "\<exists>k t. k \<le> 14 \<and> bsize ?s = 2 ^ k \<and> rep (longest ?s) 0 k t \<and> F - block ?p (2 ^ j) = frees k (bpages ?s) t
        \<and> insert (?p, 2 ^ j) U = used k (bpages ?s) t"
        using k(1,2) a(3) f by (intro exI[of _ k] exI[of _ t']) simp
      show "total_free ?s = card (F - block ?p (2 ^ j))" using r(1) block_card[OF f(1)] finite_frees k(4) by simp
      show "\<forall>(p, m) \<in> insert (?p, 2 ^ j) U. property (page_tab ?s p) = m"
      proof (clarify)
        fix p m
        assume p: "(p, m) \<in> insert (?p, 2 ^ j) U"
        show "property (page_tab ?s p) = m"
        proof (cases "(p, m) \<in> U")
          case True
          then have "p \<notin> F" using used_free_apart[of p m k "bpages s" t] used_range[of p m k "bpages s" t] k(4,5) by fastforce
          then have "p \<notin> block ?p (2 ^ j)" using f(1) by blast
          then show ?thesis using r(4)[rule_format, OF True] by (auto simp: for_tab_def)
        qed (use p in \<open>simp add: for_tab_def\<close>)
      qed
    qed (use r k(2) in simp_all)
    moreover have "2 ^ j dvd ?p - bpages s" by simp
    ultimately show ?thesis using f(1) by blast
  next
    case False
    have "\<not> block (bpages s + q * 2 ^ j) (2 ^ j) \<subseteq> F" for q
    proof
      assume q: "block (bpages s + q * 2 ^ j) (2 ^ j) \<subseteq> F"
      then have le: "(q + 1) * 2 ^ j \<le> 2 ^ k" using subset_trans[OF q[unfolded k(4)] frees_range] by simp
      then have "(2::nat) ^ j \<le> 2 ^ k" by (simp only: add_mult_distrib)
      then have jk: "j \<le> k" by simp
      have "(q + 1) * 2 ^ j \<le> 2 ^ (k - j) * 2 ^ j" using le jk by (simp add: power_add[symmetric])
      then have "q + 1 \<le> 2 ^ (k - j)" by (rule mult_right_le_imp_le) simp
      then have "q < 2 ^ (k - j)" by simp
      from longest_complete[OF k(3) _ jk this] q k(4) False jk show False by auto
    qed
    moreover have "buddy_alloc_pages n s = Some (None, s)"
    proof (cases "j \<le> k")
      case True
      then show ?thesis using False n k(2) pow_IS[of j] by (auto simp: buddy_alloc_pages_def buddy_alloc_def Let_def)
    next
      case False
      then have "(2::nat) ^ k < 2 ^ j" by simp
      then show ?thesis using n k(2) by (simp add: buddy_alloc_pages_def)
    qed
    ultimately show ?thesis by blast
  qed
qed

lemma buddy_free_rel:
  assumes b: "buddy_rel s F U" and p: "(p, m) \<in> U" and n: "0 < n"
  shows "\<exists>s'. buddy_free_pages p n s = Some s' \<and> buddy_rel s' (F \<union> block p m) (U - {(p, m)}) \<and> bpages s' = bpages s"
proof -
  from b obtain k t where k: "k \<le> 14" "bsize s = 2 ^ k" "rep (longest s) 0 k t" "F = frees k (bpages s) t" "U = used k (bpages s) t"
    and r: "total_free s = card F" "bbase s = buddy_page2pa (bpages s)" "bpages s + 2 ^ k + dram_base \<le> bnpage s"
      "\<forall>p m. (p, m) \<in> U \<longrightarrow> property (page_tab s p) = m" by (rule buddy_relE)
  have pm: "0 < m" "bpages s \<le> p" "p + m \<le> bpages s + 2 ^ k" "m dvd p - bpages s" "\<exists>j. m = 2 ^ j"
    using used_range[of p m k "bpages s" t] used_aligned[of p m k "bpages s" t] p k(5) by auto
  define a where "a = p - bpages s"
  have a: "p = bpages s + a" "a + m \<le> 2 ^ k" "(a, m) \<in> used k 0 t"
    using pm p k(5) used_shift[of p m k 0 "bpages s" t] by (auto simp: a_def)
  from free_tree[OF k(3) a(3)] obtain x c t' L' where
    x: "search_up (longest s) (leaf 0 k a) 1 = Some (x, c)" "merge_up ((longest s)(x := c)) x c = merge_up L' 0 (2 ^ k)"
      "rep L' 0 k t'" "gives k a m t t'" by blast
  have up: "merge_up L' 0 (2 ^ k) = L'" by (simp add: merge_up.simps)
  let ?tab = "for_tab p m (\<lambda>p. p\<lparr>ref := 0, property := 0\<rparr>) (page_tab s)"
  let ?s = "s\<lparr>page_tab := ?tab, longest := L', total_free := total_free s + m\<rparr>"
  have pw: "IS_POWER_OF_2 m" using pm(5) pow_IS by auto
  have "buddy_free_pages p n s = Some ?s"
    using n k(2) r(2) r(4)[rule_format, OF p] pm(1,2) pm(4)[folded a_def] pw a(2) x(1,2) up buddy_pages(2,3)[of "bpages s" a] leaf_root[of k a]
    by (simp add: buddy_free_pages_def buddy_free_def a(1) Let_def dvd_imp_mod_0)
  moreover have f: "frees k (bpages s) t' = F \<union> block p m" "used k (bpages s) t' = U - {(p, m)}"
    using x(4) k(4,5) a(1) by (auto simp: gives_def)
  moreover have "buddy_rel ?s (F \<union> block p m) (U - {(p, m)})"
    unfolding buddy_rel_def
  proof (intro conjI)
    show "\<exists>k t. k \<le> 14 \<and> bsize ?s = 2 ^ k \<and> rep (longest ?s) 0 k t \<and> F \<union> block p m = frees k (bpages ?s) t
      \<and> U - {(p, m)} = used k (bpages ?s) t" using k(1,2) x(3) f by (intro exI[of _ k] exI[of _ t']) simp
    have "block p m \<inter> F = {}" using used_free_apart p k(4,5) by simp
    then show "total_free ?s = card (F \<union> block p m)" using r(1) finite_frees k(4) by (simp add: card_Un_disjoint Int_commute)
    have "property (page_tab ?s p') = m'" if p': "(p', m') \<in> U" "(p', m') \<noteq> (p, m)" for p' m'
    proof -
      have u: "(p', m') \<in> used k (bpages s) t'" using f(2) p' by simp
      then have "p' \<notin> block p m" using used_free_apart[OF u] used_range[OF u] f(1) by fastforce
      then show ?thesis using r(4)[rule_format, OF p'(1)] by (auto simp: for_tab_def)
    qed
    then show "\<forall>(p', m') \<in> U - {(p, m)}. property (page_tab ?s p') = m'" by auto
  qed (use r k(2) in simp_all)
  ultimately show ?thesis by auto
qed


lemma buddy_init_rel:
  assumes n: "0 < n" and fits: "base + root_size n 1 + dram_base \<le> bnpage s"
  shows "\<exists>s'. buddy_init_memmap base n s = Some s' \<and> buddy_rel s' (block base (root_size n 1)) {}
    \<and> bpages s' = base \<and> bsize s' = root_size n 1"
proof -
  from root_size_pow[of 1 0 n] n obtain k where k: "k \<le> 14" "root_size n 1 = 2 ^ k" by auto
  define s' where "s' = the (buddy_init_memmap base n s)"
  have s': "buddy_init_memmap base n s = Some s'" using n by (simp add: s'_def buddy_init_memmap_def Let_def)
  have f: "bsize s' = 2 ^ k" "full (longest s') 0 k" "bpages s' = base" "total_free s' = 2 ^ k" "bbase s' = buddy_page2pa base"
    "bnpage s' = bnpage s"
    using n buddy_init_tree_full[of k] by (simp_all add: s'_def buddy_init_memmap_def Let_def k(2)[simplified]) (simp_all add: buddy_init_tree_def)
  have "buddy_rel s' (block base (2 ^ k)) {}" unfolding buddy_rel_def
  proof (intro conjI)
    show "\<exists>k' t. k' \<le> 14 \<and> bsize s' = 2 ^ k' \<and> rep (longest s') 0 k' t \<and> block base (2 ^ k) = frees k' (bpages s') t
      \<and> {} = used k' (bpages s') t" using f k(1) by (intro exI[of _ k] exI[of _ Free]) simp
  qed (use f fits k(2) in simp_all)
  then show ?thesis using s' f(1,3) k(2) by auto
qed


section \<open>Properties\<close>

interpretation buddy: block_manager buddy_rel buddy_alloc_pages buddy_free_pages buddy_nr_free_pages
  "\<lambda>n. unat (fixsize (word_of_nat n))" "\<lambda>n. n \<le> 2 ^ 31"
proof unfold_locales
  fix s F U p and n :: nat
  show "finite F \<and> buddy_nr_free_pages s = card F" if "buddy_rel s F U"
    using that by (rule buddy_relE) (simp add: buddy_nr_free_pages_def finite_frees)
  show "{p..<p + m} \<inter> F = {} \<and> 0 < m" if "buddy_rel s F U" "(p, m) \<in> U" for m
    using that(1) by (rule buddy_relE) (use that(2) used_free_apart used_range in blast)
  assume n: "0 < n" "n \<le> 2 ^ 31"
  from fixsize_pow[OF n] obtain j where j: "unat (fixsize (word_of_nat n)) = 2 ^ j" "n \<le> 2 ^ j" by blast
  show "n \<le> unat (fixsize (word_of_nat n))" using j by simp
  show "(\<exists>p s'. buddy_alloc_pages n s = Some (Some p, s') \<and> {p..<p + unat (fixsize (word_of_nat n))} \<subseteq> F
      \<and> buddy_rel s' (F - {p..<p + unat (fixsize (word_of_nat n))}) (insert (p, unat (fixsize (word_of_nat n))) U))
    \<or> buddy_alloc_pages n s = Some (None, s)" if "buddy_rel s F U"
    using buddy_alloc_rel[OF that _ j(1)] n(1) unfolding j(1) by blast
next
  show "\<exists>s'. buddy_free_pages p n s = Some s' \<and> buddy_rel s' (F \<union> {p..<p + m}) (U - {(p, m)})"
    if "buddy_rel s F U" "0 < n" "(p, m) \<in> U" for s F U n p m
    using buddy_free_rel[OF that(1,3,2)] by blast
qed

text \<open>C38. A request for \<open>n\<close> pages returns.  With \<open>2 ^ j\<close> the least power of two that is not below \<open>n\<close>, it
  yields a block of \<open>2 ^ j\<close> free pages that is aligned to its size, and exactly this block leaves
  the free pages; it fails, without any change, only if no aligned block of this size is free:
  freed buddies have always been joined again.\<close>

theorem buddy_alloc_aligned:
  assumes "buddy_rel s F U" "0 < n" "n \<le> 2 ^ 31"
  shows "\<exists>j. n \<le> 2 ^ j \<and> (\<forall>i. n \<le> 2 ^ i \<longrightarrow> j \<le> i)
    \<and> ((\<exists>p s'. buddy_alloc_pages n s = Some (Some p, s') \<and> {p..<p + 2 ^ j} \<subseteq> F \<and> 2 ^ j dvd p - bpages s
          \<and> buddy_rel s' (F - {p..<p + 2 ^ j}) (insert (p, 2 ^ j) U))
      \<or> buddy_alloc_pages n s = Some (None, s) \<and> (\<forall>q. \<not> {bpages s + q * 2 ^ j..<bpages s + q * 2 ^ j + 2 ^ j} \<subseteq> F))"
proof -
  from fixsize_pow[OF assms(2,3)] obtain j where
    j: "unat (fixsize (word_of_nat n)) = 2 ^ j" "n \<le> 2 ^ j" "\<forall>i. n \<le> 2 ^ i \<longrightarrow> j \<le> i" by blast
  from buddy_alloc_rel[OF assms(1) _ j(1)] assms(2) j(2,3) show ?thesis by blast
qed

text \<open>C10. Requests and releases in any order, on a fresh manager: every call returns, the blocks that
  are held never overlap and lie in the managed pages, and every page is free or in one of
  them; once everything has been released, one free block of all managed pages is left.\<close>

theorem buddy_serves:
  assumes "0 < n" "base + root_size n 1 + 0x80000 \<le> bnpage s" "list_all (fair_request (\<lambda>n. n \<le> 2 ^ 31)) rs"
  shows "\<exists>s0 held s'. buddy_init_memmap base n s = Some s0
    \<and> serve buddy_alloc_pages buddy_free_pages rs [] s0 = Some (held, s')
    \<and> disjoint_runs (granted (\<lambda>n. unat (fixsize (word_of_nat n))) held)
    \<and> runs (granted (\<lambda>n. unat (fixsize (word_of_nat n))) held) \<subseteq> {base..<base + root_size n 1}
    \<and> buddy_nr_free_pages s' = root_size n 1 - card (runs (granted (\<lambda>n. unat (fixsize (word_of_nat n))) held))
    \<and> (held = [] \<longrightarrow> longest s' 0 = bsize s')"
proof -
  let ?g = "\<lambda>n. unat (fixsize (word_of_nat n))"
  from buddy_init_rel[OF assms(1,2)] obtain s0 where
    s0: "buddy_init_memmap base n s = Some s0" "buddy_rel s0 {base..<base + root_size n 1} {}" by blast
  from buddy.serve_ok[OF s0(2) assms(3)] obtain held s' where
    h: "serve buddy_alloc_pages buddy_free_pages rs [] s0 = Some (held, s')"
      "buddy_rel s' ({base..<base + root_size n 1} - runs (granted ?g held)) (set (granted ?g held))"
      "disjoint_runs (granted ?g held)" "runs (granted ?g held) \<subseteq> {base..<base + root_size n 1}" by blast
  have "buddy_nr_free_pages s' = root_size n 1 - card (runs (granted ?g held))"
    using buddy.rel_nr[OF h(2)] h(4) by (simp add: card_Diff_subset finite_subset)
  moreover have "longest s' 0 = bsize s'" if "held = []"
    using h(2) unfolding that
  proof (rule buddy_relE)
    fix k t
    assume k: "bsize s' = 2 ^ k" "rep (longest s') 0 k t" "set (granted ?g []) = used k (bpages s') t"
    then have "t = Free" using used_empty[OF k(2), of "bpages s'"] by (simp add: granted_def)
    then show ?thesis using k(1) rep_root[OF k(2)] by simp
  qed
  ultimately show ?thesis using s0(1) h by blast
qed

text \<open>The rounding wraps around: a request for more than \<open>2 ^ 31\<close> pages, up to the range of a 32-bit
  number, is not refused.  As long as any page is free, the caller gets one page for it, and the
  count of free pages does not change.\<close>

theorem buddy_huge_request:
  assumes "buddy_rel s F U" "F \<noteq> {}" "2 ^ 31 < n" "n < 2 ^ 32"
  shows "\<exists>p s'. buddy_alloc_pages n s = Some (Some p, s') \<and> p \<in> F \<and> total_free s' = total_free s"
  using assms(1)
proof (rule buddy_relE)
  fix k t
  assume k: "bsize s = 2 ^ k" "rep (longest s) 0 k t" "F = frees k (bpages s) t" "bbase s = buddy_page2pa (bpages s)"
    "bpages s + 2 ^ k + dram_base \<le> bnpage s"
  have z: "unat (fixsize (word_of_nat n)) = 0" using fixsize_wraps[OF assms(3,4)] by simp
  obtain x where x: "x \<in> F" using assms(2) by blast
  then have xr: "bpages s \<le> x" "x - bpages s < 2 ^ k" using frees_range[of k "bpages s" t] k(3) by fastforce+
  have "{bpages s + (x - bpages s) * 2 ^ 0..<bpages s + (x - bpages s) * 2 ^ 0 + 2 ^ 0} \<subseteq> frees k (bpages s) t"
    using x xr(1) k(3) by simp
  from longest_complete[OF k(2) this] xr(2) have "2 ^ 0 \<le> longest s 0" by simp
  from buddy_alloc_ok[OF k(2,1) _ this, of 0] obtain q t' L' where
    a: "buddy_alloc 0 s = Some (int q, s\<lparr>longest := L'\<rparr>)" "takes 0 k q t t'" by auto
  from a(2) have q: "bpages s + q \<in> F" "q < 2 ^ k" using k(3) by (auto simp: takes_def)
  have "buddy_pa2page (bbase s + q * 4096) (s\<lparr>longest := L'\<rparr>) = Some (bpages s + q)"
    using buddy_pages(1)[of "s\<lparr>longest := L'\<rparr>" "bpages s" q] k(4,5) q(2) by simp
  then have "\<exists>s'. buddy_alloc_pages n s = Some (Some (bpages s + q), s') \<and> total_free s' = total_free s"
    using z a(1) k(1) q(2) assms(3) by (simp add: buddy_alloc_pages_def Let_def)
  then show ?thesis using q(1) by blast
qed

text \<open>A manager of eight pages.\<close>

definition buddy_boot :: buddy_manager where
  "buddy_boot = buddy_init \<lparr>bsize = 0, longest = (\<lambda>_. 0), bbase = 0, bpages = 0, total_free = 0,
     page_tab = (\<lambda>_. \<lparr>ref = 0, PG_reserved = True, PG_property = False, property = 0\<rparr>), bnpage = 0x88000\<rparr>"

definition buddy8 :: buddy_manager where
  "buddy8 = the (buddy_init_memmap 0x300 11 buddy_boot)"

lemma buddy8_rel: "buddy_rel buddy8 {0x300..<0x308} {}"
proof -
  have "root_size 11 1 = 8" by code_simp
  then show ?thesis using buddy_init_rel[of 11 "0x300" buddy_boot]
    by (auto simp: buddy8_def buddy_boot_def buddy_init_def)
qed

theorem buddy_alloc_aligned_witness:
  "\<exists>j. 3 \<le> (2::nat) ^ j \<and> (\<exists>r s'. buddy_alloc_pages 3 buddy8 = Some (r, s'))"
  using buddy_alloc_aligned[OF buddy8_rel, of 3] by (auto simp del: One_nat_def)

theorem buddy_serves_witness:
  "\<exists>s0 held s'. buddy_init_memmap 0x300 11 buddy_boot = Some s0
     \<and> serve buddy_alloc_pages buddy_free_pages [Get 3, Get 1, Put 1, Get 2] [] s0 = Some (held, s')
     \<and> disjoint_runs (granted (\<lambda>n. unat (fixsize (word_of_nat n))) held)"
proof -
  have "root_size 11 1 = 8" by code_simp
  then show ?thesis using buddy_serves[of 11 "0x300" buddy_boot "[Get 3, Get 1, Put 1, Get 2]"]
    by (simp add: buddy_boot_def buddy_init_def fair_request_def) blast
qed

theorem buddy_huge_request_witness:
  "\<exists>p s'. buddy_alloc_pages 0x80000001 buddy8 = Some (Some p, s') \<and> p \<in> {0x300..<0x308} \<and> total_free s' = total_free buddy8"
  using buddy_huge_request[OF buddy8_rel, of "0x80000001"] by simp

end
