(* ===== verification/Page_Table.thy ===== *)
theory Page_Table
  imports First_Fit "HOL-Library.Word"
begin

unbundle bit_operations_syntax

text \<open>
  Page tables, \<open>kern/mm/pmm.c\<close>: the three-level Sv39 table walk \<open>get_pte\<close>, mapping and
  unmapping of pages, and the copying and freeing of address ranges, on top of the first-fit
  page manager.  Physical memory is an array of 64-bit words per page frame; frames are named
  by their index in the \<open>pages\<close> array, so page number \<open>ppn\<close> is frame \<open>ppn - nbase\<close>.  A
  pointer to a page table is the frame that holds it.  Virtual addresses are natural numbers;
  all loops are guarded by \<open>USER_ACCESS\<close>, so they stay far below \<open>2 ^ 64\<close>.  TLB
  maintenance has no effect on this state.
\<close>

section \<open>Frames, entries and addresses\<close>

record pt_state =
  area :: free_area
  pmem :: "nat \<Rightarrow> nat \<Rightarrow> 64 word"
  npage :: nat

abbreviation (input) PGSIZE :: nat where "PGSIZE \<equiv> 4096"
abbreviation (input) PTSIZE :: nat where "PTSIZE \<equiv> 0x200000"
abbreviation (input) PDSIZE :: nat where "PDSIZE \<equiv> 0x40000000"
abbreviation (input) USERBASE :: nat where "USERBASE \<equiv> 0x200000"
abbreviation (input) USERTOP :: nat where "USERTOP \<equiv> 0x80000000"
abbreviation (input) nbase :: nat where "nbase \<equiv> 0x80000"
abbreviation (input) KERNBASE :: nat where "KERNBASE \<equiv> 0xFFFFFFFFC0200000"
abbreviation (input) va_pa_offset :: nat where "va_pa_offset \<equiv> 0xFFFFFFFF40000000"

definition PTE_V :: "64 word" where "PTE_V = 1"
definition PTE_R :: "64 word" where "PTE_R = 2"
definition PTE_W :: "64 word" where "PTE_W = 4"
definition PTE_X :: "64 word" where "PTE_X = 8"
definition PTE_U :: "64 word" where "PTE_U = 16"
definition PTE_USER :: "64 word" where "PTE_USER = PTE_R OR PTE_W OR PTE_X OR PTE_U OR PTE_V"

definition PDX1 :: "nat \<Rightarrow> nat" where "PDX1 la = la div 2 ^ 30 mod 512"
definition PDX0 :: "nat \<Rightarrow> nat" where "PDX0 la = la div 2 ^ 21 mod 512"
definition PTX :: "nat \<Rightarrow> nat" where "PTX la = la div 2 ^ 12 mod 512"

definition ROUNDDOWN :: "nat \<Rightarrow> nat \<Rightarrow> nat" where "ROUNDDOWN a n = a - a mod n"
definition ROUNDUP :: "nat \<Rightarrow> nat \<Rightarrow> nat" where "ROUNDUP a n = ROUNDDOWN (a + n - 1) n"

definition USER_ACCESS :: "nat \<Rightarrow> nat \<Rightarrow> bool" where
  "USER_ACCESS start end' \<longleftrightarrow> USERBASE \<le> start \<and> start < end' \<and> end' \<le> USERTOP"

definition valid :: "64 word \<Rightarrow> bool" where
  "valid pte \<longleftrightarrow> pte AND PTE_V \<noteq> 0"

definition pte_create :: "nat \<Rightarrow> 64 word \<Rightarrow> 64 word" where
  "pte_create ppn type = push_bit 10 (word_of_nat ppn) OR PTE_V OR type"

definition PTE_FLAGS :: "64 word" where "PTE_FLAGS = 0x3FF"

text \<open>The page number in an entry: \<open>PPN(PTE_ADDR(pte))\<close>.\<close>

definition pte_ppn :: "64 word \<Rightarrow> nat" where
  "pte_ppn pte = unat (drop_bit 12 (push_bit 2 (pte AND NOT PTE_FLAGS)))"

text \<open>\<open>pa2page\<close> (and \<open>KADDR\<close>, which makes the same check): panic beyond the memory.\<close>

definition pa2page :: "nat \<Rightarrow> pt_state \<Rightarrow> nat option" where
  "pa2page ppn s = (if ppn \<ge> npage s \<or> ppn < nbase then None else Some (ppn - nbase))"

definition page2ppn :: "nat \<Rightarrow> nat" where
  "page2ppn page = page + nbase"

text \<open>Kernel addresses of page frames.\<close>

definition page2kva :: "nat \<Rightarrow> pt_state \<Rightarrow> nat option" where
  "page2kva page p =
     (if page2ppn page \<ge> npage p then None else Some ((page2ppn page * PGSIZE + va_pa_offset) mod 2 ^ 64))"

definition kva2page :: "nat \<Rightarrow> pt_state \<Rightarrow> nat option" where
  "kva2page kva p = (if kva < KERNBASE then None else pa2page ((kva - va_pa_offset) div PGSIZE) p)"

lemma kva_page:
  assumes "0x200 \<le> g" "page2ppn g < npage p" "page2ppn g < 0xC0000"
  shows "\<exists>kva. page2kva g p = Some kva \<and> kva2page kva p = Some g \<and> kva = 0xFFFFFFFFC0000000 + PGSIZE * g"
proof -
  have g: "g < 0x40000" using assms(3) by (simp add: page2ppn_def)
  have "(page2ppn g * PGSIZE + va_pa_offset) = 0xFFFFFFFFC0000000 + PGSIZE * g" by (simp add: page2ppn_def)
  moreover have "0xFFFFFFFFC0000000 + PGSIZE * g < 2 ^ 64" using g by simp
  ultimately have k: "page2kva g p = Some (0xFFFFFFFFC0000000 + PGSIZE * g)" using assms(2) by (simp add: page2kva_def)
  have "(0xFFFFFFFFC0000000 + PGSIZE * g - va_pa_offset) = PGSIZE * page2ppn g" by (simp add: page2ppn_def)
  then have "kva2page (0xFFFFFFFFC0000000 + PGSIZE * g) p = Some g"
    using assms(1,2) by (simp add: kva2page_def pa2page_def page2ppn_def)
  with k show ?thesis by blast
qed

definition pte2page :: "64 word \<Rightarrow> pt_state \<Rightarrow> nat option" where
  "pte2page pte s = (if \<not> valid pte then None else pa2page (pte_ppn pte) s)"

definition pde2page :: "64 word \<Rightarrow> pt_state \<Rightarrow> nat option" where
  "pde2page pde s = pa2page (pte_ppn pde) s"

definition alloc_page :: "pt_state \<Rightarrow> (nat option \<times> pt_state) option" where
  "alloc_page s = do { (r, a) \<leftarrow> default_alloc_pages 1 (area s); Some (r, s\<lparr>area := a\<rparr>) }"

definition free_page :: "nat \<Rightarrow> pt_state \<Rightarrow> pt_state option" where
  "free_page p s = do { a \<leftarrow> default_free_pages p 1 (area s); Some (s\<lparr>area := a\<rparr>) }"

definition page_ref :: "nat \<Rightarrow> pt_state \<Rightarrow> int" where
  "page_ref p s = ref (pages (area s) p)"

definition set_page_ref :: "nat \<Rightarrow> int \<Rightarrow> pt_state \<Rightarrow> pt_state" where
  "set_page_ref p v s = s\<lparr>area := upd_page p (ref_update (\<lambda>_. v)) (area s)\<rparr>"

definition page_ref_inc :: "nat \<Rightarrow> pt_state \<Rightarrow> pt_state" where
  "page_ref_inc p s = set_page_ref p (page_ref p s + 1) s"

definition page_ref_dec :: "nat \<Rightarrow> pt_state \<Rightarrow> pt_state" where
  "page_ref_dec p s = set_page_ref p (page_ref p s - 1) s"

definition set_entry :: "nat \<times> nat \<Rightarrow> 64 word \<Rightarrow> pt_state \<Rightarrow> pt_state" where
  "set_entry loc w s = s\<lparr>pmem := (pmem s)(fst loc := (pmem s (fst loc))(snd loc := w))\<rparr>"

definition zero_page :: "nat \<Rightarrow> pt_state \<Rightarrow> pt_state" where
  "zero_page p s = s\<lparr>pmem := (pmem s)(p := (\<lambda>_. 0))\<rparr>"

section \<open>The table walk\<close>

text \<open>One level of \<open>get_pte\<close>: make sure that the entry at \<open>loc\<close> points to a table; the result
  is the frame of that table, or the null pointer.\<close>

definition get_table :: "nat \<times> nat \<Rightarrow> bool \<Rightarrow> pt_state \<Rightarrow> (nat option \<times> pt_state) option" where
  "get_table loc create s = do {
     (ok, s1) \<leftarrow>
       (if \<not> valid (pmem s (fst loc) (snd loc))
        then if \<not> create then Some (False, s)
             else do {
               (r, s1) \<leftarrow> alloc_page s;
               (case r of
                  None \<Rightarrow> Some (False, s1)
                | Some page \<Rightarrow>
                    let s2 = set_page_ref page 1 s1;
                        s3 = zero_page page s2
                    in Some (True, set_entry loc (pte_create (page2ppn page) (PTE_U OR PTE_V)) s3)) }
        else Some (True, s));
     if ok then do { t \<leftarrow> pde2page (pmem s1 (fst loc) (snd loc)) s1; Some (Some t, s1) }
     else Some (None, s1) }"

definition get_pte :: "nat \<Rightarrow> nat \<Rightarrow> bool \<Rightarrow> pt_state \<Rightarrow> ((nat \<times> nat) option \<times> pt_state) option" where
  "get_pte pgdir la create s = do {
     (d, s1) \<leftarrow> get_table (pgdir, PDX1 la) create s;
     (case d of
        None \<Rightarrow> Some (None, s1)
      | Some pd0 \<Rightarrow> do {
          (t, s2) \<leftarrow> get_table (pd0, PDX0 la) create s1;
          (case t of
             None \<Rightarrow> Some (None, s2)
           | Some pt \<Rightarrow> Some (Some (pt, PTX la), s2)) }) }"

definition get_page :: "nat \<Rightarrow> nat \<Rightarrow> pt_state \<Rightarrow> (nat option \<times> pt_state) option" where
  "get_page pgdir la s = do {
     (ptep, s1) \<leftarrow> get_pte pgdir la False s;
     (case ptep of
        None \<Rightarrow> Some (None, s1)
      | Some loc \<Rightarrow>
          if valid (pmem s1 (fst loc) (snd loc))
          then do { p \<leftarrow> pte2page (pmem s1 (fst loc) (snd loc)) s1; Some (Some p, s1) }
          else Some (None, s1)) }"

definition page_remove_pte :: "nat \<Rightarrow> nat \<Rightarrow> nat \<times> nat \<Rightarrow> pt_state \<Rightarrow> pt_state option" where
  "page_remove_pte pgdir la ptep s =
     (if valid (pmem s (fst ptep) (snd ptep))
      then do {
        page \<leftarrow> pte2page (pmem s (fst ptep) (snd ptep)) s;
        let s1 = page_ref_dec page s;
        s2 \<leftarrow> (if page_ref page s1 = 0 then free_page page s1 else Some s1);
        Some (set_entry ptep 0 s2) }
      else Some s)"

definition page_remove :: "nat \<Rightarrow> nat \<Rightarrow> pt_state \<Rightarrow> pt_state option" where
  "page_remove pgdir la s = do {
     (ptep, s1) \<leftarrow> get_pte pgdir la False s;
     (case ptep of None \<Rightarrow> Some s1 | Some loc \<Rightarrow> page_remove_pte pgdir la loc s1) }"

definition page_insert :: "nat \<Rightarrow> nat \<Rightarrow> nat \<Rightarrow> 64 word \<Rightarrow> pt_state \<Rightarrow> (int \<times> pt_state) option" where
  "page_insert pgdir page la perm s = do {
     (ptep, s1) \<leftarrow> get_pte pgdir la True s;
     (case ptep of
        None \<Rightarrow> Some (- E_NO_MEM, s1)
      | Some loc \<Rightarrow> do {
          let s2 = page_ref_inc page s1;
          s3 \<leftarrow> (if valid (pmem s2 (fst loc) (snd loc))
                then do {
                  p \<leftarrow> pte2page (pmem s2 (fst loc) (snd loc)) s2;
                  if p = page then Some (page_ref_dec page s2) else page_remove_pte pgdir la loc s2 }
                else Some s2);
          Some (0, set_entry loc (pte_create (page2ppn page) (PTE_V OR perm)) s3) }) }"

definition pgdir_alloc_page :: "nat \<Rightarrow> nat \<Rightarrow> 64 word \<Rightarrow> pt_state \<Rightarrow> (nat option \<times> pt_state) option" where
  "pgdir_alloc_page pgdir la perm s = do {
     (r, s1) \<leftarrow> alloc_page s;
     (case r of
        None \<Rightarrow> Some (None, s1)
      | Some page \<Rightarrow> do {
          (ret, s2) \<leftarrow> page_insert pgdir page la perm s1;
          if ret \<noteq> 0 then do { s3 \<leftarrow> free_page page s2; Some (None, s3) }
          else do {
            kassert (page_ref page s2 = 1);
            Some (Some page, s2) } }) }"

text \<open>The loop of \<open>boot_map_segment\<close>, for \<open>n\<close> pages.\<close>

primrec boot_map_pages :: "nat \<Rightarrow> nat \<Rightarrow> nat \<Rightarrow> nat \<Rightarrow> 64 word \<Rightarrow> pt_state \<Rightarrow> pt_state option" where
  "boot_map_pages 0 pgdir la pa perm s = Some s"
| "boot_map_pages (Suc n) pgdir la pa perm s = do {
     (ptep, s1) \<leftarrow> get_pte pgdir la True s;
     loc \<leftarrow> ptep;
     boot_map_pages n pgdir (la + PGSIZE) (pa + PGSIZE) perm
       (set_entry loc (pte_create (pa div PGSIZE) (PTE_V OR perm)) s1) }"

definition boot_map_segment :: "nat \<Rightarrow> nat \<Rightarrow> nat \<Rightarrow> nat \<Rightarrow> 64 word \<Rightarrow> pt_state \<Rightarrow> pt_state option" where
  "boot_map_segment pgdir la sz pa perm s = do {
     kassert (la mod PGSIZE = pa mod PGSIZE);
     boot_map_pages (ROUNDUP (sz + la mod PGSIZE) PGSIZE div PGSIZE) pgdir
       (ROUNDDOWN la PGSIZE) (ROUNDDOWN pa PGSIZE) perm s }"

section \<open>Ranges\<close>

partial_function (option) unmap_loop :: "nat \<Rightarrow> nat \<Rightarrow> nat \<Rightarrow> pt_state \<Rightarrow> pt_state option" where
  "unmap_loop pgdir start end' s = do {
     (ptep, s1) \<leftarrow> get_pte pgdir start False s;
     (start', s2) \<leftarrow>
       (case ptep of
          None \<Rightarrow> Some (ROUNDDOWN (start + PTSIZE) PTSIZE, s1)
        | Some loc \<Rightarrow> do {
            s2 \<leftarrow> (if pmem s1 (fst loc) (snd loc) \<noteq> 0 then page_remove_pte pgdir start loc s1 else Some s1);
            Some (start + PGSIZE, s2) });
     if start' \<noteq> 0 \<and> start' < end' then unmap_loop pgdir start' end' s2 else Some s2 }"

definition unmap_range :: "nat \<Rightarrow> nat \<Rightarrow> nat \<Rightarrow> pt_state \<Rightarrow> pt_state option" where
  "unmap_range pgdir start end' s = do {
     kassert (start mod PGSIZE = 0 \<and> end' mod PGSIZE = 0);
     kassert (USER_ACCESS start end');
     unmap_loop pgdir start end' s }"

text \<open>The inner loop of \<open>exit_range\<close>, over the tables of one level-0 directory; it yields the
  next address and the flag \<open>free_pd0\<close>.\<close>

partial_function (option) exit_pd0_loop ::
  "nat \<Rightarrow> nat \<Rightarrow> nat \<Rightarrow> nat \<Rightarrow> bool \<Rightarrow> pt_state \<Rightarrow> (nat \<times> bool \<times> pt_state) option" where
  "exit_pd0_loop pd0 d1start end' d0start free_pd0 s =
     (let pde0 = pmem s pd0 (PDX0 d0start) in do {
        (f, s1) \<leftarrow>
          (if valid pde0
           then do {
             pt \<leftarrow> pde2page pde0 s;
             if \<not> list_ex (\<lambda>i. valid (pmem s pt i)) [0..<512]
             then do { s1 \<leftarrow> free_page pt s; Some (free_pd0, set_entry (pd0, PDX0 d0start) 0 s1) }
             else Some (free_pd0, s) }
           else Some (False, s));
        let d0 = d0start + PTSIZE;
        if d0 \<noteq> 0 \<and> d0 < d1start + PDSIZE \<and> d0 < end' then exit_pd0_loop pd0 d1start end' d0 f s1
        else Some (d0, f, s1) })"

partial_function (option) exit_loop :: "nat \<Rightarrow> nat \<Rightarrow> nat \<Rightarrow> nat \<Rightarrow> pt_state \<Rightarrow> pt_state option" where
  "exit_loop pgdir end' d1start d0start s =
     (let pde1 = pmem s pgdir (PDX1 d1start) in do {
        s1 \<leftarrow>
          (if valid pde1
           then do {
             pd0 \<leftarrow> pde2page pde1 s;
             (d0, free_pd0, s1) \<leftarrow> exit_pd0_loop pd0 d1start end' d0start True s;
             if free_pd0
             then do { s2 \<leftarrow> free_page pd0 s1; Some (set_entry (pgdir, PDX1 d1start) 0 s2) }
             else Some s1 }
           else Some s);
        let d1 = d1start + PDSIZE;
        if d1 \<noteq> 0 \<and> d1 < end' then exit_loop pgdir end' d1 d1 s1 else Some s1 })"

definition exit_range :: "nat \<Rightarrow> nat \<Rightarrow> nat \<Rightarrow> pt_state \<Rightarrow> pt_state option" where
  "exit_range pgdir start end' s = do {
     kassert (start mod PGSIZE = 0 \<and> end' mod PGSIZE = 0);
     kassert (USER_ACCESS start end');
     exit_loop pgdir end' (ROUNDDOWN start PDSIZE) (ROUNDDOWN start PTSIZE) s }"

text \<open>\<open>copy_range\<close>; the page content is the words of the frame.\<close>

partial_function (option) copy_loop :: "nat \<Rightarrow> nat \<Rightarrow> nat \<Rightarrow> nat \<Rightarrow> pt_state \<Rightarrow> (int \<times> pt_state) option" where
  "copy_loop to from start end' s = do {
     (ptep, s1) \<leftarrow> get_pte from start False s;
     (ret, start', s2) \<leftarrow>
       (case ptep of
          None \<Rightarrow> Some (0, ROUNDDOWN (start + PTSIZE) PTSIZE, s1)
        | Some loc \<Rightarrow>
            if valid (pmem s1 (fst loc) (snd loc))
            then do {
              (nptep, s2) \<leftarrow> get_pte to start True s1;
              (case nptep of
                 None \<Rightarrow> Some (- E_NO_MEM, start, s2)
               | Some _ \<Rightarrow> do {
                   let perm = pmem s2 (fst loc) (snd loc) AND PTE_USER;
                   page \<leftarrow> pte2page (pmem s2 (fst loc) (snd loc)) s2;
                   (r, s3) \<leftarrow> alloc_page s2;
                   npage \<leftarrow> r;
                   let s4 = s3\<lparr>pmem := (pmem s3)(npage := pmem s3 page)\<rparr>;
                   (ret, s5) \<leftarrow> page_insert to npage start perm s4;
                   kassert (ret = 0);
                   Some (0, start + PGSIZE, s5) }) }
            else Some (0, start + PGSIZE, s1));
     if ret \<noteq> 0 then Some (ret, s2)
     else if start' \<noteq> 0 \<and> start' < end' then copy_loop to from start' end' s2
     else Some (0, s2) }"

definition copy_range :: "nat \<Rightarrow> nat \<Rightarrow> nat \<Rightarrow> nat \<Rightarrow> bool \<Rightarrow> pt_state \<Rightarrow> (int \<times> pt_state) option" where
  "copy_range to from start end' share s = do {
     kassert (start mod PGSIZE = 0 \<and> end' mod PGSIZE = 0);
     kassert (USER_ACCESS start end');
     copy_loop to from start end' s }"

declare unmap_loop.simps [code] exit_pd0_loop.simps [code] exit_loop.simps [code] copy_loop.simps [code]

section \<open>Entries\<close>

definition flag_bits :: "64 word \<Rightarrow> bool" where
  "flag_bits w \<longleftrightarrow> w AND NOT PTE_FLAGS = 0"

lemma low_mask: "bit PTE_FLAGS n \<longleftrightarrow> n < 10"
proof -
  have m: "PTE_FLAGS = mask 10" by (simp add: PTE_FLAGS_def mask_eq_exp_minus_1)
  show ?thesis unfolding m bit_mask_iff by auto
qed

lemma flag_bits_high: "flag_bits w \<Longrightarrow> 10 \<le> n \<Longrightarrow> \<not> bit w n"
proof
  assume f: "flag_bits w" "10 \<le> n" and b: "bit w n"
  then have "bit (w AND NOT PTE_FLAGS) n"
    using bit_imp_le_length[OF b] by (simp add: bit_and_iff bit_not_iff low_mask)
  then show False using f(1) by (simp add: flag_bits_def)
qed

lemma valid_create [simp]: "valid (pte_create ppn ty)"
proof -
  have "pte_create ppn ty AND PTE_V = PTE_V"
    by (rule bit_word_eqI) (auto simp: pte_create_def bit_and_iff bit_or_iff)
  then show ?thesis by (simp add: valid_def PTE_V_def)
qed

lemma ppn_create:
  assumes "ppn < 2 ^ 44" "flag_bits ty"
  shows "pte_ppn (pte_create ppn ty) = ppn"
proof -
  have hi: "\<not> bit ppn n" if "44 \<le> n" for n
  proof -
    have "ppn < 2 ^ n" using assms(1) that by (meson less_le_trans one_le_numeral power_increasing)
    then show ?thesis by (simp add: bit_iff_odd)
  qed
  have v: "\<not> bit PTE_V (n + 10)" for n by (simp add: PTE_V_def bit_1_iff)
  have "drop_bit 12 (push_bit 2 (pte_create ppn ty AND NOT PTE_FLAGS)) = word_of_nat ppn"
  proof (rule bit_word_eqI)
    fix n assume "n < LENGTH(64)"
    show "bit (drop_bit 12 (push_bit 2 (pte_create ppn ty AND NOT PTE_FLAGS))) n = bit (word_of_nat ppn :: 64 word) n"
    proof (cases "n < 52")
      case True
      have e: "12 + n - 2 = n + 10" by simp
      have "bit (drop_bit 12 (push_bit 2 (pte_create ppn ty AND NOT PTE_FLAGS))) n
          \<longleftrightarrow> bit (pte_create ppn ty AND NOT PTE_FLAGS) (n + 10)"
        using True by (simp add: bit_drop_bit_eq bit_push_bit_iff bit_and_iff e)
      also have "\<dots> \<longleftrightarrow> bit (pte_create ppn ty) (n + 10)"
        using True by (simp add: bit_and_iff bit_not_iff low_mask possible_bit_word)
      also have "\<dots> \<longleftrightarrow> bit (word_of_nat ppn :: 64 word) n"
        using True flag_bits_high[OF assms(2), of "n + 10"] v
        by (simp add: pte_create_def bit_or_iff bit_push_bit_iff)
      finally show ?thesis .
    next
      case False
      then show ?thesis using hi[of n]
        by (simp add: bit_and_iff bit_drop_bit_eq bit_push_bit_iff bit_of_nat_iff)
    qed
  qed
  then have "pte_ppn (pte_create ppn ty) = unat (word_of_nat ppn :: 64 word)" by (simp add: pte_ppn_def)
  also have "\<dots> = ppn" using assms(1) by (simp add: unat_of_nat take_bit_nat_eq_self_iff)
  finally show ?thesis .
qed

lemma flags_UV: "flag_bits (PTE_U OR PTE_V)"
  by (simp add: flag_bits_def PTE_U_def PTE_V_def PTE_FLAGS_def)

lemma flag_bits_or: "flag_bits a \<Longrightarrow> flag_bits b \<Longrightarrow> flag_bits (a OR b)"
  by (simp add: flag_bits_def bit.conj_disj_distrib2)

lemma flags_V: "flag_bits PTE_V"
  by (simp add: flag_bits_def PTE_V_def PTE_FLAGS_def)

section \<open>The tables of an address space\<close>

text \<open>The frame an entry points to; the level-0 directory at index \<open>i\<close>; the table at indices
  \<open>i\<close>, \<open>j\<close>; the leaf entry at indices \<open>i\<close>, \<open>j\<close>, \<open>k\<close>.\<close>

definition target :: "pt_state \<Rightarrow> 64 word \<Rightarrow> nat option" where
  "target s w = (if valid w then pa2page (pte_ppn w) s else None)"

definition dir_at :: "pt_state \<Rightarrow> nat \<Rightarrow> nat \<Rightarrow> nat option" where
  "dir_at s pg i = target s (pmem s pg i)"

definition table_at :: "pt_state \<Rightarrow> nat \<Rightarrow> nat \<Rightarrow> nat \<Rightarrow> nat option" where
  "table_at s pg i j = do { d \<leftarrow> dir_at s pg i; target s (pmem s d j) }"

definition leaf :: "pt_state \<Rightarrow> nat \<Rightarrow> nat \<Rightarrow> nat \<Rightarrow> nat \<Rightarrow> 64 word option" where
  "leaf s pg i j k = do {
     t \<leftarrow> table_at s pg i j; if valid (pmem s t k) then Some (pmem s t k) else None }"

text \<open>What the virtual address \<open>la\<close> is mapped to: the leaf entry.\<close>

definition mapping :: "pt_state \<Rightarrow> nat \<Rightarrow> nat \<Rightarrow> 64 word option" where
  "mapping s pg la = leaf s pg (PDX1 la) (PDX0 la) (PTX la)"

text \<open>The tables form a tree of distinct frames, none of which is free; \<open>F\<close> is the set of free
  frames, all of which lie in the memory the entries can name.\<close>

definition pt_inv :: "pt_state \<Rightarrow> nat \<Rightarrow> nat set \<Rightarrow> bool" where
  "pt_inv s pg F \<longleftrightarrow> frame_rel (area s) F \<and> (\<forall>p \<in> F. page2ppn p < npage s) \<and> npage s \<le> 2 ^ 44 \<and> pg \<notin> F
     \<and> (\<forall>i. valid (pmem s pg i) \<longrightarrow> (\<exists>d. dir_at s pg i = Some d \<and> d \<notin> F \<and> d \<noteq> pg))
     \<and> (\<forall>i i' d. dir_at s pg i = Some d \<and> dir_at s pg i' = Some d \<longrightarrow> i = i')
     \<and> (\<forall>i j d. dir_at s pg i = Some d \<and> valid (pmem s d j) \<longrightarrow>
          (\<exists>t. table_at s pg i j = Some t \<and> t \<notin> F \<and> t \<noteq> pg \<and> (\<forall>i'. dir_at s pg i' \<noteq> Some t)))
     \<and> (\<forall>i j i' j' t. table_at s pg i j = Some t \<and> table_at s pg i' j' = Some t \<longrightarrow> i = i' \<and> j = j')"

lemma target_create:
  assumes "page2ppn p < npage s" "npage s \<le> 2 ^ 44" "flag_bits ty"
  shows "target s (pte_create (page2ppn p) ty) = Some p"
  using assms ppn_create[of "page2ppn p" ty] by (simp add: target_def pa2page_def page2ppn_def)

lemma dir_valid: "dir_at s pg i = Some d \<Longrightarrow> valid (pmem s pg i)"
  by (simp add: dir_at_def target_def split: if_splits)

lemma table_dir: "table_at s pg i j = Some t \<Longrightarrow> \<exists>d. dir_at s pg i = Some d \<and> valid (pmem s d j)"
  by (auto simp: table_at_def target_def bind_Some_iff split: if_splits)

lemma dir_facts:
  assumes "pt_inv s pg F" "dir_at s pg i = Some d"
  shows "d \<notin> F" "d \<noteq> pg" "dir_at s pg i' = Some d \<Longrightarrow> i' = i"
    "table_at s pg i j = target s (pmem s d j)"
proof -
  have "valid (pmem s pg i)" using dir_valid[OF assms(2)] .
  then have "\<exists>d. dir_at s pg i = Some d \<and> d \<notin> F \<and> d \<noteq> pg" using assms(1) unfolding pt_inv_def by blast
  then show "d \<notin> F" "d \<noteq> pg" using assms(2) by auto
  show "dir_at s pg i' = Some d \<Longrightarrow> i' = i" using assms unfolding pt_inv_def by blast
  show "table_at s pg i j = target s (pmem s d j)" using assms(2) by (simp add: table_at_def)
qed

lemma table_facts:
  assumes "pt_inv s pg F" "table_at s pg i j = Some t"
  shows "t \<notin> F" "t \<noteq> pg" "dir_at s pg i' \<noteq> Some t" "table_at s pg i' j' = Some t \<Longrightarrow> i' = i \<and> j' = j"
proof -
  from table_dir[OF assms(2)] obtain d where d: "dir_at s pg i = Some d" "valid (pmem s d j)" by blast
  then have "\<exists>t. table_at s pg i j = Some t \<and> t \<notin> F \<and> t \<noteq> pg \<and> (\<forall>i'. dir_at s pg i' \<noteq> Some t)"
    using assms(1) unfolding pt_inv_def by blast
  then show "t \<notin> F" "t \<noteq> pg" "dir_at s pg i' \<noteq> Some t" using assms(2) by auto
  show "table_at s pg i' j' = Some t \<Longrightarrow> i' = i \<and> j' = j" using assms unfolding pt_inv_def by blast
qed

lemma table_exists:
  "pt_inv s pg F \<Longrightarrow> dir_at s pg i = Some d \<Longrightarrow> valid (pmem s d j) \<Longrightarrow> \<exists>t. table_at s pg i j = Some t"
  unfolding pt_inv_def by blast

text \<open>Introduction rule with the directories and tables given as functions.\<close>

lemma pt_invI:
  assumes "frame_rel (area s) F" "\<forall>p \<in> F. page2ppn p < npage s" "npage s \<le> 2 ^ 44" "pg \<notin> F"
    and d1: "\<And>i. valid (pmem s pg i) \<Longrightarrow> \<exists>d. dir_at s pg i = Some d"
    and d2: "\<And>i d. dir_at s pg i = Some d \<Longrightarrow> d \<notin> F \<and> d \<noteq> pg"
    and d3: "\<And>i i' d. dir_at s pg i = Some d \<Longrightarrow> dir_at s pg i' = Some d \<Longrightarrow> i = i'"
    and t1: "\<And>i j d. dir_at s pg i = Some d \<Longrightarrow> valid (pmem s d j) \<Longrightarrow> \<exists>t. table_at s pg i j = Some t"
    and t2: "\<And>i j t. table_at s pg i j = Some t \<Longrightarrow> t \<notin> F \<and> t \<noteq> pg \<and> (\<forall>i'. dir_at s pg i' \<noteq> Some t)"
    and t3: "\<And>i j i' j' t. table_at s pg i j = Some t \<Longrightarrow> table_at s pg i' j' = Some t \<Longrightarrow> i = i' \<and> j = j'"
  shows "pt_inv s pg F"
proof -
  have "\<forall>i. valid (pmem s pg i) \<longrightarrow> (\<exists>d. dir_at s pg i = Some d \<and> d \<notin> F \<and> d \<noteq> pg)" using d1 d2 by blast
  moreover have "\<forall>i i' d. dir_at s pg i = Some d \<and> dir_at s pg i' = Some d \<longrightarrow> i = i'" using d3 by blast
  moreover have "\<forall>i j d. dir_at s pg i = Some d \<and> valid (pmem s d j) \<longrightarrow>
      (\<exists>t. table_at s pg i j = Some t \<and> t \<notin> F \<and> t \<noteq> pg \<and> (\<forall>i'. dir_at s pg i' \<noteq> Some t))"
    using t1 t2 by meson
  moreover have "\<forall>i j i' j' t. table_at s pg i j = Some t \<and> table_at s pg i' j' = Some t \<longrightarrow> i = i' \<and> j = j'"
    using t3 by meson
  ultimately show ?thesis unfolding pt_inv_def using assms(1-4) by blast
qed

lemma frame_rel_ref: "frame_rel (upd_page p (ref_update f) a) F = frame_rel a F"
proof -
  let ?a = "upd_page p (ref_update f) a"
  have P: "(\<lambda>b. property (pages ?a b)) = (\<lambda>b. property (pages a b))"
    and Q: "\<And>b. PG_property (pages ?a b) = PG_property (pages a b)" "\<And>b. PG_reserved (pages ?a b) = PG_reserved (pages a b)"
    and R: "free_list ?a = free_list a" "nr_free ?a = nr_free a"
    by (auto simp: upd_page_def)
  have "fl_inv ?a bs = fl_inv a bs" for bs unfolding fl_inv_def P Q R by (rule refl)
  then show ?thesis unfolding frame_rel_def P by simp
qed

lemma pt_inv_cong:
  assumes "pmem s' = pmem s" "npage s' = npage s" "frame_rel (area s') F"
  shows "dir_at s' = dir_at s" "table_at s' = table_at s" "leaf s' = leaf s" "pt_inv s pg F \<Longrightarrow> pt_inv s' pg F"
proof -
  have t: "target s' = target s" by (rule ext) (simp add: target_def pa2page_def assms(2))
  show d: "dir_at s' = dir_at s" by (intro ext) (simp add: dir_at_def t assms(1))
  show tt: "table_at s' = table_at s" by (intro ext) (simp add: table_at_def t d assms(1))
  show "leaf s' = leaf s" by (intro ext) (simp only: leaf_def tt assms(1))
  show "pt_inv s pg F \<Longrightarrow> pt_inv s' pg F"
    unfolding pt_inv_def d tt assms(1,2) using assms(3) by simp
qed

lemma pt_inv_shrink:
  assumes "pt_inv s pg F" "pmem s' = pmem s" "npage s' = npage s" "frame_rel (area s') F'" "F' \<subseteq> F"
  shows "pt_inv s' pg F'"
proof -
  note c = pt_inv_cong(1,2)[OF assms(2-4)]
  have "\<forall>p \<in> F'. page2ppn p < npage s'" "npage s' \<le> 2 ^ 44" "pg \<notin> F'" using assms(1,3,5) by (auto simp: pt_inv_def)
  moreover have "\<exists>d. dir_at s' pg i = Some d" if "valid (pmem s' pg i)" for i
    using assms(1) that unfolding c assms(2) pt_inv_def by blast
  moreover have "d \<notin> F' \<and> d \<noteq> pg" if "dir_at s' pg i = Some d" for i d
    using dir_facts(1,2)[OF assms(1), of i d] that assms(5) unfolding c by blast
  moreover have "i = i'" if "dir_at s' pg i = Some d" "dir_at s' pg i' = Some d" for i i' d
    using dir_facts(3)[OF assms(1)] that unfolding c by blast
  moreover have "\<exists>t. table_at s' pg i j = Some t" if "dir_at s' pg i = Some d" "valid (pmem s' d j)" for i j d
    using table_exists[OF assms(1)] that unfolding c assms(2) by blast
  moreover have "t \<notin> F' \<and> t \<noteq> pg \<and> (\<forall>i'. dir_at s' pg i' \<noteq> Some t)" if "table_at s' pg i j = Some t" for i j t
    using table_facts(1-3)[OF assms(1), of i j t] that assms(5) unfolding c by blast
  moreover have "i = i' \<and> j = j'" if "table_at s' pg i j = Some t" "table_at s' pg i' j' = Some t" for i j i' j' t
    using table_facts(4)[OF assms(1)] that unfolding c by blast
  ultimately show ?thesis by (intro pt_invI[OF assms(4)])
qed

lemma not_valid_0 [simp]: "\<not> valid 0"
  by (simp add: valid_def)

text \<open>Hanging a new, empty table \<open>f\<close> into an invalid entry of the root.\<close>

lemma grow_root:
  assumes inv: "pt_inv s pg F" and f: "f \<in> F" and x: "\<not> valid (pmem s pg x)"
    and s': "pmem s' = (pmem s)(f := (\<lambda>_. 0), pg := (pmem s pg)(x := pte_create (page2ppn f) (PTE_U OR PTE_V)))"
      "npage s' = npage s" "frame_rel (area s') (F - {f})"
  shows "pt_inv s' pg (F - {f})" "leaf s' pg = leaf s pg" "dir_at s' pg x = Some f"
proof -
  have F: "\<forall>p \<in> F. page2ppn p < npage s" "npage s \<le> 2 ^ 44" "pg \<notin> F" using inv by (auto simp: pt_inv_def)
  have tg: "target s' = target s" by (rule ext) (simp add: target_def pa2page_def s'(2))
  have fpg: "f \<noteq> pg" using F f by auto
  have d: "dir_at s' pg i = (if i = x then Some f else dir_at s pg i)" for i
    using target_create[of f s "PTE_U OR PTE_V"] F f flags_UV by (simp add: dir_at_def tg s'(1))
  have dx: "dir_at s pg x = None" using x by (simp add: dir_at_def target_def)
  have old: "d \<noteq> f \<and> d \<noteq> pg \<and> d \<notin> F" if "dir_at s pg i = Some d" for i d
    using dir_facts(1,2)[OF inv that] f by auto
  have t: "table_at s' pg i j = table_at s pg i j" for i j
  proof (cases "dir_at s pg i")
    case None
    then show ?thesis by (auto simp: table_at_def d dx tg s'(1) fpg target_def)
  next
    case (Some d)
    then show ?thesis using old[OF Some] dx by (auto simp: table_at_def assms d tg s'(1) \<open>dir_at s' pg i = _\<close>)
  qed
  have tf: "t \<noteq> f \<and> t \<noteq> pg \<and> t \<notin> F" if "table_at s pg i j = Some t" for i j t
    using table_facts(1,2)[OF inv that] f by auto
  show "leaf s' pg = leaf s pg"
  proof (intro ext)
    fix i j k
    show "leaf s' pg i j k = leaf s pg i j k"
      using tf[of i j] by (cases "table_at s pg i j") (simp_all add: leaf_def t s'(1))
  qed
  show "dir_at s' pg x = Some f" by (simp add: d)
  show "pt_inv s' pg (F - {f})"
  proof (rule pt_invI)
    show "frame_rel (area s') (F - {f})" "\<forall>p \<in> F - {f}. page2ppn p < npage s'" "npage s' \<le> 2 ^ 44" "pg \<notin> F - {f}"
      using s'(2,3) F by auto
    show "\<exists>e. dir_at s' pg i = Some e" if "valid (pmem s' pg i)" for i
      using that inv by (cases "i = x") (auto simp: d s'(1) pt_inv_def)
    show "e \<notin> F - {f} \<and> e \<noteq> pg" if "dir_at s' pg i = Some e" for i e
      using that old fpg by (auto simp: d split: if_splits)
    show "i = i'" if "dir_at s' pg i = Some e" "dir_at s' pg i' = Some e" for i i' e
      using that old dir_facts(3)[OF inv] by (auto simp: d split: if_splits)
    show "\<exists>t. table_at s' pg i j = Some t" if "dir_at s' pg i = Some e" "valid (pmem s' e j)" for i j e
    proof -
      have "i \<noteq> x" using that by (auto simp: d s'(1) fpg split: if_splits)
      then have e: "dir_at s pg i = Some e" using that(1) by (simp add: d)
      then have "valid (pmem s e j)" using that(2) old[OF e] by (simp add: s'(1))
      then show ?thesis using inv e unfolding t pt_inv_def by blast
    qed
    show "t \<notin> F - {f} \<and> t \<noteq> pg \<and> (\<forall>i'. dir_at s' pg i' \<noteq> Some t)" if "table_at s' pg i j = Some t" for i j t
      using that tf[of i j t] table_facts(3)[OF inv, of i j t] by (auto simp: assms d t split: if_splits)
    show "i = i' \<and> j = j'" if "table_at s' pg i j = Some t" "table_at s' pg i' j' = Some t" for i j i' j' t
      using that table_facts(4)[OF inv] unfolding \<open>\<And>j i. table_at s' pg i j = table_at s pg i j\<close> by blast
  qed
qed

text \<open>Hanging a new, empty table \<open>f\<close> into an invalid entry of the level-0 directory \<open>q\<close>.\<close>

lemma grow_dir:
  assumes inv: "pt_inv s pg F" and f: "f \<in> F" and q: "dir_at s pg x0 = Some q" and x: "\<not> valid (pmem s q x)"
    and s': "pmem s' = (pmem s)(f := (\<lambda>_. 0), q := (pmem s q)(x := pte_create (page2ppn f) (PTE_U OR PTE_V)))"
      "npage s' = npage s" "frame_rel (area s') (F - {f})"
  shows "pt_inv s' pg (F - {f})" "leaf s' pg = leaf s pg" "dir_at s' pg = dir_at s pg" "table_at s' pg x0 x = Some f"
proof -
  have F: "\<forall>p \<in> F. page2ppn p < npage s" "npage s \<le> 2 ^ 44" "pg \<notin> F" using inv by (auto simp: pt_inv_def)
  have tg: "target s' = target s" by (rule ext) (simp add: target_def pa2page_def s'(2))
  have qf: "q \<noteq> f" "q \<noteq> pg" "f \<noteq> pg" using dir_facts(1,2)[OF inv q] F f by auto
  show d: "dir_at s' pg = dir_at s pg" by (rule ext) (simp add: dir_at_def tg s'(1) qf qf[symmetric])
  have old: "e \<noteq> f \<and> e \<noteq> pg \<and> e \<notin> F" if "dir_at s pg i = Some e" for i e
    using dir_facts(1,2)[OF inv that] f by auto
  have new: "target s (pte_create (page2ppn f) (PTE_U OR PTE_V)) = Some f"
    using target_create[of f s "PTE_U OR PTE_V"] F f flags_UV by simp
  have tx: "table_at s pg x0 x = None" using q x by (simp add: table_at_def target_def)
  have t: "table_at s' pg i j = (if i = x0 \<and> j = x then Some f else table_at s pg i j)" for i j
  proof (cases "dir_at s pg i")
    case None
    then show ?thesis using q by (auto simp: table_at_def d)
  next
    case (Some e)
    show ?thesis
    proof (cases "e = q")
      case True
      then have "i = x0" using dir_facts(3)[OF inv q] Some by blast
      then show ?thesis using q new by (simp add: table_at_def d tg s'(1))
    next
      case False
      then have "i \<noteq> x0" using q Some by auto
      then show ?thesis using False Some old[OF Some] by (simp add: table_at_def d tg s'(1))
    qed
  qed
  have tf: "u \<noteq> f \<and> u \<noteq> pg \<and> u \<noteq> q \<and> u \<notin> F" if "table_at s pg i j = Some u" for i j u
    using table_facts(1,2)[OF inv that] table_facts(3)[OF inv that, of x0] f q by auto
  show "leaf s' pg = leaf s pg"
  proof (intro ext)
    fix i j k
    show "leaf s' pg i j k = leaf s pg i j k"
      using tf[of i j] tx qf by (cases "table_at s pg i j") (auto simp: leaf_def t s'(1))
  qed
  show "table_at s' pg x0 x = Some f" by (simp add: t)
  show "pt_inv s' pg (F - {f})"
  proof (rule pt_invI)
    show "frame_rel (area s') (F - {f})" "\<forall>p \<in> F - {f}. page2ppn p < npage s'" "npage s' \<le> 2 ^ 44" "pg \<notin> F - {f}"
      using s'(2,3) F by auto
    show "\<exists>e. dir_at s' pg i = Some e" if "valid (pmem s' pg i)" for i
      using that inv qf by (auto simp: d s'(1) pt_inv_def)
    show "e \<notin> F - {f} \<and> e \<noteq> pg" if "dir_at s' pg i = Some e" for i e
      using that old by (auto simp: d)
    show "i = i'" if "dir_at s' pg i = Some e" "dir_at s' pg i' = Some e" for i i' e
      using that dir_facts(3)[OF inv] by (auto simp: d)
    show "\<exists>u. table_at s' pg i j = Some u" if "dir_at s' pg i = Some e" "valid (pmem s' e j)" for i j e
    proof (cases "i = x0 \<and> j = x")
      case False
      have e: "dir_at s pg i = Some e" using that(1) by (simp add: d)
      have "e = q \<Longrightarrow> i = x0" using dir_facts(3)[OF inv q] e by blast
      then have "valid (pmem s e j)" using that(2) old[OF e] False by (auto simp: s'(1) split: if_splits)
      then have "\<exists>u. table_at s pg i j = Some u" by (rule table_exists[OF inv e])
      then show ?thesis using False by (auto simp: t)
    qed (simp add: t)
    show "u \<notin> F - {f} \<and> u \<noteq> pg \<and> (\<forall>i'. dir_at s' pg i' \<noteq> Some u)" if "table_at s' pg i j = Some u" for i j u
      using that tf[of i j u] table_facts(3)[OF inv, of i j u] old qf by (auto simp: d t split: if_splits)
    show "i = i' \<and> j = j'" if "table_at s' pg i j = Some u" "table_at s' pg i' j' = Some u" for i j i' j' u
      using that tf[of i j u] tf[of i' j' u] table_facts(4)[OF inv, of i j u i' j'] by (auto simp: t split: if_splits)
  qed
qed

text \<open>Writing a leaf entry changes exactly that mapping.\<close>

lemma write_leaf:
  assumes inv: "pt_inv s pg F" and tt: "table_at s pg i0 j0 = Some t0"
    and s': "pmem s' = (pmem s)(t0 := (pmem s t0)(k0 := w))" "npage s' = npage s" "frame_rel (area s') F"
  shows "pt_inv s' pg F"
    "leaf s' pg i j k = (if (i, j, k) = (i0, j0, k0) then if valid w then Some w else None else leaf s pg i j k)"
proof -
  have tg: "target s' = target s" by (rule ext) (simp add: target_def pa2page_def s'(2))
  note tf = table_facts[OF inv tt]
  have d: "dir_at s' pg = dir_at s pg" using tf(2) by (intro ext) (auto simp: dir_at_def tg s'(1))
  have t: "table_at s' pg i j = table_at s pg i j" for i j
    using tf(3)[of i] by (cases "dir_at s pg i") (auto simp: table_at_def d tg s'(1))
  show "leaf s' pg i j k = (if (i, j, k) = (i0, j0, k0) then if valid w then Some w else None else leaf s pg i j k)"
    using tt tf(4)[of i j] by (cases "table_at s pg i j") (auto simp: leaf_def t s'(1))
  show "pt_inv s' pg F"
  proof (rule pt_invI)
    show "frame_rel (area s') F" "\<forall>p \<in> F. page2ppn p < npage s'" "npage s' \<le> 2 ^ 44" "pg \<notin> F"
      using s'(2,3) inv by (auto simp: pt_inv_def)
    show "\<exists>e. dir_at s' pg i = Some e" if "valid (pmem s' pg i)" for i
      using that inv tf(2) by (auto simp: d s'(1) pt_inv_def)
    show "e \<notin> F \<and> e \<noteq> pg" if "dir_at s' pg i = Some e" for i e
      using that dir_facts(1,2)[OF inv] by (auto simp: d)
    show "i = i'" if "dir_at s' pg i = Some e" "dir_at s' pg i' = Some e" for i i' e
      using that dir_facts(3)[OF inv] by (auto simp: d)
    show "\<exists>u. table_at s' pg i j = Some u" if "dir_at s' pg i = Some e" "valid (pmem s' e j)" for i j e
    proof -
      have e: "dir_at s pg i = Some e" using that(1) by (simp add: d)
      then have "valid (pmem s e j)" using that(2) tf(3)[of i] by (auto simp: s'(1))
      then show ?thesis using inv e unfolding t pt_inv_def by blast
    qed
    show "u \<notin> F \<and> u \<noteq> pg \<and> (\<forall>i'. dir_at s' pg i' \<noteq> Some u)" if "table_at s' pg i j = Some u" for i j u
      using that table_facts[OF inv, of i j u] by (auto simp: d t)
    show "i = i' \<and> j = j'" if "table_at s' pg i j = Some u" "table_at s' pg i' j' = Some u" for i j i' j' u
      using that table_facts(4)[OF inv, of i j u i' j'] by (auto simp: t)
  qed
qed

section \<open>Walking and mapping\<close>

lemma take_block_ref: "ref (pages (take_block p n a) q) = ref (pages a q)"
  by (simp add: take_block_def page_upd_defs Let_def)

lemma alloc_page_ok:
  assumes "frame_rel (area s) F"
  shows "alloc_page s = Some (None, s) \<or>
    (\<exists>p a. alloc_page s = Some (Some p, s\<lparr>area := a\<rparr>) \<and> p \<in> F \<and> frame_rel a (F - {p})
       \<and> (\<forall>q. ref (pages a q) = ref (pages (area s) q)))"
proof -
  from first_fit.rel_alloc[OF assms, of 1] consider
      (got) p a where "default_alloc_pages 1 (area s) = Some (Some p, a)" "{p..<p + 1} \<subseteq> F" "frame_rel a (F - {p..<p + 1})"
    | (none) "default_alloc_pages 1 (area s) = Some (None, area s)" by auto
  then show ?thesis
  proof cases
    case got
    then have "a = take_block p 1 (area s)"
      by (auto simp: default_alloc_pages_def bind_Some_iff split: if_splits option.splits)
    with got show ?thesis by (auto simp: alloc_page_def take_block_ref)
  qed (simp add: alloc_page_def)
qed

lemma set_ref_simps [simp]:
  "pmem (set_page_ref p v s) = pmem s" "npage (set_page_ref p v s) = npage s"
  "frame_rel (area (set_page_ref p v s)) F = frame_rel (area s) F"
  "page_ref q (set_page_ref p v s) = (if q = p then v else page_ref q s)"
  by (simp_all add: set_page_ref_def frame_rel_ref page_ref_def) (simp add: upd_page_def)

lemma set_entry_simps [simp]:
  "pmem (set_entry loc w s) = (pmem s)(fst loc := (pmem s (fst loc))(snd loc := w))"
  "npage (set_entry loc w s) = npage s" "area (set_entry loc w s) = area s"
  "page_ref q (set_entry loc w s) = page_ref q s"
  by (simp_all add: set_entry_def page_ref_def)

lemma zero_page_simps [simp]:
  "pmem (zero_page p s) = (pmem s)(p := (\<lambda>_. 0))" "npage (zero_page p s) = npage s" "area (zero_page p s) = area s"
  "page_ref q (zero_page p s) = page_ref q s"
  by (simp_all add: zero_page_def page_ref_def)

text \<open>What a walk changes besides the entries: only the reference counts of the frames that it
  takes from the free ones.\<close>

definition walk_frame :: "nat set \<Rightarrow> pt_state \<Rightarrow> pt_state \<Rightarrow> bool" where
  "walk_frame D s s' \<longleftrightarrow> npage s' = npage s \<and> (\<forall>q. q \<notin> D \<longrightarrow> page_ref q s' = page_ref q s)"

lemma walk_frame_trans:
  "walk_frame (F - G) s t \<Longrightarrow> walk_frame (G - H) t u \<Longrightarrow> G \<subseteq> F \<Longrightarrow> H \<subseteq> G \<Longrightarrow> walk_frame (F - H) s u"
  by (auto simp: walk_frame_def)

lemma get_table_root:
  assumes inv: "pt_inv s pg F"
  shows "\<exists>r s' G. get_table (pg, i) True s = Some (r, s') \<and> G \<subseteq> F \<and> pt_inv s' pg G \<and> leaf s' pg = leaf s pg
    \<and> walk_frame (F - G) s s' \<and> (\<forall>d. r = Some d \<longrightarrow> dir_at s' pg i = Some d)"
proof (cases "valid (pmem s pg i)")
  case True
  then obtain d where "dir_at s pg i = Some d" using inv by (auto simp: pt_inv_def)
  then show ?thesis using True inv
    by (intro exI[of _ "Some d"] exI[of _ s] exI[of _ F])
      (auto simp: get_table_def pde2page_def dir_at_def target_def walk_frame_def)
next
  case False
  have fr: "frame_rel (area s) F" using inv by (simp add: pt_inv_def)
  from alloc_page_ok[OF fr] show ?thesis
  proof
    assume "alloc_page s = Some (None, s)"
    then show ?thesis using False inv
      by (intro exI[of _ None] exI[of _ s] exI[of _ F]) (auto simp: get_table_def walk_frame_def)
  next
    assume "\<exists>p a. alloc_page s = Some (Some p, s\<lparr>area := a\<rparr>) \<and> p \<in> F \<and> frame_rel a (F - {p})
       \<and> (\<forall>q. ref (pages a q) = ref (pages (area s) q))"
    then obtain p a where p: "alloc_page s = Some (Some p, s\<lparr>area := a\<rparr>)" "p \<in> F" "frame_rel a (F - {p})"
      "\<forall>q. ref (pages a q) = ref (pages (area s) q)" by blast
    let ?s = "set_entry (pg, i) (pte_create (page2ppn p) (PTE_U OR PTE_V)) (zero_page p (set_page_ref p 1 (s\<lparr>area := a\<rparr>)))"
    have npg: "pg \<noteq> p" using inv p(2) by (auto simp: pt_inv_def)
    have "pmem ?s = (pmem s)(p := (\<lambda>_. 0), pg := (pmem s pg)(i := pte_create (page2ppn p) (PTE_U OR PTE_V)))"
      "npage ?s = npage s" "frame_rel (area ?s) (F - {p})" using p(3) npg by auto
    note g = grow_root[OF inv p(2) False this]
    have "pde2page (pmem ?s pg i) ?s = Some p"
      using g(3) by (simp add: dir_at_def target_def pde2page_def)
    then have "get_table (pg, i) True s = Some (Some p, ?s)"
      using False p(1) by (simp add: get_table_def Let_def)
    moreover have "walk_frame (F - (F - {p})) s ?s" using p(2,4) by (auto simp: walk_frame_def) (simp add: page_ref_def)
    ultimately show ?thesis using g by (intro exI[of _ "Some p"] exI[of _ ?s] exI[of _ "F - {p}"]) auto
  qed
qed

lemma get_table_dir:
  assumes inv: "pt_inv s pg F" and q: "dir_at s pg x0 = Some q"
  shows "\<exists>r s' G. get_table (q, j) True s = Some (r, s') \<and> G \<subseteq> F \<and> pt_inv s' pg G \<and> leaf s' pg = leaf s pg
    \<and> walk_frame (F - G) s s' \<and> (\<forall>t. r = Some t \<longrightarrow> table_at s' pg x0 j = Some t)"
proof (cases "valid (pmem s q j)")
  case True
  then obtain t where "table_at s pg x0 j = Some t" using table_exists[OF inv q] by blast
  then show ?thesis using True inv q
    by (intro exI[of _ "Some t"] exI[of _ s] exI[of _ F])
      (auto simp: get_table_def pde2page_def table_at_def target_def walk_frame_def)
next
  case False
  have fr: "frame_rel (area s) F" using inv by (simp add: pt_inv_def)
  from alloc_page_ok[OF fr] show ?thesis
  proof
    assume "alloc_page s = Some (None, s)"
    then show ?thesis using False inv
      by (intro exI[of _ None] exI[of _ s] exI[of _ F]) (auto simp: get_table_def walk_frame_def)
  next
    assume "\<exists>p a. alloc_page s = Some (Some p, s\<lparr>area := a\<rparr>) \<and> p \<in> F \<and> frame_rel a (F - {p})
       \<and> (\<forall>q. ref (pages a q) = ref (pages (area s) q))"
    then obtain p a where p: "alloc_page s = Some (Some p, s\<lparr>area := a\<rparr>)" "p \<in> F" "frame_rel a (F - {p})"
      "\<forall>q. ref (pages a q) = ref (pages (area s) q)" by blast
    let ?s = "set_entry (q, j) (pte_create (page2ppn p) (PTE_U OR PTE_V)) (zero_page p (set_page_ref p 1 (s\<lparr>area := a\<rparr>)))"
    have nq: "q \<noteq> p" using dir_facts(1)[OF inv q] p(2) by auto
    have "pmem ?s = (pmem s)(p := (\<lambda>_. 0), q := (pmem s q)(j := pte_create (page2ppn p) (PTE_U OR PTE_V)))"
      "npage ?s = npage s" "frame_rel (area ?s) (F - {p})" using p(3) nq by auto
    note g = grow_dir[OF inv p(2) q False this]
    have "pde2page (pmem ?s q j) ?s = Some p"
      using g(3,4) q by (simp add: table_at_def target_def pde2page_def)
    then have "get_table (q, j) True s = Some (Some p, ?s)"
      using False p(1) by (simp add: get_table_def Let_def)
    moreover have "walk_frame (F - (F - {p})) s ?s" using p(2,4) by (auto simp: walk_frame_def) (simp add: page_ref_def)
    ultimately show ?thesis using g by (intro exI[of _ "Some p"] exI[of _ ?s] exI[of _ "F - {p}"]) auto
  qed
qed

lemma get_pte_ok:
  assumes inv: "pt_inv s pg F"
  shows "\<exists>r s' G. get_pte pg la True s = Some (r, s') \<and> G \<subseteq> F \<and> pt_inv s' pg G \<and> leaf s' pg = leaf s pg
    \<and> walk_frame (F - G) s s'
    \<and> (\<forall>loc. r = Some loc \<longrightarrow> table_at s' pg (PDX1 la) (PDX0 la) = Some (fst loc) \<and> snd loc = PTX la)"
proof -
  from get_table_root[OF inv, of "PDX1 la"] obtain r1 s1 G1 where
    1: "get_table (pg, PDX1 la) True s = Some (r1, s1)" "G1 \<subseteq> F" "pt_inv s1 pg G1" "leaf s1 pg = leaf s pg"
       "walk_frame (F - G1) s s1" "\<forall>d. r1 = Some d \<longrightarrow> dir_at s1 pg (PDX1 la) = Some d" by blast
  show ?thesis
  proof (cases r1)
    case None
    then show ?thesis using 1 by (intro exI[of _ None] exI[of _ s1] exI[of _ G1]) (simp add: get_pte_def)
  next
    case (Some d)
    from get_table_dir[OF 1(3), of "PDX1 la" d "PDX0 la"] 1(6) Some obtain r2 s2 G2 where
      2: "get_table (d, PDX0 la) True s1 = Some (r2, s2)" "G2 \<subseteq> G1" "pt_inv s2 pg G2" "leaf s2 pg = leaf s1 pg"
         "walk_frame (G1 - G2) s1 s2" "\<forall>t. r2 = Some t \<longrightarrow> table_at s2 pg (PDX1 la) (PDX0 la) = Some t" by blast
    have w: "walk_frame (F - G2) s s2" using walk_frame_trans[OF 1(5) 2(5) 1(2) 2(2)] .
    show ?thesis using 1 2 Some w
      by (intro exI[of _ "map_option (\<lambda>t. (t, PTX la)) r2"] exI[of _ s2] exI[of _ G2])
        (cases r2; auto simp: get_pte_def)
  qed
qed

text \<open>The three indices determine the page of an address of the Sv39 space.\<close>

lemma same_page_iff:
  assumes "la < 2 ^ 39" "la' < 2 ^ 39"
  shows "(PDX1 la, PDX0 la, PTX la) = (PDX1 la', PDX0 la', PTX la') \<longleftrightarrow> la div 4096 = la' div 4096"
proof -
  have split: "a div 4096 = (PDX1 a * 512 + PDX0 a) * 512 + PTX a" if "a < 2 ^ 39" for a
  proof -
    define q where "q = a div 4096"
    define r where "r = q div 512"
    have "a div 2 ^ 30 = r div 512" "a div 2 ^ 21 = r" "a div 2 ^ 12 = q"
      by (simp_all add: q_def r_def div_mult2_eq[symmetric])
    moreover have "a div 2 ^ 30 < 512" using that by (simp add: div_less_iff_less_mult)
    ultimately have i: "PDX1 a = r div 512" "PDX0 a = r mod 512" "PTX a = q mod 512"
      by (simp_all add: PDX1_def PDX0_def PTX_def)
    show ?thesis unfolding i q_def[symmetric] div_mult_mod_eq unfolding r_def div_mult_mod_eq by (rule refl)
  qed
  have "PDX1 a = a div 4096 div 2 ^ 18 mod 512" "PDX0 a = a div 4096 div 2 ^ 9 mod 512" "PTX a = a div 4096 mod 512" for a
    by (simp_all add: PDX1_def PDX0_def PTX_def div_mult2_eq[symmetric])
  then show ?thesis using split[OF assms(1)] split[OF assms(2)] by (metis prod.inject)
qed

lemma get_table_valid:
  "valid (pmem s p i) \<Longrightarrow> pa2page (pte_ppn (pmem s p i)) s = Some d \<Longrightarrow> get_table (p, i) c s = Some (Some d, s)"
  by (simp add: get_table_def pde2page_def)

lemma get_page_mapping:
  assumes "mapping s pg la = Some e" "pa2page (pte_ppn e) s = Some p"
  shows "get_page pg la s = Some (Some p, s)"
proof -
  from assms(1) obtain d t where
    d: "valid (pmem s pg (PDX1 la))" "pa2page (pte_ppn (pmem s pg (PDX1 la))) s = Some d"
       "valid (pmem s d (PDX0 la))" "pa2page (pte_ppn (pmem s d (PDX0 la))) s = Some t"
       "valid (pmem s t (PTX la))" "e = pmem s t (PTX la)"
    by (auto simp: mapping_def leaf_def table_at_def dir_at_def target_def bind_Some_iff split: if_splits)
  then have "get_pte pg la False s = Some (Some (t, PTX la), s)"
    by (simp add: get_pte_def get_table_valid)
  then show ?thesis using d(5,6) assms(2) by (simp add: get_page_def pte2page_def)
qed

lemma page_insert_fresh:
  assumes inv: "pt_inv s pg F" and fresh: "mapping s pg la = None" and page: "page \<notin> F"
  shows "\<exists>ret s' G. page_insert pg page la perm s = Some (ret, s') \<and> G \<subseteq> F \<and> pt_inv s' pg G \<and> npage s' = npage s
    \<and> (if ret = 0
       then page_ref page s' = page_ref page s + 1
         \<and> (\<forall>i j k. leaf s' pg i j k = (if (i, j, k) = (PDX1 la, PDX0 la, PTX la)
              then Some (pte_create (page2ppn page) (PTE_V OR perm)) else leaf s pg i j k))
       else ret = - E_NO_MEM \<and> leaf s' pg = leaf s pg \<and> page_ref page s' = page_ref page s)"
proof -
  from get_pte_ok[OF inv, of la] obtain r s1 G where
    g: "get_pte pg la True s = Some (r, s1)" "G \<subseteq> F" "pt_inv s1 pg G" "leaf s1 pg = leaf s pg" "walk_frame (F - G) s s1"
       "\<forall>loc. r = Some loc \<longrightarrow> table_at s1 pg (PDX1 la) (PDX0 la) = Some (fst loc) \<and> snd loc = PTX la" by blast
  have r1: "page_ref page s1 = page_ref page s" "npage s1 = npage s" using g(5) page by (auto simp: walk_frame_def)
  show ?thesis
  proof (cases r)
    case None
    then show ?thesis using g r1
      by (intro exI[of _ "- E_NO_MEM"] exI[of _ s1] exI[of _ G]) (simp add: page_insert_def)
  next
    case (Some loc)
    then have t: "table_at s1 pg (PDX1 la) (PDX0 la) = Some (fst loc)" "snd loc = PTX la" using g(6) by auto
    have "leaf s1 pg (PDX1 la) (PDX0 la) (PTX la) = None" using fresh unfolding mapping_def g(4) .
    then have nv: "\<not> valid (pmem s1 (fst loc) (snd loc))"
      using t by (simp add: leaf_def split: if_splits)
    let ?w = "pte_create (page2ppn page) (PTE_V OR perm)" and ?s2 = "page_ref_inc page s1"
    let ?s3 = "set_entry loc ?w ?s2"
    have e: "page_insert pg page la perm s = Some (0, ?s3)"
      using g(1) Some nv by (simp add: page_insert_def page_ref_inc_def)
    have fr: "frame_rel (area s1) G" using g(3) by (simp add: pt_inv_def)
    have "pmem ?s3 = (pmem s1)(fst loc := (pmem s1 (fst loc))(PTX la := ?w))" "npage ?s3 = npage s1"
      "frame_rel (area ?s3) G" using t(2) fr by (auto simp: page_ref_inc_def)
    note w = write_leaf[OF g(3) t(1) this]
    have "page_ref page ?s3 = page_ref page s + 1" using r1 by (simp add: page_ref_inc_def)
    then show ?thesis using e g(2) w(1) w(2) g(4) r1
      by (intro exI[of _ 0] exI[of _ ?s3] exI[of _ G]) (simp add: page_ref_inc_def)
  qed
qed

lemma get_pte_existing:
  assumes "table_at s pg (PDX1 la) (PDX0 la) = Some t"
  shows "get_pte pg la c s = Some (Some (t, PTX la), s)"
proof -
  from assms obtain d where
    "valid (pmem s pg (PDX1 la))" "pa2page (pte_ppn (pmem s pg (PDX1 la))) s = Some d"
    "valid (pmem s d (PDX0 la))" "pa2page (pte_ppn (pmem s d (PDX0 la))) s = Some t"
    by (auto simp: table_at_def dir_at_def target_def bind_Some_iff split: if_splits)
  then show ?thesis by (simp add: get_pte_def get_table_valid)
qed

text \<open>\<open>pgdir_alloc_page\<close> at an unmapped address whose table exists.\<close>

lemma pgdir_alloc_page_ok:
  assumes inv: "pt_inv s pg F" and t: "table_at s pg (PDX1 la) (PDX0 la) = Some t" and nv: "\<not> valid (pmem s t (PTX la))"
    and refs: "\<forall>p \<in> F. page_ref p s = 0"
  shows "pgdir_alloc_page pg la perm s = Some (None, s) \<or>
    (\<exists>p s'. pgdir_alloc_page pg la perm s = Some (Some p, s') \<and> p \<in> F \<and> pt_inv s' pg (F - {p}) \<and> page_ref p s' = 1
      \<and> npage s' = npage s \<and> (\<forall>q. q \<noteq> p \<longrightarrow> page_ref q s' = page_ref q s)
      \<and> (\<forall>i j k. leaf s' pg i j k = (if (i, j, k) = (PDX1 la, PDX0 la, PTX la)
              then Some (pte_create (page2ppn p) (PTE_V OR perm)) else leaf s pg i j k)))"
proof -
  have fr: "frame_rel (area s) F" using inv by (simp add: pt_inv_def)
  from alloc_page_ok[OF fr] consider (none) "alloc_page s = Some (None, s)"
    | (got) p a where "alloc_page s = Some (Some p, s\<lparr>area := a\<rparr>)" "p \<in> F" "frame_rel a (F - {p})"
       "\<forall>q. ref (pages a q) = ref (pages (area s) q)" by blast
  then show ?thesis
  proof cases
    case none
    then show ?thesis by (simp add: pgdir_alloc_page_def)
  next
    case got
    let ?s1 = "s\<lparr>area := a\<rparr>" and ?w = "pte_create (page2ppn p) (PTE_V OR perm)"
    let ?s2 = "set_entry (t, PTX la) ?w (page_ref_inc p ?s1)"
    have "pt_inv ?s1 pg F'" "table_at ?s1 = table_at s" "leaf ?s1 = leaf s" if "F' = F - {p}" for F'
    proof -
      have fr': "frame_rel (area ?s1) F'" using got(3) that by simp
      show "table_at ?s1 = table_at s" "leaf ?s1 = leaf s"
        using pt_inv_cong(2,3)[of ?s1 s F'] fr' by auto
      show "pt_inv ?s1 pg F'" unfolding that by (rule pt_inv_shrink[OF inv]) (use got(3) in auto)
    qed
    from this[OF refl] have i1: "pt_inv ?s1 pg (F - {p})" "table_at ?s1 pg (PDX1 la) (PDX0 la) = Some t" "leaf ?s1 = leaf s"
      using t by auto
    have "page_insert pg p la perm ?s1 = Some (0, ?s2)"
      using get_pte_existing[OF i1(2), of True] nv by (simp add: page_insert_def page_ref_inc_def)
    moreover have r: "page_ref p ?s2 = 1" using refs got(2,4) by (simp add: page_ref_inc_def) (simp add: page_ref_def)
    ultimately have e: "pgdir_alloc_page pg la perm s = Some (Some p, ?s2)"
      using got(1) by (simp add: pgdir_alloc_page_def)
    have "pmem ?s2 = (pmem ?s1)(t := (pmem ?s1 t)(PTX la := ?w))" "npage ?s2 = npage ?s1" "frame_rel (area ?s2) (F - {p})"
      using got(3) by (auto simp: page_ref_inc_def)
    note w = write_leaf[OF i1(1,2) this]
    have o: "page_ref q ?s2 = page_ref q s" if "q \<noteq> p" for q
      using that got(4) by (simp add: page_ref_inc_def) (simp add: page_ref_def)
    show ?thesis using e got(2) w(1) r o w(2) i1(3)
      by (intro disjI2 exI[of _ p] exI[of _ ?s2]) (simp add: page_ref_inc_def)
  qed
qed

section \<open>Properties\<close>


text \<open>An empty address space: the root table in frame 100, frames 0 to 5 free.\<close>

definition empty_space :: pt_state where
  "empty_space = \<lparr>area = area6, pmem = (\<lambda>_ _. 0), npage = 0x80000 + 200\<rparr>"

lemma empty_space_inv: "pt_inv empty_space 100 {0..<6}" "mapping empty_space 100 la = None"
proof -
  have fr: "frame_rel area6 {0..<6}" using area6_rel by simp
  have d: "dir_at empty_space 100 i = None" for i by (simp add: dir_at_def target_def empty_space_def)
  then have t: "table_at empty_space 100 i j = None" for i j by (simp add: table_at_def)
  show "mapping empty_space 100 la = None" by (simp add: mapping_def leaf_def t)
  show "pt_inv empty_space 100 {0..<6}"
    by (rule pt_invI) (use fr d t in \<open>auto simp: empty_space_def page2ppn_def\<close>)
qed


end
