(* ===== verification/Kmalloc.thy ===== *)
theory Kmalloc
  imports Page_Table "HOL-Library.Code_Target_Nat"
begin

text \<open>
  The object allocator \<open>kern/mm/kmalloc.c\<close>: the SLOB heap, a circular list of free blocks in the order
  of their addresses, and \<open>kmalloc\<close> and \<open>kfree\<close> above it.  Memory is counted in units of
  \<open>sizeof(slob_t)\<close>, 16 bytes; a pointer of type \<open>slob_t *\<close> is the number of a unit, so that pointer sums
  and comparisons are sums and comparisons of numbers, and every unit can hold a header.  The
  objects of type \<open>bigblock_t\<close> are kept beside the headers: they lie in allocated blocks.
\<close>

section \<open>State\<close>

record slob_block =
  units :: int
  snext :: nat

record bigblock =
  bb_order :: nat
  bb_pages :: nat
  bb_next :: "nat option"

record kheap =
  slobs :: "nat \<Rightarrow> slob_block"
  slobfree :: nat
  bbs :: "nat \<Rightarrow> bigblock"
  bigblocks :: "nat option"
  kpt :: pt_state

abbreviation (input) SLOB_UNIT :: nat where "SLOB_UNIT \<equiv> 16"
abbreviation (input) PAGE_SIZE :: nat where "PAGE_SIZE \<equiv> 4096"
abbreviation (input) page_units :: nat where "page_units \<equiv> 256"
abbreviation (input) sizeof_bigblock :: nat where "sizeof_bigblock \<equiv> 24"

definition SLOB_UNITS :: "nat \<Rightarrow> nat" where
  "SLOB_UNITS n = (n + SLOB_UNIT - 1) div SLOB_UNIT"

definition upd_slob :: "nat \<Rightarrow> (slob_block \<Rightarrow> slob_block) \<Rightarrow> kheap \<Rightarrow> kheap" where
  "upd_slob b f s = s\<lparr>slobs := (slobs s)(b := f (slobs s b))\<rparr>"

section \<open>Pages\<close>

definition slob_get_free_pages :: "nat \<Rightarrow> kheap \<Rightarrow> (nat option \<times> kheap) option" where
  "slob_get_free_pages order s = do {
     (r, a) \<leftarrow> default_alloc_pages (2 ^ order) (area (kpt s));
     let s1 = s\<lparr>kpt := (kpt s)\<lparr>area := a\<rparr>\<rparr>;
     (case r of
        None \<Rightarrow> Some (None, s1)
      | Some page \<Rightarrow> do { kva \<leftarrow> page2kva page (kpt s1); Some (Some kva, s1) }) }"

definition slob_free_pages :: "nat \<Rightarrow> nat \<Rightarrow> kheap \<Rightarrow> kheap option" where
  "slob_free_pages kva order s = do {
     page \<leftarrow> kva2page kva (kpt s);
     a \<leftarrow> default_free_pages page (2 ^ order) (area (kpt s));
     Some (s\<lparr>kpt := (kpt s)\<lparr>area := a\<rparr>\<rparr>) }"

section \<open>The SLOB heap\<close>

text \<open>\<open>slob_free\<close>: the search for the place of the block, and the insertion behind \<open>cur\<close>.  The null
  pointer is unit 0.\<close>

partial_function (option) slob_place :: "nat \<Rightarrow> nat \<Rightarrow> kheap \<Rightarrow> nat option" where
  "slob_place b cur s =
     (let n = snext (slobs s cur) in
      if b > cur \<and> b < n then Some cur
      else if cur \<ge> n \<and> (b > cur \<or> b < n) then Some cur
      else slob_place b n s)"

declare slob_place.simps [code]

definition slob_free :: "nat \<Rightarrow> nat \<Rightarrow> kheap \<Rightarrow> kheap option" where
  "slob_free b n s =
     (if b = 0 then Some s
      else do {
        let s1 = (if n \<noteq> 0 then upd_slob b (units_update (\<lambda>_. int (SLOB_UNITS n))) s else s);
        cur \<leftarrow> slob_place b (slobfree s1) s1;
        let nx = snext (slobs s1 cur);
        let s2 = (if int b + units (slobs s1 b) = int nx
                  then upd_slob b (\<lambda>h. h\<lparr>units := units h + units (slobs s1 nx), snext := snext (slobs s1 nx)\<rparr>) s1
                  else upd_slob b (snext_update (\<lambda>_. nx)) s1);
        let s3 = (if int cur + units (slobs s2 cur) = int b
                  then upd_slob cur (\<lambda>h. h\<lparr>units := units h + units (slobs s2 b), snext := snext (slobs s2 b)\<rparr>) s2
                  else upd_slob cur (snext_update (\<lambda>_. b)) s2);
        Some (s3\<lparr>slobfree := cur\<rparr>) })"

text \<open>\<open>ALIGN\<close> of an address in bytes, for an alignment that is a power of two.\<close>

definition ALIGN :: "nat \<Rightarrow> nat \<Rightarrow> nat" where
  "ALIGN addr n = (addr + n - 1) div n * n"

text \<open>\<open>slob_alloc\<close>: taking \<open>u\<close> units out of the block \<open>cur\<close> behind \<open>prev\<close>, the first \<open>delta\<close> of which are
  split off before; then the loop.\<close>

definition slob_take :: "nat \<Rightarrow> nat \<Rightarrow> nat \<Rightarrow> nat \<Rightarrow> kheap \<Rightarrow> nat \<times> kheap" where
  "slob_take u delta prev0 cur0 s0 =
     (let aligned = cur0 + delta;
          (prev, cur, s) = (if delta \<noteq> 0
            then (cur0, aligned,
              upd_slob cur0 (\<lambda>h. h\<lparr>snext := aligned, units := int delta\<rparr>)
                (upd_slob aligned (\<lambda>_. \<lparr>units = units (slobs s0 cur0) - int delta, snext = snext (slobs s0 cur0)\<rparr>) s0))
            else (prev0, cur0, s0));
          s1 = (if units (slobs s cur) = int u
                then upd_slob prev (snext_update (\<lambda>_. snext (slobs s cur))) s
                else let rest = cur + u;
                         sa = upd_slob prev (snext_update (\<lambda>_. rest)) s;
                         sb = upd_slob rest (units_update (\<lambda>_. units (slobs sa cur) - int u)) sa;
                         sc = upd_slob rest (snext_update (\<lambda>_. snext (slobs sb cur))) sb
                     in upd_slob cur (units_update (\<lambda>_. int u)) sc)
      in (cur, s1\<lparr>slobfree := prev\<rparr>))"

partial_function (option) slob_loop :: "nat \<Rightarrow> nat \<Rightarrow> nat \<Rightarrow> nat \<Rightarrow> nat \<Rightarrow> kheap \<Rightarrow> (nat option \<times> kheap) option" where
  "slob_loop n u align prev cur s =
     (let delta = (if align \<noteq> 0 then (ALIGN (cur * SLOB_UNIT) align - cur * SLOB_UNIT) div SLOB_UNIT else 0) in
      if units (slobs s cur) \<ge> int (u + delta)
      then let (b, s1) = slob_take u delta prev cur s in Some (Some b, s1)
      else if cur = slobfree s
      then if n = PAGE_SIZE then Some (None, s)
        else do {
          (r, s1) \<leftarrow> slob_get_free_pages 0 s;
          (case r of
             None \<Rightarrow> Some (None, s1)
           | Some kva \<Rightarrow> do {
               s2 \<leftarrow> slob_free (kva div SLOB_UNIT) PAGE_SIZE s1;
               slob_loop n u align (slobfree s2) (snext (slobs s2 (slobfree s2))) s2 }) }
      else slob_loop n u align cur (snext (slobs s cur)) s)"

declare slob_loop.simps [code]

definition slob_alloc :: "nat \<Rightarrow> nat \<Rightarrow> kheap \<Rightarrow> (nat option \<times> kheap) option" where
  "slob_alloc n align s = do {
     kassert (n + SLOB_UNIT < PAGE_SIZE);
     slob_loop n (SLOB_UNITS n) align (slobfree s) (snext (slobs s (slobfree s))) s }"

section \<open>Objects\<close>

function find_order :: "nat \<Rightarrow> nat" where
  "find_order n = (if n > 4096 then find_order (n div 2) + 1 else 0)"
  by auto
termination by (relation "measure id") auto

declare find_order.simps [simp del]

text \<open>A byte address is returned; the null pointer is \<open>None\<close>.\<close>

definition kmalloc :: "nat \<Rightarrow> kheap \<Rightarrow> (nat option \<times> kheap) option" where
  "kmalloc n s =
     (if n < PAGE_SIZE - SLOB_UNIT
      then do {
        (m, s1) \<leftarrow> slob_alloc (n + SLOB_UNIT) 0 s;
        Some (map_option (\<lambda>b. (b + 1) * SLOB_UNIT) m, s1) }
      else do {
        (r, s1) \<leftarrow> slob_alloc sizeof_bigblock 0 s;
        (case r of
           None \<Rightarrow> Some (None, s1)
         | Some bb \<Rightarrow> do {
             let order = find_order n;
             (p, s2) \<leftarrow> slob_get_free_pages order s1;
             (case p of
                Some kva \<Rightarrow> Some (Some kva,
                  s2\<lparr>bbs := (bbs s2)(bb := \<lparr>bb_order = order, bb_pages = kva, bb_next = bigblocks s2\<rparr>), bigblocks := Some bb\<rparr>)
              | None \<Rightarrow> do { s3 \<leftarrow> slob_free bb sizeof_bigblock s2; Some (None, s3) }) }) })"

text \<open>The search of \<open>kfree\<close> for the entry of a large object; \<open>last\<close> is the entry whose pointer leads to
  it, or none for the head of the list.\<close>

partial_function (option) find_big :: "nat \<Rightarrow> nat option \<Rightarrow> nat option \<Rightarrow> kheap \<Rightarrow> (nat option \<times> nat) option option" where
  "find_big block prev cur s =
     (case cur of
        None \<Rightarrow> Some None
      | Some bb \<Rightarrow>
          if bb_pages (bbs s bb) = block then Some (Some (prev, bb))
          else find_big block (Some bb) (bb_next (bbs s bb)) s)"

declare find_big.simps [code]

definition kfree :: "nat \<Rightarrow> kheap \<Rightarrow> kheap option" where
  "kfree block s =
     (if block = 0 then Some s
      else do {
        r \<leftarrow> (if block mod PAGE_SIZE = 0 then find_big block None (bigblocks s) s else Some None);
        (case r of
           Some (prev, bb) \<Rightarrow> do {
             let n = bb_next (bbs s bb);
             let s1 = (case prev of
                         None \<Rightarrow> s\<lparr>bigblocks := n\<rparr>
                       | Some q \<Rightarrow> s\<lparr>bbs := (bbs s)(q := (bbs s q)\<lparr>bb_next := n\<rparr>)\<rparr>);
             s2 \<leftarrow> slob_free_pages block (bb_order (bbs s1 bb)) s1;
             slob_free bb sizeof_bigblock s2 }
         | None \<Rightarrow> slob_free (block div SLOB_UNIT - 1) 0 s) })"

definition ksize :: "nat \<Rightarrow> kheap \<Rightarrow> nat option" where
  "ksize block s =
     (if block = 0 then Some 0
      else do {
        r \<leftarrow> (if block mod PAGE_SIZE = 0 then find_big block None (bigblocks s) s else Some None);
        (case r of
           Some (_, bb) \<Rightarrow> Some (PAGE_SIZE * 2 ^ bb_order (bbs s bb))
         | None \<Rightarrow> Some (nat (units (slobs s (block div SLOB_UNIT - 1)) * int SLOB_UNIT))) })"


section \<open>Rings\<close>

text \<open>The successor in a finite set of addresses, with the least after the greatest.\<close>

definition is_succ :: "nat set \<Rightarrow> nat \<Rightarrow> nat \<Rightarrow> bool" where
  "is_succ S x y \<longleftrightarrow> y \<in> S \<and> (x < y \<and> (\<forall>z \<in> S. z \<le> x \<or> y \<le> z) \<or> y \<le> x \<and> (\<forall>z \<in> S. y \<le> z \<and> z \<le> x))"

definition ring :: "nat set \<Rightarrow> (nat \<Rightarrow> nat) \<Rightarrow> bool" where
  "ring S nx \<longleftrightarrow> finite S \<and> (\<forall>x \<in> S. is_succ S x (nx x))"

lemma is_succ_unique: "x \<in> S \<Longrightarrow> is_succ S x y \<Longrightarrow> is_succ S x z \<Longrightarrow> y = z"
  unfolding is_succ_def by (metis le_antisym leD)

lemma ring_in: "ring S nx \<Longrightarrow> x \<in> S \<Longrightarrow> nx x \<in> S" by (auto simp: ring_def is_succ_def)

text \<open>\<open>between x b y\<close>: \<open>b\<close> belongs behind \<open>x\<close> and before its successor \<open>y\<close>.\<close>

definition between :: "nat \<Rightarrow> nat \<Rightarrow> nat \<Rightarrow> bool" where
  "between x b y \<longleftrightarrow> x < b \<and> b < y \<or> y \<le> x \<and> (x < b \<or> b < y)"

lemma is_succ_cases:
  assumes "is_succ S x y" "c \<in> S"
  shows "y \<in> S \<and> (x < y \<and> (c \<le> x \<or> y \<le> c) \<or> y \<le> x \<and> y \<le> c \<and> c \<le> x)"
  using assms by (auto simp: is_succ_def)

lemma is_succI:
  assumes "y \<in> S" "\<And>z. z \<in> S \<Longrightarrow> x < y \<and> (z \<le> x \<or> y \<le> z) \<or> y \<le> x \<and> y \<le> z \<and> z \<le> x"
  shows "is_succ S x y"
  using assms unfolding is_succ_def by (metis not_le)

lemma ring_insert:
  assumes "ring S nx" "c \<in> S" "between c b (nx c)" "b \<notin> S"
  shows "ring (insert b S) (nx(b := nx c, c := b))"
proof -
  have s: "is_succ S x (nx x)" if "x \<in> S" for x using assms(1) that by (simp add: ring_def)
  have n: "nx c \<in> S" using s[OF assms(2)] by (simp add: is_succ_def)
  have neq: "b \<noteq> c" "b \<noteq> nx c" using assms(2,4) n by auto
  have 1: "is_succ (insert b S) b (nx c)"
  proof (rule is_succI)
    fix z assume "z \<in> insert b S"
    then show "b < nx c \<and> (z \<le> b \<or> nx c \<le> z) \<or> nx c \<le> b \<and> nx c \<le> z \<and> z \<le> b"
      using is_succ_cases[OF s[OF assms(2)], of z] assms(3) neq unfolding between_def by auto
  qed (use n in simp)
  have 2: "is_succ (insert b S) c b"
  proof (rule is_succI)
    fix z assume "z \<in> insert b S"
    then show "c < b \<and> (z \<le> c \<or> b \<le> z) \<or> b \<le> c \<and> b \<le> z \<and> z \<le> c"
      using is_succ_cases[OF s[OF assms(2)], of z] assms(3) neq unfolding between_def by auto
  qed simp
  have "is_succ (insert b S) x (nx x)" if x: "x \<in> S" "x \<noteq> c" for x
  proof (rule is_succI)
    fix z assume z: "z \<in> insert b S"
    show "x < nx x \<and> (z \<le> x \<or> nx x \<le> z) \<or> nx x \<le> x \<and> nx x \<le> z \<and> z \<le> x"
    proof (cases "z \<in> S")
      case False
      then have "z = b" using z by simp
      then show ?thesis
        using is_succ_cases[OF s[OF x(1)] assms(2), THEN conjunct2] is_succ_cases[OF s[OF assms(2)] x(1), THEN conjunct2]
          is_succ_cases[OF s[OF x(1)] n, THEN conjunct2]
          is_succ_cases[OF s[OF assms(2)] ring_in[OF assms(1) x(1)], THEN conjunct2] assms(3) x(2)
        unfolding between_def by arith
    qed (use is_succ_cases[OF s[OF x(1)]] in blast)
  qed (use ring_in[OF assms(1) x(1)] in simp)
  with 1 2 show ?thesis using assms by (auto simp: ring_def)
qed

lemma ring_remove:
  assumes "ring S nx" "p \<in> S" "nx p = c" "p \<noteq> c"
  shows "ring (S - {c}) (nx(p := nx c))"
proof -
  have s: "is_succ S x (nx x)" if "x \<in> S" for x using assms(1) that by (simp add: ring_def)
  have c: "c \<in> S" using ring_in[OF assms(1,2)] assms(3) by simp
  have neq: "nx c \<noteq> c" using is_succ_cases[OF s[OF c] assms(2)] assms(4) by auto
  have 1: "is_succ (S - {c}) p (nx c)"
  proof (rule is_succI)
    fix z assume "z \<in> S - {c}"
    then show "p < nx c \<and> (z \<le> p \<or> nx c \<le> z) \<or> nx c \<le> p \<and> nx c \<le> z \<and> z \<le> p"
      using is_succ_cases[OF s[OF assms(2)], of z] is_succ_cases[OF s[OF c], of z] is_succ_cases[OF s[OF c] assms(2)]
        is_succ_cases[OF s[OF assms(2)] ring_in[OF assms(1) c]] assms(3,4) by auto
  qed (use ring_in[OF assms(1) c] neq in simp)
  have "is_succ (S - {c}) x (nx x)" if x: "x \<in> S" "x \<noteq> c" "x \<noteq> p" for x
  proof (rule is_succI)
    have "nx x \<noteq> c"
      using is_succ_cases[OF s[OF x(1)] assms(2), THEN conjunct2] is_succ_cases[OF s[OF assms(2)] x(1), THEN conjunct2]
        assms(3,4) x(3) by arith
    then show "nx x \<in> S - {c}" using ring_in[OF assms(1) x(1)] by simp
  qed (use is_succ_cases[OF s[OF x(1)]] in blast)
  with 1 show ?thesis using assms by (auto simp: ring_def)
qed

lemma ring_place:
  assumes "ring S nx" "S \<noteq> {}" "b \<notin> S"
  shows "\<exists>c \<in> S. between c b (nx c)"
proof (cases "\<exists>x \<in> S. x < b")
  case True
  let ?c = "Max {x \<in> S. x < b}"
  have f: "finite {x \<in> S. x < b}" "{x \<in> S. x < b} \<noteq> {}" using assms(1) True by (auto simp: ring_def)
  have c: "?c \<in> S" "?c < b" using Max_in[OF f] by auto
  have m: "x \<le> ?c" if "x \<in> S" "x < b" for x using Max_ge[OF f(1)] that by auto
  have "is_succ S ?c (nx ?c)" using assms(1) c by (simp add: ring_def)
  then have "between ?c b (nx ?c)" using c m assms(3) unfolding is_succ_def between_def
    by (metis le_less_linear linorder_neqE_nat not_less)
  with c show ?thesis by blast
next
  case False
  let ?c = "Max S"
  have f: "finite S" using assms(1) by (simp add: ring_def)
  have c: "?c \<in> S" "\<And>x. x \<in> S \<Longrightarrow> x \<le> ?c" using Max_in[OF f assms(2)] Max_ge[OF f] by auto
  have "is_succ S ?c (nx ?c)" using assms(1) c by (simp add: ring_def)
  then have "between ?c b (nx ?c)" using c False assms(3) unfolding is_succ_def between_def
    by (metis le_neq_implies_less not_less)
  with c show ?thesis by blast
qed


lemma ring_up:
  assumes "ring S nx" "x \<in> S" "y \<in> S" "x \<le> y"
  shows "\<exists>k. (nx ^^ k) x = y"
  using assms
proof (induction "card {z \<in> S. x < z \<and> z \<le> y}" arbitrary: x rule: less_induct)
  case less
  show ?case
  proof (cases "x = y")
    case True
    then show ?thesis by (intro exI[of _ 0]) simp
  next
    case False
    then have n: "x < nx x" "nx x \<le> y" "nx x \<in> S"
      using is_succ_cases[of S x "nx x" y] less.prems by (auto simp: ring_def)
    have "{z \<in> S. nx x < z \<and> z \<le> y} \<subset> {z \<in> S. x < z \<and> z \<le> y}" using n by auto
    moreover have "finite {z \<in> S. x < z \<and> z \<le> y}" using less.prems(1) by (simp add: ring_def)
    ultimately have "card {z \<in> S. nx x < z \<and> z \<le> y} < card {z \<in> S. x < z \<and> z \<le> y}" by (simp add: psubset_card_mono)
    from less.hyps[OF this less.prems(1) n(3) less.prems(3) n(2)] obtain k where "(nx ^^ k) (nx x) = y" by blast
    then show ?thesis by (intro exI[of _ "Suc k"]) (simp add: funpow_swap1)
  qed
qed

lemma ring_reach:
  assumes "ring S nx" "x \<in> S" "y \<in> S"
  shows "\<exists>k. (nx ^^ k) x = y"
proof -
  have f: "finite S" "S \<noteq> {}" using assms by (auto simp: ring_def)
  from ring_up[OF assms(1,2) Max_in[OF f] Max_ge[OF f(1) assms(2)]] obtain k where k: "(nx ^^ k) x = Max S" by blast
  have "is_succ S (Max S) (nx (Max S))" using assms(1) Max_in[OF f] by (simp add: ring_def)
  then have m: "nx (Max S) \<in> S" "nx (Max S) \<le> y" using Max_ge[OF f(1)] assms(3) by (auto simp: is_succ_def leD)
  from ring_up[OF assms(1) m(1) assms(3) m(2)] obtain j where "(nx ^^ j) (nx (Max S)) = y" by blast
  then have "(nx ^^ (j + Suc k)) x = y" using k by (simp add: funpow_add funpow_swap1)
  then show ?thesis by blast
qed

section \<open>Chains of free blocks\<close>

definition covers :: "nat set \<Rightarrow> (nat \<Rightarrow> nat) \<Rightarrow> nat set" where
  "covers S w = (\<Union>x \<in> S. {x..<x + w x})"

definition chain :: "nat set \<Rightarrow> (nat \<Rightarrow> nat) \<Rightarrow> (nat \<Rightarrow> nat) \<Rightarrow> bool" where
  "chain S nx w \<longleftrightarrow> ring S nx \<and> (\<forall>x \<in> S. 0 < w x) \<and> (\<forall>x \<in> S. \<forall>y \<in> S. x < y \<longrightarrow> x + w x \<le> y)"

lemma covers_insert [simp]: "covers (insert b S) w = {b..<b + w b} \<union> covers S w"
  by (simp add: covers_def)

lemma covers_upd [simp]: "b \<notin> S \<Longrightarrow> covers S (w(b := n)) = covers S w"
  unfolding covers_def by (rule SUP_cong) auto

lemma chain_cong:
  assumes "\<And>x. x \<in> S \<Longrightarrow> nx' x = nx x" "\<And>x. x \<in> S \<Longrightarrow> w' x = w x"
  shows "chain S nx' w' = chain S nx w" "covers S w' = covers S w"
  using assms by (auto simp: chain_def ring_def covers_def)

lemma chain_start: "chain S nx w \<Longrightarrow> x \<in> S \<Longrightarrow> x \<in> covers S w"
  by (auto simp: chain_def covers_def)

lemma chain_insert:
  assumes "chain S nx w" "c \<in> S" "between c b (nx c)" "0 < n" "{b..<b + n} \<inter> covers S w = {}"
  shows "chain (insert b S) (nx(b := nx c, c := b)) (w(b := n)) \<and> covers (insert b S) (w(b := n)) = covers S w \<union> {b..<b + n}"
proof -
  have b: "b \<notin> S" using assms(5) chain_start[OF assms(1)] assms(4) by fastforce
  have up: "b + n \<le> y" if "y \<in> S" "b < y" for y
  proof (rule ccontr)
    assume "\<not> b + n \<le> y"
    then have "y \<in> {b..<b + n}" using that(2) by simp
    then show False using chain_start[OF assms(1) that(1)] assms(5) by blast
  qed
  have down: "x + w x \<le> b" if "x \<in> S" "x < b" for x
  proof (rule ccontr)
    assume "\<not> x + w x \<le> b"
    then have "b \<in> {x..<x + w x}" using that(2) by simp
    then have "b \<in> covers S w" using that(1) unfolding covers_def by blast
    then show False using assms(4,5) by fastforce
  qed
  have "chain (insert b S) (nx(b := nx c, c := b)) (w(b := n))"
    using ring_insert[of S nx c b] assms(1-4) up down b unfolding chain_def by auto
  moreover have "covers (insert b S) (w(b := n)) = covers S w \<union> {b..<b + n}" using b by (simp add: Un_commute)
  ultimately show ?thesis ..
qed

lemma chain_remove:
  assumes "chain S nx w" "p \<in> S" "nx p = c" "p \<noteq> c"
  shows "chain (S - {c}) (nx(p := nx c)) w \<and> covers (S - {c}) w = covers S w - {c..<c + w c} \<and> {c..<c + w c} \<subseteq> covers S w"
proof -
  have c: "c \<in> S" using assms ring_in unfolding chain_def by blast
  have "{x..<x + w x} \<inter> {c..<c + w c} = {}" if "x \<in> S" "x \<noteq> c" for x
    using assms(1) c that unfolding chain_def by (cases "x < c") (fastforce simp: not_less)+
  then have "covers (S - {c}) w = covers S w - {c..<c + w c}" unfolding covers_def by blast
  moreover have "chain (S - {c}) (nx(p := nx c)) w" using ring_remove[of S nx p c] assms unfolding chain_def by auto
  moreover have "{c..<c + w c} \<subseteq> covers S w" using c by (auto simp: covers_def)
  ultimately show ?thesis by blast
qed

lemma chain_merge:
  assumes "chain S nx w" "p \<in> S" "nx p = q" "p + w p = q"
  shows "chain (S - {q}) (nx(p := nx q)) (w(p := w p + w q)) \<and> covers (S - {q}) (w(p := w p + w q)) = covers S w"
proof -
  have q: "q \<in> S" "p < q" using assms ring_in unfolding chain_def by (blast, auto)
  have r: "chain (S - {q}) (nx(p := nx q)) w" "covers (S - {q}) w = covers S w - {q..<q + w q}"
    using chain_remove[OF assms(1-3)] q(2) by auto
  have "p + (w p + w q) \<le> y" if "y \<in> S" "y \<noteq> q" "p < y" for y
  proof -
    have "q \<le> y" using assms(1,2,4) that unfolding chain_def by auto
    then have "q + w q \<le> y" using assms(1) q(1) that unfolding chain_def by auto
    then show ?thesis using assms(4) by simp
  qed
  then have "chain (S - {q}) (nx(p := nx q)) (w(p := w p + w q))"
    using r(1) assms(1) unfolding chain_def by auto
  moreover have "covers (S - {q}) (w(p := w p + w q)) = covers S w"
  proof -
    have "{p..<p + (w p + w q)} = {p..<p + w p} \<union> {q..<q + w q}" using assms(4) q(2) by auto
    moreover have "covers (S - {q}) v = covers (S - {q} - {p}) v \<union> {p..<p + v p}" for v
      using assms(2) q(2) unfolding covers_def by blast
    moreover have "covers (S - {q} - {p}) (w(p := w p + w q)) = covers (S - {q} - {p}) w" by (simp add: covers_def)
    ultimately have "covers (S - {q}) (w(p := w p + w q)) = covers (S - {q}) w \<union> {q..<q + w q}" by auto
    then show ?thesis using q(1) unfolding r(2) by (auto simp: covers_def)
  qed
  ultimately show ?thesis ..
qed

lemma chain_split:
  assumes "chain S nx w" "p \<in> S" "nx p = c" "p \<noteq> c" "0 < u" "u < w c"
  shows "chain (insert (c + u) (S - {c})) (nx(p := c + u, c + u := nx c)) (w(c + u := w c - u))
    \<and> covers (insert (c + u) (S - {c})) (w(c + u := w c - u)) = covers S w - {c..<c + u}"
proof -
  have r: "ring S nx" using assms(1) by (simp add: chain_def)
  have c: "c \<in> S" using ring_in[OF r assms(2)] assms(3) by simp
  let ?nx = "nx(p := nx c)"
  note R = chain_remove[OF assms(1-4)]
  have "between p (c + u) (?nx p)"
  proof -
    have gap: "y \<le> c \<or> c + w c \<le> y" if "y \<in> S" for y using assms(1) c that unfolding chain_def by (cases "c < y") auto
    have s: "is_succ S p c" "is_succ S c (nx c)" using r assms(2,3) c by (auto simp: ring_def)
    show ?thesis
      using is_succ_cases[OF s(1) assms(2), THEN conjunct2] is_succ_cases[OF s(1) ring_in[OF r c], THEN conjunct2]
        is_succ_cases[OF s(2) assms(2), THEN conjunct2] gap[OF assms(2)] gap[OF ring_in[OF r c]] assms(4-6)
      unfolding between_def fun_upd_same by arith
  qed
  moreover have "{c + u..<c + u + (w c - u)} \<inter> covers (S - {c}) w = {}" using R by auto
  ultimately have *: "chain (insert (c + u) (S - {c})) (?nx(c + u := ?nx p, p := c + u)) (w(c + u := w c - u))"
    "covers (insert (c + u) (S - {c})) (w(c + u := w c - u)) = covers (S - {c}) w \<union> {c + u..<c + u + (w c - u)}"
    using chain_insert[of "S - {c}" ?nx w p "c + u" "w c - u"] R assms(2,4,6) by auto
  have "c + u \<noteq> p" using assms(1,2,4-6) c unfolding chain_def by (cases "c < p") (fastforce, auto)
  then have "?nx(c + u := ?nx p, p := c + u) = nx(p := c + u, c + u := nx c)" by (auto simp: fun_eq_iff)
  moreover have "covers (S - {c}) w \<union> {c + u..<c + u + (w c - u)} = covers S w - {c..<c + u}"
    using R assms(6) by auto
  ultimately show ?thesis using * by simp
qed


section \<open>The SLOB heap\<close>

text \<open>\<open>A\<close> is the unit of the static block \<open>arena\<close>, which never leaves the list; \<open>U\<close> are the units of all
  blocks of the list.  The neighbours of \<open>arena\<close> belong to no block.\<close>

definition nexts :: "kheap \<Rightarrow> nat \<Rightarrow> nat" where "nexts s x = snext (slobs s x)"
definition width :: "kheap \<Rightarrow> nat \<Rightarrow> nat" where "width s x = nat (units (slobs s x))"

definition fence :: "nat \<Rightarrow> nat set" where
  "fence A = {0, A - 1, A + 1}"

definition slob_rel :: "nat \<Rightarrow> nat set \<Rightarrow> kheap \<Rightarrow> bool" where
  "slob_rel A S s \<longleftrightarrow> chain S (nexts s) (width s) \<and> A \<in> S \<and> 0 < A \<and> width s A = 1 \<and> slobfree s \<in> S
     \<and> covers S (width s) \<inter> fence A = {}"

lemma slob_place_ok:
  assumes "chain S (nexts s) (width s)" "cur \<in> S" "b \<notin> S"
  shows "\<exists>c \<in> S. slob_place b cur s = Some c \<and> between c b (nexts s c)"
proof -
  have r: "ring S (nexts s)" using assms(1) by (simp add: chain_def)
  have found: "slob_place b c s = Some c" if "between c b (nexts s c)" for c
    using that by (subst slob_place.simps) (auto simp: between_def Let_def nexts_def)
  from ring_place[OF r _ assms(3)] assms(2) obtain t where t: "t \<in> S" "between t b (nexts s t)" by auto
  from ring_reach[OF r assms(2) t(1)] obtain k where "(nexts s ^^ k) cur = t" by blast
  then show ?thesis using assms(2)
  proof (induction k arbitrary: cur)
    case 0
    then show ?case using t found by auto
  next
    case (Suc k)
    show ?case
    proof (cases "between cur b (nexts s cur)")
      case True
      then show ?thesis using Suc.prems found by blast
    next
      case False
      then have "slob_place b cur s = slob_place b (nexts s cur) s"
        by (subst slob_place.simps) (auto simp: between_def Let_def nexts_def)
      then show ?thesis using Suc.IH[of "nexts s cur"] Suc.prems ring_in[OF r]
        by (simp add: funpow_Suc_right del: funpow.simps)
    qed
  qed
qed

text \<open>Whether a block of \<open>n\<close> units is found at \<open>slobfree\<close> or directly behind it.\<close>

definition near :: "nat \<Rightarrow> kheap \<Rightarrow> bool" where
  "near n s \<longleftrightarrow> n \<le> width s (slobfree s) \<or> n \<le> width s (nexts s (slobfree s))"

definition kframe :: "nat set \<Rightarrow> kheap \<Rightarrow> kheap \<Rightarrow> bool" where
  "kframe X s s' \<longleftrightarrow> (\<forall>x. x \<notin> X \<longrightarrow> slobs s' x = slobs s x) \<and> bbs s' = bbs s \<and> bigblocks s' = bigblocks s"

lemma slob_free_ok:
  assumes r: "slob_rel A S s" and u: "u = (if n \<noteq> 0 then SLOB_UNITS n else width s b)" "0 < u"
    and b: "{b..<b + u} \<inter> (covers S (width s) \<union> fence A) = {}"
  shows "\<exists>s' S'. slob_free b n s = Some s' \<and> slob_rel A S' s' \<and> covers S' (width s') = covers S (width s) \<union> {b..<b + u}
    \<and> kframe (covers S (width s) \<union> {b..<b + u}) s s' \<and> kpt s' = kpt s \<and> near u s'"
proof -
  define s1 where "s1 = (if n \<noteq> 0 then upd_slob b (units_update (\<lambda>_. int (SLOB_UNITS n))) s else s)"
  have ch: "chain S (nexts s) (width s)" and A: "A \<in> S" "0 < A" "width s A = 1" "slobfree s \<in> S"
    and fe: "covers S (width s) \<inter> fence A = {}" using r by (auto simp: slob_rel_def)
  have dis: "{b..<b + u} \<inter> covers S (width s) = {}" "{b..<b + u} \<inter> fence A = {}" using b by auto
  have "b \<in> {b..<b + u}" using u(2) by simp
  then have bb: "b \<notin> covers S (width s)" "b \<notin> fence A" using dis by blast+
  then have bS: "b \<notin> S" using chain_start[OF ch] by blast
  have "A \<noteq> b + u"
  proof
    assume "A = b + u"
    then have "A - 1 \<in> {b..<b + u}" using u(2) by auto
    then show False using dis(2) unfolding fence_def by blast
  qed
  with bb(2) have far: "A \<noteq> b + u" "b \<noteq> A + 1" "b \<noteq> 0" by (auto simp: fence_def)
  have w1: "width s1 = (width s)(b := u)" "nexts s1 = nexts s" "slobfree s1 = slobfree s" "kpt s1 = kpt s"
    "kframe {b} s s1" "units (slobs s1 b) = int u"
    using u by (auto simp: s1_def upd_slob_def fun_eq_iff kframe_def nexts_def width_def split: if_splits)
  have ch1: "chain S (nexts s1) (width s1)" "covers S (width s1) = covers S (width s)"
  proof -
    have "((width s)(b := u)) x = width s x" if "x \<in> S" for x using that bS by auto
    then show "chain S (nexts s1) (width s1)" unfolding w1(1,2) using ch chain_cong(1)[OF refl] by blast
    show "covers S (width s1) = covers S (width s)" unfolding w1(1) using bS by simp
  qed
  from slob_place_ok[OF ch1(1) A(4) bS] obtain c where
    c: "c \<in> S" "slob_place b (slobfree s1) s1 = Some c" "between c b (nexts s1 c)" unfolding w1(3) by blast
  define q where "q = nexts s1 c"
  have q: "q \<in> S" "q \<noteq> b" "c \<noteq> b" using ring_in ch1(1) c(1) bS unfolding q_def chain_def by (blast, metis, blast)
  have qc: "q \<noteq> c" if "b + u = q"
  proof
    assume "q = c"
    then have "is_succ S c c" using ch1(1) c(1) unfolding q_def chain_def ring_def by auto
    then have "A = c" using A(1) by (auto simp: is_succ_def)
    then show False using far(1) that \<open>q = c\<close> by simp
  qed
  define nx2 w2 where "nx2 = (nexts s1)(b := q, c := b)" and "w2 = (width s1)(b := u)"
  have i: "chain (insert b S) nx2 w2" "covers (insert b S) w2 = covers S (width s) \<union> {b..<b + u}"
    using chain_insert[OF ch1(1) c(1,3) u(2)] dis(1) unfolding ch1(2) nx2_def w2_def q_def by simp_all
  have pos: "units (slobs s1 x) = int (width s1 x)" if "x \<in> insert b S" for x
    using ch1(1) that w1(6) by (auto simp: chain_def width_def)
  define s2 where "s2 = (if int b + units (slobs s1 b) = int q
      then upd_slob b (\<lambda>h. h\<lparr>units := units h + units (slobs s1 q), snext := snext (slobs s1 q)\<rparr>) s1
      else upd_slob b (snext_update (\<lambda>_. q)) s1)"
  define s3 where "s3 = (if int c + units (slobs s2 c) = int b
      then upd_slob c (\<lambda>h. h\<lparr>units := units h + units (slobs s2 b), snext := snext (slobs s2 b)\<rparr>) s2
      else upd_slob c (snext_update (\<lambda>_. b)) s2)"
  have run: "slob_free b n s = Some (s3\<lparr>slobfree := c\<rparr>)"
    unfolding slob_free_def Let_def s1_def[symmetric] using far(3) c(2)
    by (simp only: s3_def s2_def q_def nexts_def if_False bind.bind_lunit simp_thms)
  define m1 m2 where "m1 \<longleftrightarrow> b + u = q" and "m2 \<longleftrightarrow> c + width s1 c = b"
  have w1b: "width s1 b = u" "w2 = width s1" by (simp_all add: w1(1) w2_def)
  have c1: "int b + units (slobs s1 b) = int q \<longleftrightarrow> m1" unfolding w1(6) m1_def by auto
  have s2c: "slobs s2 c = slobs s1 c" using q(3) by (simp add: s2_def upd_slob_def)
  have c2: "int c + units (slobs s2 c) = int b \<longleftrightarrow> m2" unfolding s2c pos[OF insertI2, OF c(1)] m2_def by auto
  obtain wq wc where wq: "units (slobs s1 q) = int wq" "width s1 q = wq" and wc: "units (slobs s1 c) = int wc" "width s1 c = wc"
    using pos[OF insertI2, OF q(1)] pos[OF insertI2, OF c(1)] by blast
  have n2: "nexts s2 = (nexts s1)(b := (if m1 then nexts s1 q else q))" "width s2 = (width s1)(b := (if m1 then u + width s1 q else u))"
    "units (slobs s2 b) = int (width s2 b)"
    using w1(6) wq wc
    by (auto simp: s2_def[unfolded c1] upd_slob_def fun_eq_iff nexts_def width_def nat_int_add)
  obtain wb where w2b: "units (slobs s2 b) = int wb" "width s2 b = wb" using n2(3) by blast
  have n3: "nexts s3 = (nexts s2)(c := (if m2 then nexts s2 b else b))"
    "width s3 = (width s2)(c := (if m2 then width s1 c + width s2 b else width s2 c))"
    using w2b s2c wc
    by (auto simp: s3_def[unfolded c2] upd_slob_def fun_eq_iff nexts_def width_def nat_int_add)
  have qm: "m1 \<Longrightarrow> q \<noteq> c \<and> q \<noteq> A" using qc far(1) by (auto simp: m1_def)
  have cm: "m2 \<Longrightarrow> c \<noteq> A" using far(2) w1(1) A(3) bS A(1) by (auto simp: m2_def split: if_splits)
  define S' where "S' = insert b S - (if m1 then {q} else {}) - (if m2 then {b} else {})"
  have "chain S' (nexts s3) (width s3) \<and> covers S' (width s3) = covers S (width s) \<union> {b..<b + u}"
  proof -
    define nx3 w3 where "nx3 = (if m1 then nx2(b := nx2 q) else nx2)" and "w3 = (if m1 then w2(b := w2 b + w2 q) else w2)"
    define S3 where "S3 = insert b S - (if m1 then {q} else {})"
    have 3: "chain S3 nx3 w3" "covers S3 w3 = covers S (width s) \<union> {b..<b + u}"
      using i chain_merge[OF i(1), of b q] w1b q(3) unfolding nx3_def w3_def S3_def m1_def by (auto simp: nx2_def)
    have "nx3 c = b" "c \<in> S3" "m2 \<Longrightarrow> c + w3 c = b"
      using q(3) c(1) qm w1b(2) by (auto simp: nx3_def nx2_def S3_def w3_def m2_def)
    then have 4: "m2 \<Longrightarrow> chain (S3 - {b}) (nx3(c := nx3 b)) (w3(c := w3 c + w3 b))"
      "m2 \<Longrightarrow> covers (S3 - {b}) (w3(c := w3 c + w3 b)) = covers S (width s) \<union> {b..<b + u}"
      using chain_merge[OF 3(1), of c b] 3(2) by auto
    have e: "nexts s3 = (if m2 then nx3(c := nx3 b) else nx3)" "width s3 = (if m2 then w3(c := w3 c + w3 b) else w3)"
      using q(2,3) qm w1b unfolding n3 n2 by (auto simp: nx3_def nx2_def w3_def fun_eq_iff)
    show ?thesis using 3 4 unfolding e S'_def S3_def[symmetric] by auto
  qed
  moreover have "A \<in> S'" "c \<in> S'" "width s3 A = 1"
    using A(1,3) qm cm c(1) q(3) bS w1(1) unfolding S'_def n3 n2 by auto
  moreover have "(covers S (width s) \<union> {b..<b + u}) \<inter> fence A = {}" using fe dis(2) by blast
  ultimately have "slob_rel A S' (s3\<lparr>slobfree := c\<rparr>)" "covers S' (width (s3\<lparr>slobfree := c\<rparr>)) = covers S (width s) \<union> {b..<b + u}"
    using A(2) unfolding slob_rel_def by (simp_all add: nexts_def[abs_def] width_def[abs_def])
  moreover have "kframe (covers S (width s) \<union> {b..<b + u}) s (s3\<lparr>slobfree := c\<rparr>)"
  proof -
    have "b \<in> {b..<b + u}" "c \<in> covers S (width s)" using u(2) chain_start[OF ch c(1)] by auto
    then show ?thesis using w1(5) by (auto simp: kframe_def s3_def s2_def upd_slob_def)
  qed
  moreover have "kpt (s3\<lparr>slobfree := c\<rparr>) = kpt s" using w1(4) by (simp add: s3_def s2_def upd_slob_def)
  moreover have "near u (s3\<lparr>slobfree := c\<rparr>)"
  proof -
    have "u \<le> width s3 c \<or> u \<le> width s3 (nexts s3 c)" using w1b(1) q(3) unfolding n3 n2 by auto
    then show ?thesis by (simp add: near_def nexts_def width_def)
  qed
  ultimately show ?thesis using run by blast
qed


lemma slob_take_ok:
  assumes r: "slob_rel A S s" and p: "p \<in> S" "nexts s p = c" and u: "2 \<le> u" "u \<le> width s c"
  shows "\<exists>s' S'. slob_take u 0 p c s = (c, s') \<and> slob_rel A S' s' \<and> {c..<c + u} \<subseteq> covers S (width s)
    \<and> covers S' (width s') = covers S (width s) - {c..<c + u} \<and> A \<notin> {c..<c + u} \<and> width s' c = u
    \<and> kframe (covers S (width s)) s s' \<and> kpt s' = kpt s"
proof -
  have ch: "chain S (nexts s) (width s)" and A: "A \<in> S" "0 < A" "width s A = 1" "slobfree s \<in> S"
    and fe: "covers S (width s) \<inter> fence A = {}" using r by (auto simp: slob_rel_def)
  have c: "c \<in> S" using ring_in ch p unfolding chain_def by blast
  have cA: "c \<noteq> A" using u A(3) by auto
  have pc: "p \<noteq> c"
  proof
    assume "p = c"
    then have "is_succ S c c" using ch c p unfolding chain_def ring_def by auto
    then show False using A(1) cA by (auto simp: is_succ_def)
  qed
  have sub: "{c..<c + width s c} \<subseteq> covers S (width s)" using c by (auto simp: covers_def)
  have nA: "A \<notin> {c..<c + width s c}" using ch c A(1) cA unfolding chain_def by (cases "c < A") fastforce+
  have uc: "units (slobs s c) = int (width s c)" using u by (simp add: width_def)
  define s' where "s' = snd (slob_take u 0 p c s)"
  show ?thesis
  proof (cases "width s c = u")
    case True
    have e: "slob_take u 0 p c s = (c, s')" "nexts s' = (nexts s)(p := nexts s c)" "width s' = width s" "slobfree s' = p"
      "kpt s' = kpt s" "kframe {p} s s'"
      using uc True pc by (auto simp: s'_def slob_take_def upd_slob_def Let_def nexts_def width_def fun_eq_iff kframe_def)
    from chain_remove[OF ch p pc] have "chain (S - {c}) (nexts s') (width s')" "covers (S - {c}) (width s') = covers S (width s) - {c..<c + u}"
      unfolding e(2,3) True by auto
    moreover have "kframe (covers S (width s)) s s'" using e(6) chain_start[OF ch p(1)] by (auto simp: kframe_def)
    ultimately show ?thesis using e(1,3-5) A fe cA pc p(1) nA True sub
      by (intro exI[of _ s'] exI[of _ "S - {c}"]) (auto simp: slob_rel_def)
  next
    case False
    then have lt: "u < width s c" using u by simp
    have cu: "c + u \<noteq> c" "c + u \<noteq> p" "c + u \<notin> S"
    proof -
      have "c + u \<notin> S" using ch c u lt unfolding chain_def by fastforce
      then show "c + u \<noteq> c" "c + u \<noteq> p" "c + u \<notin> S" using c p(1) u by auto
    qed
    have ne: "units (slobs s c) \<noteq> int u" using uc lt by simp
    have e: "slob_take u 0 p c s = (c, s')" "nexts s' = (nexts s)(p := c + u, c + u := nexts s c)"
      "width s' = (width s)(c + u := width s c - u, c := u)" "slobfree s' = p" "kpt s' = kpt s" "kframe {p, c, c + u} s s'"
      using uc ne cu pc lt by (auto simp: s'_def slob_take_def upd_slob_def Let_def nexts_def width_def fun_eq_iff kframe_def)
    let ?S = "insert (c + u) (S - {c})"
    from chain_split[OF ch p pc _ lt] u have *: "chain ?S (nexts s') ((width s)(c + u := width s c - u))"
      "covers ?S ((width s)(c + u := width s c - u)) = covers S (width s) - {c..<c + u}" unfolding e(2) by auto
    have w: "width s' x = ((width s)(c + u := width s c - u)) x" if "x \<in> ?S" for x using that cu(1) by (auto simp: e(3))
    have "chain ?S (nexts s') (width s')" "covers ?S (width s') = covers S (width s) - {c..<c + u}"
      using * chain_cong[of ?S "nexts s'" "nexts s'" "width s'" "(width s)(c + u := width s c - u)", OF refl w] by simp_all
    moreover have "kframe (covers S (width s)) s s'"
    proof -
      have "{p, c, c + u} \<subseteq> covers S (width s)" using chain_start[OF ch] p(1) c sub lt by auto
      then show ?thesis using e(6) by (auto simp: kframe_def)
    qed
    moreover have "A \<noteq> c + u" using cu(3) A(1) by auto
    ultimately show ?thesis using e(1,3-5) A fe cA pc p(1) nA lt sub u
      by (intro exI[of _ s'] exI[of _ ?S]) (auto simp: slob_rel_def)
  qed
qed

text \<open>The loop of \<open>slob_alloc\<close> takes a block that is large enough, or comes to \<open>slobfree\<close> without one.\<close>

definition slob_grow :: "nat \<Rightarrow> nat \<Rightarrow> kheap \<Rightarrow> (nat option \<times> kheap) option" where
  "slob_grow n u s = (if n = PAGE_SIZE then Some (None, s)
     else do {
       (r, s1) \<leftarrow> slob_get_free_pages 0 s;
       (case r of
          None \<Rightarrow> Some (None, s1)
        | Some kva \<Rightarrow> do {
            s2 \<leftarrow> slob_free (kva div SLOB_UNIT) PAGE_SIZE s1;
            slob_loop n u 0 (slobfree s2) (snext (slobs s2 (slobfree s2))) s2 }) })"

definition taken :: "nat \<Rightarrow> nat \<Rightarrow> kheap \<Rightarrow> (nat option \<times> kheap) option" where
  "taken u p s = (let (b, s1) = slob_take u 0 p (nexts s p) s in Some (Some b, s1))"

lemma slob_loop_step:
  assumes "0 < u"
  shows "nexts s p = cur \<Longrightarrow> u \<le> width s cur \<Longrightarrow> slob_loop n u 0 p cur s = taken u p s"
    and "\<not> u \<le> width s (slobfree s) \<Longrightarrow> slob_loop n u 0 p (slobfree s) s = slob_grow n u s"
    and "\<not> u \<le> width s cur \<Longrightarrow> cur \<noteq> slobfree s \<Longrightarrow> slob_loop n u 0 p cur s = slob_loop n u 0 cur (nexts s cur) s"
proof -
  have fit: "units (slobs s c) \<ge> int (u + 0) \<longleftrightarrow> u \<le> width s c" for c
    using assms by (simp add: width_def nat_le_iff le_nat_iff) linarith
  show "nexts s p = cur \<Longrightarrow> u \<le> width s cur \<Longrightarrow> slob_loop n u 0 p cur s = taken u p s"
    "\<not> u \<le> width s (slobfree s) \<Longrightarrow> slob_loop n u 0 p (slobfree s) s = slob_grow n u s"
    "\<not> u \<le> width s cur \<Longrightarrow> cur \<noteq> slobfree s \<Longrightarrow> slob_loop n u 0 p cur s = slob_loop n u 0 cur (nexts s cur) s"
    using fit by (subst slob_loop.simps, simp add: slob_grow_def taken_def Let_def nexts_def)+
qed

lemma slob_loop_walk:
  assumes r: "ring S (nexts s)" and u: "0 < u" and pc: "p \<in> S" "nexts s p = cur" and k: "(nexts s ^^ k) cur = slobfree s"
  shows "(\<exists>q \<in> S. u \<le> width s (nexts s q) \<and> slob_loop n u 0 p cur s = taken u q s)
    \<or> \<not> u \<le> width s (slobfree s) \<and> \<not> u \<le> width s cur \<and> slob_loop n u 0 p cur s = slob_grow n u s"
  using pc k
proof (induction k arbitrary: p cur)
  case 0
  then show ?case
    by (cases "u \<le> width s cur") (auto intro!: slob_loop_step(2)[OF u] bexI[of _ p] slob_loop_step(1)[OF u])
next
  case (Suc k)
  show ?case
  proof (cases "u \<le> width s cur \<or> cur = slobfree s")
    case True
    then show ?thesis using Suc.prems
      by (cases "u \<le> width s cur") (auto intro: slob_loop_step(2)[OF u] bexI[of _ p] slob_loop_step(1)[OF u])
  next
    case False
    moreover have "cur \<in> S" using ring_in[OF r Suc.prems(1)] Suc.prems(2) by simp
    moreover have "(nexts s ^^ k) (nexts s cur) = slobfree s" using Suc.prems(3) by (simp add: funpow_Suc_right del: funpow.simps)
    ultimately show ?thesis using Suc.IH[of cur "nexts s cur"] slob_loop_step(3)[OF u, of s cur n] by auto
  qed
qed

section \<open>Allocated blocks\<close>

text \<open>\<open>L\<close> are the allocated blocks, each with its first unit and its number of units; \<open>G\<close> are the free page
  frames, and \<open>frame_units g\<close> are the units of a frame.\<close>

definition frame_units :: "nat \<Rightarrow> nat set" where
  "frame_units g = {0xFFFFFFFFC000000 + 256 * g..<0xFFFFFFFFC000000 + 256 * g + 256}"

definition frames_of :: "nat set \<Rightarrow> nat set" where "frames_of G = (\<Union>g \<in> G. frame_units g)"

definition blocks_of :: "(nat \<times> nat) set \<Rightarrow> nat set" where "blocks_of L = (\<Union>(b, m) \<in> L. {b..<b + m})"

definition apart :: "(nat \<times> nat) set \<Rightarrow> bool" where
  "apart L \<longleftrightarrow> (\<forall>(b, m) \<in> L. 0 < m) \<and> (\<forall>(b, m) \<in> L. \<forall>(c, n) \<in> L. (b, m) \<noteq> (c, n) \<longrightarrow> {b..<b + m} \<inter> {c..<c + n} = {})"

lemma apartD: "apart L \<Longrightarrow> (b, m) \<in> L \<Longrightarrow> (c, n) \<in> L \<Longrightarrow> (b, m) \<noteq> (c, n) \<Longrightarrow> {b..<b + m} \<inter> {c..<c + n} = {}"
  unfolding apart_def by blast

lemma apart_subset: "apart L \<Longrightarrow> M \<subseteq> L \<Longrightarrow> apart M"
  unfolding apart_def by (blast dest: subsetD)

definition frames_fit :: "nat set \<Rightarrow> kheap \<Rightarrow> bool" where
  "frames_fit G s \<longleftrightarrow> frame_rel (area (kpt s)) G \<and> (\<forall>g \<in> G. 0x200 \<le> g \<and> page2ppn g < npage (kpt s) \<and> page2ppn g < 0xC0000)"

definition heap_rel :: "nat \<Rightarrow> (nat \<times> nat) set \<Rightarrow> nat set \<Rightarrow> kheap \<Rightarrow> bool" where
  "heap_rel A L G s \<longleftrightarrow> (\<exists>S. slob_rel A S s \<and> covers S (width s) \<inter> (frames_of G \<union> blocks_of L) = {})
     \<and> frames_fit G s \<and> apart L \<and> frames_of G \<inter> fence A = {} \<and> blocks_of L \<inter> (fence A \<union> frames_of G) = {}"

lemma apart_remove:
  assumes "apart L" "(b, m) \<in> L"
  shows "apart (L - {(b, m)})" "blocks_of (L - {(b, m)}) = blocks_of L - {b..<b + m}" "{b..<b + m} \<subseteq> blocks_of L" "0 < m"
proof -
  have d: "{b..<b + m} \<inter> {c..<c + n} = {}" if "(c, n) \<in> L - {(b, m)}" for c n using assms that unfolding apart_def by blast
  show "apart (L - {(b, m)})" "0 < m" using assms unfolding apart_def by blast+
  show "{b..<b + m} \<subseteq> blocks_of L" using assms(2) unfolding blocks_of_def by blast
  show "blocks_of (L - {(b, m)}) = blocks_of L - {b..<b + m}" using d assms(2) unfolding blocks_of_def by blast
qed

lemma apart_insert:
  assumes "apart L" "0 < m" "{b..<b + m} \<inter> blocks_of L = {}"
  shows "apart (insert (b, m) L)" "blocks_of (insert (b, m) L) = blocks_of L \<union> {b..<b + m}" "(b, m) \<notin> L"
proof -
  have d: "{b..<b + m} \<inter> {c..<c + n} = {}" if "(c, n) \<in> L" for c n using assms(3) that unfolding blocks_of_def by blast
  show "(b, m) \<notin> L" using d[of b m] assms(2) by auto
  show "blocks_of (insert (b, m) L) = blocks_of L \<union> {b..<b + m}" unfolding blocks_of_def by blast
  show "apart (insert (b, m) L)" unfolding apart_def
  proof (intro conjI ballI, goal_cases)
    case (1 x)
    then show ?case using assms(1,2) unfolding apart_def by blast
  next
    case (2 x)
    show ?case using 2 assms(1) d unfolding apart_def by (auto simp: Int_commute)
  qed
qed

lemma slob_free_heap:
  assumes h: "heap_rel A L G s" and b: "(b, m) \<in> L" and m: "m = (if n \<noteq> 0 then SLOB_UNITS n else width s b)"
  shows "\<exists>s'. slob_free b n s = Some s' \<and> heap_rel A (L - {(b, m)}) G s' \<and> (\<forall>c \<in> blocks_of (L - {(b, m)}). slobs s' c = slobs s c)
    \<and> bbs s' = bbs s \<and> bigblocks s' = bigblocks s"
proof -
  from h obtain S where S: "slob_rel A S s" "covers S (width s) \<inter> (frames_of G \<union> blocks_of L) = {}"
    and f: "frames_fit G s" "apart L" "frames_of G \<inter> fence A = {}" "blocks_of L \<inter> (fence A \<union> frames_of G) = {}"
    unfolding heap_rel_def by blast
  note R = apart_remove[OF f(2) b]
  have "{b..<b + m} \<inter> (covers S (width s) \<union> fence A) = {}" using S(2) f(4) R(3) by blast
  from slob_free_ok[OF S(1) m R(4) this] obtain s' S' where
    s': "slob_free b n s = Some s'" "slob_rel A S' s'" "covers S' (width s') = covers S (width s) \<union> {b..<b + m}"
      "kframe (covers S (width s) \<union> {b..<b + m}) s s'" "kpt s' = kpt s" by blast
  have "covers S' (width s') \<inter> (frames_of G \<union> blocks_of (L - {(b, m)})) = {}"
    unfolding s'(3) R(2) using S(2) f(4) R(3) by blast
  moreover have "frames_fit G s'" using f(1) s'(5) by (simp add: frames_fit_def)
  ultimately have "heap_rel A (L - {(b, m)}) G s'" using s'(2) R(1) f(3,4) R(2) unfolding heap_rel_def by blast
  moreover have "\<forall>c \<in> blocks_of (L - {(b, m)}). slobs s' c = slobs s c"
    using s'(4) S(2) unfolding R(2) kframe_def by blast
  ultimately show ?thesis using s'(1,4) by (auto simp: kframe_def)
qed


lemma taken_heap:
  assumes h: "slob_rel A S s" "covers S (width s) \<inter> (frames_of G \<union> blocks_of L) = {}"
      "frames_fit G s" "apart L" "frames_of G \<inter> fence A = {}" "blocks_of L \<inter> (fence A \<union> frames_of G) = {}"
    and q: "q \<in> S" "u \<le> width s (nexts s q)" "2 \<le> u"
  shows "\<exists>b s'. taken u q s = Some (Some b, s') \<and> heap_rel A (insert (b, u) L) G s' \<and> {b..<b + u} \<inter> blocks_of L = {} \<and> width s' b = u
    \<and> (\<forall>c \<in> blocks_of L. slobs s' c = slobs s c) \<and> bbs s' = bbs s \<and> bigblocks s' = bigblocks s"
proof -
  let ?b = "nexts s q"
  from slob_take_ok[OF h(1) q(1) refl q(3,2)] obtain s' S' where
    s': "slob_take u 0 q ?b s = (?b, s')" "slob_rel A S' s'" "{?b..<?b + u} \<subseteq> covers S (width s)"
      "covers S' (width s') = covers S (width s) - {?b..<?b + u}" "width s' ?b = u" "kframe (covers S (width s)) s s'" "kpt s' = kpt s"
    by blast
  have fe: "covers S (width s) \<inter> fence A = {}" using h(1) by (simp add: slob_rel_def)
  have d: "{?b..<?b + u} \<inter> blocks_of L = {}" using s'(3) h(2) by blast
  have "0 < u" using q(3) by simp
  note I = apart_insert[OF h(4) this d]
  have "covers S' (width s') \<inter> (frames_of G \<union> blocks_of (insert (?b, u) L)) = {}" unfolding s'(4) I(2) using h(2) by blast
  moreover have "blocks_of (insert (?b, u) L) \<inter> (fence A \<union> frames_of G) = {}" unfolding I(2) using h(2,6) s'(3) fe by blast
  moreover have "frames_fit G s'" using h(3) s'(7) by (simp add: frames_fit_def)
  ultimately have "heap_rel A (insert (?b, u) L) G s'" using s'(2) I(1) h(5) unfolding heap_rel_def by blast
  moreover have "\<forall>c \<in> blocks_of L. slobs s' c = slobs s c" using s'(6) h(2) unfolding kframe_def by blast
  ultimately show ?thesis using s'(1,5,6) d by (auto simp: taken_def kframe_def)
qed

lemma frame_units_apart: "g \<noteq> h \<Longrightarrow> frame_units g \<inter> frame_units h = {}"
  by (cases "g < h") (auto simp: frame_units_def)

lemma frames_of_remove: "g \<in> G \<Longrightarrow> frames_of (G - {g}) = frames_of G - frame_units g \<and> frame_units g \<subseteq> frames_of G"
  using frame_units_apart unfolding frames_of_def by blast

lemma slob_page:
  assumes f: "frames_fit G s"
  shows "(\<exists>g kva a. slob_get_free_pages 0 s = Some (Some kva, s\<lparr>kpt := (kpt s)\<lparr>area := a\<rparr>\<rparr>) \<and> g \<in> G
      \<and> kva div SLOB_UNIT = 0xFFFFFFFFC000000 + 256 * g \<and> frames_fit (G - {g}) (s\<lparr>kpt := (kpt s)\<lparr>area := a\<rparr>\<rparr>))
    \<or> slob_get_free_pages 0 s = Some (None, s)"
proof -
  have g: "0x200 \<le> g \<and> page2ppn g < npage (kpt s) \<and> page2ppn g < 0xC0000" if "g \<in> G" for g
    using f that by (simp add: frames_fit_def)
  from first_fit.rel_alloc[of "area (kpt s)" G 1] f consider
    (got) g a where "default_alloc_pages 1 (area (kpt s)) = Some (Some g, a)" "g \<in> G" "frame_rel a (G - {g})"
    | (none) "default_alloc_pages 1 (area (kpt s)) = Some (None, area (kpt s))" by (fastforce simp: frames_fit_def)
  then show ?thesis
  proof cases
    case got
    from kva_page[of g "kpt s"] g[OF got(2)] have "page2kva g (kpt s) = Some (0xFFFFFFFFC0000000 + PGSIZE * g)" by auto
    then have "page2kva g ((kpt s)\<lparr>area := a\<rparr>) = Some (0xFFFFFFFFC0000000 + PGSIZE * g)" by (simp add: page2kva_def)
    then have "slob_get_free_pages 0 s = Some (Some (0xFFFFFFFFC0000000 + PGSIZE * g), s\<lparr>kpt := (kpt s)\<lparr>area := a\<rparr>\<rparr>)"
      using got(1) by (simp add: slob_get_free_pages_def)
    moreover have "(0xFFFFFFFFC0000000 + PGSIZE * g) div SLOB_UNIT = 0xFFFFFFFFC000000 + 256 * g" by simp
    moreover have "frames_fit (G - {g}) (s\<lparr>kpt := (kpt s)\<lparr>area := a\<rparr>\<rparr>)" using got(3) g by (simp add: frames_fit_def)
    ultimately show ?thesis using got(2) by blast
  next
    case none
    then show ?thesis by (simp add: slob_get_free_pages_def)
  qed
qed

lemma slob_alloc_heap:
  assumes h: "heap_rel A L G s" and n: "17 \<le> n" "n + SLOB_UNIT < PAGE_SIZE"
  shows "slob_alloc n 0 s = Some (None, s) \<and> slob_get_free_pages 0 s = Some (None, s)
    \<or> (\<exists>b s' G'. slob_alloc n 0 s = Some (Some b, s') \<and> G' \<subseteq> G \<and> heap_rel A (insert (b, SLOB_UNITS n) L) G' s'
      \<and> {b..<b + SLOB_UNITS n} \<inter> blocks_of L = {} \<and> width s' b = SLOB_UNITS n
      \<and> (\<forall>c \<in> blocks_of L. slobs s' c = slobs s c) \<and> bbs s' = bbs s \<and> bigblocks s' = bigblocks s)"
proof -
  let ?u = "SLOB_UNITS n"
  have u: "2 \<le> ?u" "?u \<le> 256" "0 < ?u" using n by (auto simp: SLOB_UNITS_def)
  from h obtain S where S: "slob_rel A S s" "covers S (width s) \<inter> (frames_of G \<union> blocks_of L) = {}"
    and f: "frames_fit G s" "apart L" "frames_of G \<inter> fence A = {}" "blocks_of L \<inter> (fence A \<union> frames_of G) = {}"
    unfolding heap_rel_def by blast
  have walk: "(\<exists>q \<in> T. ?u \<le> width t (nexts t q) \<and> slob_loop n ?u 0 (slobfree t) (nexts t (slobfree t)) t = taken ?u q t)
    \<or> \<not> ?u \<le> width t (slobfree t) \<and> \<not> ?u \<le> width t (nexts t (slobfree t))
      \<and> slob_loop n ?u 0 (slobfree t) (nexts t (slobfree t)) t = slob_grow n ?u t" if "slob_rel A T t" for T t
  proof -
    have r: "ring T (nexts t)" "slobfree t \<in> T" using that by (auto simp: slob_rel_def chain_def)
    from ring_reach[OF r(1) ring_in[OF r] r(2)] obtain k where "(nexts t ^^ k) (nexts t (slobfree t)) = slobfree t" by blast
    from slob_loop_walk[OF r(1) u(3) r(2) refl this] show ?thesis .
  qed
  have run: "slob_alloc n 0 s = slob_loop n ?u 0 (slobfree s) (nexts s (slobfree s)) s" using n by (simp add: slob_alloc_def nexts_def)
  from walk[OF S(1)] show ?thesis
  proof (elim disjE bexE conjE)
    fix q
    assume q: "q \<in> S" "?u \<le> width s (nexts s q)" "slob_loop n ?u 0 (slobfree s) (nexts s (slobfree s)) s = taken ?u q s"
    from taken_heap[OF S f q(1,2) u(1)] show ?thesis unfolding run q(3) by blast
  next
    assume grow: "slob_loop n ?u 0 (slobfree s) (nexts s (slobfree s)) s = slob_grow n ?u s"
    from slob_page[OF f(1)] show ?thesis
    proof (elim disjE exE conjE)
      assume "slob_get_free_pages 0 s = Some (None, s)"
      then show ?thesis unfolding run grow using n by (simp add: slob_grow_def)
    next
      fix g kva :: nat and a
      let ?s1 = "s\<lparr>kpt := (kpt s)\<lparr>area := a\<rparr>\<rparr>" and ?b = "0xFFFFFFFFC000000 + 256 * g"
      assume page: "slob_get_free_pages 0 s = Some (Some kva, ?s1)" "g \<in> G" "kva div SLOB_UNIT = ?b" "frames_fit (G - {g}) ?s1"
      note rem = frames_of_remove[OF page(2)]
      have s1: "width ?s1 = width s" "nexts ?s1 = nexts s" by (auto simp: width_def nexts_def)
      have r1: "slob_rel A S ?s1" using S(1) by (simp add: slob_rel_def s1)
      have u256: "256 = (if PAGE_SIZE \<noteq> 0 then SLOB_UNITS PAGE_SIZE else width ?s1 ?b)" by (simp add: SLOB_UNITS_def)
      have "{?b..<?b + 256} \<inter> (covers S (width ?s1) \<union> fence A) = {}"
        using S(2) f(3) rem unfolding s1 frame_units_def by blast
      from slob_free_ok[OF r1 u256 _ this] obtain s2 S2 where
        s2: "slob_free ?b PAGE_SIZE ?s1 = Some s2" "slob_rel A S2 s2" "covers S2 (width s2) = covers S (width s) \<union> {?b..<?b + 256}"
          "kframe (covers S (width s) \<union> {?b..<?b + 256}) ?s1 s2" "kpt s2 = kpt ?s1" "near 256 s2" unfolding s1 by auto
      have fu: "{?b..<?b + 256} = frame_units g" by (simp add: frame_units_def)
      have h2: "covers S2 (width s2) \<inter> (frames_of (G - {g}) \<union> blocks_of L) = {}" "frames_fit (G - {g}) s2"
        "frames_of (G - {g}) \<inter> fence A = {}" "blocks_of L \<inter> (fence A \<union> frames_of (G - {g})) = {}"
      proof -
        show "covers S2 (width s2) \<inter> (frames_of (G - {g}) \<union> blocks_of L) = {}" unfolding s2(3) fu using S(2) f(4) rem by blast
        show "frames_fit (G - {g}) s2" using page(4) s2(5) by (simp add: frames_fit_def)
      qed (use f(3,4) rem in blast)+
      have kept: "\<forall>c \<in> blocks_of L. slobs s2 c = slobs s c" "bbs s2 = bbs s" "bigblocks s2 = bigblocks s"
        using s2(4) S(2) f(4) rem unfolding kframe_def fu by (auto, blast)
      have "slob_grow n ?u s = slob_loop n ?u 0 (slobfree s2) (nexts s2 (slobfree s2)) s2"
        using page(1,3) s2(1) n by (simp add: slob_grow_def nexts_def)
      moreover obtain q where "q \<in> S2" "?u \<le> width s2 (nexts s2 q)"
        "slob_loop n ?u 0 (slobfree s2) (nexts s2 (slobfree s2)) s2 = taken ?u q s2"
        using walk[OF s2(2)] s2(6) u(2) unfolding near_def by auto
      ultimately show ?thesis
        using taken_heap[OF s2(2) h2(1,2) f(2) h2(3,4), of q ?u] u(1) kept unfolding run grow by fastforce
    qed
  qed
qed


section \<open>Objects\<close>

text \<open>The block of an object of \<open>n\<close> bytes at address \<open>a\<close>, with its header.\<close>

definition obj_block :: "nat \<times> nat \<Rightarrow> nat \<times> nat" where
  "obj_block ob = (case ob of (a, n) \<Rightarrow> (a div SLOB_UNIT - 1, SLOB_UNITS (n + SLOB_UNIT)))"

definition obj_ok :: "kheap \<Rightarrow> nat \<times> nat \<Rightarrow> bool" where
  "obj_ok s ob \<longleftrightarrow> (case ob of (a, n) \<Rightarrow> SLOB_UNIT \<le> a \<and> a mod SLOB_UNIT = 0 \<and> 0 < n \<and> width s (a div SLOB_UNIT - 1) = SLOB_UNITS (n + SLOB_UNIT))"

lemma kmalloc_small_ok:
  assumes h: "heap_rel A L G s" and n: "0 < n" "n < 4064"
  shows "kmalloc n s = Some (None, s) \<and> slob_get_free_pages 0 s = Some (None, s)
    \<or> (\<exists>a s' G'. kmalloc n s = Some (Some a, s') \<and> G' \<subseteq> G \<and> heap_rel A (insert (obj_block (a, n)) L) G' s' \<and> obj_ok s' (a, n)
      \<and> {fst (obj_block (a, n))..<fst (obj_block (a, n)) + snd (obj_block (a, n))} \<inter> blocks_of L = {}
      \<and> (\<forall>c \<in> blocks_of L. slobs s' c = slobs s c) \<and> bigblocks s' = bigblocks s)"
  using slob_alloc_heap[OF h, of "n + SLOB_UNIT"] n by (auto simp: kmalloc_def obj_block_def obj_ok_def)

lemma kfree_small_ok:
  assumes h: "heap_rel A L G s" and ob: "obj_ok s (a, n)" "obj_block (a, n) \<in> L" and b: "bigblocks s = None"
  shows "\<exists>s'. kfree a s = Some s' \<and> heap_rel A (L - {obj_block (a, n)}) G s' \<and> bigblocks s' = None
    \<and> (\<forall>c \<in> blocks_of (L - {obj_block (a, n)}). slobs s' c = slobs s c)"
proof -
  let ?b = "a div SLOB_UNIT - 1" and ?m = "SLOB_UNITS (n + SLOB_UNIT)"
  have "kfree a s = slob_free ?b 0 s" using ob(1) b by (simp add: kfree_def obj_ok_def find_big.simps)
  moreover have "?m = (if (0::nat) \<noteq> 0 then SLOB_UNITS 0 else width s ?b)" using ob(1) by (simp add: obj_ok_def)
  ultimately show ?thesis using slob_free_heap[OF h, of ?b ?m 0] ob(2) b by (auto simp: obj_block_def)
qed

definition held_rel :: "nat \<Rightarrow> (nat \<times> nat) list \<Rightarrow> kheap \<Rightarrow> bool" where
  "held_rel A held s \<longleftrightarrow> (\<exists>G. heap_rel A (set (map obj_block held)) G s) \<and> distinct (map obj_block held)
     \<and> list_all (obj_ok s) held \<and> bigblocks s = None"

lemma obj_ok_kept:
  assumes "obj_ok s ob" "obj_block ob \<in> L" "apart L" "\<forall>c \<in> blocks_of L. slobs s' c = slobs s c"
  shows "obj_ok s' ob"
proof -
  obtain a n where ob: "ob = (a, n)" by (cases ob)
  have "(a div SLOB_UNIT - 1, SLOB_UNITS (n + SLOB_UNIT)) \<in> L" using assms(2) by (simp add: ob obj_block_def)
  then have "a div SLOB_UNIT - 1 \<in> blocks_of L" using apart_remove(3,4)[OF assms(3)] by fastforce
  then show ?thesis using assms(1,4) by (simp add: ob obj_ok_def width_def)
qed

lemma distinct_map_middle:
  assumes "distinct (map f (xs @ x # ys))"
  shows "set (map f (xs @ x # ys)) - {f x} = set (map f (xs @ ys)) \<and> distinct (map f (xs @ ys))"
  using assms by (auto simp: rev_image_eqI)

lemma kserve_held:
  assumes "held_rel A held s" "list_all (fair_request (\<lambda>n. n < 4064)) rs"
  shows "\<exists>held' s'. serve kmalloc (\<lambda>a _. kfree a) rs held s = Some (held', s') \<and> held_rel A held' s'"
  using assms
proof (induction rs arbitrary: held s)
  case (Cons r rs)
  let ?L = "set (map obj_block held)"
  from Cons.prems(1) obtain G where h: "heap_rel A ?L G s" and d: "distinct (map obj_block held)"
    and ok: "\<And>ob. ob \<in> set held \<Longrightarrow> obj_ok s ob" and big: "bigblocks s = None" by (auto simp: held_rel_def list_all_iff)
  have ap: "apart ?L" using h by (simp add: heap_rel_def)
  show ?case
  proof (cases r)
    case (Get n)
    with Cons.prems(2) have n: "0 < n" "n < 4064" by (auto simp: fair_request_def)
    from kmalloc_small_ok[OF h n] show ?thesis
    proof (elim disjE exE conjE)
      fix a s' G'
      assume a: "kmalloc n s = Some (Some a, s')" "heap_rel A (insert (obj_block (a, n)) ?L) G' s'" "obj_ok s' (a, n)"
        "{fst (obj_block (a, n))..<fst (obj_block (a, n)) + snd (obj_block (a, n))} \<inter> blocks_of ?L = {}"
        "\<forall>c \<in> blocks_of ?L. slobs s' c = slobs s c" "bigblocks s' = bigblocks s"
      have "obj_block (a, n) \<notin> ?L"
      proof
        assume ob: "obj_block (a, n) \<in> ?L"
        obtain x m where xm: "obj_block (a, n) = (x, m)" by force
        then have "x \<in> {x..<x + m}" by (auto simp: obj_block_def SLOB_UNITS_def)
        moreover have "{x..<x + m} \<subseteq> blocks_of ?L" using apart_remove(3)[OF ap] ob unfolding xm by blast
        moreover have "{x..<x + m} \<inter> blocks_of ?L = {}" using a(4) by (simp add: xm)
        ultimately show False by blast
      qed
      moreover have "obj_ok s' ob" if "ob \<in> set held" for ob using obj_ok_kept[OF ok[OF that] _ ap a(5)] that by simp
      ultimately have "held_rel A ((a, n) # held) s'" using a(2,3,6) d big by (auto simp: held_rel_def list_all_iff)
      from Cons.IH[OF this] show ?thesis using Cons.prems(2) a(1) Get by simp
    qed (use Cons Get in auto)
  next
    case (Put i)
    show ?thesis
    proof (cases "i < length held")
      case True
      obtain a n where an: "held ! i = (a, n)" by force
      let ?xs = "take i held" and ?ys = "drop (Suc i) held"
      have hd: "held = ?xs @ (a, n) # ?ys" using True an by (metis id_take_nth_drop)
      have mem: "(a, n) \<in> set held" using True an by (metis nth_mem)
      have L: "?L - {obj_block (a, n)} = set (map obj_block (?xs @ ?ys))" "distinct (map obj_block (?xs @ ?ys))"
        using distinct_map_middle[of obj_block ?xs "(a, n)" ?ys] d unfolding hd[symmetric] by blast+
      from kfree_small_ok[OF h ok[OF mem] _ big] mem obtain s' where
        s': "kfree a s = Some s'" "heap_rel A (set (map obj_block (?xs @ ?ys))) G s'" "bigblocks s' = None"
          "\<forall>c \<in> blocks_of (set (map obj_block (?xs @ ?ys))). slobs s' c = slobs s c" unfolding L(1) by auto
      have ap': "apart (set (map obj_block (?xs @ ?ys)))" using s'(2) by (simp add: heap_rel_def)
      have "obj_ok s' ob" if "ob \<in> set (?xs @ ?ys)" for ob
      proof -
        have "ob \<in> set held" using that by (auto dest: in_set_takeD in_set_dropD)
        moreover have "obj_block ob \<in> set (map obj_block (?xs @ ?ys))" using that by auto
        ultimately show ?thesis by (rule obj_ok_kept[OF ok _ ap' s'(4)])
      qed
      then have "held_rel A (?xs @ ?ys) s'" using s'(2,3) L(2) unfolding held_rel_def list_all_iff by blast
      from Cons.IH[OF this] show ?thesis using Cons.prems(2) s'(1) an True Put by simp
    qed (use Cons Put in auto)
  qed
qed auto


lemma obj_bytes:
  assumes "obj_ok s (a, n)" "x \<in> {a..<a + n}" "obj_block (a, n) = (b, m)"
  shows "x div SLOB_UNIT \<in> {b..<b + m}"
proof -
  from assms(1) obtain q where q: "a = 16 * q" "1 \<le> q" by (auto simp: obj_ok_def dvd_def)
  have b: "b = q - 1" "m = (n + 31) div 16" using assms(3) q by (auto simp: obj_block_def SLOB_UNITS_def)
  have "q \<le> x div 16" using div_le_mono[of a x 16] assms(2) q(1) by simp
  moreover have "x div 16 \<le> (16 * q + (n - 1)) div 16" using assms(2) q(1) by (intro div_le_mono) auto
  then have "x div 16 \<le> q + (n - 1) div 16" by simp
  moreover have "(n - 1) div 16 \<le> (n + 15) div 16" "(n + 31) div 16 = (n + 15) div 16 + 1" by (simp_all add: div_le_mono)
  moreover have "(n - 1) div 16 < (n + 15) div 16" using assms(2) div_add_self2[of 16 "n - 1"] by (cases n) auto
  ultimately have "b \<le> x div 16" "x div 16 < b + m" using b q(2) by linarith+
  then show ?thesis by simp
qed

lemma held_disjoint:
  assumes "apart (set (map obj_block held))" "distinct (map obj_block held)" "list_all (obj_ok s) held"
  shows "disjoint_runs held"
  using assms
proof (induction held)
  case (Cons ob held)
  obtain a n where o: "ob = (a, n)" by (cases ob)
  obtain b m where b: "obj_block (a, n) = (b, m)" by force
  have ap: "apart (insert (b, m) (set (map obj_block held)))" "(b, m) \<notin> set (map obj_block held)"
    using Cons.prems(1,2) unfolding o list.map(2) b by simp_all
  have "{a..<a + n} \<inter> {c..<c + k} = {}" if ck: "(c, k) \<in> set held" for c k
  proof -
    obtain d j where d: "obj_block (c, k) = (d, j)" by force
    then have mem: "(d, j) \<in> set (map obj_block held)" using ck by force
    have "(b, m) \<noteq> (d, j)" using mem ap(2) by metis
    then have "{b..<b + m} \<inter> {d..<d + j} = {}" using apartD[OF ap(1)] mem by (metis insertCI)
    moreover have "obj_ok s (a, n)" "obj_ok s (c, k)" using Cons.prems(3) ck by (auto simp: o list_all_iff)
    ultimately show ?thesis using obj_bytes[OF _ _ b] obj_bytes[OF _ _ d] by blast
  qed
  then have "{a..<a + n} \<inter> runs held = {}" unfolding runs_def by blast
  moreover have "apart (set (map obj_block held))" using apart_subset[OF ap(1)] by blast
  ultimately show ?case using Cons by (simp add: o)
qed simp

lemma pages_pow: "(4096::nat) \<le> 4096 * 2 ^ k" by simp

lemma find_order_eq: "4096 * 2 ^ k \<le> n \<Longrightarrow> n < 4096 * 2 ^ k + 2 ^ k \<Longrightarrow> find_order n = k"
proof (induction k arbitrary: n)
  case (Suc k)
  have "4096 < n" using Suc.prems(1) pages_pow[of k] unfolding power_Suc by linarith
  then have "find_order n = find_order (n div 2) + 1" by (subst find_order.simps) auto
  moreover have "find_order (n div 2) = k" using Suc.IH[of "n div 2"] Suc.prems by auto
  ultimately show ?case by simp
qed (simp add: find_order.simps)


definition boot_heap :: kheap where
  "boot_heap = \<lparr>slobs = (\<lambda>_. \<lparr>units = 1, snext = 0xFFFFFFFFC020010\<rparr>), slobfree = 0xFFFFFFFFC020010,
     bbs = (\<lambda>_. \<lparr>bb_order = 0, bb_pages = 0, bb_next = None\<rparr>), bigblocks = None,
     kpt = \<lparr>area = area8 0x300, pmem = (\<lambda>_ _. 0), npage = 0x90000\<rparr>\<rparr>"

lemma boot_heap_held: "held_rel 0xFFFFFFFFC020010 [] boot_heap"
proof -
  have "ring {0xFFFFFFFFC020010} (nexts boot_heap)" by (simp add: ring_def is_succ_def nexts_def boot_heap_def)
  then have "slob_rel 0xFFFFFFFFC020010 {0xFFFFFFFFC020010} boot_heap"
    by (simp add: slob_rel_def chain_def width_def covers_def boot_heap_def fence_def)
  moreover have "width boot_heap = (\<lambda>_. 1)" by (simp add: width_def boot_heap_def fun_eq_iff)
  moreover have "frames_fit {0x300..<0x308} boot_heap"
    using area8_rel[of "0x300"] by (auto simp: frames_fit_def boot_heap_def page2ppn_def)
  ultimately show ?thesis unfolding held_rel_def heap_rel_def
    by (intro conjI exI[of _ "{0x300..<0x308}"] exI[of _ "{0xFFFFFFFFC020010}"])
      (auto simp: covers_def frames_of_def frame_units_def blocks_of_def apart_def fence_def boot_heap_def)
qed

text \<open>C11. Requests for objects below 4064 bytes and releases of any held object, in any order: every call
  returns, and the bytes of the held objects never overlap.\<close>

theorem kmalloc_objects_disjoint:
  assumes "held_rel A [] s" "list_all (fair_request (\<lambda>n. n < 4064)) rs"
  shows "\<exists>held s'. serve kmalloc (\<lambda>a _. kfree a) rs [] s = Some (held, s') \<and> disjoint_runs held"
proof -
  from kserve_held[OF assms] obtain held s' where
    s': "serve kmalloc (\<lambda>a _. kfree a) rs [] s = Some (held, s')" "held_rel A held s'" by blast
  then have "disjoint_runs held" using held_disjoint[of held s'] by (auto simp: held_rel_def heap_rel_def)
  with s'(1) show ?thesis by blast
qed

theorem kmalloc_objects_disjoint_witness:
  "\<exists>held s'. serve kmalloc (\<lambda>a _. kfree a) [Get 100, Get 4000, Put 1, Get 24] [] boot_heap = Some (held, s') \<and> disjoint_runs held"
  by (rule kmalloc_objects_disjoint[OF boot_heap_held]) (simp add: fair_request_def)



lemma page2kva_aligned: "page2kva g p = Some kva \<Longrightarrow> kva mod PAGE_SIZE = 0"
proof -
  assume "page2kva g p = Some kva"
  then have "kva = (page2ppn g * PGSIZE + va_pa_offset) mod 2 ^ 64" by (simp add: page2kva_def split: if_splits)
  moreover have "PGSIZE dvd page2ppn g * PGSIZE + va_pa_offset" by (intro dvd_add) simp_all
  ultimately show ?thesis by (simp add: dvd_mod)
qed

text \<open>A large request that is not a power of two pages may get fewer bytes than it asked for, as
  \<open>find_order\<close> halves the size with truncation: just above \<open>2 ^ k\<close> pages, the caller gets exactly
  \<open>2 ^ k\<close> pages.\<close>

theorem kmalloc_large_short:
  assumes "4096 * 2 ^ k < n" "n < 4096 * 2 ^ k + 2 ^ k" "kmalloc n s = Some (Some a, s')" "a \<noteq> 0"
  shows "ksize a s' = Some (4096 * 2 ^ k) \<and> 4096 * 2 ^ k < n"
proof -
  have "find_order n = k" using find_order_eq[of k n] assms(1,2) by simp
  moreover have "\<not> n < 4080" using assms(1) pages_pow[of k] by linarith
  ultimately obtain bb s1 s2 where
    r: "slob_get_free_pages k s1 = Some (Some a, s2)"
    and s': "s' = s2\<lparr>bbs := (bbs s2)(bb := \<lparr>bb_order = k, bb_pages = a, bb_next = bigblocks s2\<rparr>), bigblocks := Some bb\<rparr>"
    using assms(3) by (auto simp: kmalloc_def Let_def bind_eq_Some_conv split: option.splits if_splits)
  have "a mod PAGE_SIZE = 0" using r page2kva_aligned by (auto simp: slob_get_free_pages_def Let_def bind_eq_Some_conv split: option.splits)
  then show ?thesis using assms(1,4) s' by (simp add: ksize_def find_big.simps)
qed

theorem kmalloc_large_short_witness:
  "(\<exists>a s'. kmalloc 8193 boot_heap = Some (Some a, s') \<and> ksize a s' = Some 8192) \<and> (8192::nat) < 8193"
proof -
  have "map_option fst (kmalloc 8193 boot_heap) = Some (Some 0xFFFFFFFFC0301000)" by code_simp
  then obtain s' where s': "kmalloc 8193 boot_heap = Some (Some 0xFFFFFFFFC0301000, s')" by auto
  show ?thesis using kmalloc_large_short[of 1 8193, OF _ _ s'] s' by auto
qed

end
