(* ===== verification/Skew_Heap.thy ===== *)
theory Skew_Heap
  imports Prelude "HOL-Library.Tree_Multiset"
begin

text \<open>
  The skew heap of \<open>libs/skew_heap.h\<close>: nodes with parent, left and right pointers that are
  merged in place.  The routines are modelled on the three pointer fields; a functional
  merge on trees is their specification, and the refinement theorem says that the
  pointer version returns, computes that tree, keeps all parent pointers consistent and
  touches nothing outside the two heaps.
\<close>

section \<open>The routines of skew\_heap.h\<close>

record skew =
  parent :: "nat \<Rightarrow> nat option"
  left :: "nat \<Rightarrow> nat option"
  right :: "nat \<Rightarrow> nat option"

type_synonym compare_f = "nat \<Rightarrow> nat \<Rightarrow> int"

definition set_parent :: "nat option \<Rightarrow> nat option \<Rightarrow> skew \<Rightarrow> skew" where
  "set_parent l p h = (case l of None \<Rightarrow> h | Some x \<Rightarrow> h\<lparr>parent := (parent h)(x := p)\<rparr>)"

definition skew_heap_init :: "nat \<Rightarrow> skew \<Rightarrow> skew" where
  "skew_heap_init a h = h\<lparr>parent := (parent h)(a := None), right := (right h)(a := None),
     left := (left h)(a := None)\<rparr>"

text \<open>Setting the children of the winning node \<open>a\<close>: \<open>a->left = l; a->right = r; if (l) l->parent = a\<close>.\<close>

definition skew_heap_attach :: "nat \<Rightarrow> nat option \<Rightarrow> nat option \<Rightarrow> skew \<Rightarrow> skew" where
  "skew_heap_attach a l r h =
     (let h1 = h\<lparr>left := (left h)(a := l)\<rparr>;
          h2 = h1\<lparr>right := (right h1)(a := r)\<rparr>
      in set_parent l (Some a) h2)"

partial_function (option) skew_heap_merge ::
  "compare_f \<Rightarrow> nat option \<Rightarrow> nat option \<Rightarrow> skew \<Rightarrow> (nat option \<times> skew) option" where
  "skew_heap_merge cmp a b h =
     (case a of None \<Rightarrow> Some (b, h)
      | Some a' \<Rightarrow> (case b of None \<Rightarrow> Some (a, h)
        | Some b' \<Rightarrow>
            if cmp a' b' = -1
            then do {
              let r = left h a';
              (l, h1) \<leftarrow> skew_heap_merge cmp (right h a') b h;
              Some (Some a', skew_heap_attach a' l r h1) }
            else do {
              let r = left h b';
              (l, h1) \<leftarrow> skew_heap_merge cmp a (right h b') h;
              Some (Some b', skew_heap_attach b' l r h1) }))"

declare skew_heap_merge.simps [code]

definition skew_heap_insert ::
  "compare_f \<Rightarrow> nat option \<Rightarrow> nat \<Rightarrow> skew \<Rightarrow> (nat option \<times> skew) option" where
  "skew_heap_insert cmp a b h = skew_heap_merge cmp a (Some b) (skew_heap_init b h)"

definition skew_heap_remove ::
  "compare_f \<Rightarrow> nat option \<Rightarrow> nat \<Rightarrow> skew \<Rightarrow> (nat option \<times> skew) option" where
  "skew_heap_remove cmp a b h = do {
     let p = parent h b;
     (rep, h1) \<leftarrow> skew_heap_merge cmp (left h b) (right h b) h;
     let h2 = set_parent rep p h1;
     Some (case p of
       None \<Rightarrow> (rep, h2)
     | Some p' \<Rightarrow> (a, if left h2 p' = Some b
                     then h2\<lparr>left := (left h2)(p' := rep)\<rparr>
                     else h2\<lparr>right := (right h2)(p' := rep)\<rparr>)) }"

section \<open>Trees\<close>

fun root :: "'a tree \<Rightarrow> 'a option" where
  "root Leaf = None"
| "root (Node l x r) = Some x"

text \<open>\<open>shape h p t\<close>: the pointer \<open>p\<close> is the root of the tree \<open>t\<close>, laid out in \<open>h\<close> with
  correct child pointers and correct parent pointers below the root.\<close>

fun shape :: "skew \<Rightarrow> nat option \<Rightarrow> nat tree \<Rightarrow> bool" where
  "shape h p Leaf \<longleftrightarrow> p = None"
| "shape h p (Node l x r) \<longleftrightarrow> p = Some x \<and> shape h (left h x) l \<and> shape h (right h x) r
     \<and> (\<forall>y. root l = Some y \<longrightarrow> parent h y = Some x) \<and> (\<forall>y. root r = Some y \<longrightarrow> parent h y = Some x)"

fun dtree :: "'a tree \<Rightarrow> bool" where
  "dtree Leaf = True"
| "dtree (Node l x r) \<longleftrightarrow> x \<notin> set_tree l \<and> x \<notin> set_tree r \<and> set_tree l \<inter> set_tree r = {}
     \<and> dtree l \<and> dtree r"

function smerge :: "compare_f \<Rightarrow> nat tree \<Rightarrow> nat tree \<Rightarrow> nat tree" where
  "smerge cmp Leaf t = t"
| "smerge cmp (Node l a r) Leaf = Node l a r"
| "smerge cmp (Node l1 a r1) (Node l2 b r2) =
     (if cmp a b = -1 then Node (smerge cmp r1 (Node l2 b r2)) a l1
      else Node (smerge cmp (Node l1 a r1) r2) b l2)"
  by pat_completeness auto
termination
  by (relation "measure (\<lambda>(c, s, t). size s + size t)") auto


text \<open>Every node's key is at most the keys below it.\<close>

fun kheap :: "(nat \<Rightarrow> int) \<Rightarrow> nat tree \<Rightarrow> bool" where
  "kheap key Leaf = True"
| "kheap key (Node l x r) \<longleftrightarrow>
     (\<forall>y \<in> set_tree l \<union> set_tree r. key x \<le> key y) \<and> kheap key l \<and> kheap key r"

lemma root_in_tree: "root t = Some x \<Longrightarrow> x \<in> set_tree t"
  by (cases t) auto

lemma shape_root: "shape h p t \<Longrightarrow> p = root t"
  by (cases t) auto

lemma shape_cong:
  assumes "\<And>x. x \<in> set_tree t \<Longrightarrow> left h' x = left h x \<and> right h' x = right h x"
    and "\<And>x. x \<in> set_tree t \<Longrightarrow> root t \<noteq> Some x \<Longrightarrow> parent h' x = parent h x" and "dtree t"
  shows "shape h' p t = shape h p t"
  using assms
proof (induction t arbitrary: p)
  case Leaf
  then show ?case by simp
next
  case (Node l x r)
  then have "shape h' q l = shape h q l" "shape h' q r = shape h q r" for q
    by (auto intro!: Node.IH simp: root_in_tree)
  moreover have "parent h' y = parent h y" if "root l = Some y \<or> root r = Some y" for y
  proof -
    from that have "y \<in> set_tree l \<union> set_tree r" by (auto dest: root_in_tree)
    with Node.prems(2,3) show ?thesis by auto
  qed
  ultimately show ?case using Node.prems(1)[of x] by auto
qed

lemma set_smerge [simp]: "set_tree (smerge cmp s t) = set_tree s \<union> set_tree t"
  by (induction cmp s t rule: smerge.induct) auto

lemma mset_smerge: "mset_tree (smerge cmp s t) = mset_tree s + mset_tree t"
  by (induction cmp s t rule: smerge.induct) auto

lemma dtree_smerge:
  "dtree s \<Longrightarrow> dtree t \<Longrightarrow> set_tree s \<inter> set_tree t = {} \<Longrightarrow> dtree (smerge cmp s t)"
  by (induction cmp s t rule: smerge.induct) auto

lemma kheap_smerge:
  assumes "kheap key s" "kheap key t"
    and "\<forall>a \<in> set_tree s. \<forall>b \<in> set_tree t. cmp a b = -1 \<longleftrightarrow> key a < key b"
  shows "kheap key (smerge cmp s t)"
  using assms
proof (induction cmp s t rule: smerge.induct)
  case (3 cmp l1 a r1 l2 b r2)
  have s: "\<forall>y \<in> set_tree (Node l1 a r1). key a \<le> key y" and t: "\<forall>y \<in> set_tree (Node l2 b r2). key b \<le> key y"
    using "3.prems"(1,2) by auto
  have ab: "cmp a b = -1 \<longleftrightarrow> key a < key b" using "3.prems"(3) by simp
  show ?case
  proof (cases "cmp a b = -1")
    case True
    have "kheap key (smerge cmp r1 (Node l2 b r2))" using "3.IH"(1)[OF True] "3.prems" by simp
    moreover have "\<forall>y \<in> set_tree (Node l2 b r2). key a \<le> key y" using t ab True by force
    ultimately show ?thesis using True s "3.prems"(1) by auto
  next
    case False
    have "kheap key (smerge cmp (Node l1 a r1) r2)" using "3.IH"(2)[OF False] "3.prems" by simp
    moreover have "\<forall>y \<in> set_tree (Node l1 a r1). key b \<le> key y" using s ab False by force
    ultimately show ?thesis using False t "3.prems"(2) by auto
  qed
qed simp_all

section \<open>The pointer merge computes the functional merge\<close>

lemma attach_simps [simp]:
  "left (skew_heap_attach a l r h) = (left h)(a := l)"
  "right (skew_heap_attach a l r h) = (right h)(a := r)"
  "parent (skew_heap_attach a l r h)
     = (case l of None \<Rightarrow> parent h | Some x \<Rightarrow> (parent h)(x := Some a))"
  by (auto simp: skew_heap_attach_def set_parent_def Let_def split: option.split)

text \<open>What a merge may change: pointers of the merged nodes, but not the parent of the new root.\<close>

definition merge_frame :: "nat set \<Rightarrow> nat option \<Rightarrow> skew \<Rightarrow> skew \<Rightarrow> bool" where
  "merge_frame A p h h' \<longleftrightarrow>
     (\<forall>x. x \<notin> A \<longrightarrow> left h' x = left h x \<and> right h' x = right h x)
     \<and> (\<forall>x. x \<notin> A \<or> p = Some x \<longrightarrow> parent h' x = parent h x)"

lemma attach_shape:
  assumes sh: "shape h1 (root m) m" and fr: "merge_frame (set_tree m) (root m) h h1"
    and l: "shape h (left h a) l" "\<forall>y. root l = Some y \<longrightarrow> parent h y = Some a"
    and d: "dtree m" "dtree l" "a \<notin> set_tree m" "a \<notin> set_tree l" "set_tree m \<inter> set_tree l = {}"
  shows "shape (skew_heap_attach a (root m) (left h a) h1) (Some a) (Node m a l)"
    and "merge_frame (insert a (set_tree m)) (Some a) h (skew_heap_attach a (root m) (left h a) h1)"
proof -
  let ?h = "skew_heap_attach a (root m) (left h a) h1"
  have "shape ?h (root m) m = shape h1 (root m) m"
    using d by (intro shape_cong) (auto split: option.split)
  moreover have "shape ?h (left h a) l = shape h (left h a) l"
    using d fr by (intro shape_cong)
      (auto simp: merge_frame_def dest: root_in_tree split: option.split)
  moreover have "parent ?h y = Some a" if "root l = Some y" for y
    using that l d fr root_in_tree[of l y]
    by (auto simp: merge_frame_def dest: root_in_tree split: option.split)
  ultimately show "shape ?h (Some a) (Node m a l)" using sh l by simp
  show "merge_frame (insert a (set_tree m)) (Some a) h ?h"
    using fr d(3) root_in_tree[of m]
    by (cases "root m") (auto simp: merge_frame_def)
qed

lemma merge_frame_mono:
  "merge_frame A p h h' \<Longrightarrow> A \<subseteq> B \<Longrightarrow> merge_frame B p h h'"
  by (auto simp: merge_frame_def)

theorem skew_heap_merge_refines:
  assumes "shape h (root s) s" "shape h (root t) t" "dtree s" "dtree t"
    and "set_tree s \<inter> set_tree t = {}"
  shows "\<exists>h'. skew_heap_merge cmp (root s) (root t) h = Some (root (smerge cmp s t), h')
    \<and> shape h' (root (smerge cmp s t)) (smerge cmp s t)
    \<and> merge_frame (set_tree s \<union> set_tree t) (root (smerge cmp s t)) h h'"
  using assms
proof (induction cmp s t rule: smerge.induct)
  case (1 cmp t)
  then show ?case by (subst skew_heap_merge.simps) (simp add: merge_frame_def)
next
  case (2 cmp l a r)
  then show ?case by (subst skew_heap_merge.simps) (simp add: merge_frame_def)
next
  case (3 cmp l1 a r1 l2 b r2)
  let ?s = "Node l1 a r1" and ?t = "Node l2 b r2"
  show ?case
  proof (cases "cmp a b = -1")
    case True
    let ?m = "smerge cmp r1 ?t"
    have ra: "right h a = root r1" using 3(3) by (auto dest: shape_root)
    obtain h1 where h1: "skew_heap_merge cmp (root r1) (Some b) h = Some (root ?m, h1)"
      "shape h1 (root ?m) ?m" "merge_frame (set_tree r1 \<union> set_tree ?t) (root ?m) h h1"
      using 3(1)[OF True] 3(3-7) ra by (auto simp: disjoint_iff)
    have m: "dtree ?m" using 3(5-7) by (intro dtree_smerge) auto
    have fr: "merge_frame (set_tree ?m) (root ?m) h h1" using h1(3) by simp
    have d: "dtree l1" "a \<notin> set_tree ?m" "a \<notin> set_tree l1" "set_tree ?m \<inter> set_tree l1 = {}"
      "shape h (left h a) l1" "\<forall>y. root l1 = Some y \<longrightarrow> parent h y = Some a"
      using 3(3-7) by auto
    note * = attach_shape[OF h1(2) fr d(5,6) m d(1-4)]
    have "skew_heap_merge cmp (Some a) (Some b) h
        = Some (Some a, skew_heap_attach a (root ?m) (left h a) h1)"
      using h1(1) ra True by (subst skew_heap_merge.simps) simp
    with * True merge_frame_mono[OF *(2), of "set_tree ?s \<union> set_tree ?t"] show ?thesis by auto
  next
    case False
    let ?m = "smerge cmp ?s r2"
    have rb: "right h b = root r2" using 3(4) by (auto dest: shape_root)
    obtain h1 where h1: "skew_heap_merge cmp (Some a) (root r2) h = Some (root ?m, h1)"
      "shape h1 (root ?m) ?m" "merge_frame (set_tree ?s \<union> set_tree r2) (root ?m) h h1"
      using 3(2)[OF False] 3(3-7) rb by (auto simp: disjoint_iff)
    have m: "dtree ?m" using 3(5-7) by (intro dtree_smerge) auto
    have fr: "merge_frame (set_tree ?m) (root ?m) h h1" using h1(3) by simp
    have d: "dtree l2" "b \<notin> set_tree ?m" "b \<notin> set_tree l2" "set_tree ?m \<inter> set_tree l2 = {}"
      "shape h (left h b) l2" "\<forall>y. root l2 = Some y \<longrightarrow> parent h y = Some b"
      using 3(3-7) by auto
    note * = attach_shape[OF h1(2) fr d(5,6) m d(1-4)]
    have "skew_heap_merge cmp (Some a) (Some b) h
        = Some (Some b, skew_heap_attach b (root ?m) (left h b) h1)"
      using h1(1) rb False by (subst skew_heap_merge.simps) simp
    with * False merge_frame_mono[OF *(2), of "set_tree ?s \<union> set_tree ?t"] show ?thesis by auto
  qed
qed

section \<open>Insertion and removal\<close>

fun sdel :: "compare_f \<Rightarrow> nat \<Rightarrow> nat tree \<Rightarrow> nat tree" where
  "sdel cmp b Leaf = Leaf"
| "sdel cmp b (Node l x r) =
     (if x = b then smerge cmp l r
      else if b \<in> set_tree l then Node (sdel cmp b l) x r else Node l x (sdel cmp b r))"

lemma set_sdel: "dtree t \<Longrightarrow> set_tree (sdel cmp b t) = set_tree t - {b}"
  by (induction t) auto

lemma mset_sdel: "b \<in> set_tree t \<Longrightarrow> mset_tree (sdel cmp b t) = mset_tree t - {#b#}"
proof (induction t)
  case (Node l x r)
  show ?case
  proof (cases "b \<in> set_tree l")
    case True
    then have "b \<in># mset_tree l" by simp
    with True Node show ?thesis by (auto simp: mset_smerge)
  next
    case False
    show ?thesis
    proof (cases "x = b")
      case False
      with Node \<open>b \<notin> set_tree l\<close> have "b \<in># mset_tree r" by simp
      with False Node \<open>b \<notin> set_tree l\<close> show ?thesis by auto
    qed (simp add: mset_smerge)
  qed
qed simp

lemma dtree_sdel: "dtree t \<Longrightarrow> dtree (sdel cmp b t)"
  by (induction t) (auto simp: dtree_smerge set_sdel)

lemma kheap_sdel:
  assumes "kheap key t" "dtree t"
    and "\<forall>x \<in> set_tree t. \<forall>y \<in> set_tree t. cmp x y = -1 \<longleftrightarrow> key x < key y"
  shows "kheap key (sdel cmp b t)"
  using assms by (induction t) (auto simp: set_sdel intro!: kheap_smerge)

lemma skew_heap_insert_refines:
  assumes "shape h (root t) t" "dtree t" "b \<notin> set_tree t"
  shows "\<exists>h'. skew_heap_insert cmp (root t) b h = Some (root (smerge cmp t (Node Leaf b Leaf)), h')
    \<and> shape h' (root (smerge cmp t (Node Leaf b Leaf))) (smerge cmp t (Node Leaf b Leaf))
    \<and> merge_frame (insert b (set_tree t)) (root (smerge cmp t (Node Leaf b Leaf)))
        (skew_heap_init b h) h'"
proof -
  let ?h = "skew_heap_init b h" and ?n = "Node Leaf b Leaf"
  have "shape ?h (root t) t = shape h (root t) t"
    using assms by (intro shape_cong) (auto simp: skew_heap_init_def)
  moreover have "shape ?h (root ?n) ?n" by (simp add: skew_heap_init_def)
  ultimately show ?thesis
    using skew_heap_merge_refines[of ?h t ?n cmp] assms by (auto simp: skew_heap_insert_def)
qed

text \<open>Removing the root.\<close>

lemma skew_heap_remove_root:
  assumes "shape h (Some b) (Node l b r)" "dtree (Node l b r)" "parent h b = None"
  shows "\<exists>h'. skew_heap_remove cmp (Some b) b h = Some (root (smerge cmp l r), h')
    \<and> shape h' (root (smerge cmp l r)) (smerge cmp l r)
    \<and> (\<forall>y. root (smerge cmp l r) = Some y \<longrightarrow> parent h' y = None)"
proof -
  have lr: "left h b = root l" "right h b = root r" using assms(1) by (auto dest: shape_root)
  then obtain h1 where h1: "skew_heap_merge cmp (root l) (root r) h = Some (root (smerge cmp l r), h1)"
    "shape h1 (root (smerge cmp l r)) (smerge cmp l r)"
    using skew_heap_merge_refines[of h l r cmp] assms(1,2) by auto
  have "dtree (smerge cmp l r)" using assms(2) by (simp add: dtree_smerge)
  then have "shape (set_parent (root (smerge cmp l r)) None h1) (root (smerge cmp l r)) (smerge cmp l r)"
    using h1(2) by (subst shape_cong[where h = h1]) (auto simp: set_parent_def split: option.split)
  with h1 lr assms(3) show ?thesis
    by (auto simp: skew_heap_remove_def set_parent_def split: option.split)
qed

text \<open>Removing a child of \<open>x\<close>: one pointer of \<open>x\<close> is redirected.\<close>

lemma skew_heap_remove_child:
  assumes sh: "shape h (Some b) (Node l b r)" and d: "dtree (Node l b r)"
    and p: "parent h b = Some x" and x: "x \<notin> set_tree (Node l b r)"
  shows "\<exists>h'. skew_heap_remove cmp a b h = Some (a, if left h x = Some b
          then h'\<lparr>left := (left h')(x := root (smerge cmp l r))\<rparr>
          else h'\<lparr>right := (right h')(x := root (smerge cmp l r))\<rparr>)
    \<and> shape h' (root (smerge cmp l r)) (smerge cmp l r)
    \<and> (\<forall>y. root (smerge cmp l r) = Some y \<longrightarrow> parent h' y = Some x)
    \<and> (\<forall>y. y \<notin> set_tree (Node l b r) \<longrightarrow>
          left h' y = left h y \<and> right h' y = right h y \<and> parent h' y = parent h y)"
proof -
  let ?m = "smerge cmp l r"
  have lr: "left h b = root l" "right h b = root r" using sh by (auto dest: shape_root)
  then obtain h1 where h1: "skew_heap_merge cmp (root l) (root r) h = Some (root ?m, h1)"
    "shape h1 (root ?m) ?m" "merge_frame (set_tree l \<union> set_tree r) (root ?m) h h1"
    using skew_heap_merge_refines[of h l r cmp] sh d by auto
  let ?h' = "set_parent (root ?m) (Some x) h1"
  have "dtree ?m" using d by (simp add: dtree_smerge)
  then have "shape ?h' (root ?m) ?m"
    using h1(2) by (subst shape_cong[where h = h1]) (auto simp: set_parent_def split: option.split)
  moreover have "left ?h' x = left h x"
    using h1(3) x by (auto simp: set_parent_def merge_frame_def split: option.split)
  moreover have "\<forall>y. y \<notin> set_tree (Node l b r) \<longrightarrow>
      left ?h' y = left h y \<and> right ?h' y = right h y \<and> parent ?h' y = parent h y"
  proof (intro allI impI)
    fix y assume y: "y \<notin> set_tree (Node l b r)"
    have "root ?m \<noteq> Some y" using root_in_tree[of ?m y] y by auto
    with y h1(3) show "left ?h' y = left h y \<and> right ?h' y = right h y \<and> parent ?h' y = parent h y"
      by (auto simp: set_parent_def merge_frame_def split: option.split)
  qed
  moreover have "\<forall>y. root ?m = Some y \<longrightarrow> parent ?h' y = Some x" by (auto simp: set_parent_def)
  moreover have "skew_heap_remove cmp a b h = Some (a, if left ?h' x = Some b
      then ?h'\<lparr>left := (left ?h')(x := root ?m)\<rparr> else ?h'\<lparr>right := (right ?h')(x := root ?m)\<rparr>)"
    using h1(1) lr p by (simp add: skew_heap_remove_def Let_def)
  ultimately show ?thesis by (intro exI[of _ ?h'] conjI) (simp_all only:)
qed

text \<open>Removing a node anywhere below the root \<open>x\<close>: as a child of \<open>x\<close>, or deeper.\<close>

definition at_node :: "skew \<Rightarrow> nat tree \<Rightarrow> nat \<Rightarrow> nat tree \<Rightarrow> bool" where
  "at_node h l x r \<longleftrightarrow> shape h (Some x) (Node l x r) \<and> dtree (Node l x r)"

lemma node_parts:
  assumes "at_node h l x r"
  shows "shape h (root l) l" "shape h (root r) r" "left h x = root l" "right h x = root r"
    "root l = Some y \<Longrightarrow> parent h y = Some x" "root r = Some y \<Longrightarrow> parent h y = Some x"
    "dtree l" "dtree r" "x \<notin> set_tree l" "x \<notin> set_tree r" "set_tree l \<inter> set_tree r = {}"
proof -
  from assms have s: "shape h (left h x) l" "shape h (right h x) r" by (auto simp: at_node_def)
  then show "left h x = root l" "right h x = root r" by (auto dest: shape_root)
  with s show "shape h (root l) l" "shape h (root r) r" by simp_all
qed (use assms in \<open>auto simp: at_node_def\<close>)

lemma skew_heap_remove_lchild:
  assumes node: "at_node h l x r" and lroot: "l = Node l1 b r1"
  shows "\<exists>h'. skew_heap_remove cmp a b h = Some (a, h') \<and> shape h' (Some x) (sdel cmp b (Node l x r))
    \<and> merge_frame (set_tree (Node l x r)) (Some x) h h'"
proof -
  let ?m = "smerge cmp l1 r1"
  note parts = node_parts[OF node]
  note sl = parts(1) and sr = parts(2) and lr = parts(3,4) and pl = parts(5) and pr = parts(6)
    and d = parts(7-11)
  have bx: "b \<noteq> x" using d lroot by auto
  have sb: "shape h (Some b) (Node l1 b r1)" "dtree (Node l1 b r1)" "parent h b = Some x"
    "x \<notin> set_tree (Node l1 b r1)" using sl d pl lroot by auto
  from skew_heap_remove_child[OF this, of cmp a] lr(1) lroot obtain h' where h':
    "skew_heap_remove cmp a b h = Some (a, h'\<lparr>left := (left h')(x := root ?m)\<rparr>)"
    "shape h' (root ?m) ?m" "\<forall>y. root ?m = Some y \<longrightarrow> parent h' y = Some x"
    "\<forall>y. y \<notin> set_tree (Node l1 b r1) \<longrightarrow>
        left h' y = left h y \<and> right h' y = right h y \<and> parent h' y = parent h y" by auto
  let ?g = "h'\<lparr>left := (left h')(x := root ?m)\<rparr>"
  have dm: "dtree ?m" using d(1) lroot by (simp add: dtree_smerge)
  have "shape ?g (root ?m) ?m"
    using h'(2) dm sb(4) by (subst shape_cong[where h = h']) auto
  moreover have "shape ?g (root r) r"
    using sr d h'(4) lroot by (subst shape_cong[where h = h]) (auto simp: disjoint_iff)
  moreover have "right h' x = right h x" "\<And>y. root r = Some y \<Longrightarrow> parent h' y = parent h y"
    using h'(4) sb(4) d(5) lroot root_in_tree[of r] by (auto simp: disjoint_iff)
  ultimately have "shape ?g (Some x) (Node ?m x r)" using h'(3) lr(2) pr by auto
  moreover have "merge_frame (set_tree (Node l x r)) (Some x) h ?g"
    using h'(4) sb(4) lroot by (auto simp: merge_frame_def)
  moreover have "sdel cmp b (Node l x r) = Node ?m x r" using lroot bx by simp
  ultimately show ?thesis using h'(1) by (intro exI[of _ ?g]) simp
qed

lemma skew_heap_remove_rchild:
  assumes node: "at_node h l x r" and rroot: "r = Node l1 b r1"
  shows "\<exists>h'. skew_heap_remove cmp a b h = Some (a, h') \<and> shape h' (Some x) (sdel cmp b (Node l x r))
    \<and> merge_frame (set_tree (Node l x r)) (Some x) h h'"
proof -
  let ?m = "smerge cmp l1 r1"
  note parts = node_parts[OF node]
  note sl = parts(1) and sr = parts(2) and lr = parts(3,4) and pl = parts(5) and pr = parts(6)
    and d = parts(7-11)
  have bx: "b \<noteq> x" using d rroot by auto
  have sb: "shape h (Some b) (Node l1 b r1)" "dtree (Node l1 b r1)" "parent h b = Some x"
    "x \<notin> set_tree (Node l1 b r1)" using sr d pr rroot by auto
  have bl: "b \<notin> set_tree l" using d(5) rroot by auto
  then have nl: "left h x \<noteq> Some b" using lr(1) by (auto dest: root_in_tree)
  from skew_heap_remove_child[OF sb, of cmp a] nl obtain h' where h':
    "skew_heap_remove cmp a b h = Some (a, h'\<lparr>right := (right h')(x := root ?m)\<rparr>)"
    "shape h' (root ?m) ?m" "\<forall>y. root ?m = Some y \<longrightarrow> parent h' y = Some x"
    "\<forall>y. y \<notin> set_tree (Node l1 b r1) \<longrightarrow>
        left h' y = left h y \<and> right h' y = right h y \<and> parent h' y = parent h y" by auto
  let ?g = "h'\<lparr>right := (right h')(x := root ?m)\<rparr>"
  have dm: "dtree ?m" using d(2) rroot by (simp add: dtree_smerge)
  have "shape ?g (root ?m) ?m"
    using h'(2) dm sb(4) by (subst shape_cong[where h = h']) auto
  moreover have "shape ?g (root l) l"
    using sl d h'(4) rroot by (subst shape_cong[where h = h]) (auto simp: disjoint_iff)
  moreover have "left h' x = left h x" "\<And>y. root l = Some y \<Longrightarrow> parent h' y = parent h y"
    using h'(4) sb(4) d(5) rroot root_in_tree[of l] by (auto simp: disjoint_iff)
  ultimately have "shape ?g (Some x) (Node l x ?m)" using h'(3) lr(1) pl by auto
  moreover have "merge_frame (set_tree (Node l x r)) (Some x) h ?g"
    using h'(4) sb(4) rroot by (auto simp: merge_frame_def)
  moreover have "sdel cmp b (Node l x r) = Node l x ?m" using rroot bx bl by simp
  ultimately show ?thesis using h'(1) by (intro exI[of _ ?g]) simp
qed

lemma skew_heap_remove_inner:
  assumes "shape h (root t) t" "dtree t" "b \<in> set_tree t" "root t \<noteq> Some b"
  shows "\<exists>h'. skew_heap_remove cmp a b h = Some (a, h') \<and> shape h' (root t) (sdel cmp b t)
    \<and> merge_frame (set_tree t) (root t) h h'"
  using assms
proof (induction t)
  case Leaf
  then show ?case by simp
next
  case (Node l x r)
  then have node: "at_node h l x r" and bx: "b \<noteq> x" by (auto simp: at_node_def)
  note parts = node_parts[OF node]
  note sl = parts(1) and sr = parts(2) and lr = parts(3,4) and pl = parts(5) and pr = parts(6)
    and d = parts(7-11)
  consider (lroot) l1 r1 where "l = Node l1 b r1" | (rroot) l1 r1 where "r = Node l1 b r1"
    | (inl) "b \<in> set_tree l" "root l \<noteq> Some b" | (inr) "b \<in> set_tree r" "root r \<noteq> Some b"
  proof -
    have "b \<in> set_tree l \<or> b \<in> set_tree r" using Node.prems(3) bx by auto
    moreover have "root l = Some b \<Longrightarrow> \<exists>l1 r1. l = Node l1 b r1" by (cases l) auto
    moreover have "root r = Some b \<Longrightarrow> \<exists>l1 r1. r = Node l1 b r1" by (cases r) auto
    ultimately show ?thesis using that by blast
  qed
  then show ?case
  proof cases
    case lroot
    from skew_heap_remove_lchild[OF node this] show ?thesis by simp
  next
    case rroot
    from skew_heap_remove_rchild[OF node this] show ?thesis by simp
  next
    case inl
    from Node.IH(1)[OF sl d(1) inl] obtain h' where h': "skew_heap_remove cmp a b h = Some (a, h')"
      "shape h' (root l) (sdel cmp b l)" "merge_frame (set_tree l) (root l) h h'" by blast
    have rt: "root (sdel cmp b l) = root l" using h'(2) by (auto dest: shape_root)
    have "shape h' (root r) r"
      using sr d h'(3) by (subst shape_cong[where h = h]) (auto simp: disjoint_iff merge_frame_def)
    moreover have "parent h' y = parent h y" if "root r = Some y" for y
      using that h'(3) d(5) root_in_tree[of r y] by (auto simp: merge_frame_def disjoint_iff)
    ultimately have "shape h' (Some x) (sdel cmp b (Node l x r))"
      using h' rt lr pl pr d(3) inl bx by (auto simp: merge_frame_def)
    moreover have "merge_frame (set_tree (Node l x r)) (Some x) h h'"
      using h'(3) d(3) by (auto simp: merge_frame_def)
    ultimately show ?thesis using h'(1) inl bx by auto
  next
    case inr
    from Node.IH(2)[OF sr d(2) inr] obtain h' where h': "skew_heap_remove cmp a b h = Some (a, h')"
      "shape h' (root r) (sdel cmp b r)" "merge_frame (set_tree r) (root r) h h'" by blast
    have rt: "root (sdel cmp b r) = root r" using h'(2) by (auto dest: shape_root)
    have bl: "b \<notin> set_tree l" using d(5) inr by auto
    have "shape h' (root l) l"
      using sl d h'(3) by (subst shape_cong[where h = h]) (auto simp: disjoint_iff merge_frame_def)
    moreover have "parent h' y = parent h y" if "root l = Some y" for y
      using that h'(3) d(5) root_in_tree[of l y] by (auto simp: merge_frame_def disjoint_iff)
    ultimately have "shape h' (Some x) (sdel cmp b (Node l x r))"
      using h' rt lr pl pr d(4) bl bx by (auto simp: merge_frame_def)
    moreover have "merge_frame (set_tree (Node l x r)) (Some x) h h'"
      using h'(3) d(4) by (auto simp: merge_frame_def)
    ultimately show ?thesis using h'(1) bl bx by auto
  qed
qed

end
