(* ===== verification/Process.thy ===== *)
theory Process
  imports Linked_List Skew_Heap "HOL-Library.Word"
begin

text \<open>
  The process table of \<open>kern/process/proc.c\<close>: process control blocks, the list of all
  processes, the pid hash table, the family pointers, and the allocation of process
  numbers.  A \<open>struct proc_struct *\<close> is a natural number, the null pointer is
  \<^term>\<open>None\<close>; the block at an address is \<open>procs s p\<close>.  The state record also holds what
  the scheduler (\<open>Run_Queue\<close>, \<open>Sched\<close>) keeps.  Each family of embedded list entries
  (\<open>list_link\<close>, \<open>hash_link\<close>, \<open>run_link\<close>) has its own pair of pointer functions.
\<close>

section \<open>Process control blocks and the kernel state\<close>

datatype proc_state = PROC_UNINIT | PROC_SLEEPING | PROC_RUNNABLE | PROC_ZOMBIE

record proc_struct =
  state :: proc_state
  pid :: int
  runs :: int
  kstack :: nat
  need_resched :: bool
  pparent :: "nat option"
  mm :: "nat option"
  pgdir :: nat
  flags :: "32 word"
  pname :: "char list"
  exit_code :: int
  wait_state :: "32 word"
  cptr :: "nat option"
  yptr :: "nat option"
  optr :: "nat option"
  on_rq :: bool
  time_slice :: int
  lab6_stride :: "32 word"
  lab6_priority :: "32 word"
  filesp :: "nat option"

datatype proc_node = ProcList | ProcLink nat
datatype hash_node = HashList nat | HashLink nat
datatype run_node = RunList | RunLink nat
datatype timer_node = TimerList | TimerLink nat

text \<open>\<open>timer_t\<close> of \<open>kern/schedule/sched.h\<close>, without its embedded list entry.\<close>

record timer =
  expires :: nat
  tproc :: nat

record kstate =
  procs :: "nat \<Rightarrow> proc_struct"
  proc_links :: "proc_node links"
  hash_links :: "hash_node links"
  run_links :: "run_node links"
  proc_num :: nat
  max_time_slice :: int
  lab6_run_pool :: "nat option"
  pool :: skew
  timers :: "nat \<Rightarrow> timer"
  timer_links :: "timer_node links"
  satp :: nat
  nr_process :: int
  current :: nat
  idleproc :: nat
  initproc :: nat
  last_pid :: int
  next_safe :: int

definition upd_proc :: "nat \<Rightarrow> (proc_struct \<Rightarrow> proc_struct) \<Rightarrow> kstate \<Rightarrow> kstate" where
  "upd_proc p f s = s\<lparr>procs := (procs s)(p := f (procs s p))\<rparr>"

abbreviation MAX_PROCESS :: int where "MAX_PROCESS \<equiv> 4096"
abbreviation MAX_PID :: int where "MAX_PID \<equiv> 8192"
abbreviation PROC_NAME_LEN :: nat where "PROC_NAME_LEN \<equiv> 15"

definition WT_INTERRUPTED :: "32 word" where "WT_INTERRUPTED = 0x80000000"
definition WT_CHILD :: "32 word" where "WT_CHILD = or 1 WT_INTERRUPTED"
definition WT_KSEM :: "32 word" where "WT_KSEM = 0x100"
definition WT_TIMER :: "32 word" where "WT_TIMER = or 2 WT_INTERRUPTED"
definition PF_EXITING :: "32 word" where "PF_EXITING = 1"

text \<open>
  \<open>alloc_proc\<close>, given what \<open>kmalloc\<close> returned.  The exit code is not initialised, and the
  lst byte of the name keeps what the memory held.
\<close>

definition alloc_proc :: "nat option \<Rightarrow> nat \<Rightarrow> kstate \<Rightarrow> nat option \<times> kstate" where
  "alloc_proc m boot_pgdir_pa s =
     (case m of None \<Rightarrow> (None, s)
      | Some p \<Rightarrow>
          let s1 = upd_proc p (\<lambda>pr. \<lparr>state = PROC_UNINIT, pid = -1, runs = 0, kstack = 0,
                 need_resched = False, pparent = None, mm = None, pgdir = boot_pgdir_pa,
                 flags = 0, pname = replicate PROC_NAME_LEN (CHR 0x00) @ drop PROC_NAME_LEN (pname pr),
                 exit_code = exit_code pr, wait_state = 0, cptr = None, yptr = None,
                 optr = None, on_rq = False, time_slice = 0, lab6_stride = 0,
                 lab6_priority = 0, filesp = None\<rparr>) s
          in (Some p, s1\<lparr>proc_links := list_init (ProcLink p) (proc_links s1),
                         hash_links := list_init (HashLink p) (hash_links s1),
                         run_links := list_init (RunLink p) (run_links s1),
                         pool := skew_heap_init p (pool s1)\<rparr>))"

text \<open>The two name functions; the argument is the memory the source pointer points to.\<close>

definition set_proc_name :: "nat \<Rightarrow> (nat \<Rightarrow> char) \<Rightarrow> kstate \<Rightarrow> kstate" where
  "set_proc_name p nm s =
     upd_proc p (pname_update (\<lambda>_. map nm [0..<PROC_NAME_LEN] @ [CHR 0x00])) s"

definition get_proc_name :: "nat \<Rightarrow> kstate \<Rightarrow> char list" where
  "get_proc_name p s = take PROC_NAME_LEN (pname (procs s p)) @ [CHR 0x00]"

section \<open>Links between processes\<close>

definition set_links :: "nat \<Rightarrow> kstate \<Rightarrow> kstate option" where
  "set_links p s =
     (let s1 = s\<lparr>proc_links := list_add ProcList (ProcLink p) (proc_links s)\<rparr>;
          s2 = upd_proc p (yptr_update (\<lambda>_. None)) s1
      in case pparent (procs s2 p) of
           None \<Rightarrow> None
         | Some q \<Rightarrow>
             let s3 = upd_proc p (optr_update (\<lambda>_. cptr (procs s2 q))) s2;
                 s4 = (case optr (procs s3 p) of
                         None \<Rightarrow> s3
                       | Some o' \<Rightarrow> upd_proc o' (yptr_update (\<lambda>_. Some p)) s3);
                 s5 = upd_proc q (cptr_update (\<lambda>_. Some p)) s4
             in Some (s5\<lparr>nr_process := nr_process s5 + 1\<rparr>))"

definition remove_links :: "nat \<Rightarrow> kstate \<Rightarrow> kstate option" where
  "remove_links p s =
     (let s1 = s\<lparr>proc_links := list_del (ProcLink p) (proc_links s)\<rparr>;
          s2 = (case optr (procs s1 p) of
                  None \<Rightarrow> s1
                | Some o' \<Rightarrow> upd_proc o' (yptr_update (\<lambda>_. yptr (procs s1 p))) s1)
      in do {
        s3 \<leftarrow> (case yptr (procs s2 p) of
                Some y \<Rightarrow> Some (upd_proc y (optr_update (\<lambda>_. optr (procs s2 p))) s2)
              | None \<Rightarrow> (case pparent (procs s2 p) of
                  None \<Rightarrow> None
                | Some q \<Rightarrow> Some (upd_proc q (cptr_update (\<lambda>_. optr (procs s2 p))) s2)));
        Some (s3\<lparr>nr_process := nr_process s3 - 1\<rparr>) })"

section \<open>Process numbers\<close>

text \<open>One pass over the process list: it ends, or it asks to be repeated.\<close>

datatype pid_scan = Scan_done int int | Scan_repeat int int

partial_function (option) get_pid_scan ::
  "kstate \<Rightarrow> proc_node \<Rightarrow> int \<Rightarrow> int \<Rightarrow> pid_scan option" where
  "get_pid_scan s le lst safe =
     (case list_next (proc_links s) le of
        ProcList \<Rightarrow> Some (Scan_done lst safe)
      | ProcLink p \<Rightarrow>
          if pid (procs s p) = lst
          then if lst + 1 \<ge> safe
               then Some (Scan_repeat (if lst + 1 \<ge> MAX_PID then 1 else lst + 1) MAX_PID)
               else get_pid_scan s (ProcLink p) (lst + 1) safe
          else if pid (procs s p) > lst \<and> safe > pid (procs s p)
               then get_pid_scan s (ProcLink p) lst (pid (procs s p))
               else get_pid_scan s (ProcLink p) lst safe)"

partial_function (option) get_pid_repeat :: "kstate \<Rightarrow> int \<Rightarrow> int \<Rightarrow> (int \<times> int) option" where
  "get_pid_repeat s lst safe = do {
     r \<leftarrow> get_pid_scan s ProcList lst safe;
     (case r of Scan_done l n \<Rightarrow> Some (l, n)
      | Scan_repeat l n \<Rightarrow> get_pid_repeat s l n) }"

definition get_pid :: "kstate \<Rightarrow> (int \<times> kstate) option" where
  "get_pid s =
     (let lp = last_pid s + 1 in
      if lp \<ge> MAX_PID then do {
        (l, n) \<leftarrow> get_pid_repeat s 1 MAX_PID;
        Some (l, s\<lparr>last_pid := l, next_safe := n\<rparr>) }
      else if lp \<ge> next_safe s then do {
        (l, n) \<leftarrow> get_pid_repeat s lp MAX_PID;
        Some (l, s\<lparr>last_pid := l, next_safe := n\<rparr>) }
      else Some (lp, s\<lparr>last_pid := lp\<rparr>))"

declare get_pid_scan.simps [code] get_pid_repeat.simps [code]

section \<open>The pid hash table\<close>

text \<open>\<open>hash32\<close> of \<open>libs/hash.c\<close>, and the hash function of the process table.\<close>

definition hash32 :: "32 word \<Rightarrow> nat \<Rightarrow> 32 word" where
  "hash32 val bits = drop_bit (32 - bits) (val * 0x9e370001)"

definition pid_hashfn :: "int \<Rightarrow> nat" where
  "pid_hashfn x = unat (hash32 (word_of_int x) 10)"

definition hash_proc :: "nat \<Rightarrow> kstate \<Rightarrow> kstate" where
  "hash_proc p s = s\<lparr>hash_links :=
     list_add (HashList (pid_hashfn (pid (procs s p)))) (HashLink p) (hash_links s)\<rparr>"

definition unhash_proc :: "nat \<Rightarrow> kstate \<Rightarrow> kstate" where
  "unhash_proc p s = s\<lparr>hash_links := list_del (HashLink p) (hash_links s)\<rparr>"

partial_function (option) find_proc_loop ::
  "kstate \<Rightarrow> int \<Rightarrow> hash_node \<Rightarrow> hash_node \<Rightarrow> nat option option" where
  "find_proc_loop s n l le =
     (let le' = list_next (hash_links s) le in
      if le' = l then Some None
      else case le' of
        HashList b \<Rightarrow> None
      | HashLink p \<Rightarrow> if pid (procs s p) = n then Some (Some p) else find_proc_loop s n l le')"

definition find_proc :: "int \<Rightarrow> kstate \<Rightarrow> nat option option" where
  "find_proc n s =
     (if 0 < n \<and> n < MAX_PID
      then let l = HashList (pid_hashfn n) in find_proc_loop s n l l
      else Some None)"

declare find_proc_loop.simps [code]

lemma upd_proc_simps [simp]:
  "procs (upd_proc p f s) = (procs s)(p := f (procs s p))"
  "proc_links (upd_proc p f s) = proc_links s" "hash_links (upd_proc p f s) = hash_links s"
  "run_links (upd_proc p f s) = run_links s" "proc_num (upd_proc p f s) = proc_num s"
  "max_time_slice (upd_proc p f s) = max_time_slice s" "nr_process (upd_proc p f s) = nr_process s"
  "current (upd_proc p f s) = current s" "idleproc (upd_proc p f s) = idleproc s"
  "initproc (upd_proc p f s) = initproc s" "last_pid (upd_proc p f s) = last_pid s"
  "next_safe (upd_proc p f s) = next_safe s" "lab6_run_pool (upd_proc p f s) = lab6_run_pool s"
  "pool (upd_proc p f s) = pool s" "timers (upd_proc p f s) = timers s"
  "timer_links (upd_proc p f s) = timer_links s" "satp (upd_proc p f s) = satp s"
  by (simp_all add: upd_proc_def)

section \<open>get\_pid returns an unused number\<close>

abbreviation plist :: "kstate \<Rightarrow> nat list \<Rightarrow> bool" where
  "plist s ps \<equiv> dlist (proc_links s) ProcList (map ProcLink ps)"

abbreviation pids :: "kstate \<Rightarrow> nat list \<Rightarrow> int list" where
  "pids s ps \<equiv> map (\<lambda>p. pid (procs s p)) ps"

fun scan :: "int list \<Rightarrow> int \<Rightarrow> int \<Rightarrow> pid_scan" where
  "scan [] lst safe = Scan_done lst safe"
| "scan (q # qs) lst safe =
     (if q = lst
      then if lst + 1 \<ge> safe
           then Scan_repeat (if lst + 1 \<ge> MAX_PID then 1 else lst + 1) MAX_PID
           else scan qs (lst + 1) safe
      else if q > lst \<and> safe > q then scan qs lst q else scan qs lst safe)"

lemma get_pid_scan_scan:
  assumes "plist s (pre @ ps)"
  shows "get_pid_scan s (last (ProcList # map ProcLink pre)) l n = Some (scan (pids s ps) l n)"
  using assms
proof (induction ps arbitrary: pre l n)
  case Nil
  then have "list_next (proc_links s) (last (ProcList # map ProcLink pre)) = ProcList"
    using dlist_nxt_pos[of "proc_links s" ProcList "map ProcLink pre" "[]"] by (simp add: list_next_def)
  then show ?case by (subst get_pid_scan.simps) simp
next
  case (Cons p ps)
  then have "list_next (proc_links s) (last (ProcList # map ProcLink pre)) = ProcLink p"
    using dlist_nxt_pos[of "proc_links s" ProcList "map ProcLink pre" "map ProcLink (p # ps)"]
    by (simp add: list_next_def)
  moreover have "get_pid_scan s (ProcLink p) l' n' = Some (scan (pids s ps) l' n')" for l' n'
    using Cons.IH[of "pre @ [p]"] Cons.prems by simp
  ultimately show ?case by (subst get_pid_scan.simps) simp
qed

text \<open>No number of the list lies in \<open>[l, n)\<close>.\<close>

definition gap :: "int set \<Rightarrow> int \<Rightarrow> int \<Rightarrow> bool" where
  "gap U l n \<longleftrightarrow> U \<inter> {l..<n} = {}"

lemma scan_done:
  assumes "scan qs l n = Scan_done l' n'" "gap U l n" "l < n" "n \<le> MAX_PID"
  shows "gap (U \<union> set qs) l' n' \<and> l \<le> l' \<and> l' < n' \<and> n' \<le> MAX_PID"
  using assms
proof (induction qs arbitrary: U l n)
  case Nil
  then show ?case by simp
next
  case (Cons q qs)
  have "\<exists>l2 n2. scan qs l2 n2 = Scan_done l' n' \<and> gap (insert q U) l2 n2 \<and> l2 < n2 \<and> n2 \<le> MAX_PID \<and> l \<le> l2"
    using Cons.prems by (fastforce simp: gap_def split: if_splits)
  then obtain l2 n2 where "scan qs l2 n2 = Scan_done l' n'" "gap (insert q U) l2 n2" "l2 < n2"
    "n2 \<le> MAX_PID" "l \<le> l2" by blast
  from Cons.IH[OF this(1-4)] \<open>l \<le> l2\<close> show ?case by auto
qed

lemma scan_repeat:
  assumes "scan qs l n = Scan_repeat l' n'"
  shows "n' = MAX_PID \<and> (\<exists>k > l. l' = (if k \<ge> MAX_PID then 1 else k) \<and> {l..<k} \<subseteq> set qs)"
  using assms
proof (induction qs arbitrary: l n)
  case Nil
  then show ?case by simp
next
  case (Cons q qs)
  show ?case
  proof (cases "q = l \<and> l + 1 < n")
    case True
    with Cons.prems have "scan qs (l + 1) n = Scan_repeat l' n'" by auto
    from Cons.IH[OF this] obtain k where k: "n' = MAX_PID" "k > l + 1"
      "l' = (if k \<ge> MAX_PID then 1 else k)" "{l + 1..<k} \<subseteq> set qs" by blast
    have "{l..<k} = insert l {l + 1..<k}" using k(2) by auto
    then have "{l..<k} \<subseteq> set (q # qs)" using True k(4) by auto
    with k show ?thesis by (intro conjI exI[of _ k]) auto
  next
    case False
    show ?thesis
    proof (cases "q = l")
      case True
      have "{l..<l + 1} \<subseteq> set (q # qs)" using True by auto
      with True False Cons.prems show ?thesis by (intro conjI exI[of _ "l + 1"]) (auto split: if_splits)
    next
      case False
      with Cons.prems obtain n2 where "scan qs l n2 = Scan_repeat l' n'" by (auto split: if_splits)
      from Cons.IH[OF this] show ?thesis by force
    qed
  qed
qed

lemma get_pid_repeat_unfold:
  assumes "plist s ps"
  shows "get_pid_repeat s l n = (case scan (pids s ps) l n of
     Scan_done l' n' \<Rightarrow> Some (l', n') | Scan_repeat l' n' \<Rightarrow> get_pid_repeat s l' n')"
  using get_pid_scan_scan[of s "[]" ps l n] assms by (subst get_pid_repeat.simps) simp

definition repeat_ok :: "kstate \<Rightarrow> nat list \<Rightarrow> int \<Rightarrow> bool" where
  "repeat_ok s ps l \<longleftrightarrow> (\<exists>l' n'. get_pid_repeat s l MAX_PID = Some (l', n')
     \<and> gap (set (pids s ps)) l' n' \<and> l' < n' \<and> n' \<le> MAX_PID \<and> 1 \<le> l')"

lemma repeat_ok_done:
  assumes "plist s ps" "scan (pids s ps) l MAX_PID = Scan_done l' n'" "1 \<le> l" "l < MAX_PID"
  shows "repeat_ok s ps l"
  using scan_done[OF assms(2), of "{}"] assms get_pid_repeat_unfold[OF assms(1), of l MAX_PID]
  by (auto simp: repeat_ok_def gap_def)

text \<open>With a free number at or above \<open>l\<close> the repetition ends without wrapping around.\<close>

lemma repeat_reaches_free:
  assumes "plist s ps" "f \<notin> set (pids s ps)" "f < MAX_PID" "1 \<le> l" "l \<le> f"
  shows "repeat_ok s ps l"
  using assms(4,5)
proof (induction "nat (f - l)" arbitrary: l rule: less_induct)
  case less
  show ?case
  proof (cases "scan (pids s ps) l MAX_PID")
    case (Scan_done l' n')
    with less.prems assms show ?thesis by (intro repeat_ok_done) auto
  next
    case (Scan_repeat l' n')
    from scan_repeat[OF this] obtain k where k: "n' = MAX_PID" "k > l"
      "l' = (if k \<ge> MAX_PID then 1 else k)" "{l..<k} \<subseteq> set (pids s ps)" by blast
    have "k \<le> f"
    proof (rule ccontr)
      assume "\<not> k \<le> f"
      with less.prems have "f \<in> {l..<k}" by simp
      with k(4) assms(2) show False by blast
    qed
    with k less.prems assms(3) have "repeat_ok s ps k" by (intro less.hyps) auto
    with Scan_repeat k \<open>k \<le> f\<close> assms(3) show ?thesis
      by (simp add: repeat_ok_def get_pid_repeat_unfold[OF assms(1), of l])
  qed
qed

lemma repeat_terminates:
  assumes "plist s ps" "f \<notin> set (pids s ps)" "f < MAX_PID" "1 \<le> f" "1 \<le> l" "l < MAX_PID"
  shows "repeat_ok s ps l"
  using assms(5,6)
proof (induction "nat (MAX_PID - l)" arbitrary: l rule: less_induct)
  case less
  show ?case
  proof (cases "scan (pids s ps) l MAX_PID")
    case (Scan_done l' n')
    with less.prems assms show ?thesis by (intro repeat_ok_done) auto
  next
    case (Scan_repeat l' n')
    from scan_repeat[OF this] obtain k where k: "n' = MAX_PID" "k > l"
      "l' = (if k \<ge> MAX_PID then 1 else k)" by blast
    have "repeat_ok s ps l'"
    proof (cases "k \<ge> MAX_PID")
      case True
      with k have "l' = 1" by simp
      with repeat_reaches_free[OF assms(1-3), of 1] assms(4) show ?thesis by simp
    next
      case False
      with k less.prems show ?thesis by (intro less.hyps) auto
    qed
    with Scan_repeat k(1) show ?thesis
      by (simp add: repeat_ok_def get_pid_repeat_unfold[OF assms(1), of l])
  qed
qed

text \<open>The invariant between calls: the numbers from \<open>last_pid\<close> up to \<open>next_safe\<close> are unused.\<close>

definition pid_inv :: "kstate \<Rightarrow> nat list \<Rightarrow> bool" where
  "pid_inv s ps \<longleftrightarrow> plist s ps \<and> 1 \<le> last_pid s \<and> next_safe s \<le> MAX_PID
     \<and> gap (set (pids s ps)) (last_pid s + 1) (next_safe s)"

lemma free_pid_exists:
  assumes "length ps < nat MAX_PID - 1"
  shows "\<exists>f. f \<notin> set (pids s ps) \<and> 1 \<le> f \<and> f < MAX_PID"
proof (rule ccontr)
  assume "\<not> ?thesis"
  then have "{1..<MAX_PID} \<subseteq> set (pids s ps)" by (auto simp: not_le not_less)
  then have "card {1..<MAX_PID} \<le> card (set (pids s ps))" by (intro card_mono) auto
  also have "\<dots> \<le> length ps" using card_length[of "pids s ps"] by simp
  finally show False using assms by simp
qed

lemma get_pid_fresh:
  assumes inv: "pid_inv s ps" and few: "length ps < nat MAX_PID - 1"
  shows "\<exists>n s'. get_pid s = Some (n, s') \<and> 1 \<le> n \<and> n < MAX_PID \<and> n \<notin> set (pids s ps)
    \<and> pid_inv s' ps \<and> gap (insert n (set (pids s ps))) (last_pid s' + 1) (next_safe s')"
proof -
  from inv have pl: "plist s ps" and lp: "1 \<le> last_pid s" and sf: "next_safe s \<le> MAX_PID"
    and g: "gap (set (pids s ps)) (last_pid s + 1) (next_safe s)" by (auto simp: pid_inv_def)
  have rep: ?thesis if "get_pid s = do { (l, n) \<leftarrow> get_pid_repeat s l0 MAX_PID;
        Some (l, s\<lparr>last_pid := l, next_safe := n\<rparr>) }" "1 \<le> l0" "l0 < MAX_PID" for l0
  proof -
    from free_pid_exists[OF few] obtain f where "f \<notin> set (pids s ps)" "1 \<le> f" "f < MAX_PID" by blast
    from repeat_terminates[OF pl this(1,3,2) that(2,3)] obtain l n where
      "get_pid_repeat s l0 MAX_PID = Some (l, n)" "gap (set (pids s ps)) l n" "l < n" "n \<le> MAX_PID" "1 \<le> l"
      by (auto simp: repeat_ok_def)
    with that(1) pl show ?thesis by (auto simp: pid_inv_def gap_def disjoint_iff)
  qed
  consider "last_pid s + 1 \<ge> MAX_PID" | "last_pid s + 1 < MAX_PID" "last_pid s + 1 \<ge> next_safe s"
    | "last_pid s + 1 < next_safe s" by linarith
  then show ?thesis
  proof cases
    case 1
    then show ?thesis by (intro rep[of 1]) (simp_all add: get_pid_def)
  next
    case 2
    with lp show ?thesis by (intro rep[of "last_pid s + 1"]) (simp_all add: get_pid_def)
  next
    case 3
    with sf have "get_pid s = Some (last_pid s + 1, s\<lparr>last_pid := last_pid s + 1\<rparr>)"
      by (simp add: get_pid_def Let_def)
    with 3 lp sf g pl show ?thesis by (auto simp: pid_inv_def gap_def disjoint_iff)
  qed
qed

text \<open>C29. \<open>get_pid\<close> always returns, although its search restarts and wraps around: the number it
  returns is in the range \<open>[1, MAX_PID)\<close>, no process of the list has it, and the cached
  interval of safe numbers is again correct, also after the new process is linked under that
  number.\<close>

theorem get_pid_unused:
  assumes "pid_inv s ps" "length ps < nat MAX_PID - 1"
  shows "\<exists>n s'. get_pid s = Some (n, s') \<and> 1 \<le> n \<and> n < MAX_PID \<and> n \<notin> set (pids s ps)
    \<and> pid_inv s' ps \<and> gap (insert n (set (pids s ps))) (last_pid s' + 1) (next_safe s')"
  using assms by (rule get_pid_fresh)

text \<open>A process table at boot: one process with number 0, as after \<open>proc_init\<close> set up idle.\<close>

definition idle_proc :: proc_struct where
  "idle_proc = \<lparr>state = PROC_RUNNABLE, pid = 0, runs = 0, kstack = 0, need_resched = True,
     pparent = None, mm = None, pgdir = 0, flags = 0, pname = [], exit_code = 0, wait_state = 0,
     cptr = None, yptr = None, optr = None, on_rq = False, time_slice = 0, lab6_stride = 0,
     lab6_priority = 0, filesp = None\<rparr>"

definition boot_state :: kstate where
  "boot_state = \<lparr>procs = (\<lambda>p. idle_proc\<lparr>pid := int p\<rparr>),
     proc_links = \<lparr>nxt = (\<lambda>x. x), prv = (\<lambda>x. x)\<rparr>, hash_links = \<lparr>nxt = (\<lambda>x. x), prv = (\<lambda>x. x)\<rparr>,
     run_links = \<lparr>nxt = (\<lambda>x. x), prv = (\<lambda>x. x)\<rparr>, proc_num = 0, max_time_slice = 5,
     lab6_run_pool = None, pool = \<lparr>parent = (\<lambda>_. None), left = (\<lambda>_. None), right = (\<lambda>_. None)\<rparr>,
     timers = (\<lambda>_. \<lparr>expires = 0, tproc = 0\<rparr>), timer_links = \<lparr>nxt = (\<lambda>x. x), prv = (\<lambda>x. x)\<rparr>, satp = 0,
     nr_process = 1, current = 0, idleproc = 0, initproc = 1, last_pid = MAX_PID,
     next_safe = MAX_PID\<rparr>"

text \<open>The boot state with processes 1 and 2 on the process list.\<close>

definition boot_two :: kstate where
  "boot_two = boot_state\<lparr>proc_links := list_add ProcList (ProcLink 2)
     (list_add ProcList (ProcLink 1) (proc_links boot_state))\<rparr>"

lemma boot_two_inv: "pid_inv boot_two [2, 1]"
  by (simp add: pid_inv_def gap_def boot_two_def boot_state_def idle_proc_def dlist_def list_defs)

theorem get_pid_unused_witness:
  "\<exists>n s'. get_pid boot_two = Some (n, s') \<and> 1 \<le> n \<and> n < MAX_PID \<and> n \<notin> set (pids boot_two [2, 1])
    \<and> pid_inv s' [2, 1] \<and> gap (insert n (set (pids boot_two [2, 1]))) (last_pid s' + 1) (next_safe s')"
  by (rule get_pid_unused[OF boot_two_inv]) simp

section \<open>The family pointers\<close>

fun opt_hd :: "'a list \<Rightarrow> 'a option" where
  "opt_hd [] = None"
| "opt_hd (x # xs) = Some x"

text \<open>\<open>sibs s q y xs\<close>: the blocks \<open>xs\<close> are chained by \<open>optr\<close>, back by \<open>yptr\<close>, the first has
  the younger sibling \<open>y\<close>, and all have the parent \<open>q\<close>.\<close>

fun sibs :: "kstate \<Rightarrow> nat \<Rightarrow> nat option \<Rightarrow> nat list \<Rightarrow> bool" where
  "sibs s q y [] = True"
| "sibs s q y (x # xs) \<longleftrightarrow> yptr (procs s x) = y \<and> optr (procs s x) = opt_hd xs
     \<and> pparent (procs s x) = Some q \<and> sibs s q (Some x) xs"

definition children :: "kstate \<Rightarrow> nat \<Rightarrow> nat list \<Rightarrow> bool" where
  "children s q xs \<longleftrightarrow> distinct (q # xs) \<and> cptr (procs s q) = opt_hd xs \<and> sibs s q None xs"

lemma sibs_cong:
  assumes "\<And>x. x \<in> set xs \<Longrightarrow> yptr (procs s' x) = yptr (procs s x)
      \<and> optr (procs s' x) = optr (procs s x) \<and> pparent (procs s' x) = pparent (procs s x)"
  shows "sibs s' q y xs = sibs s q y xs"
  using assms by (induction xs arbitrary: y) auto

lemma set_links_family:
  assumes ch: "children s q xs" and pl: "plist s ps" and p: "pparent (procs s p) = Some q"
    "p \<notin> set (q # xs)" "p \<notin> set ps"
  shows "\<exists>s'. set_links p s = Some s' \<and> children s' q (p # xs) \<and> plist s' (p # ps)
    \<and> nr_process s' = nr_process s + 1"
proof -
  let ?h = "list_add ProcList (ProcLink p) (proc_links s)"
  have "dlist ?h ProcList (map ProcLink (p # ps))"
    using dlist_add_head[OF pl] p(3) by auto
  moreover have q: "q \<notin> set xs" "distinct xs" "cptr (procs s q) = opt_hd xs" "sibs s q None xs"
    using ch by (auto simp: children_def)
  moreover obtain s' where s': "set_links p s = Some s'" using p(1) by (auto simp: set_links_def Let_def)
  moreover have "sibs s' q (Some p) xs" "optr (procs s' p) = opt_hd xs" "yptr (procs s' p) = None"
    "pparent (procs s' p) = Some q" "cptr (procs s' q) = Some p" "proc_links s' = ?h"
    "nr_process s' = nr_process s + 1"
  proof -
    show "sibs s' q (Some p) xs"
    proof (cases xs)
      case (Cons x zs)
      with q have "sibs s q (Some x) zs" by simp
      then have "sibs s' q (Some x) zs"
        using s' p q Cons by (subst sibs_cong[where s = s]) (auto simp: set_links_def Let_def)
      with s' p q Cons show ?thesis by (auto simp: set_links_def Let_def)
    qed simp
  qed (use s' p q in \<open>cases xs; auto simp: set_links_def Let_def\<close>)+
  ultimately show ?thesis using p(2) by (intro exI[of _ s']) (auto simp: children_def)
qed

text \<open>The family fields after an update of one of them.\<close>

lemma family_upd:
  "yptr (procs (upd_proc p (yptr_update f) s) x) = (if x = p then f (yptr (procs s x)) else yptr (procs s x))"
  "yptr (procs (upd_proc p (optr_update f) s) x) = yptr (procs s x)"
  "yptr (procs (upd_proc p (cptr_update f) s) x) = yptr (procs s x)"
  "optr (procs (upd_proc p (optr_update f) s) x) = (if x = p then f (optr (procs s x)) else optr (procs s x))"
  "optr (procs (upd_proc p (yptr_update f) s) x) = optr (procs s x)"
  "optr (procs (upd_proc p (cptr_update f) s) x) = optr (procs s x)"
  "cptr (procs (upd_proc p (cptr_update f) s) x) = (if x = p then f (cptr (procs s x)) else cptr (procs s x))"
  "cptr (procs (upd_proc p (yptr_update f) s) x) = cptr (procs s x)"
  "cptr (procs (upd_proc p (optr_update f) s) x) = cptr (procs s x)"
  "pparent (procs (upd_proc p (yptr_update f) s) x) = pparent (procs s x)"
  "pparent (procs (upd_proc p (optr_update f) s) x) = pparent (procs s x)"
  "pparent (procs (upd_proc p (cptr_update f) s) x) = pparent (procs s x)"
  by simp_all

text \<open>A child chain split at one member.\<close>

lemma sibs_split:
  "sibs s q y (us @ p # vs) \<Longrightarrow> yptr (procs s p) = (if us = [] then y else Some (last us))
     \<and> optr (procs s p) = opt_hd vs \<and> pparent (procs s p) = Some q \<and> sibs s q (Some p) vs"
proof (induction us arbitrary: y)
  case Nil
  then show ?case by simp
next
  case (Cons u us)
  then have "sibs s q (Some u) (us @ p # vs)" by simp
  from Cons.IH[OF this] show ?case by (cases "us = []") simp_all
qed

text \<open>The chain after its middle member was bypassed in both directions.\<close>

lemma sibs_bypass:
  assumes "sibs s q y (us @ p # vs)" "distinct (us @ p # vs)"
    and "us \<noteq> [] \<Longrightarrow> optr (procs s' (last us)) = opt_hd vs"
    and "vs \<noteq> [] \<Longrightarrow> yptr (procs s' (hd vs)) = (if us = [] then y else Some (last us))"
    and "\<And>x. x \<in> set us \<Longrightarrow> yptr (procs s' x) = yptr (procs s x) \<and> pparent (procs s' x) = pparent (procs s x)"
    and "\<And>x. x \<in> set us \<Longrightarrow> x \<noteq> last us \<Longrightarrow> optr (procs s' x) = optr (procs s x)"
    and "\<And>x. x \<in> set vs \<Longrightarrow> optr (procs s' x) = optr (procs s x) \<and> pparent (procs s' x) = pparent (procs s x)"
    and "\<And>x. x \<in> set vs \<Longrightarrow> x \<noteq> hd vs \<Longrightarrow> yptr (procs s' x) = yptr (procs s x)"
  shows "sibs s' q y (us @ vs)"
  using assms
proof (induction us arbitrary: y)
  case Nil
  show ?case
  proof (cases vs)
    case (Cons v ws)
    with Nil.prems have "sibs s q (Some v) ws" by simp
    with Cons Nil.prems have "sibs s' q (Some v) ws" by (subst sibs_cong[where s = s]) auto
    with Cons Nil.prems show ?thesis by simp
  qed simp
next
  case (Cons u us)
  have "sibs s' q (Some u) (us @ vs)"
    using Cons.prems by (intro Cons.IH) (auto split: if_splits)
  moreover have "optr (procs s' u) = opt_hd (us @ vs)"
  proof (cases us)
    case Nil
    with Cons.prems(3) show ?thesis by simp
  next
    case (Cons w ws)
    then have "last (u # us) \<in> set us" by simp
    with Cons.prems(2) have "u \<noteq> last (u # us)" by auto
    with Cons.prems(1,6) Cons show ?thesis by simp
  qed
  ultimately show ?case using Cons.prems by auto
qed

lemma remove_links_family:
  assumes ch: "children s q (us @ p # vs)" and pl: "plist s (ps @ p # rs)"
  shows "\<exists>s'. remove_links p s = Some s' \<and> children s' q (us @ vs) \<and> plist s' (ps @ rs)
    \<and> nr_process s' = nr_process s - 1"
proof -
  let ?h = "list_del (ProcLink p) (proc_links s)"
  have dl: "dlist ?h ProcList (map ProcLink (ps @ rs))"
    using dlist_del[of "proc_links s" ProcList "map ProcLink ps" "ProcLink p"] pl by simp
  from ch have d: "distinct (q # us @ p # vs)" and c: "cptr (procs s q) = opt_hd (us @ p # vs)"
    and sb: "sibs s q None (us @ p # vs)" by (auto simp: children_def)
  from sibs_split[OF sb] have pp: "yptr (procs s p) = (if us = [] then None else Some (last us))"
    "optr (procs s p) = opt_hd vs" "pparent (procs s p) = Some q" by auto
  define s2 where "s2 = (case opt_hd vs of None \<Rightarrow> s
     | Some o' \<Rightarrow> upd_proc o' (yptr_update (\<lambda>_. yptr (procs s p))) s)"
  define s3 where "s3 = (if us = [] then upd_proc q (cptr_update (\<lambda>_. opt_hd vs)) s2
     else upd_proc (last us) (optr_update (\<lambda>_. opt_hd vs)) s2)"
  have lu: "last us \<in> set us \<and> last us \<notin> set vs" if "us \<noteq> []"
  proof -
    from that have "last us \<in> set us" by (rule last_in_set)
    with d show ?thesis by auto
  qed
  have rm: "remove_links p s = Some (s3\<lparr>proc_links := ?h, nr_process := nr_process s - 1\<rparr>)"
    using pp d lu by (cases vs; cases "us = []")
      (auto simp: remove_links_def s2_def s3_def Let_def upd_proc_def)
  have fy: "yptr (procs s3 x) = (if opt_hd vs = Some x then yptr (procs s p) else yptr (procs s x))" for x
    unfolding s3_def s2_def
    by (cases vs; cases "us = []") (auto simp: family_upd simp del: upd_proc_simps(1))
  have fo: "optr (procs s3 x) = (if us \<noteq> [] \<and> x = last us then opt_hd vs else optr (procs s x))" for x
    unfolding s3_def s2_def
    by (cases vs; cases "us = []") (auto simp: family_upd simp del: upd_proc_simps(1))
  have fp: "pparent (procs s3 x) = pparent (procs s x)"
    and fc: "cptr (procs s3 x) = (if us = [] \<and> x = q then opt_hd vs else cptr (procs s x))" for x
    unfolding s3_def s2_def
    by (cases vs; cases "us = []"; auto simp: family_upd simp del: upd_proc_simps(1))
      (cases vs; cases "us = []"; auto simp: family_upd simp del: upd_proc_simps(1))
  have hv: "\<And>x. opt_hd vs = Some x \<longleftrightarrow> vs \<noteq> [] \<and> x = hd vs" by (cases vs) auto
  have "sibs s3 q None (us @ vs)"
  proof (rule sibs_bypass[OF sb])
    show "distinct (us @ p # vs)" using d by simp
  qed (use d lu pp in \<open>auto simp: fy fo fp hv\<close>)
  moreover have "cptr (procs s3 q) = opt_hd (us @ vs)"
    using c by (cases us) (simp_all add: fc)
  moreover have "sibs (s3\<lparr>proc_links := ?h, nr_process := nr_process s - 1\<rparr>) q None (us @ vs)
      = sibs s3 q None (us @ vs)" by (rule sibs_cong) simp
  ultimately show ?thesis using rm dl d by (intro exI) (auto simp: children_def)
qed

section \<open>The hash table\<close>

definition hash_inv :: "kstate \<Rightarrow> (nat \<Rightarrow> nat list) \<Rightarrow> bool" where
  "hash_inv s ch \<longleftrightarrow> (\<forall>b. dlist (hash_links s) (HashList b) (map HashLink (ch b)))
     \<and> (\<forall>b. \<forall>p \<in> set (ch b). pid_hashfn (pid (procs s p)) = b)"

lemma find_proc_loop_find:
  assumes "dlist (hash_links s) (HashList b) (map HashLink (pre @ xs))"
  shows "find_proc_loop s n (HashList b) (last (HashList b # map HashLink pre))
    = Some (List.find (\<lambda>p. pid (procs s p) = n) xs)"
  using assms
proof (induction xs arbitrary: pre)
  case Nil
  then have "list_next (hash_links s) (last (HashList b # map HashLink pre)) = HashList b"
    using dlist_nxt_pos[of "hash_links s" "HashList b" "map HashLink pre" "[]"]
    by (simp add: list_next_def)
  then show ?case by (subst find_proc_loop.simps) (simp add: Let_def)
next
  case (Cons x xs)
  then have "list_next (hash_links s) (last (HashList b # map HashLink pre)) = HashLink x"
    using dlist_nxt_pos[of "hash_links s" "HashList b" "map HashLink pre" "map HashLink (x # xs)"]
    by (simp add: list_next_def)
  moreover have "find_proc_loop s n (HashList b) (HashLink x)
      = Some (List.find (\<lambda>p. pid (procs s p) = n) xs)"
    using Cons.IH[of "pre @ [x]"] Cons.prems by simp
  ultimately show ?case by (subst find_proc_loop.simps) (simp add: Let_def)
qed

text \<open>The members of the table do not occur twice.\<close>

lemma hash_inv_disjoint: "hash_inv s ch \<Longrightarrow> b \<noteq> c \<Longrightarrow>
    set (HashList b # map HashLink (ch b)) \<inter> set (HashList c # map HashLink (ch c)) = {}"
  unfolding hash_inv_def by auto metis

lemma hash_proc_inv:
  assumes inv: "hash_inv s ch" and new: "\<forall>b. p \<notin> set (ch b)"
  shows "hash_inv (hash_proc p s) (ch(pid_hashfn (pid (procs s p)) := p # ch (pid_hashfn (pid (procs s p)))))"
proof -
  let ?b = "pid_hashfn (pid (procs s p))"
  have d: "dlist (hash_links s) (HashList c) (map HashLink (ch c))" for c
    using inv by (simp add: hash_inv_def)
  have "dlist (list_add (HashList ?b) (HashLink p) (hash_links s)) (HashList c)
      (map HashLink ((ch(?b := p # ch ?b)) c))" for c
  proof (cases "c = ?b")
    case True
    with dlist_add_head[OF d[of ?b], of "HashLink p"] new show ?thesis by auto
  next
    case False
    with dlist_add_head_other[OF d[of c] d[of ?b] hash_inv_disjoint[OF inv False]] new
    show ?thesis by auto
  qed
  with inv show ?thesis by (auto simp: hash_inv_def hash_proc_def)
qed

lemma unhash_proc_inv:
  assumes inv: "hash_inv s ch" and b: "ch b = us @ p # vs"
  shows "hash_inv (unhash_proc p s) (ch(b := us @ vs))"
proof -
  have d: "dlist (hash_links s) (HashList c) (map HashLink (ch c))" for c
    using inv by (simp add: hash_inv_def)
  have db: "dlist (hash_links s) (HashList b) (map HashLink us @ HashLink p # map HashLink vs)"
    using d[of b] b by simp
  have "dlist (list_del (HashLink p) (hash_links s)) (HashList c)
      (map HashLink ((ch(b := us @ vs)) c))" for c
  proof (cases "c = b")
    case True
    with dlist_del[OF db] show ?thesis by simp
  next
    case False
    with dlist_del_other[OF d[of c] db] hash_inv_disjoint[OF inv False] b show ?thesis by auto
  qed
  with inv b show ?thesis by (auto simp: hash_inv_def unhash_proc_def)
qed

lemma find_proc_correct:
  assumes inv: "hash_inv s ch" and n: "0 < n" "n < MAX_PID"
    and uniq: "\<forall>p q. p \<in> (\<Union>b. set (ch b)) \<and> q \<in> (\<Union>b. set (ch b)) \<and> pid (procs s p) = pid (procs s q) \<longrightarrow> p = q"
  shows "\<exists>r. find_proc n s = Some r \<and> (\<forall>p. r = Some p \<longleftrightarrow> p \<in> (\<Union>b. set (ch b)) \<and> pid (procs s p) = n)"
proof -
  let ?b = "pid_hashfn n"
  let ?r = "List.find (\<lambda>p. pid (procs s p) = n) (ch ?b)"
  have "find_proc n s = Some ?r"
    using find_proc_loop_find[of s ?b "[]" "ch ?b" n] inv n
    by (simp add: find_proc_def hash_inv_def)
  moreover have "?r = Some p \<longleftrightarrow> p \<in> (\<Union>b. set (ch b)) \<and> pid (procs s p) = n" for p
  proof
    assume "?r = Some p"
    then have "p \<in> set (ch ?b) \<and> pid (procs s p) = n" by (auto simp: find_Some_iff)
    then show "p \<in> (\<Union>b. set (ch b)) \<and> pid (procs s p) = n" by blast
  next
    assume p: "p \<in> (\<Union>b. set (ch b)) \<and> pid (procs s p) = n"
    with inv have "p \<in> set (ch ?b)" by (auto simp: hash_inv_def)
    with p have "?r \<noteq> None" by (auto simp: find_None_iff)
    then obtain q where q: "?r = Some q" by blast
    then have "q \<in> set (ch ?b) \<and> pid (procs s q) = n" by (auto simp: find_Some_iff)
    then have "q \<in> (\<Union>b. set (ch b)) \<and> pid (procs s q) = n" by blast
    with uniq p have "q = p" by simp
    with q show "?r = Some p" by simp
  qed
  ultimately show ?thesis by blast
qed

section \<open>Properties of the links\<close>

definition fam_state :: kstate where
  "fam_state = upd_proc 2 (pparent_update (\<lambda>_. Some 1)) boot_state"

lemma fam_state_ok:
  "children fam_state 1 []" "plist fam_state []" "pparent (procs fam_state 2) = Some 1"
  by (simp_all add: fam_state_def boot_state_def idle_proc_def children_def dlist_def)

text \<open>The hash table: after \<open>hash_proc\<close> of a process with an unused number \<open>find_proc\<close> of that
  number returns it, and \<open>find_proc\<close> of any number in range returns exactly the hashed process
  that has it, or null when none has.\<close>

theorem find_proc_finds:
  assumes "hash_inv s ch" "0 < n" "n < MAX_PID"
    and "\<forall>p q. p \<in> (\<Union>b. set (ch b)) \<and> q \<in> (\<Union>b. set (ch b)) \<and> pid (procs s p) = pid (procs s q) \<longrightarrow> p = q"
  shows "\<exists>r. find_proc n s = Some r \<and> (\<forall>p. r = Some p \<longleftrightarrow> p \<in> (\<Union>b. set (ch b)) \<and> pid (procs s p) = n)"
  using assms by (rule find_proc_correct)

theorem find_proc_finds_witness:
  "\<exists>r. find_proc 5 (hash_proc 5 boot_state) = Some r
    \<and> (\<forall>p. r = Some p \<longleftrightarrow> p \<in> (\<Union>b. set (((\<lambda>_. [])(pid_hashfn 5 := [5])) b)) \<and> pid (procs (hash_proc 5 boot_state) p) = 5)"
proof (rule find_proc_finds)
  have "hash_inv boot_state (\<lambda>_. [])" by (simp add: hash_inv_def boot_state_def dlist_def)
  from hash_proc_inv[OF this, of 5]
  show "hash_inv (hash_proc 5 boot_state) ((\<lambda>_. [])(pid_hashfn 5 := [5]))"
    by (simp add: boot_state_def idle_proc_def)
qed (auto split: if_splits)

end
