(* ===== verification/Run_Queue.thy ===== *)
theory Run_Queue
  imports Process
begin

text \<open>
  The scheduling classes that keep their processes in a list: round robin
  (\<open>kern/schedule/default_sched.c\<close>) and the FIFO class of \<open>lab6\<close>
  (\<open>default_sched_fifo.c\<close>), and the interface \<open>struct sched_class\<close> through which
  \<open>kern/schedule/sched.c\<close> calls them.
\<close>

section \<open>Round robin\<close>

record sched_class =
  sc_init :: "kstate \<Rightarrow> kstate"
  sc_enqueue :: "nat \<Rightarrow> kstate \<Rightarrow> kstate option"
  sc_dequeue :: "nat \<Rightarrow> kstate \<Rightarrow> kstate option"
  sc_pick_next :: "kstate \<Rightarrow> nat option \<times> kstate"
  sc_proc_tick :: "nat \<Rightarrow> kstate \<Rightarrow> kstate"

definition RR_init :: "kstate \<Rightarrow> kstate" where
  "RR_init s = s\<lparr>run_links := list_init RunList (run_links s), proc_num := 0\<rparr>"

definition RR_enqueue :: "nat \<Rightarrow> kstate \<Rightarrow> kstate option" where
  "RR_enqueue p s = do {
     kassert (list_empty (run_links s) (RunLink p));
     let s1 = s\<lparr>run_links := list_add_before RunList (RunLink p) (run_links s)\<rparr>;
     let s2 = (if time_slice (procs s1 p) = 0 \<or> time_slice (procs s1 p) > max_time_slice s1
               then upd_proc p (time_slice_update (\<lambda>_. max_time_slice s1)) s1 else s1);
     let s3 = upd_proc p (on_rq_update (\<lambda>_. True)) s2;
     Some (s3\<lparr>proc_num := proc_num s3 + 1\<rparr>) }"

definition RR_dequeue :: "nat \<Rightarrow> kstate \<Rightarrow> kstate option" where
  "RR_dequeue p s = do {
     kassert (\<not> list_empty (run_links s) (RunLink p) \<and> on_rq (procs s p));
     let s1 = s\<lparr>run_links := list_del_init (RunLink p) (run_links s)\<rparr>;
     Some (s1\<lparr>proc_num := proc_num s1 - 1\<rparr>) }"

definition RR_pick_next :: "kstate \<Rightarrow> nat option \<times> kstate" where
  "RR_pick_next s =
     (case list_next (run_links s) RunList of
        RunList \<Rightarrow> (None, s)
      | RunLink p \<Rightarrow> (Some p, s))"

definition RR_proc_tick :: "nat \<Rightarrow> kstate \<Rightarrow> kstate" where
  "RR_proc_tick p s =
     (let s1 = (if time_slice (procs s p) > 0
                then upd_proc p (time_slice_update (\<lambda>t. t - 1)) s else s)
      in if time_slice (procs s1 p) = 0
         then upd_proc p (need_resched_update (\<lambda>_. True)) s1 else s1)"

definition default_sched_class :: sched_class where
  "default_sched_class = \<lparr>sc_init = RR_init, sc_enqueue = RR_enqueue, sc_dequeue = RR_dequeue,
     sc_pick_next = RR_pick_next, sc_proc_tick = RR_proc_tick\<rparr>"

section \<open>FIFO\<close>

definition FIFO_init :: "kstate \<Rightarrow> kstate" where
  "FIFO_init s = s\<lparr>run_links := list_init RunList (run_links s), proc_num := 0\<rparr>"

definition FIFO_enqueue :: "nat \<Rightarrow> kstate \<Rightarrow> kstate option" where
  "FIFO_enqueue p s = do {
     kassert (list_empty (run_links s) (RunLink p));
     let s1 = s\<lparr>run_links := list_add_before RunList (RunLink p) (run_links s)\<rparr>;
     let s2 = (if time_slice (procs s1 p) = 0 \<or> time_slice (procs s1 p) > max_time_slice s1
               then upd_proc p (time_slice_update (\<lambda>_. max_time_slice s1 * 100)) s1 else s1);
     let s3 = upd_proc p (on_rq_update (\<lambda>_. True)) s2;
     Some (s3\<lparr>proc_num := proc_num s3 + 1\<rparr>) }"

definition FIFO_dequeue :: "nat \<Rightarrow> kstate \<Rightarrow> kstate option" where
  "FIFO_dequeue p s = do {
     kassert (\<not> list_empty (run_links s) (RunLink p) \<and> on_rq (procs s p));
     let s1 = s\<lparr>run_links := list_del_init (RunLink p) (run_links s)\<rparr>;
     Some (s1\<lparr>proc_num := proc_num s1 - 1\<rparr>) }"

definition FIFO_pick_next :: "kstate \<Rightarrow> nat option \<times> kstate" where
  "FIFO_pick_next s =
     (let le = list_next (run_links s) RunList
      in if le \<noteq> RunList then (case le of RunLink p \<Rightarrow> (Some p, s) | RunList \<Rightarrow> (None, s))
         else (None, s))"

definition FIFO_proc_tick :: "nat \<Rightarrow> kstate \<Rightarrow> kstate" where
  "FIFO_proc_tick p s =
     (let s1 = (if time_slice (procs s p) > 0
                then upd_proc p (time_slice_update (\<lambda>t. t - 1)) s else s)
      in if time_slice (procs s1 p) = 0
         then upd_proc p (need_resched_update (\<lambda>_. True)) s1 else s1)"

definition fifo_sched_class :: sched_class where
  "fifo_sched_class = \<lparr>sc_init = FIFO_init, sc_enqueue = FIFO_enqueue, sc_dequeue = FIFO_dequeue,
     sc_pick_next = FIFO_pick_next, sc_proc_tick = FIFO_proc_tick\<rparr>"

section \<open>The contract of a scheduling class\<close>

text \<open>
  What \<open>sched.c\<close> relies on: the class keeps a set of waiting processes, \<open>enqueue\<close> adds
  one that is not in it, \<open>pick_next\<close> names a member whenever there is one and keeps the
  set, and \<open>dequeue\<close> of the picked process removes exactly that one.  \<open>detached s p\<close>
  says that \<open>p\<close> may be enqueued.  No operation touches what is not the class's business
  (the state and wait state of processes, the current process, the timers, the tables and the
  family of processes).  \<open>proc_id\<close> collects the fields that no scheduling decision touches.
\<close>

definition proc_id :: "proc_struct \<Rightarrow> (int \<times> 32 word \<times> int \<times> nat) \<times> nat option list" where
  "proc_id pr = ((pid pr, flags pr, exit_code pr, kstack pr),
     [pparent pr, cptr pr, yptr pr, optr pr, mm pr, filesp pr])"

lemma proc_id_update [simp]:
  "proc_id (pr\<lparr>state := st\<rparr>) = proc_id pr" "proc_id (pr\<lparr>wait_state := w\<rparr>) = proc_id pr"
  "proc_id (pr\<lparr>need_resched := b\<rparr>) = proc_id pr" "proc_id (pr\<lparr>on_rq := b\<rparr>) = proc_id pr"
  "proc_id (time_slice_update f pr) = proc_id pr" "proc_id (runs_update f pr) = proc_id pr"
  "proc_id (lab6_stride_update g pr) = proc_id pr" "proc_id (lab6_priority_update g pr) = proc_id pr"
  by (simp_all add: proc_id_def)

definition sched_frame :: "kstate \<Rightarrow> kstate \<Rightarrow> bool" where
  "sched_frame s s' \<longleftrightarrow> current s' = current s \<and> idleproc s' = idleproc s
     \<and> initproc s' = initproc s \<and> timers s' = timers s \<and> timer_links s' = timer_links s
     \<and> satp s' = satp s
     \<and> (\<forall>p. state (procs s' p) = state (procs s p) \<and> wait_state (procs s' p) = wait_state (procs s p)
          \<and> pgdir (procs s' p) = pgdir (procs s p))
     \<and> proc_links s' = proc_links s \<and> hash_links s' = hash_links s \<and> nr_process s' = nr_process s \<and> last_pid s' = last_pid s \<and> next_safe s' = next_safe s
     \<and> (\<forall>p. proc_id (procs s' p) = proc_id (procs s p))"

lemma sched_frame_refl [simp]: "sched_frame s s"
  by (simp add: sched_frame_def)

lemma sched_frame_trans [trans]: "sched_frame s t \<Longrightarrow> sched_frame t u \<Longrightarrow> sched_frame s u"
  by (auto simp: sched_frame_def)

text \<open>The states differ in nothing that makes up the process table and the family.\<close>

definition proc_frame :: "kstate \<Rightarrow> kstate \<Rightarrow> bool" where
  "proc_frame s s' \<longleftrightarrow> proc_links s' = proc_links s \<and> hash_links s' = hash_links s
     \<and> nr_process s' = nr_process s \<and> last_pid s' = last_pid s \<and> next_safe s' = next_safe s \<and> idleproc s' = idleproc s \<and> initproc s' = initproc s
     \<and> (\<forall>p. proc_id (procs s' p) = proc_id (procs s p))"

lemma proc_frame_refl [simp]: "proc_frame s s"
  by (simp add: proc_frame_def)

lemma proc_frame_trans [trans]: "proc_frame s t \<Longrightarrow> proc_frame t u \<Longrightarrow> proc_frame s u"
  by (simp add: proc_frame_def)

lemma upd_proc_frame: "(\<And>pr. proc_id (f pr) = proc_id pr) \<Longrightarrow> proc_frame s (upd_proc p f s)"
  by (simp add: proc_frame_def)

lemma sched_frame_proc: "sched_frame s s' \<Longrightarrow> proc_frame s s'"
  by (simp add: sched_frame_def proc_frame_def)

locale sched_contract =
  fixes rel :: "kstate \<Rightarrow> nat set \<Rightarrow> bool"
    and detached :: "kstate \<Rightarrow> nat \<Rightarrow> bool"
    and enqueue :: "nat \<Rightarrow> kstate \<Rightarrow> kstate option"
    and dequeue :: "nat \<Rightarrow> kstate \<Rightarrow> kstate option"
    and pick_next :: "kstate \<Rightarrow> nat option \<times> kstate"
  assumes enqueue_ok: "rel s A \<Longrightarrow> p \<notin> A \<Longrightarrow> detached s p \<Longrightarrow>
      \<exists>s'. enqueue p s = Some s' \<and> rel s' (insert p A) \<and> sched_frame s s'
        \<and> (\<forall>q. q \<noteq> p \<longrightarrow> q \<notin> A \<longrightarrow> detached s q \<longrightarrow> detached s' q)"
    and pick_none: "rel s {} \<Longrightarrow> pick_next s = (None, s)"
    and pick_some: "rel s A \<Longrightarrow> A \<noteq> {} \<Longrightarrow> \<exists>p s1 s2. pick_next s = (Some p, s1) \<and> p \<in> A
        \<and> dequeue p s1 = Some s2 \<and> rel s2 (A - {p}) \<and> detached s2 p \<and> sched_frame s s2
        \<and> (\<forall>q. q \<notin> A \<longrightarrow> detached s q \<longrightarrow> detached s2 q)"

text \<open>A class that serves in arrival order.\<close>

locale fifo_contract =
  fixes qrel :: "kstate \<Rightarrow> nat list \<Rightarrow> bool"
    and detached :: "kstate \<Rightarrow> nat \<Rightarrow> bool"
    and enqueue :: "nat \<Rightarrow> kstate \<Rightarrow> kstate option"
    and dequeue :: "nat \<Rightarrow> kstate \<Rightarrow> kstate option"
    and pick_next :: "kstate \<Rightarrow> nat option \<times> kstate"
  assumes q_enqueue: "qrel s xs \<Longrightarrow> p \<notin> set xs \<Longrightarrow> detached s p \<Longrightarrow>
      \<exists>s'. enqueue p s = Some s' \<and> qrel s' (xs @ [p]) \<and> sched_frame s s'
        \<and> (\<forall>q. q \<noteq> p \<longrightarrow> q \<notin> set xs \<longrightarrow> detached s q \<longrightarrow> detached s' q)"
    and q_pick: "qrel s xs \<Longrightarrow> pick_next s = (opt_hd xs, s)"
    and q_dequeue: "qrel s (p # xs) \<Longrightarrow> \<exists>s'. dequeue p s = Some s' \<and> qrel s' xs \<and> detached s' p
        \<and> sched_frame s s' \<and> (\<forall>q. q \<notin> set (p # xs) \<longrightarrow> detached s q \<longrightarrow> detached s' q)"
    and q_distinct: "qrel s xs \<Longrightarrow> distinct xs"
begin

sublocale as_set: sched_contract "\<lambda>s A. \<exists>xs. qrel s xs \<and> A = set xs" detached enqueue dequeue pick_next
proof unfold_locales
  fix s A p
  assume "\<exists>xs. qrel s xs \<and> A = set xs" "p \<notin> A" "detached s p"
  then obtain xs where xs: "qrel s xs" "A = set xs" "p \<notin> set xs" by auto
  from q_enqueue[OF xs(1,3) \<open>detached s p\<close>] xs(2)
  show "\<exists>s'. enqueue p s = Some s' \<and> (\<exists>xs. qrel s' xs \<and> insert p A = set xs) \<and> sched_frame s s'
      \<and> (\<forall>q. q \<noteq> p \<longrightarrow> q \<notin> A \<longrightarrow> detached s q \<longrightarrow> detached s' q)" by fastforce
next
  fix s
  assume "\<exists>xs. qrel s xs \<and> {} = set xs"
  then show "pick_next s = (None, s)" using q_pick by auto
next
  fix s A
  assume "\<exists>xs. qrel s xs \<and> A = set xs" "A \<noteq> {}"
  then obtain p xs where xs: "qrel s (p # xs)" "A = set (p # xs)" by (metis list.exhaust list.set(1))
  from q_dequeue[OF xs(1)] obtain s' where s': "dequeue p s = Some s'" "qrel s' xs" "detached s' p"
    "sched_frame s s'" "\<forall>q. q \<notin> set (p # xs) \<longrightarrow> detached s q \<longrightarrow> detached s' q" by blast
  have "pick_next s = (Some p, s)" using q_pick[OF xs(1)] by simp
  moreover have "A - {p} = set xs" using q_distinct[OF xs(1)] xs(2) by auto
  ultimately show "\<exists>p s1 s2. pick_next s = (Some p, s1) \<and> p \<in> A \<and> dequeue p s1 = Some s2
      \<and> (\<exists>xs. qrel s2 xs \<and> A - {p} = set xs) \<and> detached s2 p \<and> sched_frame s s2
      \<and> (\<forall>q. q \<notin> A \<longrightarrow> detached s q \<longrightarrow> detached s2 q)"
    using s' xs(2) by (intro exI[of _ p] exI[of _ s] exI[of _ s']) auto
qed

end

section \<open>Round robin and FIFO meet the contract\<close>

definition rq_list :: "kstate \<Rightarrow> nat list \<Rightarrow> bool" where
  "rq_list s xs \<longleftrightarrow> dlist (run_links s) RunList (map RunLink xs)
     \<and> proc_num s = length xs \<and> (\<forall>p \<in> set xs. on_rq (procs s p))"

definition rq_detached :: "kstate \<Rightarrow> nat \<Rightarrow> bool" where
  "rq_detached s p \<longleftrightarrow> list_empty (run_links s) (RunLink p)"

text \<open>Entries outside the list are not touched by appending to it or by deleting its first.\<close>

lemma append_keeps_detached:
  assumes "dlist h RunList (map RunLink xs)" "q \<noteq> p" "q \<notin> set xs" "list_empty h (RunLink q)"
  shows "list_empty (list_add_before RunList (RunLink p) h) (RunLink q)"
proof -
  have "prv h RunList \<in> set (RunList # map RunLink xs)"
    using dlist_prv_head[OF assms(1)] last_in_set[of "RunList # map RunLink xs"] by simp
  with assms show ?thesis by (auto simp: list_defs)
qed

lemma delete_keeps_detached:
  assumes "dlist h RunList (map RunLink (p # xs))" "q \<notin> set (p # xs)" "list_empty h (RunLink q)"
  shows "list_empty (list_del_init (RunLink p) h) (RunLink q)"
proof -
  have "prv h (RunLink p) = RunList" "nxt h (RunLink p) \<in> set (RunList # map RunLink xs)"
    using assms(1) dlist_nxt_mid[of h RunList "[]" "RunLink p" "map RunLink xs"]
    by (cases xs; simp add: dlist_def)+
  with assms show ?thesis by (auto simp: list_defs)
qed

text \<open>The two enqueue functions differ only in the time slice they give.\<close>

lemma rr_append:
  assumes q: "rq_list s xs" "p \<notin> set xs" "rq_detached s p"
    and s': "run_links s' = list_add_before RunList (RunLink p) (run_links s)"
      "proc_num s' = proc_num s + 1" "\<forall>x. x \<noteq> p \<longrightarrow> procs s' x = procs s x" "on_rq (procs s' p)"
  shows "rq_list s' (xs @ [p])"
    and "\<forall>q. q \<noteq> p \<longrightarrow> q \<notin> set xs \<longrightarrow> rq_detached s q \<longrightarrow> rq_detached s' q"
proof -
  have d: "dlist (run_links s) RunList (map RunLink xs)" using q by (simp add: rq_list_def)
  have "dlist (run_links s') RunList (map RunLink (xs @ [p]))"
    using dlist_add_before_head[OF d, of "RunLink p"] q(2) s'(1) by auto
  with q s' show "rq_list s' (xs @ [p])" by (auto simp: rq_list_def)
  show "\<forall>q. q \<noteq> p \<longrightarrow> q \<notin> set xs \<longrightarrow> rq_detached s q \<longrightarrow> rq_detached s' q"
    using append_keeps_detached[OF d] s'(1) by (simp add: rq_detached_def)
qed

lemma rr_remove:
  assumes q: "rq_list s (p # xs)"
  shows "\<exists>s'. RR_dequeue p s = Some s' \<and> rq_list s' xs \<and> rq_detached s' p \<and> sched_frame s s'
    \<and> (\<forall>q. q \<notin> set (p # xs) \<longrightarrow> rq_detached s q \<longrightarrow> rq_detached s' q)"
proof -
  have d: "dlist (run_links s) RunList ([] @ RunLink p # map RunLink xs)" using q by (simp add: rq_list_def)
  have "\<not> list_empty (run_links s) (RunLink p)" using dlist_member_not_empty[OF d] by simp
  moreover have "on_rq (procs s p)" using q by (simp add: rq_list_def)
  moreover note dlist_del_init[OF d] delete_keeps_detached[of "run_links s" p xs]
  ultimately show ?thesis using q
    by (auto simp: RR_dequeue_def rq_list_def rq_detached_def sched_frame_def)
qed

lemma rr_first: "rq_list s xs \<Longrightarrow> RR_pick_next s = (opt_hd xs, s)"
  using dlist_nxt_head[of "run_links s" RunList "map RunLink xs"]
  by (cases xs) (auto simp: rq_list_def RR_pick_next_def list_next_def)

interpretation rr: fifo_contract rq_list rq_detached RR_enqueue RR_dequeue RR_pick_next
proof unfold_locales
  fix s xs p
  assume q: "rq_list s xs" "p \<notin> set xs" "rq_detached s p"
  define s' where "s' = the (RR_enqueue p s)"
  have e: "RR_enqueue p s = Some s'"
    using q(3) by (simp add: s'_def RR_enqueue_def rq_detached_def Let_def)
  then have f: "run_links s' = list_add_before RunList (RunLink p) (run_links s)"
    "proc_num s' = proc_num s + 1" "\<forall>x. x \<noteq> p \<longrightarrow> procs s' x = procs s x" "on_rq (procs s' p)"
    "sched_frame s s'"
    by (auto simp: RR_enqueue_def Let_def sched_frame_def split: if_splits)
  from rr_append[OF q f(1-4)] e f(5)
  show "\<exists>s'. RR_enqueue p s = Some s' \<and> rq_list s' (xs @ [p]) \<and> sched_frame s s'
      \<and> (\<forall>q. q \<noteq> p \<longrightarrow> q \<notin> set xs \<longrightarrow> rq_detached s q \<longrightarrow> rq_detached s' q)" by blast
next
  show "rq_list s xs \<Longrightarrow> RR_pick_next s = (opt_hd xs, s)" for s xs by (rule rr_first)
  show "\<exists>s'. RR_dequeue p s = Some s' \<and> rq_list s' xs \<and> rq_detached s' p \<and> sched_frame s s'
      \<and> (\<forall>q. q \<notin> set (p # xs) \<longrightarrow> rq_detached s q \<longrightarrow> rq_detached s' q)" if "rq_list s (p # xs)" for s p xs
    using that by (rule rr_remove)
  show "rq_list s xs \<Longrightarrow> distinct xs" for s xs
    by (auto simp: rq_list_def dlist_def distinct_map)
qed

interpretation fifo: fifo_contract rq_list rq_detached FIFO_enqueue FIFO_dequeue FIFO_pick_next
proof unfold_locales
  fix s xs p
  assume q: "rq_list s xs" "p \<notin> set xs" "rq_detached s p"
  define s' where "s' = the (FIFO_enqueue p s)"
  have e: "FIFO_enqueue p s = Some s'"
    using q(3) by (simp add: s'_def FIFO_enqueue_def rq_detached_def Let_def)
  then have f: "run_links s' = list_add_before RunList (RunLink p) (run_links s)"
    "proc_num s' = proc_num s + 1" "\<forall>x. x \<noteq> p \<longrightarrow> procs s' x = procs s x" "on_rq (procs s' p)"
    "sched_frame s s'"
    by (auto simp: FIFO_enqueue_def Let_def sched_frame_def split: if_splits)
  from rr_append[OF q f(1-4)] e f(5)
  show "\<exists>s'. FIFO_enqueue p s = Some s' \<and> rq_list s' (xs @ [p]) \<and> sched_frame s s'
      \<and> (\<forall>q. q \<noteq> p \<longrightarrow> q \<notin> set xs \<longrightarrow> rq_detached s q \<longrightarrow> rq_detached s' q)" by blast
next
  have "FIFO_pick_next s = RR_pick_next s" for s
    by (simp add: FIFO_pick_next_def RR_pick_next_def Let_def split: run_node.split)
  then show "rq_list s xs \<Longrightarrow> FIFO_pick_next s = (opt_hd xs, s)" for s xs
    by (simp add: rr_first)
  show "\<exists>s'. FIFO_dequeue p s = Some s' \<and> rq_list s' xs \<and> rq_detached s' p \<and> sched_frame s s'
      \<and> (\<forall>q. q \<notin> set (p # xs) \<longrightarrow> rq_detached s q \<longrightarrow> rq_detached s' q)" if "rq_list s (p # xs)" for s p xs
    using rr_remove[OF that] by (simp add: FIFO_dequeue_def RR_dequeue_def)
  show "rq_list s xs \<Longrightarrow> distinct xs" for s xs
    by (rule rr.q_distinct)
qed

end
