(* ===== verification/Stride.thy ===== *)
theory Stride
  imports Run_Queue
begin

text \<open>
  The stride scheduler of \<open>lab6/kern/schedule/default_sched_stride.c\<close>, in the skew-heap
  configuration the file selects.  Strides are 32-bit words that wrap around; they are
  compared through the sign of their difference.  The theory shows that the comparison is
  exact as long as all waiting strides lie in a window of width \<open>BIG_STRIDE\<close> above the
  smallest one, that picking and charging the smallest keeps such a window, and that the
  heap always hands out a process with the smallest stride.
\<close>

section \<open>Definitions\<close>

definition BIG_STRIDE :: "32 word" where
  "BIG_STRIDE = 0x7FFFFFFF"

definition proc_stride_comp_f :: "kstate \<Rightarrow> nat \<Rightarrow> nat \<Rightarrow> int" where
  "proc_stride_comp_f s a b =
     (let c = sint (lab6_stride (procs s a) - lab6_stride (procs s b))
      in if c > 0 then 1 else if c = 0 then 0 else -1)"

definition stride_init :: "kstate \<Rightarrow> kstate" where
  "stride_init s = s\<lparr>run_links := list_init RunList (run_links s), lab6_run_pool := None,
     proc_num := 0\<rparr>"

definition stride_enqueue :: "nat \<Rightarrow> kstate \<Rightarrow> kstate option" where
  "stride_enqueue p s = do {
     (r, h) \<leftarrow> skew_heap_insert (proc_stride_comp_f s) (lab6_run_pool s) p (pool s);
     let s1 = s\<lparr>lab6_run_pool := r, pool := h\<rparr>;
     let s2 = (if time_slice (procs s1 p) = 0 \<or> time_slice (procs s1 p) > max_time_slice s1
               then upd_proc p (time_slice_update (\<lambda>_. max_time_slice s1)) s1 else s1);
     let s3 = upd_proc p (on_rq_update (\<lambda>_. True)) s2;
     Some (s3\<lparr>proc_num := proc_num s3 + 1\<rparr>) }"

definition stride_dequeue :: "nat \<Rightarrow> kstate \<Rightarrow> kstate option" where
  "stride_dequeue p s = do {
     (r, h) \<leftarrow> skew_heap_remove (proc_stride_comp_f s) (lab6_run_pool s) p (pool s);
     let s1 = s\<lparr>lab6_run_pool := r, pool := h\<rparr>;
     Some (s1\<lparr>proc_num := proc_num s1 - 1\<rparr>) }"

definition stride_charge :: "32 word \<Rightarrow> 32 word" where
  "stride_charge prio = (if prio = 0 then BIG_STRIDE else BIG_STRIDE div prio)"

definition stride_pick_next :: "kstate \<Rightarrow> nat option \<times> kstate" where
  "stride_pick_next s =
     (case lab6_run_pool s of
        None \<Rightarrow> (None, s)
      | Some p \<Rightarrow>
          (Some p, upd_proc p (\<lambda>pr. pr\<lparr>lab6_stride :=
             lab6_stride pr + stride_charge (lab6_priority pr)\<rparr>) s))"

definition stride_proc_tick :: "nat \<Rightarrow> kstate \<Rightarrow> kstate" where
  "stride_proc_tick p s =
     (let s1 = (if time_slice (procs s p) > 0
                then upd_proc p (time_slice_update (\<lambda>t. t - 1)) s else s)
      in if time_slice (procs s1 p) = 0
         then upd_proc p (need_resched_update (\<lambda>_. True)) s1 else s1)"

definition stride_sched_class :: sched_class where
  "stride_sched_class = \<lparr>sc_init = stride_init, sc_enqueue = stride_enqueue,
     sc_dequeue = stride_dequeue, sc_pick_next = stride_pick_next, sc_proc_tick = stride_proc_tick\<rparr>"

section \<open>Strides in a window\<close>

text \<open>The distance of a stride above a base, and the window of strides around the base.\<close>

definition skey :: "kstate \<Rightarrow> 32 word \<Rightarrow> nat \<Rightarrow> int" where
  "skey s b p = uint (lab6_stride (procs s p) - b)"

definition window :: "kstate \<Rightarrow> nat set \<Rightarrow> 32 word \<Rightarrow> bool" where
  "window s A b \<longleftrightarrow> (\<forall>p \<in> A. skey s b p \<le> uint BIG_STRIDE)"

lemma uint_BIG_STRIDE [simp]: "uint BIG_STRIDE = 2 ^ 31 - 1"
  by (simp add: BIG_STRIDE_def)

lemma sint_minus_small:
  fixes u v :: "32 word"
  assumes "uint u < 2 ^ 31" "uint v < 2 ^ 31"
  shows "sint (u - v) = uint u - uint v"
proof -
  have "uint (u - v) = take_bit 32 (uint u - uint v)"
    by (simp add: uint_word_ariths(2) take_bit_eq_mod)
  then have "sint (u - v) = signed_take_bit 31 (take_bit 32 (uint u - uint v))"
    by (simp only: sint_uint) simp
  also have "\<dots> = signed_take_bit 31 (uint u - uint v)"
    by (simp add: signed_take_bit_take_bit)
  also have "\<dots> = uint u - uint v"
  proof (rule signed_take_bit_int_eq_self)
    show "- (2 ^ 31) \<le> uint u - uint v" using assms uint_ge_0[of u] by linarith
    show "uint u - uint v < 2 ^ 31" using assms uint_ge_0[of v] by linarith
  qed
  finally show ?thesis .
qed

lemma sint_diff_small:
  fixes x y b :: "32 word"
  assumes "uint (x - b) < 2 ^ 31" "uint (y - b) < 2 ^ 31"
  shows "sint (x - y) = uint (x - b) - uint (y - b)"
  using sint_minus_small[OF assms] by simp

lemma comp_exact:
  assumes "window s A b" "p \<in> A" "q \<in> A"
  shows "proc_stride_comp_f s p q = -1 \<longleftrightarrow> skey s b p < skey s b q"
proof -
  from assms have "uint (lab6_stride (procs s p) - b) < 2 ^ 31" "uint (lab6_stride (procs s q) - b) < 2 ^ 31"
    by (auto simp: window_def skey_def)
  from sint_diff_small[OF this] show ?thesis
    by (simp add: proc_stride_comp_f_def skey_def Let_def)
qed

text \<open>Moving the base up to a member shifts all keys down by that member's key.\<close>

lemma skey_rebase:
  assumes "skey s b m \<le> skey s b p"
  shows "skey s (lab6_stride (procs s m)) p = skey s b p - skey s b m"
proof -
  let ?x = "lab6_stride (procs s p) - b" and ?y = "lab6_stride (procs s m) - b"
  have "lab6_stride (procs s p) - lab6_stride (procs s m) = ?x - ?y" by simp
  moreover have "uint (?x - ?y) = uint ?x - uint ?y"
    using assms uint_sub_lem[of ?y ?x] unfolding skey_def by blast
  ultimately show ?thesis unfolding skey_def by (simp only:)
qed


section \<open>The pool of waiting processes\<close>

text \<open>\<open>stride_inv s A b\<close>: the pool is a skew heap on exactly the processes of \<open>A\<close>, ordered by
  their distance above \<open>b\<close>, and all strides lie in the window above \<open>b\<close>.\<close>

definition stride_inv :: "kstate \<Rightarrow> nat set \<Rightarrow> 32 word \<Rightarrow> bool" where
  "stride_inv s A b \<longleftrightarrow> window s A b \<and> finite A \<and> proc_num s = card A
     \<and> (\<exists>t. lab6_run_pool s = root t \<and> shape (pool s) (root t) t \<and> dtree t \<and> set_tree t = A
          \<and> kheap (skey s b) t \<and> (\<forall>y. root t = Some y \<longrightarrow> parent (pool s) y = None))"

lemma kheap_cong: "(\<And>x. x \<in> set_tree t \<Longrightarrow> k x = k' x) \<Longrightarrow> kheap k t = kheap k' t"
  by (induction t) auto

lemma kheap_shift: "(\<And>x. x \<in> set_tree t \<Longrightarrow> k' x = k x - c) \<Longrightarrow> kheap k t \<Longrightarrow> kheap k' t"
  by (induction t) auto

lemma skey_upd_other: "q \<noteq> p \<Longrightarrow> skey (upd_proc p f s) b q = skey s b q"
  by (simp add: skey_def upd_proc_def)

lemma root_parent_insert:
  assumes fr: "merge_frame (insert b (set_tree t)) (Some y) (skew_heap_init b h) h'"
    and y: "root (smerge cmp t (Node Leaf b Leaf)) = Some y"
    and p: "\<forall>y. root t = Some y \<longrightarrow> parent h y = None"
  shows "parent h' y = None"
proof -
  have "y = b \<or> root t = Some y"
    using y by (cases t) (auto split: if_splits)
  moreover have "parent h' y = parent (skew_heap_init b h) y"
    using fr by (simp add: merge_frame_def)
  ultimately show ?thesis using p by (auto simp: skew_heap_init_def)
qed

lemma stride_enqueue_inv:
  assumes inv: "stride_inv s A b" and p: "p \<notin> A" and w: "skey s b p \<le> uint BIG_STRIDE"
  shows "\<exists>s'. stride_enqueue p s = Some s' \<and> stride_inv s' (insert p A) b \<and> sched_frame s s'
    \<and> (\<forall>q. lab6_stride (procs s' q) = lab6_stride (procs s q)
         \<and> lab6_priority (procs s' q) = lab6_priority (procs s q))"
proof -
  let ?c = "proc_stride_comp_f s" and ?n = "Node Leaf p Leaf"
  from inv obtain t where t: "lab6_run_pool s = root t" "shape (pool s) (root t) t" "dtree t"
    "set_tree t = A" "kheap (skey s b) t" "\<forall>y. root t = Some y \<longrightarrow> parent (pool s) y = None"
    and wA: "window s A b" and n: "finite A" "proc_num s = card A"
    unfolding stride_inv_def by blast
  let ?m = "smerge ?c t ?n"
  from skew_heap_insert_refines[OF t(2,3), of p ?c] p t(4) obtain h' where
    h: "skew_heap_insert ?c (root t) p (pool s) = Some (root ?m, h')" "shape h' (root ?m) ?m"
       "merge_frame (insert p (set_tree t)) (root ?m) (skew_heap_init p (pool s)) h'" by auto
  have wi: "window s (insert p A) b" using wA w by (simp add: window_def)
  have kh: "kheap (skey s b) ?m"
    using t(4,5) comp_exact[OF wi] by (intro kheap_smerge) auto
  have dt: "dtree ?m" using t(3,4) p by (intro dtree_smerge) auto
  have pn: "\<forall>y. root ?m = Some y \<longrightarrow> parent h' y = None"
    using root_parent_insert[of p t _ "pool s" h' ?c] h(3) t(6) by auto
  define s' where "s' = the (stride_enqueue p s)"
  have e: "stride_enqueue p s = Some s'" by (simp add: s'_def stride_enqueue_def h(1) t(1) Let_def)
  then have f: "pool s' = h'" "lab6_run_pool s' = root ?m" "proc_num s' = proc_num s + 1"
    "sched_frame s s'" "\<forall>q. lab6_stride (procs s' q) = lab6_stride (procs s q)"
    "\<forall>q. lab6_priority (procs s' q) = lab6_priority (procs s q)"
    by (auto simp: stride_enqueue_def h(1) t(1) Let_def sched_frame_def upd_proc_def split: if_splits)
  have k: "skey s' b = skey s b" by (rule ext) (simp add: skey_def f(5))
  have "stride_inv s' (insert p A) b"
    unfolding stride_inv_def
    using wi kh dt pn h(2) n p f t(4) k by (auto simp: window_def intro!: exI[of _ ?m])
  with e f show ?thesis by blast
qed

text \<open>Charging the smallest process keeps all strides in a window: the one above the old
  stride of that process.\<close>

lemma window_after_charge:
  assumes w: "window s A b" and m: "m \<in> A" "\<forall>q \<in> A. skey s b m \<le> skey s b q"
    and s': "\<forall>q. q \<noteq> m \<longrightarrow> lab6_stride (procs s' q) = lab6_stride (procs s q)"
      "lab6_stride (procs s' m) = lab6_stride (procs s m) + stride_charge pr"
  shows "window s' A (lab6_stride (procs s m))"
  unfolding window_def
proof
  fix q assume q: "q \<in> A"
  have le: "uint (BIG_STRIDE div pr) \<le> uint BIG_STRIDE"
    unfolding word_le_def [symmetric] by (simp add: word_le_nat_alt unat_div)
  show "skey s' (lab6_stride (procs s m)) q \<le> uint BIG_STRIDE"
  proof (cases "q = m")
    case True
    then show ?thesis using s'(2) le by (simp add: skey_def stride_charge_def)
  next
    case False
    then have "skey s' (lab6_stride (procs s m)) q = skey s b q - skey s b m"
      using skey_rebase[of s b m q] m(2) q s'(1) by (simp add: skey_def)
    moreover have "0 \<le> skey s b m" by (simp add: skey_def)
    ultimately show ?thesis using w q by (auto simp: window_def)
  qed
qed


lemma kheap_root_min: "kheap k t \<Longrightarrow> root t = Some m \<Longrightarrow> q \<in> set_tree t \<Longrightarrow> k m \<le> k q"
  by (cases t) auto

lemma stride_pick_dequeue:
  assumes inv: "stride_inv s A b" and ne: "A \<noteq> {}"
  shows "\<exists>p s1 s2. stride_pick_next s = (Some p, s1) \<and> p \<in> A \<and> (\<forall>q \<in> A. skey s b p \<le> skey s b q)
    \<and> stride_dequeue p s1 = Some s2 \<and> stride_inv s2 (A - {p}) (lab6_stride (procs s p))
    \<and> window s2 A (lab6_stride (procs s p)) \<and> sched_frame s s2
    \<and> procs s2 = (procs s)(p := (procs s p)\<lparr>lab6_stride :=
        lab6_stride (procs s p) + stride_charge (lab6_priority (procs s p))\<rparr>)"
proof -
  from inv obtain t where t: "lab6_run_pool s = root t" "shape (pool s) (root t) t" "dtree t"
    "set_tree t = A" "kheap (skey s b) t" "\<forall>y. root t = Some y \<longrightarrow> parent (pool s) y = None"
    and wA: "window s A b" and n: "finite A" "proc_num s = card A"
    unfolding stride_inv_def by blast
  from ne t(4) obtain l p r where n0: "t = Node l p r" by (cases t) auto
  define s1 where "s1 = snd (stride_pick_next s)"
  have pick: "stride_pick_next s = (Some p, s1)" by (simp add: s1_def stride_pick_next_def t(1) n0)
  let ?c = "proc_stride_comp_f s1" and ?b = "lab6_stride (procs s p)"
  have s1: "pool s1 = pool s" "lab6_run_pool s1 = Some p" "proc_num s1 = proc_num s" "sched_frame s s1"
    "procs s1 = (procs s)(p := (procs s p)\<lparr>lab6_stride := ?b + stride_charge (lab6_priority (procs s p))\<rparr>)"
    by (auto simp: s1_def stride_pick_next_def t(1) n0 sched_frame_def upd_proc_def)
  let ?m = "smerge ?c l r"
  from skew_heap_remove_root[of "pool s" p l r ?c] t n0 obtain h' where
    h: "skew_heap_remove ?c (Some p) p (pool s) = Some (root ?m, h')" "shape h' (root ?m) ?m"
       "\<forall>y. root ?m = Some y \<longrightarrow> parent h' y = None" by auto
  define s2 where "s2 = the (stride_dequeue p s1)"
  have deq: "stride_dequeue p s1 = Some s2" by (simp add: s2_def stride_dequeue_def s1 h Let_def)
  then have s2: "pool s2 = h'" "lab6_run_pool s2 = root ?m" "proc_num s2 = proc_num s1 - 1"
    "sched_frame s1 s2" "procs s2 = procs s1"
    by (auto simp: stride_dequeue_def s1 h Let_def sched_frame_def)
  have min: "\<forall>q \<in> A. skey s b p \<le> skey s b q" using kheap_root_min[OF t(5)] t(4) n0 by auto
  have pA: "p \<in> A" using t(4) n0 by auto
  have w2: "window s2 A ?b"
    by (rule window_after_charge[OF wA pA min, where pr = "lab6_priority (procs s p)"]) (simp_all add: s2 s1)
  have sub: "set_tree l \<union> set_tree r = A - {p}" "p \<notin> set_tree l \<union> set_tree r" using t(3,4) n0 by auto
  have key: "skey s2 ?b q = skey s b q - skey s b p" if "q \<in> A - {p}" for q
    using skey_rebase[of s b p q] min that by (auto simp: skey_def s2 s1)
  have exact: "?c a q = -1 \<longleftrightarrow> skey s2 ?b a < skey s2 ?b q" if "a \<in> A" "q \<in> A" for a q
    using comp_exact[OF w2 that] by (simp add: proc_stride_comp_f_def s2)
  have "kheap (skey s2 ?b) l"
    by (rule kheap_shift[where k = "skey s b" and c = "skey s b p"]) (use t(5) n0 sub key in auto)
  moreover have "kheap (skey s2 ?b) r"
    by (rule kheap_shift[where k = "skey s b" and c = "skey s b p"]) (use t(5) n0 sub key in auto)
  ultimately have kh: "kheap (skey s2 ?b) ?m"
    using exact sub(1) by (intro kheap_smerge) auto
  have dt: "dtree ?m" using t(3) n0 by (intro dtree_smerge) auto
  have "stride_inv s2 (A - {p}) ?b"
    unfolding stride_inv_def
    using w2 n pA s1(3) s2(1-3) h(2,3) kh dt sub(1)
    by (auto simp: window_def card_Diff_singleton intro!: exI[of _ ?m])
  with pick pA min deq w2 s1(4,5) s2(4,5) show ?thesis
    by (intro exI[of _ p] exI[of _ s1] exI[of _ s2]) (auto intro: sched_frame_trans)
qed


section \<open>Rounds of the scheduler\<close>

text \<open>The scheduler's use of the class while no process blocks: pick, take out, run, put back.\<close>

primrec stride_rounds :: "nat \<Rightarrow> kstate \<Rightarrow> (nat list \<times> kstate) option" where
  "stride_rounds 0 s = Some ([], s)"
| "stride_rounds (Suc n) s =
     (case stride_pick_next s of
        (None, s1) \<Rightarrow> Some ([], s1)
      | (Some p, s1) \<Rightarrow> do {
          s2 \<leftarrow> stride_dequeue p s1;
          s3 \<leftarrow> stride_enqueue p s2;
          (ps, s4) \<leftarrow> stride_rounds n s3;
          Some (p # ps, s4) })"

lemma stride_round:
  assumes "stride_inv s A b" "A \<noteq> {}"
  shows "\<exists>p s1 s2 s3. stride_pick_next s = (Some p, s1) \<and> p \<in> A \<and> stride_dequeue p s1 = Some s2
    \<and> stride_enqueue p s2 = Some s3 \<and> stride_inv s3 A (lab6_stride (procs s p))"
proof -
  from stride_pick_dequeue[OF assms] obtain p s1 s2 where
    p: "stride_pick_next s = (Some p, s1)" "p \<in> A" "stride_dequeue p s1 = Some s2"
       "stride_inv s2 (A - {p}) (lab6_stride (procs s p))" "window s2 A (lab6_stride (procs s p))" by blast
  from p(2,5) have "skey s2 (lab6_stride (procs s p)) p \<le> uint BIG_STRIDE" by (simp add: window_def)
  from stride_enqueue_inv[OF p(4) _ this] p(2) obtain s3 where
    "stride_enqueue p s2 = Some s3" "stride_inv s3 A (lab6_stride (procs s p))"
    by (auto simp: insert_absorb)
  with p show ?thesis by blast
qed

lemma stride_init_inv: "stride_inv (stride_init s) {} b"
  by (auto simp: stride_inv_def stride_init_def window_def intro!: exI[of _ Leaf])


text \<open>C21. On such a pool \<open>stride_pick_next\<close> returns a process whose stride is the least number
  of units above the base, adds exactly \<open>BIG_STRIDE / priority\<close> (or \<open>BIG_STRIDE\<close> for priority
  0) to it and changes no other stride; the following \<open>stride_dequeue\<close> returns, removes
  exactly that process and leaves a well-formed heap; the charged stride is again in the
  window above the stride the process had.\<close>

theorem stride_picks_least:
  assumes "stride_inv s A b" "A \<noteq> {}"
  shows "\<exists>p s1 s2. stride_pick_next s = (Some p, s1) \<and> p \<in> A \<and> (\<forall>q \<in> A. skey s b p \<le> skey s b q)
    \<and> stride_dequeue p s1 = Some s2 \<and> stride_inv s2 (A - {p}) (lab6_stride (procs s p))
    \<and> window s2 A (lab6_stride (procs s p))
    \<and> procs s2 = (procs s)(p := (procs s p)\<lparr>lab6_stride :=
        lab6_stride (procs s p) + stride_charge (lab6_priority (procs s p))\<rparr>)"
  using stride_pick_dequeue[OF assms] by metis

text \<open>A pool with two processes whose strides lie on both sides of the wrap-around.\<close>

definition stride_two :: kstate where
  "stride_two = stride_init (upd_proc 1 (\<lambda>p. p\<lparr>lab6_stride := 0xFFFFFFF0, lab6_priority := 2\<rparr>)
     (upd_proc 2 (\<lambda>p. p\<lparr>lab6_stride := 5, lab6_priority := 1\<rparr>) boot_state))"

lemma stride_two_pool:
  "\<exists>s. Option.bind (stride_enqueue 1 stride_two) (stride_enqueue 2) = Some s
     \<and> stride_inv s {1, 2} 0xFFFFFFF0"
proof -
  have i0: "stride_inv stride_two {} 0xFFFFFFF0" unfolding stride_two_def by (rule stride_init_inv)
  have "skey stride_two 0xFFFFFFF0 1 \<le> uint BIG_STRIDE"
    by (simp add: skey_def stride_two_def stride_init_def)
  from stride_enqueue_inv[OF i0 _ this] obtain s1 where
    s1: "stride_enqueue 1 stride_two = Some s1" "stride_inv s1 {1} 0xFFFFFFF0"
      "\<forall>q. lab6_stride (procs s1 q) = lab6_stride (procs stride_two q)" by auto
  have "skey s1 0xFFFFFFF0 2 \<le> uint BIG_STRIDE"
    by (simp add: skey_def s1(3)) (simp add: stride_two_def stride_init_def)
  from stride_enqueue_inv[OF s1(2) _ this] s1(1) show ?thesis by (auto simp: insert_commute)
qed


theorem stride_picks_least_witness:
  "\<exists>s s1. Option.bind (stride_enqueue 1 stride_two) (stride_enqueue 2) = Some s
     \<and> stride_pick_next s = (Some 1, s1)"
proof -
  from stride_two_pool obtain s where
    s: "Option.bind (stride_enqueue 1 stride_two) (stride_enqueue 2) = Some s" "stride_inv s {1, 2} 0xFFFFFFF0"
    by blast
  have k: "lab6_stride (procs s q) = lab6_stride (procs stride_two q)" for q
    using s(1) by (auto simp: stride_enqueue_def Let_def upd_proc_def bind_Some_iff split: if_splits option.splits prod.splits)
  from stride_picks_least[OF s(2)] obtain p s1 where
    "stride_pick_next s = (Some p, s1)" "p \<in> {1, 2}" "\<forall>q \<in> {1, 2}. skey s 0xFFFFFFF0 p \<le> skey s 0xFFFFFFF0 q"
    by auto
  moreover have "skey s 0xFFFFFFF0 1 < skey s 0xFFFFFFF0 2"
    by (simp add: skey_def k) (simp add: stride_two_def stride_init_def)
  ultimately show ?thesis using s(1) by auto
qed

end
