(* ===== verification/Sched.thy ===== *)
theory Sched
  imports Run_Queue
begin

text \<open>
  The scheduler core of \<open>kern/schedule/sched.c\<close>: waking a process, choosing the next one,
  switching to it (\<open>proc_run\<close> of \<open>proc.c\<close>), and the list of timers.  The scheduling class
  is an argument of type \<^typ>\<open>sched_class\<close>, as it is a pointer in the source.  The code
  between \<open>local_intr_save\<close> and \<open>local_intr_restore\<close> runs with interrupts disabled on one
  processor, so each function is one step on the state.  \<open>schedule\<close> yields the state in
  which the chosen process continues.
\<close>

section \<open>Scheduling\<close>

definition sched_class_enqueue :: "sched_class \<Rightarrow> nat \<Rightarrow> kstate \<Rightarrow> kstate option" where
  "sched_class_enqueue sc p s = (if p \<noteq> idleproc s then sc_enqueue sc p s else Some s)"

definition sched_class_dequeue :: "sched_class \<Rightarrow> nat \<Rightarrow> kstate \<Rightarrow> kstate option" where
  "sched_class_dequeue sc p s = sc_dequeue sc p s"

definition sched_class_pick_next :: "sched_class \<Rightarrow> kstate \<Rightarrow> nat option \<times> kstate" where
  "sched_class_pick_next sc s = sc_pick_next sc s"

definition sched_class_proc_tick :: "sched_class \<Rightarrow> nat \<Rightarrow> kstate \<Rightarrow> kstate" where
  "sched_class_proc_tick sc p s =
     (if p \<noteq> idleproc s then sc_proc_tick sc p s
      else upd_proc p (need_resched_update (\<lambda>_. True)) s)"

abbreviation MAX_TIME_SLICE :: int where "MAX_TIME_SLICE \<equiv> 5"

definition sched_init :: "sched_class \<Rightarrow> kstate \<Rightarrow> kstate" where
  "sched_init sc s = sc_init sc (s\<lparr>timer_links := list_init TimerList (timer_links s),
     max_time_slice := MAX_TIME_SLICE\<rparr>)"

definition proc_run :: "nat \<Rightarrow> kstate \<Rightarrow> kstate" where
  "proc_run p s =
     (if p \<noteq> current s
      then let prev = current s;
               s1 = s\<lparr>current := p\<rparr>
           in if pgdir (procs s1 prev) \<noteq> pgdir (procs s1 p)
              then s1\<lparr>satp := pgdir (procs s1 p)\<rparr> else s1
      else s)"

definition wakeup_proc :: "sched_class \<Rightarrow> nat \<Rightarrow> kstate \<Rightarrow> kstate option" where
  "wakeup_proc sc p s = do {
     kassert (state (procs s p) \<noteq> PROC_ZOMBIE);
     if state (procs s p) \<noteq> PROC_RUNNABLE
     then let s1 = upd_proc p (\<lambda>pr. pr\<lparr>state := PROC_RUNNABLE, wait_state := 0\<rparr>) s
          in if p \<noteq> current s1 then sched_class_enqueue sc p s1 else Some s1
     else Some s }"

definition schedule :: "sched_class \<Rightarrow> kstate \<Rightarrow> kstate option" where
  "schedule sc s = do {
     let s1 = upd_proc (current s) (need_resched_update (\<lambda>_. False)) s;
     s2 \<leftarrow> (if state (procs s1 (current s1)) = PROC_RUNNABLE
           then sched_class_enqueue sc (current s1) s1 else Some s1);
     let (next, s3) = sched_class_pick_next sc s2;
     s4 \<leftarrow> (case next of Some n \<Rightarrow> sched_class_dequeue sc n s3 | None \<Rightarrow> Some s3);
     let n = (case next of Some n \<Rightarrow> n | None \<Rightarrow> idleproc s4);
     let s5 = upd_proc n (runs_update (\<lambda>r. r + 1)) s4;
     Some (if n \<noteq> current s5 then proc_run n s5 else s5) }"

section \<open>Timers\<close>

text \<open>
  The timer list holds differences: a timer expires as many ticks after the timer in front
  of it as its \<open>expires\<close> field says.  The differences are natural numbers; \<open>deltas_total\<close>
  below bounds their sum by the largest time ever requested, so the \<open>unsigned int\<close> of the
  source does not wrap.  A timer's process pointer is never null here.
\<close>

definition upd_timer :: "nat \<Rightarrow> (timer \<Rightarrow> timer) \<Rightarrow> kstate \<Rightarrow> kstate" where
  "upd_timer t f s = s\<lparr>timers := (timers s)(t := f (timers s t))\<rparr>"

definition timer_init :: "nat \<Rightarrow> nat \<Rightarrow> nat \<Rightarrow> kstate \<Rightarrow> kstate" where
  "timer_init t p e s =
     (let s1 = upd_timer t (\<lambda>_. \<lparr>expires = e, tproc = p\<rparr>) s
      in s1\<lparr>timer_links := list_init (TimerLink t) (timer_links s1)\<rparr>)"

partial_function (option) add_timer_loop ::
  "nat \<Rightarrow> timer_node \<Rightarrow> kstate \<Rightarrow> (timer_node \<times> kstate) option" where
  "add_timer_loop t le s =
     (case le of
        TimerList \<Rightarrow> Some (TimerList, s)
      | TimerLink n \<Rightarrow>
          if expires (timers s t) < expires (timers s n)
          then Some (TimerLink n, upd_timer n (expires_update (\<lambda>e. e - expires (timers s t))) s)
          else let s1 = upd_timer t (expires_update (\<lambda>e. e - expires (timers s n))) s
               in add_timer_loop t (list_next (timer_links s1) (TimerLink n)) s1)"

declare add_timer_loop.simps [code]

definition add_timer :: "nat \<Rightarrow> kstate \<Rightarrow> kstate option" where
  "add_timer t s = do {
     kassert (expires (timers s t) > 0);
     kassert (list_empty (timer_links s) (TimerLink t));
     (le, s1) \<leftarrow> add_timer_loop t (list_next (timer_links s) TimerList) s;
     Some (s1\<lparr>timer_links := list_add_before le (TimerLink t) (timer_links s1)\<rparr>) }"

definition del_timer :: "nat \<Rightarrow> kstate \<Rightarrow> kstate" where
  "del_timer t s =
     (if \<not> list_empty (timer_links s) (TimerLink t)
      then let s1 = (if expires (timers s t) \<noteq> 0
                     then case list_next (timer_links s) (TimerLink t) of
                            TimerList \<Rightarrow> s
                          | TimerLink n \<Rightarrow>
                              upd_timer n (expires_update (\<lambda>e. e + expires (timers s t))) s
                     else s)
           in s1\<lparr>timer_links := list_del_init (TimerLink t) (timer_links s1)\<rparr>
      else s)"

text \<open>The body of the loop of \<open>run_timer_list\<close>: wake the process, drop the timer.\<close>

definition fire_timer :: "sched_class \<Rightarrow> nat \<Rightarrow> kstate \<Rightarrow> kstate option" where
  "fire_timer sc t s = do {
     let p = tproc (timers s t);
     (if wait_state (procs s p) \<noteq> 0
      then kassert (and (wait_state (procs s p)) WT_INTERRUPTED \<noteq> 0) else Some ());
     s1 \<leftarrow> wakeup_proc sc p s;
     Some (del_timer t s1) }"

partial_function (option) run_timers :: "sched_class \<Rightarrow> nat \<Rightarrow> kstate \<Rightarrow> kstate option" where
  "run_timers sc t s =
     (if expires (timers s t) = 0
      then let le = list_next (timer_links s) (TimerLink t) in do {
        s1 \<leftarrow> fire_timer sc t s;
        (case le of TimerList \<Rightarrow> Some s1 | TimerLink n \<Rightarrow> run_timers sc n s1) }
      else Some s)"

declare run_timers.simps [code]

definition run_timer_list :: "sched_class \<Rightarrow> kstate \<Rightarrow> kstate option" where
  "run_timer_list sc s = do {
     s1 \<leftarrow> (case list_next (timer_links s) TimerList of
            TimerList \<Rightarrow> Some s
          | TimerLink t \<Rightarrow> do {
              kassert (expires (timers s t) \<noteq> 0);
              run_timers sc t (upd_timer t (expires_update (\<lambda>e. e - 1)) s) });
     Some (sched_class_proc_tick sc (current s1) s1) }"


section \<open>The timer list as absolute times\<close>

definition tlist :: "kstate \<Rightarrow> nat list \<Rightarrow> bool" where
  "tlist s xs \<longleftrightarrow> dlist (timer_links s) TimerList (map TimerLink xs)"

text \<open>The ticks after which each timer of the list expires.\<close>

fun due :: "(nat \<Rightarrow> timer) \<Rightarrow> nat \<Rightarrow> nat list \<Rightarrow> (nat \<times> nat) list" where
  "due T c [] = []"
| "due T c (x # xs) = (x, c + expires (T x)) # due T (c + expires (T x)) xs"

definition timer_inv :: "kstate \<Rightarrow> nat list \<Rightarrow> bool" where
  "timer_inv s xs \<longleftrightarrow> tlist s xs \<and> (\<forall>(x, d) \<in> set (due (timers s) 0 xs). 0 < d \<and> d < 2 ^ 32)"

abbreviation delta_sum :: "(nat \<Rightarrow> timer) \<Rightarrow> nat list \<Rightarrow> nat" where
  "delta_sum T xs \<equiv> sum_list (map (\<lambda>x. expires (T x)) xs)"

lemma due_append: "due T c (xs @ ys) = due T c xs @ due T (c + delta_sum T xs) ys"
  by (induction xs arbitrary: c) (simp_all add: add.assoc)

lemma due_cong: "(\<And>x. x \<in> set xs \<Longrightarrow> expires (T x) = expires (T' x)) \<Longrightarrow> due T c xs = due T' c xs"
  by (induction xs arbitrary: c) auto

lemma due_last: "xs \<noteq> [] \<Longrightarrow> (last xs, c + delta_sum T xs) \<in> set (due T c xs)"
  by (induction xs arbitrary: c) (auto simp: add.assoc[symmetric])

lemma due_fst: "map fst (due T c xs) = xs"
  by (induction xs arbitrary: c) auto

lemma due_shift: "due T (c + k) xs = map (\<lambda>(x, d). (x, d + k)) (due T c xs)"
proof (induction xs arbitrary: c)
  case (Cons x xs)
  have "c + k + expires (T x) = c + expires (T x) + k" by simp
  then show ?case using Cons[of "c + expires (T x)"] by (simp only: due.simps list.map prod.case)
qed simp

lemma due_ge: "(x, d) \<in> set (due T c xs) \<Longrightarrow> c \<le> d"
proof (induction xs arbitrary: c)
  case (Cons a xs)
  from Cons.prems consider "d = c + expires (T a)" | "c + expires (T a) \<le> d"
    using Cons.IH[of "c + expires (T a)"] by auto
  then show ?case by cases auto
qed simp

lemma due_dec:
  assumes "0 < expires (T x)" "x \<notin> set xs"
  shows "due (T(x := expires_update (\<lambda>e. e - 1) (T x))) 0 (x # xs) = map (\<lambda>(y, d). (y, d - 1)) (due T 0 (x # xs))"
proof -
  let ?T = "T(x := expires_update (\<lambda>e. e - 1) (T x))"
  have "due ?T c xs = due T c xs" for c using assms(2) by (intro due_cong) auto
  moreover have "due T (expires (T x)) xs = map (\<lambda>(y, d). (y, d + 1)) (due T (expires (T x) - 1) xs)"
    using due_shift[of T "expires (T x) - 1" 1 xs] assms(1) by simp
  ultimately show ?thesis by (simp add: comp_def split_def)
qed

lemma due_dropWhile:
  "due T 0 (dropWhile (\<lambda>x. expires (T x) = 0) xs) = filter (\<lambda>(x, d). 0 < d) (due T 0 xs)"
proof (induction xs)
  case (Cons x xs)
  have "filter (\<lambda>(x, d). 0 < d) (due T c xs) = due T c xs" if "0 < c" for c
    using that by (auto simp: filter_id_conv dest: due_ge)
  with Cons show ?case by auto
qed simp

lemma due_takeWhile:
  "set (takeWhile (\<lambda>x. expires (T x) = 0) xs) = {x. (x, 0) \<in> set (due T 0 xs)}"
proof (induction xs)
  case (Cons x xs)
  have "(y, 0) \<notin> set (due T c xs)" if "0 < c" for y c using due_ge[of y 0 T c xs] that by auto
  then show ?case using Cons by (cases "expires (T x) = 0") auto
qed simp

text \<open>The differences never exceed what an \<open>unsigned int\<close> holds.\<close>

lemma deltas_total: "timer_inv s xs \<Longrightarrow> delta_sum (timers s) xs < 2 ^ 32"
  using due_last[of xs 0 "timers s"] by (cases "xs = []") (auto simp: timer_inv_def)

abbreviation tnode :: "nat list \<Rightarrow> timer_node" where
  "tnode xs \<equiv> (case xs of [] \<Rightarrow> TimerList | x # _ \<Rightarrow> TimerLink x)"

lemma tlist_next_head: "tlist s xs \<Longrightarrow> list_next (timer_links s) TimerList = tnode xs"
  using dlist_nxt_head[of "timer_links s" TimerList "map TimerLink xs"]
  by (cases xs) (auto simp: tlist_def list_next_def)

lemma tlist_next: "tlist s (us @ x # vs) \<Longrightarrow> list_next (timer_links s) (TimerLink x) = tnode vs"
  using dlist_nxt_mid[of "timer_links s" TimerList "map TimerLink us" "TimerLink x" "map TimerLink vs"]
  by (cases vs) (auto simp: tlist_def list_next_def)

lemma upd_timer_simps [simp]:
  "timer_links (upd_timer t f s) = timer_links s" "procs (upd_timer t f s) = procs s"
  "timers (upd_timer t f s) = (timers s)(t := f (timers s t))"
  by (simp_all add: upd_timer_def)

lemma add_timer_loop_ok:
  assumes "tlist s (us @ vs)" "t \<notin> set (us @ vs)"
  shows "\<exists>vs1 vs2 T. add_timer_loop t (tnode vs) s = Some (tnode vs2, s\<lparr>timers := T\<rparr>) \<and> vs = vs1 @ vs2
    \<and> set (due T c (vs1 @ t # vs2)) = insert (t, c + expires (timers s t)) (set (due (timers s) c vs))
    \<and> (\<forall>y. y \<notin> insert t (set vs) \<longrightarrow> T y = timers s y) \<and> (\<forall>y. tproc (T y) = tproc (timers s y))"
  using assms
proof (induction vs arbitrary: us s c)
  case Nil
  show ?case by (rule exI[of _ "[]"], rule exI[of _ "[]"], rule exI[of _ "timers s"])
    (simp add: add_timer_loop.simps)
next
  case (Cons v vs)
  have nx: "list_next (timer_links s) (TimerLink v) = tnode vs" using tlist_next Cons.prems(1) .
  have ds: "v \<notin> set vs" "t \<noteq> v" "t \<notin> set vs"
    using Cons.prems by (auto simp: tlist_def dlist_def distinct_map)
  show ?case
  proof (cases "expires (timers s t) < expires (timers s v)")
    case True
    define T where "T = (timers s)(v := expires_update (\<lambda>e. e - expires (timers s t)) (timers s v))"
    have e: "add_timer_loop t (TimerLink v) s = Some (TimerLink v, s\<lparr>timers := T\<rparr>)"
      using True by (simp add: add_timer_loop.simps[of t "TimerLink v"] upd_timer_def T_def)
    have "due T c' vs = due (timers s) c' vs" for c' using ds by (intro due_cong) (auto simp: T_def)
    moreover have "expires (T t) = expires (timers s t)" "expires (T t) + expires (T v) = expires (timers s v)"
      using ds True by (auto simp: T_def)
    ultimately have "set (due T c ([] @ t # v # vs))
        = insert (t, c + expires (timers s t)) (set (due (timers s) c (v # vs)))"
      by (simp add: add.assoc)
    moreover have "\<forall>y. y \<notin> insert t (set (v # vs)) \<longrightarrow> T y = timers s y" "\<forall>y. tproc (T y) = tproc (timers s y)"
      by (auto simp: T_def)
    ultimately show ?thesis using e
      by (intro exI[of _ "[]"] exI[of _ "v # vs"] exI[of _ T]) simp
  next
    case False
    define s1 where "s1 = upd_timer t (expires_update (\<lambda>e. e - expires (timers s v))) s"
    have "tlist s1 ((us @ [v]) @ vs)" "t \<notin> set ((us @ [v]) @ vs)"
      using Cons.prems by (simp_all add: s1_def tlist_def)
    from Cons.IH[OF this, of "c + expires (timers s v)"] obtain vs1 vs2 T where
      ih: "add_timer_loop t (tnode vs) s1 = Some (tnode vs2, s1\<lparr>timers := T\<rparr>)" "vs = vs1 @ vs2"
        "set (due T (c + expires (timers s v)) (vs1 @ t # vs2))
           = insert (t, c + expires (timers s v) + expires (timers s1 t)) (set (due (timers s1) (c + expires (timers s v)) vs))"
        "\<forall>y. y \<notin> insert t (set vs) \<longrightarrow> T y = timers s1 y" "\<forall>y. tproc (T y) = tproc (timers s1 y)" by blast
    have e: "add_timer_loop t (TimerLink v) s = Some (tnode vs2, s\<lparr>timers := T\<rparr>)"
      using False ih(1) nx unfolding add_timer_loop.simps[of t "TimerLink v"]
      by (simp add: s1_def[symmetric] Let_def) (simp add: s1_def upd_timer_def nx)
    have Tv: "T v = timers s v" using ih(4) ds by (simp add: s1_def)
    have c: "due (timers s1) c' vs = due (timers s) c' vs" for c' using ds by (intro due_cong) (auto simp: s1_def)
    have "c + expires (timers s v) + expires (timers s1 t) = c + expires (timers s t)"
      using False by (simp add: s1_def)
    then have "set (due T c ((v # vs1) @ t # vs2)) = insert (t, c + expires (timers s t)) (set (due (timers s) c (v # vs)))"
      using ih(3) by (simp add: Tv c insert_commute add.assoc)
    moreover have "\<forall>y. y \<notin> insert t (set (v # vs)) \<longrightarrow> T y = timers s y" "\<forall>y. tproc (T y) = tproc (timers s y)"
      using ih(4,5) by (auto simp: s1_def)
    ultimately show ?thesis using e ih(2)
      by (intro exI[of _ "v # vs1"] exI[of _ vs2] exI[of _ T]) simp
  qed
qed

lemma add_timer_correct:
  assumes inv: "timer_inv s xs" and t: "t \<notin> set xs" "list_empty (timer_links s) (TimerLink t)"
    and e: "0 < expires (timers s t)" "expires (timers s t) < 2 ^ 32"
  shows "\<exists>s' ys. add_timer t s = Some s' \<and> timer_inv s' ys \<and> set ys = insert t (set xs)
    \<and> set (due (timers s') 0 ys) = insert (t, expires (timers s t)) (set (due (timers s) 0 xs))
    \<and> (\<forall>y. tproc (timers s' y) = tproc (timers s y))"
proof -
  have tl: "tlist s ([] @ xs)" using inv by (simp add: timer_inv_def)
  from add_timer_loop_ok[OF tl, of t 0] t(1) obtain vs1 vs2 T where
    l: "add_timer_loop t (tnode xs) s = Some (tnode vs2, s\<lparr>timers := T\<rparr>)" "xs = vs1 @ vs2"
      "set (due T 0 (vs1 @ t # vs2)) = insert (t, expires (timers s t)) (set (due (timers s) 0 xs))"
      "\<forall>y. tproc (T y) = tproc (timers s y)" by auto
  define s' where "s' = s\<lparr>timers := T, timer_links := list_add_before (tnode vs2) (TimerLink t) (timer_links s)\<rparr>"
  have a: "add_timer t s = Some s'"
    using e(1) t(2) tl l(1) tlist_next_head[of s xs] by (simp add: add_timer_def s'_def)
  have "tlist s' (vs1 @ t # vs2)"
    using tl l(2) t(1) dlist_add_before_head[of "timer_links s" TimerList "map TimerLink vs1" "TimerLink t"]
      dlist_add_before[of "timer_links s" TimerList "map TimerLink vs1" "TimerLink (hd vs2)" "map TimerLink (tl vs2)" "TimerLink t"]
    by (cases vs2) (auto simp: tlist_def s'_def)
  then have "timer_inv s' (vs1 @ t # vs2)"
    using inv l(3) e by (auto simp: timer_inv_def s'_def)
  with a l show ?thesis by (intro exI[of _ s'] exI[of _ "vs1 @ t # vs2"]) (auto simp: s'_def)
qed

lemma del_timer_tlist:
  assumes "tlist s (us @ t # vs)"
  shows "tlist (del_timer t s) (us @ vs)" "list_empty (timer_links (del_timer t s)) (TimerLink t)"
    and "timers (del_timer t s) = (if expires (timers s t) \<noteq> 0 \<and> vs \<noteq> []
      then (timers s)(hd vs := expires_update (\<lambda>e. e + expires (timers s t)) (timers s (hd vs))) else timers s)"
    and "procs (del_timer t s) = procs s"
proof -
  have d: "dlist (timer_links s) TimerList (map TimerLink us @ TimerLink t # map TimerLink vs)"
    using assms by (simp add: tlist_def)
  have ne: "\<not> list_empty (timer_links s) (TimerLink t)" using dlist_member_not_empty[OF d] by simp
  have nx: "list_next (timer_links s) (TimerLink t) = tnode vs" using tlist_next[OF assms] .
  have lk: "timer_links (del_timer t s) = list_del_init (TimerLink t) (timer_links s)"
    using ne nx by (cases vs) (simp_all add: del_timer_def Let_def)
  show "tlist (del_timer t s) (us @ vs)" "list_empty (timer_links (del_timer t s)) (TimerLink t)"
    using dlist_del_init[OF d] by (simp_all add: tlist_def lk)
  show "timers (del_timer t s) = (if expires (timers s t) \<noteq> 0 \<and> vs \<noteq> []
      then (timers s)(hd vs := expires_update (\<lambda>e. e + expires (timers s t)) (timers s (hd vs))) else timers s)"
    "procs (del_timer t s) = procs s"
    using ne nx by (cases vs; simp add: del_timer_def Let_def)+
qed

lemma del_timer_correct:
  assumes inv: "timer_inv s (us @ t # vs)"
  shows "timer_inv (del_timer t s) (us @ vs)"
    and "set (due (timers (del_timer t s)) 0 (us @ vs))
      = {(x, d). (x, d) \<in> set (due (timers s) 0 (us @ t # vs)) \<and> x \<noteq> t}"
proof -
  have tl: "tlist s (us @ t # vs)" using inv by (simp add: timer_inv_def)
  then have ds: "t \<notin> set us" "t \<notin> set vs" "distinct (us @ vs)" by (auto simp: tlist_def dlist_def distinct_map)
  let ?T = "timers (del_timer t s)" and ?c = "delta_sum (timers s) us"
  have us: "due ?T 0 us = due (timers s) 0 us" "delta_sum ?T us = ?c"
    using ds(3) del_timer_tlist(3)[OF tl]
    by (cases vs; auto intro!: due_cong arg_cong[of _ _ sum_list] map_cong)+
  have vs: "due ?T ?c vs = due (timers s) (?c + expires (timers s t)) vs"
  proof (cases vs)
    case (Cons v ws)
    have "due ?T c ws = due (timers s) c ws" for c
      using ds(3) del_timer_tlist(3)[OF tl] Cons by (intro due_cong) auto
    then show ?thesis using del_timer_tlist(3)[OF tl] Cons by (simp add: ac_simps)
  qed simp
  have "set (due ?T 0 (us @ vs)) = set (due (timers s) 0 us) \<union> set (due (timers s) (?c + expires (timers s t)) vs)"
    by (simp add: due_append us vs)
  moreover have "(t, d) \<notin> set (due (timers s) c us)" "(t, d) \<notin> set (due (timers s) c vs)" for d c
    using ds(1,2) due_fst[of "timers s" c us] due_fst[of "timers s" c vs]
    by (metis fst_conv image_eqI list.set_map)+
  ultimately show e: "set (due ?T 0 (us @ vs))
      = {(x, d). (x, d) \<in> set (due (timers s) 0 (us @ t # vs)) \<and> x \<noteq> t}"
    by (auto simp: due_append)
  show "timer_inv (del_timer t s) (us @ vs)"
    using inv e del_timer_tlist(1)[OF tl] by (auto simp: timer_inv_def)
qed

section \<open>The scheduler over any scheduling class\<close>

text \<open>Two states that agree on everything a scheduling class owns.\<close>

definition same_queue :: "kstate \<Rightarrow> kstate \<Rightarrow> bool" where
  "same_queue s s' \<longleftrightarrow> run_links s' = run_links s \<and> proc_num s' = proc_num s
     \<and> max_time_slice s' = max_time_slice s \<and> lab6_run_pool s' = lab6_run_pool s \<and> pool s' = pool s
     \<and> (\<forall>p. on_rq (procs s' p) = on_rq (procs s p) \<and> time_slice (procs s' p) = time_slice (procs s p)
          \<and> lab6_stride (procs s' p) = lab6_stride (procs s p)
          \<and> lab6_priority (procs s' p) = lab6_priority (procs s p))"

text \<open>Among the live processes \<open>P\<close>: those that are ready, and those ready but not running.
  The idle process is never queued.\<close>

definition runnable :: "kstate \<Rightarrow> nat set \<Rightarrow> nat set" where
  "runnable s P = {p \<in> P. state (procs s p) = PROC_RUNNABLE \<and> p \<noteq> idleproc s}"

definition waiting :: "kstate \<Rightarrow> nat set \<Rightarrow> nat set" where
  "waiting s P = runnable s P - {current s}"

text \<open>The invariant of the scheduler: the class holds exactly the processes that are ready and
  not running, every other live process can be enqueued, and the page table in use is the
  one of the running process.\<close>

definition sched_inv ::
  "(kstate \<Rightarrow> nat set \<Rightarrow> bool) \<Rightarrow> (kstate \<Rightarrow> nat \<Rightarrow> bool) \<Rightarrow> kstate \<Rightarrow> nat set \<Rightarrow> bool" where
  "sched_inv rel det s P \<longleftrightarrow> rel s (waiting s P) \<and> (\<forall>p \<in> P - waiting s P. det s p)
     \<and> current s \<in> P \<and> idleproc s \<in> P \<and> satp s = pgdir (procs s (current s))"

text \<open>Processes a timer may wake.\<close>

definition wakeable :: "kstate \<Rightarrow> nat set \<Rightarrow> nat \<Rightarrow> bool" where
  "wakeable s P p \<longleftrightarrow> p \<in> P \<and> state (procs s p) \<noteq> PROC_ZOMBIE
     \<and> (wait_state (procs s p) = 0 \<or> and (wait_state (procs s p)) WT_INTERRUPTED \<noteq> 0)"

locale scheduler = sched_contract rel detached "sc_enqueue sc" "sc_dequeue sc" "sc_pick_next sc"
  for rel :: "kstate \<Rightarrow> nat set \<Rightarrow> bool" and detached :: "kstate \<Rightarrow> nat \<Rightarrow> bool" and sc :: sched_class +
  assumes rel_same: "same_queue s s' \<Longrightarrow> rel s A \<Longrightarrow> rel s' A"
    and detached_same: "same_queue s s' \<Longrightarrow> detached s p \<Longrightarrow> detached s' p"
    and tick_ok: "rel s A \<Longrightarrow> rel (sc_proc_tick sc p s) A \<and> sched_frame s (sc_proc_tick sc p s)
        \<and> (\<forall>q. detached s q \<longrightarrow> detached (sc_proc_tick sc p s) q)"
    and init_ok: "rel (sc_init sc s) {} \<and> sched_frame s (sc_init sc s)"
begin

lemma wakeup_ok:
  assumes inv: "sched_inv rel detached s P" and p: "p \<in> P" "state (procs s p) \<noteq> PROC_ZOMBIE"
  shows "\<exists>s'. wakeup_proc sc p s = Some s' \<and> sched_inv rel detached s' P
    \<and> state (procs s' p) = PROC_RUNNABLE \<and> current s' = current s \<and> idleproc s' = idleproc s
    \<and> timers s' = timers s \<and> timer_links s' = timer_links s
    \<and> (\<forall>q. q \<noteq> p \<longrightarrow> state (procs s' q) = state (procs s q) \<and> wait_state (procs s' q) = wait_state (procs s q))
    \<and> proc_frame s s'"
proof (cases "state (procs s p) = PROC_RUNNABLE")
  case True
  then show ?thesis using inv by (simp add: wakeup_proc_def)
next
  case False
  define s1 where "s1 = upd_proc p (\<lambda>pr. pr\<lparr>state := PROC_RUNNABLE, wait_state := 0\<rparr>) s"
  have same: "same_queue s s1" by (simp add: same_queue_def s1_def upd_proc_def)
  have s1: "current s1 = current s" "idleproc s1 = idleproc s" "satp s1 = satp s" "timers s1 = timers s"
    "timer_links s1 = timer_links s" "state (procs s1 p) = PROC_RUNNABLE"
    "\<And>q. pgdir (procs s1 q) = pgdir (procs s q)"
    "\<And>q. q \<noteq> p \<Longrightarrow> state (procs s1 q) = state (procs s q) \<and> wait_state (procs s1 q) = wait_state (procs s q)"
    by (auto simp: s1_def upd_proc_def)
  have fr: "proc_frame s s1" unfolding s1_def by (intro upd_proc_frame) simp
  have out: "p \<notin> waiting s P" using False by (simp add: waiting_def runnable_def)
  have rel1: "rel s1 (waiting s P)" "\<forall>q \<in> P - waiting s P. detached s1 q"
    using inv rel_same[OF same] detached_same[OF same] by (auto simp: sched_inv_def)
  show ?thesis
  proof (cases "p = current s \<or> p = idleproc s")
    case True
    then have w: "waiting s1 P = waiting s P"
      using False s1 by (auto simp: waiting_def runnable_def)
    have "wakeup_proc sc p s = Some s1"
      using p(2) False True s1(1,2) by (auto simp: wakeup_proc_def sched_class_enqueue_def s1_def Let_def)
    moreover have "sched_inv rel detached s1 P"
      using inv rel1 s1 w by (simp add: sched_inv_def)
    ultimately show ?thesis using s1 fr by blast
  next
    case other: False
    then have w: "waiting s1 P = insert p (waiting s P)"
      using False p(1) by (auto simp: waiting_def runnable_def s1_def upd_proc_def)
    obtain s2 where s2: "sc_enqueue sc p s1 = Some s2" "rel s2 (waiting s1 P)" "sched_frame s1 s2"
      "\<forall>q. q \<noteq> p \<longrightarrow> q \<notin> waiting s P \<longrightarrow> detached s1 q \<longrightarrow> detached s2 q"
      using enqueue_ok[OF rel1(1) out] rel1(2) p(1) out w by auto
    have e: "wakeup_proc sc p s = Some s2"
      using p(2) False other s1(1,2) s2(1) by (simp add: wakeup_proc_def sched_class_enqueue_def s1_def Let_def)
    have "waiting s2 P = waiting s1 P"
      using s2(3) by (simp add: waiting_def runnable_def sched_frame_def)
    then have "sched_inv rel detached s2 P"
      using inv s2 rel1(2) w s1(1-3,7) by (auto simp: sched_inv_def sched_frame_def)
    moreover have "proc_frame s s2" using fr sched_frame_proc[OF s2(3)] by (rule proc_frame_trans)
    ultimately show ?thesis using e s2(3) s1 by (auto simp: sched_frame_def)
  qed
qed

lemma wakeup_wait_state:
  assumes inv: "sched_inv rel detached s P" and p: "p \<in> P" "state (procs s p) \<noteq> PROC_ZOMBIE"
    and e: "wakeup_proc sc p s = Some s'"
  shows "wait_state (procs s' p) = (if state (procs s p) = PROC_RUNNABLE then wait_state (procs s p) else 0)"
proof -
  define s1 where "s1 = upd_proc p (\<lambda>pr. pr\<lparr>state := PROC_RUNNABLE, wait_state := 0\<rparr>) s"
  have same: "same_queue s s1" by (simp add: same_queue_def s1_def upd_proc_def)
  have "sched_frame s1 s2" if "sc_enqueue sc p s1 = Some s2" "state (procs s p) \<noteq> PROC_RUNNABLE" for s2
  proof -
    have "p \<notin> waiting s P" using that(2) by (simp add: waiting_def runnable_def)
    moreover then have "rel s1 (waiting s P)" "detached s1 p"
      using inv p(1) rel_same[OF same] detached_same[OF same] by (auto simp: sched_inv_def)
    ultimately show ?thesis using enqueue_ok[of s1 "waiting s P" p] that(1) by auto
  qed
  then have "state (procs s p) \<noteq> PROC_RUNNABLE \<Longrightarrow> sched_frame s1 s'"
    using e p(2) unfolding wakeup_proc_def sched_class_enqueue_def s1_def[symmetric] Let_def
    by (auto split: if_splits)
  moreover have "wait_state (procs s1 p) = 0" by (simp add: s1_def upd_proc_def)
  moreover have "state (procs s p) = PROC_RUNNABLE \<Longrightarrow> s' = s" using e by (simp add: wakeup_proc_def)
  ultimately show ?thesis by (auto simp: sched_frame_def)
qed

text \<open>The first half of \<open>schedule\<close>: a running process that is still ready goes back to the class.\<close>

lemma requeue_ok:
  assumes inv: "sched_inv rel detached s P"
  shows "\<exists>s'. (if state (procs s (current s)) = PROC_RUNNABLE
               then sched_class_enqueue sc (current s) s else Some s) = Some s'
    \<and> rel s' (runnable s P) \<and> (\<forall>p \<in> P - runnable s P. detached s' p) \<and> sched_frame s s'"
proof (cases "state (procs s (current s)) = PROC_RUNNABLE \<and> current s \<noteq> idleproc s")
  case True
  have out: "current s \<notin> waiting s P" by (simp add: waiting_def)
  have r: "rel s (waiting s P)" "detached s (current s)"
    using inv out by (auto simp: sched_inv_def)
  have w: "insert (current s) (waiting s P) = runnable s P"
    using True inv by (auto simp: waiting_def runnable_def sched_inv_def)
  from enqueue_ok[OF r(1) out r(2)] w obtain s' where
    s': "sc_enqueue sc (current s) s = Some s'" "rel s' (runnable s P)" "sched_frame s s'"
      "\<forall>q. q \<noteq> current s \<longrightarrow> q \<notin> waiting s P \<longrightarrow> detached s q \<longrightarrow> detached s' q" by auto
  moreover have "\<forall>p \<in> P - runnable s P. detached s' p"
    using s'(4) inv w by (auto simp: sched_inv_def)
  ultimately show ?thesis using True by (auto simp: sched_class_enqueue_def)
next
  case False
  then have "waiting s P = runnable s P" by (auto simp: waiting_def runnable_def)
  then show ?thesis using False inv by (auto simp: sched_inv_def sched_class_enqueue_def)
qed

text \<open>The second half: take a process out of the class, or fall back to the idle process.\<close>

lemma choose_ok:
  assumes "rel s R" "\<forall>p \<in> P - R. detached s p" "R \<subseteq> P" "idleproc s \<in> P" "idleproc s \<notin> R"
  shows "\<exists>next s1 s2 n. sched_class_pick_next sc s = (next, s1)
    \<and> (case next of Some n \<Rightarrow> sched_class_dequeue sc n s1 | None \<Rightarrow> Some s1) = Some s2
    \<and> n = (case next of Some n \<Rightarrow> n | None \<Rightarrow> idleproc s2)
    \<and> rel s2 (R - {n}) \<and> (\<forall>p \<in> P - (R - {n}). detached s2 p) \<and> sched_frame s s2 \<and> n \<in> P
    \<and> (if R = {} then n = idleproc s else n \<in> R)"
proof (cases "R = {}")
  case True
  then show ?thesis using assms pick_none[of s] by (auto simp: sched_class_pick_next_def)
next
  case False
  from pick_some[OF assms(1) False] obtain p s1 s2 where
    p: "sc_pick_next sc s = (Some p, s1)" "p \<in> R" "sc_dequeue sc p s1 = Some s2" "rel s2 (R - {p})"
       "detached s2 p" "sched_frame s s2" "\<forall>q. q \<notin> R \<longrightarrow> detached s q \<longrightarrow> detached s2 q" by blast
  then show ?thesis using assms False
    by (intro exI[of _ "Some p"] exI[of _ s1] exI[of _ s2] exI[of _ p])
      (auto simp: sched_class_pick_next_def sched_class_dequeue_def)
qed

lemma switch_simps:
  "current (if n \<noteq> current s then proc_run n s else s) = n"
  "procs (if n \<noteq> current s then proc_run n s else s) = procs s"
  "idleproc (if n \<noteq> current s then proc_run n s else s) = idleproc s"
  "satp s = pgdir (procs s (current s)) \<Longrightarrow> satp (if n \<noteq> current s then proc_run n s else s) = pgdir (procs s n)"
  "same_queue s (if n \<noteq> current s then proc_run n s else s)"
  by (auto simp: proc_run_def Let_def same_queue_def)

lemma schedule_ok:
  assumes inv: "sched_inv rel detached s P"
  shows "\<exists>s'. schedule sc s = Some s' \<and> sched_inv rel detached s' P
    \<and> (if runnable s P = {} then current s' = idleproc s else current s' \<in> runnable s P)
    \<and> idleproc s' = idleproc s
    \<and> (\<forall>q. state (procs s' q) = state (procs s q) \<and> wait_state (procs s' q) = wait_state (procs s q))
    \<and> proc_frame s s'"
proof -
  define s1 where "s1 = upd_proc (current s) (need_resched_update (\<lambda>_. False)) s"
  have same1: "same_queue s s1" by (simp add: same_queue_def s1_def upd_proc_def)
  have s1: "current s1 = current s" "idleproc s1 = idleproc s" "satp s1 = satp s"
    "\<And>q. state (procs s1 q) = state (procs s q)" "\<And>q. wait_state (procs s1 q) = wait_state (procs s q)" "\<And>q. pgdir (procs s1 q) = pgdir (procs s q)"
    by (auto simp: s1_def upd_proc_def)
  have inv1: "sched_inv rel detached s1 P" and R1: "runnable s1 P = runnable s P"
    using inv rel_same[OF same1] detached_same[OF same1] s1
    by (auto simp: sched_inv_def waiting_def runnable_def)
  from requeue_ok[OF inv1] R1 obtain s2 where
    s2: "(if state (procs s1 (current s1)) = PROC_RUNNABLE
          then sched_class_enqueue sc (current s1) s1 else Some s1) = Some s2"
      "rel s2 (runnable s P)" "\<forall>p \<in> P - runnable s P. detached s2 p" "sched_frame s1 s2" by auto
  have "runnable s P \<subseteq> P" "idleproc s2 \<in> P" "idleproc s2 \<notin> runnable s P"
    using inv s2(4) s1 by (auto simp: runnable_def sched_inv_def sched_frame_def)
  from choose_ok[OF s2(2,3) this] obtain nx s3 s4 n where
    c: "sched_class_pick_next sc s2 = (nx, s3)"
      "(case nx of Some n \<Rightarrow> sched_class_dequeue sc n s3 | None \<Rightarrow> Some s3) = Some s4"
      "n = (case nx of Some n \<Rightarrow> n | None \<Rightarrow> idleproc s4)"
      "rel s4 (runnable s P - {n})" "\<forall>p \<in> P - (runnable s P - {n}). detached s4 p" "sched_frame s2 s4" "n \<in> P"
      "if runnable s P = {} then n = idleproc s2 else n \<in> runnable s P"
    by blast
  define s5 where "s5 = upd_proc n (runs_update (\<lambda>r. r + 1)) s4"
  define s6 where "s6 = (if n \<noteq> current s5 then proc_run n s5 else s5)"
  have e: "schedule sc s = Some s6"
    unfolding schedule_def s1_def[symmetric] Let_def s2(1)
    by (simp add: c(1) c(2) c(3)[symmetric] s5_def s6_def)
  have fr: "sched_frame s1 s4" using s2(4) c(6) by (rule sched_frame_trans)
  have s5: "same_queue s4 s5" "current s5 = current s4" "idleproc s5 = idleproc s4" "satp s5 = satp s4"
    "\<And>q. state (procs s5 q) = state (procs s4 q)" "\<And>q. wait_state (procs s5 q) = wait_state (procs s4 q)" "\<And>q. pgdir (procs s5 q) = pgdir (procs s4 q)"
    by (auto simp: s5_def upd_proc_def same_queue_def)
  have sat5: "satp s5 = pgdir (procs s5 (current s5))"
    using inv s1 s5(2,4,7) fr by (auto simp: sched_inv_def sched_frame_def)
  have s6: "current s6 = n" "idleproc s6 = idleproc s" "satp s6 = pgdir (procs s6 n)" "same_queue s5 s6"
    "\<And>q. state (procs s6 q) = state (procs s q) \<and> wait_state (procs s6 q) = wait_state (procs s q)"
    unfolding s6_def using switch_simps(1-3,5)[where n = n and s = s5] switch_simps(4)[OF sat5, where n = n] s1 s5 fr
    by (auto simp: sched_frame_def)
  have w6: "waiting s6 P = runnable s P - {n}"
    using s6(1,2,5) by (auto simp: waiting_def runnable_def)
  have "sched_inv rel detached s6 P"
    unfolding sched_inv_def w6
    using c(4,5,7) s6(1-3) inv rel_same[OF s5(1)] rel_same[OF s6(4)] detached_same[OF s5(1)] detached_same[OF s6(4)]
    by (auto simp: sched_inv_def)
  moreover have "idleproc s2 = idleproc s" using s2(4) s1(2) by (simp add: sched_frame_def)
  moreover have "proc_frame s s6"
  proof -
    have "proc_frame s s1" unfolding s1_def by (intro upd_proc_frame) simp
    moreover have "proc_frame s4 s5" unfolding s5_def by (intro upd_proc_frame) simp
    moreover have "proc_frame s5 s6" by (simp add: s6_def proc_frame_def proc_run_def Let_def)
    ultimately show ?thesis using sched_frame_proc[OF fr] proc_frame_trans by metis
  qed
  ultimately show ?thesis using e c(8) s6(1,2,5) by auto
qed

lemma fire_ok:
  assumes inv: "sched_inv rel detached s P" and tl: "tlist s (t # xs)" and z: "expires (timers s t) = 0"
    and w: "\<forall>x \<in> set (t # xs). wakeable s P (tproc (timers s x))"
  shows "\<exists>s'. fire_timer sc t s = Some s' \<and> sched_inv rel detached s' P \<and> tlist s' xs
    \<and> timers s' = timers s \<and> current s' = current s \<and> idleproc s' = idleproc s
    \<and> state (procs s' (tproc (timers s t))) = PROC_RUNNABLE
    \<and> (\<forall>q. state (procs s q) = PROC_RUNNABLE \<longrightarrow> state (procs s' q) = PROC_RUNNABLE)
    \<and> (\<forall>x \<in> set xs. wakeable s' P (tproc (timers s' x)))"
proof -
  let ?p = "tproc (timers s t)"
  have p: "?p \<in> P" "state (procs s ?p) \<noteq> PROC_ZOMBIE"
    "wait_state (procs s ?p) \<noteq> 0 \<longrightarrow> and (wait_state (procs s ?p)) WT_INTERRUPTED \<noteq> 0"
    using w by (auto simp: wakeable_def)
  from wakeup_ok[OF inv p(1,2)] obtain s1 where
    s1: "wakeup_proc sc ?p s = Some s1" "sched_inv rel detached s1 P" "state (procs s1 ?p) = PROC_RUNNABLE"
      "current s1 = current s" "idleproc s1 = idleproc s" "timers s1 = timers s" "timer_links s1 = timer_links s"
      "\<forall>q. q \<noteq> ?p \<longrightarrow> state (procs s1 q) = state (procs s q) \<and> wait_state (procs s1 q) = wait_state (procs s q)"
    by blast
  have ws: "wait_state (procs s1 ?p) = 0 \<or> wait_state (procs s1 ?p) = wait_state (procs s ?p)"
    using wakeup_wait_state[OF inv p(1,2) s1(1)] by simp
  let ?s' = "del_timer t s1"
  have tl1: "tlist s1 ([] @ t # xs)" using tl s1(7) by (simp add: tlist_def)
  note d = del_timer_tlist[OF tl1]
  have T: "timers ?s' = timers s" using d(3) z s1(6) by simp
  have same: "same_queue s1 ?s'" "current ?s' = current s1" "idleproc ?s' = idleproc s1" "satp ?s' = satp s1"
    by (auto simp: same_queue_def del_timer_def Let_def upd_timer_def split: timer_node.split)
  have inv': "sched_inv rel detached ?s' P"
    using s1(2) rel_same[OF same(1)] detached_same[OF same(1)] same(2-4) d(4)
    by (auto simp: sched_inv_def waiting_def runnable_def)
  have e: "fire_timer sc t s = Some ?s'"
    using p(3) s1(1) by (auto simp: fire_timer_def Let_def)
  have run: "\<forall>q. state (procs s q) = PROC_RUNNABLE \<longrightarrow> state (procs ?s' q) = PROC_RUNNABLE"
    using s1(3,8) d(4) by metis
  have "wakeable ?s' P q" if "wakeable s P q" for q
    using that s1(3,8) ws d(4) by (cases "q = ?p") (auto simp: wakeable_def)
  then have "\<forall>x \<in> set xs. wakeable ?s' P (tproc (timers ?s' x))" using w T by simp
  with e inv' d(1,4) T s1(3,4,5) same(2,3) run show ?thesis by (intro exI[of _ ?s']) simp
qed

lemma run_timers_ok:
  assumes "sched_inv rel detached s P" "tlist s (t # xs)" "\<forall>x \<in> set (t # xs). wakeable s P (tproc (timers s x))"
  shows "\<exists>s'. run_timers sc t s = Some s' \<and> sched_inv rel detached s' P
    \<and> tlist s' (dropWhile (\<lambda>x. expires (timers s x) = 0) (t # xs)) \<and> timers s' = timers s
    \<and> current s' = current s \<and> idleproc s' = idleproc s
    \<and> (\<forall>x \<in> set (takeWhile (\<lambda>x. expires (timers s x) = 0) (t # xs)).
         state (procs s' (tproc (timers s x))) = PROC_RUNNABLE)
    \<and> (\<forall>q. state (procs s q) = PROC_RUNNABLE \<longrightarrow> state (procs s' q) = PROC_RUNNABLE)"
  using assms
proof (induction xs arbitrary: s t)
  case Nil
  show ?case
  proof (cases "expires (timers s t) = 0")
    case True
    from fire_ok[OF Nil(1,2) True Nil(3)] obtain s' where
      s': "fire_timer sc t s = Some s'" "sched_inv rel detached s' P" "tlist s' []" "timers s' = timers s"
        "current s' = current s" "idleproc s' = idleproc s" "state (procs s' (tproc (timers s t))) = PROC_RUNNABLE"
        "\<forall>q. state (procs s q) = PROC_RUNNABLE \<longrightarrow> state (procs s' q) = PROC_RUNNABLE" by blast
    moreover have "list_next (timer_links s) (TimerLink t) = TimerList"
      using tlist_next[of s "[]" t "[]"] Nil(2) by simp
    ultimately show ?thesis using True by (simp add: run_timers.simps[of sc t s])
  qed (use Nil in \<open>simp add: run_timers.simps[of sc t s]\<close>)
next
  case (Cons y ys)
  show ?case
  proof (cases "expires (timers s t) = 0")
    case True
    from fire_ok[OF Cons.prems(1,2) True Cons.prems(3)] obtain s1 where
      s1: "fire_timer sc t s = Some s1" "sched_inv rel detached s1 P" "tlist s1 (y # ys)" "timers s1 = timers s"
        "current s1 = current s" "idleproc s1 = idleproc s" "state (procs s1 (tproc (timers s t))) = PROC_RUNNABLE"
        "\<forall>q. state (procs s q) = PROC_RUNNABLE \<longrightarrow> state (procs s1 q) = PROC_RUNNABLE"
        "\<forall>x \<in> set (y # ys). wakeable s1 P (tproc (timers s1 x))" by blast
    have "list_next (timer_links s) (TimerLink t) = TimerLink y"
      using tlist_next[of s "[]" t "y # ys"] Cons.prems(2) by simp
    then have e: "run_timers sc t s = run_timers sc y s1"
      using True s1(1) by (simp add: run_timers.simps[of sc t s])
    show ?thesis
      using Cons.IH[OF s1(2,3,9)] True s1(4-8) e by auto
  qed (use Cons.prems in \<open>simp add: run_timers.simps[of sc t s]\<close>)
qed

lemma tick_sched_inv:
  assumes "sched_inv rel detached s P"
  shows "sched_inv rel detached (sched_class_proc_tick sc (current s) s) P
    \<and> timers (sched_class_proc_tick sc (current s) s) = timers s
    \<and> timer_links (sched_class_proc_tick sc (current s) s) = timer_links s
    \<and> (\<forall>q. state (procs (sched_class_proc_tick sc (current s) s) q) = state (procs s q))"
proof (cases "current s = idleproc s")
  case True
  let ?s' = "upd_proc (current s) (need_resched_update (\<lambda>_. True)) s"
  have same: "same_queue s ?s'" "current ?s' = current s" "idleproc ?s' = idleproc s" "satp ?s' = satp s"
    "timers ?s' = timers s" "timer_links ?s' = timer_links s"
    "\<forall>q. state (procs ?s' q) = state (procs s q) \<and> pgdir (procs ?s' q) = pgdir (procs s q)"
    by (auto simp: same_queue_def upd_proc_def)
  have "sched_inv rel detached ?s' P"
    using assms rel_same[OF same(1)] detached_same[OF same(1)] same(2-4,7)
    by (auto simp: sched_inv_def waiting_def runnable_def)
  with True same(5-7) show ?thesis by (simp add: sched_class_proc_tick_def)
next
  case False
  let ?s' = "sc_proc_tick sc (current s) s"
  have r: "rel ?s' (waiting s P)" "sched_frame s ?s'" "\<forall>q. detached s q \<longrightarrow> detached ?s' q"
    using tick_ok[of s "waiting s P" "current s"] assms by (auto simp: sched_inv_def)
  then have "waiting ?s' P = waiting s P" by (simp add: waiting_def runnable_def sched_frame_def)
  then have "sched_inv rel detached ?s' P"
    using assms r by (auto simp: sched_inv_def sched_frame_def)
  with False r(2) show ?thesis by (auto simp: sched_class_proc_tick_def sched_frame_def)
qed

lemma run_timer_list_ok:
  assumes inv: "sched_inv rel detached s P" and tm: "timer_inv s xs"
    and w: "\<forall>x \<in> set xs. wakeable s P (tproc (timers s x))"
  shows "\<exists>s' ys. run_timer_list sc s = Some s' \<and> sched_inv rel detached s' P \<and> timer_inv s' ys
    \<and> set (due (timers s') 0 ys) = {(x, d - 1) | x d. (x, d) \<in> set (due (timers s) 0 xs) \<and> 1 < d}
    \<and> (\<forall>x. (x, 1) \<in> set (due (timers s) 0 xs) \<longrightarrow> state (procs s' (tproc (timers s x))) = PROC_RUNNABLE)"
proof -
  have tl: "tlist s xs" using tm by (simp add: timer_inv_def)
  have "\<exists>s1 ys. (case list_next (timer_links s) TimerList of TimerList \<Rightarrow> Some s
          | TimerLink t \<Rightarrow> do { kassert (expires (timers s t) \<noteq> 0);
              run_timers sc t (upd_timer t (expires_update (\<lambda>e. e - 1)) s) }) = Some s1
    \<and> sched_inv rel detached s1 P \<and> timer_inv s1 ys
    \<and> set (due (timers s1) 0 ys) = {(x, d - 1) | x d. (x, d) \<in> set (due (timers s) 0 xs) \<and> 1 < d}
    \<and> (\<forall>x. (x, 1) \<in> set (due (timers s) 0 xs) \<longrightarrow> state (procs s1 (tproc (timers s x))) = PROC_RUNNABLE)"
  proof (cases xs)
    case Nil
    then show ?thesis using inv tm tlist_next_head[OF tl] by (auto intro!: exI[of _ "[]"])
  next
    case (Cons t vs)
    define s0 where "s0 = upd_timer t (expires_update (\<lambda>e. e - 1)) s"
    have pos: "0 < expires (timers s t)" using tm Cons by (simp add: timer_inv_def)
    have nt: "t \<notin> set vs" using tl Cons by (auto simp: tlist_def dlist_def)
    have d0: "due (timers s0) 0 xs = map (\<lambda>(y, d). (y, d - 1)) (due (timers s) 0 xs)"
      using due_dec[where T = "timers s" and xs = vs, OF pos nt] Cons by (simp add: s0_def)
    have same: "same_queue s s0" "current s0 = current s" "idleproc s0 = idleproc s" "satp s0 = satp s"
      by (auto simp: same_queue_def s0_def upd_timer_def)
    have inv0: "sched_inv rel detached s0 P"
      using inv rel_same[OF same(1)] detached_same[OF same(1)] same(2-4)
      by (auto simp: sched_inv_def waiting_def runnable_def s0_def)
    have "tlist s0 (t # vs)" "\<forall>x \<in> set (t # vs). wakeable s0 P (tproc (timers s0 x))"
      using tl w Cons by (auto simp: tlist_def wakeable_def s0_def)
    from run_timers_ok[OF inv0 this] obtain s1 where
      s1: "run_timers sc t s0 = Some s1" "sched_inv rel detached s1 P"
        "tlist s1 (dropWhile (\<lambda>x. expires (timers s0 x) = 0) xs)" "timers s1 = timers s0"
        "\<forall>x \<in> set (takeWhile (\<lambda>x. expires (timers s0 x) = 0) xs). state (procs s1 (tproc (timers s0 x))) = PROC_RUNNABLE"
      using Cons by blast
    let ?ys = "dropWhile (\<lambda>x. expires (timers s0 x) = 0) xs"
    have due': "set (due (timers s1) 0 ?ys) = {(x, d - 1) | x d. (x, d) \<in> set (due (timers s) 0 xs) \<and> 1 < d}"
      by (auto simp: s1(4) due_dropWhile d0)
    then have "timer_inv s1 ?ys" using s1(3) tm by (auto simp: timer_inv_def)
    moreover have "state (procs s1 (tproc (timers s x))) = PROC_RUNNABLE"
      if x: "(x, 1) \<in> set (due (timers s) 0 xs)" for x
    proof -
      have "(x, 0) \<in> set (due (timers s0) 0 xs)" using x by (force simp: d0)
      then have "x \<in> set (takeWhile (\<lambda>x. expires (timers s0 x) = 0) xs)" by (simp add: due_takeWhile)
      moreover have "tproc (timers s0 x) = tproc (timers s x)" by (simp add: s0_def)
      ultimately show ?thesis using s1(5) by metis
    qed
    ultimately show ?thesis using s1(1,2) due' pos tlist_next_head[OF tl] Cons
      by (intro exI[of _ s1] exI[of _ ?ys]) (simp add: s0_def)
  qed
  then obtain s1 ys where s1: "run_timer_list sc s = Some (sched_class_proc_tick sc (current s1) s1)"
    "sched_inv rel detached s1 P" "timer_inv s1 ys"
    "set (due (timers s1) 0 ys) = {(x, d - 1) | x d. (x, d) \<in> set (due (timers s) 0 xs) \<and> 1 < d}"
    "\<forall>x. (x, 1) \<in> set (due (timers s) 0 xs) \<longrightarrow> state (procs s1 (tproc (timers s x))) = PROC_RUNNABLE"
    unfolding run_timer_list_def by auto
  from tick_sched_inv[OF s1(2)] s1 show ?thesis
    by (intro exI[of _ "sched_class_proc_tick sc (current s1) s1"] exI[of _ ys]) (simp add: timer_inv_def tlist_def)
qed

end

section \<open>The list-based classes\<close>

text \<open>A scheduling class of the run-queue list, seen as the set of its members.\<close>

definition rq_set :: "kstate \<Rightarrow> nat set \<Rightarrow> bool" where
  "rq_set s A \<longleftrightarrow> (\<exists>xs. rq_list s xs \<and> A = set xs)"

lemma rq_set_fun: "(\<lambda>s A. \<exists>xs. rq_list s xs \<and> A = set xs) = rq_set"
  by (intro ext) (simp add: rq_set_def)

lemma class_simps [simp]:
  "sc_enqueue default_sched_class = RR_enqueue" "sc_dequeue default_sched_class = RR_dequeue"
  "sc_pick_next default_sched_class = RR_pick_next" "sc_proc_tick default_sched_class = RR_proc_tick"
  "sc_init default_sched_class = RR_init"
  "sc_enqueue fifo_sched_class = FIFO_enqueue" "sc_dequeue fifo_sched_class = FIFO_dequeue"
  "sc_pick_next fifo_sched_class = FIFO_pick_next" "sc_proc_tick fifo_sched_class = FIFO_proc_tick"
  "sc_init fifo_sched_class = FIFO_init"
  by (simp_all add: default_sched_class_def fifo_sched_class_def)

lemma rq_list_same: "same_queue s s' \<Longrightarrow> rq_list s xs \<Longrightarrow> rq_list s' xs"
  by (auto simp: rq_list_def same_queue_def)

lemma rr_tick_frame:
  "rq_list s xs \<Longrightarrow> rq_list (RR_proc_tick p s) xs" "sched_frame s (RR_proc_tick p s)"
  "rq_detached s q \<Longrightarrow> rq_detached (RR_proc_tick p s) q"
  by (auto simp: RR_proc_tick_def Let_def rq_list_def sched_frame_def rq_detached_def upd_proc_def)

lemma fifo_tick_eq: "FIFO_proc_tick = RR_proc_tick"
  by (intro ext) (simp add: FIFO_proc_tick_def RR_proc_tick_def)

lemma fifo_same: "FIFO_dequeue = RR_dequeue" "FIFO_init = RR_init"
  by (intro ext, simp add: FIFO_dequeue_def RR_dequeue_def FIFO_init_def RR_init_def)+

lemma rq_class_laws:
  "same_queue s s' \<Longrightarrow> rq_set s A \<Longrightarrow> rq_set s' A"
  "same_queue s s' \<Longrightarrow> rq_detached s p \<Longrightarrow> rq_detached s' p"
  "rq_set s A \<Longrightarrow> rq_set (RR_proc_tick p s) A \<and> sched_frame s (RR_proc_tick p s)
     \<and> (\<forall>q. rq_detached s q \<longrightarrow> rq_detached (RR_proc_tick p s) q)"
  "rq_set (RR_init s) {} \<and> sched_frame s (RR_init s)"
proof -
  show "rq_set s A \<Longrightarrow> rq_set (RR_proc_tick p s) A \<and> sched_frame s (RR_proc_tick p s)
     \<and> (\<forall>q. rq_detached s q \<longrightarrow> rq_detached (RR_proc_tick p s) q)"
    using rr_tick_frame unfolding rq_set_def by blast
qed (auto simp: rq_set_def rq_detached_def same_queue_def RR_init_def sched_frame_def rq_list_def dlist_init
  intro: rq_list_same)

interpretation rr_sched: scheduler rq_set rq_detached default_sched_class
  using rr.as_set.sched_contract_axioms rq_class_laws
  by (simp add: scheduler_def scheduler_axioms_def rq_set_fun)

interpretation fifo_sched: scheduler rq_set rq_detached fifo_sched_class
  using fifo.as_set.sched_contract_axioms rq_class_laws
  by (simp add: scheduler_def scheduler_axioms_def rq_set_fun fifo_tick_eq fifo_same)

section \<open>Properties of the kernel's scheduler\<close>

abbreviation rr_inv :: "kstate \<Rightarrow> nat set \<Rightarrow> bool" where
  "rr_inv \<equiv> sched_inv rq_set rq_detached"

text \<open>A state with the processes 0 (idle, running), 1 and 2 (asleep on a timer), no timer set.\<close>

definition sleepers :: kstate where
  "sleepers = upd_proc 1 (\<lambda>p. p\<lparr>state := PROC_SLEEPING, wait_state := WT_TIMER\<rparr>)
     (upd_proc 2 (\<lambda>p. p\<lparr>state := PROC_SLEEPING, wait_state := WT_TIMER\<rparr>)
       (upd_proc 0 (\<lambda>p. p\<lparr>state := PROC_RUNNABLE\<rparr>) (sched_init default_sched_class boot_state)))"

lemma sleepers_inv: "rr_inv sleepers {0, 1, 2}"
proof -
  have w: "waiting sleepers {0, 1, 2} = {}"
    by (auto simp: waiting_def runnable_def sleepers_def sched_init_def RR_init_def boot_state_def)
  have "rq_list sleepers []"
    by (simp add: rq_list_def sleepers_def sched_init_def RR_init_def dlist_def list_defs)
  then show ?thesis unfolding sched_inv_def w
    by (auto simp: rq_set_def rq_detached_def sleepers_def sched_init_def RR_init_def boot_state_def
        idle_proc_def list_defs)
qed

text \<open>C15. \<open>schedule\<close> always returns and keeps the invariant; the process that runs next is a
  runnable live process, and it is the idle process exactly when there is no other; its page
  table is the one loaded (part of the invariant), and no process changes its state.\<close>

theorem schedule_keeps_invariant:
  assumes "rr_inv s P"
  shows "\<exists>s'. schedule default_sched_class s = Some s' \<and> rr_inv s' P
    \<and> (if runnable s P = {} then current s' = idleproc s else current s' \<in> runnable s P)
    \<and> idleproc s' = idleproc s \<and> (\<forall>q. state (procs s' q) = state (procs s q))"
  using rr_sched.schedule_ok[OF assms] by blast

theorem schedule_keeps_invariant_witness:
  "\<exists>s'. schedule default_sched_class sleepers = Some s' \<and> rr_inv s' {0, 1, 2} \<and> current s' = 0"
proof -
  have "runnable sleepers {0, 1, 2} = {}" "idleproc sleepers = 0"
    by (auto simp: runnable_def sleepers_def sched_init_def RR_init_def boot_state_def)
  with schedule_keeps_invariant[OF sleepers_inv] show ?thesis by auto
qed

text \<open>\<open>add_timer\<close>: the list of relative times stays a well-formed list, the new timer expires
  after exactly the number of ticks asked for, and every timer already set expires when it
  would have; the differences stay within an \<open>unsigned int\<close>.\<close>

theorem add_timer_due:
  assumes "timer_inv s xs" "t \<notin> set xs" "list_empty (timer_links s) (TimerLink t)"
    "0 < expires (timers s t)" "expires (timers s t) < 2 ^ 32"
  shows "\<exists>s' ys. add_timer t s = Some s' \<and> timer_inv s' ys \<and> set ys = insert t (set xs)
    \<and> set (due (timers s') 0 ys) = insert (t, expires (timers s t)) (set (due (timers s) 0 xs))"
  using add_timer_correct[OF assms] by blast

text \<open>C33. One call of \<open>run_timer_list\<close>, the work of a clock tick, returns; exactly the timers due
  in one tick leave the list and their processes are runnable afterwards; all others are due
  one tick sooner; the scheduler's invariant is kept.\<close>

theorem run_timer_list_due:
  assumes "rr_inv s P" "timer_inv s xs" "\<forall>x \<in> set xs. wakeable s P (tproc (timers s x))"
  shows "\<exists>s' ys. run_timer_list default_sched_class s = Some s' \<and> rr_inv s' P \<and> timer_inv s' ys
    \<and> set (due (timers s') 0 ys) = {(x, d - 1) | x d. (x, d) \<in> set (due (timers s) 0 xs) \<and> 1 < d}
    \<and> (\<forall>x. (x, 1) \<in> set (due (timers s) 0 xs) \<longrightarrow> state (procs s' (tproc (timers s x))) = PROC_RUNNABLE)"
  by (rule rr_sched.run_timer_list_ok[OF assms])

text \<open>The sleepers with their timers: process 1 sleeps for 3 ticks, process 2 for 1.\<close>

definition sleepers_timed :: kstate where
  "sleepers_timed = the (do {
     s1 \<leftarrow> add_timer 1 (timer_init 1 1 3 sleepers);
     add_timer 2 (timer_init 2 2 1 s1) })"

lemma sleepers_timed_list:
  "timer_inv sleepers_timed [2, 1]" "expires (timers sleepers_timed 2) = 1" "expires (timers sleepers_timed 1) = 2"
  "tproc (timers sleepers_timed 1) = 1" "tproc (timers sleepers_timed 2) = 2"
  "procs sleepers_timed = procs sleepers" "current sleepers_timed = current sleepers"
  "idleproc sleepers_timed = idleproc sleepers" "same_queue sleepers sleepers_timed" "satp sleepers_timed = satp sleepers"
  by (simp_all add: sleepers_timed_def sleepers_def sched_init_def RR_init_def timer_init_def add_timer_def
      upd_timer_def list_defs add_timer_loop.simps timer_inv_def tlist_def dlist_def same_queue_def Let_def)

theorem add_timer_due_witness:
  "\<exists>s' ys. add_timer 3 (timer_init 3 1 7 sleepers_timed) = Some s' \<and> timer_inv s' ys
     \<and> set (due (timers s') 0 ys) = {(1, 3), (2, 1), (3, 7)}"
proof -
  let ?s = "timer_init 3 1 7 sleepers_timed"
  have "timer_inv ?s [2, 1]"
    using sleepers_timed_list(1-3) dlist_frame_init[of "timer_links sleepers_timed" TimerList "[TimerLink 2, TimerLink 1]" "TimerLink 3"]
    by (simp add: timer_inv_def tlist_def timer_init_def)
  from add_timer_due[OF this, of 3] sleepers_timed_list(2,3) show ?thesis
    by (auto simp: timer_init_def list_defs insert_commute)
qed

theorem run_timer_list_due_witness:
  "\<exists>s' ys. run_timer_list default_sched_class sleepers_timed = Some s'
     \<and> set (due (timers s') 0 ys) = {(1, 2)} \<and> state (procs s' 2) = PROC_RUNNABLE"
proof -
  have "rr_inv sleepers_timed {0, 1, 2}"
    using sleepers_inv rq_class_laws(1,2)[OF sleepers_timed_list(9)] sleepers_timed_list(6-8,10)
    by (auto simp: sched_inv_def waiting_def runnable_def)
  moreover have "\<forall>x \<in> set [2, 1]. wakeable sleepers_timed {0, 1, 2} (tproc (timers sleepers_timed x))"
    using sleepers_timed_list(4-6) by (simp add: wakeable_def sleepers_def WT_TIMER_def WT_INTERRUPTED_def)
  ultimately obtain s' ys where
    "run_timer_list default_sched_class sleepers_timed = Some s'"
    "set (due (timers s') 0 ys) = {(x, d - 1) | x d. (x, d) \<in> set (due (timers sleepers_timed) 0 [2, 1]) \<and> 1 < d}"
    "\<forall>x. (x, 1) \<in> set (due (timers sleepers_timed) 0 [2, 1]) \<longrightarrow> state (procs s' (tproc (timers sleepers_timed x))) = PROC_RUNNABLE"
    using run_timer_list_due[of sleepers_timed "{0, 1, 2}" "[2, 1]"] sleepers_timed_list(1) by blast
  then show ?thesis using sleepers_timed_list(2-5) by (intro exI[of _ s'] exI[of _ ys]) auto
qed

section \<open>Round robin is fair\<close>

primrec schedules :: "sched_class \<Rightarrow> nat \<Rightarrow> kstate \<Rightarrow> kstate option" where
  "schedules sc 0 s = Some s"
| "schedules sc (Suc n) s = do { s1 \<leftarrow> schedule sc s; schedules sc n s1 }"

text \<open>The running process and the queue behind it, all ready to run.\<close>

definition rr_line :: "kstate \<Rightarrow> nat list \<Rightarrow> bool" where
  "rr_line s ps \<longleftrightarrow> (\<exists>xs. ps = current s # xs \<and> rq_list s xs \<and> rq_detached s (current s)
     \<and> current s \<notin> set xs) \<and> idleproc s \<notin> set ps \<and> (\<forall>p \<in> set ps. state (procs s p) = PROC_RUNNABLE)"

lemma rr_line_step:
  assumes "rr_line s ps"
  shows "\<exists>s'. schedule default_sched_class s = Some s' \<and> rr_line s' (rotate1 ps)"
proof -
  from assms obtain xs where xs: "ps = current s # xs" "rq_list s xs" "rq_detached s (current s)"
    "current s \<notin> set xs" "idleproc s \<notin> set ps" "\<forall>p \<in> set ps. state (procs s p) = PROC_RUNNABLE"
    by (auto simp: rr_line_def)
  define s1 where "s1 = upd_proc (current s) (need_resched_update (\<lambda>_. False)) s"
  have same: "same_queue s s1" and s1: "current s1 = current s" "idleproc s1 = idleproc s"
    "\<And>q. state (procs s1 q) = state (procs s q)"
    by (auto simp: same_queue_def s1_def upd_proc_def)
  from rr.q_enqueue[of s1 xs "current s"] xs rq_list_same[OF same] rq_class_laws(2)[OF same] obtain s2 where
    s2: "RR_enqueue (current s) s1 = Some s2" "rq_list s2 (xs @ [current s])" "sched_frame s1 s2" by blast
  have ne: "xs @ [current s] \<noteq> []" by simp
  then obtain n ys where ny: "xs @ [current s] = n # ys" by (cases "xs @ [current s]") auto
  from rr.q_dequeue[of s2 n ys] s2(2) ny obtain s4 where
    s4: "RR_dequeue n s2 = Some s4" "rq_list s4 ys" "rq_detached s4 n" "sched_frame s2 s4" by auto
  have pick: "RR_pick_next s2 = (Some n, s2)" using rr.q_pick[OF s2(2)] ny by simp
  define s5 where "s5 = upd_proc n (runs_update (\<lambda>r. r + 1)) s4"
  define s6 where "s6 = (if n \<noteq> current s5 then proc_run n s5 else s5)"
  have fr: "sched_frame s1 s4" using s2(3) s4(4) by (rule sched_frame_trans)
  have e: "schedule default_sched_class s = Some s6"
    using xs(1,5,6) s2(1) pick s4(1) s1
    by (simp add: schedule_def sched_class_enqueue_def sched_class_pick_next_def sched_class_dequeue_def
        s1_def[symmetric] s5_def s6_def)
  have q: "same_queue s4 s6" "current s6 = n" "idleproc s6 = idleproc s4" "\<And>q. state (procs s6 q) = state (procs s4 q)"
    by (auto simp: s6_def s5_def same_queue_def proc_run_def Let_def upd_proc_def)
  have "distinct (n # ys)" using rr.q_distinct[OF s2(2)] ny by simp
  moreover have "set (n # ys) = set ps" using ny xs(1) by (metis list.set(2) rotate1.simps(2) set_rotate1)
  ultimately have "rr_line s6 (n # ys)"
    using rq_list_same[OF q(1) s4(2)] rq_class_laws(2)[OF q(1) s4(3)] q(2-4) fr s1 xs(5,6)
    by (auto simp: rr_line_def sched_frame_def)
  with e ny xs(1) show ?thesis by simp
qed

lemma rr_line_steps:
  "rr_line s ps \<Longrightarrow> \<exists>s'. schedules default_sched_class k s = Some s' \<and> rr_line s' (rotate k ps)"
proof (induction k arbitrary: s ps)
  case (Suc k)
  from rr_line_step[OF Suc.prems] obtain s1 where
    "schedule default_sched_class s = Some s1" "rr_line s1 (rotate1 ps)" by blast
  with Suc.IH[of s1 "rotate1 ps"] show ?case by (simp add: rotate1_rotate_swap)
qed simp

text \<open>C26. Round robin is fair: with \<open>n\<close> ready processes in line, the \<open>k\<close>-th call of \<open>schedule\<close>
  runs the process at place \<open>k mod n\<close> of the line, so each process runs once in any \<open>n\<close>
  consecutive turns.\<close>

theorem rr_fair:
  assumes "rr_line s ps"
  shows "\<exists>s'. schedules default_sched_class k s = Some s' \<and> current s' = ps ! (k mod length ps)"
proof -
  have ne: "ps \<noteq> []" using assms by (auto simp: rr_line_def)
  from rr_line_steps[OF assms, of k] obtain s' where
    "schedules default_sched_class k s = Some s'" "rr_line s' (rotate k ps)" by blast
  moreover from this(2) have "current s' = hd (rotate k ps)" by (auto simp: rr_line_def)
  ultimately show ?thesis using ne by (simp add: hd_rotate_conv_nth)
qed

text \<open>Two ready processes: 1 runs, 2 waits.\<close>

definition two_ready :: kstate where
  "two_ready = the (RR_enqueue 2 (upd_proc 1 (state_update (\<lambda>_. PROC_RUNNABLE))
     (upd_proc 2 (\<lambda>p. p\<lparr>state := PROC_RUNNABLE, need_resched := False\<rparr>)
       (sched_init default_sched_class boot_state))\<lparr>current := 1\<rparr>))"

lemma two_ready_line: "rr_line two_ready [1, 2]"
  by (simp add: rr_line_def rq_list_def rq_detached_def two_ready_def RR_enqueue_def sched_init_def RR_init_def
      boot_state_def idle_proc_def list_defs dlist_def Let_def upd_proc_def)

theorem rr_fair_witness: "\<exists>s'. schedules default_sched_class 7 two_ready = Some s' \<and> current s' = 2"
proof -
  have "[1, 2] ! (7 mod length [1, 2 :: nat]) = (2 :: nat)" by code_simp
  with rr_fair[OF two_ready_line, of 7] show ?thesis by (simp del: One_nat_def)
qed

section \<open>The time slice\<close>

lemma tick_slice:
  assumes "0 < time_slice (procs s p)"
  shows "time_slice (procs (RR_proc_tick p s) p) = time_slice (procs s p) - 1"
    "need_resched (procs (RR_proc_tick p s) p) \<longleftrightarrow> need_resched (procs s p) \<or> time_slice (procs s p) = 1"
  using assms by (auto simp: RR_proc_tick_def Let_def upd_proc_def)

text \<open>Preemption: a process with a time slice of \<open>n\<close> ticks is marked for rescheduling by its
  \<open>n\<close>-th tick and not before.\<close>

theorem rr_quantum:
  assumes "0 < time_slice (procs s p)" "\<not> need_resched (procs s p)" "int k \<le> time_slice (procs s p)"
  shows "need_resched (procs ((RR_proc_tick p ^^ k) s) p) \<longleftrightarrow> int k = time_slice (procs s p)"
proof -
  have "time_slice (procs ((RR_proc_tick p ^^ j) s) p) = time_slice (procs s p) - int j
    \<and> (need_resched (procs ((RR_proc_tick p ^^ j) s) p) \<longleftrightarrow> int j = time_slice (procs s p))"
    if "int j \<le> time_slice (procs s p)" for j
    using that
  proof (induction j)
    case (Suc j)
    then show ?case using tick_slice[of "(RR_proc_tick p ^^ j) s" p] by auto
  qed (use assms in auto)
  with assms(3) show ?thesis by blast
qed

theorem rr_quantum_witness:
  "need_resched (procs ((RR_proc_tick 2 ^^ 5) two_ready) 2) \<and> \<not> need_resched (procs ((RR_proc_tick 2 ^^ 4) two_ready) 2)"
proof -
  have "time_slice (procs two_ready 2) = 5" "\<not> need_resched (procs two_ready 2)"
    by (simp_all add: two_ready_def RR_enqueue_def sched_init_def RR_init_def boot_state_def idle_proc_def
        list_defs Let_def upd_proc_def)
  with rr_quantum[of two_ready 2 5] rr_quantum[of two_ready 2 4] show ?thesis by simp
qed

end
