(* ===== verification/Sync.thy ===== *)
theory Sync
  imports Sched
begin

text \<open>
  Kernel synchronisation, \<open>kern/sync\<close>: wait queues (\<open>wait.c\<close>), semaphores (\<open>sem.c\<close>) and
  monitors with condition variables (\<open>monitor.c\<close>).  A \<open>wait_t\<close>, a semaphore, a condition
  variable and a monitor are natural numbers; the wait queue embedded in a semaphore has the
  semaphore's number.  A function that may put its caller to sleep is two functions here:
  the part up to and including the call of \<open>schedule\<close>, and the part that the caller
  executes when it runs again.
\<close>

section \<open>Wait queues\<close>

record wait_t =
  wproc :: nat
  wakeup_flags :: "32 word"
  wait_queue :: nat

datatype wait_node = WaitHead nat | WaitLink nat

text \<open>\<open>condvar_t\<close> and \<open>monitor_t\<close>: \<open>cv_sem\<close>, \<open>mutex\<close> and \<open>mnext\<close> name the embedded semaphores.\<close>

record condvar =
  cv_sem :: nat
  count :: int
  owner :: nat

record monitor =
  mutex :: nat
  mnext :: nat
  next_count :: int
  mcv :: "nat \<Rightarrow> nat"

record sync_state =
  kern :: kstate
  waits :: "nat \<Rightarrow> wait_t"
  wait_links :: "wait_node links"
  sem_value :: "nat \<Rightarrow> int"
  condvars :: "nat \<Rightarrow> condvar"
  monitors :: "nat \<Rightarrow> monitor"

definition upd_wait :: "nat \<Rightarrow> (wait_t \<Rightarrow> wait_t) \<Rightarrow> sync_state \<Rightarrow> sync_state" where
  "upd_wait w f s = s\<lparr>waits := (waits s)(w := f (waits s w))\<rparr>"

definition wait_init :: "nat \<Rightarrow> nat \<Rightarrow> sync_state \<Rightarrow> sync_state" where
  "wait_init w p s =
     (let s1 = upd_wait w (\<lambda>x. x\<lparr>wproc := p, wakeup_flags := WT_INTERRUPTED\<rparr>) s
      in s1\<lparr>wait_links := list_init (WaitLink w) (wait_links s1)\<rparr>)"

definition wait_queue_init :: "nat \<Rightarrow> sync_state \<Rightarrow> sync_state" where
  "wait_queue_init q s = s\<lparr>wait_links := list_init (WaitHead q) (wait_links s)\<rparr>"

definition wait_queue_add :: "nat \<Rightarrow> nat \<Rightarrow> sync_state \<Rightarrow> sync_state option" where
  "wait_queue_add q w s = do {
     kassert (list_empty (wait_links s) (WaitLink w));
     let s1 = upd_wait w (wait_queue_update (\<lambda>_. q)) s;
     Some (s1\<lparr>wait_links := list_add_before (WaitHead q) (WaitLink w) (wait_links s1)\<rparr>) }"

definition wait_queue_del :: "nat \<Rightarrow> nat \<Rightarrow> sync_state \<Rightarrow> sync_state option" where
  "wait_queue_del q w s = do {
     kassert (\<not> list_empty (wait_links s) (WaitLink w) \<and> wait_queue (waits s w) = q);
     Some (s\<lparr>wait_links := list_del_init (WaitLink w) (wait_links s)\<rparr>) }"

definition le2wait :: "nat \<Rightarrow> wait_node \<Rightarrow> nat option option" where
  "le2wait q le = (if le \<noteq> WaitHead q then (case le of WaitLink w \<Rightarrow> Some (Some w) | WaitHead _ \<Rightarrow> None)
     else Some None)"

definition wait_queue_next :: "nat \<Rightarrow> nat \<Rightarrow> sync_state \<Rightarrow> nat option option" where
  "wait_queue_next q w s = do {
     kassert (\<not> list_empty (wait_links s) (WaitLink w) \<and> wait_queue (waits s w) = q);
     le2wait q (list_next (wait_links s) (WaitLink w)) }"

definition wait_queue_prev :: "nat \<Rightarrow> nat \<Rightarrow> sync_state \<Rightarrow> nat option option" where
  "wait_queue_prev q w s = do {
     kassert (\<not> list_empty (wait_links s) (WaitLink w) \<and> wait_queue (waits s w) = q);
     le2wait q (list_prev (wait_links s) (WaitLink w)) }"

definition wait_queue_first :: "nat \<Rightarrow> sync_state \<Rightarrow> nat option option" where
  "wait_queue_first q s = le2wait q (list_next (wait_links s) (WaitHead q))"

definition wait_queue_last :: "nat \<Rightarrow> sync_state \<Rightarrow> nat option option" where
  "wait_queue_last q s = le2wait q (list_prev (wait_links s) (WaitHead q))"

definition wait_queue_empty :: "nat \<Rightarrow> sync_state \<Rightarrow> bool" where
  "wait_queue_empty q s = list_empty (wait_links s) (WaitHead q)"

definition wait_in_queue :: "nat \<Rightarrow> sync_state \<Rightarrow> bool" where
  "wait_in_queue w s = (\<not> list_empty (wait_links s) (WaitLink w))"

definition wakeup_wait ::
  "sched_class \<Rightarrow> nat \<Rightarrow> nat \<Rightarrow> 32 word \<Rightarrow> bool \<Rightarrow> sync_state \<Rightarrow> sync_state option" where
  "wakeup_wait sc q w fl del s = do {
     s1 \<leftarrow> (if del then wait_queue_del q w s else Some s);
     let s2 = upd_wait w (wakeup_flags_update (\<lambda>_. fl)) s1;
     k \<leftarrow> wakeup_proc sc (wproc (waits s2 w)) (kern s2);
     Some (s2\<lparr>kern := k\<rparr>) }"

definition wakeup_first :: "sched_class \<Rightarrow> nat \<Rightarrow> 32 word \<Rightarrow> bool \<Rightarrow> sync_state \<Rightarrow> sync_state option" where
  "wakeup_first sc q fl del s = do {
     f \<leftarrow> wait_queue_first q s;
     (case f of None \<Rightarrow> Some s | Some w \<Rightarrow> wakeup_wait sc q w fl del s) }"

text \<open>The two loops of \<open>wakeup_queue\<close>.\<close>

partial_function (option) wakeup_queue_del ::
  "sched_class \<Rightarrow> nat \<Rightarrow> 32 word \<Rightarrow> nat \<Rightarrow> sync_state \<Rightarrow> sync_state option" where
  "wakeup_queue_del sc q fl w s = do {
     s1 \<leftarrow> wakeup_wait sc q w fl True s;
     f \<leftarrow> wait_queue_first q s1;
     (case f of None \<Rightarrow> Some s1 | Some w' \<Rightarrow> wakeup_queue_del sc q fl w' s1) }"

partial_function (option) wakeup_queue_keep ::
  "sched_class \<Rightarrow> nat \<Rightarrow> 32 word \<Rightarrow> nat \<Rightarrow> sync_state \<Rightarrow> sync_state option" where
  "wakeup_queue_keep sc q fl w s = do {
     s1 \<leftarrow> wakeup_wait sc q w fl False s;
     f \<leftarrow> wait_queue_next q w s1;
     (case f of None \<Rightarrow> Some s1 | Some w' \<Rightarrow> wakeup_queue_keep sc q fl w' s1) }"

declare wakeup_queue_del.simps [code] wakeup_queue_keep.simps [code]

definition wakeup_queue :: "sched_class \<Rightarrow> nat \<Rightarrow> 32 word \<Rightarrow> bool \<Rightarrow> sync_state \<Rightarrow> sync_state option" where
  "wakeup_queue sc q fl del s = do {
     f \<leftarrow> wait_queue_first q s;
     (case f of None \<Rightarrow> Some s
      | Some w \<Rightarrow> if del then wakeup_queue_del sc q fl w s else wakeup_queue_keep sc q fl w s) }"

definition wait_current_set :: "nat \<Rightarrow> nat \<Rightarrow> 32 word \<Rightarrow> sync_state \<Rightarrow> sync_state option" where
  "wait_current_set q w ws s =
     (let s1 = wait_init w (current (kern s)) s;
          s2 = s1\<lparr>kern := upd_proc (current (kern s1))
                  (\<lambda>p. p\<lparr>state := PROC_SLEEPING, wait_state := ws\<rparr>) (kern s1)\<rparr>
      in wait_queue_add q w s2)"

definition wait_current_del :: "nat \<Rightarrow> nat \<Rightarrow> sync_state \<Rightarrow> sync_state option" where
  "wait_current_del q w s = (if wait_in_queue w s then wait_queue_del q w s else Some s)"

section \<open>Semaphores\<close>

definition set_value :: "nat \<Rightarrow> int \<Rightarrow> sync_state \<Rightarrow> sync_state" where
  "set_value m v s = s\<lparr>sem_value := (sem_value s)(m := v)\<rparr>"

definition sem_init :: "nat \<Rightarrow> int \<Rightarrow> sync_state \<Rightarrow> sync_state" where
  "sem_init m v s = wait_queue_init m (set_value m v s)"

definition up_raw :: "sched_class \<Rightarrow> nat \<Rightarrow> 32 word \<Rightarrow> sync_state \<Rightarrow> sync_state option" where
  "up_raw sc m ws s = do {
     f \<leftarrow> wait_queue_first m s;
     (case f of
        None \<Rightarrow> Some (set_value m (sem_value s m + 1) s)
      | Some w \<Rightarrow> do {
          kassert (wait_state (procs (kern s) (wproc (waits s w))) = ws);
          wakeup_wait sc m w ws True s }) }"

text \<open>\<open>__down\<close> with \<open>w\<close> the address of its local \<open>wait_t\<close>: either it returns 0 at once, or the
  caller sleeps.\<close>

definition down_raw :: "sched_class \<Rightarrow> nat \<Rightarrow> 32 word \<Rightarrow> nat \<Rightarrow> sync_state \<Rightarrow> (bool \<times> sync_state) option" where
  "down_raw sc m ws w s =
     (if sem_value s m > 0 then Some (True, set_value m (sem_value s m - 1) s)
      else do {
        s1 \<leftarrow> wait_current_set m w ws s;
        k \<leftarrow> schedule sc (kern s1);
        Some (False, s1\<lparr>kern := k\<rparr>) })"

definition down_raw_resume :: "nat \<Rightarrow> 32 word \<Rightarrow> nat \<Rightarrow> sync_state \<Rightarrow> (32 word \<times> sync_state) option" where
  "down_raw_resume m ws w s = do {
     s1 \<leftarrow> wait_current_del m w s;
     Some (if wakeup_flags (waits s1 w) \<noteq> ws then wakeup_flags (waits s1 w) else 0, s1) }"

definition up :: "sched_class \<Rightarrow> nat \<Rightarrow> sync_state \<Rightarrow> sync_state option" where
  "up sc m s = up_raw sc m WT_KSEM s"

definition down :: "sched_class \<Rightarrow> nat \<Rightarrow> nat \<Rightarrow> sync_state \<Rightarrow> (bool \<times> sync_state) option" where
  "down sc m w s = down_raw sc m WT_KSEM w s"

definition down_resume :: "nat \<Rightarrow> nat \<Rightarrow> sync_state \<Rightarrow> sync_state option" where
  "down_resume m w s = do {
     (fl, s1) \<leftarrow> down_raw_resume m WT_KSEM w s;
     kassert (fl = 0);
     Some s1 }"

definition try_down :: "nat \<Rightarrow> sync_state \<Rightarrow> bool \<times> sync_state" where
  "try_down m s = (if sem_value s m > 0 then (True, set_value m (sem_value s m - 1) s) else (False, s))"

section \<open>Monitors\<close>

definition upd_cv :: "nat \<Rightarrow> (condvar \<Rightarrow> condvar) \<Rightarrow> sync_state \<Rightarrow> sync_state" where
  "upd_cv c f s = s\<lparr>condvars := (condvars s)(c := f (condvars s c))\<rparr>"

definition upd_monitor :: "nat \<Rightarrow> (monitor \<Rightarrow> monitor) \<Rightarrow> sync_state \<Rightarrow> sync_state" where
  "upd_monitor m f s = s\<lparr>monitors := (monitors s)(m := f (monitors s m))\<rparr>"

text \<open>Initialisation; \<open>cvs\<close> is the array \<open>kmalloc\<close> returned, if it did.\<close>

primrec init_cvs :: "nat \<Rightarrow> nat \<Rightarrow> (nat \<Rightarrow> nat) \<Rightarrow> sync_state \<Rightarrow> sync_state" where
  "init_cvs mt 0 cvs s = s"
| "init_cvs mt (Suc i) cvs s =
     (let s0 = init_cvs mt i cvs s;
          s1 = upd_cv (cvs i) (count_update (\<lambda>_. 0)) s0;
          s2 = sem_init (cv_sem (condvars s1 (cvs i))) 0 s1
      in upd_cv (cvs i) (owner_update (\<lambda>_. mt)) s2)"

definition monitor_init :: "nat \<Rightarrow> nat \<Rightarrow> (nat \<Rightarrow> nat) option \<Rightarrow> sync_state \<Rightarrow> sync_state option" where
  "monitor_init mt num_cv cvs s = do {
     kassert (num_cv > 0);
     let s1 = upd_monitor mt (next_count_update (\<lambda>_. 0)) s;
     let s2 = sem_init (mutex (monitors s1 mt)) 1 s1;
     let s3 = sem_init (mnext (monitors s2 mt)) 0 s2;
     a \<leftarrow> cvs;
     Some (init_cvs mt num_cv a (upd_monitor mt (mcv_update (\<lambda>_. a)) s3)) }"

definition cond_signal :: "sched_class \<Rightarrow> nat \<Rightarrow> nat \<Rightarrow> sync_state \<Rightarrow> (bool \<times> sync_state) option" where
  "cond_signal sc c w s =
     (if count (condvars s c) > 0
      then do {
        let mt = owner (condvars s c);
        let s1 = upd_monitor mt (next_count_update (\<lambda>n. n + 1)) s;
        s2 \<leftarrow> up sc (cv_sem (condvars s1 c)) s1;
        (fin, s3) \<leftarrow> down sc (mnext (monitors s2 mt)) w s2;
        Some (fin, if fin then upd_monitor mt (next_count_update (\<lambda>n. n - 1)) s3 else s3) }
      else Some (True, s))"

definition cond_signal_resume :: "nat \<Rightarrow> nat \<Rightarrow> sync_state \<Rightarrow> sync_state option" where
  "cond_signal_resume c w s = do {
     let mt = owner (condvars s c);
     s1 \<leftarrow> down_resume (mnext (monitors s mt)) w s;
     Some (upd_monitor mt (next_count_update (\<lambda>n. n - 1)) s1) }"

definition cond_wait :: "sched_class \<Rightarrow> nat \<Rightarrow> nat \<Rightarrow> sync_state \<Rightarrow> (bool \<times> sync_state) option" where
  "cond_wait sc c w s = do {
     let s1 = upd_cv c (count_update (\<lambda>n. n + 1)) s;
     let mt = owner (condvars s1 c);
     s2 \<leftarrow> (if next_count (monitors s1 mt) > 0 then up sc (mnext (monitors s1 mt)) s1
           else up sc (mutex (monitors s1 mt)) s1);
     (fin, s3) \<leftarrow> down sc (cv_sem (condvars s2 c)) w s2;
     Some (fin, if fin then upd_cv c (count_update (\<lambda>n. n - 1)) s3 else s3) }"

definition cond_wait_resume :: "nat \<Rightarrow> nat \<Rightarrow> sync_state \<Rightarrow> sync_state option" where
  "cond_wait_resume c w s = do {
     s1 \<leftarrow> down_resume (cv_sem (condvars s c)) w s;
     Some (upd_cv c (count_update (\<lambda>n. n - 1)) s1) }"


section \<open>Wait queues as lists\<close>

definition wq :: "sync_state \<Rightarrow> nat \<Rightarrow> nat list \<Rightarrow> bool" where
  "wq s q ws \<longleftrightarrow> dlist (wait_links s) (WaitHead q) (map WaitLink ws)
     \<and> (\<forall>w \<in> set ws. wait_queue (waits s w) = q)"

lemma wq_first: "wq s q ws \<Longrightarrow> wait_queue_first q s = Some (opt_hd ws)"
  using dlist_nxt_head[of "wait_links s" "WaitHead q" "map WaitLink ws"]
  by (cases ws) (auto simp: wq_def wait_queue_first_def le2wait_def list_next_def)

lemma wq_empty: "wq s q ws \<Longrightarrow> wait_queue_empty q s \<longleftrightarrow> ws = []"
  using dlist_empty_iff[of "wait_links s" "WaitHead q" "map WaitLink ws"]
  by (simp add: wq_def wait_queue_empty_def)

lemma wq_distinct: "wq s q ws \<Longrightarrow> distinct ws"
  by (auto simp: wq_def dlist_def distinct_map)

lemma upd_wait_simps [simp]:
  "waits (upd_wait w f s) = (waits s)(w := f (waits s w))" "wait_links (upd_wait w f s) = wait_links s"
  "kern (upd_wait w f s) = kern s" "sem_value (upd_wait w f s) = sem_value s"
  "condvars (upd_wait w f s) = condvars s" "monitors (upd_wait w f s) = monitors s"
  by (simp_all add: upd_wait_def)

lemma wq_add_ok:
  assumes "wq s q ws" "w \<notin> set ws" "list_empty (wait_links s) (WaitLink w)"
  shows "\<exists>s'. wait_queue_add q w s = Some s' \<and> wq s' q (ws @ [w])
    \<and> waits s' = (waits s)(w := (waits s w)\<lparr>wait_queue := q\<rparr>) \<and> kern s' = kern s
    \<and> sem_value s' = sem_value s \<and> condvars s' = condvars s \<and> monitors s' = monitors s"
  using assms dlist_add_before_head[of "wait_links s" "WaitHead q" "map WaitLink ws" "WaitLink w"]
  by (auto simp: wq_def wait_queue_add_def)

lemma wq_del_ok:
  assumes "wq s q (us @ w # vs)"
  shows "\<exists>s'. wait_queue_del q w s = Some s' \<and> wq s' q (us @ vs) \<and> list_empty (wait_links s') (WaitLink w)
    \<and> waits s' = waits s \<and> kern s' = kern s \<and> sem_value s' = sem_value s
    \<and> condvars s' = condvars s \<and> monitors s' = monitors s"
proof -
  have d: "dlist (wait_links s) (WaitHead q) (map WaitLink us @ WaitLink w # map WaitLink vs)"
    using assms by (simp add: wq_def)
  have "\<not> list_empty (wait_links s) (WaitLink w)" using dlist_member_not_empty[OF d] by simp
  with assms dlist_del_init[OF d] show ?thesis by (auto simp: wq_def wait_queue_del_def)
qed

section \<open>The semaphore invariant\<close>

text \<open>The processes that wait on a semaphore.\<close>

definition waiters :: "sync_state \<Rightarrow> nat list \<Rightarrow> nat list" where
  "waiters s ws = map (\<lambda>w. wproc (waits s w)) ws"

text \<open>The count is never negative; processes queue only at count 0, each sleeping
  uninterruptibly on the semaphore, in their order of arrival.\<close>

definition sem_ok :: "sync_state \<Rightarrow> nat \<Rightarrow> nat list \<Rightarrow> bool" where
  "sem_ok s m ws \<longleftrightarrow> wq s m ws \<and> 0 \<le> sem_value s m \<and> (ws \<noteq> [] \<longrightarrow> sem_value s m = 0)
     \<and> distinct (waiters s ws)
     \<and> (\<forall>w \<in> set ws. state (procs (kern s) (wproc (waits s w))) = PROC_SLEEPING
          \<and> wait_state (procs (kern s) (wproc (waits s w))) = WT_KSEM)"

context scheduler
begin

lemma sleep_inv:
  assumes "sched_inv rel detached k P"
  shows "sched_inv rel detached (upd_proc (current k) (\<lambda>p. p\<lparr>state := PROC_SLEEPING, wait_state := x\<rparr>) k) P"
proof -
  let ?k = "upd_proc (current k) (\<lambda>p. p\<lparr>state := PROC_SLEEPING, wait_state := x\<rparr>) k"
  have same: "same_queue k ?k" "current ?k = current k" "idleproc ?k = idleproc k" "satp ?k = satp k"
    "\<forall>q. pgdir (procs ?k q) = pgdir (procs k q)"
    "\<forall>q. q \<noteq> current k \<longrightarrow> state (procs ?k q) = state (procs k q)"
    by (auto simp: same_queue_def upd_proc_def)
  then have "waiting ?k P = waiting k P" by (auto simp: waiting_def runnable_def)
  with assms rel_same[OF same(1)] detached_same[OF same(1)] same(2-5) show ?thesis
    by (auto simp: sched_inv_def)
qed

lemma down_blocks:
  assumes ok: "sem_ok s m ws" and inv: "sched_inv rel detached (kern s) P"
    and v: "sem_value s m \<le> 0" and w: "w \<notin> set ws"
    and cur: "state (procs (kern s) (current (kern s))) = PROC_RUNNABLE"
  shows "\<exists>s'. down sc m w s = Some (False, s') \<and> sem_ok s' m (ws @ [w]) \<and> sched_inv rel detached (kern s') P
    \<and> waiters s' (ws @ [w]) = waiters s ws @ [current (kern s)] \<and> sem_value s' = sem_value s
    \<and> condvars s' = condvars s \<and> monitors s' = monitors s
    \<and> (\<forall>q. q \<noteq> current (kern s) \<longrightarrow> state (procs (kern s') q) = state (procs (kern s) q))"
proof -
  let ?c = "current (kern s)"
  define s1 where "s1 = wait_init w ?c s"
  define k where "k = upd_proc ?c (\<lambda>p. p\<lparr>state := PROC_SLEEPING, wait_state := WT_KSEM\<rparr>) (kern s)"
  define s2 where "s2 = s1\<lparr>kern := k\<rparr>"
  have s1: "waits s1 = (waits s)(w := (waits s w)\<lparr>wproc := ?c, wakeup_flags := WT_INTERRUPTED\<rparr>)"
    "wait_links s1 = list_init (WaitLink w) (wait_links s)" "kern s1 = kern s" "sem_value s1 = sem_value s"
    "condvars s1 = condvars s" "monitors s1 = monitors s"
    by (simp_all add: s1_def wait_init_def Let_def)
  have "wq s2 m ws" using ok w s1 dlist_frame_init[of "wait_links s" "WaitHead m" "map WaitLink ws" "WaitLink w"]
    by (auto simp: wq_def sem_ok_def s2_def)
  moreover have "list_empty (wait_links s2) (WaitLink w)" by (simp add: s2_def s1 list_defs)
  ultimately obtain s3 where s3: "wait_queue_add m w s2 = Some s3" "wq s3 m (ws @ [w])" "kern s3 = k"
    "waits s3 = (waits s2)(w := (waits s2 w)\<lparr>wait_queue := m\<rparr>)" "sem_value s3 = sem_value s"
    "condvars s3 = condvars s" "monitors s3 = monitors s"
    using wq_add_ok[of s2 m ws w] w by (auto simp: s2_def s1)
  have e3: "wait_current_set m w WT_KSEM s = Some s3"
    using s3(1) by (simp add: wait_current_set_def s1_def[symmetric] s2_def k_def s1(3))
  have inv2: "sched_inv rel detached k P" unfolding k_def by (rule sleep_inv[OF inv])
  from schedule_ok[OF inv2] obtain k' where
    k': "schedule sc k = Some k'" "sched_inv rel detached k' P"
      "\<forall>q. state (procs k' q) = state (procs k q) \<and> wait_state (procs k' q) = wait_state (procs k q)" by blast
  let ?s' = "s3\<lparr>kern := k'\<rparr>"
  have e: "down sc m w s = Some (False, ?s')"
    using v e3 k'(1) s3(3) by (simp add: down_def down_raw_def)
  have wp: "wproc (waits ?s' w) = ?c" "\<forall>x. x \<noteq> w \<longrightarrow> waits ?s' x = waits s x" by (simp_all add: s3 s2_def s1)
  have nc: "wproc (waits s x) \<noteq> ?c" if "x \<in> set ws" for x using ok cur that by (auto simp: sem_ok_def)
  have old: "\<And>x. x \<in> set ws \<Longrightarrow> waits ?s' x = waits s x" using wp(2) w by metis
  have wts: "waiters ?s' (ws @ [w]) = waiters s ws @ [?c]" using old wp(1) by (simp add: waiters_def)
  have "sem_ok ?s' m (ws @ [w])"
    unfolding sem_ok_def
  proof (intro conjI)
    show "wq ?s' m (ws @ [w])" using s3(2) by (simp add: wq_def)
    show "0 \<le> sem_value ?s' m" "ws @ [w] \<noteq> [] \<longrightarrow> sem_value ?s' m = 0"
      using ok v by (auto simp: sem_ok_def s3(5))
    have "?c \<notin> set (waiters s ws)" using nc by (auto simp: waiters_def dest: sym)
    then show "distinct (waiters ?s' (ws @ [w]))"
      using ok wts by (simp add: sem_ok_def)
    show "\<forall>x \<in> set (ws @ [w]). state (procs (kern ?s') (wproc (waits ?s' x))) = PROC_SLEEPING
        \<and> wait_state (procs (kern ?s') (wproc (waits ?s' x))) = WT_KSEM"
    proof
      fix x assume "x \<in> set (ws @ [w])"
      then consider "x = w" | "x \<in> set ws" by auto
      then show "state (procs (kern ?s') (wproc (waits ?s' x))) = PROC_SLEEPING
        \<and> wait_state (procs (kern ?s') (wproc (waits ?s' x))) = WT_KSEM"
        using k'(3) wp(1) old[of x] nc[of x] ok by cases (simp_all add: k_def upd_proc_def sem_ok_def)
    qed
  qed
  moreover have "\<forall>q. q \<noteq> ?c \<longrightarrow> state (procs (kern ?s') q) = state (procs (kern s) q)"
    using k'(3) by (simp add: k_def upd_proc_def)
  ultimately show ?thesis using e k'(2) s3(5-7) wts by (intro exI[of _ ?s']) simp
qed

lemma up_empty:
  assumes "sem_ok s m []"
  shows "up sc m s = Some (set_value m (sem_value s m + 1) s)"
    and "sem_ok (set_value m (sem_value s m + 1) s) m []"
  using assms wq_first[of s m "[]"]
  by (auto simp: sem_ok_def up_def up_raw_def set_value_def wq_def waiters_def)

lemma up_wakes:
  assumes ok: "sem_ok s m (w # ws)" and inv: "sched_inv rel detached (kern s) P"
    and p: "wproc (waits s w) \<in> P"
  shows "\<exists>s'. up sc m s = Some s' \<and> sem_ok s' m ws \<and> sched_inv rel detached (kern s') P
    \<and> state (procs (kern s') (wproc (waits s w))) = PROC_RUNNABLE
    \<and> wakeup_flags (waits s' w) = WT_KSEM \<and> \<not> wait_in_queue w s'
    \<and> current (kern s') = current (kern s) \<and> sem_value s' = sem_value s \<and> waiters s' ws = waiters s ws
    \<and> condvars s' = condvars s \<and> monitors s' = monitors s
    \<and> (\<forall>q. q \<noteq> wproc (waits s w) \<longrightarrow> state (procs (kern s') q) = state (procs (kern s) q))"
proof -
  let ?p = "wproc (waits s w)"
  have q: "wq s m ([] @ w # ws)" using ok by (simp add: sem_ok_def)
  have sl: "state (procs (kern s) ?p) \<noteq> PROC_ZOMBIE" "wait_state (procs (kern s) ?p) = WT_KSEM"
    using ok by (auto simp: sem_ok_def)
  from wq_del_ok[OF q] obtain s1 where
    s1: "wait_queue_del m w s = Some s1" "wq s1 m ws" "list_empty (wait_links s1) (WaitLink w)"
      "waits s1 = waits s" "kern s1 = kern s" "sem_value s1 = sem_value s" "condvars s1 = condvars s" "monitors s1 = monitors s"
    by auto
  define s2 where "s2 = upd_wait w (wakeup_flags_update (\<lambda>_. WT_KSEM)) s1"
  from wakeup_ok[OF inv p sl(1)] obtain k where
    k: "wakeup_proc sc ?p (kern s) = Some k" "sched_inv rel detached k P" "state (procs k ?p) = PROC_RUNNABLE"
      "current k = current (kern s)"
      "\<forall>q. q \<noteq> ?p \<longrightarrow> state (procs k q) = state (procs (kern s) q) \<and> wait_state (procs k q) = wait_state (procs (kern s) q)"
    by blast
  let ?s' = "s2\<lparr>kern := k\<rparr>"
  have e: "up sc m s = Some ?s'"
    using wq_first[OF q] sl(2) s1(1,4,5) k(1)
    by (simp add: up_def up_raw_def wakeup_wait_def s2_def)
  have nw: "w \<notin> set ws" using wq_distinct[OF q] by simp
  have old: "\<And>x. wproc (waits ?s' x) = wproc (waits s x)" by (simp add: s2_def s1)
  have np: "wproc (waits s x) \<noteq> ?p" if "x \<in> set ws" for x
  proof
    assume "wproc (waits s x) = ?p"
    then have "?p \<in> set (waiters s ws)" using imageI[OF that, of "\<lambda>w. wproc (waits s w)"] by (simp add: waiters_def)
    then show False using ok by (simp add: sem_ok_def waiters_def)
  qed
  have wts: "waiters ?s' ws = waiters s ws" using old by (simp add: waiters_def)
  have "distinct (waiters s ws)" using ok by (simp add: sem_ok_def waiters_def)
  then have "sem_ok ?s' m ws"
    using wts ok k(5) np s1(2,6) nw old by (auto simp: sem_ok_def wq_def s2_def s1(4,6))
  then show ?thesis using e k s1(3) wts by (intro exI[of _ ?s']) (auto simp: s2_def s1 wait_in_queue_def)
qed

lemma sem_ok_sched:
  assumes "sem_ok s m ws" "\<forall>q. state (procs k q) = state (procs (kern s) q) \<and> wait_state (procs k q) = wait_state (procs (kern s) q)"
  shows "sem_ok (s\<lparr>kern := k\<rparr>) m ws" "waiters (s\<lparr>kern := k\<rparr>) ws = waiters s ws"
  using assms by (auto simp: sem_ok_def wq_def waiters_def)

end

section \<open>Mutual exclusion\<close>

text \<open>
  The processes of the system use one semaphore \<open>m\<close> around a critical section, under any
  scheduling: the running process calls \<open>down\<close> (and passes, or sleeps), it calls \<open>up\<close> at the
  end of its section, or it is preempted by \<open>schedule\<close>.  \<open>H\<close> is the set of processes whose
  \<open>down\<close> has been granted and that have not called \<open>up\<close> since.  A process woken by \<open>up\<close> is
  granted at that moment.
\<close>

inductive mutex_step :: "sched_class \<Rightarrow> nat \<Rightarrow> sync_state \<times> nat set \<Rightarrow> sync_state \<times> nat set \<Rightarrow> bool"
  for sc :: sched_class and m :: nat where
  pass: "down sc m w s = Some (True, s') \<Longrightarrow> current (kern s) \<notin> H \<Longrightarrow>
    mutex_step sc m (s, H) (s', insert (current (kern s)) H)"
| block: "down sc m w s = Some (False, s') \<Longrightarrow> current (kern s) \<noteq> idleproc (kern s) \<Longrightarrow>
    \<not> wait_in_queue w s \<Longrightarrow> current (kern s) \<notin> H \<Longrightarrow> mutex_step sc m (s, H) (s', H)"
| release: "up sc m s = Some s' \<Longrightarrow> wait_queue_first m s = Some None \<Longrightarrow> current (kern s) \<in> H \<Longrightarrow>
    mutex_step sc m (s, H) (s', H - {current (kern s)})"
| hand_over: "up sc m s = Some s' \<Longrightarrow> wait_queue_first m s = Some (Some w) \<Longrightarrow> current (kern s) \<in> H \<Longrightarrow>
    mutex_step sc m (s, H) (s', insert (wproc (waits s w)) (H - {current (kern s)}))"
| preempt: "schedule sc (kern s) = Some k \<Longrightarrow> mutex_step sc m (s, H) (s\<lparr>kern := k\<rparr>, H)"

inductive_cases mutex_stepE: "mutex_step sc m (s, H) t"

definition mutex_inv ::
  "(kstate \<Rightarrow> nat set \<Rightarrow> bool) \<Rightarrow> (kstate \<Rightarrow> nat \<Rightarrow> bool) \<Rightarrow> nat \<Rightarrow> nat set \<Rightarrow> int \<Rightarrow> sync_state \<times> nat set \<Rightarrow> bool" where
  "mutex_inv rel det m P c = (\<lambda>(s, H). \<exists>ws. sem_ok s m ws \<and> sched_inv rel det (kern s) P
     \<and> set (waiters s ws) \<subseteq> P \<and> set (waiters s ws) \<inter> H = {} \<and> finite H
     \<and> sem_value s m + int (card H) = c \<and> state (procs (kern s) (current (kern s))) = PROC_RUNNABLE
     \<and> state (procs (kern s) (idleproc (kern s))) = PROC_RUNNABLE)"

context scheduler
begin

lemma scheduled_runnable:
  assumes "sched_inv rel detached k P" "state (procs k (idleproc k)) = PROC_RUNNABLE" "schedule sc k = Some k'"
  shows "sched_inv rel detached k' P" "state (procs k' (current k')) = PROC_RUNNABLE"
    "state (procs k' (idleproc k')) = PROC_RUNNABLE"
    "\<forall>q. state (procs k' q) = state (procs k q) \<and> wait_state (procs k' q) = wait_state (procs k q)"
  using schedule_ok[OF assms(1)] assms(2,3) by (auto simp: runnable_def split: if_splits)

lemma mutex_preempt:
  assumes "mutex_inv rel detached m P c (s, H)" "schedule sc (kern s) = Some k"
  shows "mutex_inv rel detached m P c (s\<lparr>kern := k\<rparr>, H)"
proof -
  from assms(1) obtain ws where i: "sem_ok s m ws" "sched_inv rel detached (kern s) P" "set (waiters s ws) \<subseteq> P"
    "set (waiters s ws) \<inter> H = {}" "finite H" "sem_value s m + int (card H) = c"
    "state (procs (kern s) (idleproc (kern s))) = PROC_RUNNABLE" by (auto simp: mutex_inv_def)
  note k = scheduled_runnable[OF i(2,7) assms(2)]
  show ?thesis using sem_ok_sched[OF i(1) k(4)] i k(1-3)
    by (auto simp: mutex_inv_def intro!: exI[of _ ws])
qed

lemma mutex_block:
  assumes "mutex_inv rel detached m P c (s, H)" "down sc m w s = Some (False, s')"
    "current (kern s) \<noteq> idleproc (kern s)" "\<not> wait_in_queue w s" "current (kern s) \<notin> H"
  shows "mutex_inv rel detached m P c (s', H)"
proof -
  from assms(1) obtain ws where i: "sem_ok s m ws" "sched_inv rel detached (kern s) P" "set (waiters s ws) \<subseteq> P"
    "set (waiters s ws) \<inter> H = {}" "finite H" "sem_value s m + int (card H) = c"
    "state (procs (kern s) (current (kern s))) = PROC_RUNNABLE"
    "state (procs (kern s) (idleproc (kern s))) = PROC_RUNNABLE" by (auto simp: mutex_inv_def)
  have v: "sem_value s m \<le> 0" using assms(2) by (auto simp: down_def down_raw_def split: if_splits)
  have w: "w \<notin> set ws"
    using assms(4) i(1) dlist_member_not_empty[of "wait_links s" "WaitHead m" "map WaitLink ws" "WaitLink w"]
    by (auto simp: wait_in_queue_def sem_ok_def wq_def)
  from down_blocks[OF i(1,2) v w i(7)] assms(2) have s': "sem_ok s' m (ws @ [w])" "sched_inv rel detached (kern s') P"
    "waiters s' (ws @ [w]) = waiters s ws @ [current (kern s)]" "sem_value s' = sem_value s" by auto
  from assms(2) v obtain s1 k where k: "wait_current_set m w WT_KSEM s = Some s1" "schedule sc (kern s1) = Some k"
    "s' = s1\<lparr>kern := k\<rparr>" by (auto simp: down_def down_raw_def bind_Some_iff)
  then have k1: "kern s1 = upd_proc (current (kern s)) (\<lambda>p. p\<lparr>state := PROC_SLEEPING, wait_state := WT_KSEM\<rparr>) (kern s)"
    by (auto simp: wait_current_set_def Let_def wait_queue_add_def wait_init_def bind_Some_iff upd_wait_def)
  have "state (procs (kern s1) (idleproc (kern s1))) = PROC_RUNNABLE"
    using i(8) assms(3) by (simp add: k1 upd_proc_def)
  from scheduled_runnable[OF _ this k(2)] sleep_inv[OF i(2), of WT_KSEM] k1
  have "state (procs k (current k)) = PROC_RUNNABLE" "state (procs k (idleproc k)) = PROC_RUNNABLE" by auto
  moreover have "current (kern s) \<in> P" using i(2) by (simp add: sched_inv_def)
  ultimately show ?thesis using s' i assms(5) k(3) by (auto simp: mutex_inv_def intro!: exI[of _ "ws @ [w]"])
qed

lemma mutex_hand_over:
  assumes "mutex_inv rel detached m P c (s, H)" "up sc m s = Some s'" "wait_queue_first m s = Some (Some w)"
    "current (kern s) \<in> H"
  shows "mutex_inv rel detached m P c (s', insert (wproc (waits s w)) (H - {current (kern s)}))"
proof -
  let ?p = "wproc (waits s w)"
  from assms(1) obtain ws' where i: "sem_ok s m ws'" "sched_inv rel detached (kern s) P" "set (waiters s ws') \<subseteq> P"
    "set (waiters s ws') \<inter> H = {}" "finite H" "sem_value s m + int (card H) = c"
    "state (procs (kern s) (current (kern s))) = PROC_RUNNABLE"
    "state (procs (kern s) (idleproc (kern s))) = PROC_RUNNABLE" by (auto simp: mutex_inv_def)
  obtain ws where ws: "ws' = w # ws" using wq_first[of s m ws'] i(1) assms(3) by (cases ws') (auto simp: sem_ok_def)
  have p: "?p \<in> P" "?p \<notin> H" "?p \<notin> set (waiters s ws)" using i(1,3,4) ws by (auto simp: waiters_def sem_ok_def)
  from up_wakes[OF i(1)[unfolded ws] i(2) p(1)] assms(2) have s': "sem_ok s' m ws" "sched_inv rel detached (kern s') P"
    "state (procs (kern s') ?p) = PROC_RUNNABLE" "current (kern s') = current (kern s)" "sem_value s' = sem_value s"
    "waiters s' ws = waiters s ws" "\<forall>q. q \<noteq> ?p \<longrightarrow> state (procs (kern s') q) = state (procs (kern s) q)" by auto
  have idle: "idleproc (kern s') = idleproc (kern s)"
    using assms(2,3) wakeup_ok[OF i(2) p(1)] i(1) ws
    by (auto simp: up_def up_raw_def wakeup_wait_def wait_queue_del_def sem_ok_def bind_Some_iff upd_wait_def)
  have "card (insert ?p (H - {current (kern s)})) = card H"
    using assms(4) i(5) p(2) by (metis Diff_iff card.remove card_insert_disjoint finite_Diff)
  moreover have "state (procs (kern s') q) = PROC_RUNNABLE" if "state (procs (kern s) q) = PROC_RUNNABLE" for q
    using that s'(3,7) by metis
  ultimately show ?thesis using s' i p idle ws unfolding mutex_inv_def
    by (auto simp: waiters_def intro!: exI[of _ ws])
qed

lemma mutex_pass:
  assumes "mutex_inv rel detached m P c (s, H)" "down sc m w s = Some (True, s')" "current (kern s) \<notin> H"
  shows "mutex_inv rel detached m P c (s', insert (current (kern s)) H)"
proof -
  from assms(1) obtain ws where i: "sem_ok s m ws" "sched_inv rel detached (kern s) P" "finite H"
    "sem_value s m + int (card H) = c" "state (procs (kern s) (current (kern s))) = PROC_RUNNABLE"
    "state (procs (kern s) (idleproc (kern s))) = PROC_RUNNABLE" by (auto simp: mutex_inv_def)
  have v: "0 < sem_value s m" "s' = set_value m (sem_value s m - 1) s"
    using assms(2) by (auto simp: down_def down_raw_def bind_Some_iff split: if_splits)
  then have "ws = []" using i(1) by (auto simp: sem_ok_def)
  then show ?thesis using i v assms(3)
    by (auto simp: mutex_inv_def sem_ok_def wq_def waiters_def set_value_def intro!: exI[of _ "[]"])
qed

lemma mutex_release:
  assumes "mutex_inv rel detached m P c (s, H)" "up sc m s = Some s'" "wait_queue_first m s = Some None"
    "current (kern s) \<in> H"
  shows "mutex_inv rel detached m P c (s', H - {current (kern s)})"
proof -
  from assms(1) obtain ws where i: "sem_ok s m ws" "sched_inv rel detached (kern s) P" "finite H"
    "sem_value s m + int (card H) = c" "state (procs (kern s) (current (kern s))) = PROC_RUNNABLE"
    "state (procs (kern s) (idleproc (kern s))) = PROC_RUNNABLE" by (auto simp: mutex_inv_def)
  have ws: "ws = []" using wq_first[of s m ws] i(1) assms(3) by (cases ws) (auto simp: sem_ok_def)
  have "s' = set_value m (sem_value s m + 1) s" "sem_ok s' m []" using up_empty i(1) ws assms(2) by auto
  moreover have "int (card H) = int (card (H - {current (kern s)})) + 1"
    using assms(4) i(3) by (metis card.remove of_nat_Suc add.commute)
  ultimately show ?thesis using i by (auto simp: mutex_inv_def waiters_def set_value_def intro!: exI[of _ "[]"])
qed

lemma mutex_step_inv:
  assumes "mutex_step sc m x y" "mutex_inv rel detached m P c x"
  shows "mutex_inv rel detached m P c y"
  using assms
  by (cases rule: mutex_step.cases)
    (auto intro: mutex_pass mutex_block mutex_release mutex_hand_over mutex_preempt)

lemma mutex_reach_inv:
  "(mutex_step sc m)\<^sup>*\<^sup>* x y \<Longrightarrow> mutex_inv rel detached m P c x \<Longrightarrow> mutex_inv rel detached m P c y"
  by (induction rule: rtranclp_induct) (auto intro: mutex_step_inv)

end

section \<open>Properties of the kernel's semaphores\<close>

text \<open>Two ready processes, of which 1 runs, and a semaphore 7 with the given count.\<close>

definition sync_two :: "int \<Rightarrow> sync_state" where
  "sync_two v = sem_init 7 v \<lparr>kern = two_ready, waits = (\<lambda>_. \<lparr>wproc = 0, wakeup_flags = 0, wait_queue = 0\<rparr>),
     wait_links = \<lparr>nxt = (\<lambda>x. x), prv = (\<lambda>x. x)\<rparr>, sem_value = (\<lambda>_. 0),
     condvars = (\<lambda>_. \<lparr>cv_sem = 0, count = 0, owner = 0\<rparr>),
     monitors = (\<lambda>_. \<lparr>mutex = 0, mnext = 0, next_count = 0, mcv = (\<lambda>i. i)\<rparr>)\<rparr>"

lemma sync_two_kern: "kern (sync_two v) = two_ready" "sem_value (sync_two v) 7 = v"
  "0 \<le> v \<Longrightarrow> sem_ok (sync_two v) 7 []"
  by (simp_all add: sync_two_def sem_init_def wait_queue_init_def set_value_def sem_ok_def wq_def
      dlist_def list_defs waiters_def)

lemma two_ready_facts: "current two_ready = 1" "idleproc two_ready = 0"
  "state (procs two_ready 0) = PROC_RUNNABLE" "state (procs two_ready 1) = PROC_RUNNABLE"
  "state (procs two_ready 2) = PROC_RUNNABLE" "satp two_ready = pgdir (procs two_ready 1)"
  "list_empty (run_links two_ready) (RunLink 0)"
  by (simp_all add: two_ready_def RR_enqueue_def sched_init_def RR_init_def boot_state_def idle_proc_def
      list_defs Let_def upd_proc_def)

lemma two_ready_inv: "rr_inv two_ready {0, 1, 2}"
proof -
  have w: "waiting two_ready {0, 1, 2} = {2}" using two_ready_facts by (auto simp: waiting_def runnable_def)
  from two_ready_line have "rq_list two_ready [2]" "rq_detached two_ready 1"
    by (auto simp: rr_line_def two_ready_facts(1))
  then show ?thesis unfolding sched_inv_def w using two_ready_facts
    by (auto simp: rq_set_def rq_detached_def intro!: exI[of _ "[2]"])
qed

text \<open>C3. Mutual exclusion: whatever the processes and the scheduler do, the number of processes
  inside the sections guarded by a semaphore, those handed the semaphore while still asleep
  included, plus the semaphore's count is the initial count; with initial count 1 at most one
  process is inside.\<close>

theorem semaphore_mutual_exclusion:
  assumes "sem_ok s0 m []" "rr_inv (kern s0) P"
    "state (procs (kern s0) (current (kern s0))) = PROC_RUNNABLE"
    "state (procs (kern s0) (idleproc (kern s0))) = PROC_RUNNABLE"
    and "(mutex_step default_sched_class m)\<^sup>*\<^sup>* (s0, {}) (s, H)"
  shows "finite H \<and> 0 \<le> sem_value s m \<and> sem_value s m + int (card H) = sem_value s0 m"
proof -
  have "mutex_inv rq_set rq_detached m P (sem_value s0 m) (s0, {})"
    using assms(1-4) by (auto simp: mutex_inv_def waiters_def intro!: exI[of _ "[]"])
  from rr_sched.mutex_reach_inv[OF assms(5) this] show ?thesis by (auto simp: mutex_inv_def sem_ok_def)
qed

theorem semaphore_mutual_exclusion_witness:
  "\<exists>s. (mutex_step default_sched_class 7)\<^sup>*\<^sup>* (sync_two 1, {}) (s, {1}) \<and> sem_value s 7 = 0"
proof -
  have "mutex_step default_sched_class 7 (sync_two 1, {}) (set_value 7 0 (sync_two 1), {1})"
    using mutex_step.pass[of default_sched_class 7 0 "sync_two 1" "set_value 7 0 (sync_two 1)" "{}"]
    by (simp add: down_def down_raw_def sync_two_kern two_ready_facts)
  then have r: "(mutex_step default_sched_class 7)\<^sup>*\<^sup>* (sync_two 1, {}) (set_value 7 0 (sync_two 1), {1})" by blast
  from semaphore_mutual_exclusion[OF _ _ _ _ this, of "{0, 1, 2}"] have "sem_value (set_value 7 0 (sync_two 1)) 7 = 0"
    by (simp add: sync_two_kern two_ready_facts two_ready_inv del: One_nat_def)
  with r show ?thesis by blast
qed

text \<open>\<open>down\<close> on a semaphore without units returns to the scheduler with the caller asleep,
  uninterruptibly, at the end of the semaphore's queue; the count and the other processes'
  states stay, and another process runs.\<close>

theorem down_sleeps_in_order:
  assumes "sem_ok s m ws" "rr_inv (kern s) P" "sem_value s m \<le> 0" "w \<notin> set ws"
    "state (procs (kern s) (current (kern s))) = PROC_RUNNABLE"
  shows "\<exists>s'. down default_sched_class m w s = Some (False, s') \<and> sem_ok s' m (ws @ [w]) \<and> rr_inv (kern s') P
    \<and> waiters s' (ws @ [w]) = waiters s ws @ [current (kern s)] \<and> sem_value s' = sem_value s
    \<and> (\<forall>q. q \<noteq> current (kern s) \<longrightarrow> state (procs (kern s') q) = state (procs (kern s) q))"
  using rr_sched.down_blocks[OF assms] by blast

theorem down_sleeps_in_order_witness:
  "\<exists>s'. down default_sched_class 7 0 (sync_two 0) = Some (False, s') \<and> waiters s' [0] = [1]"
  using down_sleeps_in_order[of "sync_two 0" 7 "[]" "{0, 1, 2}" 0]
  by (auto simp: sync_two_kern two_ready_facts two_ready_inv waiters_def simp del: One_nat_def)

text \<open>C32. \<open>up\<close> with sleepers grants the unit to the one that waited longest: its process becomes
  runnable, leaves the queue, and when it runs again its \<open>down\<close> returns without a failed
  assertion and without touching the queue; the count does not change.\<close>

theorem up_grants_first:
  assumes "sem_ok s m (w # ws)" "rr_inv (kern s) P" "wproc (waits s w) \<in> P"
  shows "\<exists>s'. up default_sched_class m s = Some s' \<and> sem_ok s' m ws \<and> rr_inv (kern s') P
    \<and> state (procs (kern s') (wproc (waits s w))) = PROC_RUNNABLE
    \<and> down_resume m w s' = Some s' \<and> sem_value s' = sem_value s \<and> waiters s' ws = waiters s ws"
proof -
  from rr_sched.up_wakes[OF assms] obtain s' where
    "up default_sched_class m s = Some s'" "sem_ok s' m ws" "rr_inv (kern s') P"
    "state (procs (kern s') (wproc (waits s w))) = PROC_RUNNABLE" "wakeup_flags (waits s' w) = WT_KSEM"
    "\<not> wait_in_queue w s'" "sem_value s' = sem_value s" "waiters s' ws = waiters s ws" by blast
  then show ?thesis
    by (intro exI[of _ s']) (simp add: down_resume_def down_raw_resume_def wait_current_del_def)
qed

theorem up_grants_first_witness:
  "\<exists>s s'. down default_sched_class 7 0 (sync_two 0) = Some (False, s) \<and> up default_sched_class 7 s = Some s'
     \<and> state (procs (kern s') 1) = PROC_RUNNABLE"
proof -
  from rr_sched.down_blocks[of "sync_two 0" 7 "[]" "{0, 1, 2}" 0] obtain s where
    s: "down default_sched_class 7 0 (sync_two 0) = Some (False, s)" "sem_ok s 7 [0]" "rr_inv (kern s) {0, 1, 2}"
      "waiters s [0] = [1]"
    by (auto simp: sync_two_kern two_ready_facts two_ready_inv waiters_def simp del: One_nat_def)
  with up_grants_first[of s 7 0 "[]" "{0, 1, 2}"] show ?thesis by (auto simp: waiters_def)
qed

end
