(* ===== verification/Strings.thy ===== *)
theory Strings
  imports Prelude "HOL-Library.Word"
begin

text \<open>
  The string library, \<open>libs/string.c\<close>, over a byte-addressed memory.  The loops that stop
  only at a terminating zero are partial: without one they do not return.  Overlap is part of
  the model, since source and destination are addresses of one memory.
\<close>

type_synonym mem = "nat \<Rightarrow> 8 word"

section \<open>Definitions\<close>

partial_function (option) strlen_loop :: "mem \<Rightarrow> nat \<Rightarrow> nat \<Rightarrow> nat option" where
  "strlen_loop m s cnt = (if m s \<noteq> 0 then strlen_loop m (s + 1) (cnt + 1) else Some cnt)"

definition strlen :: "mem \<Rightarrow> nat \<Rightarrow> nat option" where
  "strlen m s = strlen_loop m s 0"

text \<open>The loop of \<open>strnlen\<close>; the first argument counts the remaining characters.\<close>

fun strnlen_loop :: "nat \<Rightarrow> mem \<Rightarrow> nat \<Rightarrow> nat \<Rightarrow> nat" where
  "strnlen_loop 0 m s cnt = cnt"
| "strnlen_loop (Suc r) m s cnt = (if m s \<noteq> 0 then strnlen_loop r m (s + 1) (cnt + 1) else cnt)"

definition strnlen :: "mem \<Rightarrow> nat \<Rightarrow> nat \<Rightarrow> nat" where
  "strnlen m s len = strnlen_loop len m s 0"

partial_function (option) strcpy_loop :: "nat \<Rightarrow> nat \<Rightarrow> mem \<Rightarrow> mem option" where
  "strcpy_loop p src m =
     (let m1 = m(p := m src) in if m1 p \<noteq> 0 then strcpy_loop (p + 1) (src + 1) m1 else Some m1)"

definition strcpy :: "nat \<Rightarrow> nat \<Rightarrow> mem \<Rightarrow> (nat \<times> mem) option" where
  "strcpy dst src m = do { m1 \<leftarrow> strcpy_loop dst src m; Some (dst, m1) }"

fun strncpy_loop :: "nat \<Rightarrow> nat \<Rightarrow> nat \<Rightarrow> mem \<Rightarrow> mem" where
  "strncpy_loop p src 0 m = m"
| "strncpy_loop p src (Suc len) m =
     (let m1 = m(p := m src)
      in strncpy_loop (p + 1) (if m1 p \<noteq> 0 then src + 1 else src) len m1)"

definition strncpy :: "nat \<Rightarrow> nat \<Rightarrow> nat \<Rightarrow> mem \<Rightarrow> nat \<times> mem" where
  "strncpy dst src len m = (dst, strncpy_loop dst src len m)"

definition strcat :: "nat \<Rightarrow> nat \<Rightarrow> mem \<Rightarrow> (nat \<times> mem) option" where
  "strcat dst src m = do { l \<leftarrow> strlen m dst; strcpy (dst + l) src m }"

partial_function (option) strcmp :: "mem \<Rightarrow> nat \<Rightarrow> nat \<Rightarrow> int option" where
  "strcmp m s1 s2 =
     (if m s1 \<noteq> 0 \<and> m s1 = m s2 then strcmp m (s1 + 1) (s2 + 1)
      else Some (uint (m s1) - uint (m s2)))"

fun strncmp :: "mem \<Rightarrow> nat \<Rightarrow> nat \<Rightarrow> nat \<Rightarrow> int" where
  "strncmp m s1 s2 0 = 0"
| "strncmp m s1 s2 (Suc n) =
     (if m s1 \<noteq> 0 \<and> m s1 = m s2 then strncmp m (s1 + 1) (s2 + 1) n
      else uint (m s1) - uint (m s2))"

partial_function (option) strchr :: "mem \<Rightarrow> nat \<Rightarrow> 8 word \<Rightarrow> nat option option" where
  "strchr m s c =
     (if m s \<noteq> 0 then if m s = c then Some (Some s) else strchr m (s + 1) c else Some None)"

partial_function (option) strfind :: "mem \<Rightarrow> nat \<Rightarrow> 8 word \<Rightarrow> nat option" where
  "strfind m s c =
     (if m s \<noteq> 0 then if m s = c then Some s else strfind m (s + 1) c else Some s)"

declare strlen_loop.simps [code] strcpy_loop.simps [code] strcmp.simps [code] strchr.simps [code]
  strfind.simps [code]

text \<open>\<open>strtol\<close>: white space, sign, prefix, digits.  A \<open>long\<close> has 64 bits and its arithmetic
  is done modulo \<open>2 ^ 64\<close>.\<close>

partial_function (option) skip_blanks :: "mem \<Rightarrow> nat \<Rightarrow> nat option" where
  "skip_blanks m s = (if m s = 32 \<or> m s = 9 then skip_blanks m (s + 1) else Some s)"

definition digit_of :: "8 word \<Rightarrow> nat option" where
  "digit_of c =
     (if 48 \<le> c \<and> c \<le> 57 then Some (unat c - 48)
      else if 97 \<le> c \<and> c \<le> 122 then Some (unat c - 97 + 10)
      else if 65 \<le> c \<and> c \<le> 90 then Some (unat c - 65 + 10)
      else None)"

partial_function (option) strtol_digits :: "mem \<Rightarrow> nat \<Rightarrow> int \<Rightarrow> 64 word \<Rightarrow> (nat \<times> 64 word) option" where
  "strtol_digits m s base val =
     (case digit_of (m s) of
        None \<Rightarrow> Some (s, val)
      | Some dig \<Rightarrow>
          if int dig \<ge> base then Some (s, val)
          else strtol_digits m (s + 1) base (val * word_of_int base + word_of_nat dig))"

declare skip_blanks.simps [code] strtol_digits.simps [code]

definition strtol_sign :: "mem \<Rightarrow> nat \<Rightarrow> bool \<times> nat" where
  "strtol_sign m s = (if m s = 43 then (False, s + 1) else if m s = 45 then (True, s + 1) else (False, s))"

definition strtol_prefix :: "mem \<Rightarrow> nat \<Rightarrow> int \<Rightarrow> nat \<times> int" where
  "strtol_prefix m s base =
     (if (base = 0 \<or> base = 16) \<and> m s = 48 \<and> m (s + 1) = 120 then (s + 2, 16)
      else if base = 0 \<and> m s = 48 then (s + 1, 8)
      else if base = 0 then (s, 10) else (s, base))"

text \<open>The result is the value and the end pointer.\<close>

definition strtol :: "mem \<Rightarrow> nat \<Rightarrow> int \<Rightarrow> (64 word \<times> nat) option" where
  "strtol m s base = do {
     s1 \<leftarrow> skip_blanks m s;
     let (neg, s2) = strtol_sign m s1;
     let (s3, base') = strtol_prefix m s2 base;
     (s4, val) \<leftarrow> strtol_digits m s3 base' 0;
     Some (if neg then - val else val, s4) }"

fun memset_loop :: "nat \<Rightarrow> 8 word \<Rightarrow> nat \<Rightarrow> mem \<Rightarrow> mem" where
  "memset_loop p c 0 m = m"
| "memset_loop p c (Suc n) m = memset_loop (p + 1) c n (m(p := c))"

definition memset :: "nat \<Rightarrow> 8 word \<Rightarrow> nat \<Rightarrow> mem \<Rightarrow> nat \<times> mem" where
  "memset s c n m = (s, memset_loop s c n m)"

text \<open>The two copying loops: upwards from the first byte, and downwards from behind the last.\<close>

fun copy_up :: "nat \<Rightarrow> nat \<Rightarrow> nat \<Rightarrow> mem \<Rightarrow> mem" where
  "copy_up d s 0 m = m"
| "copy_up d s (Suc n) m = copy_up (d + 1) (s + 1) n (m(d := m s))"

fun copy_down :: "nat \<Rightarrow> nat \<Rightarrow> nat \<Rightarrow> mem \<Rightarrow> mem" where
  "copy_down d s 0 m = m"
| "copy_down d s (Suc n) m = copy_down (d - 1) (s - 1) n (m(d - 1 := m (s - 1)))"

definition memmove :: "nat \<Rightarrow> nat \<Rightarrow> nat \<Rightarrow> mem \<Rightarrow> nat \<times> mem" where
  "memmove dst src n m =
     (dst, if src < dst \<and> src + n > dst then copy_down (dst + n) (src + n) n m
           else copy_up dst src n m)"

definition memcpy :: "nat \<Rightarrow> nat \<Rightarrow> nat \<Rightarrow> mem \<Rightarrow> nat \<times> mem" where
  "memcpy dst src n m = (dst, copy_up dst src n m)"

fun memcmp :: "mem \<Rightarrow> nat \<Rightarrow> nat \<Rightarrow> nat \<Rightarrow> int" where
  "memcmp m s1 s2 0 = 0"
| "memcmp m s1 s2 (Suc n) =
     (if m s1 \<noteq> m s2 then uint (m s1) - uint (m s2) else memcmp m (s1 + 1) (s2 + 1) n)"

section \<open>Strings in memory\<close>

fun cstr :: "mem \<Rightarrow> nat \<Rightarrow> 8 word list \<Rightarrow> bool" where
  "cstr m a [] \<longleftrightarrow> m a = 0"
| "cstr m a (b # bs) \<longleftrightarrow> m a = b \<and> b \<noteq> 0 \<and> cstr m (a + 1) bs"

text \<open>The bytes of a region, as a list.\<close>

definition bytes :: "mem \<Rightarrow> nat \<Rightarrow> nat \<Rightarrow> 8 word list" where
  "bytes m a n = map (\<lambda>i. m (a + i)) [0..<n]"

lemma bytes_Suc: "bytes m a (Suc n) = m a # bytes m (a + 1) n"
proof -
  have "[0..<Suc n] = 0 # map Suc [0..<n]" by (simp add: upt_conv_Cons map_Suc_upt del: upt_Suc)
  then show ?thesis by (simp add: bytes_def comp_def del: upt_Suc)
qed

lemma bytes_0 [simp]: "bytes m a 0 = []" by (simp add: bytes_def)
lemma length_bytes [simp]: "length (bytes m a n) = n" by (simp add: bytes_def)

lemma bytes_cong: "(\<And>i. i < n \<Longrightarrow> m (a + i) = m' (a' + i)) \<Longrightarrow> bytes m a n = bytes m' a' n"
  by (simp add: bytes_def)

lemma cstr_iff: "cstr m a bs \<longleftrightarrow> bytes m a (length bs) = bs \<and> 0 \<notin> set bs \<and> m (a + length bs) = 0"
  by (induction bs arbitrary: a) (auto simp: bytes_Suc)

lemma cstr_unique: "cstr m a bs \<Longrightarrow> cstr m a cs \<Longrightarrow> bs = cs"
proof (induction bs arbitrary: a cs)
  case Nil
  then show ?case by (cases cs) auto
next
  case (Cons b bs)
  then show ?case by (cases cs) auto
qed

lemma cstr_cong:
  assumes "\<And>i. i \<le> length bs \<Longrightarrow> m' (a + i) = m (a + i)"
  shows "cstr m' a bs = cstr m a bs"
proof -
  have "bytes m' a (length bs) = bytes m a (length bs)" using assms by (intro bytes_cong) simp
  with assms[of "length bs"] show ?thesis by (simp add: cstr_iff)
qed

lemma strlen_loop_ok: "cstr m s bs \<Longrightarrow> strlen_loop m s c = Some (c + length bs)"
proof (induction bs arbitrary: s c)
  case Nil
  then show ?case by (simp add: strlen_loop.simps[of m s])
next
  case (Cons b bs)
  then show ?case by (simp add: strlen_loop.simps[of m s])
qed

lemma strlen_ok: "cstr m s bs \<Longrightarrow> strlen m s = Some (length bs)"
  by (simp add: strlen_def strlen_loop_ok)

lemma strnlen_loop_ok: "cstr m s bs \<Longrightarrow> strnlen_loop n m s c = c + min n (length bs)"
proof (induction n arbitrary: s c bs)
  case (Suc n)
  then show ?case by (cases bs) auto
qed simp

lemma strnlen_ok: "cstr m s bs \<Longrightarrow> strnlen m s n = min n (length bs)"
  by (simp add: strnlen_def strnlen_loop_ok)

section \<open>Blocks of memory\<close>

lemma memset_at: "memset_loop p c n m x = (if p \<le> x \<and> x < p + n then c else m x)"
  by (induction n arbitrary: p m) auto

text \<open>Copying upwards is right unless the destination starts inside the source behind its
  first byte; copying downwards is right when it does.\<close>

lemma copy_up_at:
  assumes "d \<le> s \<or> s + n \<le> d"
  shows "copy_up d s n m x = (if d \<le> x \<and> x < d + n then m (s + (x - d)) else m x)"
  using assms
proof (induction n arbitrary: d s m)
  case (Suc n)
  have IH: "copy_up (d + 1) (s + 1) n (m(d := m s)) x
      = (if d + 1 \<le> x \<and> x < d + 1 + n then (m(d := m s)) (s + 1 + (x - (d + 1))) else (m(d := m s)) x)"
    using Suc.prems by (intro Suc.IH) auto
  consider "x < d" | "x = d" | "d < x" "x < d + Suc n" | "d + Suc n \<le> x" by linarith
  then show ?case
  proof cases
    case 3
    then have "s + 1 + (x - (d + 1)) = s + (x - d)" "s + (x - d) \<noteq> d" using Suc.prems by auto
    with 3 show ?thesis using IH by simp
  qed (use IH in auto)
qed auto

lemma copy_down_at:
  assumes "s \<le> d"
  shows "copy_down (d + n) (s + n) n m x = (if d \<le> x \<and> x < d + n then m (s + (x - d)) else m x)"
  using assms
proof (induction n arbitrary: m)
  case (Suc n)
  have IH: "copy_down (d + n) (s + n) n (m(d + n := m (s + n))) x
      = (if d \<le> x \<and> x < d + n then (m(d + n := m (s + n))) (s + (x - d)) else (m(d + n := m (s + n))) x)"
    using Suc by blast
  consider "x < d" | "d \<le> x" "x < d + n" | "x = d + n" | "d + n < x" by linarith
  then show ?case
  proof cases
    case 2
    then have "s + (x - d) \<noteq> d + n" using Suc.prems by auto
    with 2 show ?thesis using IH by simp
  qed (use IH in auto)
qed auto

lemma memmove_at:
  "snd (memmove dst src n m) x = (if dst \<le> x \<and> x < dst + n then m (src + (x - dst)) else m x)"
proof (cases "src < dst \<and> src + n > dst")
  case True
  then show ?thesis using copy_down_at[of src dst n m x] by (simp add: memmove_def)
next
  case False
  then show ?thesis using copy_up_at[of dst src n m x] by (auto simp: memmove_def)
qed

lemma byte_diff:
  fixes x y :: "8 word"
  shows "uint x - uint y = 0 \<longleftrightarrow> x = y" "uint x - uint y < 0 \<longleftrightarrow> x < y"
  by (simp_all add: word_uint_eq_iff word_less_def)

lemma memcmp_zero: "memcmp m a b n = 0 \<longleftrightarrow> bytes m a n = bytes m b n"
  by (induction n arbitrary: a b) (simp_all only: memcmp.simps bytes_Suc bytes_0 byte_diff split: if_split, auto)

section \<open>Copying and comparing strings\<close>

lemma strcpy_loop_ok:
  assumes "cstr m src bs" "dst + length bs < src \<or> src + length bs < dst"
  shows "\<exists>m'. strcpy_loop dst src m = Some m' \<and> cstr m' dst bs
    \<and> (\<forall>x. x < dst \<or> dst + length bs < x \<longrightarrow> m' x = m x)"
  using assms
proof (induction bs arbitrary: dst src m)
  case Nil
  then show ?case by (subst strcpy_loop.simps) simp
next
  case (Cons b bs)
  let ?m = "m(dst := m src)"
  have eq: "strcpy_loop dst src m = strcpy_loop (dst + 1) (src + 1) ?m"
    using Cons.prems by (subst strcpy_loop.simps) simp
  have "cstr ?m (src + 1) bs = cstr m (src + 1) bs"
    by (rule cstr_cong) (use Cons.prems(2) in auto)
  then have "cstr ?m (src + 1) bs" using Cons.prems(1) by simp
  moreover have "dst + 1 + length bs < src + 1 \<or> src + 1 + length bs < dst + 1"
    using Cons.prems(2) by auto
  ultimately obtain m' where
    m': "strcpy_loop (dst + 1) (src + 1) ?m = Some m'" "cstr m' (dst + 1) bs"
      "\<forall>x. x < dst + 1 \<or> dst + 1 + length bs < x \<longrightarrow> m' x = ?m x"
    using Cons.IH[of ?m "src + 1" "dst + 1"] by blast
  then have "m' dst = b" using Cons.prems(1) by simp
  with m' eq Cons.prems(1) show ?case by (intro exI[of _ m']) auto
qed

lemma strcpy_ok:
  assumes "cstr m src bs" "dst + length bs < src \<or> src + length bs < dst"
  shows "\<exists>m'. strcpy dst src m = Some (dst, m') \<and> cstr m' dst bs
    \<and> (\<forall>x. x < dst \<or> dst + length bs < x \<longrightarrow> m' x = m x)"
  using strcpy_loop_ok[OF assms] by (auto simp: strcpy_def)

lemma cstr_append: "cstr m a (xs @ ys) \<longleftrightarrow> 0 \<notin> set xs \<and> bytes m a (length xs) = xs \<and> cstr m (a + length xs) ys"
  by (induction xs arbitrary: a) (auto simp: bytes_Suc)

lemma strcat_ok:
  assumes "cstr m dst as" "cstr m src bs"
    "dst + length as + length bs < src \<or> src + length bs < dst"
  shows "\<exists>m'. strcat dst src m = Some (dst + length as, m') \<and> cstr m' dst (as @ bs)
    \<and> (\<forall>x. x < dst + length as \<or> dst + length as + length bs < x \<longrightarrow> m' x = m x)"
proof -
  from strcpy_ok[OF assms(2), of "dst + length as"] assms(3) obtain m' where
    m': "strcpy (dst + length as) src m = Some (dst + length as, m')" "cstr m' (dst + length as) bs"
      "\<forall>x. x < dst + length as \<or> dst + length as + length bs < x \<longrightarrow> m' x = m x" by auto
  have "bytes m' dst (length as) = bytes m dst (length as)" by (rule bytes_cong) (use m'(3) in auto)
  then have "cstr m' dst (as @ bs)" using assms(1) m'(2) unfolding cstr_append by (simp add: cstr_iff[of m])
  with m' strlen_ok[OF assms(1)] show ?thesis by (simp add: strcat_def)
qed

text \<open>\<open>strncpy\<close> fills the field with the string, cut off or padded with zeros.\<close>

lemma strncpy_loop_ok:
  assumes "cstr m src bs" "dst + n \<le> src \<or> src + length bs < dst"
  shows "bytes (strncpy_loop dst src n m) dst n = take n (bs @ replicate n 0)
    \<and> (\<forall>x. x < dst \<or> dst + n \<le> x \<longrightarrow> strncpy_loop dst src n m x = m x)"
  using assms
proof (induction n arbitrary: dst src m bs)
  case (Suc n)
  let ?m = "m(dst := m src)"
  obtain cs where cs: "cstr ?m (if m src \<noteq> 0 then src + 1 else src) cs"
    "take (Suc n) (bs @ replicate (Suc n) 0) = m src # take n (cs @ replicate n 0)"
    "dst + 1 + n \<le> (if m src \<noteq> 0 then src + 1 else src)
       \<or> (if m src \<noteq> 0 then src + 1 else src) + length cs < dst + 1"
  proof (cases bs)
    case Nil
    then have "cstr ?m src []" using Suc.prems by auto
    with Nil Suc.prems that[of "[]"] show ?thesis by auto
  next
    case (Cons b bs')
    have "cstr ?m (src + 1) bs' = cstr m (src + 1) bs'"
      by (rule cstr_cong) (use Suc.prems(2) Cons in auto)
    then have "cstr ?m (src + 1) bs'" using Suc.prems(1) Cons by simp
    moreover have "take (Suc n) (bs @ replicate (Suc n) 0) = b # take n (bs' @ replicate n 0)"
      using Cons by (simp add: min_def del: replicate.simps)
    moreover have "m src = b" "b \<noteq> 0" "dst + 1 + n \<le> src + 1 \<or> src + 1 + length bs' < dst + 1"
      using Suc.prems Cons by auto
    ultimately show ?thesis by (intro that[of bs']) simp_all
  qed
  define r where "r = strncpy_loop (dst + 1) (if m src \<noteq> 0 then src + 1 else src) n ?m"
  from Suc.IH[OF cs(1,3)] have r: "bytes r (dst + 1) n = take n (cs @ replicate n 0)"
    "\<And>x. x < dst + 1 \<or> dst + 1 + n \<le> x \<Longrightarrow> r x = ?m x" unfolding r_def by blast+
  have e: "strncpy_loop dst src (Suc n) m = r" unfolding r_def by (simp add: Let_def)
  show ?case unfolding e bytes_Suc cs(2) r(1) using r(2) by auto
qed simp

lemma strcmp_ok:
  assumes "cstr m a as" "cstr m b bs"
  shows "\<exists>r. strcmp m a b = Some r \<and> (r = 0 \<longleftrightarrow> as = bs)
    \<and> (r < 0 \<longleftrightarrow> (as, bs) \<in> lexord {(x, y). x < y})"
  using assms
proof (induction as arbitrary: a b bs)
  case Nil
  then have "strcmp m a b = Some (uint (m a) - uint (m b))" by (subst strcmp.simps) simp
  with Nil show ?case
    by (intro exI[of _ "uint (m a) - uint (m b)"]) (cases bs; auto simp only: byte_diff; auto simp: word_neq_0_conv)
next
  case (Cons c as)
  show ?case
  proof (cases "\<exists>bs'. bs = c # bs'")
    case True
    then obtain bs' where bs: "bs = c # bs'" by blast
    have "strcmp m a b = strcmp m (a + 1) (b + 1)"
      using Cons.prems bs by (subst strcmp.simps) simp
    with Cons.IH[of "a + 1" "b + 1" bs'] Cons.prems bs show ?thesis by auto
  next
    case False
    have ne: "m a \<noteq> m b" using False Cons.prems by (cases bs) auto
    then have "strcmp m a b = Some (uint (m a) - uint (m b))" by (subst strcmp.simps) simp
    with False Cons.prems ne show ?thesis
      by (intro exI[of _ "uint (m a) - uint (m b)"]) (cases bs; auto simp only: byte_diff; auto)
  qed
qed

lemma strchr_ok:
  assumes "cstr m s bs" "c \<noteq> 0"
  shows "strchr m s c = Some (if c \<in> set bs then Some (s + length (takeWhile (\<lambda>x. x \<noteq> c) bs)) else None)"
  using assms
proof (induction bs arbitrary: s)
  case Nil
  then show ?case by (subst strchr.simps) simp
next
  case (Cons b bs)
  then show ?case using Cons.IH[of "s + 1"] by (subst strchr.simps) simp
qed

lemma strfind_ok:
  assumes "cstr m s bs" "c \<noteq> 0"
  shows "strfind m s c = Some (s + length (takeWhile (\<lambda>x. x \<noteq> c) bs))"
  using assms
proof (induction bs arbitrary: s)
  case Nil
  then show ?case by (subst strfind.simps) simp
next
  case (Cons b bs)
  then show ?case using Cons.IH[of "s + 1"] by (subst strfind.simps) simp
qed

section \<open>Properties\<close>

text \<open>C35. \<open>memmove\<close> copies the block as it was before the call, whether or not source and
  destination overlap, and changes no other byte.\<close>

theorem memmove_copies:
  "memmove dst src n m = (dst, \<lambda>x. if dst \<le> x \<and> x < dst + n then m (src + (x - dst)) else m x)"
  using memmove_at[of dst src n m] by (intro prod_eqI ext) (auto simp: memmove_def)

text \<open>\<open>strncpy\<close> fills exactly \<open>n\<close> bytes of a field that does not overlap the source: with the
  string, cut off at \<open>n\<close> characters or padded with zeros.\<close>

theorem strncpy_fills:
  assumes "cstr m src bs" "dst + n \<le> src \<or> src + length bs < dst"
  shows "bytes (snd (strncpy dst src n m)) dst n = take n (bs @ replicate n 0)
    \<and> (\<forall>x. x < dst \<or> dst + n \<le> x \<longrightarrow> snd (strncpy dst src n m) x = m x)"
  using strncpy_loop_ok[OF assms] by (simp add: strncpy_def)

definition ab_mem :: mem where
  "ab_mem = (\<lambda>x. if x = 10 then 97 else if x = 11 then 98 else if x = 20 then 97 else 0)"

theorem strncpy_fills_witness: "bytes (snd (strncpy 30 10 4 ab_mem)) 30 4 = [97, 98, 0, 0]"
proof -
  have "cstr ab_mem 10 [97, 98]" by (simp add: ab_mem_def)
  moreover have "take 4 ([97, 98] @ replicate 4 0) = [97, 98, 0, 0 :: 8 word]" by code_simp
  ultimately show ?thesis using strncpy_fills[of ab_mem 10 "[97, 98]" 30 4] by (simp del: take_append)
qed

end
