(* ===== verification/Printfmt.thy ===== *)
theory Printfmt
  imports Strings
begin

text \<open>
  Formatted output, \<open>libs/printfmt.c\<close>.  As in the code, \<open>vprintfmt\<close> works with a function \<open>putch\<close> that consumes one
  character at a time and may change the state \<open>'s\<close>; the format and the strings to be printed are read
  from this state when their turn comes, through a function \<open>rd\<close> that has no value where
  nothing can be read.  Variadic arguments are 64-bit slots, as the calling convention has them, or string
  constants of the code itself.
\<close>

section \<open>Definitions\<close>

abbreviation MAXERROR :: int where "MAXERROR \<equiv> 24"

abbreviation lit :: "string \<Rightarrow> 8 word list" where "lit s \<equiv> map of_char s"

definition error_string :: "int \<Rightarrow> 8 word list option" where
  "error_string e =
     (if e = E_UNSPECIFIED then Some (lit ''unspecified error'')
      else if e = E_BAD_PROC then Some (lit ''bad process'')
      else if e = E_INVAL then Some (lit ''invalid parameter'')
      else if e = E_NO_MEM then Some (lit ''out of memory'')
      else if e = E_NO_FREE_PROC then Some (lit ''out of processes'')
      else if e = E_FAULT then Some (lit ''segmentation fault'')
      else if e = E_INVAL_ELF then Some (lit ''invalid elf file'')
      else if e = E_KILLED then Some (lit ''process is killed'')
      else if e = 10 then Some (lit ''panic failure'')
      else if e = E_NO_DEV then Some (lit ''no such device'')
      else if e = E_NA_DEV then Some (lit ''device not available'')
      else if e = E_BUSY then Some (lit ''device/file is busy'')
      else if e = E_NOENT then Some (lit ''no such file or directory'')
      else if e = E_ISDIR then Some (lit ''is a directory'')
      else if e = E_NOTDIR then Some (lit ''not a directory'')
      else if e = E_XDEV then Some (lit ''cross device link'')
      else if e = E_UNIMP then Some (lit ''unimplemented feature'')
      else if e = E_SEEK then Some (lit ''illegal seek'')
      else if e = E_MAX_OPEN then Some (lit ''too many files are open'')
      else if e = E_EXISTS then Some (lit ''file or directory already exists'')
      else if e = E_NOTEMPTY then Some (lit ''directory is not empty'')
      else None)"

definition digit_char :: "nat \<Rightarrow> 8 word option" where
  "digit_char d = (let s = lit ''0123456789abcdef'' in if d < length s then Some (s ! d) else None)"

partial_function (option) printnum :: "nat \<Rightarrow> nat \<Rightarrow> int \<Rightarrow> 8 word \<Rightarrow> 8 word list option" where
  "printnum num base width padc =
     (if base = 0 then None
      else do {
        pre \<leftarrow> (if num \<ge> base then printnum (num div base) base (width - 1) padc
               else Some (replicate (nat (width - 1)) padc));
        d \<leftarrow> digit_char (num mod base);
        Some (pre @ [d]) })"

declare printnum.simps [code]

datatype vararg = Slot "64 word" | Const "8 word list"

definition getuint :: "vararg list \<Rightarrow> nat \<Rightarrow> (nat \<times> vararg list) option" where
  "getuint ap lflag =
     (case ap of Slot w # rest \<Rightarrow>
        Some (if lflag \<ge> 1 then unat w else unat (ucast w :: 32 word), rest) | _ \<Rightarrow> None)"

definition getint :: "vararg list \<Rightarrow> nat \<Rightarrow> (int \<times> vararg list) option" where
  "getint ap lflag =
     (case ap of Slot w # rest \<Rightarrow>
        Some (if lflag \<ge> 1 then sint w else sint (ucast w :: 32 word), rest) | _ \<Rightarrow> None)"

text \<open>A pointer into memory or into a string constant of the code, and the byte it points to.\<close>

datatype cptr = Ptr nat | Lit "8 word list" nat

fun padd :: "cptr \<Rightarrow> nat \<Rightarrow> cptr" where
  "padd (Ptr a) n = Ptr (a + n)"
| "padd (Lit bs i) n = Lit bs (i + n)"

fun pprev :: "cptr \<Rightarrow> cptr" where
  "pprev (Ptr a) = Ptr (a - 1)"
| "pprev (Lit bs i) = Lit bs (i - 1)"

fun load :: "('s \<Rightarrow> nat \<Rightarrow> 8 word option) \<Rightarrow> 's \<Rightarrow> cptr \<Rightarrow> 8 word option" where
  "load rd s (Ptr a) = rd s a"
| "load rd s (Lit bs i) = (if i < length bs then Some (bs ! i) else if i = length bs then Some 0 else None)"

definition getstr :: "vararg list \<Rightarrow> (cptr \<times> vararg list) option" where
  "getstr ap =
     (case ap of [] \<Rightarrow> None
      | Const bs # rest \<Rightarrow> Some (Lit bs 0, rest)
      | Slot w # rest \<Rightarrow> Some (if w = 0 then Lit (lit ''(null)'') 0 else Ptr (unat w), rest))"

record fspec =
  padc :: "8 word"
  width :: int
  precision :: int
  lflag :: nat
  altflag :: bool

definition fspec0 :: fspec where
  "fspec0 = \<lparr>padc = 32, width = -1, precision = -1, lflag = 0, altflag = False\<rparr>"

definition process_precision :: "fspec \<Rightarrow> fspec" where
  "process_precision sp = (if width sp < 0 then sp\<lparr>width := precision sp, precision := -1\<rparr> else sp)"

text \<open>The digits of a width or precision field.\<close>

partial_function (option) read_field :: "('s \<Rightarrow> nat \<Rightarrow> 8 word option) \<Rightarrow> 's \<Rightarrow> cptr \<Rightarrow> int \<Rightarrow> 8 word \<Rightarrow> (int \<times> cptr) option" where
  "read_field rd s f acc ch =
     (let acc' = acc * 10 + uint ch - 48
      in do {
        c \<leftarrow> load rd s f;
        if c < 48 \<or> c > 57 then Some (acc', f) else read_field rd s (padd f 1) acc' c })"

text \<open>\<open>strnlen\<close> of a string, where a negative limit is none.\<close>

partial_function (option) span_len :: "('s \<Rightarrow> nat \<Rightarrow> 8 word option) \<Rightarrow> 's \<Rightarrow> cptr \<Rightarrow> int \<Rightarrow> int \<Rightarrow> int option" where
  "span_len rd s p lim n =
     (if 0 \<le> lim \<and> lim \<le> n then Some n
      else do { c \<leftarrow> load rd s p; if c \<noteq> 0 then span_len rd s (padd p 1) lim (n + 1) else Some n })"

text \<open>The loop that prints a string: at most \<open>precision\<close> characters, if it is not negative.\<close>

partial_function (option) put_string ::
  "(8 word \<Rightarrow> 's \<Rightarrow> 's) \<Rightarrow> ('s \<Rightarrow> nat \<Rightarrow> 8 word option) \<Rightarrow> cptr \<Rightarrow> int \<Rightarrow> bool \<Rightarrow> int \<Rightarrow> 's \<Rightarrow> (int \<times> 's) option" where
  "put_string putch rd p prec alt w s = do {
     c \<leftarrow> load rd s p;
     if c \<noteq> 0 \<and> (prec < 0 \<or> prec - 1 \<ge> 0)
     then put_string putch rd (padd p 1) (if prec < 0 then prec else prec - 1) alt (w - 1)
            (putch (if alt \<and> (c < 32 \<or> c > 126) then 63 else c) s)
     else Some (w, s) }"

definition print_string :: "(8 word \<Rightarrow> 's \<Rightarrow> 's) \<Rightarrow> ('s \<Rightarrow> nat \<Rightarrow> 8 word option) \<Rightarrow> cptr \<Rightarrow> fspec \<Rightarrow> 's \<Rightarrow> 's option" where
  "print_string putch rd p sp s = do {
     (w1, s1) \<leftarrow> (if width sp > 0 \<and> padc sp \<noteq> 45
                 then do {
                   l \<leftarrow> span_len rd s p (precision sp) 0;
                   let w = width sp - l;
                   Some (min w 0, fold putch (replicate (nat w) (padc sp)) s) }
                 else Some (width sp, s));
     (w2, s2) \<leftarrow> put_string putch rd p (precision sp) (altflag sp) w1 s1;
     Some (fold putch (replicate (nat w2) 32) s2) }"

text \<open>Backing up over an unknown escape to the character behind its percent sign.\<close>

partial_function (option) back_to_percent :: "('s \<Rightarrow> nat \<Rightarrow> 8 word option) \<Rightarrow> 's \<Rightarrow> cptr \<Rightarrow> cptr option" where
  "back_to_percent rd s f = do { c \<leftarrow> load rd s (pprev f); if c = 37 then Some f else back_to_percent rd s (pprev f) }"

declare read_field.simps [code] span_len.simps [code] put_string.simps [code] back_to_percent.simps [code]

text \<open>One turn of the \<open>switch\<close> of \<open>vprintfmt\<close> (label \<open>reswitch\<close>): it reads on, or prints characters or a string and goes back
  to copying text, or calls \<open>printfmt\<close> with a format of its own first, or meets an unknown escape.\<close>

datatype escape_action =
    Reswitch cptr fspec "vararg list"
  | Emit "8 word list" cptr "vararg list"
  | Print cptr cptr "vararg list"
  | Nested "8 word list" "vararg list" cptr "vararg list"
  | Unknown cptr "vararg list"

definition vprintfmt_escape :: "('s \<Rightarrow> nat \<Rightarrow> 8 word option) \<Rightarrow> 's \<Rightarrow> cptr \<Rightarrow> fspec \<Rightarrow> vararg list \<Rightarrow> escape_action option" where
  "vprintfmt_escape rd s f0 sp ap = do {
     ch \<leftarrow> load rd s f0;
     let f = padd f0 1;
     if ch = 45 then Some (Reswitch f (sp\<lparr>padc := 45\<rparr>) ap)
     else if ch = 48 then Some (Reswitch f (sp\<lparr>padc := 48\<rparr>) ap)
     else if 49 \<le> ch \<and> ch \<le> 57 then do {
       (p, f') \<leftarrow> read_field rd s f 0 ch;
       Some (Reswitch f' (process_precision (sp\<lparr>precision := p\<rparr>)) ap) }
     else if ch = 42 then do {
       (p, ap') \<leftarrow> getint ap 0;
       Some (Reswitch f (process_precision (sp\<lparr>precision := p\<rparr>)) ap') }
     else if ch = 46 then Some (Reswitch f (if width sp < 0 then sp\<lparr>width := 0\<rparr> else sp) ap)
     else if ch = 35 then Some (Reswitch f (sp\<lparr>altflag := True\<rparr>) ap)
     else if ch = 108 then Some (Reswitch f (sp\<lparr>lflag := lflag sp + 1\<rparr>) ap)
     else if ch = 99 then do {
       (v, ap') \<leftarrow> getint ap 0;
       Some (Emit [word_of_int v] f ap') }
     else if ch = 101 then do {
       (v, ap') \<leftarrow> getint ap 0;
       let err = (if v < 0 then - v else v);
       Some (case (if err > MAXERROR then None else error_string err) of
               None \<Rightarrow> Nested (lit ''error %d'') [Slot (word_of_int err)] f ap'
             | Some bs \<Rightarrow> Nested (lit ''%s'') [Const bs] f ap') }
     else if ch = 115 then do {
       (p, ap') \<leftarrow> getstr ap;
       Some (Print p f ap') }
     else if ch = 100 then do {
       (v, ap') \<leftarrow> getint ap (lflag sp);
       txt \<leftarrow> printnum (nat (if v < 0 then - v else v)) 10 (width sp) (padc sp);
       Some (Emit ((if v < 0 then [45] else []) @ txt) f ap') }
     else if ch = 117 \<or> ch = 111 \<or> ch = 120 then do {
       (v, ap') \<leftarrow> getuint ap (lflag sp);
       txt \<leftarrow> printnum v (if ch = 117 then 10 else if ch = 111 then 8 else 16) (width sp) (padc sp);
       Some (Emit txt f ap') }
     else if ch = 112 then do {
       (v, ap') \<leftarrow> getuint ap 1;
       txt \<leftarrow> printnum v 16 (width sp) (padc sp);
       Some (Emit ([48, 120] @ txt) f ap') }
     else if ch = 37 then Some (Emit [37] f ap)
     else Some (Unknown f0 ap) }"

text \<open>The loops of \<open>vprintfmt\<close>: copying text, and reading an escape.  \<open>vprintfmt_turn\<close> is what one turn of the switch does to
  the state; its last result is the call of \<open>printfmt\<close> for \<open>%e\<close>.\<close>

datatype fmt_mode = Text | Escape fspec

definition vprintfmt_turn :: "(8 word \<Rightarrow> 's \<Rightarrow> 's) \<Rightarrow> ('s \<Rightarrow> nat \<Rightarrow> 8 word option) \<Rightarrow> cptr \<Rightarrow> fspec \<Rightarrow> 's \<Rightarrow> vararg list
    \<Rightarrow> (cptr \<times> fmt_mode \<times> 's \<times> vararg list \<times> (8 word list \<times> vararg list) option) option" where
  "vprintfmt_turn putch rd f sp s ap = do {
     a \<leftarrow> vprintfmt_escape rd s f sp ap;
     (case a of
        Reswitch f' sp' ap' \<Rightarrow> Some (f', Escape sp', s, ap', None)
      | Emit txt f' ap' \<Rightarrow> Some (f', Text, fold putch txt s, ap', None)
      | Print p f' ap' \<Rightarrow> do { s1 \<leftarrow> print_string putch rd p sp s; Some (f', Text, s1, ap', None) }
      | Nested fmt args f' ap' \<Rightarrow> Some (f', Text, s, ap', Some (fmt, args))
      | Unknown f' ap' \<Rightarrow> do { f1 \<leftarrow> back_to_percent rd (putch 37 s) f'; Some (f1, Text, putch 37 s, ap', None) }) }"

partial_function (option) vprintfmt :: "(8 word \<Rightarrow> 's \<Rightarrow> 's) \<Rightarrow> ('s \<Rightarrow> nat \<Rightarrow> 8 word option) \<Rightarrow> cptr \<Rightarrow> fmt_mode \<Rightarrow> 's \<Rightarrow> vararg list \<Rightarrow> 's option" where
  "vprintfmt putch rd f mode s ap =
     (case mode of
        Text \<Rightarrow> do {
          c \<leftarrow> load rd s f;
          if c = 37 then vprintfmt putch rd (padd f 1) (Escape fspec0) s ap
          else if c = 0 then Some s
          else vprintfmt putch rd (padd f 1) Text (putch c s) ap }
      | Escape sp \<Rightarrow> do {
          (f', mode', s', ap', call) \<leftarrow> vprintfmt_turn putch rd f sp s ap;
          s1 \<leftarrow> (case call of None \<Rightarrow> Some s' | Some c \<Rightarrow> vprintfmt putch rd (Lit (fst c) 0) Text s' (snd c));
          vprintfmt putch rd f' mode' s1 ap' })"

declare vprintfmt.simps [code]

text \<open>Printing into a buffer.\<close>

record sprintbuf =
  buf :: nat
  ebuf :: nat
  cnt :: int

definition sprintputch :: "8 word \<Rightarrow> sprintbuf \<times> mem \<Rightarrow> sprintbuf \<times> mem" where
  "sprintputch ch = (\<lambda>(b, m).
     let b1 = b\<lparr>cnt := cnt b + 1\<rparr>
     in if buf b1 < ebuf b1 then (b1\<lparr>buf := buf b1 + 1\<rparr>, m(buf b1 := ch)) else (b1, m))"

text \<open>\<open>vsnprintf\<close>: the end of the buffer is a 64-bit sum.\<close>

definition read_mem :: "sprintbuf \<times> mem \<Rightarrow> nat \<Rightarrow> 8 word option" where
  "read_mem s a = Some (snd s a)"

definition vsnprintf :: "nat \<Rightarrow> nat \<Rightarrow> nat \<Rightarrow> vararg list \<Rightarrow> mem \<Rightarrow> (int \<times> mem) option" where
  "vsnprintf str sz fmt ap m =
     (let b0 = \<lparr>buf = str, ebuf = (str + sz + (2 ^ 64 - 1)) mod 2 ^ 64, cnt = 0\<rparr>
      in if str = 0 \<or> buf b0 > ebuf b0 then Some (- E_INVAL, m)
      else do {
        (b, m1) \<leftarrow> vprintfmt sprintputch read_mem (Ptr fmt) Text (b0, m) ap;
        Some (cnt b, m1(buf b := 0)) })"

section \<open>Numbers\<close>

text \<open>The value a list of digit characters denotes, most significant first.\<close>

fun digits_value :: "nat \<Rightarrow> 8 word list \<Rightarrow> nat option" where
  "digits_value base [] = Some 0"
| "digits_value base (c # cs) =
     (case digit_of c of None \<Rightarrow> None
      | Some d \<Rightarrow> if d < base then map_option (\<lambda>v. d * base ^ length cs + v) (digits_value base cs) else None)"

lemma digits_value_snoc:
  "digits_value b cs = Some v \<Longrightarrow> digit_of c = Some d \<Longrightarrow> d < b \<Longrightarrow>
     digits_value b (cs @ [c]) = Some (v * b + d)"
  by (induction cs arbitrary: v) (auto simp: algebra_simps split: option.splits if_splits)

lemma digit_char_of: "d < 16 \<Longrightarrow> \<exists>c. digit_char d = Some c \<and> digit_of c = Some d"
proof -
  have "list_all (\<lambda>d. case digit_char d of None \<Rightarrow> False | Some c \<Rightarrow> digit_of c = Some d) [0..<16]" by code_simp
  then have "d < 16 \<Longrightarrow> (case digit_char d of None \<Rightarrow> False | Some c \<Rightarrow> digit_of c = Some d)"
    unfolding list_all_iff by simp
  then show "d < 16 \<Longrightarrow> \<exists>c. digit_char d = Some c \<and> digit_of c = Some d"
    by (cases "digit_char d") auto
qed

text \<open>\<open>printnum\<close> prints the padding and then the digits of the number.\<close>

lemma printnum_ok:
  assumes "2 \<le> base" "base \<le> 16"
  shows "\<exists>ds. printnum num base w pad = Some (replicate (nat (w - int (length ds))) pad @ ds)
    \<and> ds \<noteq> [] \<and> digits_value base ds = Some num"
proof (induction num arbitrary: w rule: less_induct)
  case (less num)
  have "num mod base < base" using assms by simp
  then have "num mod base < 16" using assms by linarith
  then obtain c where c: "digit_char (num mod base) = Some c" "digit_of c = Some (num mod base)"
    using digit_char_of by blast
  show ?case
  proof (cases "num < base")
    case True
    then have "printnum num base w pad = Some (replicate (nat (w - 1)) pad @ [c])"
      using assms c by (subst printnum.simps) simp
    then show ?thesis using True c by (intro exI[of _ "[c]"]) simp
  next
    case False
    then have "num div base < num" using assms by (intro div_less_dividend) auto
    from less[OF this, of "w - 1"] obtain ds where
      ds: "printnum (num div base) base (w - 1) pad = Some (replicate (nat (w - 1 - int (length ds))) pad @ ds)"
        "digits_value base ds = Some (num div base)" by blast
    have "printnum num base w pad = Some (replicate (nat (w - int (length (ds @ [c])))) pad @ ds @ [c])"
      using False assms c ds(1) by (subst printnum.simps) (simp add: algebra_simps)
    moreover have "digits_value base (ds @ [c]) = Some num"
      using digits_value_snoc[OF ds(2) c(2)] assms by simp
    ultimately show ?thesis by (intro exI[of _ "ds @ [c]"]) simp
  qed
qed

section \<open>Scanning what was printed\<close>

lemma strtol_digits_ok:
  assumes "digits_value b ds = Some v" "bytes m s (length ds) = ds" "digit_of (m (s + length ds)) = None"
  shows "strtol_digits m s (int b) acc = Some (s + length ds, acc * word_of_nat (b ^ length ds) + word_of_nat v)"
  using assms
proof (induction ds arbitrary: s acc v)
  case Nil
  then show ?case by (subst strtol_digits.simps) simp
next
  case (Cons c ds)
  from Cons.prems(1) obtain d u where d: "digit_of c = Some d" "d < b" "digits_value b ds = Some u"
    "v = d * b ^ length ds + u" by (auto split: option.splits if_splits)
  have m: "m s = c" "bytes m (s + 1) (length ds) = ds" using Cons.prems(2) by (auto simp: bytes_Suc)
  have "strtol_digits m s (int b) acc = strtol_digits m (s + 1) (int b) (acc * word_of_int (int b) + word_of_nat d)"
    using d(1,2) m(1) by (subst strtol_digits.simps) simp
  also have "\<dots> = Some (s + 1 + length ds, (acc * word_of_int (int b) + word_of_nat d) * word_of_nat (b ^ length ds) + word_of_nat u)"
    using Cons.IH[OF d(3) m(2)] Cons.prems(3) by simp
  finally show ?case using d(4) by (simp add: algebra_simps)
qed

lemma digit_of_blank: "digit_of c = Some d \<Longrightarrow> c \<noteq> 0 \<and> c \<noteq> 32 \<and> c \<noteq> 9 \<and> c \<noteq> 43 \<and> c \<noteq> 45"
  by (auto simp: digit_of_def)

lemma digits_value_nz: "digits_value b ds = Some v \<Longrightarrow> 0 \<notin> set ds"
  by (induction ds arbitrary: v) (auto split: option.splits if_splits dest: digit_of_blank)

lemma digits_value_hd: "digits_value b ds = Some v \<Longrightarrow> ds \<noteq> [] \<Longrightarrow> \<exists>d. digit_of (hd ds) = Some d"
  by (cases ds) (auto split: option.splits)

lemma strtol_decimal:
  assumes "digits_value 10 ds = Some v" "ds \<noteq> []" "cstr m s ((if neg then [45] else []) @ ds)"
  shows "strtol m s 10 = Some (if neg then - word_of_nat v else word_of_nat v, s + length ((if neg then [45] else []) @ ds))"
proof -
  let ?k = "if neg then 1 else 0 :: nat"
  have l: "length (if neg then [45 :: 8 word] else []) = ?k" by simp
  have d: "bytes m (s + ?k) (length ds) = ds" "m (s + ?k + length ds) = 0" "neg \<longrightarrow> m s = 45"
    using assms(3) by (auto simp: cstr_iff bytes_Suc split: if_splits)
  then have hd: "m (s + ?k) = hd ds" using assms(2) by (cases ds) (auto simp: bytes_Suc)
  obtain dd where dd: "digit_of (hd ds) = Some dd" using digits_value_hd[OF assms(1,2)] by blast
  note nb = digit_of_blank[OF dd]
  have "skip_blanks m s = Some s" using d(3) hd nb by (subst skip_blanks.simps) (auto split: if_splits)
  moreover have "strtol_sign m s = (neg, s + ?k)" using d(3) hd nb by (auto simp: strtol_sign_def split: if_splits)
  moreover have "strtol_prefix m (s + ?k) 10 = (s + ?k, 10)" by (simp add: strtol_prefix_def)
  moreover have "strtol_digits m (s + ?k) 10 0 = Some (s + ?k + length ds, word_of_nat v)"
    using strtol_digits_ok[OF assms(1) d(1), of 0] d(2) by (simp add: digit_of_def)
  ultimately show ?thesis by (simp add: strtol_def)
qed

section \<open>Storing characters\<close>

lemma sprintputch_fold:
  assumes "buf b \<le> ebuf b"
  shows "fold sprintputch out (b, m) =
    (b\<lparr>cnt := cnt b + int (length out), buf := buf b + min (length out) (ebuf b - buf b)\<rparr>,
     \<lambda>x. if buf b \<le> x \<and> x < buf b + min (length out) (ebuf b - buf b) then out ! (x - buf b) else m x)"
  using assms
proof (induction out arbitrary: b m)
  case (Cons c out)
  show ?case
  proof (cases "buf b < ebuf b")
    case True
    let ?b = "b\<lparr>cnt := cnt b + 1, buf := buf b + 1\<rparr>" and ?m = "m(buf b := c)"
    have e: "fold sprintputch (c # out) (b, m) = fold sprintputch out (?b, ?m)"
      using True by (simp add: sprintputch_def Let_def)
    have le: "buf ?b \<le> ebuf ?b" using True by simp
    have sz: "min (length (c # out)) (ebuf b - buf b) = Suc (min (length out) (ebuf b - (buf b + 1)))"
      using True by auto
    have "(if buf b + 1 \<le> x \<and> x < buf b + 1 + min (length out) (ebuf b - (buf b + 1)) then out ! (x - (buf b + 1)) else ?m x)
        = (if buf b \<le> x \<and> x < buf b + Suc (min (length out) (ebuf b - (buf b + 1))) then (c # out) ! (x - buf b) else m x)" for x
      by (cases "x = buf b") (auto simp: nth_Cons')
    then show ?thesis unfolding e Cons.IH[OF le, of ?m] sz by (auto cong: if_cong)
  next
    case False
    let ?b = "b\<lparr>cnt := cnt b + 1\<rparr>"
    have e: "fold sprintputch (c # out) (b, m) = fold sprintputch out (?b, m)"
      using False by (simp add: sprintputch_def Let_def)
    have "buf ?b \<le> ebuf ?b" using Cons.prems by simp
    from Cons.IH[OF this, of m] show ?thesis unfolding e using False by (auto simp: fun_eq_iff)
  qed
qed (auto simp: fun_eq_iff)


section \<open>Formatting does not depend on where it prints\<close>

text \<open>Two ways of printing and reading: whatever can be read in the first state can be read in the second one.\<close>

locale output_sim =
  fixes pa :: "8 word \<Rightarrow> 'a \<Rightarrow> 'a" and ra :: "'a \<Rightarrow> nat \<Rightarrow> 8 word option"
    and pb :: "8 word \<Rightarrow> 'b \<Rightarrow> 'b" and rb :: "'b \<Rightarrow> nat \<Rightarrow> 8 word option"
    and rel :: "'a \<Rightarrow> 'b \<Rightarrow> bool"
  assumes put: "rel s t \<Longrightarrow> rel (pa c s) (pb c t)"
    and reads: "rel s t \<Longrightarrow> ra s a = Some c \<Longrightarrow> rb t a = Some c"
begin

lemma sim_load: "rel s t \<Longrightarrow> load ra s p = Some c \<Longrightarrow> load rb t p = Some c"
  using reads by (cases p) auto

lemma sim_fold: "rel s t \<Longrightarrow> rel (fold pa cs s) (fold pb cs t)"
  by (induction cs arbitrary: s t) (auto intro: put)

lemma sim_field:
  assumes "read_field ra s f acc ch = Some r" "rel s t"
  shows "read_field rb t f acc ch = Some r"
proof -
  have "\<forall>t. ra = ra \<longrightarrow> rel s t \<longrightarrow> read_field rb t f acc ch = Some r"
  proof (rule read_field.raw_induct[where P = "\<lambda>rd s f acc ch r. \<forall>t. rd = ra \<longrightarrow> rel s t \<longrightarrow> read_field rb t f acc ch = Some r", OF _ assms(1)],
      intro allI impI, goal_cases)
    case (1 rec rd s f acc ch r t)
    then obtain c where c: "load ra s f = Some c" by (auto simp: bind_eq_Some_conv Let_def)
    show ?case using 1 c sim_load[OF 1(4) c] by (subst read_field.simps) (auto simp: Let_def split: if_splits)
  qed
  then show ?thesis using assms(2) by blast
qed

lemma sim_span:
  assumes "span_len ra s p lim n = Some r" "rel s t"
  shows "span_len rb t p lim n = Some r"
proof -
  have "\<forall>t. ra = ra \<longrightarrow> rel s t \<longrightarrow> span_len rb t p lim n = Some r"
  proof (rule span_len.raw_induct[where P = "\<lambda>rd s p lim n r. \<forall>t. rd = ra \<longrightarrow> rel s t \<longrightarrow> span_len rb t p lim n = Some r", OF _ assms(1)],
      intro allI impI, goal_cases)
    case (1 rec rd s p lim n r t)
    then show ?case
      by (subst span_len.simps) (auto simp: bind_eq_Some_conv sim_load split: if_splits)
  qed
  then show ?thesis using assms(2) by blast
qed

lemma sim_back:
  assumes "back_to_percent ra s f = Some r" "rel s t"
  shows "back_to_percent rb t f = Some r"
proof -
  have "\<forall>t. ra = ra \<longrightarrow> rel s t \<longrightarrow> back_to_percent rb t f = Some r"
  proof (rule back_to_percent.raw_induct[where P = "\<lambda>rd s f r. \<forall>t. rd = ra \<longrightarrow> rel s t \<longrightarrow> back_to_percent rb t f = Some r", OF _ assms(1)],
      intro allI impI, goal_cases)
    case (1 rec rd s f r t)
    then show ?case
      by (subst back_to_percent.simps) (auto simp: bind_eq_Some_conv sim_load split: if_splits)
  qed
  then show ?thesis using assms(2) by blast
qed

lemma sim_put_string:
  assumes "put_string pa ra p prec alt w s = Some r" "rel s t"
  shows "\<exists>t'. put_string pb rb p prec alt w t = Some (fst r, t') \<and> rel (snd r) t'"
proof -
  have "\<forall>t. pa = pa \<longrightarrow> ra = ra \<longrightarrow> rel s t \<longrightarrow> (\<exists>t'. put_string pb rb p prec alt w t = Some (fst r, t') \<and> rel (snd r) t')"
  proof (rule put_string.raw_induct[where P = "\<lambda>pu rd p prec alt w s r. \<forall>t. pu = pa \<longrightarrow> rd = ra \<longrightarrow> rel s t
        \<longrightarrow> (\<exists>t'. put_string pb rb p prec alt w t = Some (fst r, t') \<and> rel (snd r) t')", OF _ assms(1)],
      intro allI impI, goal_cases)
    case (1 rec pu rd p prec alt w s r t)
    then obtain c where c: "load ra s p = Some c" by (auto simp: bind_eq_Some_conv)
    let ?c = "if alt \<and> (c < 32 \<or> c > 126) then 63 else c"
    show ?case
    proof (cases "c \<noteq> 0 \<and> (prec < 0 \<or> prec - 1 \<ge> 0)")
      case True
      then have "rec pa ra (padd p 1) (if prec < 0 then prec else prec - 1) alt (w - 1) (pa ?c s) = Some r" using 1(2-5) c by simp
      from 1(1)[OF this] put[OF 1(5)] obtain t' where
        "put_string pb rb (padd p 1) (if prec < 0 then prec else prec - 1) alt (w - 1) (pb ?c t) = Some (fst r, t')" "rel (snd r) t'" by blast
      then show ?thesis using True sim_load[OF 1(5) c] by (subst put_string.simps) auto
    next
      case False
      then show ?thesis using 1(2-5) c sim_load[OF 1(5) c] by (subst put_string.simps) auto
    qed
  qed
  then show ?thesis using assms(2) by blast
qed

lemma sim_string:
  assumes "print_string pa ra p sp s = Some s'" "rel s t"
  shows "\<exists>t'. print_string pb rb p sp t = Some t' \<and> rel s' t'"
proof -
  from assms(1) obtain w1 s1 w2 s2 where
    d: "(if width sp > 0 \<and> padc sp \<noteq> 45
          then do { l \<leftarrow> span_len ra s p (precision sp) 0;
                    let w = width sp - l;
                    Some (min w 0, fold pa (replicate (nat w) (padc sp)) s) }
          else Some (width sp, s)) = Some (w1, s1)"
      "put_string pa ra p (precision sp) (altflag sp) w1 s1 = Some (w2, s2)" "s' = fold pa (replicate (nat w2) 32) s2"
    by (auto simp: print_string_def bind_eq_Some_conv simp del: fold_replicate)
  have "\<exists>t1. (if width sp > 0 \<and> padc sp \<noteq> 45
          then do { l \<leftarrow> span_len rb t p (precision sp) 0;
                    let w = width sp - l;
                    Some (min w 0, fold pb (replicate (nat w) (padc sp)) t) }
          else Some (width sp, t)) = Some (w1, t1) \<and> rel s1 t1"
    using d(1) assms(2) sim_span[OF _ assms(2)] sim_fold[OF assms(2)]
    by (auto simp: bind_eq_Some_conv Let_def split: if_splits simp del: fold_replicate)
  then obtain t1 where t1: "(if width sp > 0 \<and> padc sp \<noteq> 45
          then do { l \<leftarrow> span_len rb t p (precision sp) 0;
                    let w = width sp - l;
                    Some (min w 0, fold pb (replicate (nat w) (padc sp)) t) }
          else Some (width sp, t)) = Some (w1, t1)" "rel s1 t1" by blast
  from sim_put_string[OF d(2) t1(2)] obtain t2 where
    "put_string pb rb p (precision sp) (altflag sp) w1 t1 = Some (w2, t2)" "rel s2 t2" by auto
  then show ?thesis unfolding print_string_def t1(1) d(3) using sim_fold[of s2 t2] by (simp del: fold_replicate)
qed

lemma sim_escape:
  assumes "vprintfmt_escape ra s f sp ap = Some a" "rel s t"
  shows "vprintfmt_escape rb t f sp ap = Some a"
proof -
  from assms(1) obtain ch where ch: "load ra s f = Some ch" by (auto simp: vprintfmt_escape_def bind_eq_Some_conv)
  have "read_field rb t g 0 ch = Some r" if "read_field ra s g 0 ch = Some r" for g r using that assms(2) by (rule sim_field)
  then show ?thesis using assms(1) unfolding vprintfmt_escape_def ch sim_load[OF assms(2) ch] bind.simps Let_def
    by (auto split: if_splits simp: bind_eq_Some_conv)
qed

lemma sim_turn:
  assumes "vprintfmt_turn pa ra f sp s ap = Some (f', mode, s', ap', call)" "rel s t"
  shows "\<exists>t'. vprintfmt_turn pb rb f sp t ap = Some (f', mode, t', ap', call) \<and> rel s' t'"
proof -
  from assms(1) obtain a where a: "vprintfmt_escape ra s f sp ap = Some a" by (auto simp: vprintfmt_turn_def bind_eq_Some_conv)
  show ?thesis using assms(1) unfolding vprintfmt_turn_def a sim_escape[OF a assms(2)] bind.simps
    using assms(2) sim_fold[OF assms(2)] sim_string[OF _ assms(2)] sim_back[OF _ put[OF assms(2)]] put[OF assms(2)]
    by (cases a) (fastforce simp: bind_eq_Some_conv)+
qed

lemma sim_vprintfmt:
  assumes "vprintfmt pa ra f mode s ap = Some s'" "rel s t"
  shows "\<exists>t'. vprintfmt pb rb f mode t ap = Some t' \<and> rel s' t'"
proof -
  have "\<forall>t. pa = pa \<longrightarrow> ra = ra \<longrightarrow> rel s t \<longrightarrow> (\<exists>t'. vprintfmt pb rb f mode t ap = Some t' \<and> rel s' t')"
  proof (rule vprintfmt.raw_induct[where P = "\<lambda>pu rd f mode s ap s'. \<forall>t. pu = pa \<longrightarrow> rd = ra \<longrightarrow> rel s t
        \<longrightarrow> (\<exists>t'. vprintfmt pb rb f mode t ap = Some t' \<and> rel s' t')", OF _ assms(1)],
      intro allI impI, goal_cases)
    case (1 rec pu rd f mode s ap s' t)
    have IH: "\<exists>t'. vprintfmt pb rb f mode t ap = Some t' \<and> rel s' t'" if "rec pa ra f mode s ap = Some s'" "rel s t" for f mode s ap s' t
      using 1(1)[OF that(1)] that(2) by blast
    show ?case
    proof (cases mode)
      case Text
      with 1(2-4) obtain c where c: "load ra s f = Some c" by (auto simp: bind_eq_Some_conv)
      show ?thesis using 1(2-5) Text c sim_load[OF 1(5) c] IH put[OF 1(5)]
        by (subst vprintfmt.simps) (auto split: if_splits)
    next
      case (Escape sp)
      with 1(2-4) obtain f1 m1 s1 ap1 call s2 where
        d: "vprintfmt_turn pa ra f sp s ap = Some (f1, m1, s1, ap1, call)"
          "(case call of None \<Rightarrow> Some s1 | Some c \<Rightarrow> rec pa ra (Lit (fst c) 0) Text s1 (snd c)) = Some s2"
          "rec pa ra f1 m1 s2 ap1 = Some s'" by (auto simp: bind_eq_Some_conv)
      from sim_turn[OF d(1) 1(5)] obtain t1 where t1: "vprintfmt_turn pb rb f sp t ap = Some (f1, m1, t1, ap1, call)" "rel s1 t1" by blast
      have "\<exists>t2. (case call of None \<Rightarrow> Some t1 | Some c \<Rightarrow> vprintfmt pb rb (Lit (fst c) 0) Text t1 (snd c)) = Some t2 \<and> rel s2 t2"
        using d(2) t1(2) IH by (cases call) auto
      then obtain t2 where t2: "(case call of None \<Rightarrow> Some t1 | Some c \<Rightarrow> vprintfmt pb rb (Lit (fst c) 0) Text t1 (snd c)) = Some t2"
        "rel s2 t2" by blast
      from IH[OF d(3) t2(2)] show ?thesis using Escape t1(1) t2(1) by (subst vprintfmt.simps) simp
    qed
  qed
  then show ?thesis using assms(2) by blast
qed

end

section \<open>The bounded buffer\<close>

text \<open>The text that a format yields when nothing of the buffer \<open>b\<close> is read: the characters are collected, and a read
  of the buffer has no value.\<close>

definition collect :: "8 word \<Rightarrow> (sprintbuf \<times> mem) \<times> 8 word list \<Rightarrow> (sprintbuf \<times> mem) \<times> 8 word list" where
  "collect c s = (fst s, snd s @ [c])"

definition read_outside :: "(sprintbuf \<times> mem) \<times> 8 word list \<Rightarrow> nat \<Rightarrow> 8 word option" where
  "read_outside s a = (case fst s of (b, m) \<Rightarrow> if buf b \<le> a \<and> a \<le> ebuf b then None else Some (m a))"

definition formatted :: "nat \<Rightarrow> nat \<Rightarrow> nat \<Rightarrow> vararg list \<Rightarrow> mem \<Rightarrow> 8 word list option" where
  "formatted str sz fmt ap m = map_option snd
     (vprintfmt collect read_outside (Ptr fmt) Text ((\<lparr>buf = str, ebuf = str + sz - 1, cnt = 0\<rparr>, m), []) ap)"

definition in_buffer :: "(sprintbuf \<times> mem) \<times> 8 word list \<Rightarrow> sprintbuf \<times> mem \<Rightarrow> bool" where
  "in_buffer s t \<longleftrightarrow> buf (fst (fst s)) \<le> ebuf (fst (fst s)) \<and> t = fold sprintputch (snd s) (fst s)"

interpretation buffer_sim: output_sim collect read_outside sprintputch read_mem in_buffer
proof
  show "in_buffer (collect c s) (sprintputch c t)" if "in_buffer s t" for s t c
    using that by (simp add: in_buffer_def collect_def)
  show "read_mem t a = Some c" if r: "in_buffer s t" "read_outside s a = Some c" for s t a c
  proof -
    obtain b m out where s: "s = ((b, m), out)" by (metis surj_pair)
    have "snd t a = m a" if "a < buf b \<or> ebuf b < a"
      using that r(1) sprintputch_fold[of b out m] by (auto simp: in_buffer_def s)
    then show ?thesis using r(2) by (auto simp: s read_outside_def read_mem_def split: if_splits)
  qed
qed

text \<open>What \<open>putch\<close> keeps, the whole output keeps.\<close>

lemma fold_keeps: "(\<And>c s. g (pu c s) = g s) \<Longrightarrow> g (fold pu cs s) = g s"
  by (induction cs arbitrary: s) auto

lemma put_string_keeps:
  assumes g: "\<And>c s. g (pu c s) = g s" and r: "put_string pu rd p prec alt w s = Some r"
  shows "g (snd r) = g s"
proof -
  have "pu = pu \<longrightarrow> g (snd r) = g s"
  proof (rule put_string.raw_induct[where P = "\<lambda>pu' rd p prec alt w s r. pu' = pu \<longrightarrow> g (snd r) = g s", OF _ r], intro impI, goal_cases)
    case (1 rec pu' rd p prec alt w s r)
    then obtain c where c: "load rd s p = Some c" by (auto simp: bind_eq_Some_conv)
    show ?case
    proof (cases "c \<noteq> 0 \<and> (prec < 0 \<or> prec - 1 \<ge> 0)")
      case True
      with 1(2,3) c have "rec pu rd (padd p 1) (if prec < 0 then prec else prec - 1) alt (w - 1)
          (pu (if alt \<and> (c < 32 \<or> c > 126) then 63 else c) s) = Some r" by simp
      from 1(1)[OF this] show ?thesis using g by simp
    next
      case False
      with 1(2,3) c show ?thesis by auto
    qed
  qed
  then show ?thesis by simp
qed

lemma turn_keeps:
  assumes g: "\<And>c s. g (pu c s) = g s" and r: "vprintfmt_turn pu rd f sp s ap = Some (f', mode, s', ap', call)"
  shows "g s' = g s"
proof -
  have "g s1 = g s" if "print_string pu rd p sp s = Some s1" for p s1
    using that put_string_keeps[of g pu, OF g] fold_keeps[of g pu, OF g]
    by (fastforce simp: print_string_def bind_eq_Some_conv Let_def split: if_splits simp del: fold_replicate)
  moreover from r obtain a where a: "vprintfmt_escape rd s f sp ap = Some a" by (auto simp: vprintfmt_turn_def bind_eq_Some_conv)
  ultimately show ?thesis using r fold_keeps[of g pu, OF g] g unfolding vprintfmt_turn_def a bind.simps
    by (cases a) (auto simp: bind_eq_Some_conv)
qed

lemma vprintfmt_keeps:
  assumes g: "\<And>c s. g (pu c s) = g s" and r: "vprintfmt pu rd f mode s ap = Some s'"
  shows "g s' = g s"
proof -
  have "pu = pu \<longrightarrow> g s' = g s"
  proof (rule vprintfmt.raw_induct[where P = "\<lambda>pu' rd f mode s ap s'. pu' = pu \<longrightarrow> g s' = g s", OF _ r], intro impI, goal_cases)
    case (1 rec pu' rd f mode s ap s')
    show ?case
    proof (cases mode)
      case Text
      then show ?thesis using 1 g by (auto simp: bind_eq_Some_conv split: if_splits)
    next
      case (Escape sp)
      with 1(2,3) obtain f1 m1 s1 ap1 call s2 where
        d: "vprintfmt_turn pu rd f sp s ap = Some (f1, m1, s1, ap1, call)"
          "(case call of None \<Rightarrow> Some s1 | Some c \<Rightarrow> rec pu rd (Lit (fst c) 0) Text s1 (snd c)) = Some s2"
          "rec pu rd f1 m1 s2 ap1 = Some s'" by (auto simp: bind_eq_Some_conv)
      have "g s2 = g s1" using d(2) 1(1) by (cases call) auto
      then show ?thesis using turn_keeps[of g pu, OF g d(1)] 1(1)[OF d(3)] by simp
    qed
  qed
  then show ?thesis by simp
qed

lemma vsnprintf_ok:
  assumes "str \<noteq> 0" "sz \<noteq> 0" "str + sz \<le> 2 ^ 64" "formatted str sz fmt ap m = Some out"
  shows "\<exists>m'. vsnprintf str sz fmt ap m = Some (int (length out), m')
    \<and> bytes m' str (min (length out) (sz - 1)) = take (sz - 1) out
    \<and> m' (str + min (length out) (sz - 1)) = 0
    \<and> (\<forall>x. x < str \<or> str + sz \<le> x \<longrightarrow> m' x = m x)"
proof -
  let ?b = "\<lparr>buf = str, ebuf = str + sz - 1, cnt = 0\<rparr>" and ?k = "min (length out) (sz - 1)"
  let ?m1 = "\<lambda>x. if str \<le> x \<and> x < str + ?k then out ! (x - str) else m x"
  have le: "buf ?b \<le> ebuf ?b" using assms(2) by simp
  from sprintputch_fold[OF this, of out m]
  have f: "fold sprintputch out (?b, m) = (\<lparr>buf = str + ?k, ebuf = str + sz - 1, cnt = int (length out)\<rparr>, ?m1)"
    by (simp cong: if_cong)
  from assms(4) obtain s where s: "vprintfmt collect read_outside (Ptr fmt) Text ((?b, m), []) ap = Some s" "snd s = out"
    by (auto simp: formatted_def)
  have "in_buffer ((?b, m), []) (?b, m)" using le by (simp add: in_buffer_def)
  from buffer_sim.sim_vprintfmt[OF s(1) this] obtain t where
    t: "vprintfmt sprintputch read_mem (Ptr fmt) Text (?b, m) ap = Some t" "in_buffer s t" by blast
  have "fst s = (?b, m)" using vprintfmt_keeps[of fst collect, OF _ s(1)] by (simp add: collect_def)
  then have v: "vprintfmt sprintputch read_mem (Ptr fmt) Text (?b, m) ap = Some (fold sprintputch out (?b, m))"
    using t s(2) by (simp add: in_buffer_def)
  have e: "(str + sz + (2 ^ 64 - 1)) mod 2 ^ 64 = str + sz - 1"
  proof -
    have "str + sz + (2 ^ 64 - 1) = str + sz - 1 + 2 ^ 64" using assms(2) by simp
    moreover have "str + sz - 1 < 2 ^ 64" using assms(2,3) by simp
    ultimately show ?thesis by (metis mod_add_self2 mod_less)
  qed
  let ?m = "?m1(str + ?k := 0)"
  have "bytes ?m str ?k = take (sz - 1) out"
    by (rule nth_equalityI) (auto simp: bytes_def)
  moreover have "?k < sz" using assms(2) by auto
  moreover have "vsnprintf str sz fmt ap m = Some (int (length out), ?m)"
    unfolding vsnprintf_def e Let_def v f using assms(1,2) by simp
  ultimately show ?thesis by (intro exI[of _ ?m]) auto
qed

lemma vsnprintf_refuses:
  assumes "str < 2 ^ 64" "sz < 2 ^ 64" "str = 0 \<or> sz = 0 \<or> 2 ^ 64 < str + sz"
  shows "vsnprintf str sz fmt ap m = Some (- E_INVAL, m)"
proof (cases "str = 0")
  case False
  have "(str + sz + (2 ^ 64 - 1)) mod 2 ^ 64 < str"
  proof (cases "sz = 0")
    case True
    then have "str + sz + (2 ^ 64 - 1) = str - 1 + 2 ^ 64" using False by simp
    then show ?thesis using False assms(1) by (metis mod_add_self2 mod_less less_imp_diff_less diff_less zero_less_one neq0_conv)
  next
    case nz: False
    then have g: "2 ^ 64 < str + sz" using assms(3) False by simp
    then have "str + sz + (2 ^ 64 - 1) = (str + sz - 1 - 2 ^ 64) + 2 ^ 64 * 2" by simp
    moreover have "str + sz - 1 - 2 ^ 64 < str" "str < 2 ^ 64" using g assms(1,2) by linarith+
    ultimately show ?thesis by (metis mod_mult_self2 mod_less less_trans)
  qed
  then show ?thesis by (simp add: vsnprintf_def Let_def)
qed (simp add: vsnprintf_def Let_def)

section \<open>Properties\<close>


lemma formatted_d:
  assumes "bytes m fmt 3 = [37, 100, 0]" "{fmt..<fmt + 3} \<inter> {str..<str + sz} = {}" "sz \<noteq> 0"
  shows "\<exists>ds. formatted str sz fmt [Slot w] m =
      Some ((if sint (ucast w :: 32 word) < 0 then [45] else []) @ ds) \<and> ds \<noteq> []
    \<and> digits_value 10 ds = Some (nat \<bar>sint (ucast w :: 32 word)\<bar>)"
proof -
  let ?v = "sint (ucast w :: 32 word)" and ?s = "((\<lparr>buf = str, ebuf = str + sz - 1, cnt = 0\<rparr>, m), [])"
  let ?t = "\<lambda>xs. ((\<lparr>buf = str, ebuf = str + sz - 1, cnt = 0\<rparr>, m), xs)"
  have f: "m fmt = 37" "m (fmt + 1) = 100" "m (fmt + 2) = 0"
    using assms(1) by (auto simp: eval_nat_numeral bytes_Suc)
  have out: "\<not> (str \<le> fmt + i \<and> fmt + i \<le> str + sz - 1)" if "i < 3" for i
    using assms(2,3) that by (auto simp: disjoint_iff)
  have rd: "read_outside (?t xs) (fmt + i) = Some (m (fmt + i))" if "i < 3" for i xs
    using out[OF that] by (simp add: read_outside_def)
  have fold: "fold collect xs (?t ys) = ?t (ys @ xs)" for xs ys
    by (induction xs arbitrary: ys) (simp_all add: collect_def)
  have abs: "(if ?v < 0 then - ?v else ?v) = \<bar>?v\<bar>" by simp
  from printnum_ok[of 10 "nat \<bar>?v\<bar>" "-1" 32] obtain ds where
    ds: "printnum (nat \<bar>?v\<bar>) 10 (-1) 32 = Some ds" "ds \<noteq> []" "digits_value 10 ds = Some (nat \<bar>?v\<bar>)" by auto
  have e: "vprintfmt_escape read_outside ?s (Ptr (fmt + 1)) fspec0 [Slot w] = Some (Emit ((if ?v < 0 then [45] else []) @ ds) (Ptr (fmt + 2)) [])"
    using f(2) rd[of 1] by (simp add: vprintfmt_escape_def getint_def fspec0_def abs ds(1) Let_def)
  have turn: "vprintfmt_turn collect read_outside (Ptr (fmt + 1)) fspec0 ?s [Slot w]
      = Some (Ptr (fmt + 2), Text, ?t ((if ?v < 0 then [45] else []) @ ds), [], None)"
    unfolding vprintfmt_turn_def e bind.simps escape_action.case fold by simp
  have t: "vprintfmt collect read_outside (Ptr (fmt + 2)) Text (?t xs) [] = Some (?t xs)" for xs
    using f(3) rd[of 2] by (subst vprintfmt.simps) simp
  have "vprintfmt collect read_outside (Ptr fmt) Text ?s [Slot w] = vprintfmt collect read_outside (Ptr (fmt + 1)) (Escape fspec0) ?s [Slot w]"
    using f(1) rd[of 0] by (subst vprintfmt.simps) simp
  also have "\<dots> = Some (?t ((if ?v < 0 then [45] else []) @ ds))"
    by (subst vprintfmt.simps) (simp only: fmt_mode.case turn bind.simps prod.case option.case t)
  finally show ?thesis using ds by (auto simp: formatted_def)
qed

text \<open>C28. Printing and scanning are inverse: any 32-bit integer, printed with \<open>%d\<close> into a buffer
  that is large enough, does not wrap around and does not contain the format, and read back by \<open>strtol\<close> in base 10,
  gives the same integer, and the end pointer points behind what was printed.\<close>

theorem print_scan_roundtrip:
  assumes "bytes m fmt 3 = [37, 100, 0]" "str \<noteq> 0" "sz \<noteq> 0" "str + sz \<le> 2 ^ 64" "{fmt..<fmt + 3} \<inter> {str..<str + sz} = {}"
  shows "\<exists>n m'. vsnprintf str sz fmt [Slot w] m = Some (n, m')
    \<and> (n < int sz \<longrightarrow> strtol m' str 10 = Some (word_of_int (sint (ucast w :: 32 word)), str + nat n))"
proof -
  let ?v = "sint (ucast w :: 32 word)" and ?s = "if sint (ucast w :: 32 word) < 0 then [45] else [] :: 8 word list"
  from formatted_d[OF assms(1,5,3), of w] obtain ds where
    ds: "formatted str sz fmt [Slot w] m = Some (?s @ ds)" "ds \<noteq> []" "digits_value 10 ds = Some (nat \<bar>?v\<bar>)" by blast
  from vsnprintf_ok[OF assms(2-4) ds(1)] obtain m' where
    m': "vsnprintf str sz fmt [Slot w] m = Some (int (length (?s @ ds)), m')"
      "bytes m' str (min (length (?s @ ds)) (sz - 1)) = take (sz - 1) (?s @ ds)"
      "m' (str + min (length (?s @ ds)) (sz - 1)) = 0" by blast
  have "strtol m' str 10 = Some (word_of_int ?v, str + length (?s @ ds))" if fit: "length (?s @ ds) < sz"
  proof -
    from fit have "min (length (?s @ ds)) (sz - 1) = length (?s @ ds)" "take (sz - 1) (?s @ ds) = ?s @ ds" by auto
    with m'(2,3) have "cstr m' str (?s @ ds)"
      using digits_value_nz[OF ds(3)] unfolding cstr_iff by (auto simp del: length_append)
    from strtol_decimal[OF ds(3,2) this] show ?thesis by (auto simp: abs_if)
  qed
  with m'(1) show ?thesis by (metis nat_int of_nat_less_iff)
qed

text \<open>The format \<open>"%d"\<close> at address 100.\<close>

definition fmt_d :: mem where
  "fmt_d = (\<lambda>x. if x = 100 then 37 else if x = 101 then 100 else 0)"

lemma fmt_d_bytes: "bytes fmt_d 100 3 = [37, 100, 0]"
  by (simp add: fmt_d_def bytes_def upt_rec)

theorem print_scan_roundtrip_witness:
  "\<exists>n m'. vsnprintf 200 20 100 [Slot 0xFFFFFFFE] fmt_d = Some (n, m')
     \<and> (n < 20 \<longrightarrow> strtol m' 200 10 = Some (word_of_int (sint (ucast (0xFFFFFFFE :: 64 word) :: 32 word)), 200 + nat n))"
  using print_scan_roundtrip[OF fmt_d_bytes, of 200 20 "0xFFFFFFFE"] by simp


end
