(* ===== verification/Bitmap.thy ===== *)
theory Bitmap
  imports Prelude "HOL-Library.Word"
begin

text \<open>
  The bitmap of free disk blocks, \<open>kern/fs/sfs/bitmap.c\<close>: 32-bit words in which a set bit is
  a free block.  The abstraction is the set of free indices; allocation takes the least one.
\<close>

section \<open>Definitions\<close>

record bitmap =
  nbits :: nat
  nwords :: nat
  bmap :: "32 word list"

abbreviation WORD_BITS :: nat where "WORD_BITS \<equiv> 32"

definition bit_mask :: "nat \<Rightarrow> 32 word" where
  "bit_mask offset = push_bit offset 1"

text \<open>The loop of \<open>bitmap_create\<close> that marks the bits behind the last one as used.\<close>

function mark_over :: "nat \<Rightarrow> 32 word \<Rightarrow> 32 word" where
  "mark_over overbits w =
     (if overbits < WORD_BITS then mark_over (overbits + 1) (xor w (bit_mask overbits)) else w)"
  by auto
termination by (relation "measure (\<lambda>(n, w). WORD_BITS - n)") auto

declare mark_over.simps [simp del]

text \<open>\<open>bitmap_create\<close>; the two flags say whether its two calls of \<open>kmalloc\<close> succeed.  The
  outer option is the assertions, the inner one the null pointer.\<close>

definition bitmap_create :: "bool \<Rightarrow> bool \<Rightarrow> nat \<Rightarrow> bitmap option option" where
  "bitmap_create m1 m2 n = do {
     kassert (n \<noteq> 0 \<and> n + WORD_BITS > n);
     if \<not> m1 then Some None
     else let nw = (n + WORD_BITS - 1) div WORD_BITS in
       if \<not> m2 then Some None
       else let bm = \<lparr>nbits = n, nwords = nw, bmap = replicate nw (-1)\<rparr> in
         if n \<noteq> nw * WORD_BITS
         then let ix = nw - 1; overbits = n - ix * WORD_BITS in do {
           kassert (n div WORD_BITS = ix);
           kassert (overbits > 0 \<and> overbits < WORD_BITS);
           Some (Some (bm\<lparr>bmap := (bmap bm)[ix := mark_over overbits (bmap bm ! ix)]\<rparr>)) }
         else Some (Some bm) }"

text \<open>The inner and the outer loop of \<open>bitmap_alloc\<close>.  The result is the code, the index and
  the new bitmap.\<close>

function alloc_bit :: "nat \<Rightarrow> 32 word \<Rightarrow> nat option" where
  "alloc_bit offset w =
     (if offset < WORD_BITS then if and w (bit_mask offset) \<noteq> 0 then Some offset else alloc_bit (offset + 1) w
      else None)"
  by auto
termination by (relation "measure (\<lambda>(n, w). WORD_BITS - n)") auto

declare alloc_bit.simps [simp del]

function alloc_word :: "nat \<Rightarrow> bitmap \<Rightarrow> (int \<times> nat \<times> bitmap) option" where
  "alloc_word ix bm =
     (if ix < nwords bm then
        if bmap bm ! ix \<noteq> 0 then do {
          off \<leftarrow> alloc_bit 0 (bmap bm ! ix);
          Some (0, ix * WORD_BITS + off,
            bm\<lparr>bmap := (bmap bm)[ix := xor (bmap bm ! ix) (bit_mask off)]\<rparr>) }
        else alloc_word (ix + 1) bm
      else Some (- E_NO_MEM, 0, bm))"
  by auto
termination by (relation "measure (\<lambda>(n, bm). nwords bm - n)") auto

declare alloc_word.simps [simp del]

definition bitmap_alloc :: "bitmap \<Rightarrow> (int \<times> nat \<times> bitmap) option" where
  "bitmap_alloc bm = alloc_word 0 bm"

definition bitmap_translate :: "bitmap \<Rightarrow> nat \<Rightarrow> (nat \<times> 32 word) option" where
  "bitmap_translate bm index = do {
     kassert (index < nbits bm);
     Some (index div WORD_BITS, bit_mask (index mod WORD_BITS)) }"

definition bitmap_test :: "bitmap \<Rightarrow> nat \<Rightarrow> bool option" where
  "bitmap_test bm index = do {
     (ix, mask) \<leftarrow> bitmap_translate bm index;
     Some (and (bmap bm ! ix) mask \<noteq> 0) }"

definition bitmap_free :: "bitmap \<Rightarrow> nat \<Rightarrow> bitmap option" where
  "bitmap_free bm index = do {
     (ix, mask) \<leftarrow> bitmap_translate bm index;
     kassert (\<not> (and (bmap bm ! ix) mask \<noteq> 0));
     Some (bm\<lparr>bmap := (bmap bm)[ix := or (bmap bm ! ix) mask]\<rparr>) }"

definition bitmap_getdata :: "bitmap \<Rightarrow> 32 word list \<times> nat" where
  "bitmap_getdata bm = (bmap bm, 4 * nwords bm)"

section \<open>The set of free indices\<close>

definition free_at :: "bitmap \<Rightarrow> nat \<Rightarrow> bool" where
  "free_at bm i \<longleftrightarrow> i div WORD_BITS < nwords bm \<and> bit (bmap bm ! (i div WORD_BITS)) (i mod WORD_BITS)"

definition free_bits :: "bitmap \<Rightarrow> nat set" where
  "free_bits bm = {i. free_at bm i}"

definition bitmap_inv :: "bitmap \<Rightarrow> bool" where
  "bitmap_inv bm \<longleftrightarrow> length (bmap bm) = nwords bm \<and> nwords bm = (nbits bm + 31) div 32
     \<and> free_bits bm \<subseteq> {0..<nbits bm}"

lemma bit_bit_mask: "bit (bit_mask k) n \<longleftrightarrow> n = k \<and> k < 32"
  by (auto simp: bit_mask_def bit_simps)

lemma word_nz_bit: "(w :: 32 word) \<noteq> 0 \<longleftrightarrow> (\<exists>n < 32. bit w n)"
  using bit_eq_iff[of w 0] by (auto simp: possible_bit_word)

lemma mask_bit: "k < 32 \<Longrightarrow> and w (bit_mask k) \<noteq> 0 \<longleftrightarrow> bit w k"
  unfolding word_nz_bit by (auto simp: bit_and_iff bit_bit_mask)

lemma xor_mask_bit:
  fixes w :: "32 word"
  shows "n < 32 \<Longrightarrow> k < 32 \<Longrightarrow> bit (xor w (bit_mask k)) n \<longleftrightarrow> (if n = k then \<not> bit w k else bit w n)"
  by (auto simp: bit_xor_iff bit_bit_mask)

lemma or_mask_bit:
  fixes w :: "32 word"
  shows "n < 32 \<Longrightarrow> k < 32 \<Longrightarrow> bit (or w (bit_mask k)) n \<longleftrightarrow> n = k \<or> bit w n"
  by (auto simp: bit_or_iff bit_bit_mask)

lemma alloc_bit_ok:
  "(case alloc_bit k w of None \<Rightarrow> \<forall>n. k \<le> n \<and> n < 32 \<longrightarrow> \<not> bit w n
    | Some n \<Rightarrow> k \<le> n \<and> n < 32 \<and> bit w n \<and> (\<forall>j. k \<le> j \<and> j < n \<longrightarrow> \<not> bit w j))"
proof (induction k w rule: alloc_bit.induct)
  case (1 k w)
  consider "\<not> k < 32" | "k < 32" "bit w k" | "k < 32" "\<not> bit w k" by blast
  then show ?case
  proof cases
    case 1
    then have "alloc_bit k w = None" by (subst alloc_bit.simps) simp
    with 1 show ?thesis by auto
  next
    case 2
    then have "alloc_bit k w = Some k" by (subst alloc_bit.simps) (simp add: mask_bit)
    with 2 show ?thesis by auto
  next
    case 3
    then have e: "alloc_bit k w = alloc_bit (k + 1) w" by (subst alloc_bit.simps) (simp add: mask_bit)
    have "and w (bit_mask k) = 0" using 3 mask_bit[of k w] by simp
    from "1.IH"[OF 3(1)] this have "(case alloc_bit (k + 1) w of None \<Rightarrow> \<forall>n. k + 1 \<le> n \<and> n < 32 \<longrightarrow> \<not> bit w n
      | Some n \<Rightarrow> k + 1 \<le> n \<and> n < 32 \<and> bit w n \<and> (\<forall>j. k + 1 \<le> j \<and> j < n \<longrightarrow> \<not> bit w j))" by simp
    then show ?thesis unfolding e using 3(2)
      by (auto split: option.splits) (metis Suc_leI le_neq_implies_less)+
  qed
qed

lemma free_at_Suc: "k < 32 \<Longrightarrow> free_at bm (ix * 32 + k) \<longleftrightarrow> ix < nwords bm \<and> bit (bmap bm ! ix) k"
  by (simp add: free_at_def)

lemma split_index: "k < 32 \<Longrightarrow> i = ix * 32 + k \<longleftrightarrow> i div 32 = ix \<and> i mod 32 = (k :: nat)"
  by auto

text \<open>The number of words for \<open>n\<close> bits.\<close>

lemma words_exact: "n mod 32 = 0 \<Longrightarrow> (n + 31) div 32 * 32 = (n :: nat)"
  by (auto elim!: dvdE simp: mod_eq_0_iff_dvd)

lemma words_over: "0 < n mod 32 \<Longrightarrow> (n + 31) div 32 = n div 32 + (1 :: nat)"
proof -
  assume r: "0 < n mod 32"
  have "n + 31 = n div 32 * 32 + (n mod 32 + 31)" by simp
  also have "\<dots> div 32 = n div 32 + (n mod 32 + 31) div 32" by (rule div_mult_self3) simp
  also have "(n mod 32 + 31) div 32 = 1" using r by (intro div_nat_eqI) auto
  finally show ?thesis .
qed

lemma words_enough: "i < n \<Longrightarrow> i div 32 < (n + 31) div (32 :: nat)"
proof -
  assume "i < n"
  then have "(i + 32) div 32 \<le> (n + 31) div 32" by (intro div_le_mono) simp
  then show ?thesis by simp
qed

lemma free_at_upd:
  assumes "ix < nwords bm" "length (bmap bm) = nwords bm"
  shows "free_at (bm\<lparr>bmap := (bmap bm)[ix := w]\<rparr>) i \<longleftrightarrow>
    (if i div 32 = ix then bit w (i mod 32) else free_at bm i)"
  using assms by (auto simp: free_at_def)

lemma alloc_word_ok:
  assumes len: "length (bmap bm) = nwords bm" and below: "\<forall>i < ix * 32. \<not> free_at bm i" and ix: "ix \<le> nwords bm"
  shows "(free_bits bm = {} \<longrightarrow> alloc_word ix bm = Some (- E_NO_MEM, 0, bm))
    \<and> (free_bits bm \<noteq> {} \<longrightarrow> (\<exists>bm'. alloc_word ix bm = Some (0, Least (free_at bm), bm')
          \<and> free_bits bm' = free_bits bm - {Least (free_at bm)}
          \<and> nbits bm' = nbits bm \<and> nwords bm' = nwords bm \<and> length (bmap bm') = nwords bm))"
  using below ix
proof (induction "nwords bm - ix" arbitrary: ix)
  case 0
  then have ix: "ix = nwords bm" by simp
  have "\<not> free_at bm i" for i
  proof (cases "i < ix * 32")
    case False
    then have "\<not> i div 32 < nwords bm" using ix by (simp add: less_eq_div_iff_mult_less_eq not_less)
    then show ?thesis by (simp add: free_at_def)
  qed (use 0 in auto)
  then have "free_bits bm = {}" by (simp add: free_bits_def)
  moreover have "alloc_word ix bm = Some (- E_NO_MEM, 0, bm)" using ix by (subst alloc_word.simps) simp
  ultimately show ?case by simp
next
  case (Suc d)
  show ?case
  proof (cases "bmap bm ! ix = 0")
    case True
    have "\<not> free_at bm i" if "i < (ix + 1) * 32" for i
    proof (cases "i < ix * 32")
      case False
      then have "i div 32 = ix" using that by auto
      then show ?thesis using True by (simp add: free_at_def)
    qed (use Suc.prems in auto)
    moreover have "alloc_word ix bm = alloc_word (ix + 1) bm" using True Suc.hyps(2) by (subst alloc_word.simps) auto
    ultimately show ?thesis using Suc.hyps(1)[of "ix + 1"] Suc.hyps(2) by auto
  next
    case False
    then obtain k where k: "alloc_bit 0 (bmap bm ! ix) = Some k"
      using alloc_bit_ok[of 0 "bmap bm ! ix"] word_nz_bit[of "bmap bm ! ix"] by (auto split: option.splits)
    then have kk: "k < 32" "bit (bmap bm ! ix) k" "\<forall>j < k. \<not> bit (bmap bm ! ix) j"
      using alloc_bit_ok[of 0 "bmap bm ! ix"] by auto
    have lt: "ix < nwords bm" using Suc.hyps(2) by simp
    have f: "free_at bm (ix * 32 + k)" using kk lt by (simp add: free_at_Suc)
    have le: "ix * 32 + k \<le> i" if "free_at bm i" for i
    proof (rule ccontr)
      assume a: "\<not> ix * 32 + k \<le> i"
      then have "ix * 32 \<le> i" using that Suc.prems(1) by (meson not_le_imp_less)
      then obtain j where "i = ix * 32 + j" by (metis le_iff_add)
      then have "i div 32 = ix" "i mod 32 < k" using a kk(1) by auto
      then show False using that kk(3) by (simp add: free_at_def)
    qed
    have L: "Least (free_at bm) = ix * 32 + k" using f le by (intro Least_equality) auto
    let ?bm = "bm\<lparr>bmap := (bmap bm)[ix := xor (bmap bm ! ix) (bit_mask k)]\<rparr>"
    have "free_at ?bm i \<longleftrightarrow> free_at bm i \<and> i \<noteq> ix * 32 + k" for i
      unfolding free_at_upd[OF lt len] split_index[OF kk(1)]
      using lt kk(1,2) xor_mask_bit[of "i mod 32" k "bmap bm ! ix"] by (auto simp: free_at_def)
    then have "free_bits ?bm = free_bits bm - {ix * 32 + k}" by (auto simp: free_bits_def)
    moreover have "free_bits bm \<noteq> {}" using f by (auto simp: free_bits_def)
    moreover have "alloc_word ix bm = Some (0, ix * 32 + k, ?bm)"
      using lt False k by (subst alloc_word.simps) simp
    ultimately show ?thesis using L len by auto
  qed
qed

lemma mark_over_bit: "n < 32 \<Longrightarrow> bit (mark_over k w) n \<longleftrightarrow> (if k \<le> n then \<not> bit w n else bit w n)"
proof (induction k w rule: mark_over.induct)
  case (1 k w)
  show ?case
  proof (cases "k < 32")
    case True
    have "mark_over k w = mark_over (k + 1) (xor w (bit_mask k))" using True by (subst mark_over.simps) simp
    with "1.IH"[OF True "1.prems"] xor_mask_bit[OF "1.prems" True, of w] show ?thesis
      by (cases n k rule: linorder_cases) auto
  next
    case False
    then show ?thesis using "1.prems" by (subst mark_over.simps) simp
  qed
qed

section \<open>Properties\<close>

text \<open>C34. A new bitmap of \<open>n > 0\<close> bits, when memory is available, is well-formed and has exactly the
  indices below \<open>n\<close> free: no assertion fails, and the bits that fill up the last word are not
  free.\<close>

theorem bitmap_create_all_free:
  assumes "0 < n"
  shows "\<exists>bm. bitmap_create True True n = Some (Some bm) \<and> bitmap_inv bm \<and> nbits bm = n \<and> free_bits bm = {0..<n}"
proof -
  let ?nw = "(n + 31) div 32"
  show ?thesis
  proof (cases "n = ?nw * 32")
    case True
    then obtain k where n: "n = k * 32" by blast
    let ?bm = "\<lparr>nbits = k * 32, nwords = k, bmap = replicate k (-1)\<rparr>"
    have "free_at ?bm i \<longleftrightarrow> i < k * 32" for i
      by (auto simp: free_at_def less_mult_imp_div_less div_less_iff_less_mult)
    then have "free_bits ?bm = {0..<k * 32}" unfolding free_bits_def atLeast0LessThan lessThan_def by blast
    then have "bitmap_inv ?bm \<and> free_bits ?bm = {0..<k * 32}" by (simp only: bitmap_inv_def) simp
    moreover have "0 < k" using assms n by simp
    then have "bitmap_create True True (k * 32) = Some (Some ?bm)"
      unfolding bitmap_create_def by (simp add: Let_def)
    ultimately show ?thesis unfolding n by (intro exI[of _ ?bm]) simp
  next
    case False
    let ?ix = "?nw - 1"
    have r: "0 < n mod 32" using False words_exact[of n] by (metis gr0I)
    then have ix: "n div 32 = ?ix" "?ix < ?nw" "n - ?ix * 32 = n mod 32" "0 < n mod 32"
      by (simp_all add: words_over minus_div_mult_eq_mod)
    let ?bm = "\<lparr>nbits = n, nwords = ?nw, bmap = (replicate ?nw (-1))[?ix := mark_over (n mod 32) (-1)]\<rparr>"
    have "free_at ?bm i \<longleftrightarrow> i < n" for i
    proof (cases "i div 32 = ?ix")
      case True
      then have "i < n \<longleftrightarrow> i mod 32 < n mod 32" using ix(1)
        by (metis div_mult_mod_eq nat_add_left_cancel_less)
      then show ?thesis using True ix(2) mark_over_bit[of "i mod 32" "n mod 32" "-1"]
        by (auto simp: free_at_def)
    next
      case o: False
      have "i div 32 < ?nw \<longleftrightarrow> i div 32 < n div 32" using o words_over[OF r] by auto
      moreover have "i < n" if "i div 32 < n div 32" using that by (meson div_le_mono leD not_le_imp_less)
      ultimately have "i div 32 < ?nw \<longleftrightarrow> i < n" using words_enough by blast
      then show ?thesis using o by (auto simp: free_at_def)
    qed
    then have f: "free_bits ?bm = {0..<n}" unfolding free_bits_def atLeast0LessThan lessThan_def by blast
    moreover have "bitmap_inv ?bm" using f by (simp only: bitmap_inv_def) simp
    moreover have "bitmap_create True True n = Some (Some ?bm)"
    proof -
      have e: "n + 32 - 1 = n + 31" by simp
      have c: "0 < n - ?ix * 32" "n - ?ix * 32 < 32" using ix(3,4) by simp_all
      show ?thesis unfolding bitmap_create_def Let_def e using False assms ix(1-3) c by simp
    qed
    ultimately show ?thesis by (intro exI[of _ ?bm]) (simp only: bitmap.simps simp_thms)
  qed
qed

theorem bitmap_create_all_free_witness:
  "\<exists>bm. bitmap_create True True 33 = Some (Some bm) \<and> free_bits bm = {0..<33}"
  using bitmap_create_all_free[of 33] by auto

lemma bitmap_alloc_ok:
  assumes "bitmap_inv bm"
  shows "if free_bits bm = {} then bitmap_alloc bm = Some (- E_NO_MEM, 0, bm)
    else \<exists>i bm'. bitmap_alloc bm = Some (0, i, bm') \<and> i \<in> free_bits bm \<and> (\<forall>j \<in> free_bits bm. i \<le> j)
      \<and> i < nbits bm \<and> free_bits bm' = free_bits bm - {i} \<and> bitmap_inv bm' \<and> nbits bm' = nbits bm"
proof (cases "free_bits bm = {}")
  case True
  then show ?thesis using alloc_word_ok[of bm 0] assms by (simp add: bitmap_alloc_def bitmap_inv_def)
next
  case False
  let ?i = "Least (free_at bm)"
  from False obtain j where "free_at bm j" by (auto simp: free_bits_def)
  then have i: "?i \<in> free_bits bm" "\<forall>j \<in> free_bits bm. ?i \<le> j"
    by (auto simp: free_bits_def intro: LeastI Least_le)
  from alloc_word_ok[of bm 0] False assms obtain bm' where
    "bitmap_alloc bm = Some (0, ?i, bm')" "free_bits bm' = free_bits bm - {?i}" "nbits bm' = nbits bm"
    "nwords bm' = nwords bm" "length (bmap bm') = nwords bm"
    by (auto simp: bitmap_alloc_def bitmap_inv_def)
  then show ?thesis using i assms False by (auto simp: bitmap_inv_def intro!: exI[of _ ?i])
qed


text \<open>\<open>bitmap_free\<close> of an index that is in use returns and frees exactly that index; freeing a
  free index, or one beyond the end, fails an assertion.\<close>

theorem bitmap_free_exact:
  assumes "bitmap_inv bm"
  shows "if i < nbits bm \<and> i \<notin> free_bits bm
    then \<exists>bm'. bitmap_free bm i = Some bm' \<and> free_bits bm' = insert i (free_bits bm) \<and> bitmap_inv bm'
    else bitmap_free bm i = None"
proof (cases "i < nbits bm")
  case True
  let ?ix = "i div 32" and ?k = "i mod 32"
  have ix: "?ix < nwords bm" using words_enough[OF True] assms by (simp add: bitmap_inv_def)
  have len: "length (bmap bm) = nwords bm" using assms by (simp add: bitmap_inv_def)
  have t: "and (bmap bm ! ?ix) (bit_mask ?k) \<noteq> 0 \<longleftrightarrow> i \<in> free_bits bm"
    using ix by (simp add: mask_bit free_bits_def free_at_def)
  let ?bm = "bm\<lparr>bmap := (bmap bm)[?ix := or (bmap bm ! ?ix) (bit_mask ?k)]\<rparr>"
  have "free_at ?bm j \<longleftrightarrow> j = i \<or> free_at bm j" for j
    unfolding free_at_upd[OF ix len] using ix or_mask_bit[of "j mod 32" ?k "bmap bm ! ?ix"]
      split_index[of ?k j ?ix] by (auto simp: free_at_def)
  then have f: "free_bits ?bm = insert i (free_bits bm)" by (auto simp: free_bits_def)
  show ?thesis
  proof (cases "i \<in> free_bits bm")
    case False
    then have "bitmap_free bm i = Some ?bm"
      using True t by (simp add: bitmap_free_def bitmap_translate_def)
    then show ?thesis using True False f assms len by (auto simp: bitmap_inv_def)
  next
    case u: True
    then show ?thesis using True t by (simp add: bitmap_free_def bitmap_translate_def)
  qed
next
  case False
  then show ?thesis by (simp add: bitmap_free_def bitmap_translate_def)
qed

definition bm3 :: bitmap where
  "bm3 = \<lparr>nbits = 3, nwords = 1, bmap = [6]\<rparr>"

lemma bm3_bits: "free_bits bm3 = {1, 2}" "bitmap_inv bm3"
proof -
  have "(6 :: 32 word) = or (bit_mask 1) (bit_mask 2)" by (simp add: bit_mask_def)
  then have six: "bit (6 :: 32 word) n \<longleftrightarrow> n = 1 \<or> n = 2" for n
    by (metis bit_bit_mask bit_or_iff one_less_numeral_iff semiring_norm(76) numeral_less_iff semiring_norm(78) semiring_norm(81))
  have "free_at bm3 i \<longleftrightarrow> i = 1 \<or> i = 2" for i
  proof (cases "i < 32")
    case True
    then show ?thesis using six[of i] by (simp add: free_at_def bm3_def)
  qed (auto simp: free_at_def bm3_def)
  then show "free_bits bm3 = {1, 2}" "bitmap_inv bm3" by (auto simp: free_bits_def bitmap_inv_def bm3_def)
qed


theorem bitmap_free_exact_witness: "\<exists>bm'. bitmap_free bm3 0 = Some bm' \<and> free_bits bm' = {0, 1, 2}"
  using bitmap_free_exact[OF bm3_bits(2), of 0] bm3_bits(1) by (auto simp: bm3_def)

end
