(* ===== verification/Vmm.thy ===== *)
theory Vmm
  imports Page_Table Strings
begin

unbundle bit_operations_syntax

text \<open>
  Virtual memory areas, \<open>kern/mm/vmm.c\<close>.  The state has the areas and the memory descriptors as
  objects named by numbers, the links of their \<open>mmap_list\<close>s, the page tables below, and the
  virtual memory the kernel copies from and to.  \<open>kmalloc\<close> hands out objects that are not in
  use: the pools list them in the order in which they will be returned, and an empty pool is an
  allocation that fails.  Addresses are natural numbers, and the sums of an address and a length
  are taken modulo \<open>2 ^ 64\<close> as the code does.
\<close>

section \<open>State\<close>

datatype vm_node = Mmap nat | Area nat

record vma_struct =
  vm_mm :: nat
  vm_start :: nat
  vm_end :: nat
  vm_flags :: "32 word"

record mm_struct =
  mmap_cache :: "nat option"
  pgdir :: "nat option"
  map_count :: int
  mm_count :: int

record vmm_state =
  pt :: pt_state
  vlinks :: "vm_node links"
  vmas :: "nat \<Rightarrow> vma_struct"
  mms :: "nat \<Rightarrow> mm_struct"
  vma_pool :: "nat list"
  mm_pool :: "nat list"
  vmem :: mem

abbreviation (input) KERNTOP :: nat where "KERNTOP \<equiv> 0xFFFFFFFFC0200000 + 0x7E00000"

definition KERN_ACCESS :: "nat \<Rightarrow> nat \<Rightarrow> bool" where
  "KERN_ACCESS start end' \<longleftrightarrow> KERNBASE \<le> start \<and> start < end' \<and> end' \<le> KERNTOP"

definition VM_READ :: "32 word" where "VM_READ = 1"
definition VM_WRITE :: "32 word" where "VM_WRITE = 2"
definition VM_EXEC :: "32 word" where "VM_EXEC = 4"
definition VM_STACK :: "32 word" where "VM_STACK = 8"

definition upd_mm :: "nat \<Rightarrow> (mm_struct \<Rightarrow> mm_struct) \<Rightarrow> vmm_state \<Rightarrow> vmm_state" where
  "upd_mm m f s = s\<lparr>mms := (mms s)(m := f (mms s m))\<rparr>"

definition upd_vma :: "nat \<Rightarrow> (vma_struct \<Rightarrow> vma_struct) \<Rightarrow> vmm_state \<Rightarrow> vmm_state" where
  "upd_vma v f s = s\<lparr>vmas := (vmas s)(v := f (vmas s v))\<rparr>"

text \<open>Uses of a 64-bit sum.\<close>

definition addr_add :: "nat \<Rightarrow> nat \<Rightarrow> nat" where
  "addr_add a n = (a + n) mod 2 ^ 64"

section \<open>Operations\<close>

definition mm_create :: "vmm_state \<Rightarrow> nat option \<times> vmm_state" where
  "mm_create s = (case mm_pool s of
     [] \<Rightarrow> (None, s)
   | m # ms \<Rightarrow>
       let s1 = s\<lparr>mm_pool := ms, vlinks := list_init (Mmap m) (vlinks s)\<rparr>
       in (Some m, upd_mm m (\<lambda>_. \<lparr>mmap_cache = None, pgdir = None, map_count = 0, mm_count = 0\<rparr>) s1))"

definition vma_create :: "nat \<Rightarrow> nat \<Rightarrow> 32 word \<Rightarrow> vmm_state \<Rightarrow> nat option \<times> vmm_state" where
  "vma_create start end' fl s = (case vma_pool s of
     [] \<Rightarrow> (None, s)
   | v # vs \<Rightarrow>
       (Some v, upd_vma v (\<lambda>x. x\<lparr>vm_start := start, vm_end := end', vm_flags := fl\<rparr>) (s\<lparr>vma_pool := vs\<rparr>)))"

text \<open>The list walk of \<open>find_vma\<close>.  Walking onto the head of another list is a corrupted list.\<close>

partial_function (option) find_vma_loop :: "nat \<Rightarrow> nat \<Rightarrow> vm_node \<Rightarrow> vmm_state \<Rightarrow> nat option option" where
  "find_vma_loop mm addr le s =
     (case list_next (vlinks s) le of
        Mmap m \<Rightarrow> if m = mm then Some None else None
      | Area v \<Rightarrow>
          if vm_start (vmas s v) \<le> addr \<and> addr < vm_end (vmas s v) then Some (Some v)
          else find_vma_loop mm addr (Area v) s)"

definition find_vma :: "nat option \<Rightarrow> nat \<Rightarrow> vmm_state \<Rightarrow> (nat option \<times> vmm_state) option" where
  "find_vma mm addr s = (case mm of
     None \<Rightarrow> Some (None, s)
   | Some m \<Rightarrow> do {
       vma \<leftarrow> (case mmap_cache (mms s m) of
                None \<Rightarrow> find_vma_loop m addr (Mmap m) s
              | Some v \<Rightarrow>
                  if vm_start (vmas s v) \<le> addr \<and> vm_end (vmas s v) > addr then Some (Some v)
                  else find_vma_loop m addr (Mmap m) s);
       (case vma of
          None \<Rightarrow> Some (None, s)
        | Some v \<Rightarrow> Some (Some v, upd_mm m (mmap_cache_update (\<lambda>_. Some v)) s)) })"

definition check_vma_overlap :: "vma_struct \<Rightarrow> vma_struct \<Rightarrow> unit option" where
  "check_vma_overlap prev next = do {
     kassert (vm_start prev < vm_end prev);
     kassert (vm_end prev \<le> vm_start next);
     kassert (vm_start next < vm_end next) }"

text \<open>The loop of \<open>insert_vma_struct\<close>: the last entry that does not start behind the new area.\<close>

partial_function (option) insert_pos :: "nat \<Rightarrow> nat \<Rightarrow> vm_node \<Rightarrow> vm_node \<Rightarrow> vmm_state \<Rightarrow> vm_node option" where
  "insert_pos mm start le le_prev s =
     (case list_next (vlinks s) le of
        Mmap m \<Rightarrow> if m = mm then Some le_prev else None
      | Area v \<Rightarrow>
          if vm_start (vmas s v) > start then Some le_prev
          else insert_pos mm start (Area v) (Area v) s)"

text \<open>\<open>le2vma\<close> followed by the check, for an entry that is not the head of the list.\<close>

definition overlap_prev :: "vm_node \<Rightarrow> nat \<Rightarrow> vmm_state \<Rightarrow> unit option" where
  "overlap_prev le vma s = (case le of
     Mmap _ \<Rightarrow> Some () | Area v \<Rightarrow> check_vma_overlap (vmas s v) (vmas s vma))"

definition overlap_next :: "vm_node \<Rightarrow> nat \<Rightarrow> vmm_state \<Rightarrow> unit option" where
  "overlap_next le vma s = (case le of
     Mmap _ \<Rightarrow> Some () | Area v \<Rightarrow> check_vma_overlap (vmas s vma) (vmas s v))"

definition insert_vma_struct :: "nat \<Rightarrow> nat \<Rightarrow> vmm_state \<Rightarrow> vmm_state option" where
  "insert_vma_struct mm vma s = do {
     kassert (vm_start (vmas s vma) < vm_end (vmas s vma));
     le_prev \<leftarrow> insert_pos mm (vm_start (vmas s vma)) (Mmap mm) (Mmap mm) s;
     let le_next = list_next (vlinks s) le_prev;
     overlap_prev le_prev vma s;
     overlap_next le_next vma s;
     let s1 = upd_vma vma (vm_mm_update (\<lambda>_. mm)) s;
     let s2 = s1\<lparr>vlinks := list_add_after le_prev (Area vma) (vlinks s1)\<rparr>;
     Some (upd_mm mm (\<lambda>x. x\<lparr>map_count := map_count x + 1\<rparr>) s2) }"

text \<open>The loop of \<open>mm_destroy\<close>; freed areas go back to the pool.\<close>

partial_function (option) destroy_loop :: "nat \<Rightarrow> vmm_state \<Rightarrow> vmm_state option" where
  "destroy_loop mm s =
     (case list_next (vlinks s) (Mmap mm) of
        Mmap m \<Rightarrow> if m = mm then Some s else None
      | Area v \<Rightarrow>
          destroy_loop mm (s\<lparr>vlinks := list_del (Area v) (vlinks s), vma_pool := v # vma_pool s\<rparr>))"

definition mm_destroy :: "nat \<Rightarrow> vmm_state \<Rightarrow> vmm_state option" where
  "mm_destroy mm s = do {
     kassert (mm_count (mms s mm) = 0);
     s1 \<leftarrow> destroy_loop mm s;
     Some (s1\<lparr>mm_pool := mm # mm_pool s1\<rparr>) }"

text \<open>\<open>mm_map\<close>, and its part from the call of \<open>vma_create\<close> on; the area is also the result
  that \<open>vma_store\<close> receives.\<close>

definition mm_map_new :: "nat \<Rightarrow> nat \<Rightarrow> nat \<Rightarrow> 32 word \<Rightarrow> vmm_state \<Rightarrow> (int \<times> nat option \<times> vmm_state) option" where
  "mm_map_new m start end' fl s =
     (case vma_create start end' fl s of
        (None, s1) \<Rightarrow> Some (- E_NO_MEM, None, s1)
      | (Some v, s1) \<Rightarrow> do { s2 \<leftarrow> insert_vma_struct m v s1; Some (0, Some v, s2) })"

text \<open>The page boundaries around the range.\<close>

definition map_start :: "nat \<Rightarrow> nat" where
  "map_start addr = ROUNDDOWN addr PGSIZE"

definition map_end :: "nat \<Rightarrow> nat \<Rightarrow> nat" where
  "map_end addr len = ROUNDDOWN (addr_add (addr_add addr len) (PGSIZE - 1)) PGSIZE"

definition mm_map :: "nat option \<Rightarrow> nat \<Rightarrow> nat \<Rightarrow> 32 word \<Rightarrow> vmm_state \<Rightarrow> (int \<times> nat option \<times> vmm_state) option" where
  "mm_map mm addr len fl s =
     (let start = map_start addr; end' = map_end addr len
      in if \<not> USER_ACCESS start end' then Some (- E_INVAL, None, s)
         else do {
           m \<leftarrow> mm;
           (vma, s1) \<leftarrow> find_vma (Some m) start s;
           (case vma of
              Some v \<Rightarrow>
                if end' > vm_start (vmas s1 v) then Some (- E_INVAL, None, s1)
                else mm_map_new m start end' fl s1
            | None \<Rightarrow> mm_map_new m start end' fl s1) })"

partial_function (option) dup_loop :: "nat \<Rightarrow> nat \<Rightarrow> vm_node \<Rightarrow> vmm_state \<Rightarrow> (int \<times> vmm_state) option" where
  "dup_loop to from le s =
     (case list_prev (vlinks s) le of
        Mmap m \<Rightarrow> if m = from then Some (0, s) else None
      | Area v \<Rightarrow>
          let vma = vmas s v in
          (case vma_create (vm_start vma) (vm_end vma) (vm_flags vma) s of
             (None, s1) \<Rightarrow> Some (- E_NO_MEM, s1)
           | (Some nv, s1) \<Rightarrow> do {
               s2 \<leftarrow> insert_vma_struct to nv s1;
               pto \<leftarrow> pgdir (mms s2 to);
               pfrom \<leftarrow> pgdir (mms s2 from);
               (r, p) \<leftarrow> copy_range pto pfrom (vm_start (vmas s2 v)) (vm_end (vmas s2 v)) False (pt s2);
               if r \<noteq> 0 then Some (- E_NO_MEM, s2\<lparr>pt := p\<rparr>)
               else dup_loop to from (Area v) (s2\<lparr>pt := p\<rparr>) }))"

definition dup_mmap :: "nat option \<Rightarrow> nat option \<Rightarrow> vmm_state \<Rightarrow> (int \<times> vmm_state) option" where
  "dup_mmap to from s = do { t \<leftarrow> to; f \<leftarrow> from; dup_loop t f (Mmap f) s }"

text \<open>The two loops of \<open>exit_mmap\<close> differ in the function they call on each area.\<close>

partial_function (option) exit_mmap_loop ::
  "(nat \<Rightarrow> nat \<Rightarrow> nat \<Rightarrow> pt_state \<Rightarrow> pt_state option) \<Rightarrow> nat \<Rightarrow> vm_node \<Rightarrow> vmm_state \<Rightarrow> vmm_state option" where
  "exit_mmap_loop f mm le s =
     (case list_next (vlinks s) le of
        Mmap m \<Rightarrow> if m = mm then Some s else None
      | Area v \<Rightarrow> do {
          pg \<leftarrow> pgdir (mms s mm);
          p \<leftarrow> f pg (vm_start (vmas s v)) (vm_end (vmas s v)) (pt s);
          exit_mmap_loop f mm (Area v) (s\<lparr>pt := p\<rparr>) })"

definition exit_mmap :: "nat option \<Rightarrow> vmm_state \<Rightarrow> vmm_state option" where
  "exit_mmap mm s = do {
     m \<leftarrow> mm;
     kassert (mm_count (mms s m) = 0);
     s1 \<leftarrow> exit_mmap_loop unmap_range m (Mmap m) s;
     exit_mmap_loop exit_range m (Mmap m) s1 }"

definition fault_perm :: "32 word \<Rightarrow> 64 word" where
  "fault_perm fl = PTE_U OR PTE_R
     OR (if fl AND VM_WRITE \<noteq> 0 then PTE_W else 0) OR (if fl AND VM_EXEC \<noteq> 0 then PTE_X else 0)"

text \<open>\<open>do_pgfault\<close> from the call of \<open>get_pte\<close> on.\<close>

definition pgfault_map :: "nat \<Rightarrow> nat \<Rightarrow> 32 word \<Rightarrow> pt_state \<Rightarrow> (int \<times> pt_state) option" where
  "pgfault_map pg la fl p = do {
     (ptep, p1) \<leftarrow> get_pte pg la True p;
     (case ptep of
        None \<Rightarrow> Some (- E_NO_MEM, p1)
      | Some loc \<Rightarrow>
          if \<not> valid (pmem p1 (fst loc) (snd loc))
          then do {
            (page, p2) \<leftarrow> pgdir_alloc_page pg la (fault_perm fl) p1;
            Some (case page of None \<Rightarrow> - E_NO_MEM | Some _ \<Rightarrow> 0, p2) }
          else Some (- E_INVAL, p1)) }"

definition do_pgfault :: "nat option \<Rightarrow> 32 word \<Rightarrow> nat \<Rightarrow> vmm_state \<Rightarrow> (int \<times> vmm_state) option" where
  "do_pgfault mm error_code addr s = (case mm of
     None \<Rightarrow> Some (- E_INVAL, s)
   | Some m \<Rightarrow>
       if \<not> USER_ACCESS addr (addr_add addr 1) then Some (- E_INVAL, s)
       else do {
         let la = ROUNDDOWN addr PGSIZE;
         (vma, s1) \<leftarrow> find_vma (Some m) la s;
         (case vma of
            None \<Rightarrow> Some (- E_INVAL, s1)
          | Some v \<Rightarrow>
              let fl = vm_flags (vmas s1 v); wr = (error_code AND 1 \<noteq> 0) in
              if la < vm_start (vmas s1 v) then Some (- E_INVAL, s1)
              else if wr \<and> fl AND VM_WRITE = 0 then Some (- E_INVAL, s1)
              else if \<not> wr \<and> fl AND (VM_READ OR VM_WRITE OR VM_EXEC) = 0 then Some (- E_INVAL, s1)
              else do {
                pg \<leftarrow> pgdir (mms s1 m);
                (r, p) \<leftarrow> pgfault_map pg la fl (pt s1);
                Some (r, s1\<lparr>pt := p\<rparr>) }) })"

partial_function (option) user_mem_loop :: "nat \<Rightarrow> nat \<Rightarrow> nat \<Rightarrow> bool \<Rightarrow> vmm_state \<Rightarrow> (bool \<times> vmm_state) option" where
  "user_mem_loop m start end' wr s =
     (if start < end'
      then do {
        (vma, s1) \<leftarrow> find_vma (Some m) start s;
        (case vma of
           None \<Rightarrow> Some (False, s1)
         | Some v \<Rightarrow>
             if start < vm_start (vmas s1 v) then Some (False, s1)
             else if vm_flags (vmas s1 v) AND (if wr then VM_WRITE else VM_READ) = 0 then Some (False, s1)
             else if wr \<and> vm_flags (vmas s1 v) AND VM_STACK \<noteq> 0 \<and> start < vm_start (vmas s1 v) + PGSIZE
               then Some (False, s1)
             else user_mem_loop m (vm_end (vmas s1 v)) end' wr s1) }
      else Some (True, s))"

definition user_mem_check :: "nat option \<Rightarrow> nat \<Rightarrow> nat \<Rightarrow> bool \<Rightarrow> vmm_state \<Rightarrow> (bool \<times> vmm_state) option" where
  "user_mem_check mm addr len wr s = (case mm of
     Some m \<Rightarrow>
       if \<not> USER_ACCESS addr (addr_add addr len) then Some (False, s)
       else user_mem_loop m addr (addr_add addr len) wr s
   | None \<Rightarrow> Some (KERN_ACCESS addr (addr_add addr len), s))"

definition copy_from_user :: "nat option \<Rightarrow> nat \<Rightarrow> nat \<Rightarrow> nat \<Rightarrow> bool \<Rightarrow> vmm_state \<Rightarrow> (bool \<times> vmm_state) option" where
  "copy_from_user mm dst src len writable s = do {
     (ok, s1) \<leftarrow> user_mem_check mm src len writable s;
     if \<not> ok then Some (False, s1)
     else Some (True, s1\<lparr>vmem := snd (memcpy dst src len (vmem s1))\<rparr>) }"

definition copy_to_user :: "nat option \<Rightarrow> nat \<Rightarrow> nat \<Rightarrow> nat \<Rightarrow> vmm_state \<Rightarrow> (bool \<times> vmm_state) option" where
  "copy_to_user mm dst src len s = do {
     (ok, s1) \<leftarrow> user_mem_check mm dst len True s;
     if \<not> ok then Some (False, s1)
     else Some (True, s1\<lparr>vmem := snd (memcpy dst src len (vmem s1))\<rparr>) }"

partial_function (option) copy_string_loop ::
  "nat option \<Rightarrow> nat \<Rightarrow> nat \<Rightarrow> nat \<Rightarrow> nat \<Rightarrow> vmm_state \<Rightarrow> (bool \<times> vmm_state) option" where
  "copy_string_loop mm dst src maxn part0 s =
     (let part = (if part0 > maxn then maxn else part0) in do {
        (ok, s1) \<leftarrow> user_mem_check mm src part False s;
        let alen = strnlen (vmem s1) src part;
        if \<not> ok then Some (False, s1)
        else if alen < part then Some (True, s1\<lparr>vmem := snd (memcpy dst src (alen + 1) (vmem s1))\<rparr>)
        else if part = maxn then Some (False, s1)
        else copy_string_loop mm (dst + part) (src + part) (maxn - part) PGSIZE
               (s1\<lparr>vmem := snd (memcpy dst src part (vmem s1))\<rparr>) })"

definition copy_string :: "nat option \<Rightarrow> nat \<Rightarrow> nat \<Rightarrow> nat \<Rightarrow> vmm_state \<Rightarrow> (bool \<times> vmm_state) option" where
  "copy_string mm dst src maxn s =
     copy_string_loop mm dst src maxn (ROUNDDOWN (src + PGSIZE) PGSIZE - src) s"

declare find_vma_loop.simps [code] insert_pos.simps [code] destroy_loop.simps [code] dup_loop.simps [code]
  exit_mmap_loop.simps [code] user_mem_loop.simps [code] copy_string_loop.simps [code]

section \<open>The areas of a descriptor\<close>

definition covers :: "vmm_state \<Rightarrow> nat \<Rightarrow> nat \<Rightarrow> bool" where
  "covers s a v \<longleftrightarrow> vm_start (vmas s v) \<le> a \<and> a < vm_end (vmas s v)"

definition apart :: "vmm_state \<Rightarrow> nat \<Rightarrow> nat \<Rightarrow> bool" where
  "apart s v w \<longleftrightarrow> vm_end (vmas s w) \<le> vm_start (vmas s v) \<or> vm_end (vmas s v) \<le> vm_start (vmas s w)"

definition before :: "vmm_state \<Rightarrow> nat \<Rightarrow> nat \<Rightarrow> bool" where
  "before s v w \<longleftrightarrow> vm_end (vmas s v) \<le> vm_start (vmas s w)"

text \<open>The list of a descriptor: non-empty areas in the order of their addresses, no two of which
  overlap; the count is the length of the list, the cache is in the list, and no area of the
  list is on the allocator's side.\<close>

definition mm_inv :: "vmm_state \<Rightarrow> nat \<Rightarrow> nat list \<Rightarrow> bool" where
  "mm_inv s m vs \<longleftrightarrow> dlist (vlinks s) (Mmap m) (map Area vs)
    \<and> (\<forall>v \<in> set vs. vm_start (vmas s v) < vm_end (vmas s v))
    \<and> sorted_wrt (before s) vs
    \<and> map_count (mms s m) = int (length vs)
    \<and> (\<forall>v. mmap_cache (mms s m) = Some v \<longrightarrow> v \<in> set vs)
    \<and> distinct (vma_pool s) \<and> set (vma_pool s) \<inter> set vs = {}"

lemma upd_simps [simp]:
  "pt (upd_mm m f s) = pt s" "vlinks (upd_mm m f s) = vlinks s" "vmas (upd_mm m f s) = vmas s"
  "mms (upd_mm m f s) = (mms s)(m := f (mms s m))" "vma_pool (upd_mm m f s) = vma_pool s"
  "mm_pool (upd_mm m f s) = mm_pool s" "vmem (upd_mm m f s) = vmem s"
  "pt (upd_vma v g s) = pt s" "vlinks (upd_vma v g s) = vlinks s" "mms (upd_vma v g s) = mms s"
  "vmas (upd_vma v g s) = (vmas s)(v := g (vmas s v))" "vma_pool (upd_vma v g s) = vma_pool s"
  "mm_pool (upd_vma v g s) = mm_pool s" "vmem (upd_vma v g s) = vmem s"
  by (simp_all add: upd_mm_def upd_vma_def)

lemma list_pos:
  assumes "dlist h (Mmap m) (map Area (us @ ws))"
  shows "list_next h (last (Mmap m # map Area us)) = (case ws of [] \<Rightarrow> Mmap m | v # _ \<Rightarrow> Area v)"
  using dlist_nxt_pos[of h "Mmap m" "map Area us" "map Area ws"] assms
  by (cases ws) (simp_all add: list_next_def)

lemma find_vma_loop_ok:
  "dlist (vlinks s) (Mmap m) (map Area (us @ ws)) \<Longrightarrow>
   find_vma_loop m a (last (Mmap m # map Area us)) s = Some (find (covers s a) ws)"
proof (induction ws arbitrary: us)
  case Nil
  then show ?case using list_pos[OF Nil] by (subst find_vma_loop.simps) simp
next
  case (Cons v ws)
  have "find_vma_loop m a (last (Mmap m # map Area (us @ [v]))) s = Some (find (covers s a) ws)"
    using Cons.IH[of "us @ [v]"] Cons.prems by simp
  then show ?case using list_pos[OF Cons.prems]
    by (subst find_vma_loop.simps) (simp add: covers_def)
qed

lemma covers_unique:
  assumes "sorted_wrt (before s) vs" "v \<in> set vs" "w \<in> set vs" "covers s a v" "covers s a w"
  shows "v = w"
proof (rule ccontr)
  assume "v \<noteq> w"
  obtain i j where ij: "i < length vs" "v = vs ! i" "j < length vs" "w = vs ! j"
    using assms(2,3) by (auto simp: in_set_conv_nth)
  then consider "i < j" | "j < i" using \<open>v \<noteq> w\<close> by (metis linorder_neqE_nat)
  then have "before s v w \<or> before s w v"
    using assms(1) ij by cases (auto simp: sorted_wrt_iff_nth_less)
  then show False using assms(4,5) by (auto simp: before_def covers_def)
qed

lemma find_area:
  assumes "mm_inv s m vs" "v \<in> set vs" "covers s a v"
  shows "find (covers s a) vs = Some v"
proof -
  obtain w where w: "find (covers s a) vs = Some w"
    using assms(2,3) by (cases "find (covers s a) vs") (auto simp: find_None_iff)
  then have "w \<in> set vs" "covers s a w" by (auto simp: find_Some_iff)
  then show ?thesis using w covers_unique[of s vs v w a] assms by (simp add: mm_inv_def)
qed

definition cache_area :: "nat \<Rightarrow> nat option \<Rightarrow> vmm_state \<Rightarrow> vmm_state" where
  "cache_area m r s = (case r of None \<Rightarrow> s | Some v \<Rightarrow> upd_mm m (mmap_cache_update (\<lambda>_. Some v)) s)"

lemma find_vma_ok:
  assumes "mm_inv s m vs"
  shows "find_vma (Some m) a s = Some (find (covers s a) vs, cache_area m (find (covers s a) vs) s)"
proof -
  have l: "find_vma_loop m a (Mmap m) s = Some (find (covers s a) vs)"
    using find_vma_loop_ok[of s m "[]" vs a] assms by (simp add: mm_inv_def)
  have "find (covers s a) vs = Some v"
    if "mmap_cache (mms s m) = Some v" "vm_start (vmas s v) \<le> a" "a < vm_end (vmas s v)" for v
    using find_area[OF assms, of v a] assms that by (simp add: mm_inv_def covers_def)
  then show ?thesis using l
    by (auto simp: find_vma_def cache_area_def split: option.split)
qed

lemma cache_area_simps [simp]:
  "pt (cache_area m r s) = pt s" "vlinks (cache_area m r s) = vlinks s" "vmas (cache_area m r s) = vmas s"
  "vma_pool (cache_area m r s) = vma_pool s" "mm_pool (cache_area m r s) = mm_pool s"
  "vmem (cache_area m r s) = vmem s" "pgdir (mms (cache_area m r s) m') = pgdir (mms s m')"
  "map_count (mms (cache_area m r s) m') = map_count (mms s m')"
  "mm_count (mms (cache_area m r s) m') = mm_count (mms s m')"
  "covers (cache_area m r s) = covers s" "before (cache_area m r s) = before s" "apart (cache_area m r s) = apart s"
  by (auto simp: cache_area_def covers_def before_def apart_def fun_eq_iff split: option.split)

lemma cache_area_inv:
  assumes "mm_inv s m vs" shows "mm_inv (cache_area m (find (covers s a) vs) s) m vs"
proof -
  have "mmap_cache (mms (cache_area m (find (covers s a) vs) s) m) = Some v \<Longrightarrow> v \<in> set vs" for v
    using assms by (auto simp: cache_area_def mm_inv_def find_Some_iff split: option.splits)
  then show ?thesis using assms by (simp add: mm_inv_def)
qed

section \<open>Insertion\<close>

lemma insert_pos_ok:
  "dlist (vlinks s) (Mmap m) (map Area (us @ ws)) \<Longrightarrow>
   insert_pos m b (last (Mmap m # map Area us)) (last (Mmap m # map Area us)) s =
   Some (last (Mmap m # map Area (us @ takeWhile (\<lambda>v. vm_start (vmas s v) \<le> b) ws)))"
proof (induction ws arbitrary: us)
  case Nil
  then show ?case using list_pos[OF Nil] by (subst insert_pos.simps) simp
next
  case (Cons v ws)
  have "insert_pos m b (last (Mmap m # map Area (us @ [v]))) (last (Mmap m # map Area (us @ [v]))) s =
      Some (last (Mmap m # map Area ((us @ [v]) @ takeWhile (\<lambda>v. vm_start (vmas s v) \<le> b) ws)))"
    using Cons.IH[of "us @ [v]"] Cons.prems by simp
  then show ?case using list_pos[OF Cons.prems]
    by (subst insert_pos.simps) (simp add: not_less)
qed

text \<open>Between the areas that start before \<open>v\<close> and those that start behind it, the two
  neighbours decide whether \<open>v\<close> overlaps any area.\<close>

definition low :: "vmm_state \<Rightarrow> nat \<Rightarrow> nat list \<Rightarrow> nat list" where
  "low s v vs = takeWhile (\<lambda>w. vm_start (vmas s w) \<le> vm_start (vmas s v)) vs"

definition high :: "vmm_state \<Rightarrow> nat \<Rightarrow> nat list \<Rightarrow> nat list" where
  "high s v vs = dropWhile (\<lambda>w. vm_start (vmas s w) \<le> vm_start (vmas s v)) vs"

lemma low_high [simp]: "low s v vs @ high s v vs = vs"
  by (simp add: low_def high_def)

lemma overlap_prev_ok:
  assumes "sorted_wrt (before s) L" "\<forall>w \<in> set L. vm_start (vmas s w) < vm_end (vmas s w)"
    "vm_start (vmas s v) < vm_end (vmas s v)"
  shows "overlap_prev (last (Mmap m # map Area L)) v s = (if \<forall>w \<in> set L. before s w v then Some () else None)"
proof (cases L rule: rev_cases)
  case Nil
  then show ?thesis by (simp add: overlap_prev_def)
next
  case (snoc us u)
  have "(\<forall>w \<in> set L. before s w v) \<longleftrightarrow> before s u v"
    using assms snoc by (auto simp: before_def sorted_wrt_append)
  then show ?thesis using assms snoc by (simp add: overlap_prev_def check_vma_overlap_def kassert_def before_def)
qed

lemma overlap_next_ok:
  assumes "sorted_wrt (before s) H" "\<forall>w \<in> set H. vm_start (vmas s w) < vm_end (vmas s w)"
    "vm_start (vmas s v) < vm_end (vmas s v)"
  shows "overlap_next (case H of [] \<Rightarrow> Mmap m | w # _ \<Rightarrow> Area w) v s = (if \<forall>w \<in> set H. before s v w then Some () else None)"
proof (cases H)
  case Nil
  then show ?thesis by (simp add: overlap_next_def)
next
  case (Cons u us)
  have "(\<forall>w \<in> set H. before s v w) \<longleftrightarrow> before s v u"
    using assms Cons by (auto simp: before_def)
  then show ?thesis using assms Cons by (simp add: overlap_next_def check_vma_overlap_def kassert_def before_def)
qed

lemma high_behind:
  assumes "sorted_wrt (before s) vs" "\<forall>w \<in> set vs. vm_start (vmas s w) < vm_end (vmas s w)" "w \<in> set (high s v vs)"
  shows "vm_start (vmas s v) < vm_start (vmas s w)"
  using assms
proof (induction vs)
  case (Cons u us)
  show ?case
  proof (cases "vm_start (vmas s u) \<le> vm_start (vmas s v)")
    case True
    then show ?thesis using Cons by (simp add: high_def)
  next
    case False
    then have "w \<in> set (u # us)" using Cons.prems by (simp add: high_def)
    then have "vm_start (vmas s u) \<le> vm_start (vmas s w)"
      using Cons.prems(1,2) by (auto simp: before_def)
    then show ?thesis using False by simp
  qed
qed (simp add: high_def)

lemma apart_split:
  assumes "sorted_wrt (before s) vs" "\<forall>w \<in> set vs. vm_start (vmas s w) < vm_end (vmas s w)"
    "vm_start (vmas s v) < vm_end (vmas s v)"
  shows "(\<forall>w \<in> set vs. apart s v w) \<longleftrightarrow> (\<forall>w \<in> set (low s v vs). before s w v) \<and> (\<forall>w \<in> set (high s v vs). before s v w)"
proof -
  have l: "apart s v w \<longleftrightarrow> before s w v" if "w \<in> set (low s v vs)" for w
    using that assms(3) by (auto simp: apart_def before_def low_def dest: set_takeWhileD)
  have h: "apart s v w \<longleftrightarrow> before s v w" if "w \<in> set (high s v vs)" for w
  proof -
    have "w \<in> set vs" using that by (auto simp: high_def dest: set_dropWhileD)
    then show ?thesis using high_behind[OF assms(1,2) that] assms(2) by (auto simp: apart_def before_def)
  qed
  have "set vs = set (low s v vs) \<union> set (high s v vs)" by (metis low_high set_append)
  then show ?thesis using l h by auto
qed

text \<open>The effect of an insertion that is accepted.\<close>

definition inserted :: "nat \<Rightarrow> nat \<Rightarrow> nat list \<Rightarrow> vmm_state \<Rightarrow> vmm_state" where
  "inserted m v vs s =
     upd_mm m (\<lambda>x. x\<lparr>map_count := map_count x + 1\<rparr>)
       ((upd_vma v (vm_mm_update (\<lambda>_. m)) s)
         \<lparr>vlinks := list_add_after (last (Mmap m # map Area (low s v vs))) (Area v) (vlinks s)\<rparr>)"

lemma insert_vma_struct_ok:
  assumes "mm_inv s m vs" "vm_start (vmas s v) < vm_end (vmas s v)"
  shows "insert_vma_struct m v s = (if \<forall>w \<in> set vs. apart s v w then Some (inserted m v vs s) else None)"
proof -
  let ?L = "low s v vs" and ?H = "high s v vs"
  have inv: "sorted_wrt (before s) vs" "\<forall>w \<in> set vs. vm_start (vmas s w) < vm_end (vmas s w)"
    "dlist (vlinks s) (Mmap m) (map Area (?L @ ?H))" using assms(1) by (simp_all add: mm_inv_def)
  have pos: "insert_pos m (vm_start (vmas s v)) (Mmap m) (Mmap m) s = Some (last (Mmap m # map Area ?L))"
    using insert_pos_ok[of s m "[]" vs "vm_start (vmas s v)"] assms(1) by (simp add: low_def mm_inv_def)
  have "sorted_wrt (before s) (?L @ ?H)" "\<forall>w \<in> set (?L @ ?H). vm_start (vmas s w) < vm_end (vmas s w)"
    using inv by simp_all
  then have LH: "sorted_wrt (before s) ?L" "\<forall>w \<in> set ?L. vm_start (vmas s w) < vm_end (vmas s w)"
    "sorted_wrt (before s) ?H" "\<forall>w \<in> set ?H. vm_start (vmas s w) < vm_end (vmas s w)"
    by (simp_all add: sorted_wrt_append del: low_high)
  show ?thesis
    unfolding insert_vma_struct_def pos apart_split[OF inv(1,2) assms(2)]
    using assms(2) overlap_prev_ok[OF LH(1,2) assms(2)] overlap_next_ok[OF LH(3,4) assms(2)] list_pos[OF inv(3)]
    by (simp add: inserted_def Let_def del: last.simps)
qed

lemma inserted_inv:
  assumes "mm_inv s m vs" "vm_start (vmas s v) < vm_end (vmas s v)" "\<forall>w \<in> set vs. apart s v w"
    "v \<notin> set vs" "v \<notin> set (vma_pool s)"
  shows "mm_inv (inserted m v vs s) m (low s v vs @ v # high s v vs)"
proof -
  let ?L = "low s v vs" and ?H = "high s v vs" and ?s = "inserted m v vs s"
  have inv: "sorted_wrt (before s) vs" "\<forall>w \<in> set vs. vm_start (vmas s w) < vm_end (vmas s w)"
    "dlist (vlinks s) (Mmap m) (map Area (?L @ ?H))" "sorted_wrt (before s) (?L @ ?H)" using assms(1) by (simp_all add: mm_inv_def)
  have ends: "vm_start (vmas ?s w) = vm_start (vmas s w)" "vm_end (vmas ?s w) = vm_end (vmas s w)" for w
    by (simp_all add: inserted_def)
  then have b: "before ?s = before s" by (simp add: before_def fun_eq_iff)
  have nb: "(\<forall>w \<in> set ?L. before s w v) \<and> (\<forall>w \<in> set ?H. before s v w)"
    using apart_split[OF inv(1,2) assms(2)] assms(3) by simp
  have set_vs: "set vs = set ?L \<union> set ?H" by (metis low_high set_append)
  have len: "length vs = length ?L + length ?H" by (metis low_high length_append)
  have "dlist (vlinks s) (Mmap m) (map Area ?L @ map Area ?H)" using inv(3) by (simp only: map_append)
  moreover have "Area v \<notin> set (Mmap m # map Area ?L @ map Area ?H)" using assms(4) set_vs by auto
  ultimately have "dlist (vlinks ?s) (Mmap m) (map Area (?L @ v # ?H))"
    using dlist_add_last by (fastforce simp: inserted_def list_add_def)
  moreover have "sorted_wrt (before ?s) (?L @ v # ?H)"
    unfolding b using inv(4) nb by (auto simp: sorted_wrt_append simp del: low_high)
  moreover have "\<forall>w \<in> set (?L @ v # ?H). vm_start (vmas ?s w) < vm_end (vmas ?s w)"
    using inv(2) assms(2) set_vs by (auto simp: ends)
  moreover have "map_count (mms ?s m) = int (length (?L @ v # ?H))"
    using assms(1) len by (simp add: inserted_def mm_inv_def)
  moreover have "mmap_cache (mms ?s m) = Some w \<longrightarrow> w \<in> set (?L @ v # ?H)" for w
    using assms(1) set_vs by (auto simp: inserted_def mm_inv_def)
  moreover have "distinct (vma_pool ?s)" "set (vma_pool ?s) \<inter> set (?L @ v # ?H) = {}"
    using assms(1,5) set_vs by (auto simp: inserted_def mm_inv_def)
  ultimately show ?thesis unfolding mm_inv_def by blast
qed

lemma mm_map_new_ok:
  fixes fl :: "32 word"
  assumes "mm_inv s m vs" "start < end'" "vma_pool s = v # pool"
  defines "s1 \<equiv> upd_vma v (\<lambda>x. x\<lparr>vm_start := start, vm_end := end', vm_flags := fl\<rparr>) (s\<lparr>vma_pool := pool\<rparr>)"
  shows "mm_inv s1 m vs" "v \<notin> set vs" "v \<notin> set pool"
    "mm_map_new m start end' fl s = (if \<forall>w \<in> set vs. apart s1 v w then Some (0, Some v, inserted m v vs s1) else None)"
proof -
  show v: "v \<notin> set vs" "v \<notin> set pool" using assms(1,3) by (auto simp: mm_inv_def)
  have b: "sorted_wrt (before s1) vs"
    using assms(1) v(1) by (auto simp: mm_inv_def s1_def before_def elim!: sorted_wrt_mono_rel[rotated])
  show inv: "mm_inv s1 m vs"
    using assms(1,3) v b by (auto simp: mm_inv_def s1_def)
  have c: "vma_create start end' fl s = (Some v, s1)" using assms(3) by (simp add: vma_create_def s1_def)
  have lt: "vm_start (vmas s1 v) < vm_end (vmas s1 v)" using assms(2) by (simp add: s1_def)
  have e: "mm_map_new m start end' fl s = do { s2 \<leftarrow> insert_vma_struct m v s1; Some (0, Some v, s2) }"
    by (simp add: mm_map_new_def c)
  show "mm_map_new m start end' fl s = (if \<forall>w \<in> set vs. apart s1 v w then Some (0, Some v, inserted m v vs s1) else None)"
    unfolding e insert_vma_struct_ok[OF inv lt] by simp
qed

section \<open>Checking user memory\<close>

text \<open>The address \<open>a\<close> lies in an area of \<open>vs\<close> that allows the access; the lowest page of a stack
  area is not writable.\<close>

definition accessible :: "vmm_state \<Rightarrow> nat list \<Rightarrow> bool \<Rightarrow> nat \<Rightarrow> bool" where
  "accessible s vs wr a \<longleftrightarrow> (\<exists>v \<in> set vs. covers s a v
     \<and> vm_flags (vmas s v) AND (if wr then VM_WRITE else VM_READ) \<noteq> 0
     \<and> \<not> (wr \<and> vm_flags (vmas s v) AND VM_STACK \<noteq> 0 \<and> a < vm_start (vmas s v) + PGSIZE))"

lemma accessible_in:
  assumes "mm_inv s m vs" "v \<in> set vs" "covers s a v"
  shows "accessible s vs wr a \<longleftrightarrow> vm_flags (vmas s v) AND (if wr then VM_WRITE else VM_READ) \<noteq> 0
     \<and> \<not> (wr \<and> vm_flags (vmas s v) AND VM_STACK \<noteq> 0 \<and> a < vm_start (vmas s v) + PGSIZE)"
proof -
  have "w = v" if "w \<in> set vs" "covers s a w" for w
    using covers_unique[of s vs w v a] assms that by (simp add: mm_inv_def)
  then show ?thesis using assms(2,3) unfolding accessible_def by blast
qed

lemma accessible_cache [simp]: "accessible (cache_area m r s) = accessible s"
  by (simp add: accessible_def fun_eq_iff)

text \<open>What the walks keep: everything but the cache.\<close>

definition same_but_cache :: "vmm_state \<Rightarrow> vmm_state \<Rightarrow> bool" where
  "same_but_cache s s' \<longleftrightarrow> pt s' = pt s \<and> vlinks s' = vlinks s \<and> vmas s' = vmas s \<and> vmem s' = vmem s
    \<and> vma_pool s' = vma_pool s \<and> mm_pool s' = mm_pool s \<and> (\<forall>m. pgdir (mms s' m) = pgdir (mms s m))"

lemma same_refl [simp]: "same_but_cache s s" by (simp add: same_but_cache_def)

lemma same_trans: "same_but_cache s t \<Longrightarrow> same_but_cache t u \<Longrightarrow> same_but_cache s u"
  by (simp add: same_but_cache_def)

lemma same_cache [simp]: "same_but_cache s (cache_area m r s)"
  by (simp add: same_but_cache_def)

lemma same_accessible: "same_but_cache s t \<Longrightarrow> accessible t = accessible s"
  by (simp add: same_but_cache_def accessible_def covers_def fun_eq_iff)

lemma user_mem_loop_ok:
  "mm_inv s m vs \<Longrightarrow>
   \<exists>s'. user_mem_loop m start end' wr s = Some (\<forall>a \<in> {start..<end'}. accessible s vs wr a, s')
     \<and> mm_inv s' m vs \<and> same_but_cache s s'"
proof (induction "end' - start" arbitrary: start s rule: less_induct)
  case less
  let ?c = "cache_area m (find (covers s start) vs) s"
  show ?case
  proof (cases "start < end'")
    case False
    then show ?thesis using less.prems by (subst user_mem_loop.simps) simp
  next
    case lt: True
    have unf: "user_mem_loop m start end' wr s = (case find (covers s start) vs of
         None \<Rightarrow> Some (False, ?c)
       | Some v \<Rightarrow> if accessible s vs wr start then user_mem_loop m (vm_end (vmas s v)) end' wr ?c
                 else Some (False, ?c))"
    proof (cases "find (covers s start) vs")
      case None
      then show ?thesis using lt find_vma_ok[OF less.prems, of start] by (subst user_mem_loop.simps) simp
    next
      case (Some v)
      then have v: "v \<in> set vs" "covers s start v" by (auto simp: find_Some_iff)
      show ?thesis unfolding accessible_in[OF less.prems v]
        using lt find_vma_ok[OF less.prems, of start] Some v(2) by (subst user_mem_loop.simps) (auto simp: covers_def)
    qed
    show ?thesis
    proof (cases "accessible s vs wr start")
      case False
      then have "\<not> (\<forall>a \<in> {start..<end'}. accessible s vs wr a)" using lt by auto
      then show ?thesis using unf False less.prems cache_area_inv[OF less.prems]
        by (intro exI[of _ ?c]) (auto split: option.split)
    next
      case True
      then obtain v where v: "v \<in> set vs" "covers s start v" by (auto simp: accessible_def)
      note f = find_area[OF less.prems v]
      let ?e = "vm_end (vmas s v)"
      have up: "start < ?e" using v(2) by (simp add: covers_def)
      have ok: "accessible s vs wr a" if "start \<le> a" "a < ?e" for a
      proof -
        have "covers s a v" using that v(2) by (auto simp: covers_def)
        then have "accessible s vs wr a \<longleftrightarrow> vm_flags (vmas s v) AND (if wr then VM_WRITE else VM_READ) \<noteq> 0
           \<and> \<not> (wr \<and> vm_flags (vmas s v) AND VM_STACK \<noteq> 0 \<and> a < vm_start (vmas s v) + PGSIZE)"
          by (rule accessible_in[OF less.prems v(1)])
        moreover have "\<not> (a < vm_start (vmas s v) + PGSIZE) \<or> start < vm_start (vmas s v) + PGSIZE"
          using that(1) by linarith
        ultimately show ?thesis using iffD1[OF accessible_in[OF less.prems v, of wr] True] by blast
      qed
      have "accessible s vs wr a" if "\<forall>a \<in> {?e..<end'}. accessible s vs wr a" "a \<in> {start..<end'}" for a
        using ok[of a] that by (cases "a < ?e") auto
      then have rng: "(\<forall>a \<in> {start..<end'}. accessible s vs wr a) \<longleftrightarrow> (\<forall>a \<in> {?e..<end'}. accessible s vs wr a)"
        using up by auto
      have "end' - ?e < end' - start" using lt up by linarith
      from less.hyps[OF this cache_area_inv[OF less.prems], of start] obtain s' where
        s': "user_mem_loop m ?e end' wr ?c = Some (\<forall>a \<in> {?e..<end'}. accessible s vs wr a, s')" "mm_inv s' m vs"
          "same_but_cache ?c s'" by (auto simp only: accessible_cache)
      then show ?thesis using unf True f rng same_trans[OF same_cache s'(3)] by auto
    qed
  qed
qed

lemma user_mem_check_ok:
  assumes "mm_inv s m vs"
  shows "\<exists>s'. user_mem_check (Some m) addr len wr s =
      Some (USER_ACCESS addr (addr_add addr len) \<and> (\<forall>a \<in> {addr..<addr_add addr len}. accessible s vs wr a), s')
    \<and> mm_inv s' m vs \<and> same_but_cache s s'"
  using user_mem_loop_ok[OF assms, of addr "addr_add addr len" wr] assms by (auto simp: user_mem_check_def)

section \<open>Page faults\<close>

lemma flag_bits_fault: "flag_bits (fault_perm fl)"
proof -
  have "flag_bits PTE_U" "flag_bits PTE_R" "flag_bits PTE_W" "flag_bits PTE_X" "flag_bits 0"
    by (simp_all add: flag_bits_def PTE_U_def PTE_R_def PTE_W_def PTE_X_def PTE_FLAGS_def)
  then show ?thesis unfolding fault_perm_def by (auto intro!: flag_bits_or)
qed

text \<open>The effect of a resolved fault on the page tables: one more page is mapped.\<close>

definition maps_fresh :: "pt_state \<Rightarrow> nat \<Rightarrow> nat set \<Rightarrow> nat \<Rightarrow> 64 word \<Rightarrow> pt_state \<Rightarrow> bool" where
  "maps_fresh s pg F la perm s' \<longleftrightarrow> (\<exists>p G. p \<in> F \<and> p \<notin> G \<and> G \<subseteq> F \<and> pt_inv s' pg G \<and> page_ref p s' = 1
     \<and> get_page pg la s' = Some (Some p, s')
     \<and> mapping s pg la = None \<and> mapping s' pg la = Some (pte_create (page2ppn p) (PTE_V OR perm))
     \<and> (\<forall>la' < 2 ^ 39. la' div 4096 \<noteq> la div 4096 \<longrightarrow> mapping s' pg la' = mapping s pg la'))"

definition maps_nothing :: "pt_state \<Rightarrow> nat \<Rightarrow> nat set \<Rightarrow> pt_state \<Rightarrow> bool" where
  "maps_nothing s pg F s' \<longleftrightarrow> (\<exists>G \<subseteq> F. pt_inv s' pg G) \<and> mapping s' pg = mapping s pg"

lemma pgfault_map_ok:
  assumes inv: "pt_inv s pg F" and refs: "\<forall>p \<in> F. page_ref p s = 0" and la: "la < 2 ^ 39"
  shows "\<exists>r s'. pgfault_map pg la fl s = Some (r, s') \<and>
    (if r = 0 then maps_fresh s pg F la (fault_perm fl) s' else (r = - E_NO_MEM \<or> r = - E_INVAL) \<and> maps_nothing s pg F s')"
proof -
  from get_pte_ok[OF inv, of la] obtain r s1 G where
    g: "get_pte pg la True s = Some (r, s1)" "G \<subseteq> F" "pt_inv s1 pg G" "leaf s1 pg = leaf s pg" "walk_frame (F - G) s s1"
       "\<forall>loc. r = Some loc \<longrightarrow> table_at s1 pg (PDX1 la) (PDX0 la) = Some (fst loc) \<and> snd loc = PTX la" by blast
  have m1: "mapping s1 pg = mapping s pg" by (rule ext) (simp add: mapping_def g(4))
  have unch: "maps_nothing s pg F s1" using g(2,3) m1 by (auto simp: maps_nothing_def)
  consider (none) "r = None" | (mapped) loc where "r = Some loc" "valid (pmem s1 (fst loc) (snd loc))"
    | (free) loc where "r = Some loc" "\<not> valid (pmem s1 (fst loc) (snd loc))" by (cases r) auto
  then show ?thesis
  proof cases
    case none
    then show ?thesis using g(1) unch by (simp add: pgfault_map_def)
  next
    case mapped
    then show ?thesis using g(1) unch by (simp add: pgfault_map_def)
  next
    case free
    then have t: "table_at s1 pg (PDX1 la) (PDX0 la) = Some (fst loc)" "\<not> valid (pmem s1 (fst loc) (PTX la))" using g(6) by auto
    have nm: "mapping s pg la = None" using t unfolding m1[symmetric] by (simp add: mapping_def leaf_def)
    have refs1: "\<forall>p \<in> G. page_ref p s1 = 0" using refs g(2,5) by (auto simp: walk_frame_def)
    have e: "pgfault_map pg la fl s = do {
        (page, p2) \<leftarrow> pgdir_alloc_page pg la (fault_perm fl) s1;
        Some (case page of None \<Rightarrow> - E_NO_MEM | Some _ \<Rightarrow> 0, p2) }" using g(1) free by (simp add: pgfault_map_def)
    from pgdir_alloc_page_ok[OF g(3) t refs1, of "fault_perm fl"] consider
        (nomem) "pgdir_alloc_page pg la (fault_perm fl) s1 = Some (None, s1)"
      | (got) p s' where "pgdir_alloc_page pg la (fault_perm fl) s1 = Some (Some p, s')" "p \<in> G" "pt_inv s' pg (G - {p})"
          "page_ref p s' = 1" "npage s' = npage s1"
          "\<forall>i j k. leaf s' pg i j k = (if (i, j, k) = (PDX1 la, PDX0 la, PTX la)
              then Some (pte_create (page2ppn p) (PTE_V OR fault_perm fl)) else leaf s1 pg i j k)" by blast
    then show ?thesis
    proof cases
      case nomem
      then show ?thesis using e unch by simp
    next
      case got
      let ?w = "pte_create (page2ppn p) (PTE_V OR fault_perm fl)"
      have np: "page2ppn p < npage s1" "npage s1 \<le> 2 ^ 44" using g(3) got(2) by (auto simp: pt_inv_def)
      have w: "mapping s' pg la = Some ?w" using got(6) by (simp add: mapping_def)
      have "pte_ppn ?w = page2ppn p"
        using ppn_create[of "page2ppn p" "PTE_V OR fault_perm fl"] flag_bits_or[OF flags_V flag_bits_fault] np by simp
      then have "get_page pg la s' = Some (Some p, s')"
        by (intro get_page_mapping[OF w]) (use np got(5) in \<open>simp add: pa2page_def page2ppn_def\<close>)
      moreover have "mapping s' pg la' = mapping s pg la'" if "la' < 2 ^ 39" "la' div 4096 \<noteq> la div 4096" for la'
      proof -
        have "(PDX1 la', PDX0 la', PTX la') \<noteq> (PDX1 la, PDX0 la, PTX la)"
          using same_page_iff[OF that(1) la] that(2) by (simp only: not_False_eq_True)
        then show ?thesis using got(6) unfolding m1[symmetric] unfolding mapping_def by presburger
      qed
      moreover have "p \<in> F" "p \<notin> G - {p}" "G - {p} \<subseteq> F" using g(2) got(2) by auto
      ultimately have "maps_fresh s pg F la (fault_perm fl) s'"
        unfolding maps_fresh_def using got(3,4) nm w by blast
      then show ?thesis using e got(1) by simp
    qed
  qed
qed

definition allows :: "32 word \<Rightarrow> 32 word \<Rightarrow> bool" where
  "allows fl error_code \<longleftrightarrow>
     (if error_code AND 1 \<noteq> 0 then fl AND VM_WRITE \<noteq> 0 else fl AND (VM_READ OR VM_WRITE OR VM_EXEC) \<noteq> 0)"

lemma do_pgfault_cases:
  fixes addr :: nat
  assumes inv: "mm_inv s m vs" and pg: "pgdir (mms s m) = Some pg"
  defines "la \<equiv> ROUNDDOWN addr PGSIZE"
  shows "do_pgfault (Some m) ec addr s =
    (if \<not> USER_ACCESS addr (addr_add addr 1) then Some (- E_INVAL, s)
     else case find (covers s la) vs of
       None \<Rightarrow> Some (- E_INVAL, s)
     | Some v \<Rightarrow> let s1 = cache_area m (Some v) s in
         if allows (vm_flags (vmas s v)) ec
         then do { (r, p) \<leftarrow> pgfault_map pg la (vm_flags (vmas s v)) (pt s); Some (r, s1\<lparr>pt := p\<rparr>) }
         else Some (- E_INVAL, s1))"
proof (cases "find (covers s la) vs")
  case None
  then show ?thesis using find_vma_ok[OF inv, of la]
    by (simp add: do_pgfault_def la_def[symmetric] cache_area_def)
next
  case (Some v)
  then have "\<not> la < vm_start (vmas s v)" by (auto simp: find_Some_iff covers_def)
  then show ?thesis using Some find_vma_ok[OF inv, of la] pg
    by (simp add: do_pgfault_def la_def[symmetric] allows_def Let_def)
qed

section \<open>Properties\<close>

text \<open>A descriptor with one area, and an address space without mappings.\<close>

definition one_area :: vmm_state where
  "one_area = \<lparr>pt = empty_space,
     vlinks = list_add_after (Mmap 0) (Area 1) (list_init (Mmap 0) \<lparr>nxt = id, prv = id\<rparr>),
     vmas = (\<lambda>_. \<lparr>vm_mm = 0, vm_start = 0x800000, vm_end = 0x900000, vm_flags = VM_READ OR VM_WRITE\<rparr>),
     mms = (\<lambda>_. \<lparr>mmap_cache = None, pgdir = Some 100, map_count = 1, mm_count = 1\<rparr>),
     vma_pool = [2, 3], mm_pool = [], vmem = (\<lambda>_. 0)\<rparr>"

lemma one_area_inv: "mm_inv one_area 0 [1]" "pt one_area = empty_space" "pgdir (mms one_area 0) = Some 100"
  "vm_start (vmas one_area v) = 0x800000" "vm_end (vmas one_area v) = 0x900000"
  "vm_flags (vmas one_area v) = VM_READ OR VM_WRITE" "vma_pool one_area = [2, 3]"
  by (simp_all add: one_area_def mm_inv_def dlist_def list_defs)

text \<open>Lookup of an area: on a well-formed descriptor \<open>find_vma\<close> returns the area that contains
  the address and the null pointer when there is none, whatever the cache holds, and keeps the
  descriptor well-formed.\<close>

theorem find_vma_finds:
  assumes "mm_inv s m vs"
  shows "\<exists>r s'. find_vma (Some m) a s = Some (r, s') \<and> mm_inv s' m vs
    \<and> (\<forall>v. r = Some v \<longleftrightarrow> v \<in> set vs \<and> vm_start (vmas s v) \<le> a \<and> a < vm_end (vmas s v))"
proof -
  have "find (covers s a) vs = Some v \<longleftrightarrow> v \<in> set vs \<and> covers s a v" for v
    using find_area[OF assms, of v a] by (auto simp: find_Some_iff)
  then show ?thesis using find_vma_ok[OF assms, of a] cache_area_inv[OF assms, of a] by (auto simp: covers_def)
qed

theorem find_vma_finds_witness:
  "\<exists>s'. find_vma (Some 0) 0x812345 one_area = Some (Some 1, s') \<and> mm_inv s' 0 [1]"
proof -
  from find_vma_finds[OF one_area_inv(1), of "0x812345"] obtain r s' where
    r: "find_vma (Some 0) 0x812345 one_area = Some (r, s')" "mm_inv s' 0 [1]"
      "\<forall>v. r = Some v \<longleftrightarrow> v \<in> set [1] \<and> vm_start (vmas one_area v) \<le> 0x812345 \<and> 0x812345 < vm_end (vmas one_area v)" by blast
  have "r = Some 1" using r(3)[THEN spec[of _ 1]] by (simp add: one_area_inv)
  then show ?thesis using r by simp
qed

text \<open>C20. Insertion of an area: \<open>insert_vma_struct\<close> of a non-empty area returns exactly when the
  area overlaps none of the list; it then links the area at its place in the order of
  addresses and keeps the descriptor well-formed.\<close>

theorem insert_vma_struct_disjoint:
  assumes "mm_inv s m vs" "vm_start (vmas s v) < vm_end (vmas s v)" "v \<notin> set vs" "v \<notin> set (vma_pool s)"
  shows "((\<exists>w \<in> set vs. \<exists>a. covers s a v \<and> covers s a w) \<longleftrightarrow> insert_vma_struct m v s = None)
    \<and> (\<forall>s'. insert_vma_struct m v s = Some s' \<longrightarrow> (\<exists>us ws. vs = us @ ws \<and> mm_inv s' m (us @ v # ws)))"
proof -
  have ne: "\<forall>w \<in> set vs. vm_start (vmas s w) < vm_end (vmas s w)" using assms(1) by (simp add: mm_inv_def)
  have ov: "(\<exists>a. covers s a v \<and> covers s a w) \<longleftrightarrow> \<not> apart s v w" if "w \<in> set vs" for w
  proof
    show "\<not> apart s v w" if "\<exists>a. covers s a v \<and> covers s a w" using that by (auto simp: covers_def apart_def)
    assume "\<not> apart s v w"
    then show "\<exists>a. covers s a v \<and> covers s a w" using assms(2) ne that
      by (intro exI[of _ "max (vm_start (vmas s v)) (vm_start (vmas s w))"]) (auto simp: covers_def apart_def max_def)
  qed
  have "(\<exists>w \<in> set vs. \<exists>a. covers s a v \<and> covers s a w) \<longleftrightarrow> insert_vma_struct m v s = None"
    unfolding insert_vma_struct_ok[OF assms(1,2)] using ov by auto
  moreover have "\<forall>s'. insert_vma_struct m v s = Some s' \<longrightarrow> (\<exists>us ws. vs = us @ ws \<and> mm_inv s' m (us @ v # ws))"
  proof (intro allI impI)
    fix s' assume "insert_vma_struct m v s = Some s'"
    then have "mm_inv s' m (low s v vs @ v # high s v vs)"
      unfolding insert_vma_struct_ok[OF assms(1,2)] using inserted_inv[OF assms(1,2) _ assms(3,4)] by (auto split: if_splits)
    then show "\<exists>us ws. vs = us @ ws \<and> mm_inv s' m (us @ v # ws)" by (metis low_high)
  qed
  ultimately show ?thesis by blast
qed

definition below_area :: vmm_state where
  "below_area = upd_vma 2 (\<lambda>x. x\<lparr>vm_start := 0x700000, vm_end := 0x800000\<rparr>) (one_area\<lparr>vma_pool := [3]\<rparr>)"

lemma below_area_inv: "mm_inv below_area 0 [1]" "vm_start (vmas below_area 2) = 0x700000"
  "vm_end (vmas below_area 2) = 0x800000" "vma_pool below_area = [3]"
  using one_area_inv(1) by (auto simp: below_area_def mm_inv_def)

theorem insert_vma_struct_disjoint_witness:
  "\<exists>s'. insert_vma_struct 0 2 below_area = Some s' \<and> (\<exists>us ws. [1] = us @ ws \<and> mm_inv s' 0 (us @ 2 # ws))"
proof -
  note i = insert_vma_struct_disjoint[OF below_area_inv(1), of 2]
  have "\<not> (\<exists>a. covers below_area a 2 \<and> covers below_area a 1)"
    by (simp add: covers_def below_area_def one_area_inv)
  then show ?thesis using i by (auto simp: below_area_inv)
qed

text \<open>Mapping a range: on a well-formed descriptor, for a range of user addresses that meets no
  area, \<open>mm_map\<close> returns 0 and adds exactly the area of whole pages around the range with the
  given flags, keeping the descriptor well-formed; without memory it returns \<open>-E_NO_MEM\<close>, and for a
  range outside user space \<open>-E_INVAL\<close>.\<close>

theorem mm_map_adds_area:
  assumes "mm_inv s m vs"
    and "\<not> (\<exists>w \<in> set vs. \<exists>a. map_start addr \<le> a \<and> a < map_end addr len \<and> covers s a w)"
  shows "if \<not> USER_ACCESS (map_start addr) (map_end addr len) then mm_map (Some m) addr len fl s = Some (- E_INVAL, None, s)
    else if vma_pool s = [] then mm_map (Some m) addr len fl s = Some (- E_NO_MEM, None, s)
    else \<exists>v s' us ws. mm_map (Some m) addr len fl s = Some (0, Some v, s') \<and> vs = us @ ws \<and> mm_inv s' m (us @ v # ws)
      \<and> vm_start (vmas s' v) = map_start addr \<and> vm_end (vmas s' v) = map_end addr len \<and> vm_flags (vmas s' v) = fl
      \<and> (\<forall>w \<in> set vs. vmas s' w = vmas s w)"
proof -
  let ?start = "map_start addr" and ?fin = "map_end addr len"
  have "find (covers s ?start) vs = None" if "?start < ?fin"
    using assms(2) that by (auto simp: find_None_iff)
  then have e: "mm_map (Some m) addr len fl s = mm_map_new m ?start ?fin fl s" if "USER_ACCESS ?start ?fin"
    using that find_vma_ok[OF assms(1), of ?start]
    by (simp add: mm_map_def USER_ACCESS_def cache_area_def)
  show ?thesis
  proof (cases "USER_ACCESS ?start ?fin \<and> vma_pool s \<noteq> []")
    case False
    then show ?thesis using e
      by (auto simp: mm_map_def mm_map_new_def vma_create_def)
  next
    case True
    then have lt: "?start < ?fin" by (simp add: USER_ACCESS_def)
    obtain v pool where p: "vma_pool s = v # pool" using True by (cases "vma_pool s") auto
    let ?s1 = "upd_vma v (\<lambda>x. x\<lparr>vm_start := ?start, vm_end := ?fin, vm_flags := fl\<rparr>) (s\<lparr>vma_pool := pool\<rparr>)"
    note n = mm_map_new_ok(1)[OF assms(1) lt p, where fl = fl] mm_map_new_ok(2,3)[OF assms(1) lt p]
      mm_map_new_ok(4)[OF assms(1) lt p, where fl = fl]
    have ap: "\<forall>w \<in> set vs. apart ?s1 v w"
    proof
      fix w assume w: "w \<in> set vs"
      then have "vm_start (vmas s w) < vm_end (vmas s w)" using assms(1) by (simp add: mm_inv_def)
      moreover have "\<not> covers s (max ?start (vm_start (vmas s w))) w \<or> \<not> max ?start (vm_start (vmas s w)) < ?fin"
        using assms(2) w by auto
      ultimately show "apart ?s1 v w" using w n(2) lt by (auto simp: apart_def covers_def max_def split: if_splits)
    qed
    have "vm_start (vmas ?s1 v) < vm_end (vmas ?s1 v)" using lt by simp
    from inserted_inv[OF n(1) this ap n(2)] n(3)
    have "mm_inv (inserted m v vs ?s1) m (low ?s1 v vs @ v # high ?s1 v vs)" by simp
    moreover have "vmas (inserted m v vs ?s1) w = vmas s w" if "w \<in> set vs" for w
      using n(2) that by (auto simp: inserted_def)
    moreover have "vm_start (vmas (inserted m v vs ?s1) v) = ?start" "vm_end (vmas (inserted m v vs ?s1) v) = ?fin"
      "vm_flags (vmas (inserted m v vs ?s1) v) = fl" by (simp_all add: inserted_def)
    moreover have "mm_map (Some m) addr len fl s = Some (0, Some v, inserted m v vs ?s1)" using e True n(4) ap by simp
    ultimately show ?thesis using True low_high[of ?s1 v vs] by (metis (no_types, lifting))
  qed
qed

text \<open>Applied to a range of one page below the area of the example.\<close>

theorem mm_map_adds_area_witness:
  "\<exists>v s' us ws. mm_map (Some 0) 0x7FF000 0x1000 VM_READ one_area = Some (0, Some v, s') \<and> [1] = us @ ws
    \<and> mm_inv s' 0 (us @ v # ws)"
proof -
  have r: "map_start 0x7FF000 = 0x7FF000" "map_end 0x7FF000 0x1000 = 0x800000"
    by (simp_all add: map_start_def map_end_def ROUNDDOWN_def addr_add_def)
  have "\<not> (\<exists>w \<in> set [1]. \<exists>a. (0x7FF000::nat) \<le> a \<and> a < 0x800000 \<and> covers one_area a w)"
    by (simp add: covers_def one_area_inv)
  from mm_map_adds_area[OF one_area_inv(1), of "0x7FF000" "0x1000" VM_READ, unfolded r, OF this]
  show ?thesis by (auto simp: USER_ACCESS_def one_area_inv)
qed

text \<open>A range that starts below an area and runs into it is not rejected: \<open>mm_map\<close> looks for an
  area that contains the start of the range only, and the overlap is then met by the assertion of
  \<open>insert_vma_struct\<close>, which stops the kernel.\<close>

theorem mm_map_overlap_panics:
  assumes "mm_inv s m vs" "vma_pool s \<noteq> []"
    and "USER_ACCESS (map_start addr) (map_end addr len)" "w \<in> set vs" "map_start addr < vm_start (vmas s w)" "vm_start (vmas s w) < map_end addr len"
    "\<forall>v \<in> set vs. \<not> covers s (map_start addr) v"
  shows "mm_map (Some m) addr len fl s = None"
proof -
  let ?start = "map_start addr" and ?fin = "map_end addr len"
  have lt: "?start < ?fin" using assms(3) by (simp add: USER_ACCESS_def)
  obtain v pool where p: "vma_pool s = v # pool" using assms(2) by (cases "vma_pool s") auto
  let ?s1 = "upd_vma v (\<lambda>x. x\<lparr>vm_start := ?start, vm_end := ?fin, vm_flags := fl\<rparr>) (s\<lparr>vma_pool := pool\<rparr>)"
  note n = mm_map_new_ok(1)[OF assms(1) lt p, where fl = fl] mm_map_new_ok(2,3)[OF assms(1) lt p]
      mm_map_new_ok(4)[OF assms(1) lt p, where fl = fl]
  have "vm_start (vmas s w) < vm_end (vmas s w)" using assms(1,4) by (simp add: mm_inv_def)
  then have "\<not> apart ?s1 v w" using assms(4-6) n(2) by (auto simp: apart_def)
  then have "mm_map_new m ?start ?fin fl s = None" using n(4) assms(4) by auto
  moreover have "find (covers s ?start) vs = None" using assms(7) by (simp add: find_None_iff)
  ultimately show ?thesis using assms(3) find_vma_ok[OF assms(1), of ?start]
    by (simp add: mm_map_def cache_area_def)
qed

theorem mm_map_overlap_panics_witness: "mm_map (Some 0) 0x7FF000 0x2000 VM_READ one_area = None"
proof -
  have r: "map_start 0x7FF000 = 0x7FF000" "map_end 0x7FF000 0x2000 = 0x801000"
    by (simp_all add: map_start_def map_end_def ROUNDDOWN_def addr_add_def)
  from mm_map_overlap_panics[OF one_area_inv(1), of "0x7FF000" "0x2000" 1 VM_READ, unfolded r]
  show ?thesis by (simp add: USER_ACCESS_def one_area_inv covers_def)
qed

text \<open>C19. The check of user memory is exact: \<open>user_mem_check\<close> returns, and accepts a range exactly
  when it is a non-empty range of user addresses each of which lies in an area with the permission
  asked for, the lowest page of a stack area not being writable.\<close>

theorem user_mem_check_exact:
  assumes "mm_inv s m vs" "addr < 2 ^ 64" "len < 2 ^ 64"
  shows "\<exists>ok s'. user_mem_check (Some m) addr len wr s = Some (ok, s') \<and> mm_inv s' m vs
    \<and> (ok \<longleftrightarrow> 0 < len \<and> USERBASE \<le> addr \<and> addr + len \<le> USERTOP \<and> (\<forall>a. addr \<le> a \<and> a < addr + len \<longrightarrow> accessible s vs wr a))"
proof -
  have "USER_ACCESS addr (addr_add addr len) \<longleftrightarrow> 0 < len \<and> USERBASE \<le> addr \<and> addr + len \<le> USERTOP"
  proof (cases "addr + len < 2 ^ 64")
    case True
    then show ?thesis by (auto simp: USER_ACCESS_def addr_add_def)
  next
    case False
    then have "addr_add addr len = addr + len - 2 ^ 64" using assms(2,3) by (simp add: addr_add_def le_mod_geq)
    then show ?thesis using False assms(3) by (auto simp: USER_ACCESS_def)
  qed
  moreover have "addr_add addr len = addr + len" if "addr + len \<le> USERTOP" using that by (simp add: addr_add_def)
  ultimately show ?thesis using user_mem_check_ok[OF assms(1), of addr len wr] by auto
qed

theorem user_mem_check_exact_witness:
  "\<exists>s'. user_mem_check (Some 0) 0x8FF000 0x1000 True one_area = Some (True, s')
    \<and> user_mem_check (Some 0) 0x8FF000 0x1001 True one_area \<noteq> Some (True, s')"
proof -
  have acc: "accessible one_area [1] True a \<longleftrightarrow> 0x800000 \<le> a \<and> a < 0x900000" for a
    by (auto simp: accessible_def covers_def one_area_inv VM_READ_def VM_WRITE_def VM_STACK_def)
  show ?thesis
    using user_mem_check_exact[OF one_area_inv(1), of "0x8FF000" "0x1000" True]
      user_mem_check_exact[OF one_area_inv(1), of "0x8FF000" "0x1001" True]
    by (auto simp: acc[unfolded One_nat_def] dest!: spec[of "\<lambda>a. a < 9437185 \<longrightarrow> _ a" "0x900000::nat"])
qed

text \<open>C5. Page faults: on a well-formed descriptor and address space, with the reference counts of
  the free frames zero, \<open>do_pgfault\<close> returns.  It returns 0 only if an area of the descriptor contains
  the address and allows the access; the page of the address, until then unmapped, is then mapped to
  one fresh frame with the permissions of the area, and nothing else has changed.  Otherwise it
  returns an error code, which is \<open>-E_INVAL\<close> for an access that no area allows, and no mapping has
  changed.\<close>

theorem do_pgfault_resolves:
  assumes "mm_inv s m vs" "pgdir (mms s m) = Some pg" "pt_inv (pt s) pg F" "\<forall>p \<in> F. page_ref p (pt s) = 0"
  shows "\<exists>r s'. do_pgfault (Some m) ec addr s = Some (r, s') \<and> mm_inv s' m vs
    \<and> (if r = 0
       then \<exists>v \<in> set vs. covers s (ROUNDDOWN addr PGSIZE) v \<and> allows (vm_flags (vmas s v)) ec
         \<and> maps_fresh (pt s) pg F (ROUNDDOWN addr PGSIZE) (fault_perm (vm_flags (vmas s v))) (pt s')
       else maps_nothing (pt s) pg F (pt s') \<and> (r = - E_NO_MEM \<or> r = - E_INVAL)
         \<and> ((\<forall>v \<in> set vs. covers s (ROUNDDOWN addr PGSIZE) v \<longrightarrow> \<not> allows (vm_flags (vmas s v)) ec) \<longrightarrow> r = - E_INVAL))"
proof -
  let ?la = "ROUNDDOWN addr PGSIZE"
  have same: "maps_nothing (pt s) pg F (pt s)" using assms(3) by (auto simp: maps_nothing_def)
  note d = do_pgfault_cases[OF assms(1,2), of ec addr]
  show ?thesis
  proof (cases "USER_ACCESS addr (addr_add addr 1) \<and> find (covers s ?la) vs \<noteq> None")
    case False
    then show ?thesis using d same assms(1) by (auto split: option.splits)
  next
    case True
    then obtain v where v: "find (covers s ?la) vs = Some v" by auto
    then have vs: "v \<in> set vs" "covers s ?la v" by (auto simp: find_Some_iff)
    let ?fl = "vm_flags (vmas s v)" and ?s1 = "cache_area m (Some v) s"
    have inv1: "mm_inv ?s1 m vs" using cache_area_inv[OF assms(1), of ?la] v by simp
    have "?la < 2 ^ 39" using True by (auto simp: USER_ACCESS_def ROUNDDOWN_def addr_add_def)
    from pgfault_map_ok[OF assms(3,4) this, of ?fl] obtain r p where
      p: "pgfault_map pg ?la ?fl (pt s) = Some (r, p)"
        "if r = 0 then maps_fresh (pt s) pg F ?la (fault_perm ?fl) p
         else (r = - E_NO_MEM \<or> r = - E_INVAL) \<and> maps_nothing (pt s) pg F p" by blast
    have inv2: "mm_inv (?s1\<lparr>pt := p\<rparr>) m vs" using inv1 by (simp add: mm_inv_def before_def[abs_def])
    show ?thesis
    proof (cases "allows ?fl ec")
      case False
      then show ?thesis using d v True inv1 same vs by (auto simp: Let_def)
    next
      case al: True
      then have "do_pgfault (Some m) ec addr s = Some (r, ?s1\<lparr>pt := p\<rparr>)" using d v True p(1) by (simp add: Let_def)
      then show ?thesis using p(2) inv2 vs al by (auto split: if_splits)
    qed
  qed
qed

text \<open>A write to the area of the example.\<close>

theorem do_pgfault_resolves_witness:
  "\<exists>r s'. do_pgfault (Some 0) 1 0x812345 one_area = Some (r, s') \<and> mm_inv s' 0 [1]
    \<and> (r = 0 \<longrightarrow> (\<exists>G. pt_inv (pt s') 100 G) \<and> mapping (pt s') 100 0x812000 \<noteq> None)"
proof -
  have z: "\<forall>p \<in> {0..<6}. page_ref p (pt one_area) = 0"
    by (simp add: one_area_inv(2) page_ref_def empty_space_def area6_def)
  have la: "ROUNDDOWN 0x812345 PGSIZE = 0x812000" by (simp add: ROUNDDOWN_def)
  have "pt_inv (pt one_area) 100 {0..<6}" using empty_space_inv(1) by (simp add: one_area_inv(2))
  from do_pgfault_resolves[OF one_area_inv(1,3) this z, of 1 "0x812345", unfolded la]
  show ?thesis unfolding maps_fresh_def by (fastforce split: if_splits)
qed

end
