(* ===== verification/Proc_Life.thy ===== *)
theory Proc_Life
  imports Sched
begin

unbundle bit_operations_syntax

text \<open>
  The life of a process in the process table, \<open>kern/process/proc.c\<close>: the parts of \<open>do_exit\<close> and
  \<open>do_wait\<close> that work on the table, the family and the scheduler, and \<open>do_kill\<close>, \<open>do_yield\<close>,
  \<open>do_sleep\<close> and \<open>lab6_set_priority\<close>.  What these functions do with memory and files is added
  in \<open>Proc_Ops\<close>.  The family of all processes is abstracted to a function from a process to the
  list of its children, youngest first; linking, exiting and reaping are shown to implement
  the operations of that abstract family.
\<close>

section \<open>Operations\<close>

definition do_yield :: "kstate \<Rightarrow> int \<times> kstate" where
  "do_yield s = (0, upd_proc (current s) (need_resched_update (\<lambda>_. True)) s)"

definition lab6_set_priority :: "32 word \<Rightarrow> kstate \<Rightarrow> kstate" where
  "lab6_set_priority priority s =
     (if priority = 0 then upd_proc (current s) (lab6_priority_update (\<lambda>_. 1)) s
      else upd_proc (current s) (lab6_priority_update (\<lambda>_. priority)) s)"

definition do_kill :: "sched_class \<Rightarrow> int \<Rightarrow> kstate \<Rightarrow> (int \<times> kstate) option" where
  "do_kill sc n s = do {
     r \<leftarrow> find_proc n s;
     (case r of
        None \<Rightarrow> Some (- E_INVAL, s)
      | Some p \<Rightarrow>
          if flags (procs s p) AND PF_EXITING = 0
          then do {
            let s1 = upd_proc p (flags_update (\<lambda>f. f OR PF_EXITING)) s;
            s2 \<leftarrow> (if wait_state (procs s1 p) AND WT_INTERRUPTED \<noteq> 0 then wakeup_proc sc p s1 else Some s1);
            Some (0, s2) }
          else Some (- E_KILLED, s)) }"

text \<open>\<open>do_sleep\<close> with \<open>t\<close> the address of its local timer: it returns at once, or the caller sleeps and
  continues with \<open>do_sleep_resume\<close>.\<close>

definition do_sleep :: "sched_class \<Rightarrow> nat \<Rightarrow> nat \<Rightarrow> kstate \<Rightarrow> (bool \<times> kstate) option" where
  "do_sleep sc t time s =
     (if time = 0 then Some (True, s)
      else do {
        let s1 = timer_init t (current s) time s;
        let s2 = upd_proc (current s1) (\<lambda>p. p\<lparr>state := PROC_SLEEPING, wait_state := WT_TIMER\<rparr>) s1;
        s3 \<leftarrow> add_timer t s2;
        s4 \<leftarrow> schedule sc s3;
        Some (False, s4) })"

definition do_sleep_resume :: "nat \<Rightarrow> kstate \<Rightarrow> int \<times> kstate" where
  "do_sleep_resume t s = (0, del_timer t s)"

text \<open>One round of the loop of \<open>do_exit\<close>: the first child \<open>p\<close> of the current process becomes the
  youngest child of \<open>initproc\<close>.\<close>

definition adopt :: "nat \<Rightarrow> kstate \<Rightarrow> kstate" where
  "adopt p s =
     (let i = initproc s;
          s1 = upd_proc (current s) (cptr_update (\<lambda>_. optr (procs s p))) s;
          s2 = upd_proc p (yptr_update (\<lambda>_. None)) s1;
          s3 = upd_proc p (optr_update (\<lambda>_. cptr (procs s2 i))) s2;
          s4 = (case cptr (procs s3 i) of
                  None \<Rightarrow> s3
                | Some y \<Rightarrow> upd_proc y (yptr_update (\<lambda>_. Some p)) s3);
          s5 = upd_proc p (pparent_update (\<lambda>_. Some i)) s4
      in upd_proc i (cptr_update (\<lambda>_. Some p)) s5)"

partial_function (option) reparent_loop :: "sched_class \<Rightarrow> kstate \<Rightarrow> kstate option" where
  "reparent_loop sc s =
     (case cptr (procs s (current s)) of
        None \<Rightarrow> Some s
      | Some p \<Rightarrow> do {
          let s1 = adopt p s;
          s2 \<leftarrow> (if state (procs s1 p) = PROC_ZOMBIE \<and> wait_state (procs s1 (initproc s1)) = WT_CHILD
                then wakeup_proc sc (initproc s1) s1 else Some s1);
          reparent_loop sc s2 })"

declare reparent_loop.simps [code]

text \<open>The end of \<open>do_exit\<close>, from the change of the state on.  The panic behind the call of
  \<open>schedule\<close> is reached when the process that has exited runs again.\<close>

definition do_exit_tail :: "sched_class \<Rightarrow> int \<Rightarrow> kstate \<Rightarrow> kstate option" where
  "do_exit_tail sc error_code s = do {
     let s1 = upd_proc (current s) (\<lambda>p. p\<lparr>state := PROC_ZOMBIE, exit_code := error_code\<rparr>) s;
     p \<leftarrow> pparent (procs s1 (current s1));
     s2 \<leftarrow> (if wait_state (procs s1 p) = WT_CHILD then wakeup_proc sc p s1 else Some s1);
     s3 \<leftarrow> reparent_loop sc s2;
     s4 \<leftarrow> schedule sc s3;
     kassert (current s4 \<noteq> current s);
     Some s4 }"

text \<open>\<open>do_wait\<close>: the search for a child that has exited, whether there is a child to wait for, and
  the two ways on.\<close>

partial_function (option) wait_children :: "kstate \<Rightarrow> nat option \<Rightarrow> bool \<Rightarrow> (bool \<times> nat option) option" where
  "wait_children s p haskid =
     (case p of
        None \<Rightarrow> Some (haskid, None)
      | Some q \<Rightarrow>
          if state (procs s q) = PROC_ZOMBIE then Some (True, Some q)
          else wait_children s (optr (procs s q)) True)"

declare wait_children.simps [code]

definition wait_search :: "int \<Rightarrow> kstate \<Rightarrow> (bool \<times> nat option) option" where
  "wait_search n s =
     (if n \<noteq> 0
      then do {
        r \<leftarrow> find_proc n s;
        Some (case r of
            None \<Rightarrow> (False, None)
          | Some p \<Rightarrow>
              if pparent (procs s p) = Some (current s)
              then (True, if state (procs s p) = PROC_ZOMBIE then Some p else None)
              else (False, None)) }
      else wait_children s (cptr (procs s (current s))) False)"

definition wait_sleep :: "sched_class \<Rightarrow> kstate \<Rightarrow> kstate option" where
  "wait_sleep sc s =
     schedule sc (upd_proc (current s) (\<lambda>p. p\<lparr>state := PROC_SLEEPING, wait_state := WT_CHILD\<rparr>) s)"

definition wait_unlink :: "nat \<Rightarrow> kstate \<Rightarrow> kstate option" where
  "wait_unlink p s = remove_links p (unhash_proc p s)"

text \<open>The parts of \<open>do_fork\<close> that enter the new process \<open>p\<close> into the table: parent and number, then
  hash table, family and run queue.\<close>

definition fork_number :: "nat \<Rightarrow> kstate \<Rightarrow> kstate option" where
  "fork_number p s = do {
     let s1 = upd_proc p (pparent_update (\<lambda>_. Some (current s))) s;
     kassert (wait_state (procs s1 (current s1)) = 0);
     (n, s2) \<leftarrow> get_pid s1;
     Some (upd_proc p (pid_update (\<lambda>_. n)) s2) }"

definition fork_link :: "sched_class \<Rightarrow> nat \<Rightarrow> kstate \<Rightarrow> kstate option" where
  "fork_link sc p s = do {
     let s1 = hash_proc p s;
     s2 \<leftarrow> set_links p s1;
     wakeup_proc sc p s2 }"

section \<open>The abstract family\<close>

text \<open>\<open>kids s q y xs\<close>: the children of \<open>q\<close> are \<open>xs\<close>, and the youngest has the younger sibling \<open>y\<close>.\<close>

definition kids :: "kstate \<Rightarrow> nat \<Rightarrow> nat option \<Rightarrow> nat list \<Rightarrow> bool" where
  "kids s q y xs \<longleftrightarrow> distinct (q # xs) \<and> cptr (procs s q) = opt_hd xs \<and> sibs s q y xs"

text \<open>The family \<open>F\<close> of the processes \<open>P\<close>; the chain of \<open>c\<close> may still hang on the sibling \<open>y\<close> while
  its children are moved.\<close>

definition family_at :: "nat \<Rightarrow> nat option \<Rightarrow> kstate \<Rightarrow> nat set \<Rightarrow> (nat \<Rightarrow> nat list) \<Rightarrow> bool" where
  "family_at c y s P F \<longleftrightarrow> (\<forall>q \<in> P. kids s q (if q = c then y else None) (F q) \<and> set (F q) \<subseteq> P)"

abbreviation family :: "kstate \<Rightarrow> nat set \<Rightarrow> (nat \<Rightarrow> nat list) \<Rightarrow> bool" where
  "family s P F \<equiv> family_at 0 None s P F"

lemma family_any: "family_at c None s P F \<longleftrightarrow> family s P F"
  by (simp add: family_at_def)

lemma sibs_parent: "sibs s q y xs \<Longrightarrow> x \<in> set xs \<Longrightarrow> pparent (procs s x) = Some q"
  by (induction xs arbitrary: y) auto

text \<open>A process has one parent, so it is the child of one process only.\<close>

lemma family_parent: "family_at c y s P F \<Longrightarrow> q \<in> P \<Longrightarrow> x \<in> set (F q) \<Longrightarrow> pparent (procs s x) = Some q"
  by (auto simp: family_at_def kids_def intro: sibs_parent)

lemma family_disjoint:
  assumes "family_at c y s P F" "q \<in> P" "r \<in> P" "q \<noteq> r"
  shows "set (F q) \<inter> set (F r) = {}"
proof -
  have False if "x \<in> set (F q)" "x \<in> set (F r)" for x
    using family_parent[OF assms(1,2) that(1)] family_parent[OF assms(1,3) that(2)] assms(4) by simp
  then show ?thesis by blast
qed

lemma family_done:
  assumes "family_at c y s P F" "F c = []"
  shows "family s P F"
proof -
  have "kids s q (if q = c then y else None) (F q) = kids s q None (F q)" for q
    using assms(2) by (simp add: kids_def)
  with assms(1) show ?thesis by (simp add: family_at_def)
qed

lemma kids_children: "kids s q None xs = children s q xs"
  by (simp add: kids_def children_def)

lemma family_children: "family s P F \<Longrightarrow> q \<in> P \<Longrightarrow> children s q (F q)"
  by (simp add: family_at_def kids_children)

lemma proc_frameD:
  assumes "proc_frame s s'"
  shows "pid (procs s' p) = pid (procs s p)" "flags (procs s' p) = flags (procs s p)"
    "exit_code (procs s' p) = exit_code (procs s p)" "pparent (procs s' p) = pparent (procs s p)"
    "cptr (procs s' p) = cptr (procs s p)" "yptr (procs s' p) = yptr (procs s p)"
    "optr (procs s' p) = optr (procs s p)" "mm (procs s' p) = mm (procs s p)"
    "initproc s' = initproc s" "idleproc s' = idleproc s"
    "kstack (procs s' p) = kstack (procs s p)" "filesp (procs s' p) = filesp (procs s p)"
  using assms unfolding proc_frame_def proc_id_def by (auto dest: spec[of _ p])

lemma sibs_frame: "proc_frame s s' \<Longrightarrow> sibs s' q y xs = sibs s q y xs"
  by (rule sibs_cong) (simp add: proc_frameD)

lemma family_frame: "proc_frame s s' \<Longrightarrow> family_at c y s' P F = family_at c y s P F"
  by (simp add: family_at_def kids_def sibs_frame proc_frameD)

lemma hash_inv_frame: "proc_frame s s' \<Longrightarrow> hash_inv s' ch = hash_inv s ch"
  by (simp add: hash_inv_def proc_frameD(1)) (simp add: proc_frame_def)

section \<open>Linking, adopting and removing\<close>

text \<open>A chain whose first member is given another younger sibling.\<close>

lemma sibs_retarget:
  assumes "sibs s q y xs" "distinct xs"
    and "\<And>x. x \<in> set xs \<Longrightarrow> optr (procs s' x) = optr (procs s x) \<and> pparent (procs s' x) = pparent (procs s x)"
    and "\<And>x. x \<in> set xs \<Longrightarrow> opt_hd xs \<noteq> Some x \<Longrightarrow> yptr (procs s' x) = yptr (procs s x)"
    and "\<And>x. opt_hd xs = Some x \<Longrightarrow> yptr (procs s' x) = y'"
  shows "sibs s' q y' xs"
proof (cases xs)
  case (Cons x zs)
  with assms have "sibs s' q (Some x) zs" by (subst sibs_cong[where s = s]) auto
  with assms Cons show ?thesis by simp
qed simp

lemma opt_hd_in: "opt_hd xs = Some x \<Longrightarrow> x \<in> set xs"
  by (cases xs) auto

lemma parent_upd:
  "yptr (procs (upd_proc p (pparent_update f) s) x) = yptr (procs s x)"
  "optr (procs (upd_proc p (pparent_update f) s) x) = optr (procs s x)"
  "cptr (procs (upd_proc p (pparent_update f) s) x) = cptr (procs s x)"
  "pparent (procs (upd_proc p (pparent_update f) s) x)
     = (if x = p then f (pparent (procs s x)) else pparent (procs s x))"
  by simp_all

lemma adopt_fields:
  assumes "current s \<noteq> initproc s" "cptr (procs s (initproc s)) = opt_hd xs" "p \<notin> set xs"
  shows "cptr (procs (adopt p s) x) = (if x = initproc s then Some p
      else if x = current s then optr (procs s p) else cptr (procs s x))"
    and "yptr (procs (adopt p s) x) = (if x = p then None
      else if opt_hd xs = Some x then Some p else yptr (procs s x))"
    and "optr (procs (adopt p s) x) = (if x = p then opt_hd xs else optr (procs s x))"
    and "pparent (procs (adopt p s) x) = (if x = p then Some (initproc s) else pparent (procs s x))"
  using assms
  by (cases xs; auto simp: adopt_def Let_def family_upd parent_upd simp del: upd_proc_simps(1))+

text \<open>The fields that do not belong to the family.\<close>

definition proc_rest :: "proc_struct \<Rightarrow> ((proc_state \<times> 32 word \<times> nat) \<times> int \<times> 32 word \<times> int)
    \<times> (bool \<times> int \<times> 32 word \<times> 32 word) \<times> nat \<times> nat option \<times> nat option" where
  "proc_rest pr = (((state pr, wait_state pr, pgdir pr), pid pr, flags pr, exit_code pr),
     (on_rq pr, time_slice pr, lab6_stride pr, lab6_priority pr), kstack pr, mm pr, filesp pr)"

lemma proc_rest_upd [simp]:
  "proc_rest (procs (upd_proc p (yptr_update f) s) x) = proc_rest (procs s x)"
  "proc_rest (procs (upd_proc p (optr_update f) s) x) = proc_rest (procs s x)"
  "proc_rest (procs (upd_proc p (cptr_update f) s) x) = proc_rest (procs s x)"
  "proc_rest (procs (upd_proc p (pparent_update f) s) x) = proc_rest (procs s x)"
  by (simp_all add: proc_rest_def)

lemma proc_restD:
  assumes "proc_rest p = proc_rest q"
  shows "state p = state q" "wait_state p = wait_state q" "pgdir p = pgdir q" "pid p = pid q"
    "flags p = flags q" "exit_code p = exit_code q" "on_rq p = on_rq q" "time_slice p = time_slice q"
    "lab6_stride p = lab6_stride q" "lab6_priority p = lab6_priority q"
    "kstack p = kstack q" "mm p = mm q" "filesp p = filesp q"
  using assms by (simp_all add: proc_rest_def)

lemma adopt_rest: "proc_rest (procs (adopt p s) x) = proc_rest (procs s x)"
  by (simp add: adopt_def Let_def split: option.split del: upd_proc_simps(1))

lemma adopt_simps [simp]:
  "current (adopt p s) = current s" "idleproc (adopt p s) = idleproc s" "initproc (adopt p s) = initproc s"
  "proc_links (adopt p s) = proc_links s" "hash_links (adopt p s) = hash_links s"
  "nr_process (adopt p s) = nr_process s" "satp (adopt p s) = satp s"
  "run_links (adopt p s) = run_links s" "proc_num (adopt p s) = proc_num s"
  "max_time_slice (adopt p s) = max_time_slice s" "lab6_run_pool (adopt p s) = lab6_run_pool s"
  "pool (adopt p s) = pool s" "last_pid (adopt p s) = last_pid s" "next_safe (adopt p s) = next_safe s"
  by (simp_all add: adopt_def Let_def split: option.split del: upd_proc_simps(1))

lemmas adopt_proc [simp] = proc_restD[OF adopt_rest]

lemma adopt_same_queue: "same_queue s (adopt p s)"
  by (simp add: same_queue_def)

lemma adopt_family:
  assumes fam: "family_at c y s P F" and c: "F c = p # cs" "c = current s" "c \<noteq> initproc s"
    and P: "c \<in> P" "initproc s \<in> P" and pne: "p \<noteq> initproc s"
  shows "family_at c (Some p) (adopt p s) P (F(c := cs, initproc s := p # F (initproc s)))"
proof -
  let ?i = "initproc s" and ?s = "adopt p s" and ?F = "F(c := cs, initproc s := p # F (initproc s))"
  have k: "kids s q (if q = c then y else None) (F q)" "set (F q) \<subseteq> P" if "q \<in> P" for q
    using fam that by (auto simp: family_at_def)
  have dj: "set (F q) \<inter> set (F r) = {}" if "q \<in> P" "r \<in> P" "q \<noteq> r" for q r
    using family_disjoint[OF fam that] .
  have ki: "cptr (procs s ?i) = opt_hd (F ?i)" "distinct (?i # F ?i)" "sibs s ?i None (F ?i)"
    using k(1)[OF P(2)] c(3) by (auto simp: kids_def)
  have kc: "distinct (c # p # cs)" "sibs s c (Some p) cs" "optr (procs s p) = opt_hd cs"
    using k(1)[OF P(1)] c(1) by (auto simp: kids_def)
  have pi: "p \<notin> set (F ?i)" "set cs \<inter> set (F ?i) = {}" using dj[OF P c(3)] c(1) by auto
  note f = adopt_fields[OF c(3)[unfolded c(2)] ki(1) pi(1)]
  have "kids ?s q (if q = c then Some p else None) (?F q)" if q: "q \<in> P" for q
  proof -
    consider "q = c" | "q = ?i" | "q \<noteq> c" "q \<noteq> ?i" by blast
    then show ?thesis
    proof cases
      case 1
      have "sibs ?s c (Some p) cs"
        using kc(1,2) pi(2) by (subst sibs_cong[where s = s]) (auto simp: f dest: opt_hd_in)
      with 1 kc c(2,3) show ?thesis by (auto simp: kids_def f)
    next
      case 2
      have "sibs ?s ?i (Some p) (F ?i)"
        using ki pi(1) by (intro sibs_retarget[OF ki(3)]) (auto simp: f dest: opt_hd_in)
      with 2 ki pi(1) c(3) pne show ?thesis by (auto simp: kids_def f)
    next
      case 3
      have "p \<notin> set (F q)" "set (F q) \<inter> set (F ?i) = {}" using dj[OF q P(1) 3(1)] dj[OF q P(2) 3(2)] c(1) by auto
      then have "sibs ?s q None (F q)"
        using k(1)[OF q] 3 by (subst sibs_cong[where s = s]) (auto simp: f kids_def dest: opt_hd_in)
      with 3 k(1)[OF q] c(2) show ?thesis by (auto simp: kids_def f)
    qed
  qed
  moreover have "p \<in> P" "set cs \<subseteq> P" using k(2)[OF P(1)] c(1) by auto
  ultimately show ?thesis
    using k(2) P unfolding family_at_def by simp
qed

text \<open>What \<open>set_links\<close> and \<open>remove_links\<close> leave alone.\<close>

lemma set_links_fields:
  assumes "set_links p s = Some s'" "pparent (procs s p) = Some q" "cptr (procs s q) = opt_hd xs" "p \<notin> set (q # xs)"
  shows "yptr (procs s' x) = (if x = p then None else if opt_hd xs = Some x then Some p else yptr (procs s x))"
    "optr (procs s' x) = (if x = p then opt_hd xs else optr (procs s x))"
    "cptr (procs s' x) = (if x = q then Some p else cptr (procs s x))"
    "pparent (procs s' x) = pparent (procs s x)" "proc_rest (procs s' x) = proc_rest (procs s x)"
  using assms
  by (cases xs; auto simp: set_links_def Let_def family_upd simp del: upd_proc_simps(1))+

lemma set_links_rest:
  assumes "set_links p s = Some s'"
  shows "last_pid s' = last_pid s" "next_safe s' = next_safe s" "hash_links s' = hash_links s" "current s' = current s" "idleproc s' = idleproc s"
    "initproc s' = initproc s" "satp s' = satp s" "run_links s' = run_links s" "proc_num s' = proc_num s"
    "max_time_slice s' = max_time_slice s" "lab6_run_pool s' = lab6_run_pool s" "pool s' = pool s"
  using assms by (auto simp: set_links_def Let_def simp del: upd_proc_simps(1) split: option.splits)

lemma set_links_family_all:
  assumes fam: "family s P F" and pl: "plist s ps" and p: "pparent (procs s p) = Some q" "q \<in> P"
    "p \<notin> P" "p \<notin> set ps" "cptr (procs s p) = None"
  shows "\<exists>s'. set_links p s = Some s' \<and> family s' (insert p P) (F(q := p # F q, p := []))
    \<and> plist s' (p # ps) \<and> nr_process s' = nr_process s + 1"
proof -
  have ch: "children s q (F q)" using family_children[OF fam p(2)] .
  have sub: "set (F r) \<subseteq> P" if "r \<in> P" for r using fam that by (simp add: family_at_def)
  have out: "p \<notin> set (q # F q)" using p(2,3) sub by auto
  from set_links_family[OF ch pl p(1) out p(4)] obtain s' where
    s': "set_links p s = Some s'" "children s' q (p # F q)" "plist s' (p # ps)" "nr_process s' = nr_process s + 1"
    by blast
  have "cptr (procs s q) = opt_hd (F q)" using ch by (simp add: children_def)
  note f = set_links_fields[OF s'(1) p(1) this out]
  have "children s' r (F r)" if r: "r \<in> P" "r \<noteq> q" for r
  proof -
    have "children s r (F r)" using family_children[OF fam r(1)] .
    moreover have "p \<notin> set (F r)" "set (F r) \<inter> set (F q) = {}"
      using sub[OF r(1)] p(3) family_disjoint[OF fam r(1) p(2) r(2)] by auto
    then have "sibs s' r None (F r) = sibs s r None (F r)"
      by (intro sibs_cong) (auto simp: f dest: opt_hd_in)
    ultimately show ?thesis using r(2) by (simp add: children_def f)
  qed
  moreover have "children s' p []" using out p(5) by (simp add: children_def f)
  ultimately have "family s' (insert p P) (F(q := p # F q, p := []))"
    using s'(2) sub p(2,3) by (auto simp: family_at_def kids_children)
  with s' show ?thesis by blast
qed

lemma remove_links_fields:
  assumes "remove_links p s = Some s'" "sibs s q None (us @ p # vs)"
  shows "x \<notin> set (us @ vs) \<Longrightarrow> yptr (procs s' x) = yptr (procs s x) \<and> optr (procs s' x) = optr (procs s x)"
    "x \<noteq> q \<Longrightarrow> cptr (procs s' x) = cptr (procs s x)"
    "pparent (procs s' x) = pparent (procs s x)" "proc_rest (procs s' x) = proc_rest (procs s x)"
proof -
  from sibs_split[OF assms(2)] have pp: "yptr (procs s p) = (if us = [] then None else Some (last us))"
    "optr (procs s p) = opt_hd vs" "pparent (procs s p) = Some q" by auto
  have lu: "last us \<in> set us" if "us \<noteq> []" using that by simp
  have hv: "\<And>y. opt_hd vs = Some y \<Longrightarrow> y \<in> set vs" by (rule opt_hd_in)
  show "x \<notin> set (us @ vs) \<Longrightarrow> yptr (procs s' x) = yptr (procs s x) \<and> optr (procs s' x) = optr (procs s x)"
    "x \<noteq> q \<Longrightarrow> cptr (procs s' x) = cptr (procs s x)"
    "pparent (procs s' x) = pparent (procs s x)" "proc_rest (procs s' x) = proc_rest (procs s x)"
    using assms(1) pp lu hv
    by (auto simp: remove_links_def Let_def family_upd simp del: upd_proc_simps(1) split: if_splits option.splits)
qed

lemma remove_links_rest:
  assumes "remove_links p s = Some s'"
  shows "last_pid s' = last_pid s" "next_safe s' = next_safe s" "hash_links s' = hash_links s" "current s' = current s" "idleproc s' = idleproc s"
    "initproc s' = initproc s" "satp s' = satp s" "run_links s' = run_links s" "proc_num s' = proc_num s"
    "max_time_slice s' = max_time_slice s" "lab6_run_pool s' = lab6_run_pool s" "pool s' = pool s"
  using assms by (auto simp: remove_links_def Let_def simp del: upd_proc_simps(1) split: option.splits)

lemma remove_links_family_all:
  assumes fam: "family s P F" and pl: "plist s (ps @ p # rs)" and p: "q \<in> P" "F q = us @ p # vs"
  shows "\<exists>s'. remove_links p s = Some s' \<and> family s' (P - {p}) (F(q := us @ vs))
    \<and> plist s' (ps @ rs) \<and> nr_process s' = nr_process s - 1"
proof -
  have ch: "children s q (us @ p # vs)" using family_children[OF fam p(1)] p(2) by simp
  have sub: "set (F r) \<subseteq> P" if "r \<in> P" for r using fam that by (simp add: family_at_def)
  from remove_links_family[OF ch pl] obtain s' where
    s': "remove_links p s = Some s'" "children s' q (us @ vs)" "plist s' (ps @ rs)" "nr_process s' = nr_process s - 1"
    by blast
  have sb: "sibs s q None (us @ p # vs)" using ch by (simp add: children_def)
  note f = remove_links_fields[OF s'(1) sb]
  have "children s' r (F r)" if r: "r \<in> P" "r \<noteq> q" for r
  proof -
    have "children s r (F r)" using family_children[OF fam r(1)] .
    moreover have "set (F r) \<inter> set (us @ p # vs) = {}" using family_disjoint[OF fam r(1) p(1) r(2)] p(2) by simp
    then have "sibs s' r None (F r) = sibs s r None (F r)"
      using f(1) by (intro sibs_cong) (auto simp: f(3))
    ultimately show ?thesis using f(2)[OF r(2)] by (simp add: children_def)
  qed
  moreover have "p \<notin> set (F r)" if "r \<in> P" "r \<noteq> q" for r
    using family_disjoint[OF fam that(1) p(1) that(2)] p(2) by auto
  moreover have "p \<notin> set (us @ vs)" using ch by (auto simp: children_def)
  ultimately have "family s' (P - {p}) (F(q := us @ vs))"
    using s'(2) sub sub[OF p(1)] p(2) unfolding family_at_def
    by (auto simp: kids_children split: if_splits)
  with s' show ?thesis by blast
qed

section \<open>Waking, sleeping and exiting under any scheduling class\<close>

text \<open>The states of all processes but those in \<open>A\<close> are kept.\<close>

definition states_kept :: "nat set \<Rightarrow> kstate \<Rightarrow> kstate \<Rightarrow> bool" where
  "states_kept A s s' \<longleftrightarrow> (\<forall>q. q \<notin> A \<longrightarrow> state (procs s' q) = state (procs s q) \<and> wait_state (procs s' q) = wait_state (procs s q))"

lemma states_kept_trans: "states_kept A s t \<Longrightarrow> states_kept A t u \<Longrightarrow> states_kept A s u"
  by (simp add: states_kept_def)

lemma states_kept_mono: "states_kept A s t \<Longrightarrow> A \<subseteq> B \<Longrightarrow> states_kept B s t"
  by (auto simp: states_kept_def)

text \<open>Only a process that sleeps has a wait state.\<close>

definition wait_ok :: "kstate \<Rightarrow> nat \<Rightarrow> bool" where
  "wait_ok s p \<longleftrightarrow> (wait_state (procs s p) \<noteq> 0 \<longrightarrow> state (procs s p) = PROC_SLEEPING)"

lemma wait_ok_kept: "states_kept A s s' \<Longrightarrow> x \<notin> A \<Longrightarrow> wait_ok s' x = wait_ok s x"
  by (simp add: states_kept_def wait_ok_def)

text \<open>The process table is kept, up to the family.\<close>

definition table_kept :: "kstate \<Rightarrow> kstate \<Rightarrow> bool" where
  "table_kept s s' \<longleftrightarrow> proc_links s' = proc_links s \<and> hash_links s' = hash_links s
     \<and> nr_process s' = nr_process s \<and> idleproc s' = idleproc s \<and> initproc s' = initproc s
     \<and> last_pid s' = last_pid s \<and> next_safe s' = next_safe s
     \<and> (\<forall>p. pid (procs s' p) = pid (procs s p) \<and> flags (procs s' p) = flags (procs s p))"

lemma table_kept_trans [trans]: "table_kept s t \<Longrightarrow> table_kept t u \<Longrightarrow> table_kept s u"
  by (simp add: table_kept_def)

lemma table_kept_refl [simp]: "table_kept s s"
  by (simp add: table_kept_def)

lemma proc_frame_table: "proc_frame s s' \<Longrightarrow> table_kept s s'"
  by (simp add: table_kept_def proc_frameD(1,2)) (simp add: proc_frame_def)

lemma hash_inv_table: "table_kept s s' \<Longrightarrow> hash_inv s' ch = hash_inv s ch"
  by (simp add: hash_inv_def table_kept_def)

context scheduler
begin

lemma wakeup_full:
  assumes "sched_inv rel detached s P" "p \<in> P" "state (procs s p) \<noteq> PROC_ZOMBIE"
  shows "\<exists>s'. wakeup_proc sc p s = Some s' \<and> sched_inv rel detached s' P \<and> proc_frame s s'
    \<and> states_kept {p} s s' \<and> state (procs s' p) = PROC_RUNNABLE \<and> current s' = current s
    \<and> (\<forall>x. wait_ok s x \<longrightarrow> wait_ok s' x)"
proof -
  from wakeup_ok[OF assms] obtain s' where s': "wakeup_proc sc p s = Some s'" "sched_inv rel detached s' P"
    "proc_frame s s'" "states_kept {p} s s'" "state (procs s' p) = PROC_RUNNABLE" "current s' = current s"
    by (auto simp: states_kept_def)
  have "wait_ok s' x" if "wait_ok s x" for x
    using that wait_ok_kept[OF s'(4), of x] wakeup_wait_state[OF assms s'(1)]
    by (cases "x = p") (auto simp: wait_ok_def split: if_splits)
  with s' show ?thesis by blast
qed

text \<open>A wake-up under a condition.\<close>

lemma wakeup_if:
  assumes "sched_inv rel detached s P" "p \<in> P" "state (procs s p) \<noteq> PROC_ZOMBIE"
  shows "\<exists>s'. (if b then wakeup_proc sc p s else Some s) = Some s' \<and> sched_inv rel detached s' P
    \<and> proc_frame s s' \<and> states_kept {p} s s' \<and> current s' = current s
    \<and> (state (procs s' p) = state (procs s p) \<or> state (procs s' p) = PROC_RUNNABLE)
    \<and> (b \<longrightarrow> state (procs s' p) = PROC_RUNNABLE) \<and> (\<not> b \<longrightarrow> s' = s)
    \<and> (\<forall>x. wait_ok s x \<longrightarrow> wait_ok s' x)"
proof (cases b)
  case True
  then show ?thesis using wakeup_full[OF assms] by auto
next
  case False
  then show ?thesis using assms(1) by (simp add: states_kept_def)
qed

lemma sched_inv_same:
  assumes "sched_inv rel detached s P" "same_queue s s'" "current s' = current s" "idleproc s' = idleproc s"
    "satp s' = satp s" "\<And>q. pgdir (procs s' q) = pgdir (procs s q)"
    "\<And>q. q \<noteq> current s \<Longrightarrow> state (procs s' q) = state (procs s q)"
  shows "sched_inv rel detached s' P"
proof -
  have "waiting s' P = waiting s P" using assms by (auto simp: waiting_def runnable_def)
  with assms(1,3-6) rel_same[OF assms(2)] detached_same[OF assms(2)] show ?thesis
    by (auto simp: sched_inv_def)
qed

lemma reparent_loop_ok:
  assumes "sched_inv rel detached s P" "family_at c y s P F" "F c = cs" "c = current s" "i = initproc s" "c \<noteq> i"
    "c \<in> P" "i \<in> P" "i \<notin> set cs" "state (procs s i) \<noteq> PROC_ZOMBIE"
  shows "\<exists>s'. reparent_loop sc s = Some s' \<and> sched_inv rel detached s' P
    \<and> family s' P (F(c := [], i := rev cs @ F i)) \<and> states_kept {i} s s' \<and> table_kept s s'
    \<and> current s' = current s \<and> (\<forall>q. exit_code (procs s' q) = exit_code (procs s q))
    \<and> (state (procs s' i) = state (procs s i) \<or> state (procs s' i) = PROC_RUNNABLE)
    \<and> (\<forall>x. wait_ok s x \<longrightarrow> wait_ok s' x)
    \<and> (wait_state (procs s i) = WT_CHILD \<longrightarrow> (\<exists>z \<in> set cs. state (procs s z) = PROC_ZOMBIE)
        \<longrightarrow> state (procs s' i) = PROC_RUNNABLE)"
  using assms
proof (induction cs arbitrary: s y F)
  case Nil
  then have "cptr (procs s (current s)) = None" by (auto simp: family_at_def kids_def)
  moreover have F: "F(c := [], i := rev [] @ F i) = F" using Nil.prems(3,6) by auto
  ultimately show ?case unfolding F using Nil.prems(1,4-10) family_done[OF Nil.prems(2,3)]
    by (simp add: reparent_loop.simps[of sc s] states_kept_def)
next
  case (Cons p cs)
  let ?s1 = "adopt p s" and ?F = "F(c := cs, i := p # F i)"
  have cp: "cptr (procs s (current s)) = Some p"
    using Cons.prems(2-4,7) by (auto simp: family_at_def kids_def)
  have inv1: "sched_inv rel detached ?s1 P"
    using Cons.prems(1) adopt_same_queue by (rule sched_inv_same) simp_all
  have fam1: "family_at c (Some p) ?s1 P ?F"
    using adopt_family[OF Cons.prems(2,3,4)] Cons.prems(5-9) by auto
  define w where "w \<longleftrightarrow> state (procs s p) = PROC_ZOMBIE \<and> wait_state (procs s i) = WT_CHILD"
  have "state (procs ?s1 i) \<noteq> PROC_ZOMBIE" using Cons.prems(10) by simp
  from wakeup_if[OF inv1 Cons.prems(8) this, of w] obtain s2 where
    s2: "(if w then wakeup_proc sc i ?s1 else Some ?s1) = Some s2" "sched_inv rel detached s2 P"
      "proc_frame ?s1 s2" "states_kept {i} ?s1 s2" "current s2 = current s"
      "state (procs s2 i) = state (procs s i) \<or> state (procs s2 i) = PROC_RUNNABLE"
      "w \<longrightarrow> state (procs s2 i) = PROC_RUNNABLE" "\<not> w \<longrightarrow> s2 = ?s1"
      "\<forall>x. wait_ok s x \<longrightarrow> wait_ok s2 x" by (auto simp: wait_ok_def)
  have e: "reparent_loop sc s = reparent_loop sc s2"
    using cp s2(1) Cons.prems(5) by (auto simp: reparent_loop.simps[of sc s] w_def Let_def split: if_splits)
  have t2: "table_kept s s2"
    using table_kept_trans[OF _ proc_frame_table[OF s2(3)], of s] by (simp add: table_kept_def)
  have F: "?F(c := [], i := rev cs @ ?F i) = F(c := [], i := rev (p # cs) @ F i)"
    using Cons.prems(6) by (auto simp: fun_eq_iff)
  have kept: "states_kept {i} s s2" using s2(4) by (simp add: states_kept_def)
  have ex: "exit_code (procs s2 q) = exit_code (procs s q)" for q using proc_frameD(3)[OF s2(3)] by simp
  have z2: "state (procs s2 i) \<noteq> PROC_ZOMBIE" using s2(6) Cons.prems(10) by auto
  have f2: "family_at c (Some p) s2 P ?F" using fam1 by (simp add: family_frame[OF s2(3)])
  have i2: "i = initproc s2" using t2 Cons.prems(5) by (simp add: table_kept_def)
  have c2: "c = current s2" "?F c = cs" "i \<notin> set cs" using s2(5) Cons.prems(4,6,9) by auto
  from Cons.IH[OF s2(2) f2 c2(2,1) i2 Cons.prems(6-8) c2(3) z2]
  obtain s' where s': "reparent_loop sc s2 = Some s'" "sched_inv rel detached s' P"
    "family s' P (?F(c := [], i := rev cs @ ?F i))" "states_kept {i} s2 s'" "table_kept s2 s'"
    "current s' = current s2" "\<forall>q. exit_code (procs s' q) = exit_code (procs s2 q)"
    "state (procs s' i) = state (procs s2 i) \<or> state (procs s' i) = PROC_RUNNABLE"
    "wait_state (procs s2 i) = WT_CHILD \<longrightarrow> (\<exists>z \<in> set cs. state (procs s2 z) = PROC_ZOMBIE)
        \<longrightarrow> state (procs s' i) = PROC_RUNNABLE"
    "\<forall>x. wait_ok s2 x \<longrightarrow> wait_ok s' x"
    by blast
  have "state (procs s' i) = PROC_RUNNABLE"
    if wt: "wait_state (procs s i) = WT_CHILD" and z: "\<exists>z \<in> set (p # cs). state (procs s z) = PROC_ZOMBIE"
  proof (cases w)
    case True
    with s2(7) s'(8) show ?thesis by auto
  next
    case False
    with wt z have "\<exists>z \<in> set cs. state (procs s z) = PROC_ZOMBIE" by (auto simp: w_def)
    then obtain z where z: "z \<in> set cs" "state (procs s z) = PROC_ZOMBIE" by blast
    then have "z \<noteq> i" using c2(3) by auto
    with z kept have "state (procs s2 z) = PROC_ZOMBIE" by (simp add: states_kept_def)
    with z(1) have "\<exists>z \<in> set cs. state (procs s2 z) = PROC_ZOMBIE" by blast
    with s'(9) s2(8) False wt show ?thesis by simp
  qed
  moreover have "state (procs s' i) = state (procs s i) \<or> state (procs s' i) = PROC_RUNNABLE"
    using s'(8) s2(6) by auto
  moreover have "family s' P (F(c := [], i := rev (p # cs) @ F i))" using s'(3) unfolding F .
  moreover have "\<forall>q. exit_code (procs s' q) = exit_code (procs s q)" using s'(7) ex by simp
  moreover have "reparent_loop sc s = Some s'" "current s' = current s" using e s'(1,6) s2(5) by simp_all
  moreover have "\<forall>x. wait_ok s x \<longrightarrow> wait_ok s' x" using s2(9) s'(10) by blast
  ultimately show ?case
    using s'(2) states_kept_trans[OF kept s'(4)] table_kept_trans[OF t2 s'(5)] by blast
qed

lemma do_exit_tail_ok:
  assumes inv: "sched_inv rel detached s P" and fam: "family s P F" and c: "c = current s" "i = initproc s"
    "c \<noteq> i" "c \<noteq> idleproc s" "i \<in> P" "i \<notin> set (F c)" "state (procs s i) \<noteq> PROC_ZOMBIE"
    and q: "q \<in> P" "c \<in> set (F q)" "state (procs s q) \<noteq> PROC_ZOMBIE"
  shows "\<exists>s'. do_exit_tail sc code s = Some s' \<and> sched_inv rel detached s' P
    \<and> family s' P (F(c := [], i := rev (F c) @ F i)) \<and> states_kept {c, q, i} s s' \<and> table_kept s s'
    \<and> state (procs s' c) = PROC_ZOMBIE \<and> exit_code (procs s' c) = code
    \<and> (\<forall>x. x \<noteq> c \<longrightarrow> exit_code (procs s' x) = exit_code (procs s x))
    \<and> (if runnable s' P = {} then current s' = idleproc s else current s' \<in> runnable s' P)
    \<and> (\<forall>x \<in> {q, i}. state (procs s' x) = state (procs s x) \<or> state (procs s' x) = PROC_RUNNABLE)
    \<and> (\<forall>x. x \<noteq> c \<longrightarrow> wait_ok s x \<longrightarrow> wait_ok s' x) \<and> wait_state (procs s' c) = wait_state (procs s c)
    \<and> (wait_state (procs s q) = WT_CHILD \<longrightarrow> state (procs s' q) = PROC_RUNNABLE)
    \<and> (wait_state (procs s i) = WT_CHILD \<longrightarrow> (\<exists>z \<in> set (F c). state (procs s z) = PROC_ZOMBIE)
        \<longrightarrow> state (procs s' i) = PROC_RUNNABLE)"
proof -
  define s1 where "s1 = upd_proc c (\<lambda>p. p\<lparr>state := PROC_ZOMBIE, exit_code := code\<rparr>) s"
  have cP: "c \<in> P" using inv c(1) by (simp add: sched_inv_def)
  have qc: "q \<noteq> c" using family_children[OF fam q(1)] q(2) by (auto simp: children_def)
  have p1: "pparent (procs s1 c) = Some q" using family_parent[OF fam q(1,2)] by (simp add: s1_def)
  have s1: "current s1 = c" "initproc s1 = i" "idleproc s1 = idleproc s" "state (procs s1 c) = PROC_ZOMBIE"
    "exit_code (procs s1 c) = code" "\<And>x. x \<noteq> c \<Longrightarrow> procs s1 x = procs s x" "table_kept s s1"
    using c(1,2) by (auto simp: s1_def table_kept_def)
  have inv1: "sched_inv rel detached s1 P"
    using inv by (rule sched_inv_same) (auto simp: s1_def c(1) same_queue_def)
  have sb: "sibs s1 x y xs = sibs s x y xs" for x y xs by (rule sibs_cong) (simp add: s1_def)
  have fam1: "family s1 P F" using fam by (simp add: family_at_def kids_def sb) (simp add: s1_def)
  have "state (procs s1 q) \<noteq> PROC_ZOMBIE" using s1(6)[OF qc] q(3) by simp
  from wakeup_if[OF inv1 q(1) this, of "wait_state (procs s1 q) = WT_CHILD"] obtain s2 where
    s2: "(if wait_state (procs s1 q) = WT_CHILD then wakeup_proc sc q s1 else Some s1) = Some s2"
      "sched_inv rel detached s2 P" "proc_frame s1 s2" "states_kept {q} s1 s2" "current s2 = c"
      "state (procs s2 q) = state (procs s q) \<or> state (procs s2 q) = PROC_RUNNABLE"
      "wait_state (procs s q) = WT_CHILD \<longrightarrow> state (procs s2 q) = PROC_RUNNABLE"
      "\<forall>x. wait_ok s1 x \<longrightarrow> wait_ok s2 x"
    using s1(1) s1(6)[OF qc] by auto
  have i2: "initproc s2 = i" using proc_frameD(9)[OF s2(3)] s1(2) by simp
  have f2: "family_at c None s2 P F" using fam1 family_frame[OF s2(3), of c None P F] family_any[of c s1 P F] by simp
  have z2: "state (procs s2 i) \<noteq> PROC_ZOMBIE"
    using s2(4,6) c(3,7) s1(6)[of i] q(3) by (cases "i = q") (auto simp: states_kept_def)
  from reparent_loop_ok[OF s2(2) f2 refl s2(5)[symmetric] i2[symmetric] c(3) cP c(5,6) z2] obtain s3 where
    s3: "reparent_loop sc s2 = Some s3" "sched_inv rel detached s3 P" "family s3 P (F(c := [], i := rev (F c) @ F i))"
      "states_kept {i} s2 s3" "table_kept s2 s3" "current s3 = c"
      "\<forall>x. exit_code (procs s3 x) = exit_code (procs s2 x)"
      "state (procs s3 i) = state (procs s2 i) \<or> state (procs s3 i) = PROC_RUNNABLE"
      "wait_state (procs s2 i) = WT_CHILD \<longrightarrow> (\<exists>z \<in> set (F c). state (procs s2 z) = PROC_ZOMBIE)
        \<longrightarrow> state (procs s3 i) = PROC_RUNNABLE" "\<forall>x. wait_ok s2 x \<longrightarrow> wait_ok s3 x" using s2(5) by metis
  from schedule_ok[OF s3(2)] obtain s4 where
    s4: "schedule sc s3 = Some s4" "sched_inv rel detached s4 P" "proc_frame s3 s4"
      "if runnable s3 P = {} then current s4 = idleproc s3 else current s4 \<in> runnable s3 P" "states_kept {} s3 s4"
    by (auto simp: states_kept_def)
  have st: "states_kept {i} s2 s4" using s3(4) s4(5) by (simp add: states_kept_def)
  have kept: "states_kept {c, q, i} s s4" using st s2(4) s1(6) by (auto simp: states_kept_def)
  have zc: "state (procs s4 c) = PROC_ZOMBIE" using st s2(4) s1(4) qc c(3) by (auto simp: states_kept_def)
  have tk: "table_kept s s4"
    using s1(7) proc_frame_table[OF s2(3)] s3(5) proc_frame_table[OF s4(3)] table_kept_trans by metis
  have ec: "exit_code (procs s4 x) = exit_code (procs s1 x)" for x
    using s3(7) proc_frameD(3)[OF s2(3)] proc_frameD(3)[OF s4(3)] by simp
  have s34: "state (procs s4 x) = state (procs s3 x)" for x using s4(5) by (simp add: states_kept_def)
  have ch: "state (procs s4 x) = state (procs s x) \<or> state (procs s4 x) = PROC_RUNNABLE" if "x \<in> {q, i}" for x
  proof (cases "x = i")
    case True
    then show ?thesis using s3(8) s2(4,6) s1(6)[of i] c(3) s34 by (cases "i = q") (auto simp: states_kept_def)
  next
    case False
    with that show ?thesis using s2(6) st by (auto simp: states_kept_def)
  qed
  have qw: "state (procs s4 q) = PROC_RUNNABLE" if "wait_state (procs s q) = WT_CHILD"
    using that s2(7) st s3(8) s34 by (cases "q = i") (auto simp: states_kept_def)
  have iw: "state (procs s4 i) = PROC_RUNNABLE"
    if w: "wait_state (procs s i) = WT_CHILD" and z: "\<exists>z \<in> set (F c). state (procs s z) = PROC_ZOMBIE"
  proof (cases "i = q")
    case True
    with qw w show ?thesis by simp
  next
    case False
    with w s2(4) s1(6)[of i] c(3) have "wait_state (procs s2 i) = WT_CHILD" by (auto simp: states_kept_def)
    moreover have "state (procs s2 z) = PROC_ZOMBIE" if "z \<in> set (F c)" "state (procs s z) = PROC_ZOMBIE" for z
    proof -
      have "z \<noteq> q" using that(2) q(3) by auto
      moreover have "state (procs s1 z) = PROC_ZOMBIE" using that(2) s1(4) s1(6)[of z] by (cases "z = c") auto
      ultimately show ?thesis using s2(4) by (simp add: states_kept_def)
    qed
    ultimately have "state (procs s3 i) = PROC_RUNNABLE" using z s3(9) by blast
    then show ?thesis using s34 by simp
  qed
  have R: "runnable s4 P = runnable s3 P" using s34 proc_frameD(10)[OF s4(3)] by (simp add: runnable_def)
  have id3: "idleproc s3 = idleproc s"
    using s3(5) proc_frameD(10)[OF s2(3)] s1(3) by (simp add: table_kept_def)
  have cur: "if runnable s4 P = {} then current s4 = idleproc s else current s4 \<in> runnable s4 P"
    using s4(4) unfolding R id3 .
  then have ne: "current s4 \<noteq> current s" using zc c(1,4) by (auto simp: runnable_def split: if_splits)
  have "do_exit_tail sc code s = Some s4"
    unfolding do_exit_tail_def c(1)[symmetric] s1_def[symmetric] Let_def s1(1) p1
    using s2(1) s3(1) s4(1) ne c(1) by simp
  moreover have "family s4 P (F(c := [], i := rev (F c) @ F i))" using s3(3) by (simp add: family_frame[OF s4(3)])
  moreover have "exit_code (procs s4 c) = code" "\<forall>x. x \<noteq> c \<longrightarrow> exit_code (procs s4 x) = exit_code (procs s x)"
    using ec s1(5,6) by auto
  moreover have "\<forall>x. x \<noteq> c \<longrightarrow> wait_ok s x \<longrightarrow> wait_ok s4 x"
    using s1(6) s2(8) s3(10) wait_ok_kept[OF s4(5)] by (simp add: wait_ok_def)
  moreover have "wait_state (procs s4 c) = wait_state (procs s c)"
    using st s2(4) qc c(3) by (simp add: states_kept_def s1_def)
  ultimately show ?thesis using s4(2) kept tk zc cur ch qw iw by blast
qed

end

section \<open>Searching and reaping\<close>

abbreviation zombie :: "kstate \<Rightarrow> nat \<Rightarrow> bool" where
  "zombie s p \<equiv> state (procs s p) = PROC_ZOMBIE"

lemma wait_children_find:
  "sibs s q y xs \<Longrightarrow> wait_children s (opt_hd xs) b = Some (b \<or> xs \<noteq> [], List.find (zombie s) xs)"
proof (induction xs arbitrary: y b)
  case (Cons x xs)
  have "sibs s q (Some x) xs" "optr (procs s x) = opt_hd xs" using Cons.prems by simp_all
  with Cons.IH[OF this(1), of True] show ?case by (simp add: wait_children.simps[of s "Some x"])
qed (simp add: wait_children.simps)

lemma family_procs: "procs s' = procs s \<Longrightarrow> family_at c y s' P F = family_at c y s P F"
proof -
  assume p: "procs s' = procs s"
  have "sibs s' q z xs = sibs s q z xs" for q z xs by (rule sibs_cong) (simp add: p)
  then show ?thesis by (simp add: family_at_def kids_def p)
qed

text \<open>The table of the processes \<open>P\<close>: everyone but the idle process is in the process list, in the
  hash table and among the children of one process; the numbers differ.\<close>

definition table_inv :: "kstate \<Rightarrow> nat set \<Rightarrow> (nat \<Rightarrow> nat list) \<Rightarrow> (nat \<Rightarrow> nat list) \<Rightarrow> nat list \<Rightarrow> bool" where
  "table_inv s P F ch ps \<longleftrightarrow> family s P F \<and> (\<forall>p \<in> P - {idleproc s}. \<exists>q \<in> P. p \<in> set (F q))
     \<and> hash_inv s ch \<and> (\<Union>b. set (ch b)) = P - {idleproc s}
     \<and> pid_inv s ps \<and> set ps = P - {idleproc s}
     \<and> (\<forall>p \<in> P - {idleproc s}. 1 \<le> pid (procs s p) \<and> pid (procs s p) < MAX_PID)
     \<and> inj_on (\<lambda>p. pid (procs s p)) (P - {idleproc s})
     \<and> nr_process s = int (card P) \<and> finite P \<and> idleproc s \<in> P"

lemma table_D:
  assumes "table_inv s P F ch ps"
  shows "family s P F" "p \<in> P \<Longrightarrow> p \<noteq> idleproc s \<Longrightarrow> \<exists>q \<in> P. p \<in> set (F q)"
    "hash_inv s ch" "(\<Union>b. set (ch b)) = P - {idleproc s}" "pid_inv s ps" "set ps = P - {idleproc s}"
    "p \<in> P \<Longrightarrow> p \<noteq> idleproc s \<Longrightarrow> 1 \<le> pid (procs s p) \<and> pid (procs s p) < MAX_PID"
    "inj_on (\<lambda>p. pid (procs s p)) (P - {idleproc s})"
    "nr_process s = int (card P)" "finite P" "idleproc s \<in> P"
  using assms by (simp_all add: table_inv_def)

lemma table_pid_inj:
  assumes "table_inv s P F ch ps" "p \<in> P" "p \<noteq> idleproc s" "q \<in> P" "q \<noteq> idleproc s"
    "pid (procs s p) = pid (procs s q)"
  shows "p = q"
  using inj_onD[OF table_D(8)[OF assms(1)] assms(6)] assms(2-5) by simp

lemma table_child_iff:
  assumes "table_inv s P F ch ps" "c \<in> P" "p \<in> P" "p \<noteq> idleproc s"
  shows "pparent (procs s p) = Some c \<longleftrightarrow> p \<in> set (F c)"
proof -
  note f = table_D(1)[OF assms(1)]
  from table_D(2)[OF assms(1,3,4)] obtain q where q: "q \<in> P" "p \<in> set (F q)" by blast
  with family_parent[OF f q] family_parent[OF f assms(2)] show ?thesis by auto
qed

lemma find_proc_table:
  assumes t: "table_inv s P F ch ps"
  shows "\<exists>r. find_proc n s = Some r \<and> (\<forall>p. r = Some p \<longleftrightarrow> p \<in> P \<and> p \<noteq> idleproc s \<and> pid (procs s p) = n)"
proof (cases "0 < n \<and> n < MAX_PID")
  case True
  have "\<forall>p q. p \<in> (\<Union>b. set (ch b)) \<and> q \<in> (\<Union>b. set (ch b)) \<and> pid (procs s p) = pid (procs s q) \<longrightarrow> p = q"
    unfolding table_D(4)[OF t] using table_pid_inj[OF t] by blast
  from find_proc_correct[OF table_D(3)[OF t] _ _ this, of n] True show ?thesis
    unfolding table_D(4)[OF t] by auto
next
  case False
  have "pid (procs s p) \<noteq> n" if "p \<in> P" "p \<noteq> idleproc s" for p
    using table_D(7)[OF t that] False by auto
  with False show ?thesis by (auto simp: find_proc_def)
qed

text \<open>The children that \<open>do_wait\<close> with the number \<open>n\<close> may reap.\<close>

definition waited :: "int \<Rightarrow> kstate \<Rightarrow> nat list \<Rightarrow> nat list" where
  "waited n s xs = filter (\<lambda>p. n = 0 \<or> pid (procs s p) = n) xs"

lemma wait_search_ok:
  assumes t: "table_inv s P F ch ps" and c: "c = current s" "c \<in> P" "idleproc s \<notin> set (F c)"
  shows "wait_search n s = Some (waited n s (F c) \<noteq> [], List.find (zombie s) (waited n s (F c)))"
proof (cases "n = 0")
  case True
  have "children s c (F c)" using family_children[OF table_D(1)[OF t] c(2)] .
  then show ?thesis using True c(1) wait_children_find[of s c None "F c" False]
    by (simp add: wait_search_def waited_def children_def)
next
  case False
  from find_proc_table[OF t] obtain r where r: "find_proc n s = Some r"
    "\<And>p. r = Some p \<longleftrightarrow> p \<in> P \<and> p \<noteq> idleproc s \<and> pid (procs s p) = n" by blast
  have sub: "set (F c) \<subseteq> P - {idleproc s}" "distinct (F c)"
    using table_D(1)[OF t] c(2,3) by (auto simp: family_at_def kids_def)
  show ?thesis
  proof (cases "\<exists>p. r = Some p \<and> p \<in> set (F c)")
    case True
    then obtain p where p: "r = Some p" "p \<in> set (F c)" by blast
    have "waited n s (F c) = [p]"
    proof -
      obtain us vs where d: "F c = us @ p # vs" using p(2) by (meson split_list)
      have "pid (procs s x) \<noteq> n" if "x \<in> set (us @ vs)" for x
        using table_pid_inj[OF t, of x p] r(2)[of p] p(1) sub that d by auto
      then show ?thesis using False d r(2)[of p] p(1) by (simp add: waited_def filter_empty_conv)
    qed
    moreover have "pparent (procs s p) = Some c"
      using table_child_iff[OF t c(2)] r(2)[of p] p by simp
    ultimately show ?thesis using False r(1) p(1) c(1) by (simp add: wait_search_def)
  next
    case none: False
    have "waited n s (F c) = []"
      using none r(2) sub False by (auto simp: waited_def filter_empty_conv)
    moreover have "pparent (procs s p) \<noteq> Some c" if "r = Some p" for p
      using table_child_iff[OF t c(2), of p] r(2)[of p] that none by auto
    ultimately show ?thesis using False r(1) c(1) by (auto simp: wait_search_def split: option.split)
  qed
qed

lemma unhash_simps [simp]:
  "procs (unhash_proc p s) = procs s" "proc_links (unhash_proc p s) = proc_links s"
  "nr_process (unhash_proc p s) = nr_process s" "idleproc (unhash_proc p s) = idleproc s"
  "initproc (unhash_proc p s) = initproc s" "current (unhash_proc p s) = current s"
  "last_pid (unhash_proc p s) = last_pid s" "next_safe (unhash_proc p s) = next_safe s"
  "satp (unhash_proc p s) = satp s" "same_queue s (unhash_proc p s)"
  by (simp_all add: unhash_proc_def same_queue_def)

lemma unhash_remove1:
  assumes inv: "hash_inv s ch" and p: "p \<in> (\<Union>b. set (ch b))"
  shows "hash_inv (unhash_proc p s) (\<lambda>b. remove1 p (ch b))"
    and "(\<Union>b. set (remove1 p (ch b))) = (\<Union>b. set (ch b)) - {p}"
proof -
  have d: "distinct (ch b)" for b using inv by (auto simp: hash_inv_def dlist_def distinct_map)
  obtain b where b: "p \<in> set (ch b)" using p by blast
  then obtain us vs where uv: "ch b = us @ p # vs" by (meson split_list)
  have "p \<notin> set (ch c)" if "c \<noteq> b" for c using hash_inv_disjoint[OF inv that] b by auto
  then have "(\<lambda>b. remove1 p (ch b)) = ch(b := us @ vs)"
    using uv d[of b] by (auto simp: fun_eq_iff remove1_append remove1_idem)
  then show "hash_inv (unhash_proc p s) (\<lambda>b. remove1 p (ch b))" using unhash_proc_inv[OF inv uv] by simp
  show "(\<Union>b. set (remove1 p (ch b))) = (\<Union>b. set (ch b)) - {p}" by (auto simp: set_remove1_eq[OF d])
qed

lemma wait_unlink_ok:
  assumes t: "table_inv s P F ch ps" and p: "p \<in> set (F q)" "q \<in> P" "p \<noteq> idleproc s" "F p = []"
  shows "\<exists>s'. wait_unlink p s = Some s'
    \<and> table_inv s' (P - {p}) (F(q := remove1 p (F q))) (\<lambda>b. remove1 p (ch b)) (remove1 p ps)
    \<and> (\<forall>x. proc_rest (procs s' x) = proc_rest (procs s x)) \<and> same_queue s s' \<and> current s' = current s
    \<and> idleproc s' = idleproc s \<and> initproc s' = initproc s \<and> satp s' = satp s"
proof -
  let ?s = "unhash_proc p s"
  note fam = table_D(1)[OF t]
  have pP: "p \<in> P" using fam p(1,2) by (auto simp: family_at_def)
  have h: "hash_inv ?s (\<lambda>b. remove1 p (ch b))" "(\<Union>b. set (remove1 p (ch b))) = P - {p} - {idleproc s}"
    using unhash_remove1[OF table_D(3)[OF t], of p] pP p(3) unfolding table_D(4)[OF t] by auto
  have pl: "plist ?s ps" using table_D(5)[OF t] by (simp add: pid_inv_def)
  then have dp: "distinct ps" by (auto simp: dlist_def distinct_map)
  obtain us vs where uv: "F q = us @ p # vs" using p(1) by (meson split_list)
  obtain as bs where ab: "ps = as @ p # bs" using pP p(3) table_D(6)[OF t] by (metis DiffI singletonD split_list)
  have r: "remove1 p (F q) = us @ vs" "remove1 p ps = as @ bs"
    using uv ab dp family_children[OF fam p(2)] by (auto simp: remove1_append remove1_idem children_def)
  have fam': "family ?s P F" using fam by (simp add: family_procs[of ?s s])
  from remove_links_family_all[OF fam' pl[unfolded ab] p(2) uv] obtain s' where
    s': "remove_links p ?s = Some s'" "family s' (P - {p}) (F(q := us @ vs))" "plist s' (as @ bs)"
      "nr_process s' = nr_process s - 1" by auto
  have sb: "sibs ?s q None (us @ p # vs)" using family_children[OF fam' p(2)] uv by (simp add: children_def)
  note f = remove_links_fields[OF s'(1) sb] and g = remove_links_rest[OF s'(1)]
  have pr: "pid (procs s' x) = pid (procs s x)" for x using proc_restD(4)[OF f(4)] by simp
  have g': "hash_links s' = hash_links ?s" "idleproc s' = idleproc s" "initproc s' = initproc s"
    "current s' = current s" "satp s' = satp s" "last_pid s' = last_pid s" "next_safe s' = next_safe s"
    using g by simp_all
  have cover: "\<exists>q' \<in> P - {p}. x \<in> set ((F(q := us @ vs)) q')" if x: "x \<in> P - {p} - {idleproc s'}" for x
  proof -
    from x g'(2) table_D(2)[OF t, of x] obtain q' where "q' \<in> P" "x \<in> set (F q')" by auto
    with x uv p(4) show ?thesis by (intro bexI[of _ q']) auto
  qed
  have "pid_inv s' (as @ bs)"
    using table_D(5)[OF t] s'(3) ab by (auto simp: pid_inv_def g'(6,7) pr gap_def)
  moreover have "hash_inv s' (\<lambda>b. remove1 p (ch b))" using h(1) by (simp add: hash_inv_def g'(1) pr)
  moreover have "set (as @ bs) = P - {p} - {idleproc s}" using table_D(6)[OF t] ab dp by auto
  moreover have "inj_on (\<lambda>x. pid (procs s' x)) (P - {p} - {idleproc s})"
    unfolding pr using table_D(8)[OF t] by (rule inj_on_subset) auto
  moreover have "1 \<le> pid (procs s' x) \<and> pid (procs s' x) < MAX_PID" if "x \<in> P - {p} - {idleproc s}" for x
    using table_D(7)[OF t, of x] that by (simp add: pr)
  moreover have "nr_process s' = int (card (P - {p}))" "finite (P - {p})" "idleproc s \<in> P - {p}"
    using s'(4) table_D(9-11)[OF t] pP p(3) card_gt_0_iff[of P] by (auto simp: card_Diff_singleton)
  ultimately have "table_inv s' (P - {p}) (F(q := remove1 p (F q))) (\<lambda>b. remove1 p (ch b)) (remove1 p ps)"
    using s'(2) cover h(2) unfolding table_inv_def r g'(2) by blast
  moreover have "same_queue s s'"
    using g proc_restD(7-10)[OF f(4)] by (simp add: same_queue_def unhash_proc_def)
  moreover have "wait_unlink p s = Some s'" using s'(1) by (simp add: wait_unlink_def)
  ultimately show ?thesis using f(4) g' by auto
qed

section \<open>Forking\<close>

text \<open>A process that is not in the table yet: the table may be read as that of \<open>P\<close> whatever its
  block holds.\<close>

lemma table_upd_new:
  assumes t: "table_inv s P F ch ps" and p: "p \<notin> P"
  shows "table_inv (upd_proc p f s) P F ch ps"
proof -
  let ?s = "upd_proc p f s"
  note fam = table_D(1)[OF t]
  have sub: "x \<noteq> p" if "q \<in> P" "x \<in> set (F q)" for q x using fam that p by (auto simp: family_at_def)
  have "kids ?s q y (F q) = kids s q y (F q)" if "q \<in> P" for q y
  proof -
    have "sibs ?s q y (F q) = sibs s q y (F q)" using sub[OF that] by (intro sibs_cong) auto
    then show ?thesis using that p by (auto simp: kids_def)
  qed
  then have "family ?s P F" using fam by (simp add: family_at_def)
  moreover have ch: "procs ?s x = procs s x" if "x \<in> P" for x using that p by auto
  moreover have "hash_inv ?s ch"
  proof -
    have "procs ?s x = procs s x" if "x \<in> set (ch b)" for x b using ch table_D(4)[OF t] that by blast
    then show ?thesis using table_D(3)[OF t] by (simp add: hash_inv_def)
  qed
  moreover have "pids ?s ps = pids s ps" using table_D(6)[OF t] ch by (intro map_cong) auto
  then have "pid_inv ?s ps" using table_D(5)[OF t] by (simp add: pid_inv_def del: upd_proc_simps(1))
  moreover have "inj_on (\<lambda>x. pid (procs ?s x)) (P - {idleproc s})"
    using table_D(8)[OF t] ch by (simp add: inj_on_def del: upd_proc_simps(1))
  moreover have "\<forall>x \<in> P - {idleproc s}. 1 \<le> pid (procs ?s x) \<and> pid (procs ?s x) < MAX_PID"
    using table_D(7)[OF t] ch by (simp del: upd_proc_simps(1))
  ultimately show ?thesis using t by (simp add: table_inv_def del: upd_proc_simps(1))
qed

lemma table_free_pids:
  assumes "table_inv s P F ch ps" "nr_process s \<le> MAX_PROCESS"
  shows "length ps < nat MAX_PID - 1"
proof -
  have "distinct ps" using table_D(5)[OF assms(1)] by (auto simp: pid_inv_def dlist_def distinct_map)
  then have "length ps = card (P - {idleproc s})" using distinct_card table_D(6)[OF assms(1)] by metis
  also have "\<dots> \<le> card P" by (rule card_Diff1_le)
  finally show ?thesis using table_D(9)[OF assms(1)] assms(2) by simp
qed

text \<open>\<open>get_pid\<close> changes only its two static variables.\<close>

lemma get_pid_frame:
  assumes "get_pid s = Some (n, s')"
  shows "\<exists>l k. s' = s\<lparr>last_pid := l, next_safe := k\<rparr>"
proof -
  have "\<exists>l' k. s\<lparr>last_pid := l\<rparr> = s\<lparr>last_pid := l', next_safe := k\<rparr>" for l
    by (intro exI[of _ l] exI[of _ "next_safe s"]) simp
  then show ?thesis using assms unfolding get_pid_def
    by (auto simp: bind_Some_iff Let_def split: if_splits)
qed

lemma fork_number_ok:
  assumes t: "table_inv s P F ch ps" and p: "p \<notin> P" and c: "current s \<in> P" "wait_state (procs s (current s)) = 0"
    and nr: "nr_process s \<le> MAX_PROCESS"
  shows "\<exists>n l k. fork_number p s = Some (upd_proc p (\<lambda>pr. pr\<lparr>pparent := Some (current s), pid := n\<rparr>)
        (s\<lparr>last_pid := l, next_safe := k\<rparr>))
    \<and> table_inv (s\<lparr>last_pid := l, next_safe := k\<rparr>) P F ch ps \<and> 1 \<le> n \<and> n < MAX_PID
    \<and> (\<forall>x \<in> P - {idleproc s}. pid (procs s x) \<noteq> n)
    \<and> gap (insert n (set (pids s ps))) (l + 1) k"
proof -
  define s1 where "s1 = upd_proc p (pparent_update (\<lambda>_. Some (current s))) s"
  have t1: "table_inv s1 P F ch ps" unfolding s1_def using t p by (rule table_upd_new)
  have ps1: "pids s1 ps = pids s ps" using table_D(6)[OF t] p by (auto simp: s1_def)
  have "nr_process s1 \<le> MAX_PROCESS" using nr by (simp add: s1_def)
  from get_pid_fresh[OF table_D(5)[OF t1] table_free_pids[OF t1 this]] obtain n s2 where
    g: "get_pid s1 = Some (n, s2)" "1 \<le> n" "n < MAX_PID" "n \<notin> set (pids s1 ps)" "pid_inv s2 ps"
      "gap (insert n (set (pids s1 ps))) (last_pid s2 + 1) (next_safe s2)" by blast
  from get_pid_frame[OF g(1)] obtain l k where s2: "s2 = s1\<lparr>last_pid := l, next_safe := k\<rparr>" by blast
  let ?s = "s\<lparr>last_pid := l, next_safe := k\<rparr>"
  have "pid_inv ?s ps" using g(5) ps1 s2 by (simp add: pid_inv_def s1_def)
  moreover have "family ?s P F" using table_D(1)[OF t] family_procs[of ?s s] by simp
  moreover have "hash_inv ?s ch" using table_D(3)[OF t] by (simp add: hash_inv_def)
  ultimately have "table_inv ?s P F ch ps" using t by (simp add: table_inv_def)
  moreover have "fork_number p s = Some (upd_proc p (\<lambda>pr. pr\<lparr>pparent := Some (current s), pid := n\<rparr>) ?s)"
    using c p g(1) unfolding fork_number_def s1_def[symmetric] Let_def
    by (auto simp: s2 s1_def upd_proc_def)
  moreover have "\<forall>x \<in> P - {idleproc s}. pid (procs s x) \<noteq> n" using g(4) table_D(6)[OF t] unfolding ps1 by auto
  moreover have "gap (insert n (set (pids s ps))) (l + 1) k" using g(6) unfolding ps1 by (simp add: s2)
  ultimately show ?thesis using g(2,3) by blast
qed

lemma hash_simps [simp]:
  "procs (hash_proc p s) = procs s" "proc_links (hash_proc p s) = proc_links s"
  "nr_process (hash_proc p s) = nr_process s" "idleproc (hash_proc p s) = idleproc s"
  "initproc (hash_proc p s) = initproc s" "current (hash_proc p s) = current s"
  "last_pid (hash_proc p s) = last_pid s" "next_safe (hash_proc p s) = next_safe s"
  "satp (hash_proc p s) = satp s" "run_links (hash_proc p s) = run_links s" "proc_num (hash_proc p s) = proc_num s"
  "max_time_slice (hash_proc p s) = max_time_slice s" "lab6_run_pool (hash_proc p s) = lab6_run_pool s"
  "pool (hash_proc p s) = pool s"
  by (simp_all add: hash_proc_def)

lemma UN_cons: "(\<Union>b'. set ((f(b := p # f b)) b')) = insert p (\<Union>b'. set (f b'))"
proof (intro set_eqI iffI)
  fix x
  assume "x \<in> insert p (\<Union>b'. set (f b'))"
  then obtain b' where "x = p \<or> x \<in> set (f b')" by blast
  then have "x \<in> set ((f(b := p # f b)) b) \<or> x \<in> set ((f(b := p # f b)) b')" by auto
  then show "x \<in> (\<Union>b'. set ((f(b := p # f b)) b'))" by blast
qed (auto split: if_splits)

text \<open>The table does not depend on anything else.\<close>

lemma table_cong:
  assumes same: "\<And>x. pid (procs s' x) = pid (procs s x) \<and> cptr (procs s' x) = cptr (procs s x)
      \<and> yptr (procs s' x) = yptr (procs s x) \<and> optr (procs s' x) = optr (procs s x)
      \<and> pparent (procs s' x) = pparent (procs s x)"
    and g: "proc_links s' = proc_links s" "hash_links s' = hash_links s" "nr_process s' = nr_process s"
      "idleproc s' = idleproc s" "last_pid s' = last_pid s" "next_safe s' = next_safe s"
    and t: "table_inv s P F ch ps"
  shows "table_inv s' P F ch ps"
proof -
  have pr: "pid (procs s' x) = pid (procs s x)" for x using same by simp
  have "sibs s' q z xs = sibs s q z xs" for q z xs using same by (intro sibs_cong) simp
  then have "family s' P F" using table_D(1)[OF t] same by (simp add: family_at_def kids_def)
  moreover have "pid_inv s' ps" using table_D(5)[OF t] by (simp add: pid_inv_def pr g)
  moreover have "hash_inv s' ch" using table_D(3)[OF t] by (simp add: hash_inv_def pr g)
  ultimately show ?thesis using t unfolding table_inv_def pr g by blast
qed

lemma table_frame:
  assumes f: "proc_frame s s'" and t: "table_inv s P F ch ps"
  shows "table_inv s' P F ch ps"
proof (rule table_cong[OF _ _ _ _ _ _ _ t])
  show "proc_links s' = proc_links s" "hash_links s' = hash_links s" "nr_process s' = nr_process s"
    "idleproc s' = idleproc s" "last_pid s' = last_pid s" "next_safe s' = next_safe s"
    using f by (simp_all add: proc_frame_def)
qed (simp add: proc_frameD[OF f])

text \<open>The children of one process move to another.\<close>

lemma table_refamily:
  assumes k: "table_kept s s'" and fam: "family s' P F'" and U: "(\<Union>q \<in> P. set (F' q)) = (\<Union>q \<in> P. set (F q))"
    and t: "table_inv s P F ch ps"
  shows "table_inv s' P F' ch ps"
proof -
  have pr: "pid (procs s' x) = pid (procs s x)" for x using k by (simp add: table_kept_def)
  have g: "proc_links s' = proc_links s" "nr_process s' = nr_process s" "idleproc s' = idleproc s"
    "last_pid s' = last_pid s" "next_safe s' = next_safe s" using k by (simp_all add: table_kept_def)
  have "\<exists>q \<in> P. x \<in> set (F' q)" if "x \<in> P" "x \<noteq> idleproc s" for x
    using table_D(2)[OF t that] U by blast
  moreover have "pid_inv s' ps" using table_D(5)[OF t] by (simp add: pid_inv_def pr g)
  moreover have "hash_inv s' ch" using table_D(3)[OF t] hash_inv_table[OF k] by simp
  ultimately show ?thesis using t fam unfolding table_inv_def pr g by auto
qed

lemma table_link:
  assumes t: "table_inv s P F ch ps" and p: "p \<notin> P" "pparent (procs s p) = Some c" "c \<in> P" "cptr (procs s p) = None"
    and n: "1 \<le> pid (procs s p)" "pid (procs s p) < MAX_PID"
      "\<forall>x \<in> P - {idleproc s}. pid (procs s x) \<noteq> pid (procs s p)"
      "gap (insert (pid (procs s p)) (set (pids s ps))) (last_pid s + 1) (next_safe s)"
    and b: "b = pid_hashfn (pid (procs s p))"
  shows "\<exists>s'. set_links p (hash_proc p s) = Some s'
    \<and> table_inv s' (insert p P) (F(c := p # F c, p := [])) (ch(b := p # ch b)) (p # ps)
    \<and> (\<forall>x. proc_rest (procs s' x) = proc_rest (procs s x)) \<and> same_queue s s' \<and> current s' = current s
    \<and> idleproc s' = idleproc s \<and> initproc s' = initproc s \<and> satp s' = satp s"
proof -
  let ?s = "hash_proc p s"
  have idle: "p \<noteq> idleproc s" using table_D(11)[OF t] p(1) by auto
  have out: "p \<notin> set ps" "\<forall>b. p \<notin> set (ch b)" using table_D(4,6)[OF t] p(1) by auto
  have fam: "family ?s P F" using table_D(1)[OF t] family_procs[of ?s s] by simp
  have pl: "plist ?s ps" using table_D(5)[OF t] by (simp add: pid_inv_def)
  from set_links_family_all[OF fam pl _ p(3,1) out(1)] p(2,4) obtain s' where
    s': "set_links p ?s = Some s'" "family s' (insert p P) (F(c := p # F c, p := []))" "plist s' (p # ps)"
      "nr_process s' = nr_process s + 1" by auto
  have ch: "cptr (procs ?s c) = opt_hd (F c)" "p \<notin> set (c # F c)"
    using family_children[OF fam p(3)] fam p(1,3) by (auto simp: children_def family_at_def)
  have pp: "pparent (procs ?s p) = Some c" using p(2) by simp
  note f = set_links_fields(5)[OF s'(1) pp ch] and g = set_links_rest[OF s'(1)]
  have pr: "pid (procs s' x) = pid (procs s x)" for x using proc_restD(4)[OF f] by simp
  have "hash_inv s' ch' = hash_inv ?s ch'" for ch' by (simp add: hash_inv_def g(3) pr)
  then have h: "hash_inv s' (ch(b := p # ch b))"
    using hash_proc_inv[OF table_D(3)[OF t] out(2)] unfolding b by simp
  have U: "(\<Union>b'. set ((ch(b := p # ch b)) b')) = insert p (P - {idleproc s})"
    using table_D(4)[OF t] UN_cons[of ch b p] by simp
  have cover: "\<exists>q \<in> insert p P. x \<in> set ((F(c := p # F c, p := [])) q)" if x: "x \<in> insert p P - {idleproc s}" for x
  proof (cases "x = p")
    case True
    then show ?thesis using p(1,3) by (intro bexI[of _ c]) auto
  next
    case False
    with x table_D(2)[OF t, of x] obtain q where "q \<in> P" "x \<in> set (F q)" by auto
    then show ?thesis using p(1) by (intro bexI[of _ q]) auto
  qed
  have "pid_inv s' (p # ps)"
    using table_D(5)[OF t] s'(3) n(4) by (simp add: pid_inv_def g pr)
  moreover have "inj_on (\<lambda>x. pid (procs s' x)) (insert p P - {idleproc s})"
    using table_D(8)[OF t] n(3) idle p(1) unfolding pr by (auto simp: inj_on_def)
  moreover have "1 \<le> pid (procs s' x) \<and> pid (procs s' x) < MAX_PID" if "x \<in> insert p P - {idleproc s}" for x
    using table_D(7)[OF t, of x] that n(1,2) by (auto simp: pr)
  moreover have "nr_process s' = int (card (insert p P))" "finite (insert p P)" "idleproc s \<in> insert p P"
    using s'(4) table_D(9-11)[OF t] p(1) by auto
  moreover have "insert p P - {idleproc s} = insert p (P - {idleproc s})" using idle by auto
  ultimately have "table_inv s' (insert p P) (F(c := p # F c, p := [])) (ch(b := p # ch b)) (p # ps)"
    using s'(2) cover h U table_D(6)[OF t] g(5) unfolding table_inv_def by simp
  moreover have "same_queue s s'" using g proc_restD(7-10)[OF f] by (simp add: same_queue_def)
  ultimately show ?thesis using s'(1) f g by auto
qed

context scheduler
begin

lemma sched_inv_new:
  assumes "sched_inv rel detached s P" "state (procs s p) = PROC_UNINIT" "detached s p"
  shows "sched_inv rel detached s (insert p P)"
proof -
  have "waiting s (insert p P) = waiting s P" using assms(2) by (auto simp: waiting_def runnable_def)
  with assms(1,3) show ?thesis by (auto simp: sched_inv_def)
qed

lemma fork_link_ok:
  assumes t: "table_inv s P F ch ps" and inv: "sched_inv rel detached s P"
    and p: "p \<notin> P" "pparent (procs s p) = Some c" "c \<in> P" "cptr (procs s p) = None"
      "state (procs s p) = PROC_UNINIT" "detached s p"
    and n: "1 \<le> pid (procs s p)" "pid (procs s p) < MAX_PID"
      "\<forall>x \<in> P - {idleproc s}. pid (procs s x) \<noteq> pid (procs s p)"
      "gap (insert (pid (procs s p)) (set (pids s ps))) (last_pid s + 1) (next_safe s)"
    and b: "b = pid_hashfn (pid (procs s p))"
  shows "\<exists>s'. fork_link sc p s = Some s' \<and> sched_inv rel detached s' (insert p P)
    \<and> table_inv s' (insert p P) (F(c := p # F c, p := [])) (ch(b := p # ch b)) (p # ps)
    \<and> state (procs s' p) = PROC_RUNNABLE \<and> states_kept {p} s s' \<and> current s' = current s
    \<and> idleproc s' = idleproc s \<and> initproc s' = initproc s \<and> (\<forall>x. pid (procs s' x) = pid (procs s x))
    \<and> (\<forall>x. wait_ok s x \<longrightarrow> wait_ok s' x)
    \<and> (\<forall>x. kstack (procs s' x) = kstack (procs s x) \<and> mm (procs s' x) = mm (procs s x)
        \<and> filesp (procs s' x) = filesp (procs s x))"
proof -
  from table_link[OF t p(1-4) n b] obtain s1 where
    s1: "set_links p (hash_proc p s) = Some s1"
      "table_inv s1 (insert p P) (F(c := p # F c, p := [])) (ch(b := p # ch b)) (p # ps)"
      "\<forall>x. proc_rest (procs s1 x) = proc_rest (procs s x)" "same_queue s s1" "current s1 = current s"
      "idleproc s1 = idleproc s" "initproc s1 = initproc s" "satp s1 = satp s" by blast
  have pr: "state (procs s1 x) = state (procs s x)" "wait_state (procs s1 x) = wait_state (procs s x)"
    "pgdir (procs s1 x) = pgdir (procs s x)" "pid (procs s1 x) = pid (procs s x)"
    "kstack (procs s1 x) = kstack (procs s x)" "mm (procs s1 x) = mm (procs s x)"
    "filesp (procs s1 x) = filesp (procs s x)" for x
    using proc_restD[OF s1(3)[rule_format]] by auto
  have "sched_inv rel detached s1 P" using inv s1(4,5,6,8) pr(3,1) by (rule sched_inv_same)
  then have inv1: "sched_inv rel detached s1 (insert p P)"
    using p(5,6) detached_same[OF s1(4)] pr(1) by (intro sched_inv_new) auto
  from wakeup_full[OF inv1, of p] p(5) pr(1) obtain s2 where
    s2: "wakeup_proc sc p s1 = Some s2" "sched_inv rel detached s2 (insert p P)" "proc_frame s1 s2"
      "states_kept {p} s1 s2" "state (procs s2 p) = PROC_RUNNABLE" "current s2 = current s1"
      "\<forall>x. wait_ok s1 x \<longrightarrow> wait_ok s2 x" by auto
  have "table_inv s2 (insert p P) (F(c := p # F c, p := [])) (ch(b := p # ch b)) (p # ps)"
    using s2(3) s1(2) by (rule table_frame)
  moreover have "fork_link sc p s = Some s2" using s1(1) s2(1) by (simp add: fork_link_def)
  moreover have "states_kept {p} s s2" using s2(4) pr(1,2) by (simp add: states_kept_def)
  moreover have "\<forall>x. wait_ok s x \<longrightarrow> wait_ok s2 x" using s2(7) pr(1,2) by (simp add: wait_ok_def)
  ultimately show ?thesis using s2(2,5,6) s1(5,6,7) pr(4-7) proc_frameD[OF s2(3)] by simp
qed

end

end
