(* ===== verification/Life_Cycle.thy ===== *)
theory Life_Cycle
  imports Proc_Life
begin

unbundle bit_operations_syntax

text \<open>
  The life cycle of processes under the kernel's round robin scheduler: creation, exit, waiting,
  killing and rescheduling as one transition system on the process table.  The system refines an
  abstract family of processes, and the invariant says that table, hash table, family and run
  queue agree after every transition.
\<close>

section \<open>The invariant\<close>

text \<open>Beyond the invariants of table and scheduler: \<open>initproc\<close> is a child of the idle process, which
  has no parent; neither of them ever exits; the running process is runnable; only sleepers
  have a wait state; and a process that has exited has no children.\<close>

definition life_core :: "kstate \<Rightarrow> nat set \<Rightarrow> (nat \<Rightarrow> nat list) \<Rightarrow> bool" where
  "life_core s P F \<longleftrightarrow> (\<exists>ch ps. table_inv s P F ch ps) \<and> rr_inv s P
     \<and> initproc s \<in> set (F (idleproc s)) \<and> (\<forall>q \<in> P. idleproc s \<notin> set (F q))
     \<and> state (procs s (idleproc s)) = PROC_RUNNABLE \<and> \<not> zombie s (initproc s)
     \<and> (\<forall>p \<in> P. wait_ok s p) \<and> (\<forall>p \<in> P. zombie s p \<longrightarrow> F p = [])"

definition life_inv :: "kstate \<Rightarrow> nat set \<Rightarrow> (nat \<Rightarrow> nat list) \<Rightarrow> bool" where
  "life_inv s P F \<longleftrightarrow> life_core s P F \<and> state (procs s (current s)) = PROC_RUNNABLE"

lemmas life_defs = life_inv_def life_core_def

text \<open>A change that leaves the table as it is, lets nobody exit and keeps the idle process ready.\<close>

lemma life_core_mono:
  assumes "life_core s P F" "\<And>ch ps. table_inv s P F ch ps \<Longrightarrow> table_inv s' P F ch ps" "rr_inv s' P"
    "initproc s' = initproc s" "idleproc s' = idleproc s" "state (procs s' (idleproc s)) = PROC_RUNNABLE"
    "\<And>x. zombie s' x \<Longrightarrow> zombie s x" "\<And>x. x \<in> P \<Longrightarrow> wait_ok s' x"
  shows "life_core s' P F"
  using assms unfolding life_core_def by auto

lemma life_core_schedule:
  assumes l: "life_core s P F"
  shows "\<exists>s'. schedule default_sched_class s = Some s' \<and> life_inv s' P F \<and> states_kept {} s s'
    \<and> proc_frame s s' \<and> (if runnable s P = {} then current s' = idleproc s else current s' \<in> runnable s P)"
proof -
  have r: "rr_inv s P" and i: "state (procs s (idleproc s)) = PROC_RUNNABLE" and w: "\<And>x. x \<in> P \<Longrightarrow> wait_ok s x"
    using l by (auto simp: life_core_def)
  from rr_sched.schedule_ok[OF r] obtain s' where s': "schedule default_sched_class s = Some s'" "rr_inv s' P"
    "if runnable s P = {} then current s' = idleproc s else current s' \<in> runnable s P"
    "states_kept {} s s'" "proc_frame s s'" by (auto simp: states_kept_def)
  have st: "state (procs s' x) = state (procs s x)" for x using s'(4) by (simp add: states_kept_def)
  have "life_core s' P F"
    using l table_frame[OF s'(5)] s'(2) proc_frameD(9,10)[OF s'(5)]
    by (rule life_core_mono) (use st i w wait_ok_kept[OF s'(4)] in auto)
  moreover have "state (procs s' (current s')) = PROC_RUNNABLE"
    using s'(3) i st by (auto simp: runnable_def split: if_splits)
  ultimately show ?thesis using s'(1,3,4,5) by (auto simp: life_inv_def)
qed

lemma life_D:
  assumes "life_inv s P F"
  shows "\<exists>ch ps. table_inv s P F ch ps" "rr_inv s P" "family s P F" "idleproc s \<in> P" "current s \<in> P"
    "initproc s \<in> P" "initproc s \<noteq> idleproc s" "c \<in> P \<Longrightarrow> c \<noteq> idleproc s \<Longrightarrow> initproc s \<notin> set (F c)"
    "c \<in> P \<Longrightarrow> idleproc s \<notin> set (F c)" "c \<in> P \<Longrightarrow> c \<noteq> idleproc s \<Longrightarrow> \<exists>q \<in> P. c \<in> set (F q)"
    "wait_state (procs s (current s)) = 0"
proof -
  from assms obtain ch ps where t: "table_inv s P F ch ps" by (auto simp: life_defs)
  then show "\<exists>ch ps. table_inv s P F ch ps" by blast
  show r: "rr_inv s P" and fam: "family s P F" and ip: "idleproc s \<in> P"
    using assms table_D[OF t] by (auto simp: life_defs)
  then show c: "current s \<in> P" by (simp add: sched_inv_def)
  have i: "initproc s \<in> set (F (idleproc s))" using assms by (simp add: life_defs)
  then show "initproc s \<in> P" using fam ip by (auto simp: family_at_def)
  show "initproc s \<noteq> idleproc s" using i assms ip by (auto simp: life_defs)
  show "c \<in> P \<Longrightarrow> c \<noteq> idleproc s \<Longrightarrow> initproc s \<notin> set (F c)"
    using family_disjoint[OF fam _ ip, of c] i by auto
  show "c \<in> P \<Longrightarrow> idleproc s \<notin> set (F c)" using assms by (simp add: life_defs)
  show "c \<in> P \<Longrightarrow> c \<noteq> idleproc s \<Longrightarrow> \<exists>q \<in> P. c \<in> set (F q)" by (rule table_D(2)[OF t])
  show "wait_state (procs s (current s)) = 0" using assms c by (auto simp: life_defs wait_ok_def)
qed

section \<open>Exit\<close>

lemma UN_move:
  assumes "c \<in> P" "i \<in> P" "c \<noteq> i"
  shows "(\<Union>r \<in> P. set ((F(c := [], i := rev (F c) @ F i)) r)) = (\<Union>r \<in> P. set (F r))"
proof (intro set_eqI iffI)
  fix x
  assume "x \<in> (\<Union>r \<in> P. set (F r))"
  then obtain r where r: "r \<in> P" "x \<in> set (F r)" by blast
  then show "x \<in> (\<Union>r \<in> P. set ((F(c := [], i := rev (F c) @ F i)) r))"
    using assms by (intro UN_I[of "if r = c then i else r"]) auto
qed (use assms in \<open>auto split: if_splits\<close>)

lemma life_exit:
  assumes l: "life_inv s P F" and c: "current s \<noteq> idleproc s" "current s \<noteq> initproc s"
  shows "\<exists>s'. do_exit_tail default_sched_class code s = Some s'
    \<and> life_inv s' P (F(current s := [], initproc s := rev (F (current s)) @ F (initproc s)))
    \<and> zombie s' (current s) \<and> exit_code (procs s' (current s)) = code \<and> current s' \<noteq> current s
    \<and> (\<forall>q \<in> P. (current s \<in> set (F q) \<and> wait_state (procs s q) = WT_CHILD) \<longrightarrow> state (procs s' q) = PROC_RUNNABLE)
    \<and> (wait_state (procs s (initproc s)) = WT_CHILD \<longrightarrow> (\<exists>z \<in> set (F (current s)). zombie s z)
        \<longrightarrow> state (procs s' (initproc s)) = PROC_RUNNABLE)"
proof -
  let ?c = "current s" and ?i = "initproc s"
  let ?F = "F(?c := [], ?i := rev (F ?c) @ F ?i)"
  note D = life_D[OF l]
  from D(10)[OF D(5) c(1)] obtain q where q: "q \<in> P" "?c \<in> set (F q)" by blast
  have zq: "\<not> zombie s q" using l q by (auto simp: life_defs)
  have zi: "\<not> zombie s ?i" using l by (simp add: life_defs)
  from rr_sched.do_exit_tail_ok[OF D(2,3) refl refl c(2,1) D(6) D(8)[OF D(5) c(1)] zi q zq, of code] obtain s' where
    s': "do_exit_tail default_sched_class code s = Some s'" "rr_inv s' P" "family s' P ?F"
      "states_kept {?c, q, ?i} s s'" "table_kept s s'" "zombie s' ?c" "exit_code (procs s' ?c) = code"
      "if runnable s' P = {} then current s' = idleproc s else current s' \<in> runnable s' P"
      "\<forall>x \<in> {q, ?i}. state (procs s' x) = state (procs s x) \<or> state (procs s' x) = PROC_RUNNABLE"
      "\<forall>x. x \<noteq> ?c \<longrightarrow> wait_ok s x \<longrightarrow> wait_ok s' x" "wait_state (procs s' ?c) = wait_state (procs s ?c)"
      "wait_state (procs s q) = WT_CHILD \<longrightarrow> state (procs s' q) = PROC_RUNNABLE"
      "wait_state (procs s ?i) = WT_CHILD \<longrightarrow> (\<exists>z \<in> set (F ?c). zombie s z) \<longrightarrow> state (procs s' ?i) = PROC_RUNNABLE"
    apply -
    apply (elim exE conjE)
    apply (rule that)
    apply assumption+
    done
  have ids: "idleproc s' = idleproc s" "initproc s' = ?i" using s'(5) by (simp_all add: table_kept_def)
  have ri: "state (procs s (idleproc s)) = PROC_RUNNABLE" and cr: "state (procs s ?c) = PROC_RUNNABLE"
    and wo: "\<And>p. p \<in> P \<Longrightarrow> wait_ok s p" and zF: "\<And>p. p \<in> P \<Longrightarrow> zombie s p \<Longrightarrow> F p = []"
    using l by (auto simp: life_defs)
  have keep: "state (procs s' x) = state (procs s x) \<or> state (procs s' x) = PROC_RUNNABLE" if "x \<noteq> ?c" for x
    using s'(4,9) that by (cases "x \<in> {q, ?i}") (auto simp: states_kept_def)
  have ri': "state (procs s' (idleproc s)) = PROC_RUNNABLE" using keep[of "idleproc s"] ri c(1) by auto
  have cur: "state (procs s' (current s')) = PROC_RUNNABLE"
    using s'(8) ri' by (auto simp: runnable_def split: if_splits)
  have ne: "current s' \<noteq> ?c" using cur s'(6) by auto
  obtain ch ps where t: "table_inv s P F ch ps" using D(1) by blast
  have U: "(\<Union>r \<in> P. set (?F r)) = (\<Union>r \<in> P. set (F r))" using D(5,6) c(2) by (rule UN_move)
  have "table_inv s' P ?F ch ps" using s'(5,3) U t by (rule table_refamily)
  moreover have "\<forall>x \<in> P. wait_ok s' x"
    using s'(10,11) wo D(11) by (metis wait_ok_def)
  moreover have "?F x = []" if "x \<in> P" "zombie s' x" for x
    using that keep[of x] zF[of x] zi c(2) by (cases "x = ?c") auto
  moreover have "\<not> zombie s' ?i" using keep[of ?i] zi c(2) by auto
  moreover have "?i \<in> set (?F (idleproc s))" "\<forall>r \<in> P. idleproc s \<notin> set (?F r)"
    using l c D(7) D(9)[OF D(5)] D(9)[OF D(6)] D(9) by (auto simp: life_defs split: if_splits)
  ultimately have "life_inv s' P ?F" using s'(2) cur ri' unfolding life_defs ids by blast
  moreover have "state (procs s' r) = PROC_RUNNABLE"
    if "r \<in> P" "?c \<in> set (F r)" "wait_state (procs s r) = WT_CHILD" for r
    using that family_disjoint[OF D(3) that(1) q(1)] q(2) s'(12) by auto
  ultimately show ?thesis using s'(1,6,7,13) ne by blast
qed

section \<open>Creation\<close>

text \<open>A process on its way into the table: its block is fresh and detached, and the rest is the state
  \<open>s\<close>; then also its parent and its number are set.\<close>

definition embryo :: "kstate \<Rightarrow> kstate \<Rightarrow> nat set \<Rightarrow> (nat \<Rightarrow> nat list) \<Rightarrow> nat \<Rightarrow> bool" where
  "embryo k s P F p \<longleftrightarrow> (\<exists>ch ps. table_inv k P F ch ps) \<and> rr_inv k P \<and> rq_detached k p \<and> p \<notin> P
     \<and> state (procs k p) = PROC_UNINIT \<and> cptr (procs k p) = None \<and> wait_state (procs k p) = 0
     \<and> (\<forall>x. x \<noteq> p \<longrightarrow> procs k x = procs s x) \<and> current k = current s \<and> idleproc k = idleproc s
     \<and> initproc k = initproc s \<and> nr_process k = nr_process s"

definition numbered :: "kstate \<Rightarrow> kstate \<Rightarrow> nat set \<Rightarrow> (nat \<Rightarrow> nat list) \<Rightarrow> nat \<Rightarrow> bool" where
  "numbered k s P F p \<longleftrightarrow> embryo k s P F p \<and> pparent (procs k p) = Some (current s)
     \<and> 1 \<le> pid (procs k p) \<and> pid (procs k p) < MAX_PID
     \<and> (\<forall>x \<in> P - {idleproc s}. pid (procs k x) \<noteq> pid (procs k p))
     \<and> (\<exists>ch ps. table_inv k P F ch ps \<and> gap (insert (pid (procs k p)) (set (pids k ps))) (last_pid k + 1) (next_safe k))"

text \<open>The fields of a new block that its creation does not set in between.\<close>

definition proc_born :: "proc_struct \<Rightarrow> (proc_state \<times> nat option \<times> 32 word) \<times> (bool \<times> int \<times> 32 word \<times> 32 word)" where
  "proc_born pr = ((state pr, cptr pr, wait_state pr), (on_rq pr, time_slice pr, lab6_stride pr, lab6_priority pr))"

lemma rr_inv_upd_new:
  assumes r: "rr_inv k P" and p: "p \<notin> P" and f: "\<And>pr. proc_born (f pr) = proc_born pr"
  shows "rr_inv (upd_proc p f k) P"
proof -
  have "same_queue k (upd_proc p f k)" using f by (auto simp: same_queue_def proc_born_def)
  moreover have "state (procs (upd_proc p f k) q) = state (procs k q)" for q using f by (auto simp: proc_born_def)
  moreover have "waiting (upd_proc p f k) P = waiting k P" using calculation(2) by (simp add: waiting_def runnable_def)
  moreover have "current k \<noteq> p" using r p by (auto simp: sched_inv_def)
  ultimately show ?thesis using r rq_class_laws(1,2) by (auto simp: sched_inv_def)
qed

lemma embryo_upd:
  assumes e: "embryo k s P F p" and f: "\<And>pr. proc_born (f pr) = proc_born pr"
  shows "embryo (upd_proc p f k) s P F p"
proof -
  have p: "p \<notin> P" and r: "rr_inv k P" using e by (auto simp: embryo_def)
  obtain ch ps where "table_inv k P F ch ps" using e by (auto simp: embryo_def)
  then have "table_inv (upd_proc p f k) P F ch ps" using p by (rule table_upd_new)
  moreover have "rr_inv (upd_proc p f k) P" using r p f by (rule rr_inv_upd_new)
  moreover have "\<exists>ch ps. table_inv (upd_proc p f k) P F ch ps" using calculation(1) by blast
  ultimately show ?thesis using e f[of "procs k p"]
    by (simp add: embryo_def proc_born_def rq_detached_def)
qed

lemma numbered_upd:
  assumes n: "numbered k s P F p" and f: "\<And>pr. proc_born (f pr) = proc_born pr"
    "\<And>pr. pid (f pr) = pid pr" "\<And>pr. pparent (f pr) = pparent pr"
  shows "numbered (upd_proc p f k) s P F p"
proof -
  have p: "p \<notin> P" and e: "embryo k s P F p" using n by (auto simp: numbered_def embryo_def)
  from n obtain ch ps where t: "table_inv k P F ch ps"
    "gap (insert (pid (procs k p)) (set (pids k ps))) (last_pid k + 1) (next_safe k)" by (auto simp: numbered_def)
  have "pid (procs (upd_proc p f k) x) = pid (procs k x)" for x using f(2) by simp
  then show ?thesis using n embryo_upd[OF e f(1)] table_upd_new[OF t(1) p] t(2) f(3)
    unfolding numbered_def by (auto simp del: upd_proc_simps(1)) (auto)
qed

lemma alloc_new:
  assumes t: "table_inv s P F ch ps" and r: "rr_inv s P" and p: "p \<notin> P"
  shows "\<exists>s'. alloc_proc (Some p) b s = (Some p, s') \<and> table_inv s' P F ch ps \<and> rr_inv s' P \<and> rq_detached s' p
    \<and> state (procs s' p) = PROC_UNINIT \<and> cptr (procs s' p) = None \<and> wait_state (procs s' p) = 0
    \<and> (\<forall>x. x \<noteq> p \<longrightarrow> procs s' x = procs s x) \<and> current s' = current s \<and> idleproc s' = idleproc s
    \<and> initproc s' = initproc s \<and> nr_process s' = nr_process s"
proof -
  define s' where "s' = snd (alloc_proc (Some p) b s)"
  have e: "alloc_proc (Some p) b s = (Some p, s')" by (simp add: s'_def alloc_proc_def Let_def)
  obtain f where pr: "procs s' = procs (upd_proc p f s)" by (simp add: s'_def alloc_proc_def Let_def)
  have s': "proc_links s' = list_init (ProcLink p) (proc_links s)"
    "hash_links s' = list_init (HashLink p) (hash_links s)" "run_links s' = list_init (RunLink p) (run_links s)"
    "nr_process s' = nr_process s" "idleproc s' = idleproc s" "initproc s' = initproc s" "current s' = current s"
    "last_pid s' = last_pid s" "next_safe s' = next_safe s" "satp s' = satp s" "proc_num s' = proc_num s"
    "state (procs s' p) = PROC_UNINIT" "cptr (procs s' p) = None" "wait_state (procs s' p) = 0"
    by (simp_all add: s'_def alloc_proc_def Let_def)
  let ?s = "upd_proc p f s"
  have t1: "table_inv ?s P F ch ps" using t p by (rule table_upd_new)
  have same: "procs s' x = procs s x" if "x \<noteq> p" for x using that by (simp add: pr)
  have out: "p \<notin> set ps" "\<And>b. p \<notin> set (ch b)" using table_D(4,6)[OF t] p by auto
  have "pid_inv s' ps"
    using table_D(5)[OF t1] out(1) dlist_frame_init[of "proc_links s" ProcList "map ProcLink ps" "ProcLink p"]
    by (auto simp: pid_inv_def s' pr)
  moreover have "hash_inv s' ch"
  proof -
    have "dlist (list_init (HashLink p) (hash_links s)) (HashList c) (map HashLink (ch c))" for c
      using table_D(3)[OF t] out(2)[of c] by (intro dlist_frame_init) (auto simp: hash_inv_def)
    then show ?thesis using table_D(3)[OF t1] by (simp add: hash_inv_def s' pr)
  qed
  moreover have "family s' P F" using table_D(1)[OF t1] family_procs[OF pr] by simp
  ultimately have t': "table_inv s' P F ch ps" using t1 unfolding table_inv_def s' pr by simp
  have xP: "x \<noteq> p" if "x \<in> P" for x using that p by auto
  have w: "waiting s' P = waiting s P"
    unfolding waiting_def runnable_def s' using same xP by auto
  from r obtain xs where xs: "rq_list s xs" "set xs = waiting s P" by (auto simp: sched_inv_def rq_set_def)
  have sub: "set xs \<subseteq> P" using xs(2) by (auto simp: waiting_def runnable_def)
  have "rq_list s' xs"
    using xs(1) sub xP dlist_frame_init[of "run_links s" RunList "map RunLink xs" "RunLink p"]
    by (auto simp: rq_list_def s' same)
  moreover have "rq_detached s' x" if "rq_detached s x" "x \<in> P" for x
    using that xP by (auto simp: rq_detached_def s' list_defs)
  ultimately have r': "rr_inv s' P"
    using r xs(2) same xP unfolding sched_inv_def w s' rq_set_def by auto
  have "rq_detached s' p" by (simp add: rq_detached_def s' list_defs)
  with e t' r' s' same show ?thesis by auto
qed

lemma alloc_embryo:
  assumes "life_inv s P F" "p \<notin> P"
  shows "\<exists>k. alloc_proc (Some p) b s = (Some p, k) \<and> embryo k s P F p"
proof -
  obtain ch ps where "table_inv s P F ch ps" using life_D(1)[OF assms(1)] by blast
  from alloc_new[OF this life_D(2)[OF assms(1)] assms(2), of b] show ?thesis using assms(2) by (auto simp: embryo_def)
qed

lemma fork_number_embryo:
  assumes l: "life_inv s P F" and e: "embryo k s P F p" and nr: "nr_process s \<le> MAX_PROCESS"
  shows "\<exists>k'. fork_number p k = Some k' \<and> numbered k' s P F p
    \<and> kstack (procs k' p) = kstack (procs k p) \<and> mm (procs k' p) = mm (procs k p)
    \<and> filesp (procs k' p) = filesp (procs k p)"
proof -
  note D = life_D[OF l]
  from e obtain ch ps where t: "table_inv k P F ch ps" and p: "p \<notin> P" by (auto simp: embryo_def)
  have same: "procs k x = procs s x" if "x \<noteq> p" for x using e that by (simp add: embryo_def)
  have c: "current k = current s" "current s \<noteq> p" "nr_process k \<le> MAX_PROCESS"
    using e D(5) p nr by (auto simp: embryo_def)
  have w: "current k \<in> P" "wait_state (procs k (current k)) = 0" using c(1) D(5,11) same[OF c(2)] by simp_all
  from fork_number_ok[OF t p w c(3)] obtain n l' j where
    n: "fork_number p k = Some (upd_proc p (\<lambda>pr. pr\<lparr>pparent := Some (current s), pid := n\<rparr>)
        (k\<lparr>last_pid := l', next_safe := j\<rparr>))" "table_inv (k\<lparr>last_pid := l', next_safe := j\<rparr>) P F ch ps"
      "1 \<le> n" "n < MAX_PID" "\<forall>x \<in> P - {idleproc k}. pid (procs k x) \<noteq> n"
      "gap (insert n (set (pids k ps))) (l' + 1) j" unfolding c(1) by blast
  let ?k = "k\<lparr>last_pid := l', next_safe := j\<rparr>"
  define k' where "k' = upd_proc p (\<lambda>pr. pr\<lparr>pparent := Some (current s), pid := n\<rparr>) ?k"
  have "rr_inv ?k P"
    using e by (intro rr_sched.sched_inv_same[of k P ?k]) (auto simp: embryo_def same_queue_def)
  then have "embryo ?k s P F p" using e n(2) by (auto simp: embryo_def rq_detached_def)
  then have e': "embryo k' s P F p" unfolding k'_def by (rule embryo_upd) (simp add: proc_born_def)
  have t': "table_inv k' P F ch ps" unfolding k'_def using n(2) p by (rule table_upd_new)
  have "pids k' ps = pids k ps" using table_D(6)[OF t] p by (auto simp: k'_def)
  then have g: "gap (insert n (set (pids k' ps))) (l' + 1) j" using n(6) by (simp only:)
  have f: "pid (procs k' p) = n" "pparent (procs k' p) = Some (current s)" "last_pid k' = l'" "next_safe k' = j"
    by (simp_all add: k'_def)
  have "\<forall>x \<in> P - {idleproc s}. pid (procs k' x) \<noteq> n"
  proof -
    have "idleproc k = idleproc s" using e by (simp add: embryo_def)
    with n(5) p show ?thesis by (auto simp: k'_def)
  qed
  then have "numbered k' s P F p" using e' t' n(3,4) g unfolding numbered_def f by blast
  with n(1) show ?thesis unfolding k'_def by auto
qed

lemma fork_link_life:
  assumes l: "life_inv s P F" and n: "numbered k s P F p"
  shows "\<exists>k'. fork_link default_sched_class p k = Some k'
    \<and> life_inv k' (insert p P) (F(current s := p # F (current s), p := []))
    \<and> state (procs k' p) = PROC_RUNNABLE \<and> (\<forall>x. pid (procs k' x) = pid (procs k x))
    \<and> kstack (procs k' p) = kstack (procs k p) \<and> mm (procs k' p) = mm (procs k p)
    \<and> filesp (procs k' p) = filesp (procs k p) \<and> current k' = current s"
proof -
  let ?c = "current s"
  note D = life_D[OF l]
  from n obtain ch ps where t: "table_inv k P F ch ps"
    "gap (insert (pid (procs k p)) (set (pids k ps))) (last_pid k + 1) (next_safe k)" by (auto simp: numbered_def)
  have e: "rr_inv k P" "rq_detached k p" "p \<notin> P" "state (procs k p) = PROC_UNINIT" "cptr (procs k p) = None"
    "wait_state (procs k p) = 0" "current k = ?c" "idleproc k = idleproc s" "initproc k = initproc s"
    "pparent (procs k p) = Some ?c" "1 \<le> pid (procs k p)" "pid (procs k p) < MAX_PID"
    "\<forall>x \<in> P - {idleproc k}. pid (procs k x) \<noteq> pid (procs k p)"
    using n by (auto simp: numbered_def embryo_def)
  have f2: "procs k x = procs s x" if "x \<noteq> p" for x using n that by (auto simp: numbered_def embryo_def)
  from rr_sched.fork_link_ok[OF t(1) e(1,3,10) D(5) e(5,4,2,11,12,13) t(2) refl] obtain k' where
    k': "fork_link default_sched_class p k = Some k'" "rr_inv k' (insert p P)"
      "\<exists>ch ps. table_inv k' (insert p P) (F(?c := p # F ?c, p := [])) ch ps"
      "state (procs k' p) = PROC_RUNNABLE" "states_kept {p} k k'" "current k' = ?c" "idleproc k' = idleproc s"
      "initproc k' = initproc s" "\<forall>x. pid (procs k' x) = pid (procs k x)" "\<forall>x. wait_ok k x \<longrightarrow> wait_ok k' x"
      "\<forall>x. kstack (procs k' x) = kstack (procs k x) \<and> mm (procs k' x) = mm (procs k x) \<and> filesp (procs k' x) = filesp (procs k x)"
    unfolding e(7-9) by blast
  have f3: "state (procs k' x) = state (procs s x)" if "x \<in> P" for x
  proof -
    have "x \<noteq> p" using that e(3) by auto
    then show ?thesis using k'(5) f2[of x] by (simp add: states_kept_def)
  qed
  have ip: "idleproc s \<noteq> p" "initproc s \<noteq> p" "?c \<noteq> p" using D(4-6) e(3) by auto
  have w3: "wait_ok k' x" if "x \<in> insert p P" for x
  proof -
    have "wait_ok k x" using that f2[of x] e(6) l by (cases "x = p") (auto simp: life_defs wait_ok_def)
    then show ?thesis using k'(10) by blast
  qed
  have "(F(?c := p # F ?c, p := [])) x = []" if "x \<in> insert p P" "zombie k' x" for x
    using that f3[of x] k'(4) l by (cases "x = p"; cases "x = ?c") (auto simp: life_defs)
  moreover have "initproc s \<in> set ((F(?c := p # F ?c, p := [])) (idleproc s))"
    "\<forall>q \<in> insert p P. idleproc s \<notin> set ((F(?c := p # F ?c, p := [])) q)"
    using l ip D(9) by (auto simp: life_defs)
  ultimately have "life_inv k' (insert p P) (F(?c := p # F ?c, p := []))"
    unfolding life_defs k'(6-8) using k'(2,3) w3 f3[OF D(4)] f3[OF D(5)] f3[OF D(6)] l
    by (auto simp: life_defs)
  with k' show ?thesis by blast
qed

text \<open>The work of \<open>do_fork\<close> on the process table.\<close>

definition fork_table :: "nat \<Rightarrow> nat \<Rightarrow> kstate \<Rightarrow> kstate option" where
  "fork_table b p s =
     (if nr_process s \<ge> MAX_PROCESS then Some s
      else do {
        s1 \<leftarrow> fork_number p (snd (alloc_proc (Some p) b s));
        fork_link default_sched_class p s1 })"

lemma life_fork:
  assumes l: "life_inv s P F" and p: "p \<notin> P" and nr: "nr_process s < MAX_PROCESS"
  shows "\<exists>s'. fork_table b p s = Some s' \<and> life_inv s' (insert p P) (F(current s := p # F (current s), p := []))"
proof -
  from alloc_embryo[OF l p, of b] obtain k where k: "alloc_proc (Some p) b s = (Some p, k)" "embryo k s P F p" by blast
  from fork_number_embryo[OF l k(2)] nr obtain k1 where k1: "fork_number p k = Some k1" "numbered k1 s P F p" by auto
  from fork_link_life[OF l k1(2)] k k1(1) nr show ?thesis by (auto simp: fork_table_def)
qed

section \<open>Waiting\<close>

text \<open>One pass of \<open>do_wait\<close> over the process table.\<close>

definition wait_table :: "int \<Rightarrow> kstate \<Rightarrow> kstate option" where
  "wait_table n s = do {
     (haskid, r) \<leftarrow> wait_search n s;
     (case r of
        Some p \<Rightarrow> do { kassert (p \<noteq> idleproc s \<and> p \<noteq> initproc s); wait_unlink p s }
      | None \<Rightarrow> if haskid then wait_sleep default_sched_class s else Some s) }"

lemma life_reap:
  assumes l: "life_inv s P F" and p: "p \<in> set (F (current s))" "zombie s p"
  shows "\<exists>s'. wait_unlink p s = Some s' \<and> life_inv s' (P - {p}) (F(current s := remove1 p (F (current s))))
    \<and> p \<noteq> idleproc s \<and> p \<noteq> initproc s \<and> kstack (procs s' p) = kstack (procs s p)"
proof -
  let ?c = "current s" and ?F = "F(current s := remove1 p (F (current s)))"
  note D = life_D[OF l]
  obtain ch ps where t: "table_inv s P F ch ps" using D(1) by blast
  have pP: "p \<in> P" using D(3,5) p(1) by (auto simp: family_at_def)
  have pz: "F p = []" "p \<noteq> idleproc s" "p \<noteq> initproc s" "p \<noteq> ?c" using l p(2) pP by (auto simp: life_defs)
  from wait_unlink_ok[OF t p(1) D(5) pz(2,1)] obtain s' where
    s': "wait_unlink p s = Some s'" "table_inv s' (P - {p}) ?F (\<lambda>b. remove1 p (ch b)) (remove1 p ps)"
      "\<forall>x. proc_rest (procs s' x) = proc_rest (procs s x)" "same_queue s s'" "current s' = ?c"
      "idleproc s' = idleproc s" "initproc s' = initproc s" "satp s' = satp s" by blast
  have pr: "state (procs s' x) = state (procs s x)" "wait_state (procs s' x) = wait_state (procs s x)"
    "pgdir (procs s' x) = pgdir (procs s x)" "kstack (procs s' x) = kstack (procs s x)" for x
    using proc_restD[OF s'(3)[rule_format]] by auto
  have r1: "rr_inv s' P" using D(2) s'(4,5,6,8) pr(3,1) by (rule rr_sched.sched_inv_same)
  have w: "waiting s' (P - {p}) = waiting s' P" using p(2) pr(1) by (auto simp: waiting_def runnable_def)
  have r': "rr_inv s' (P - {p})" using r1 pz(2,4) s'(5,6) w by (auto simp: sched_inv_def)
  have "life_inv s' (P - {p}) ?F"
    unfolding life_defs s'(5-7) pr wait_ok_def using s'(2) r' l pz
    by (auto simp: life_defs wait_ok_def dest: in_set_remove1[THEN iffD1, rotated] notin_set_remove1)
  with s'(1) pz pr(4) show ?thesis by blast
qed

lemma life_wait_sleep:
  assumes l: "life_inv s P F" and c: "current s \<noteq> idleproc s"
  shows "\<exists>s'. wait_sleep default_sched_class s = Some s' \<and> life_inv s' P F \<and> current s' \<noteq> current s
    \<and> state (procs s' (current s)) = PROC_SLEEPING \<and> wait_state (procs s' (current s)) = WT_CHILD"
proof -
  let ?c = "current s"
  define s1 where "s1 = upd_proc ?c (\<lambda>p. p\<lparr>state := PROC_SLEEPING, wait_state := WT_CHILD\<rparr>) s"
  note D = life_D[OF l]
  have f: "proc_frame s s1" unfolding s1_def by (intro upd_proc_frame) simp
  have r: "rr_inv s1 P" using D(2) by (rule rr_sched.sched_inv_same) (auto simp: s1_def same_queue_def)
  have "life_core s1 P F"
    using l[unfolded life_inv_def, THEN conjunct1] table_frame[OF f] r proc_frameD(9,10)[OF f]
    by (rule life_core_mono) (use l c in \<open>auto simp: s1_def life_defs wait_ok_def split: if_splits\<close>)
  from life_core_schedule[OF this] obtain s' where s': "schedule default_sched_class s1 = Some s'" "life_inv s' P F"
    "states_kept {} s1 s'" by blast
  have "state (procs s' ?c) = PROC_SLEEPING" "wait_state (procs s' ?c) = WT_CHILD"
    using s'(3) by (simp_all add: states_kept_def s1_def)
  moreover then have "current s' \<noteq> ?c" using s'(2) by (auto simp: life_inv_def)
  ultimately show ?thesis using s'(1,2) by (auto simp: wait_sleep_def s1_def)
qed

lemma life_wait:
  assumes l: "life_inv s P F" and c: "current s \<noteq> idleproc s"
  shows "wait_search n s = Some (waited n s (F (current s)) \<noteq> [], List.find (zombie s) (waited n s (F (current s))))"
    and "\<exists>s'. wait_table n s = Some s' \<and> (case List.find (zombie s) (waited n s (F (current s))) of
        Some p \<Rightarrow> life_inv s' (P - {p}) (F(current s := remove1 p (F (current s))))
      | None \<Rightarrow> life_inv s' P F \<and> (if waited n s (F (current s)) = [] then s' = s
          else current s' \<noteq> current s \<and> state (procs s' (current s)) = PROC_SLEEPING
            \<and> wait_state (procs s' (current s)) = WT_CHILD))"
proof -
  note D = life_D[OF l]
  obtain ch ps where t: "table_inv s P F ch ps" using D(1) by blast
  show ws: "wait_search n s = Some (waited n s (F (current s)) \<noteq> [], List.find (zombie s) (waited n s (F (current s))))"
    using wait_search_ok[OF t refl D(5) D(9)[OF D(5)]] .
  show "\<exists>s'. wait_table n s = Some s' \<and> (case List.find (zombie s) (waited n s (F (current s))) of
        Some p \<Rightarrow> life_inv s' (P - {p}) (F(current s := remove1 p (F (current s))))
      | None \<Rightarrow> life_inv s' P F \<and> (if waited n s (F (current s)) = [] then s' = s
          else current s' \<noteq> current s \<and> state (procs s' (current s)) = PROC_SLEEPING
            \<and> wait_state (procs s' (current s)) = WT_CHILD))"
  proof (cases "List.find (zombie s) (waited n s (F (current s)))")
    case None
    with ws l life_wait_sleep[OF l c] show ?thesis
      by (cases "waited n s (F (current s)) = []") (auto simp: wait_table_def)
  next
    case (Some p)
    then have "p \<in> set (waited n s (F (current s)))" "zombie s p" by (auto simp: find_Some_iff)
    with life_reap[OF l, of p] ws Some show ?thesis by (auto simp: wait_table_def waited_def)
  qed
qed

section \<open>Killing\<close>

lemma life_kill:
  assumes l: "life_inv s P F"
  shows "p \<in> P \<Longrightarrow> p \<noteq> idleproc s \<Longrightarrow> pid (procs s p) = n \<Longrightarrow> flags (procs s p) AND PF_EXITING \<noteq> 0 \<Longrightarrow>
      do_kill default_sched_class n s = Some (- E_KILLED, s)"
    and "p \<in> P \<Longrightarrow> p \<noteq> idleproc s \<Longrightarrow> pid (procs s p) = n \<Longrightarrow> flags (procs s p) AND PF_EXITING = 0 \<Longrightarrow>
      \<exists>s'. do_kill default_sched_class n s = Some (0, s') \<and> life_inv s' P F
        \<and> flags (procs s' p) = flags (procs s p) OR PF_EXITING \<and> states_kept {p} s s' \<and> current s' = current s
        \<and> state (procs s' p) = (if wait_state (procs s p) AND WT_INTERRUPTED \<noteq> 0 then PROC_RUNNABLE else state (procs s p))"
    and "\<forall>p \<in> P - {idleproc s}. pid (procs s p) \<noteq> n \<Longrightarrow> do_kill default_sched_class n s = Some (- E_INVAL, s)"
proof -
  note D = life_D[OF l]
  obtain ch ps where t: "table_inv s P F ch ps" using D(1) by blast
  from find_proc_table[OF t, of n] obtain r where r: "find_proc n s = Some r"
    "\<And>p. r = Some p \<longleftrightarrow> p \<in> P \<and> p \<noteq> idleproc s \<and> pid (procs s p) = n" by blast
  show "do_kill default_sched_class n s = Some (- E_INVAL, s)" if "\<forall>p \<in> P - {idleproc s}. pid (procs s p) \<noteq> n"
    using that r by (cases r) (auto simp: do_kill_def)
  {
    assume p: "p \<in> P" "p \<noteq> idleproc s" "pid (procs s p) = n"
    then have rp: "r = Some p" using r(2) by blast
    show "do_kill default_sched_class n s = Some (- E_KILLED, s)" if "flags (procs s p) AND PF_EXITING \<noteq> 0"
      using that r(1) rp by (simp add: do_kill_def)
    assume fl: "flags (procs s p) AND PF_EXITING = 0"
    define s1 where "s1 = upd_proc p (flags_update (\<lambda>f. f OR PF_EXITING)) s"
    define w where "w \<longleftrightarrow> wait_state (procs s p) AND WT_INTERRUPTED \<noteq> 0"
    have st1: "state (procs s1 x) = state (procs s x)" "wait_state (procs s1 x) = wait_state (procs s x)"
      "pgdir (procs s1 x) = pgdir (procs s x)" for x by (auto simp: s1_def)
    have r1: "rr_inv s1 P" using D(2) by (rule rr_sched.sched_inv_same) (auto simp: s1_def same_queue_def)
    have t1: "table_inv s1 P F ch ps" if "table_inv s P F ch ps" for ch ps
      using that by (intro table_cong[of s1 s]) (auto simp: s1_def)
    have sl: "w \<Longrightarrow> state (procs s p) = PROC_SLEEPING" using l p(1) by (auto simp: life_defs wait_ok_def w_def)
    have "\<exists>s2. (if w then wakeup_proc default_sched_class p s1 else Some s1) = Some s2 \<and> rr_inv s2 P
      \<and> proc_frame s1 s2 \<and> states_kept {p} s1 s2 \<and> current s2 = current s1
      \<and> state (procs s2 p) = (if w then PROC_RUNNABLE else state (procs s p)) \<and> (\<forall>x. wait_ok s1 x \<longrightarrow> wait_ok s2 x)"
      using rr_sched.wakeup_full[OF r1 p(1)] sl st1(1)[of p] r1 by (cases w) (auto simp: states_kept_def)
    then obtain s2 where s2: "(if w then wakeup_proc default_sched_class p s1 else Some s1) = Some s2" "rr_inv s2 P"
      "proc_frame s1 s2" "states_kept {p} s1 s2" "current s2 = current s1"
      "state (procs s2 p) = (if w then PROC_RUNNABLE else state (procs s p))" "\<forall>x. wait_ok s1 x \<longrightarrow> wait_ok s2 x" by blast
    have kept: "states_kept {p} s s2" using s2(4) st1 by (simp add: states_kept_def)
    have g: "initproc s2 = initproc s" "idleproc s2 = idleproc s" "current s2 = current s"
      using proc_frameD(9,10)[OF s2(3)] s2(5) by (simp_all add: s1_def)
    have st2: "state (procs s2 x) = state (procs s x) \<or> state (procs s2 x) = PROC_RUNNABLE" for x
      using kept s2(6) by (cases "x = p") (auto simp: states_kept_def)
    have "life_core s2 P F"
      using l[unfolded life_inv_def, THEN conjunct1] table_frame[OF s2(3) t1] s2(2) g(1,2)
    proof (rule life_core_mono)
      show "state (procs s2 (idleproc s)) = PROC_RUNNABLE" using st2[of "idleproc s"] l by (auto simp: life_defs)
      show "zombie s2 x \<Longrightarrow> zombie s x" for x using st2[of x] by auto
      show "x \<in> P \<Longrightarrow> wait_ok s2 x" for x using s2(7) st1 l by (auto simp: life_defs wait_ok_def)
    qed
    then have "life_inv s2 P F" using st2[of "current s"] l g(3) by (auto simp: life_inv_def)
    moreover have "do_kill default_sched_class n s = Some (0, s2)"
      unfolding do_kill_def r(1) rp using fl s2(1) by (simp add: Let_def s1_def[symmetric] st1(2) w_def)
    moreover have "flags (procs s2 p) = flags (procs s p) OR PF_EXITING"
      using proc_frameD(2)[OF s2(3)] by (simp add: s1_def)
    ultimately show "\<exists>s'. do_kill default_sched_class n s = Some (0, s') \<and> life_inv s' P F
        \<and> flags (procs s' p) = flags (procs s p) OR PF_EXITING \<and> states_kept {p} s s' \<and> current s' = current s
        \<and> state (procs s' p) = (if wait_state (procs s p) AND WT_INTERRUPTED \<noteq> 0 then PROC_RUNNABLE else state (procs s p))"
      using kept g(3) s2(6) by (auto simp: w_def)
  }
qed

section \<open>The transition system\<close>

datatype life_event = Fork nat | Exit int | Wait int | Kill int | Resched

fun life_step :: "nat \<Rightarrow> life_event \<Rightarrow> kstate \<Rightarrow> kstate option" where
  "life_step b (Fork p) s = fork_table b p s"
| "life_step b (Exit code) s = do {
     kassert (current s \<noteq> idleproc s);
     kassert (current s \<noteq> initproc s);
     do_exit_tail default_sched_class code s }"
| "life_step b (Wait n) s = wait_table n s"
| "life_step b (Kill n) s = map_option snd (do_kill default_sched_class n s)"
| "life_step b Resched s = schedule default_sched_class s"

text \<open>What the process that runs can do: a new block is not one of the table, and the idle process
  neither exits nor waits; that \<open>initproc\<close> does not exit is what the kernel asserts.\<close>

fun enabled :: "life_event \<Rightarrow> kstate \<Rightarrow> nat set \<Rightarrow> bool" where
  "enabled (Fork p) s P \<longleftrightarrow> p \<notin> P"
| "enabled (Exit code) s P \<longleftrightarrow> current s \<noteq> idleproc s \<and> current s \<noteq> initproc s"
| "enabled (Wait n) s P \<longleftrightarrow> current s \<noteq> idleproc s"
| "enabled (Kill n) s P \<longleftrightarrow> True"
| "enabled Resched s P \<longleftrightarrow> True"

text \<open>The abstract family: a set of processes, the children of each, who runs, who has exited, and
  the numbers.\<close>

record fam =
  members :: "nat set"
  kids_of :: "nat \<Rightarrow> nat list"

fun fam_step :: "life_event \<Rightarrow> kstate \<Rightarrow> fam \<Rightarrow> fam" where
  "fam_step (Fork p) s f =
     (if card (members f) \<ge> nat MAX_PROCESS then f
      else \<lparr>members = insert p (members f), kids_of = (kids_of f)(current s := p # kids_of f (current s), p := [])\<rparr>)"
| "fam_step (Exit code) s f = f\<lparr>kids_of :=
     (kids_of f)(current s := [], initproc s := rev (kids_of f (current s)) @ kids_of f (initproc s))\<rparr>"
| "fam_step (Wait n) s f =
     (case List.find (zombie s) (waited n s (kids_of f (current s))) of
        None \<Rightarrow> f
      | Some p \<Rightarrow> \<lparr>members = members f - {p}, kids_of = (kids_of f)(current s := remove1 p (kids_of f (current s)))\<rparr>)"
| "fam_step (Kill n) s f = f"
| "fam_step Resched s f = f"

abbreviation life_ok :: "kstate \<Rightarrow> fam \<Rightarrow> bool" where
  "life_ok s f \<equiv> life_inv s (members f) (kids_of f)"

lemma life_step_ok:
  assumes l: "life_ok s f" and e: "enabled ev s (members f)"
  shows "\<exists>s'. life_step b ev s = Some s' \<and> life_ok s' (fam_step ev s f)"
proof (cases ev)
  case (Fork p)
  obtain ch ps where t: "table_inv s (members f) (kids_of f) ch ps" using life_D(1)[OF l] by blast
  show ?thesis
  proof (cases "nr_process s \<ge> MAX_PROCESS")
    case True
    with table_D(9)[OF t] Fork l show ?thesis by (simp add: fork_table_def)
  next
    case False
    with life_fork[OF l, of p b] Fork e table_D(9)[OF t] show ?thesis by auto
  qed
next
  case (Exit code)
  with life_exit[OF l, of code] e show ?thesis by auto
next
  case (Wait n)
  with life_wait(2)[OF l, of n] e show ?thesis by (auto split: option.splits)
next
  case (Kill n)
  show ?thesis
  proof (cases "\<exists>p \<in> members f. p \<noteq> idleproc s \<and> pid (procs s p) = n")
    case True
    then obtain p where p: "p \<in> members f" "p \<noteq> idleproc s" "pid (procs s p) = n" by blast
    with life_kill(1,2)[OF l p] Kill l show ?thesis by (cases "flags (procs s p) AND PF_EXITING = 0") auto
  qed (use life_kill(3)[OF l, of n] Kill l in auto)
next
  case Resched
  with life_core_schedule[OF l[unfolded life_inv_def, THEN conjunct1]] show ?thesis by auto
qed

text \<open>A run: every event that is enabled when its turn comes is executed.\<close>

fun life_run :: "nat \<Rightarrow> life_event list \<Rightarrow> kstate \<Rightarrow> fam \<Rightarrow> (kstate \<times> fam) option" where
  "life_run b [] s f = Some (s, f)"
| "life_run b (ev # evs) s f =
     (if enabled ev s (members f)
      then do { s' \<leftarrow> life_step b ev s; life_run b evs s' (fam_step ev s f) }
      else life_run b evs s f)"

lemma life_run_ok: "life_ok s f \<Longrightarrow> \<exists>s' f'. life_run b evs s f = Some (s', f') \<and> life_ok s' f'"
proof (induction evs arbitrary: s f)
  case (Cons ev evs)
  show ?case
  proof (cases "enabled ev s (members f)")
    case True
    from life_step_ok[OF Cons.prems this] obtain s1 where "life_step b ev s = Some s1" "life_ok s1 (fam_step ev s f)" by blast
    with Cons.IH[of s1] True show ?thesis by auto
  qed (use Cons in auto)
qed simp

section \<open>Properties\<close>

text \<open>The table at the end of \<open>proc_init\<close>, with \<open>initproc\<close> waiting for its children.\<close>

definition cradle :: kstate where
  "cradle = (upd_proc 1 (\<lambda>p. p\<lparr>state := PROC_SLEEPING, wait_state := WT_CHILD, pparent := Some 0\<rparr>)
     (upd_proc 0 (filesp_update (\<lambda>_. Some 0)) (sched_init default_sched_class boot_state)))\<lparr>last_pid := 1, next_safe := MAX_PID\<rparr>"

definition first_two :: kstate where
  "first_two = the (set_links 1 (hash_proc 1 cradle))"

definition first_fam :: fam where
  "first_fam = \<lparr>members = {0, 1}, kids_of = (\<lambda>_. [])(0 := [1])\<rparr>"

lemma cradle_simps:
  "idleproc cradle = 0" "initproc cradle = 1" "current cradle = 0" "nr_process cradle = 1" "satp cradle = 0"
  "last_pid cradle = 1" "next_safe cradle = MAX_PID" "cptr (procs cradle x) = None" "pid (procs cradle x) = int x"
  "pgdir (procs cradle x) = 0" "pparent (procs cradle 1) = Some 0" "state (procs cradle 1) = PROC_SLEEPING"
  "wait_state (procs cradle 1) = WT_CHILD" "state (procs cradle 0) = PROC_RUNNABLE" "wait_state (procs cradle 0) = 0"
  by (simp_all add: cradle_def sched_init_def RR_init_def boot_state_def idle_proc_def)

lemma cradle_table: "table_inv cradle {0} (\<lambda>_. []) (\<lambda>_. []) []"
proof -
  have "plist cradle []" "\<And>b. dlist (hash_links cradle) (HashList b) []"
    by (simp_all add: cradle_def sched_init_def RR_init_def boot_state_def dlist_def)
  then show ?thesis
    by (simp add: table_inv_def family_at_def kids_def cradle_simps hash_inv_def pid_inv_def gap_def)
qed

lemma cradle_sched: "rr_inv cradle {0, 1}"
proof -
  have "waiting cradle {0, 1} = {}" by (auto simp: waiting_def runnable_def cradle_simps simp del: One_nat_def)
  moreover have "rq_list cradle []" "\<And>p. rq_detached cradle p"
    by (simp_all add: rq_list_def rq_detached_def cradle_def sched_init_def RR_init_def boot_state_def dlist_def list_defs)
  ultimately show ?thesis by (auto simp: sched_inv_def rq_set_def cradle_simps)
qed

lemma first_two_ok: "life_ok first_two first_fam"
proof -
  from table_link[OF cradle_table, of 1 0, OF _ _ _ _ _ _ _ _ refl] obtain s' where
    s': "set_links 1 (hash_proc 1 cradle) = Some s'"
      "\<exists>ch ps. table_inv s' (insert 1 {0}) ((\<lambda>_. [])(0 := [1], 1 := [])) ch ps"
      "\<forall>x. proc_rest (procs s' x) = proc_rest (procs cradle x)" "same_queue cradle s'" "current s' = current cradle"
      "idleproc s' = idleproc cradle" "initproc s' = initproc cradle" "satp s' = satp cradle"
    by (auto simp: cradle_simps gap_def simp del: One_nat_def)
  have F: "(\<lambda>_. [])(0 := [1], 1 := []) = (kids_of first_fam)" by (auto simp: first_fam_def)
  have pr: "state (procs s' x) = state (procs cradle x)" "wait_state (procs s' x) = wait_state (procs cradle x)"
    "pgdir (procs s' x) = pgdir (procs cradle x)" for x using proc_restD[OF s'(3)[rule_format]] by auto
  have r: "rr_inv s' {0, 1}" using cradle_sched s'(4-6,8) pr(3,1) by (rule rr_sched.sched_inv_same)
  have "life_inv s' {0, 1} (kids_of first_fam)"
    using s'(2) r unfolding life_defs wait_ok_def s'(5-7) pr F[symmetric] cradle_simps
    by (auto simp: insert_commute cradle_simps split: if_splits simp del: One_nat_def)
  then show ?thesis using s'(1) by (simp add: first_two_def first_fam_def)
qed




text \<open>C18. \<open>do_kill\<close>: an unknown number gives \<open>-E_INVAL\<close> and a process that is already being killed \<open>-E_KILLED\<close>,
  both without any change; otherwise the process is marked, it becomes runnable exactly if
  it sleeps interruptibly, no other process changes its state, and all invariants are kept.\<close>

theorem do_kill_outcome:
  assumes l: "life_inv s P F"
  shows "if \<forall>p \<in> P - {idleproc s}. pid (procs s p) \<noteq> n then do_kill default_sched_class n s = Some (- E_INVAL, s)
    else \<exists>p \<in> P - {idleproc s}. pid (procs s p) = n \<and>
      (if flags (procs s p) AND PF_EXITING \<noteq> 0 then do_kill default_sched_class n s = Some (- E_KILLED, s)
       else \<exists>s'. do_kill default_sched_class n s = Some (0, s') \<and> life_inv s' P F
        \<and> flags (procs s' p) = flags (procs s p) OR PF_EXITING \<and> states_kept {p} s s' \<and> current s' = current s
        \<and> state (procs s' p) = (if wait_state (procs s p) AND WT_INTERRUPTED \<noteq> 0 then PROC_RUNNABLE else state (procs s p)))"
proof (cases "\<forall>p \<in> P - {idleproc s}. pid (procs s p) \<noteq> n")
  case True
  then show ?thesis using life_kill(3)[OF l True] by simp
next
  case False
  then obtain p where "p \<in> P" "p \<noteq> idleproc s" "pid (procs s p) = n" by blast
  with life_kill(1,2)[OF l this] have "p \<in> P - {idleproc s}" "pid (procs s p) = n \<and>
      (if flags (procs s p) AND PF_EXITING \<noteq> 0 then do_kill default_sched_class n s = Some (- E_KILLED, s)
       else \<exists>s'. do_kill default_sched_class n s = Some (0, s') \<and> life_inv s' P F
        \<and> flags (procs s' p) = flags (procs s p) OR PF_EXITING \<and> states_kept {p} s s' \<and> current s' = current s
        \<and> state (procs s' p) = (if wait_state (procs s p) AND WT_INTERRUPTED \<noteq> 0 then PROC_RUNNABLE else state (procs s p)))"
    by simp_all
  with False show ?thesis by (simp only: if_False) (rule bexI)
qed

text \<open>Process 2, a child of the idle process, is created and runs; then it creates process 3, which runs
  and exits with code 7, so that process 2 runs again.\<close>

definition forked :: "kstate \<times> fam" where
  "forked = the (life_run 0 [Fork 2, Resched] first_two first_fam)"

definition bereaved :: "kstate \<times> fam" where
  "bereaved = the (life_run 0 [Fork 3, Resched, Exit 7] (fst forked) (snd forked))"

lemma forked_ok: "life_ok (fst forked) (snd forked)"
  using life_run_ok[OF first_two_ok, of 0 "[Fork 2, Resched]"] by (auto simp: forked_def)

lemma bereaved_ok: "life_ok (fst bereaved) (snd bereaved)"
  using life_run_ok[OF forked_ok, of 0 "[Fork 3, Resched, Exit 7]"] by (auto simp: bereaved_def)

lemma forked_eval: "current (fst forked) = 2" "idleproc (fst forked) = 0" "initproc (fst forked) = 1"
  by code_simp+

lemma bereaved_eval: "current (fst bereaved) = 2" "idleproc (fst bereaved) = 0"
  "List.find (zombie (fst bereaved)) (waited 0 (fst bereaved) (kids_of (snd bereaved) (current (fst bereaved)))) = Some 3"
  by code_simp+


theorem do_kill_outcome_witness:
  "\<exists>s'. do_kill default_sched_class 1 first_two = Some (0, s') \<and> state (procs s' 1) = PROC_RUNNABLE"
proof -
  have e: "idleproc first_two = 0" "pid (procs first_two 0) = 0" "pid (procs first_two 1) = 1"
    "flags (procs first_two 1) AND PF_EXITING = 0" "wait_state (procs first_two 1) AND WT_INTERRUPTED \<noteq> 0"
    by code_simp+
  have P: "members first_fam - {idleproc first_two} = {1}" using e(1) by (auto simp: first_fam_def)
  show ?thesis using do_kill_outcome[OF first_two_ok, of 1] unfolding P using e(3-5) by auto
qed

end
