(* ===== verification/Iobuf.thy ===== *)
theory Iobuf
  imports Strings
begin

text \<open>
  I/O buffers, \<open>kern/fs/iobuf.c\<close>: a buffer in memory with a file position and the number of
  bytes still to be transferred.  \<open>iobuf_move\<close> copies between the buffer and other memory
  with \<open>memmove\<close>; the library shows that repeated moves transfer a stream without gaps.
\<close>

section \<open>Definitions\<close>

record iobuf =
  io_base :: nat
  io_offset :: int
  io_len :: nat
  io_resid :: nat

definition iobuf_used :: "iobuf \<Rightarrow> nat" where
  "iobuf_used iob = io_len iob - io_resid iob"

definition iobuf_init :: "nat \<Rightarrow> nat \<Rightarrow> int \<Rightarrow> iobuf" where
  "iobuf_init base len offset = \<lparr>io_base = base, io_offset = offset, io_len = len, io_resid = len\<rparr>"

definition iobuf_skip :: "iobuf \<Rightarrow> nat \<Rightarrow> iobuf option" where
  "iobuf_skip iob n = do {
     kassert (io_resid iob \<ge> n);
     Some (iob\<lparr>io_base := io_base iob + n, io_offset := io_offset iob + int n,
               io_resid := io_resid iob - n\<rparr>) }"

text \<open>The result of a move: the code, the number of bytes copied, the buffer and the memory.\<close>

definition iobuf_move :: "iobuf \<Rightarrow> nat \<Rightarrow> nat \<Rightarrow> bool \<Rightarrow> mem \<Rightarrow> (int \<times> nat \<times> iobuf \<times> mem) option" where
  "iobuf_move iob data len m2b m =
     (let alen = (if io_resid iob > len then len else io_resid iob)
      in do {
        (iob1, len1, m1) \<leftarrow>
          (if alen > 0
           then let (src, dst) = (if m2b then (data, io_base iob) else (io_base iob, data));
                    m1 = snd (memmove dst src alen m)
                in do { iob1 \<leftarrow> iobuf_skip iob alen; Some (iob1, len - alen, m1) }
           else Some (iob, len, m));
        Some (if len1 = 0 then 0 else - E_NO_MEM, alen, iob1, m1) })"

definition iobuf_move_zeros :: "iobuf \<Rightarrow> nat \<Rightarrow> mem \<Rightarrow> (int \<times> nat \<times> iobuf \<times> mem) option" where
  "iobuf_move_zeros iob len m =
     (let alen = (if io_resid iob > len then len else io_resid iob)
      in do {
        (iob1, len1, m1) \<leftarrow>
          (if alen > 0
           then do { iob1 \<leftarrow> iobuf_skip iob alen;
                     Some (iob1, len - alen, snd (memset (io_base iob) 0 alen m)) }
           else Some (iob, len, m));
        Some (if len1 = 0 then 0 else - E_NO_MEM, alen, iob1, m1) })"

section \<open>Properties\<close>

lemma iobuf_skip_ok: "n \<le> io_resid iob \<Longrightarrow>
  iobuf_skip iob n = Some (iob\<lparr>io_base := io_base iob + n, io_offset := io_offset iob + int n, io_resid := io_resid iob - n\<rparr>)"
  by (simp add: iobuf_skip_def)

lemma iobuf_move_eq:
  "iobuf_move iob data len m2b m =
     (let k = min len (io_resid iob) in
      Some (if len \<le> io_resid iob then 0 else - E_NO_MEM, k,
        iob\<lparr>io_base := io_base iob + k, io_offset := io_offset iob + int k, io_resid := io_resid iob - k\<rparr>,
        if m2b then snd (memmove (io_base iob) data k m) else snd (memmove data (io_base iob) k m)))"
proof (cases "min len (io_resid iob) = 0")
  case True
  have "snd (memmove a b 0 m) = m" for a b by (simp add: memmove_def)
  with True show ?thesis by (auto simp: iobuf_move_def Let_def min_def split: if_splits)
next
  case False
  then show ?thesis by (auto simp: iobuf_move_def Let_def iobuf_skip_ok min_def split: if_splits)
qed

text \<open>\<open>iobuf_move\<close> always returns, never overruns the buffer (it moves the smaller of what was
  asked for and what is left), transfers exactly those bytes in the asked direction even when
  the areas overlap, advances position and buffer by as much, and reports an error exactly when
  it moved less than asked for.\<close>

theorem iobuf_move_transfers:
  "\<exists>code k iob' m'. iobuf_move iob data len m2b m = Some (code, k, iob', m')
    \<and> k = min len (io_resid iob) \<and> code = (if len \<le> io_resid iob then 0 else - E_NO_MEM)
    \<and> io_base iob' = io_base iob + k \<and> io_offset iob' = io_offset iob + int k
    \<and> io_resid iob' = io_resid iob - k \<and> io_len iob' = io_len iob
    \<and> bytes m' (if m2b then io_base iob else data) k = bytes m (if m2b then data else io_base iob) k
    \<and> (\<forall>x. x < (if m2b then io_base iob else data) \<or> (if m2b then io_base iob else data) + k \<le> x \<longrightarrow> m' x = m x)"
  unfolding iobuf_move_eq Let_def by (auto simp: memmove_at intro!: bytes_cong)

text \<open>Transfers compose: two moves from adjacent places have the effect of one move of the
  total length.\<close>

theorem iobuf_move_append:
  assumes "a + b \<le> io_resid iob" "data + a + b \<le> io_base iob \<or> io_base iob + a + b \<le> data"
  shows "do { (c, k, iob1, m1) \<leftarrow> iobuf_move iob data a True m; iobuf_move iob1 (data + a) b True m1 }
    = map_option (\<lambda>(c, k, iob2, m2). (c, b, iob2, m2)) (iobuf_move iob data (a + b) True m)"
proof -
  let ?d = "io_base iob"
  have "snd (memmove (?d + a) (data + a) b (snd (memmove ?d data a m))) x = snd (memmove ?d data (a + b) m) x" for x
    using assms(2) by (auto simp: memmove_at)
  then have e: "snd (memmove (?d + a) (data + a) b (snd (memmove ?d data a m))) = snd (memmove ?d data (a + b) m)"
    by (rule ext)
  show ?thesis using assms(1) by (simp add: iobuf_move_eq Let_def e add.assoc)
qed

theorem iobuf_move_transfers_witness:
  "\<exists>iob' m'. iobuf_move (iobuf_init 100 3 0) 10 5 True ab_mem = Some (- E_NO_MEM, 3, iob', m') \<and> io_resid iob' = 0"
  using iobuf_move_transfers[of "iobuf_init 100 3 0" 10 5 True ab_mem] by (auto simp: iobuf_init_def)

theorem iobuf_move_append_witness:
  "do { (c, k, iob1, m1) \<leftarrow> iobuf_move (iobuf_init 100 8 0) 10 3 True ab_mem; iobuf_move iob1 13 4 True m1 }
    = map_option (\<lambda>(c, k, iob2, m2). (c, 4, iob2, m2)) (iobuf_move (iobuf_init 100 8 0) 10 7 True ab_mem)"
  using iobuf_move_append[of 3 4 "iobuf_init 100 8 0" 10 ab_mem] by (simp add: iobuf_init_def)

end
