(* ===== verification/Inode.thy ===== *)
theory Inode
  imports Iobuf
begin

unbundle bit_operations_syntax

text \<open>
  The inode layer: reference and open counts of \<open>kern/fs/vfs/inode.c\<close>, the dispatch to the
  operations of a file system, path lookup of \<open>kern/fs/vfs/vfslookup.c\<close>, and opening and closing
  of \<open>kern/fs/vfs/vfsfile.c\<close>.  An inode is a number; \<open>inode_ops\<close> is the table of functions that
  \<open>node->in_ops\<close> points to, every function taking the inode first, and a null pointer in the table
  is a function that never returns.  The state of the file systems below is a type parameter
  \<open>'f\<close>.  Paths are the characters before the terminating zero.
\<close>

section \<open>Inodes and their operations\<close>

type_synonym path = "8 word list"

record inode =
  has_ops :: bool
  ref_count :: int
  iopen_count :: int

record 'f vfs_state =
  inodes :: "nat \<Rightarrow> inode"
  fsdata :: 'f
  vmemory :: mem

record stat =
  st_mode :: "32 word"
  st_nlinks :: nat
  st_blocks :: nat
  st_size :: nat

record 'f inode_ops =
  op_open :: "nat \<Rightarrow> 32 word \<Rightarrow> 'f vfs_state \<Rightarrow> (int \<times> 'f vfs_state) option"
  op_close :: "nat \<Rightarrow> 'f vfs_state \<Rightarrow> (int \<times> 'f vfs_state) option"
  op_read :: "nat \<Rightarrow> iobuf \<Rightarrow> 'f vfs_state \<Rightarrow> (int \<times> iobuf \<times> 'f vfs_state) option"
  op_write :: "nat \<Rightarrow> iobuf \<Rightarrow> 'f vfs_state \<Rightarrow> (int \<times> iobuf \<times> 'f vfs_state) option"
  op_fstat :: "nat \<Rightarrow> 'f vfs_state \<Rightarrow> (int \<times> stat \<times> 'f vfs_state) option"
  op_fsync :: "nat \<Rightarrow> 'f vfs_state \<Rightarrow> (int \<times> 'f vfs_state) option"
  op_getdirentry :: "nat \<Rightarrow> iobuf \<Rightarrow> 'f vfs_state \<Rightarrow> (int \<times> iobuf \<times> 'f vfs_state) option"
  op_reclaim :: "nat \<Rightarrow> 'f vfs_state \<Rightarrow> (int \<times> 'f vfs_state) option"
  op_tryseek :: "nat \<Rightarrow> int \<Rightarrow> 'f vfs_state \<Rightarrow> (int \<times> 'f vfs_state) option"
  op_truncate :: "nat \<Rightarrow> int \<Rightarrow> 'f vfs_state \<Rightarrow> (int \<times> 'f vfs_state) option"
  op_create :: "nat \<Rightarrow> path \<Rightarrow> bool \<Rightarrow> 'f vfs_state \<Rightarrow> (int \<times> nat option \<times> 'f vfs_state) option"
  op_lookup :: "nat \<Rightarrow> path \<Rightarrow> 'f vfs_state \<Rightarrow> (int \<times> nat option \<times> 'f vfs_state) option"

abbreviation (input) MAX_INODE_COUNT :: int where "MAX_INODE_COUNT \<equiv> 0x10000"

definition upd_inode :: "nat \<Rightarrow> (inode \<Rightarrow> inode) \<Rightarrow> 'f vfs_state \<Rightarrow> 'f vfs_state" where
  "upd_inode n f s = s\<lparr>inodes := (inodes s)(n := f (inodes s n))\<rparr>"

definition inode_check :: "nat \<Rightarrow> 'f vfs_state \<Rightarrow> unit option" where
  "inode_check n s = do {
     kassert (has_ops (inodes s n));
     kassert (ref_count (inodes s n) \<ge> iopen_count (inodes s n) \<and> iopen_count (inodes s n) \<ge> 0);
     kassert (ref_count (inodes s n) < MAX_INODE_COUNT \<and> iopen_count (inodes s n) < MAX_INODE_COUNT) }"

text \<open>\<open>__vop_op\<close>: the check, then the call through the table.\<close>

definition vop :: "nat \<Rightarrow> ('f vfs_state \<Rightarrow> 'a option) \<Rightarrow> 'f vfs_state \<Rightarrow> 'a option" where
  "vop n f s = do { inode_check n s; f s }"

section \<open>Reference and open counts\<close>

definition inode_ref_inc :: "nat \<Rightarrow> 'f vfs_state \<Rightarrow> 'f vfs_state" where
  "inode_ref_inc n s = upd_inode n (\<lambda>i. i\<lparr>ref_count := ref_count i + 1\<rparr>) s"

definition inode_ref_dec :: "'f inode_ops \<Rightarrow> nat \<Rightarrow> 'f vfs_state \<Rightarrow> (int \<times> 'f vfs_state) option" where
  "inode_ref_dec ops n s = do {
     kassert (ref_count (inodes s n) > 0);
     let s1 = upd_inode n (\<lambda>i. i\<lparr>ref_count := ref_count i - 1\<rparr>) s;
     let c = ref_count (inodes s1 n);
     if c = 0 then do { (ret, s2) \<leftarrow> vop n (op_reclaim ops n) s1; Some (c, s2) }
     else Some (c, s1) }"

definition inode_open_inc :: "nat \<Rightarrow> 'f vfs_state \<Rightarrow> 'f vfs_state" where
  "inode_open_inc n s = upd_inode n (\<lambda>i. i\<lparr>iopen_count := iopen_count i + 1\<rparr>) s"

definition inode_open_dec :: "'f inode_ops \<Rightarrow> nat \<Rightarrow> 'f vfs_state \<Rightarrow> (int \<times> 'f vfs_state) option" where
  "inode_open_dec ops n s = do {
     kassert (iopen_count (inodes s n) > 0);
     let s1 = upd_inode n (\<lambda>i. i\<lparr>iopen_count := iopen_count i - 1\<rparr>) s;
     let c = iopen_count (inodes s1 n);
     if c = 0 then do { (ret, s2) \<leftarrow> vop n (op_close ops n) s1; Some (c, s2) }
     else Some (c, s1) }"

definition inode_init :: "nat \<Rightarrow> 'f vfs_state \<Rightarrow> 'f vfs_state" where
  "inode_init n s = inode_ref_inc n (upd_inode n (\<lambda>i. i\<lparr>ref_count := 0, iopen_count := 0, has_ops := True\<rparr>) s)"

definition inode_kill :: "nat \<Rightarrow> 'f vfs_state \<Rightarrow> 'f vfs_state option" where
  "inode_kill n s = do {
     kassert (ref_count (inodes s n) = 0);
     kassert (iopen_count (inodes s n) = 0);
     Some (upd_inode n (has_ops_update (\<lambda>_. False)) s) }"

section \<open>Path lookup\<close>

text \<open>What lookup asks of the rest of the system: the current directory, the root of a device's
  file system, the boot file system, and the root of the file system of an inode.\<close>

record 'f namespace =
  ns_curdir :: "'f vfs_state \<Rightarrow> (int \<times> nat option \<times> 'f vfs_state) option"
  ns_root :: "path \<Rightarrow> 'f vfs_state \<Rightarrow> (int \<times> nat option \<times> 'f vfs_state) option"
  ns_bootfs :: "'f vfs_state \<Rightarrow> (int \<times> nat option \<times> 'f vfs_state) option"
  ns_fsroot :: "nat \<Rightarrow> 'f vfs_state \<Rightarrow> (nat option \<times> 'f vfs_state) option"

fun scan_device :: "path \<Rightarrow> int \<Rightarrow> int \<times> int" where
  "scan_device [] i = (-1, -1)"
| "scan_device (c # cs) i = (if c = 58 then (-1, i) else if c = 47 then (i, -1) else scan_device cs (i + 1))"

definition skip_slashes :: "path \<Rightarrow> path" where
  "skip_slashes p = dropWhile (\<lambda>c. c = 47) p"

definition get_device :: "'f inode_ops \<Rightarrow> 'f namespace \<Rightarrow> path \<Rightarrow> 'f vfs_state
    \<Rightarrow> (int \<times> path \<times> nat option \<times> 'f vfs_state) option" where
  "get_device ops ns path s =
     (let (slash, colon) = scan_device path 0 in
      if colon < 0 \<and> slash \<noteq> 0
      then do { (ret, node, s1) \<leftarrow> ns_curdir ns s; Some (ret, path, node, s1) }
      else if colon > 0
      then do {
        (ret, node, s1) \<leftarrow> ns_root ns (take (nat colon) path) s;
        Some (ret, skip_slashes (drop (nat colon + 1) path), node, s1) }
      else do {
        (ret, node, s1) \<leftarrow>
          (if hd path = 47 then ns_bootfs ns s
           else do {
             kassert (hd path = 58);
             (ret, node, s1) \<leftarrow> ns_curdir ns s;
             if ret \<noteq> 0 then Some (ret, None, s1)
             else do {
               n \<leftarrow> node;
               (root, s2) \<leftarrow> ns_fsroot ns n s1;
               (_, s3) \<leftarrow> inode_ref_dec ops n s2;
               Some (0, root, s3) } });
        if ret \<noteq> 0 then Some (ret, path, None, s1)
        else Some (0, skip_slashes (tl path), node, s1) })"

definition vfs_lookup :: "'f inode_ops \<Rightarrow> 'f namespace \<Rightarrow> path \<Rightarrow> 'f vfs_state
    \<Rightarrow> (int \<times> nat option \<times> 'f vfs_state) option" where
  "vfs_lookup ops ns path s = do {
     (ret, sub, node, s1) \<leftarrow> get_device ops ns path s;
     if ret \<noteq> 0 then Some (ret, None, s1)
     else if sub \<noteq> [] then do {
       n \<leftarrow> node;
       (ret, found, s2) \<leftarrow> vop n (op_lookup ops n sub) s1;
       (_, s3) \<leftarrow> inode_ref_dec ops n s2;
       Some (ret, found, s3) }
     else Some (0, node, s1) }"

definition vfs_lookup_parent :: "'f inode_ops \<Rightarrow> 'f namespace \<Rightarrow> path \<Rightarrow> 'f vfs_state
    \<Rightarrow> (int \<times> nat option \<times> path \<times> 'f vfs_state) option" where
  "vfs_lookup_parent ops ns path s = do {
     (ret, sub, node, s1) \<leftarrow> get_device ops ns path s;
     if ret \<noteq> 0 then Some (ret, None, [], s1) else Some (0, node, sub, s1) }"

section \<open>Opening and closing\<close>

definition O_RDONLY :: "32 word" where "O_RDONLY = 0"
definition O_WRONLY :: "32 word" where "O_WRONLY = 1"
definition O_RDWR :: "32 word" where "O_RDWR = 2"
definition O_CREAT :: "32 word" where "O_CREAT = 4"
definition O_EXCL :: "32 word" where "O_EXCL = 8"
definition O_TRUNC :: "32 word" where "O_TRUNC = 16"
definition O_APPEND :: "32 word" where "O_APPEND = 32"
definition O_ACCMODE :: "32 word" where "O_ACCMODE = 3"

text \<open>\<open>vfs_open\<close> from the call of \<open>vop_open\<close> on.\<close>

definition vfs_open_node :: "'f inode_ops \<Rightarrow> 32 word \<Rightarrow> nat \<Rightarrow> 'f vfs_state
    \<Rightarrow> (int \<times> nat option \<times> 'f vfs_state) option" where
  "vfs_open_node ops fl n s = do {
     (ret, s1) \<leftarrow> vop n (op_open ops n fl) s;
     if ret \<noteq> 0 then do { (_, s2) \<leftarrow> inode_ref_dec ops n s1; Some (ret, None, s2) }
     else do {
       let s2 = inode_open_inc n s1;
       if fl AND O_TRUNC \<noteq> 0 \<or> fl AND O_CREAT \<noteq> 0
       then do {
         (ret, s3) \<leftarrow> vop n (op_truncate ops n 0) s2;
         if ret \<noteq> 0
         then do { (_, s4) \<leftarrow> inode_open_dec ops n s3; (_, s5) \<leftarrow> inode_ref_dec ops n s4; Some (ret, None, s5) }
         else Some (0, Some n, s3) }
       else Some (0, Some n, s2) } }"

definition vfs_open :: "'f inode_ops \<Rightarrow> 'f namespace \<Rightarrow> path \<Rightarrow> 32 word \<Rightarrow> 'f vfs_state
    \<Rightarrow> (int \<times> nat option \<times> 'f vfs_state) option" where
  "vfs_open ops ns path fl s =
     (if fl AND O_ACCMODE \<noteq> O_RDONLY \<and> fl AND O_ACCMODE \<noteq> O_WRONLY \<and> fl AND O_ACCMODE \<noteq> O_RDWR
      then Some (- E_INVAL, None, s)
      else if fl AND O_TRUNC \<noteq> 0 \<and> fl AND O_ACCMODE = O_RDONLY then Some (- E_INVAL, None, s)
      else do {
        (ret, node, s1) \<leftarrow> vfs_lookup ops ns path s;
        if ret \<noteq> 0
        then if ret = - E_NOENT \<and> fl AND O_CREAT \<noteq> 0
             then do {
               (ret, dir, name, s2) \<leftarrow> vfs_lookup_parent ops ns path s1;
               if ret \<noteq> 0 then Some (ret, None, s2)
               else do {
                 d \<leftarrow> dir;
                 (ret, node, s3) \<leftarrow> vop d (op_create ops d name (fl AND O_EXCL \<noteq> 0)) s2;
                 n \<leftarrow> node;
                 vfs_open_node ops fl n s3 } }
             else Some (ret, None, s1)
        else if fl AND O_EXCL \<noteq> 0 \<and> fl AND O_CREAT \<noteq> 0 then Some (- E_EXISTS, None, s1)
        else do { n \<leftarrow> node; vfs_open_node ops fl n s1 } })"

definition vfs_close :: "'f inode_ops \<Rightarrow> nat \<Rightarrow> 'f vfs_state \<Rightarrow> (int \<times> 'f vfs_state) option" where
  "vfs_close ops n s = do {
     (_, s1) \<leftarrow> inode_open_dec ops n s;
     (_, s2) \<leftarrow> inode_ref_dec ops n s1;
     Some (0, s2) }"

section \<open>The contract of a file system\<close>

lemma upd_inode_simps [simp]:
  "inodes (upd_inode n f s) = (inodes s)(n := f (inodes s n))" "fsdata (upd_inode n f s) = fsdata s"
  "vmemory (upd_inode n f s) = vmemory s"
  by (simp_all add: upd_inode_def)

lemma inode_check_ok:
  "inode_check n s = Some () \<longleftrightarrow> has_ops (inodes s n) \<and> 0 \<le> iopen_count (inodes s n)
    \<and> iopen_count (inodes s n) \<le> ref_count (inodes s n) \<and> ref_count (inodes s n) < MAX_INODE_COUNT"
  by (auto simp: inode_check_def kassert_def)

lemma vop_Some: "vop n f s = Some r \<longleftrightarrow> inode_check n s = Some () \<and> f s = Some r"
  by (simp add: vop_def bind_Some_iff)

text \<open>
  What the operations of a file system promise to the inode layer: \<open>wf d N\<close> says that \<open>d\<close> is a
  well-formed state with the inodes \<open>N\<close>.  An operation that returns leaves the counts of all inodes
  alone, and closing an inode returns.
\<close>

locale inode_contract =
  fixes ops :: "'f inode_ops" and wf :: "'f \<Rightarrow> nat set \<Rightarrow> bool"
  assumes close_returns: "wf (fsdata s) N \<Longrightarrow> n \<in> N \<Longrightarrow> inode_check n s = Some () \<Longrightarrow>
      \<exists>r s'. op_close ops n s = Some (r, s') \<and> inodes s' = inodes s \<and> wf (fsdata s') N"
    and open_keeps: "wf (fsdata s) N \<Longrightarrow> op_open ops n fl s = Some (r, s') \<Longrightarrow> inodes s' = inodes s \<and> wf (fsdata s') N"
    and read_keeps: "wf (fsdata s) N \<Longrightarrow> op_read ops n b s = Some (r, b', s') \<Longrightarrow> inodes s' = inodes s \<and> wf (fsdata s') N"
    and write_keeps: "wf (fsdata s) N \<Longrightarrow> op_write ops n b s = Some (r, b', s') \<Longrightarrow> inodes s' = inodes s \<and> wf (fsdata s') N"
    and fstat_keeps: "wf (fsdata s) N \<Longrightarrow> op_fstat ops n s = Some (r, st, s') \<Longrightarrow> inodes s' = inodes s \<and> wf (fsdata s') N"
    and fsync_keeps: "wf (fsdata s) N \<Longrightarrow> op_fsync ops n s = Some (r, s') \<Longrightarrow> inodes s' = inodes s \<and> wf (fsdata s') N"
    and dirent_keeps: "wf (fsdata s) N \<Longrightarrow> op_getdirentry ops n b s = Some (r, b', s') \<Longrightarrow> inodes s' = inodes s \<and> wf (fsdata s') N"
    and tryseek_keeps: "wf (fsdata s) N \<Longrightarrow> op_tryseek ops n p s = Some (r, s') \<Longrightarrow> inodes s' = inodes s \<and> wf (fsdata s') N"
    and truncate_keeps: "wf (fsdata s) N \<Longrightarrow> op_truncate ops n p s = Some (r, s') \<Longrightarrow> inodes s' = inodes s \<and> wf (fsdata s') N"
begin

lemma open_dec_ok:
  assumes "wf (fsdata s) N" "n \<in> N" "has_ops (inodes s n)" "0 < iopen_count (inodes s n)"
    "iopen_count (inodes s n) \<le> ref_count (inodes s n)" "ref_count (inodes s n) < MAX_INODE_COUNT"
  shows "\<exists>c s'. inode_open_dec ops n s = Some (c, s') \<and> wf (fsdata s') N
    \<and> inodes s' = (inodes s)(n := (inodes s n)\<lparr>iopen_count := iopen_count (inodes s n) - 1\<rparr>)"
proof -
  let ?s1 = "upd_inode n (\<lambda>i. i\<lparr>iopen_count := iopen_count i - 1\<rparr>) s"
  have ck: "inode_check n ?s1 = Some ()" using assms by (simp add: inode_check_ok)
  then obtain r s2 where "op_close ops n ?s1 = Some (r, s2)" "inodes s2 = inodes ?s1" "wf (fsdata s2) N"
    using close_returns[of ?s1 N n] assms by auto
  then show ?thesis using assms ck by (auto simp: inode_open_dec_def vop_def Let_def)
qed

lemma ref_dec_ok:
  assumes "1 < ref_count (inodes s n)"
  shows "inode_ref_dec ops n s =
    Some (ref_count (inodes s n) - 1, upd_inode n (\<lambda>i. i\<lparr>ref_count := ref_count i - 1\<rparr>) s)"
  using assms by (simp add: inode_ref_dec_def Let_def)

lemma vfs_close_ok:
  assumes "wf (fsdata s) N" "n \<in> N" "has_ops (inodes s n)" "0 < iopen_count (inodes s n)"
    "iopen_count (inodes s n) < ref_count (inodes s n)" "ref_count (inodes s n) < MAX_INODE_COUNT"
  shows "\<exists>s'. vfs_close ops n s = Some (0, s') \<and> wf (fsdata s') N
    \<and> inodes s' = (inodes s)(n := (inodes s n)\<lparr>iopen_count := iopen_count (inodes s n) - 1,
        ref_count := ref_count (inodes s n) - 1\<rparr>)"
proof -
  from open_dec_ok[OF assms(1-4) _ assms(6)] assms(5) obtain c s1 where
    s1: "inode_open_dec ops n s = Some (c, s1)" "wf (fsdata s1) N"
      "inodes s1 = (inodes s)(n := (inodes s n)\<lparr>iopen_count := iopen_count (inodes s n) - 1\<rparr>)" by auto
  have "1 < ref_count (inodes s1 n)" using assms(4,5) s1(3) by simp
  from ref_dec_ok[OF this] s1 show ?thesis by (simp add: vfs_close_def)
qed

lemma vop_keeps:
  assumes "wf (fsdata s) N" "vop n (op_fstat ops n) s = Some (r, st, s')"
  shows "inodes s' = inodes s" "wf (fsdata s') N"
  using fstat_keeps[OF assms(1)] assms(2) by (auto simp: vop_Some)

lemma vfs_open_node_ok:
  assumes wf: "wf (fsdata s) N" and n: "n \<in> N"
    and c: "has_ops (inodes s n)" "0 \<le> iopen_count (inodes s n)" "iopen_count (inodes s n) + 1 < ref_count (inodes s n)"
      "ref_count (inodes s n) < MAX_INODE_COUNT"
    and r: "vfs_open_node ops fl n s = Some (r, found, s')"
  shows "wf (fsdata s') N \<and> (if r = 0
      then found = Some n \<and> inodes s' = (inodes s)(n := (inodes s n)\<lparr>iopen_count := iopen_count (inodes s n) + 1\<rparr>)
      else inodes s' = (inodes s)(n := (inodes s n)\<lparr>ref_count := ref_count (inodes s n) - 1\<rparr>))"
proof -
  from r obtain r1 s1 where o: "op_open ops n fl s = Some (r1, s1)" by (auto simp: vfs_open_node_def vop_Some bind_Some_iff)
  note k = conjunct1[OF open_keeps[OF wf o]] conjunct2[OF open_keeps[OF wf o]]
  have ck: "inode_check n s = Some ()" using c by (simp add: inode_check_ok)
  let ?s2 = "inode_open_inc n s1"
  have i2: "inodes ?s2 = (inodes s)(n := (inodes s n)\<lparr>iopen_count := iopen_count (inodes s n) + 1\<rparr>)" "fsdata ?s2 = fsdata s1"
    by (simp_all add: inode_open_inc_def k(1))
  consider (fail) "r1 \<noteq> 0" | (plain) "r1 = 0" "\<not> (fl AND O_TRUNC \<noteq> 0 \<or> fl AND O_CREAT \<noteq> 0)"
    | (trunc) "r1 = 0" "fl AND O_TRUNC \<noteq> 0 \<or> fl AND O_CREAT \<noteq> 0" by blast
  then show ?thesis
  proof cases
    case fail
    have "1 < ref_count (inodes s1 n)" using c k(1) by simp
    from ref_dec_ok[OF this] show ?thesis using fail r o ck k by (auto simp: vfs_open_node_def vop_def)
  next
    case plain
    then show ?thesis using r o ck k i2 by (auto simp: vfs_open_node_def vop_def Let_def)
  next
    case trunc
    from r trunc o ck obtain r3 s3 where t: "op_truncate ops n 0 ?s2 = Some (r3, s3)"
      by (auto simp: vfs_open_node_def vop_Some vop_def bind_Some_iff Let_def)
    have k3: "inodes s3 = inodes ?s2" "wf (fsdata s3) N" using truncate_keeps[OF _ t, of N] k(2) i2(2) by auto
    have ck2: "inode_check n ?s2 = Some ()" using c i2 by (simp add: inode_check_ok)
    show ?thesis
    proof (cases "r3 = 0")
      case True
      then show ?thesis using r trunc o ck ck2 t k3 i2 by (auto simp: vfs_open_node_def vop_def Let_def)
    next
      case False
      have h: "has_ops (inodes s3 n)" "0 < iopen_count (inodes s3 n)" "iopen_count (inodes s3 n) \<le> ref_count (inodes s3 n)"
        "ref_count (inodes s3 n) < MAX_INODE_COUNT" using c k3(1) i2(1) by auto
      from open_dec_ok[OF k3(2) n h] obtain c4 s4 where
        s4: "inode_open_dec ops n s3 = Some (c4, s4)" "wf (fsdata s4) N"
          "inodes s4 = (inodes s3)(n := (inodes s3 n)\<lparr>iopen_count := iopen_count (inodes s3 n) - 1\<rparr>)" by blast
      have "1 < ref_count (inodes s4 n)" using c k3(1) i2(1) s4(3) by simp
      from ref_dec_ok[OF this] show ?thesis
        using r trunc o ck ck2 t k3 i2 False s4 by (auto simp: vfs_open_node_def vop_def Let_def)
    qed
  qed
qed

end

text \<open>A name space whose lookup hands back an inode with one more reference, and keeps all counts
  when it fails.\<close>

locale vfs_contract = inode_contract ops wf
  for ops :: "'f inode_ops" and wf :: "'f \<Rightarrow> nat set \<Rightarrow> bool" +
  fixes ns :: "'f namespace"
  assumes lookup_ok: "wf (fsdata s) N \<Longrightarrow> vfs_lookup ops ns p s = Some (r, found, s') \<Longrightarrow>
      wf (fsdata s') N \<and> (if r = 0 then \<exists>n \<in> N. found = Some n \<and> inodes s' = inodes (inode_ref_inc n s)
                          else inodes s' = inodes s)"

context vfs_contract
begin

text \<open>Opening without \<open>O_CREAT\<close>: the counts of the inode that is handed back have grown by one, and
  all counts are as before when the call fails.\<close>

lemma vfs_open_ok:
  assumes wf: "wf (fsdata s) N"
    and c: "\<And>n. n \<in> N \<Longrightarrow> has_ops (inodes s n) \<and> 0 \<le> iopen_count (inodes s n)
      \<and> iopen_count (inodes s n) < ref_count (inodes s n) \<and> ref_count (inodes s n) + 1 < MAX_INODE_COUNT"
    and fl: "fl AND O_CREAT = 0" and r: "vfs_open ops ns p fl s = Some (r, found, s')"
  shows "wf (fsdata s') N \<and> (if r = 0
      then \<exists>n \<in> N. found = Some n \<and> inodes s' = (inodes s)(n := (inodes s n)\<lparr>ref_count := ref_count (inodes s n) + 1,
          iopen_count := iopen_count (inodes s n) + 1\<rparr>)
      else inodes s' = inodes s)"
proof (cases "s' = s \<and> r \<noteq> 0")
  case True
  then show ?thesis using wf by simp
next
  case False
  then obtain r1 f1 s1 where l: "vfs_lookup ops ns p s = Some (r1, f1, s1)"
    "(if r1 \<noteq> 0 then Some (r1, None, s1) else do { n \<leftarrow> f1; vfs_open_node ops fl n s1 }) = Some (r, found, s')"
    using r fl by (auto simp: vfs_open_def bind_Some_iff split: if_splits)
  note lk = lookup_ok[OF wf l(1)]
  show ?thesis
  proof (cases "r1 = 0")
    case False
    then show ?thesis using l(2) lk by auto
  next
    case True
    then obtain n where n: "n \<in> N" "f1 = Some n" "inodes s1 = inodes (inode_ref_inc n s)" "wf (fsdata s1) N" using lk by auto
    have i1: "inodes s1 = (inodes s)(n := (inodes s n)\<lparr>ref_count := ref_count (inodes s n) + 1\<rparr>)"
      using n(3) by (simp add: inode_ref_inc_def)
    have o: "vfs_open_node ops fl n s1 = Some (r, found, s')" using l(2) True n(2) by simp
    have "has_ops (inodes s1 n)" "0 \<le> iopen_count (inodes s1 n)" "iopen_count (inodes s1 n) + 1 < ref_count (inodes s1 n)"
      "ref_count (inodes s1 n) < MAX_INODE_COUNT" using c[OF n(1)] i1 by auto
    from vfs_open_node_ok[OF n(4,1) this o] show ?thesis using n(1) i1 by (auto split: if_splits)
  qed
qed

end

end
