(* ===== verification/Devices.thy ===== *)
theory Devices
  imports Inode
begin

unbundle bit_operations_syntax

text \<open>
  Devices and their inodes: \<open>kern/fs/devs/dev.c\<close>, the console devices \<open>dev_stdin.c\<close> and
  \<open>dev_stdout.c\<close>, the disk \<open>dev_disk0.c\<close> on the RAM disk of \<open>kern/driver/ide.c\<close> and
  \<open>ramdisk.c\<close>, and the table of device names of \<open>kern/fs/vfs/vfsdev.c\<close>.  A device is one of the
  three kinds the kernel creates, which stands for the four function pointers of \<open>struct
  device\<close>.  Keyboard input is a list of events: what happens, in this order, while a reader
  sleeps.  A reader for which no event is left sleeps for ever.
\<close>

section \<open>State\<close>

datatype dev_kind = Stdin | Stdout | Disk0

record device =
  d_blocks :: nat
  d_blocksize :: nat
  d_kind :: dev_kind

datatype kbd_event = Key "8 word" | Interrupted

record vfs_dev =
  devname :: path
  devnode :: "nat option"
  dev_fs :: "nat option"
  mountable :: bool

record dev_state =
  devs :: "nat \<Rightarrow> device option"
  stdin_buffer :: "nat \<Rightarrow> 8 word"
  p_rpos :: nat
  p_wpos :: nat
  keys :: "kbd_event list"
  console :: "8 word list"
  ide_base :: nat
  ide_size :: nat
  disk0_buffer :: nat
  vdev_list :: "vfs_dev list"
  pwd_node :: "nat option"
  bootfs_node :: "nat option"

type_synonym dstate = "dev_state vfs_state"

definition upd_dev :: "(dev_state \<Rightarrow> dev_state) \<Rightarrow> dstate \<Rightarrow> dstate" where
  "upd_dev f s = s\<lparr>fsdata := f (fsdata s)\<rparr>"

section \<open>Standard input\<close>

abbreviation (input) STDIN_BUFSIZE :: nat where "STDIN_BUFSIZE \<equiv> 4096"

definition dev_stdin_write :: "8 word \<Rightarrow> dev_state \<Rightarrow> dev_state" where
  "dev_stdin_write c d =
     (if c \<noteq> 0
      then let d1 = d\<lparr>stdin_buffer := (stdin_buffer d)(p_wpos d mod STDIN_BUFSIZE := c)\<rparr>
           in if p_wpos d1 - p_rpos d1 < STDIN_BUFSIZE then d1\<lparr>p_wpos := p_wpos d1 + 1\<rparr> else d1
      else d)"

text \<open>The loop of \<open>dev_stdin_read\<close>; it yields the number of characters stored at \<open>buf\<close>.\<close>

partial_function (option) dev_stdin_loop :: "nat \<Rightarrow> nat \<Rightarrow> nat \<Rightarrow> dstate \<Rightarrow> (nat \<times> dstate) option" where
  "dev_stdin_loop buf ret len s =
     (if ret < len
      then let d = fsdata s in
        if p_rpos d < p_wpos d
        then dev_stdin_loop (buf + 1) (ret + 1) len
               (s\<lparr>vmemory := (vmemory s)(buf := stdin_buffer d (p_rpos d mod STDIN_BUFSIZE)),
                  fsdata := d\<lparr>p_rpos := p_rpos d + 1\<rparr>\<rparr>)
        else (case keys d of
                [] \<Rightarrow> None
              | Key c # ks \<Rightarrow> dev_stdin_loop buf ret len (s\<lparr>fsdata := dev_stdin_write c (d\<lparr>keys := ks\<rparr>)\<rparr>)
              | Interrupted # ks \<Rightarrow> Some (ret, s\<lparr>fsdata := d\<lparr>keys := ks\<rparr>\<rparr>))
      else Some (ret, s))"

definition dev_stdin_read :: "nat \<Rightarrow> nat \<Rightarrow> dstate \<Rightarrow> (nat \<times> dstate) option" where
  "dev_stdin_read buf len s = dev_stdin_loop buf 0 len s"

definition stdin_open :: "32 word \<Rightarrow> int" where
  "stdin_open fl = (if fl \<noteq> O_RDONLY then - E_INVAL else 0)"

definition stdin_io :: "iobuf \<Rightarrow> bool \<Rightarrow> dstate \<Rightarrow> (int \<times> iobuf \<times> dstate) option" where
  "stdin_io iob wr s =
     (if \<not> wr
      then do {
        (ret, s1) \<leftarrow> dev_stdin_read (io_base iob) (io_resid iob) s;
        Some (int ret, if ret > 0 then iob\<lparr>io_resid := io_resid iob - ret\<rparr> else iob, s1) }
      else Some (- E_INVAL, iob, s))"

section \<open>Standard output\<close>

definition stdout_open :: "32 word \<Rightarrow> int" where
  "stdout_open fl = (if fl \<noteq> O_WRONLY then - E_INVAL else 0)"

definition stdout_io :: "iobuf \<Rightarrow> bool \<Rightarrow> dstate \<Rightarrow> (int \<times> iobuf \<times> dstate) option" where
  "stdout_io iob wr s =
     (if wr
      then Some (0, iob\<lparr>io_resid := 0\<rparr>,
             upd_dev (\<lambda>d. d\<lparr>console := console d @ bytes (vmemory s) (io_base iob) (io_resid iob)\<rparr>) s)
      else Some (- E_INVAL, iob, s))"

section \<open>The disk\<close>

abbreviation (input) SECTSIZE :: nat where "SECTSIZE \<equiv> 512"
abbreviation (input) DISK0_BLKSIZE :: nat where "DISK0_BLKSIZE \<equiv> 4096"
abbreviation (input) DISK0_BUFSIZE :: nat where "DISK0_BUFSIZE \<equiv> 4 * 4096"
abbreviation (input) DISK0_BLK_NSECT :: nat where "DISK0_BLK_NSECT \<equiv> 8"

text \<open>The sector count of a RAM disk transfer, cut at the end of the disk as the unsigned
  subtraction does it.\<close>

definition ramdisk_nsecs :: "nat \<Rightarrow> nat \<Rightarrow> dev_state \<Rightarrow> nat" where
  "ramdisk_nsecs secno nsecs d = min nsecs ((ide_size d + 2 ^ 64 - secno) mod 2 ^ 64)"

definition ramdisk_read :: "nat \<Rightarrow> nat \<Rightarrow> nat \<Rightarrow> dstate \<Rightarrow> dstate" where
  "ramdisk_read secno dst nsecs s =
     s\<lparr>vmemory := snd (memcpy dst (ide_base (fsdata s) + secno * SECTSIZE)
        (ramdisk_nsecs secno nsecs (fsdata s) * SECTSIZE) (vmemory s))\<rparr>"

definition ramdisk_write :: "nat \<Rightarrow> nat \<Rightarrow> nat \<Rightarrow> dstate \<Rightarrow> dstate" where
  "ramdisk_write secno src nsecs s =
     s\<lparr>vmemory := snd (memcpy (ide_base (fsdata s) + secno * SECTSIZE) src
        (ramdisk_nsecs secno nsecs (fsdata s) * SECTSIZE) (vmemory s))\<rparr>"

definition ide_check :: "nat \<Rightarrow> nat \<Rightarrow> unit option" where
  "ide_check secno nsecs = do {
     kassert (nsecs \<le> 128);
     kassert (secno < 0x10000000 \<and> secno + nsecs \<le> 0x10000000) }"

definition ide_read_secs :: "nat \<Rightarrow> nat \<Rightarrow> nat \<Rightarrow> dstate \<Rightarrow> dstate option" where
  "ide_read_secs secno dst nsecs s = do { ide_check secno nsecs; Some (ramdisk_read secno dst nsecs s) }"

definition ide_write_secs :: "nat \<Rightarrow> nat \<Rightarrow> nat \<Rightarrow> dstate \<Rightarrow> dstate option" where
  "ide_write_secs secno src nsecs s = do { ide_check secno nsecs; Some (ramdisk_write secno src nsecs s) }"

definition disk0_read_blks_nolock :: "nat \<Rightarrow> nat \<Rightarrow> dstate \<Rightarrow> dstate option" where
  "disk0_read_blks_nolock blkno nblks s =
     ide_read_secs (blkno * DISK0_BLK_NSECT mod 2 ^ 32) (disk0_buffer (fsdata s)) (nblks * DISK0_BLK_NSECT mod 2 ^ 32) s"

definition disk0_write_blks_nolock :: "nat \<Rightarrow> nat \<Rightarrow> dstate \<Rightarrow> dstate option" where
  "disk0_write_blks_nolock blkno nblks s =
     ide_write_secs (blkno * DISK0_BLK_NSECT mod 2 ^ 32) (disk0_buffer (fsdata s)) (nblks * DISK0_BLK_NSECT mod 2 ^ 32) s"

text \<open>One round of the loop of \<open>disk0_io\<close>: the number of bytes moved.\<close>

definition disk0_step :: "iobuf \<Rightarrow> nat \<Rightarrow> nat \<Rightarrow> bool \<Rightarrow> dstate \<Rightarrow> (nat \<times> iobuf \<times> dstate) option" where
  "disk0_step iob resid blkno wr s =
     (if wr
      then do {
        (_, copied, iob1, m) \<leftarrow> iobuf_move iob (disk0_buffer (fsdata s)) DISK0_BUFSIZE False (vmemory s);
        kassert (copied \<noteq> 0 \<and> copied \<le> resid \<and> copied mod DISK0_BLKSIZE = 0);
        s1 \<leftarrow> disk0_write_blks_nolock blkno (copied div DISK0_BLKSIZE) (s\<lparr>vmemory := m\<rparr>);
        Some (copied, iob1, s1) }
      else do {
        let alen = (if DISK0_BUFSIZE > resid then resid else DISK0_BUFSIZE);
        s1 \<leftarrow> disk0_read_blks_nolock blkno (alen div DISK0_BLKSIZE) s;
        (_, copied, iob1, m) \<leftarrow> iobuf_move iob (disk0_buffer (fsdata s1)) alen True (vmemory s1);
        kassert (copied = alen \<and> copied mod DISK0_BLKSIZE = 0);
        Some (copied, iob1, s1\<lparr>vmemory := m\<rparr>) })"

partial_function (option) disk0_loop :: "iobuf \<Rightarrow> nat \<Rightarrow> nat \<Rightarrow> bool \<Rightarrow> dstate \<Rightarrow> (iobuf \<times> dstate) option" where
  "disk0_loop iob resid blkno wr s =
     (if resid \<noteq> 0
      then do {
        (copied, iob1, s1) \<leftarrow> disk0_step iob resid blkno wr s;
        disk0_loop iob1 (resid - copied) ((blkno + copied div DISK0_BLKSIZE) mod 2 ^ 32) wr s1 }
      else Some (iob, s))"

definition disk0_io :: "device \<Rightarrow> iobuf \<Rightarrow> bool \<Rightarrow> dstate \<Rightarrow> (int \<times> iobuf \<times> dstate) option" where
  "disk0_io dev iob wr s =
     (let offset = io_offset iob; resid = io_resid iob;
          blkno = nat (offset div int DISK0_BLKSIZE mod 2 ^ 32);
          nblks = resid div DISK0_BLKSIZE mod 2 ^ 32
      in if offset mod int DISK0_BLKSIZE \<noteq> 0 \<or> resid mod DISK0_BLKSIZE \<noteq> 0 then Some (- E_INVAL, iob, s)
         else if (blkno + nblks) mod 2 ^ 32 > d_blocks dev then Some (- E_INVAL, iob, s)
         else if nblks = 0 then Some (0, iob, s)
         else do { (iob1, s1) \<leftarrow> disk0_loop iob resid blkno wr s; Some (0, iob1, s1) })"

declare dev_stdin_loop.simps [code] disk0_loop.simps [code]

section \<open>Device inodes\<close>

definition dop_open :: "device \<Rightarrow> 32 word \<Rightarrow> int" where
  "dop_open dev fl = (case d_kind dev of Stdin \<Rightarrow> stdin_open fl | Stdout \<Rightarrow> stdout_open fl | Disk0 \<Rightarrow> 0)"

definition dop_io :: "device \<Rightarrow> iobuf \<Rightarrow> bool \<Rightarrow> dstate \<Rightarrow> (int \<times> iobuf \<times> dstate) option" where
  "dop_io dev iob wr s = (case d_kind dev of
     Stdin \<Rightarrow> stdin_io iob wr s | Stdout \<Rightarrow> stdout_io iob wr s | Disk0 \<Rightarrow> disk0_io dev iob wr s)"

text \<open>\<open>vop_info(node, device)\<close> is an assertion on the type of the inode.\<close>

definition dev_open :: "nat \<Rightarrow> 32 word \<Rightarrow> dstate \<Rightarrow> (int \<times> dstate) option" where
  "dev_open n fl s =
     (if fl AND (O_CREAT OR O_TRUNC OR O_EXCL OR O_APPEND) \<noteq> 0 then Some (- E_INVAL, s)
      else do { dev \<leftarrow> devs (fsdata s) n; Some (dop_open dev fl, s) })"

definition dev_close :: "nat \<Rightarrow> dstate \<Rightarrow> (int \<times> dstate) option" where
  "dev_close n s = do { dev \<leftarrow> devs (fsdata s) n; Some (0, s) }"

definition dev_read :: "nat \<Rightarrow> iobuf \<Rightarrow> dstate \<Rightarrow> (int \<times> iobuf \<times> dstate) option" where
  "dev_read n iob s = do { dev \<leftarrow> devs (fsdata s) n; dop_io dev iob False s }"

definition dev_write :: "nat \<Rightarrow> iobuf \<Rightarrow> dstate \<Rightarrow> (int \<times> iobuf \<times> dstate) option" where
  "dev_write n iob s = do { dev \<leftarrow> devs (fsdata s) n; dop_io dev iob True s }"

definition S_IFCHR :: "32 word" where "S_IFCHR = 0x4000"
definition S_IFBLK :: "32 word" where "S_IFBLK = 0x5000"

definition dev_gettype :: "nat \<Rightarrow> dstate \<Rightarrow> (int \<times> 32 word \<times> dstate) option" where
  "dev_gettype n s = do {
     dev \<leftarrow> devs (fsdata s) n; Some (0, if d_blocks dev > 0 then S_IFBLK else S_IFCHR, s) }"

definition dev_fstat :: "nat \<Rightarrow> dstate \<Rightarrow> (int \<times> stat \<times> dstate) option" where
  "dev_fstat n s = do {
     (ret, mode, s1) \<leftarrow> vop n (dev_gettype n) s;
     if ret \<noteq> 0 then Some (ret, \<lparr>st_mode = mode, st_nlinks = 0, st_blocks = 0, st_size = 0\<rparr>, s1)
     else do {
       dev \<leftarrow> devs (fsdata s1) n;
       Some (0, \<lparr>st_mode = mode, st_nlinks = 1, st_blocks = d_blocks dev, st_size = d_blocks dev * d_blocksize dev\<rparr>, s1) } }"

definition dev_tryseek :: "nat \<Rightarrow> int \<Rightarrow> dstate \<Rightarrow> (int \<times> dstate) option" where
  "dev_tryseek n pos s = do {
     dev \<leftarrow> devs (fsdata s) n;
     Some (if d_blocks dev > 0 \<and> pos mod int (d_blocksize dev) = 0 \<and> 0 \<le> pos
             \<and> pos < int (d_blocks dev * d_blocksize dev) then 0 else - E_INVAL, s) }"

definition dev_lookup :: "nat \<Rightarrow> path \<Rightarrow> dstate \<Rightarrow> (int \<times> nat option \<times> dstate) option" where
  "dev_lookup n path s =
     (if path \<noteq> [] then Some (- E_NOENT, None, s) else Some (0, Some n, inode_ref_inc n s))"

text \<open>Pointers that the table leaves null are functions that never return.\<close>

definition dev_node_ops :: "dev_state inode_ops" where
  "dev_node_ops = \<lparr>op_open = dev_open, op_close = dev_close, op_read = dev_read, op_write = dev_write,
     op_fstat = dev_fstat, op_fsync = (\<lambda>_ _. None), op_getdirentry = (\<lambda>_ _ _. None),
     op_reclaim = (\<lambda>_ _. None), op_tryseek = dev_tryseek, op_truncate = (\<lambda>_ _ _. None),
     op_create = (\<lambda>_ _ _ _. None), op_lookup = dev_lookup\<rparr>"

text \<open>The three devices; the argument is the inode that \<open>alloc_inode\<close> returned.\<close>

definition dev_create_inode :: "nat option \<Rightarrow> dstate \<Rightarrow> nat option \<times> dstate" where
  "dev_create_inode r s = (case r of None \<Rightarrow> (None, s) | Some n \<Rightarrow> (Some n, inode_init n s))"

definition stdin_device_init :: "nat \<Rightarrow> dstate \<Rightarrow> dstate" where
  "stdin_device_init n s = upd_dev (\<lambda>d. d\<lparr>devs := (devs d)(n \<mapsto> \<lparr>d_blocks = 0, d_blocksize = 1, d_kind = Stdin\<rparr>),
     p_rpos := 0, p_wpos := 0\<rparr>) s"

definition stdout_device_init :: "nat \<Rightarrow> dstate \<Rightarrow> dstate" where
  "stdout_device_init n s = upd_dev (\<lambda>d. d\<lparr>devs := (devs d)(n \<mapsto> \<lparr>d_blocks = 0, d_blocksize = 1, d_kind = Stdout\<rparr>)\<rparr>) s"

definition disk0_device_init :: "nat \<Rightarrow> nat option \<Rightarrow> dstate \<Rightarrow> dstate option" where
  "disk0_device_init n buf s = do {
     b \<leftarrow> buf;
     Some (upd_dev (\<lambda>d. d\<lparr>devs := (devs d)(n \<mapsto>
        \<lparr>d_blocks = ide_size d div DISK0_BLK_NSECT, d_blocksize = DISK0_BLKSIZE, d_kind = Disk0\<rparr>),
        disk0_buffer := b\<rparr>) s) }"

section \<open>The table of device names\<close>

text \<open>The table is a list that is only extended at its head and searched from there; every name is
  one \<open>strdup\<close> of the caller's string.\<close>

definition vfs_get_root :: "(nat \<Rightarrow> dstate \<Rightarrow> (nat option \<times> dstate) option) \<Rightarrow> path \<Rightarrow> dstate
    \<Rightarrow> (int \<times> nat option \<times> dstate) option" where
  "vfs_get_root fs_get_root name s = (case find (\<lambda>v. devname v = name) (vdev_list (fsdata s)) of
     None \<Rightarrow> Some (- E_NO_DEV, None, s)
   | Some v \<Rightarrow> do {
       (found, s1) \<leftarrow>
         (case dev_fs v of
            Some fs \<Rightarrow> fs_get_root fs s
          | None \<Rightarrow>
              if \<not> mountable v then do { n \<leftarrow> devnode v; Some (Some n, inode_ref_inc n s) }
              else Some (None, s));
       Some (if found \<noteq> None then 0 else - E_NA_DEV, found, s1) })"

definition vfs_get_devname :: "nat \<Rightarrow> dstate \<Rightarrow> path option" where
  "vfs_get_devname fs s = map_option devname (find (\<lambda>v. dev_fs v = Some fs) (vdev_list (fsdata s)))"

definition check_devname_conflict :: "path \<Rightarrow> dstate \<Rightarrow> bool" where
  "check_devname_conflict name s = list_all (\<lambda>v. devname v \<noteq> name) (vdev_list (fsdata s))"

text \<open>\<open>mem\<close> says whether the two allocations succeed.\<close>

definition vfs_do_add :: "bool \<Rightarrow> path \<Rightarrow> nat option \<Rightarrow> nat option \<Rightarrow> bool \<Rightarrow> dstate \<Rightarrow> (int \<times> dstate) option" where
  "vfs_do_add mem name node fs mnt s = do {
     kassert (case node of None \<Rightarrow> \<not> mnt | Some n \<Rightarrow> devs (fsdata s) n \<noteq> None);
     if length name > 31 then Some (- E_TOO_BIG, s)
     else if \<not> mem then Some (- E_NO_MEM, s)
     else if \<not> check_devname_conflict name s then Some (- E_EXISTS, s)
     else Some (0, upd_dev (\<lambda>d. d\<lparr>vdev_list :=
       \<lparr>devname = name, devnode = node, dev_fs = fs, mountable = mnt\<rparr> # vdev_list d\<rparr>) s) }"

definition vfs_add_fs :: "bool \<Rightarrow> path \<Rightarrow> nat \<Rightarrow> dstate \<Rightarrow> (int \<times> dstate) option" where
  "vfs_add_fs mem name fs s = vfs_do_add mem name None (Some fs) False s"

definition vfs_add_dev :: "bool \<Rightarrow> path \<Rightarrow> nat \<Rightarrow> bool \<Rightarrow> dstate \<Rightarrow> (int \<times> dstate) option" where
  "vfs_add_dev mem name node mnt s = vfs_do_add mem name (Some node) None mnt s"

definition find_mount :: "path \<Rightarrow> dstate \<Rightarrow> vfs_dev option" where
  "find_mount name s = find (\<lambda>v. mountable v \<and> devname v = name) (vdev_list (fsdata s))"

definition set_vdev_fs :: "vfs_dev \<Rightarrow> nat option \<Rightarrow> dstate \<Rightarrow> dstate" where
  "set_vdev_fs v fs s =
     upd_dev (\<lambda>d. d\<lparr>vdev_list := map (\<lambda>w. if devname w = devname v then w\<lparr>dev_fs := fs\<rparr> else w) (vdev_list d)\<rparr>) s"

definition vfs_mount :: "(device \<Rightarrow> dstate \<Rightarrow> (int \<times> nat option \<times> dstate) option) \<Rightarrow> path \<Rightarrow> dstate
    \<Rightarrow> (int \<times> dstate) option" where
  "vfs_mount mountfunc name s = (case find_mount name s of
     None \<Rightarrow> Some (- E_NO_DEV, s)
   | Some v \<Rightarrow>
       if dev_fs v \<noteq> None then Some (- E_BUSY, s)
       else do {
         n \<leftarrow> devnode v;
         dev \<leftarrow> devs (fsdata s) n;
         (ret, fs, s1) \<leftarrow> mountfunc dev s;
         if ret = 0 then do { kassert (fs \<noteq> None); Some (0, set_vdev_fs v fs s1) } else Some (ret, s1) })"

definition vfs_unmount :: "(nat \<Rightarrow> dstate \<Rightarrow> (int \<times> dstate) option) \<Rightarrow> (nat \<Rightarrow> dstate \<Rightarrow> (int \<times> dstate) option)
    \<Rightarrow> path \<Rightarrow> dstate \<Rightarrow> (int \<times> dstate) option" where
  "vfs_unmount fs_sync fs_unmount name s = (case find_mount name s of
     None \<Rightarrow> Some (- E_NO_DEV, s)
   | Some v \<Rightarrow> (case dev_fs v of
       None \<Rightarrow> Some (- E_INVAL, s)
     | Some fs \<Rightarrow> do {
         (ret, s1) \<leftarrow> fs_sync fs s;
         if ret \<noteq> 0 then Some (ret, s1)
         else do {
           (ret, s2) \<leftarrow> fs_unmount fs s1;
           if ret = 0 then Some (0, set_vdev_fs v None s2) else Some (ret, s2) } }))"

definition vfs_get_curdir :: "dstate \<Rightarrow> (int \<times> nat option \<times> dstate) option" where
  "vfs_get_curdir s = (case pwd_node (fsdata s) of
     Some n \<Rightarrow> Some (0, Some n, inode_ref_inc n s) | None \<Rightarrow> Some (- E_NOENT, None, s))"

definition vfs_get_bootfs :: "dstate \<Rightarrow> (int \<times> nat option \<times> dstate) option" where
  "vfs_get_bootfs s = (case bootfs_node (fsdata s) of
     Some n \<Rightarrow> Some (0, Some n, inode_ref_inc n s) | None \<Rightarrow> Some (- E_NOENT, None, s))"

text \<open>The name space as the lookup sees it, for file systems given by their root function.\<close>

definition dev_namespace :: "(nat \<Rightarrow> dstate \<Rightarrow> (nat option \<times> dstate) option) \<Rightarrow> dev_state namespace" where
  "dev_namespace fs_get_root = \<lparr>ns_curdir = vfs_get_curdir, ns_root = vfs_get_root fs_get_root,
     ns_bootfs = vfs_get_bootfs, ns_fsroot = (\<lambda>n s. None)\<rparr>"

section \<open>Device inodes keep the contract\<close>

definition dev_wf :: "dev_state \<Rightarrow> nat set \<Rightarrow> bool" where
  "dev_wf d N \<longleftrightarrow> dom (devs d) = N \<and> (\<forall>v \<in> set (vdev_list d). dev_fs v = None \<and> (\<forall>n. devnode v = Some n \<longrightarrow> n \<in> N))
    \<and> (\<forall>n. pwd_node d = Some n \<longrightarrow> n \<in> N) \<and> (\<forall>n. bootfs_node d = Some n \<longrightarrow> n \<in> N)"

text \<open>What input and output leave alone: the inodes, the device table and the names.\<close>

definition io_same :: "dstate \<Rightarrow> dstate \<Rightarrow> bool" where
  "io_same s s' \<longleftrightarrow> inodes s' = inodes s \<and> devs (fsdata s') = devs (fsdata s) \<and> vdev_list (fsdata s') = vdev_list (fsdata s)
    \<and> pwd_node (fsdata s') = pwd_node (fsdata s) \<and> bootfs_node (fsdata s') = bootfs_node (fsdata s)
    \<and> disk0_buffer (fsdata s') = disk0_buffer (fsdata s) \<and> ide_base (fsdata s') = ide_base (fsdata s)
    \<and> ide_size (fsdata s') = ide_size (fsdata s)"

lemma io_same_refl [simp]: "io_same s s" by (simp add: io_same_def)
lemma io_same_trans: "io_same s t \<Longrightarrow> io_same t u \<Longrightarrow> io_same s u" by (simp add: io_same_def)
lemma io_same_wf: "io_same s s' \<Longrightarrow> dev_wf (fsdata s) N \<Longrightarrow> inodes s' = inodes s \<and> dev_wf (fsdata s') N"
  by (simp add: io_same_def dev_wf_def)
lemma io_same_mem [simp]: "io_same s (s\<lparr>vmemory := m\<rparr>)" by (simp add: io_same_def)

lemma stdin_write_same: "io_same s (s\<lparr>fsdata := dev_stdin_write c (fsdata s\<lparr>keys := ks\<rparr>)\<rparr>)"
  by (simp add: io_same_def dev_stdin_write_def Let_def)

lemma stdin_loop_same:
  assumes "dev_stdin_loop buf ret len s = Some y"
  shows "io_same s (snd y)"
proof (rule dev_stdin_loop.raw_induct[where P = "\<lambda>buf ret len s y. io_same s (snd y)", OF _ assms])
  fix rec :: "nat \<Rightarrow> nat \<Rightarrow> nat \<Rightarrow> dstate \<Rightarrow> (nat \<times> dstate) option" and buf ret len :: nat and s :: dstate and y
  assume IH: "\<And>buf ret len s y. rec buf ret len s = Some y \<Longrightarrow> io_same s (snd y)"
  let ?d = "fsdata s"
  let ?s1 = "s\<lparr>vmemory := (vmemory s)(buf := stdin_buffer ?d (p_rpos ?d mod STDIN_BUFSIZE)), fsdata := ?d\<lparr>p_rpos := p_rpos ?d + 1\<rparr>\<rparr>"
  assume y: "(if ret < len
      then let d = fsdata s in
        if p_rpos d < p_wpos d
        then rec (buf + 1) (ret + 1) len
               (s\<lparr>vmemory := (vmemory s)(buf := stdin_buffer d (p_rpos d mod STDIN_BUFSIZE)),
                  fsdata := d\<lparr>p_rpos := p_rpos d + 1\<rparr>\<rparr>)
        else (case keys d of
                [] \<Rightarrow> None
              | Key c # ks \<Rightarrow> rec buf ret len (s\<lparr>fsdata := dev_stdin_write c (d\<lparr>keys := ks\<rparr>)\<rparr>)
              | Interrupted # ks \<Rightarrow> Some (ret, s\<lparr>fsdata := d\<lparr>keys := ks\<rparr>\<rparr>))
      else Some (ret, s)) = Some y"
  consider (stop) "\<not> ret < len" | (got) "ret < len" "p_rpos ?d < p_wpos ?d"
    | (sleep) "ret < len" "\<not> p_rpos ?d < p_wpos ?d" by blast
  then show "io_same s (snd y)"
  proof cases
    case stop
    then show ?thesis using y by auto
  next
    case got
    then have "io_same ?s1 (snd y)" using y IH by (simp add: Let_def)
    then show ?thesis by (simp add: io_same_def)
  next
    case sleep
    then show ?thesis using y
      by (auto simp: Let_def split: list.splits kbd_event.splits intro: io_same_trans[OF stdin_write_same IH])
        (auto simp: io_same_def)
  qed
qed

lemma disk0_step_same: "disk0_step iob resid blkno wr s = Some (c, iob1, s1) \<Longrightarrow> io_same s s1"
  by (auto simp: disk0_step_def disk0_write_blks_nolock_def disk0_read_blks_nolock_def ide_read_secs_def
      ide_write_secs_def ramdisk_read_def ramdisk_write_def bind_Some_iff Let_def io_same_def split: if_splits)

lemma disk0_loop_same:
  assumes "disk0_loop iob resid blkno wr s = Some y"
  shows "io_same s (snd y)"
  by (rule disk0_loop.raw_induct[where P = "\<lambda>iob resid blkno wr s y. io_same s (snd y)", OF _ assms])
    (auto simp: bind_Some_iff split: if_splits intro: io_same_trans[OF disk0_step_same])

lemma dop_io_same: "dop_io dev iob wr s = Some (r, iob1, s1) \<Longrightarrow> io_same s s1"
  by (auto simp: dop_io_def stdin_io_def stdout_io_def disk0_io_def dev_stdin_read_def upd_dev_def bind_Some_iff Let_def
      split: dev_kind.splits if_splits dest: stdin_loop_same disk0_loop_same) (simp_all add: io_same_def)

interpretation dev_contract: inode_contract dev_node_ops dev_wf
proof
  fix s s' :: dstate and N n fl r b b' st p
  show "\<exists>r s'. op_close dev_node_ops n s = Some (r, s') \<and> inodes s' = inodes s \<and> dev_wf (fsdata s') N"
    if "dev_wf (fsdata s) N" "n \<in> N"
    using that by (auto simp: dev_node_ops_def dev_close_def dev_wf_def)
  show "inodes s' = inodes s \<and> dev_wf (fsdata s') N"
    if "dev_wf (fsdata s) N" "op_open dev_node_ops n fl s = Some (r, s')"
    using that by (auto simp: dev_node_ops_def dev_open_def bind_Some_iff split: if_splits)
  show "inodes s' = inodes s \<and> dev_wf (fsdata s') N"
    if "dev_wf (fsdata s) N" "op_read dev_node_ops n b s = Some (r, b', s')"
    using that io_same_wf[OF dop_io_same] by (auto simp: dev_node_ops_def dev_read_def bind_Some_iff)
  show "inodes s' = inodes s \<and> dev_wf (fsdata s') N"
    if "dev_wf (fsdata s) N" "op_write dev_node_ops n b s = Some (r, b', s')"
    using that io_same_wf[OF dop_io_same] by (auto simp: dev_node_ops_def dev_write_def bind_Some_iff)
  show "inodes s' = inodes s \<and> dev_wf (fsdata s') N"
    if "dev_wf (fsdata s) N" "op_fstat dev_node_ops n s = Some (r, st, s')"
    using that by (auto simp: dev_node_ops_def dev_fstat_def dev_gettype_def vop_def bind_Some_iff split: if_splits)
  show "inodes s' = inodes s \<and> dev_wf (fsdata s') N"
    if "dev_wf (fsdata s) N" "op_tryseek dev_node_ops n p s = Some (r, s')"
    using that by (auto simp: dev_node_ops_def dev_tryseek_def bind_Some_iff)
qed (simp_all add: dev_node_ops_def)

text \<open>Lookup with device names only: a path that names a device is the device itself, and no path
  leads below a device.\<close>

definition no_fs :: "nat \<Rightarrow> dstate \<Rightarrow> (nat option \<times> dstate) option" where
  "no_fs fs s = None"

lemma get_root_ok:
  assumes "dev_wf (fsdata s) N" "vfs_get_root g name s = Some (r, found, s')"
  shows "if r = 0 then \<exists>n \<in> N. found = Some n \<and> s' = inode_ref_inc n s else s' = s"
proof (cases "find (\<lambda>v. devname v = name) (vdev_list (fsdata s))")
  case None
  then show ?thesis using assms(2) by (auto simp: vfs_get_root_def)
next
  case (Some v)
  then have "v \<in> set (vdev_list (fsdata s))" by (auto simp: find_Some_iff)
  then have "dev_fs v = None" "\<And>n. devnode v = Some n \<Longrightarrow> n \<in> N" using assms(1) by (auto simp: dev_wf_def)
  then show ?thesis using assms(2) Some by (auto simp: vfs_get_root_def bind_Some_iff split: if_splits)
qed

lemma get_device_ok:
  assumes "dev_wf (fsdata s) N" "get_device dev_node_ops (dev_namespace g) p s = Some (r, sub, found, s')"
  shows "if r = 0 then \<exists>n \<in> N. found = Some n \<and> s' = inode_ref_inc n s else s' = s"
proof -
  have cur: "if r = 0 then \<exists>n \<in> N. found = Some n \<and> s' = inode_ref_inc n s else s' = s"
    if "vfs_get_curdir s = Some (r, found, s')" for r found s'
    using that assms(1) by (cases "pwd_node (fsdata s)") (simp_all add: vfs_get_curdir_def dev_wf_def, metis)
  have boot: "if r = 0 then \<exists>n \<in> N. found = Some n \<and> s' = inode_ref_inc n s else s' = s"
    if "vfs_get_bootfs s = Some (r, found, s')" for r found s'
    using that assms(1) by (cases "bootfs_node (fsdata s)") (simp_all add: vfs_get_bootfs_def dev_wf_def, metis)
  obtain slash colon where sc: "scan_device p 0 = (slash, colon)" by (cases "scan_device p 0")
  consider (rel) "colon < 0 \<and> slash \<noteq> 0" | (dev) "\<not> (colon < 0 \<and> slash \<noteq> 0)" "colon > 0"
    | (abs) "\<not> (colon < 0 \<and> slash \<noteq> 0)" "\<not> colon > 0" by blast
  then show ?thesis
  proof cases
    case rel
    then have "vfs_get_curdir s = Some (r, found, s')"
      using assms(2) sc by (auto simp: get_device_def dev_namespace_def bind_Some_iff)
    then show ?thesis by (rule cur)
  next
    case dev
    then have "vfs_get_root g (take (nat colon) p) s = Some (r, found, s')"
      using assms(2) sc by (auto simp: get_device_def dev_namespace_def bind_Some_iff)
    then show ?thesis by (rule get_root_ok[OF assms(1)])
  next
    case abs
    show ?thesis
    proof (cases "hd p = 47")
      case True
      then obtain r1 found1 where "vfs_get_bootfs s = Some (r1, found1, s')" "r1 = r" "r = 0 \<longrightarrow> found1 = found"
        using assms(2) sc abs by (auto simp: get_device_def dev_namespace_def bind_Some_iff split: if_splits)
      then show ?thesis using boot[of r1 found1 s'] by auto
    next
      case False
      then have "\<exists>f. vfs_get_curdir s = Some (r, f, s') \<and> r \<noteq> 0"
        using assms(2) sc abs by (auto simp: get_device_def dev_namespace_def bind_Some_iff split: if_splits)
      then show ?thesis using cur by fastforce
    qed
  qed
qed

interpretation dev_vfs: vfs_contract dev_node_ops dev_wf "dev_namespace no_fs"
proof
  fix s s' :: dstate and N p r found
  assume wf: "dev_wf (fsdata s) N" and l: "vfs_lookup dev_node_ops (dev_namespace no_fs) p s = Some (r, found, s')"
  from l obtain r1 sub f1 s1 where g: "get_device dev_node_ops (dev_namespace no_fs) p s = Some (r1, sub, f1, s1)"
    by (auto simp: vfs_lookup_def bind_Some_iff)
  have g1: "if r1 = 0 then \<exists>n \<in> N. f1 = Some n \<and> s1 = inode_ref_inc n s else s1 = s"
    by (rule get_device_ok[OF wf g])
  show "dev_wf (fsdata s') N \<and> (if r = 0 then \<exists>n \<in> N. found = Some n \<and> inodes s' = inodes (inode_ref_inc n s)
                          else inodes s' = inodes s)"
  proof (cases "r1 = 0")
    case False
    then show ?thesis using l g g1 wf by (simp add: vfs_lookup_def)
  next
    case True
    then obtain n where n: "n \<in> N" "f1 = Some n" "s1 = inode_ref_inc n s" using g1 by auto
    have "r = - E_NOENT \<and> inodes s' = inodes s \<and> fsdata s' = fsdata s" if "sub \<noteq> []"
      using that l g True n(2,3)
      by (auto simp: vfs_lookup_def vop_def dev_node_ops_def dev_lookup_def inode_ref_inc_def inode_ref_dec_def bind_Some_iff Let_def
          split: if_splits)
    moreover have "r = 0 \<and> found = Some n \<and> s' = inode_ref_inc n s" if "sub = []"
      using that l g True n by (simp add: vfs_lookup_def)
    ultimately show ?thesis using n(1) wf by (cases "sub = []") (auto simp: inode_ref_inc_def)
  qed
qed

section \<open>The queue of standard input\<close>

text \<open>The characters that have been typed and not yet read.\<close>

definition pending :: "dev_state \<Rightarrow> 8 word list" where
  "pending d = map (\<lambda>i. stdin_buffer d (i mod STDIN_BUFSIZE)) [p_rpos d..<p_wpos d]"

definition stdin_inv :: "dev_state \<Rightarrow> bool" where
  "stdin_inv d \<longleftrightarrow> p_rpos d \<le> p_wpos d \<and> p_wpos d \<le> p_rpos d + STDIN_BUFSIZE"

lemma length_pending [simp]: "length (pending d) = p_wpos d - p_rpos d"
  by (simp add: pending_def)

text \<open>Two positions of the window share a slot only if they are its two ends.\<close>

lemma slot_eq:
  fixes r w i :: nat
  assumes "r \<le> i" "i < w" "w \<le> r + STDIN_BUFSIZE"
  shows "i mod STDIN_BUFSIZE = w mod STDIN_BUFSIZE \<longleftrightarrow> i = r \<and> w = r + STDIN_BUFSIZE"
proof
  assume e: "i mod STDIN_BUFSIZE = w mod STDIN_BUFSIZE"
  then obtain q where "w - i = STDIN_BUFSIZE * q" using assms(2) by (metis less_imp_le mod_eq_dvd_iff_nat dvdE)
  then show "i = r \<and> w = r + STDIN_BUFSIZE" using assms by (cases q) auto
qed simp

lemma pending_Cons: "p_rpos d < p_wpos d \<Longrightarrow>
  pending d = stdin_buffer d (p_rpos d mod STDIN_BUFSIZE) # pending (d\<lparr>p_rpos := p_rpos d + 1\<rparr>)"
  by (simp add: pending_def upt_conv_Cons)

lemma stdin_write_pending:
  assumes "stdin_inv d"
  shows "stdin_inv (dev_stdin_write c d)"
    "pending (dev_stdin_write c d) = (if c = 0 then pending d
       else if length (pending d) < STDIN_BUFSIZE then pending d @ [c] else c # tl (pending d))"
proof -
  show "stdin_inv (dev_stdin_write c d)"
    using assms by (auto simp: stdin_inv_def dev_stdin_write_def Let_def)
  consider (zero) "c = 0" | (room) "c \<noteq> 0" "length (pending d) < STDIN_BUFSIZE" | (full) "c \<noteq> 0" "\<not> length (pending d) < STDIN_BUFSIZE"
    by blast
  then show "pending (dev_stdin_write c d) = (if c = 0 then pending d
       else if length (pending d) < STDIN_BUFSIZE then pending d @ [c] else c # tl (pending d))"
  proof cases
    case zero
    then show ?thesis by (simp add: dev_stdin_write_def)
  next
    case room
    then have lt: "p_rpos d \<le> p_wpos d" "p_wpos d < p_rpos d + STDIN_BUFSIZE" using assms by (auto simp: stdin_inv_def)
    have "i mod STDIN_BUFSIZE \<noteq> p_wpos d mod STDIN_BUFSIZE" if "p_rpos d \<le> i" "i < p_wpos d" for i
      using slot_eq[OF that] lt by auto
    then show ?thesis using room lt by (simp add: dev_stdin_write_def Let_def pending_def)
  next
    case full
    then have w: "p_wpos d = p_rpos d + STDIN_BUFSIZE" using assms by (auto simp: stdin_inv_def)
    have "i mod STDIN_BUFSIZE \<noteq> p_wpos d mod STDIN_BUFSIZE" if "p_rpos d + 1 \<le> i" "i < p_wpos d" for i
      using slot_eq[of "p_rpos d" i "p_wpos d"] that w by auto
    then have "pending (d\<lparr>stdin_buffer := (stdin_buffer d)(p_wpos d mod STDIN_BUFSIZE := c), p_rpos := p_rpos d + 1\<rparr>)
        = pending (d\<lparr>p_rpos := p_rpos d + 1\<rparr>)" by (simp add: pending_def)
    then show ?thesis using full w pending_Cons[of d]
        pending_Cons[of "d\<lparr>stdin_buffer := (stdin_buffer d)(p_wpos d mod STDIN_BUFSIZE := c)\<rparr>"]
      by (simp add: dev_stdin_write_def Let_def)
  qed
qed

lemma stdin_loop_pending:
  "k \<le> length (pending (fsdata s)) \<Longrightarrow> \<exists>s'. dev_stdin_loop buf ret (ret + k) s = Some (ret + k, s')
    \<and> bytes (vmemory s') buf k = take k (pending (fsdata s)) \<and> pending (fsdata s') = drop k (pending (fsdata s))
    \<and> (\<forall>x. x < buf \<or> buf + k \<le> x \<longrightarrow> vmemory s' x = vmemory s x)"
proof (induction k arbitrary: buf ret s)
  case 0
  then show ?case by (simp add: dev_stdin_loop.simps[of buf ret])
next
  case (Suc k)
  let ?d = "fsdata s"
  let ?c = "stdin_buffer ?d (p_rpos ?d mod STDIN_BUFSIZE)"
  let ?s1 = "s\<lparr>vmemory := (vmemory s)(buf := ?c), fsdata := ?d\<lparr>p_rpos := p_rpos ?d + 1\<rparr>\<rparr>"
  have lt: "p_rpos ?d < p_wpos ?d" using Suc.prems by simp
  note pc = pending_Cons[OF lt]
  have "k \<le> length (pending (fsdata ?s1))" using Suc.prems by simp
  from Suc.IH[OF this, of "buf + 1" "ret + 1"] obtain s' where
    s': "dev_stdin_loop (buf + 1) (ret + 1) (ret + 1 + k) ?s1 = Some (ret + 1 + k, s')"
      "bytes (vmemory s') (buf + 1) k = take k (pending (fsdata ?s1))" "pending (fsdata s') = drop k (pending (fsdata ?s1))"
      "\<forall>x. x < buf + 1 \<or> buf + 1 + k \<le> x \<longrightarrow> vmemory s' x = vmemory ?s1 x" by blast
  have e: "dev_stdin_loop buf ret (ret + Suc k) s = Some (ret + Suc k, s')"
    using lt s'(1) by (subst dev_stdin_loop.simps) simp
  have b: "vmemory s' buf = ?c" using s'(4) by simp
  have "bytes (vmemory s') buf (Suc k) = take (Suc k) (pending ?d)" unfolding bytes_Suc b pc using s'(2) by simp
  moreover have "pending (fsdata s') = drop (Suc k) (pending ?d)" unfolding pc using s'(3) by simp
  moreover have "\<forall>x. x < buf \<or> buf + Suc k \<le> x \<longrightarrow> vmemory s' x = vmemory s x" using s'(4) by auto
  ultimately show ?case using e by blast
qed

section \<open>Properties\<close>

text \<open>C36. Typed characters: \<open>dev_stdin_write\<close> keeps the buffer well-formed and appends the character to
  the unread ones while there is room.  When the buffer is full the character is not dropped: it
  replaces the oldest unread one, so that a reader then gets the newest character first.\<close>

theorem stdin_write_queue:
  assumes "stdin_inv d"
  shows "stdin_inv (dev_stdin_write c d) \<and> pending (dev_stdin_write c d) = (if c = 0 then pending d
       else if length (pending d) < STDIN_BUFSIZE then pending d @ [c] else c # tl (pending d))"
  using stdin_write_pending[OF assms] by blast

definition full_stdin :: dev_state where
  "full_stdin = \<lparr>devs = Map.empty, stdin_buffer = (\<lambda>i. 97), p_rpos = 7, p_wpos = 7 + STDIN_BUFSIZE, keys = [], console = [],
     ide_base = 0, ide_size = 0, disk0_buffer = 0, vdev_list = [], pwd_node = None, bootfs_node = None\<rparr>"

theorem stdin_write_queue_witness: "hd (pending full_stdin) = 97 \<and> hd (pending (dev_stdin_write 122 full_stdin)) = 122"
proof -
  have "stdin_inv full_stdin" "length (pending full_stdin) = STDIN_BUFSIZE" by (simp_all add: stdin_inv_def full_stdin_def)
  moreover have "hd (pending full_stdin) = 97"
    by (subst pending_Cons) (simp_all add: full_stdin_def)
  ultimately show ?thesis using stdin_write_queue[of full_stdin 122] by simp
qed

end
