(* ===== verification/Files.thy ===== *)
theory Files
  imports Devices
begin

unbundle bit_operations_syntax

text \<open>
  The open files of a process: \<open>kern/fs/file.c\<close> and the tables of \<open>kern/fs/fs.c\<close>, on top of the
  inode layer.  The state is the table of the current process and the state of the inode layer; a
  pointer to a \<open>struct file\<close> is an index of the table.  The properties hold for every file system
  that keeps the contract of the inode layer, and for the device inodes in particular.
\<close>

section \<open>State\<close>

datatype fd_status = FD_NONE | FD_INIT | FD_OPENED | FD_CLOSED

record file_struct =
  status :: fd_status
  readable :: bool
  writable :: bool
  fd :: int
  pos :: int
  node :: "nat option"
  open_count :: int

record files_struct =
  pwd :: "nat option"
  fd_array :: "file_struct list"
  files_count :: int

record 'f fstate =
  filesp :: files_struct
  vfs :: "'f vfs_state"

text \<open>The table fills the rest of a page: \<open>sizeof(struct files_struct)\<close> is 48 and
  \<open>sizeof(struct file)\<close> is 56.\<close>

definition FILES_STRUCT_NENTRY :: nat where
  "FILES_STRUCT_NENTRY = (4096 - 48) div 56"

abbreviation (input) NO_FD :: int where "NO_FD \<equiv> - 0x9527"

definition testfd :: "int \<Rightarrow> bool" where
  "testfd d \<longleftrightarrow> d \<ge> 0 \<and> d < int FILES_STRUCT_NENTRY"

definition the_file :: "nat \<Rightarrow> 'f fstate \<Rightarrow> file_struct" where
  "the_file i s = fd_array (filesp s) ! i"

definition upd_file :: "nat \<Rightarrow> (file_struct \<Rightarrow> file_struct) \<Rightarrow> 'f fstate \<Rightarrow> 'f fstate" where
  "upd_file i f s = s\<lparr>filesp := filesp s\<lparr>fd_array := (fd_array (filesp s))[i := f (fd_array (filesp s) ! i)]\<rparr>\<rparr>"

section \<open>Entries of the table\<close>

definition get_fd_array :: "'f fstate \<Rightarrow> unit option" where
  "get_fd_array s = kassert (files_count (filesp s) > 0)"

definition fd_array_init :: "file_struct list \<Rightarrow> file_struct list" where
  "fd_array_init fs = map (\<lambda>i. (fs ! i)\<lparr>open_count := 0, status := FD_NONE, fd := int i\<rparr>) [0..<FILES_STRUCT_NENTRY]"

text \<open>The scan for a free entry: \<open>k\<close> entries from index \<open>i\<close> on are left.\<close>

primrec fd_scan :: "nat \<Rightarrow> nat \<Rightarrow> 'f fstate \<Rightarrow> nat option" where
  "fd_scan 0 i s = None"
| "fd_scan (Suc k) i s = (if status (the_file i s) = FD_NONE then Some i else fd_scan k (i + 1) s)"

definition fd_found :: "nat \<Rightarrow> 'f fstate \<Rightarrow> (int \<times> nat option \<times> 'f fstate) option" where
  "fd_found i s = do {
     kassert (open_count (the_file i s) = 0);
     Some (0, Some i, upd_file i (\<lambda>x. x\<lparr>status := FD_INIT, node := None\<rparr>) s) }"

definition fd_array_alloc :: "int \<Rightarrow> 'f fstate \<Rightarrow> (int \<times> nat option \<times> 'f fstate) option" where
  "fd_array_alloc d s = do {
     get_fd_array s;
     if d = NO_FD
     then (case fd_scan FILES_STRUCT_NENTRY 0 s of
             None \<Rightarrow> Some (- E_MAX_OPEN, None, s)
           | Some i \<Rightarrow> fd_found i s)
     else if testfd d
     then if status (the_file (nat d) s) = FD_NONE then fd_found (nat d) s else Some (- E_BUSY, None, s)
     else Some (- E_INVAL, None, s) }"

definition fd_array_free :: "'f inode_ops \<Rightarrow> nat \<Rightarrow> 'f fstate \<Rightarrow> 'f fstate option" where
  "fd_array_free ops i s = do {
     kassert (status (the_file i s) = FD_INIT \<or> status (the_file i s) = FD_CLOSED);
     kassert (open_count (the_file i s) = 0);
     s1 \<leftarrow> (if status (the_file i s) = FD_CLOSED
           then do { n \<leftarrow> node (the_file i s); (_, v) \<leftarrow> vfs_close ops n (vfs s); Some (s\<lparr>vfs := v\<rparr>) }
           else Some s);
     Some (upd_file i (status_update (\<lambda>_. FD_NONE)) s1) }"

definition fd_array_acquire :: "nat \<Rightarrow> 'f fstate \<Rightarrow> 'f fstate option" where
  "fd_array_acquire i s = do {
     kassert (status (the_file i s) = FD_OPENED);
     Some (upd_file i (\<lambda>x. x\<lparr>open_count := open_count x + 1\<rparr>) s) }"

definition fd_array_release :: "'f inode_ops \<Rightarrow> nat \<Rightarrow> 'f fstate \<Rightarrow> 'f fstate option" where
  "fd_array_release ops i s = do {
     kassert (status (the_file i s) = FD_OPENED \<or> status (the_file i s) = FD_CLOSED);
     kassert (open_count (the_file i s) > 0);
     let s1 = upd_file i (\<lambda>x. x\<lparr>open_count := open_count x - 1\<rparr>) s;
     if open_count (the_file i s1) = 0 then fd_array_free ops i s1 else Some s1 }"

definition fd_array_open :: "nat \<Rightarrow> 'f fstate \<Rightarrow> 'f fstate option" where
  "fd_array_open i s = do {
     kassert (status (the_file i s) = FD_INIT \<and> node (the_file i s) \<noteq> None);
     Some (upd_file i (\<lambda>x. x\<lparr>status := FD_OPENED, open_count := open_count x + 1\<rparr>) s) }"

definition fd_array_close :: "'f inode_ops \<Rightarrow> nat \<Rightarrow> 'f fstate \<Rightarrow> 'f fstate option" where
  "fd_array_close ops i s = do {
     kassert (status (the_file i s) = FD_OPENED);
     kassert (open_count (the_file i s) > 0);
     let s1 = upd_file i (\<lambda>x. x\<lparr>status := FD_CLOSED, open_count := open_count x - 1\<rparr>) s;
     if open_count (the_file i s1) = 0 then fd_array_free ops i s1 else Some s1 }"

text \<open>\<open>fd_array_dup\<close> of the file \<open>from\<close>, which may be in another table, to entry \<open>to\<close>.\<close>

definition fd_array_dup :: "nat \<Rightarrow> file_struct \<Rightarrow> 'f fstate \<Rightarrow> 'f fstate option" where
  "fd_array_dup to from s = do {
     kassert (status (the_file to s) = FD_INIT \<and> status from = FD_OPENED);
     n \<leftarrow> node from;
     let s1 = s\<lparr>vfs := inode_open_inc n (inode_ref_inc n (vfs s))\<rparr>;
     fd_array_open to (upd_file to
       (\<lambda>x. x\<lparr>pos := pos from, readable := readable from, writable := writable from, node := Some n\<rparr>) s1) }"

definition fd2file :: "int \<Rightarrow> 'f fstate \<Rightarrow> (int \<times> nat) option" where
  "fd2file d s =
     (if testfd d
      then do {
        get_fd_array s;
        if status (the_file (nat d) s) = FD_OPENED \<and> fd (the_file (nat d) s) = d then Some (0, nat d)
        else Some (- E_INVAL, 0) }
      else Some (- E_INVAL, 0))"

section \<open>Operations on descriptors\<close>

definition file_testfd :: "int \<Rightarrow> bool \<Rightarrow> bool \<Rightarrow> 'f fstate \<Rightarrow> bool option" where
  "file_testfd d rd wr s = do {
     (ret, i) \<leftarrow> fd2file d s;
     Some (if ret \<noteq> 0 then False
           else if rd \<and> \<not> readable (the_file i s) then False
           else if wr \<and> \<not> writable (the_file i s) then False
           else True) }"

text \<open>The last part of \<open>file_open\<close>: the entry is filled and opened.\<close>

definition file_open_fill :: "nat \<Rightarrow> nat \<Rightarrow> int \<Rightarrow> 32 word \<Rightarrow> 'f fstate \<Rightarrow> (int \<times> 'f fstate) option" where
  "file_open_fill i n p fl s = do {
     s1 \<leftarrow> fd_array_open i (upd_file i (\<lambda>x. x\<lparr>pos := p, node := Some n,
        readable := (fl AND O_ACCMODE \<noteq> O_WRONLY), writable := (fl AND O_ACCMODE \<noteq> O_RDONLY)\<rparr>) s);
     Some (fd (the_file i s1), s1) }"

definition file_open :: "'f inode_ops \<Rightarrow> 'f namespace \<Rightarrow> path \<Rightarrow> 32 word \<Rightarrow> 'f fstate \<Rightarrow> (int \<times> 'f fstate) option" where
  "file_open ops ns p fl s =
     (if fl AND O_ACCMODE \<noteq> O_RDONLY \<and> fl AND O_ACCMODE \<noteq> O_WRONLY \<and> fl AND O_ACCMODE \<noteq> O_RDWR
      then Some (- E_INVAL, s)
      else do {
        (ret, e, s1) \<leftarrow> fd_array_alloc NO_FD s;
        if ret \<noteq> 0 then Some (ret, s1)
        else do {
          i \<leftarrow> e;
          (ret, nd, v) \<leftarrow> vfs_open ops ns p fl (vfs s1);
          let s2 = s1\<lparr>vfs := v\<rparr>;
          if ret \<noteq> 0 then do { s3 \<leftarrow> fd_array_free ops i s2; Some (ret, s3) }
          else do {
            n \<leftarrow> nd;
            if fl AND O_APPEND \<noteq> 0
            then do {
              (ret, st, v) \<leftarrow> vop n (op_fstat ops n) (vfs s2);
              if ret \<noteq> 0
              then do {
                (_, v1) \<leftarrow> vfs_close ops n v;
                s3 \<leftarrow> fd_array_free ops i (s2\<lparr>vfs := v1\<rparr>);
                Some (ret, s3) }
              else file_open_fill i n (int (st_size st)) fl (s2\<lparr>vfs := v\<rparr>) }
            else file_open_fill i n 0 fl s2 } } })"

definition file_close :: "'f inode_ops \<Rightarrow> int \<Rightarrow> 'f fstate \<Rightarrow> (int \<times> 'f fstate) option" where
  "file_close ops d s = do {
     (ret, i) \<leftarrow> fd2file d s;
     if ret \<noteq> 0 then Some (ret, s)
     else do { s1 \<leftarrow> fd_array_close ops i s; Some (0, s1) } }"

text \<open>\<open>file_read\<close> and \<open>file_write\<close> have the same body around the call of the inode operation; the
  second result is the number of bytes copied.\<close>

definition file_transfer :: "'f inode_ops \<Rightarrow> (nat \<Rightarrow> iobuf \<Rightarrow> 'f vfs_state \<Rightarrow> (int \<times> iobuf \<times> 'f vfs_state) option)
    \<Rightarrow> nat \<Rightarrow> nat \<Rightarrow> nat \<Rightarrow> 'f fstate \<Rightarrow> (int \<times> nat \<times> 'f fstate) option" where
  "file_transfer ops io i base len s = do {
     s1 \<leftarrow> fd_array_acquire i s;
     n \<leftarrow> node (the_file i s1);
     (ret, iob, v) \<leftarrow> vop n (io n (iobuf_init base len (pos (the_file i s1)))) (vfs s1);
     let s2 = s1\<lparr>vfs := v\<rparr>;
     let copied = iobuf_used iob;
     let s3 = (if status (the_file i s2) = FD_OPENED
               then upd_file i (\<lambda>x. x\<lparr>pos := pos x + int copied\<rparr>) s2 else s2);
     s4 \<leftarrow> fd_array_release ops i s3;
     Some (ret, copied, s4) }"

definition file_read :: "'f inode_ops \<Rightarrow> int \<Rightarrow> nat \<Rightarrow> nat \<Rightarrow> 'f fstate \<Rightarrow> (int \<times> nat \<times> 'f fstate) option" where
  "file_read ops d base len s = do {
     (ret, i) \<leftarrow> fd2file d s;
     if ret \<noteq> 0 then Some (ret, 0, s)
     else if \<not> readable (the_file i s) then Some (- E_INVAL, 0, s)
     else file_transfer ops (op_read ops) i base len s }"

definition file_write :: "'f inode_ops \<Rightarrow> int \<Rightarrow> nat \<Rightarrow> nat \<Rightarrow> 'f fstate \<Rightarrow> (int \<times> nat \<times> 'f fstate) option" where
  "file_write ops d base len s = do {
     (ret, i) \<leftarrow> fd2file d s;
     if ret \<noteq> 0 then Some (ret, 0, s)
     else if \<not> writable (the_file i s) then Some (- E_INVAL, 0, s)
     else file_transfer ops (op_write ops) i base len s }"

abbreviation (input) LSEEK_SET :: int where "LSEEK_SET \<equiv> 0"
abbreviation (input) LSEEK_CUR :: int where "LSEEK_CUR \<equiv> 1"
abbreviation (input) LSEEK_END :: int where "LSEEK_END \<equiv> 2"

text \<open>The switch of \<open>file_seek\<close>: the code and the new position.\<close>

definition seek_target :: "'f inode_ops \<Rightarrow> nat \<Rightarrow> int \<Rightarrow> int \<Rightarrow> file_struct \<Rightarrow> 'f vfs_state \<Rightarrow> (int \<times> int \<times> 'f vfs_state) option" where
  "seek_target ops n p whence f v =
     (if whence = LSEEK_SET then Some (0, p, v)
      else if whence = LSEEK_CUR then Some (0, p + pos f, v)
      else if whence = LSEEK_END
      then do {
        (ret, st, v1) \<leftarrow> vop n (op_fstat ops n) v;
        Some (if ret = 0 then (0, p + int (st_size st), v1) else (ret, p, v1)) }
      else Some (- E_INVAL, p, v))"

text \<open>The new position is stored when the inode accepts it.\<close>

definition seek_store :: "'f inode_ops \<Rightarrow> nat \<Rightarrow> nat \<Rightarrow> int \<Rightarrow> int \<Rightarrow> 'f fstate \<Rightarrow> (int \<times> 'f fstate) option" where
  "seek_store ops i n ret p s =
     (if ret = 0
      then do {
        (ret, v) \<leftarrow> vop n (op_tryseek ops n p) (vfs s);
        Some (ret, (if ret = 0 then upd_file i (pos_update (\<lambda>_. p)) s else s)\<lparr>vfs := v\<rparr>) }
      else Some (ret, s))"

definition file_seek :: "'f inode_ops \<Rightarrow> int \<Rightarrow> int \<Rightarrow> int \<Rightarrow> 'f fstate \<Rightarrow> (int \<times> 'f fstate) option" where
  "file_seek ops d p whence s = do {
     (ret, i) \<leftarrow> fd2file d s;
     if ret \<noteq> 0 then Some (ret, s)
     else do {
       s1 \<leftarrow> fd_array_acquire i s;
       n \<leftarrow> node (the_file i s1);
       (ret, p1, v) \<leftarrow> seek_target ops n p whence (the_file i s1) (vfs s1);
       (ret, s2) \<leftarrow> seek_store ops i n ret p1 (s1\<lparr>vfs := v\<rparr>);
       s3 \<leftarrow> fd_array_release ops i s2;
       Some (ret, s3) } }"

definition file_fstat :: "'f inode_ops \<Rightarrow> int \<Rightarrow> 'f fstate \<Rightarrow> (int \<times> stat option \<times> 'f fstate) option" where
  "file_fstat ops d s = do {
     (ret, i) \<leftarrow> fd2file d s;
     if ret \<noteq> 0 then Some (ret, None, s)
     else do {
       s1 \<leftarrow> fd_array_acquire i s;
       n \<leftarrow> node (the_file i s1);
       (ret, st, v) \<leftarrow> vop n (op_fstat ops n) (vfs s1);
       s2 \<leftarrow> fd_array_release ops i (s1\<lparr>vfs := v\<rparr>);
       Some (ret, Some st, s2) } }"

definition file_fsync :: "'f inode_ops \<Rightarrow> int \<Rightarrow> 'f fstate \<Rightarrow> (int \<times> 'f fstate) option" where
  "file_fsync ops d s = do {
     (ret, i) \<leftarrow> fd2file d s;
     if ret \<noteq> 0 then Some (ret, s)
     else do {
       s1 \<leftarrow> fd_array_acquire i s;
       n \<leftarrow> node (the_file i s1);
       (ret, v) \<leftarrow> vop n (op_fsync ops n) (vfs s1);
       s2 \<leftarrow> fd_array_release ops i (s1\<lparr>vfs := v\<rparr>);
       Some (ret, s2) } }"

text \<open>\<open>file_getdirentry\<close>; the directory entry is given by the address of its name, which has 256
  bytes, and its offset, and the new offset is returned.\<close>

definition file_getdirentry :: "'f inode_ops \<Rightarrow> int \<Rightarrow> nat \<Rightarrow> int \<Rightarrow> 'f fstate \<Rightarrow> (int \<times> int \<times> 'f fstate) option" where
  "file_getdirentry ops d name offset s = do {
     (ret, i) \<leftarrow> fd2file d s;
     if ret \<noteq> 0 then Some (ret, offset, s)
     else do {
       s1 \<leftarrow> fd_array_acquire i s;
       n \<leftarrow> node (the_file i s1);
       (ret, iob, v) \<leftarrow> vop n (op_getdirentry ops n (iobuf_init name 256 offset)) (vfs s1);
       s2 \<leftarrow> fd_array_release ops i (s1\<lparr>vfs := v\<rparr>);
       Some (ret, if ret = 0 then offset + int (iobuf_used iob) else offset, s2) } }"

definition file_dup :: "int \<Rightarrow> int \<Rightarrow> 'f fstate \<Rightarrow> (int \<times> 'f fstate) option" where
  "file_dup d1 d2 s = do {
     (ret, i) \<leftarrow> fd2file d1 s;
     if ret \<noteq> 0 then Some (ret, s)
     else do {
       (ret, e, s1) \<leftarrow> fd_array_alloc d2 s;
       if ret \<noteq> 0 then Some (ret, s1)
       else do {
         j \<leftarrow> e;
         s2 \<leftarrow> fd_array_dup j (the_file i s1) s1;
         Some (fd (the_file j s2), s2) } } }"

section \<open>Tables of processes\<close>

text \<open>\<open>files_create\<close> on the object that \<open>kmalloc\<close> returned; the array keeps arbitrary contents in
  the fields that are not initialised.\<close>

definition files_create :: "file_struct list option \<Rightarrow> files_struct option" where
  "files_create r = map_option (\<lambda>raw. \<lparr>pwd = None, fd_array = fd_array_init raw, files_count = 0\<rparr>) r"

primrec close_entries :: "'f inode_ops \<Rightarrow> nat list \<Rightarrow> 'f fstate \<Rightarrow> 'f fstate option" where
  "close_entries ops [] s = Some s"
| "close_entries ops (i # is) s = do {
     s1 \<leftarrow> (if status (the_file i s) = FD_OPENED then fd_array_close ops i s else Some s);
     close_entries ops is s1 }"

primrec destroy_entries :: "'f inode_ops \<Rightarrow> nat list \<Rightarrow> 'f fstate \<Rightarrow> 'f fstate option" where
  "destroy_entries ops [] s = Some s"
| "destroy_entries ops (i # is) s = do {
     s1 \<leftarrow> (if status (the_file i s) = FD_OPENED then fd_array_close ops i s else Some s);
     kassert (status (the_file i s1) = FD_NONE);
     destroy_entries ops is s1 }"

definition files_destroy :: "'f inode_ops \<Rightarrow> 'f fstate \<Rightarrow> 'f fstate option" where
  "files_destroy ops s = do {
     kassert (files_count (filesp s) = 0);
     s1 \<leftarrow> (case pwd (filesp s) of
             None \<Rightarrow> Some s
           | Some n \<Rightarrow> do { (_, v) \<leftarrow> inode_ref_dec ops n (vfs s); Some (s\<lparr>vfs := v\<rparr>) });
     destroy_entries ops [0..<FILES_STRUCT_NENTRY] s1 }"

definition files_closeall :: "'f inode_ops \<Rightarrow> 'f fstate \<Rightarrow> 'f fstate option" where
  "files_closeall ops s = do {
     kassert (files_count (filesp s) > 0);
     close_entries ops [2..<FILES_STRUCT_NENTRY] s }"

text \<open>\<open>dup_files\<close>: the state holds the table \<open>to\<close>, and \<open>from\<close> is the table of the parent.\<close>

primrec dup_entries :: "files_struct \<Rightarrow> nat list \<Rightarrow> 'f fstate \<Rightarrow> 'f fstate option" where
  "dup_entries from [] s = Some s"
| "dup_entries from (i # is) s = do {
     s1 \<leftarrow> (if status (fd_array from ! i) = FD_OPENED
           then fd_array_dup i (fd_array from ! i) (upd_file i (status_update (\<lambda>_. FD_INIT)) s)
           else Some s);
     dup_entries from is s1 }"

definition dup_files :: "files_struct \<Rightarrow> 'f fstate \<Rightarrow> (int \<times> 'f fstate) option" where
  "dup_files from s = do {
     kassert (files_count (filesp s) = 0 \<and> files_count from > 0);
     let s1 = s\<lparr>filesp := (filesp s)\<lparr>pwd := pwd from\<rparr>\<rparr>;
     let s2 = (case pwd from of None \<Rightarrow> s1 | Some n \<Rightarrow> s1\<lparr>vfs := inode_ref_inc n (vfs s1)\<rparr>);
     s3 \<leftarrow> dup_entries from [0..<FILES_STRUCT_NENTRY] s2;
     Some (0, s3) }"

section \<open>The invariant of the table\<close>

definition opened_on :: "nat \<Rightarrow> file_struct \<Rightarrow> bool" where
  "opened_on n f \<longleftrightarrow> status f = FD_OPENED \<and> node f = Some n"

definition fds_on :: "'f fstate \<Rightarrow> nat \<Rightarrow> int" where
  "fds_on s n = int (length (filter (opened_on n) (fd_array (filesp s))))"

definition file_ok :: "nat set \<Rightarrow> nat \<Rightarrow> file_struct \<Rightarrow> bool" where
  "file_ok N i f \<longleftrightarrow> fd f = int i \<and>
     (status f = FD_NONE \<and> open_count f = 0 \<or> status f = FD_OPENED \<and> open_count f = 1 \<and> (\<exists>n \<in> N. node f = Some n))"

text \<open>Between two calls: an entry is free or open, an open entry names one of the inodes \<open>N\<close>, and
  the counts of every inode are those that others hold, \<open>E\<close> and \<open>R\<close>, plus one for each descriptor
  of the table.  Others hold at least one reference more than they have it open.\<close>

definition fd_inv :: "nat set \<Rightarrow> (nat \<Rightarrow> int) \<Rightarrow> (nat \<Rightarrow> int) \<Rightarrow> 'f fstate \<Rightarrow> bool" where
  "fd_inv N E R s \<longleftrightarrow> files_count (filesp s) > 0 \<and> length (fd_array (filesp s)) = FILES_STRUCT_NENTRY
    \<and> (\<forall>i < FILES_STRUCT_NENTRY. file_ok N i (the_file i s))
    \<and> (\<forall>n \<in> N. has_ops (inodes (vfs s) n) \<and> iopen_count (inodes (vfs s) n) = E n + fds_on s n
        \<and> ref_count (inodes (vfs s) n) = R n + fds_on s n
        \<and> 0 \<le> E n \<and> E n < R n \<and> R n + int FILES_STRUCT_NENTRY < MAX_INODE_COUNT)"

lemma upd_file_simps [simp]:
  "vfs (upd_file i f s) = vfs s" "files_count (filesp (upd_file i f s)) = files_count (filesp s)"
  "pwd (filesp (upd_file i f s)) = pwd (filesp s)"
  "fd_array (filesp (upd_file i f s)) = (fd_array (filesp s))[i := f (fd_array (filesp s) ! i)]"
  "upd_file i f (s\<lparr>vfs := v\<rparr>) = (upd_file i f s)\<lparr>vfs := v\<rparr>"
  by (simp_all add: upd_file_def)

lemma the_file_upd [simp]:
  "i < length (fd_array (filesp s)) \<Longrightarrow> the_file j (upd_file i f s) = (if j = i then f (the_file i s) else the_file j s)"
  "the_file j (s\<lparr>vfs := v\<rparr>) = the_file j s"
  by (auto simp: the_file_def)

lemma upd_file_twice [simp]:
  "i < length (fd_array (filesp s)) \<Longrightarrow> upd_file i g (upd_file i f s) = upd_file i (\<lambda>x. g (f x)) s"
  by (simp add: upd_file_def)

lemma filter_list_update:
  "i < length xs \<Longrightarrow> int (length (filter P (xs[i := y]))) =
     int (length (filter P xs)) - (if P (xs ! i) then 1 else 0) + (if P y then 1 else 0)"
proof (induction xs arbitrary: i)
  case (Cons x xs)
  show ?case
  proof (cases i)
    case (Suc j)
    then show ?thesis using Cons.IH[of j] Cons.prems by (simp split: if_splits)
  qed simp
qed simp

lemma fds_on_upd:
  "i < length (fd_array (filesp s)) \<Longrightarrow> fds_on (upd_file i f s) n =
     fds_on s n - (if opened_on n (the_file i s) then 1 else 0) + (if opened_on n (f (the_file i s)) then 1 else 0)"
  by (simp add: fds_on_def filter_list_update the_file_def)

lemma fds_on_vfs [simp]: "fds_on (s\<lparr>vfs := v\<rparr>) = fds_on s"
  by (simp add: fds_on_def fun_eq_iff)

lemma fds_on_bound: "length (fd_array (filesp s)) = FILES_STRUCT_NENTRY \<Longrightarrow> fds_on s n \<le> int FILES_STRUCT_NENTRY"
  using length_filter_le[of "opened_on n" "fd_array (filesp s)"] by (simp add: fds_on_def)

lemma fds_on_pos: "i < length (fd_array (filesp s)) \<Longrightarrow> opened_on n (the_file i s) \<Longrightarrow> 0 < fds_on s n"
  by (auto simp: fds_on_def the_file_def filter_empty_conv intro: nth_mem)

lemma fd_inv_D:
  assumes "fd_inv N E R s"
  shows "files_count (filesp s) > 0" "length (fd_array (filesp s)) = FILES_STRUCT_NENTRY"
    "\<And>i. i < FILES_STRUCT_NENTRY \<Longrightarrow> file_ok N i (the_file i s)"
    "\<And>n. n \<in> N \<Longrightarrow> inode_check n (vfs s) = Some ()"
    "\<And>i. i < FILES_STRUCT_NENTRY \<Longrightarrow> i < length (fd_array (filesp s))"
proof -
  show "files_count (filesp s) > 0" "length (fd_array (filesp s)) = FILES_STRUCT_NENTRY"
    "\<And>i. i < FILES_STRUCT_NENTRY \<Longrightarrow> file_ok N i (the_file i s)"
    "\<And>i. i < FILES_STRUCT_NENTRY \<Longrightarrow> i < length (fd_array (filesp s))" using assms by (auto simp: fd_inv_def)
  show "inode_check n (vfs s) = Some ()" if "n \<in> N" for n
  proof -
    have "0 \<le> fds_on s n" "fds_on s n \<le> int FILES_STRUCT_NENTRY"
      using fds_on_bound[of s n] assms by (auto simp: fds_on_def fd_inv_def)
    moreover have "has_ops (inodes (vfs s) n)" "iopen_count (inodes (vfs s) n) = E n + fds_on s n"
      "ref_count (inodes (vfs s) n) = R n + fds_on s n" "0 \<le> E n" "E n < R n" "R n + int FILES_STRUCT_NENTRY < MAX_INODE_COUNT"
      using assms that by (auto simp: fd_inv_def)
    ultimately show ?thesis unfolding inode_check_ok by linarith
  qed
qed

text \<open>One entry and the counts change together.\<close>

lemma fd_inv_change:
  assumes inv: "fd_inv N E R s" and i: "i < FILES_STRUCT_NENTRY" and ok: "file_ok N i (f (the_file i s))"
    and c: "\<And>n. n \<in> N \<Longrightarrow> has_ops (inodes v n)"
      "\<And>n. n \<in> N \<Longrightarrow> iopen_count (inodes v n) = iopen_count (inodes (vfs s) n)
        - (if opened_on n (the_file i s) then 1 else 0) + (if opened_on n (f (the_file i s)) then 1 else 0)"
      "\<And>n. n \<in> N \<Longrightarrow> ref_count (inodes v n) = ref_count (inodes (vfs s) n)
        - (if opened_on n (the_file i s) then 1 else 0) + (if opened_on n (f (the_file i s)) then 1 else 0)"
  shows "fd_inv N E R ((upd_file i f s)\<lparr>vfs := v\<rparr>)"
proof -
  have len: "i < length (fd_array (filesp s))" using inv i by (simp add: fd_inv_def)
  then show ?thesis using inv ok c by (simp add: fd_inv_def fds_on_upd)
qed

lemma fd_inv_vfs:
  "fd_inv N E R s \<Longrightarrow> inodes v = inodes (vfs s) \<Longrightarrow> fd_inv N E R (s\<lparr>vfs := v\<rparr>)"
  by (simp add: fd_inv_def)

lemma fd2file_ok:
  assumes "fd_inv N E R s"
  shows "fd2file d s = Some (if testfd d \<and> status (the_file (nat d) s) = FD_OPENED then (0, nat d) else (- E_INVAL, 0))"
proof (cases "testfd d")
  case True
  then have "nat d < FILES_STRUCT_NENTRY" "0 \<le> d" by (auto simp: testfd_def)
  then have "fd (the_file (nat d) s) = d" using fd_inv_D(3)[OF assms, of "nat d"] by (simp add: file_ok_def)
  then show ?thesis using True fd_inv_D(1)[OF assms] by (simp add: fd2file_def get_fd_array_def)
qed (simp add: fd2file_def)

lemma opened_entry:
  assumes "fd_inv N E R s" "i < FILES_STRUCT_NENTRY" "status (the_file i s) = FD_OPENED"
  obtains n where "n \<in> N" "node (the_file i s) = Some n" "open_count (the_file i s) = 1" "fd (the_file i s) = int i"
  using fd_inv_D(3)[OF assms(1,2)] assms(3) by (auto simp: file_ok_def)

section \<open>Every operation keeps the invariant\<close>

lemma acquire_ok:
  assumes "status (the_file i s) = FD_OPENED"
  shows "fd_array_acquire i s = Some (upd_file i (\<lambda>x. x\<lparr>open_count := open_count x + 1\<rparr>) s)"
  using assms by (simp add: fd_array_acquire_def)

text \<open>What happens between \<open>fd_array_acquire\<close> and \<open>fd_array_release\<close>: the position may change, and
  the inode layer has kept the counts.\<close>

lemma release_ok:
  assumes inv: "fd_inv N E R s" and i: "i < FILES_STRUCT_NENTRY" and op: "status (the_file i s) = FD_OPENED"
    and v: "inodes v = inodes (vfs s)"
  shows "fd_array_release ops i ((upd_file i (\<lambda>x. x\<lparr>open_count := open_count x + 1, pos := p x\<rparr>) s)\<lparr>vfs := v\<rparr>) =
      Some ((upd_file i (\<lambda>x. x\<lparr>open_count := open_count x, pos := p x\<rparr>) s)\<lparr>vfs := v\<rparr>)"
    and "fd_inv N E R ((upd_file i (\<lambda>x. x\<lparr>open_count := open_count x, pos := p x\<rparr>) s)\<lparr>vfs := v\<rparr>)"
proof -
  have len: "i < length (fd_array (filesp s))" using fd_inv_D(5)[OF inv i] .
  obtain n where n: "n \<in> N" "node (the_file i s) = Some n" "open_count (the_file i s) = 1" "fd (the_file i s) = int i"
    by (rule opened_entry[OF inv i op])
  show "fd_array_release ops i ((upd_file i (\<lambda>x. x\<lparr>open_count := open_count x + 1, pos := p x\<rparr>) s)\<lparr>vfs := v\<rparr>) =
      Some ((upd_file i (\<lambda>x. x\<lparr>open_count := open_count x, pos := p x\<rparr>) s)\<lparr>vfs := v\<rparr>)"
    using len n op by (simp add: fd_array_release_def Let_def)
  have "has_ops (inodes (vfs s) m)" if "m \<in> N" for m using inv that by (simp add: fd_inv_def)
  then show "fd_inv N E R ((upd_file i (\<lambda>x. x\<lparr>open_count := open_count x, pos := p x\<rparr>) s)\<lparr>vfs := v\<rparr>)"
    using n op by (intro fd_inv_change[OF inv i]) (auto simp: file_ok_def opened_on_def v)
qed

lemma fd_scan_ok:
  "fd_scan k i s = Some j \<Longrightarrow> i \<le> j \<and> j < i + k \<and> status (the_file j s) = FD_NONE \<and> (\<forall>m. i \<le> m \<and> m < j \<longrightarrow> status (the_file m s) \<noteq> FD_NONE)"
  "fd_scan k i s = None \<Longrightarrow> (\<forall>m. i \<le> m \<and> m < i + k \<longrightarrow> status (the_file m s) \<noteq> FD_NONE)"
proof (induction k arbitrary: i)
  case (Suc k)
  { case 1
    show ?case
    proof (cases "status (the_file i s) = FD_NONE")
      case True
      then show ?thesis using 1 by auto
    next
      case False
      then have *: "i + 1 \<le> j \<and> j < i + 1 + k \<and> status (the_file j s) = FD_NONE
          \<and> (\<forall>m. i + 1 \<le> m \<and> m < j \<longrightarrow> status (the_file m s) \<noteq> FD_NONE)" using 1 Suc.IH(1)[of "i + 1"] by simp
      moreover have "status (the_file m s) \<noteq> FD_NONE" if "i \<le> m" "m < j" for m
        using that False * by (cases "m = i") auto
      ultimately show ?thesis by auto
    qed
  next
    case 2
    then have "status (the_file i s) \<noteq> FD_NONE" "\<forall>m. i + 1 \<le> m \<and> m < i + 1 + k \<longrightarrow> status (the_file m s) \<noteq> FD_NONE"
      using Suc.IH(2)[of "i + 1"] by (auto split: if_splits)
    then show ?case by (metis Suc_eq_plus1 Suc_leI add_Suc_shift le_neq_implies_less) }
qed auto

text \<open>Allocation of an entry: the least free one, or the one asked for.\<close>

definition alloc_entry :: "nat \<Rightarrow> 'f fstate \<Rightarrow> 'f fstate" where
  "alloc_entry i s = upd_file i (\<lambda>x. x\<lparr>status := FD_INIT, node := None\<rparr>) s"

lemma fd_array_alloc_ok:
  assumes inv: "fd_inv N E R s" and r: "fd_array_alloc d s = r"
  shows "(\<exists>i < FILES_STRUCT_NENTRY. r = Some (0, Some i, alloc_entry i s) \<and> status (the_file i s) = FD_NONE
      \<and> (d = NO_FD \<longrightarrow> (\<forall>m < i. status (the_file m s) \<noteq> FD_NONE)) \<and> (d \<noteq> NO_FD \<longrightarrow> d = int i))
    \<or> (\<exists>e. r = Some (- e, None, s) \<and> (e = E_MAX_OPEN \<or> e = E_BUSY \<or> e = E_INVAL))"
proof -
  have found: "fd_found i s = Some (0, Some i, alloc_entry i s)"
    if "i < FILES_STRUCT_NENTRY" "status (the_file i s) = FD_NONE" for i
    using fd_inv_D(3)[OF inv that(1)] that by (auto simp: fd_found_def file_ok_def alloc_entry_def)
  have g: "get_fd_array s = Some ()" using fd_inv_D(1)[OF inv] by (simp add: get_fd_array_def)
  show ?thesis
  proof (cases "d = NO_FD")
    case True
    show ?thesis
    proof (cases "fd_scan FILES_STRUCT_NENTRY 0 s")
      case None
      then show ?thesis using True g r by (auto simp: fd_array_alloc_def)
    next
      case (Some i)
      then show ?thesis using True g r fd_scan_ok(1)[OF Some] found[of i]
        by (intro disjI1 exI[of _ i]) (auto simp: fd_array_alloc_def)
    qed
  next
    case False
    show ?thesis
    proof (cases "testfd d \<and> status (the_file (nat d) s) = FD_NONE")
      case True
      then show ?thesis using False g r found[of "nat d"]
        by (intro disjI1 exI[of _ "nat d"]) (auto simp: fd_array_alloc_def testfd_def)
    next
      case nt: False
      then show ?thesis using False g r by (cases "testfd d") (auto simp: fd_array_alloc_def)
    qed
  qed
qed

text \<open>Filling a free entry with an inode whose two counts have grown by one.\<close>

lemma fill_entry_inv:
  assumes inv: "fd_inv N E R s" and i: "i < FILES_STRUCT_NENTRY" "status (the_file i s) = FD_NONE" and n: "n \<in> N"
    and v: "inodes v = (inodes (vfs s))(n := (inodes (vfs s) n)\<lparr>ref_count := ref_count (inodes (vfs s) n) + 1,
        iopen_count := iopen_count (inodes (vfs s) n) + 1\<rparr>)"
    and f: "\<And>x. status (f x) = FD_OPENED" "\<And>x. node (f x) = Some n" "open_count (f (the_file i s)) = 1" "\<And>x. fd (f x) = fd x"
  shows "fd_inv N E R ((upd_file i f s)\<lparr>vfs := v\<rparr>)"
proof (rule fd_inv_change[OF inv i(1)])
  have "fd (the_file i s) = int i" using fd_inv_D(3)[OF inv i(1)] by (simp add: file_ok_def)
  then show "file_ok N i (f (the_file i s))" using f n by (simp add: file_ok_def)
  have ops: "has_ops (inodes (vfs s) m)" if "m \<in> N" for m using inv that by (simp add: fd_inv_def)
  then show "has_ops (inodes v m)" if "m \<in> N" for m using that n by (simp add: v)
qed (use i(2) f in \<open>auto simp: v opened_on_def\<close>)

lemma file_dup_ok:
  assumes inv: "fd_inv N E R s"
  shows "\<exists>r s'. file_dup d1 d2 s = Some (r, s') \<and> fd_inv N E R s' \<and> fsdata (vfs s') = fsdata (vfs s)
    \<and> (if 0 \<le> r then testfd d1 \<and> status (the_file (nat d1) s) = FD_OPENED
          \<and> nat r < FILES_STRUCT_NENTRY \<and> status (the_file (nat r) s) = FD_NONE
          \<and> (d2 \<noteq> NO_FD \<longrightarrow> r = d2) \<and> (d2 = NO_FD \<longrightarrow> (\<forall>m < nat r. status (the_file m s) \<noteq> FD_NONE))
          \<and> the_file (nat r) s' = (the_file (nat d1) s)\<lparr>fd := r\<rparr>
          \<and> (\<forall>j. j \<noteq> nat r \<longrightarrow> the_file j s' = the_file j s)
       else s' = s)"
proof (cases "testfd d1 \<and> status (the_file (nat d1) s) = FD_OPENED")
  case False
  then show ?thesis using fd2file_ok[OF inv, of d1] inv by (auto simp: file_dup_def)
next
  case op: True
  have i1: "nat d1 < FILES_STRUCT_NENTRY" using op by (auto simp: testfd_def)
  obtain n where n: "n \<in> N" "node (the_file (nat d1) s) = Some n" "open_count (the_file (nat d1) s) = 1"
    using opened_entry[OF inv i1] op by blast
  from fd_array_alloc_ok[OF inv refl, of d2] consider
      (got) i where "i < FILES_STRUCT_NENTRY" "fd_array_alloc d2 s = Some (0, Some i, alloc_entry i s)" "status (the_file i s) = FD_NONE"
        "d2 = NO_FD \<longrightarrow> (\<forall>m < i. status (the_file m s) \<noteq> FD_NONE)" "d2 \<noteq> NO_FD \<longrightarrow> d2 = int i"
    | (err) e where "fd_array_alloc d2 s = Some (- e, None, s)" "0 < e" by auto
  then show ?thesis
  proof cases
    case err
    then show ?thesis using op inv fd2file_ok[OF inv, of d1] by (simp add: file_dup_def)
  next
    case got
    let ?from = "the_file (nat d1) s"
    let ?f = "\<lambda>x. x\<lparr>pos := pos ?from, readable := readable ?from, writable := writable ?from, node := Some n,
        status := FD_OPENED, open_count := open_count x + 1\<rparr>"
    let ?s' = "(upd_file i ?f s)\<lparr>vfs := inode_open_inc n (inode_ref_inc n (vfs s))\<rparr>"
    have len: "i < length (fd_array (filesp s))" using fd_inv_D(5)[OF inv got(1)] .
    have f: "fd (the_file i s) = int i" "open_count (the_file i s) = 0"
      using fd_inv_D(3)[OF inv got(1)] got(3) by (auto simp: file_ok_def)
    have ne: "nat d1 \<noteq> i" using op got(3) by auto
    have "fd_array_dup i (the_file (nat d1) (alloc_entry i s)) (alloc_entry i s) = Some ?s'"
      using len op n ne by (simp add: fd_array_dup_def fd_array_open_def alloc_entry_def)
    then have "file_dup d1 d2 s = Some (int i, ?s')"
      using op got(2) fd2file_ok[OF inv, of d1] len f by (simp add: file_dup_def)
    moreover have "fd_inv N E R ?s'"
      by (rule fill_entry_inv[OF inv got(1,3) n(1)]) (use f in \<open>auto simp: inode_open_inc_def inode_ref_inc_def\<close>)
    moreover have "the_file i ?s' = ?from\<lparr>fd := int i\<rparr>" using len f n op by simp
    ultimately show ?thesis using op got len
      by (auto simp: inode_open_inc_def inode_ref_inc_def)
  qed
qed

context inode_contract
begin

lemma close_ok:
  assumes wf: "wf (fsdata (vfs s)) N" and inv: "fd_inv N E R s" and i: "i < FILES_STRUCT_NENTRY"
    and op: "status (the_file i s) = FD_OPENED"
  shows "\<exists>v. fd_array_close ops i s = Some ((upd_file i (\<lambda>x. x\<lparr>open_count := 0, status := FD_NONE\<rparr>) s)\<lparr>vfs := v\<rparr>)
    \<and> wf (fsdata v) N \<and> fd_inv N E R ((upd_file i (\<lambda>x. x\<lparr>open_count := 0, status := FD_NONE\<rparr>) s)\<lparr>vfs := v\<rparr>)"
proof -
  have len: "i < length (fd_array (filesp s))" using fd_inv_D(5)[OF inv i] .
  obtain n where n: "n \<in> N" "node (the_file i s) = Some n" "open_count (the_file i s) = 1" "fd (the_file i s) = int i"
    by (rule opened_entry[OF inv i op])
  have c: "has_ops (inodes (vfs s) n)" "iopen_count (inodes (vfs s) n) = E n + fds_on s n"
    "ref_count (inodes (vfs s) n) = R n + fds_on s n" "0 \<le> E n" "E n < R n" "R n + int FILES_STRUCT_NENTRY < MAX_INODE_COUNT"
    using inv n(1) by (auto simp: fd_inv_def)
  have pos: "0 < fds_on s n" "fds_on s n \<le> int FILES_STRUCT_NENTRY"
    using fds_on_pos[OF len, of n] n op fds_on_bound[OF fd_inv_D(2)[OF inv]] by (auto simp: opened_on_def)
  have "0 < iopen_count (inodes (vfs s) n)" "iopen_count (inodes (vfs s) n) < ref_count (inodes (vfs s) n)"
    "ref_count (inodes (vfs s) n) < MAX_INODE_COUNT" using c pos by linarith+
  from vfs_close_ok[OF wf n(1) c(1) this] obtain v where
    v: "vfs_close ops n (vfs s) = Some (0, v)" "wf (fsdata v) N"
      "inodes v = (inodes (vfs s))(n := (inodes (vfs s) n)\<lparr>iopen_count := iopen_count (inodes (vfs s) n) - 1,
         ref_count := ref_count (inodes (vfs s) n) - 1\<rparr>)" by blast
  have "fd_array_close ops i s = Some ((upd_file i (\<lambda>x. x\<lparr>open_count := open_count x - 1, status := FD_NONE\<rparr>) s)\<lparr>vfs := v\<rparr>)"
    using len n op v(1) by (simp add: fd_array_close_def fd_array_free_def Let_def)
  moreover have "upd_file i (\<lambda>x. x\<lparr>open_count := open_count x - 1, status := FD_NONE\<rparr>) s
      = upd_file i (\<lambda>x. x\<lparr>open_count := 0, status := FD_NONE\<rparr>) s"
    using n(3) by (simp add: upd_file_def the_file_def)
  moreover have "has_ops (inodes (vfs s) m)" if "m \<in> N" for m using inv that by (simp add: fd_inv_def)
  then have "fd_inv N E R ((upd_file i (\<lambda>x. x\<lparr>open_count := 0, status := FD_NONE\<rparr>) s)\<lparr>vfs := v\<rparr>)"
    using n op c(1) by (intro fd_inv_change[OF inv i]) (auto simp: file_ok_def opened_on_def v(3))
  ultimately show ?thesis using v(2) by (intro exI[of _ v]) simp
qed

lemma file_close_ok:
  assumes wf: "wf (fsdata (vfs s)) N" and inv: "fd_inv N E R s"
  shows "\<exists>r s'. file_close ops d s = Some (r, s') \<and> wf (fsdata (vfs s')) N \<and> fd_inv N E R s'
    \<and> (if testfd d \<and> status (the_file (nat d) s) = FD_OPENED
       then r = 0 \<and> status (the_file (nat d) s') = FD_NONE \<and> (\<forall>j. j \<noteq> nat d \<longrightarrow> the_file j s' = the_file j s)
       else r = - E_INVAL \<and> s' = s)"
proof (cases "testfd d \<and> status (the_file (nat d) s) = FD_OPENED")
  case True
  then have i: "nat d < FILES_STRUCT_NENTRY" by (auto simp: testfd_def)
  have len: "nat d < length (fd_array (filesp s))" using fd_inv_D(5)[OF inv i] .
  from close_ok[OF wf inv i] True obtain v where
    v: "fd_array_close ops (nat d) s = Some ((upd_file (nat d) (\<lambda>x. x\<lparr>open_count := 0, status := FD_NONE\<rparr>) s)\<lparr>vfs := v\<rparr>)"
      "wf (fsdata v) N" "fd_inv N E R ((upd_file (nat d) (\<lambda>x. x\<lparr>open_count := 0, status := FD_NONE\<rparr>) s)\<lparr>vfs := v\<rparr>)" by blast
  then show ?thesis using True len fd2file_ok[OF inv, of d] by (simp add: file_close_def)
next
  case False
  then show ?thesis using fd2file_ok[OF inv, of d] wf inv by (auto simp: file_close_def)
qed

lemma transfer_ok:
  assumes inv: "fd_inv N E R s" and i: "i < FILES_STRUCT_NENTRY" and op: "status (the_file i s) = FD_OPENED"
    and t: "file_transfer ops io i base len s = Some (r, copied, s')"
    and io: "\<And>n b v r b' v'. io n b v = Some (r, b', v') \<Longrightarrow> wf (fsdata v) N \<Longrightarrow> inodes v' = inodes v \<and> wf (fsdata v') N"
    and wf: "wf (fsdata (vfs s)) N"
  shows "wf (fsdata (vfs s')) N \<and> fd_inv N E R s' \<and> pos (the_file i s') = pos (the_file i s) + int copied
    \<and> (\<forall>j. j \<noteq> i \<longrightarrow> the_file j s' = the_file j s)"
proof -
  have len: "i < length (fd_array (filesp s))" using fd_inv_D(5)[OF inv i] .
  obtain n where n: "n \<in> N" "node (the_file i s) = Some n" "open_count (the_file i s) = 1" "fd (the_file i s) = int i"
    by (rule opened_entry[OF inv i op])
  from t op n len obtain iob v where
    v: "io n (iobuf_init base len (pos (the_file i s))) (vfs s) = Some (r, iob, v)" "copied = iobuf_used iob"
      "fd_array_release ops i ((upd_file i (\<lambda>x. x\<lparr>open_count := open_count x + 1, pos := pos x + int copied\<rparr>) s)\<lparr>vfs := v\<rparr>) = Some s'"
    by (auto simp: file_transfer_def acquire_ok[OF op] vop_Some bind_Some_iff Let_def)
  have k: "inodes v = inodes (vfs s)" "wf (fsdata v) N" using io[OF v(1) wf] by auto
  have "Some s' = Some ((upd_file i (\<lambda>x. x\<lparr>open_count := open_count x, pos := pos x + int copied\<rparr>) s)\<lparr>vfs := v\<rparr>)"
    using release_ok(1)[OF inv i op k(1), of ops "\<lambda>x. pos x + int copied"] v(3) by simp
  then show ?thesis using release_ok(2)[OF inv i op k(1), of "\<lambda>x. pos x + int copied"] k(2) len by simp
qed


text \<open>The calls that acquire an open entry, use its inode and release it.\<close>

lemma seek_ok:
  assumes inv: "fd_inv N E R s" and wf: "wf (fsdata (vfs s)) N" and r: "file_seek ops d p whence s = Some (r, s')"
  shows "wf (fsdata (vfs s')) N \<and> fd_inv N E R s'"
proof (cases "testfd d \<and> status (the_file (nat d) s) = FD_OPENED")
  case False
  then show ?thesis using r fd2file_ok[OF inv, of d] inv wf by (auto simp: file_seek_def)
next
  case True
  let ?i = "nat d"
  have i: "?i < FILES_STRUCT_NENTRY" and op: "status (the_file ?i s) = FD_OPENED" using True by (auto simp: testfd_def)
  have len: "?i < length (fd_array (filesp s))" using fd_inv_D(5)[OF inv i] .
  obtain n where n: "n \<in> N" "node (the_file ?i s) = Some n" by (rule opened_entry[OF inv i op])
  let ?s1 = "upd_file ?i (\<lambda>x. x\<lparr>open_count := open_count x + 1\<rparr>) s"
  from r True n op len obtain r1 p1 v r2 s2 where
    v: "seek_target ops n p whence (the_file ?i ?s1) (vfs s) = Some (r1, p1, v)"
      "seek_store ops ?i n r1 p1 (?s1\<lparr>vfs := v\<rparr>) = Some (r2, s2)" "fd_array_release ops ?i s2 = Some s'"
    using fd2file_ok[OF inv, of d] by (auto simp: file_seek_def acquire_ok[OF op] bind_Some_iff)
  have "v = vfs s \<or> (\<exists>r st. vop n (op_fstat ops n) (vfs s) = Some (r, st, v))"
    using v(1) by (auto simp: seek_target_def bind_Some_iff split: if_splits)
  then have k: "inodes v = inodes (vfs s)" "wf (fsdata v) N" using wf vop_keeps[OF wf] by blast+
  have "\<exists>v1 q. inodes v1 = inodes (vfs s) \<and> wf (fsdata v1) N
      \<and> s2 = (upd_file ?i (\<lambda>x. x\<lparr>open_count := open_count x + 1, pos := q x\<rparr>) s)\<lparr>vfs := v1\<rparr>"
  proof (cases "r1 = 0")
    case False
    then show ?thesis using v(2) k by (intro exI[of _ v] exI[of _ pos]) (simp add: seek_store_def)
  next
    case True
    then obtain r3 v1 where t: "op_tryseek ops n p1 v = Some (r3, v1)"
      "s2 = (if r3 = 0 then upd_file ?i (pos_update (\<lambda>_. p1)) ?s1 else ?s1)\<lparr>vfs := v1\<rparr>"
      using v(2) by (auto simp: seek_store_def bind_Some_iff vop_Some)
    then show ?thesis using tryseek_keeps[OF k(2) t(1)] k(1) len
      by (intro exI[of _ v1] exI[of _ "if r3 = 0 then (\<lambda>_. p1) else pos"]) simp
  qed
  then obtain v1 q where "inodes v1 = inodes (vfs s)" "wf (fsdata v1) N"
    "s2 = (upd_file ?i (\<lambda>x. x\<lparr>open_count := open_count x + 1, pos := q x\<rparr>) s)\<lparr>vfs := v1\<rparr>" by blast
  then show ?thesis
    using release_ok(1)[OF inv i op, of v1 ops q] release_ok(2)[OF inv i op, of v1 q] v(3) by auto
qed

lemma use_inode_ok:
  assumes inv: "fd_inv N E R s" and wf: "wf (fsdata v) N" and v: "inodes v = inodes (vfs s)"
    and d: "testfd d" "status (the_file (nat d) s) = FD_OPENED"
    and r: "fd_array_release ops (nat d) ((upd_file (nat d) (\<lambda>x. x\<lparr>open_count := open_count x + 1\<rparr>) s)\<lparr>vfs := v\<rparr>) = Some s'"
  shows "wf (fsdata (vfs s')) N \<and> fd_inv N E R s'"
proof -
  have i: "nat d < FILES_STRUCT_NENTRY" using d by (auto simp: testfd_def)
  have "upd_file (nat d) (\<lambda>x. x\<lparr>open_count := open_count x + 1\<rparr>) s = upd_file (nat d) (\<lambda>x. x\<lparr>open_count := open_count x + 1, pos := pos x\<rparr>) s"
    by simp
  then show ?thesis using release_ok(1)[OF inv i d(2) v, of ops pos] release_ok(2)[OF inv i d(2) v, of pos] r wf by auto
qed

lemma fstat_ok:
  assumes inv: "fd_inv N E R s" and wf: "wf (fsdata (vfs s)) N" and r: "file_fstat ops d s = Some (r, st, s')"
  shows "wf (fsdata (vfs s')) N \<and> fd_inv N E R s'"
proof (cases "testfd d \<and> status (the_file (nat d) s) = FD_OPENED")
  case True
  then obtain n r1 st1 v where "vop n (op_fstat ops n) (vfs s) = Some (r1, st1, v)"
    "fd_array_release ops (nat d) ((upd_file (nat d) (\<lambda>x. x\<lparr>open_count := open_count x + 1\<rparr>) s)\<lparr>vfs := v\<rparr>) = Some s'"
    using r fd2file_ok[OF inv, of d] by (auto simp: file_fstat_def acquire_ok bind_Some_iff)
  then show ?thesis using use_inode_ok[OF inv _ _ _ _] vop_keeps[OF wf] True by blast
next
  case False
  then show ?thesis using r fd2file_ok[OF inv, of d] inv wf by (auto simp: file_fstat_def)
qed

lemma fsync_ok:
  assumes inv: "fd_inv N E R s" and wf: "wf (fsdata (vfs s)) N" and r: "file_fsync ops d s = Some (r, s')"
  shows "wf (fsdata (vfs s')) N \<and> fd_inv N E R s'"
proof (cases "testfd d \<and> status (the_file (nat d) s) = FD_OPENED")
  case True
  then obtain n r1 v where "op_fsync ops n (vfs s) = Some (r1, v)"
    "fd_array_release ops (nat d) ((upd_file (nat d) (\<lambda>x. x\<lparr>open_count := open_count x + 1\<rparr>) s)\<lparr>vfs := v\<rparr>) = Some s'"
    using r fd2file_ok[OF inv, of d] by (auto simp: file_fsync_def acquire_ok bind_Some_iff vop_Some)
  then show ?thesis using use_inode_ok[OF inv _ _ _ _] fsync_keeps[OF wf] True by blast
next
  case False
  then show ?thesis using r fd2file_ok[OF inv, of d] inv wf by (auto simp: file_fsync_def)
qed

lemma getdirentry_ok:
  assumes inv: "fd_inv N E R s" and wf: "wf (fsdata (vfs s)) N" and r: "file_getdirentry ops d name off s = Some (r, off', s')"
  shows "wf (fsdata (vfs s')) N \<and> fd_inv N E R s'"
proof (cases "testfd d \<and> status (the_file (nat d) s) = FD_OPENED")
  case True
  then obtain n r1 b b1 v where "op_getdirentry ops n b (vfs s) = Some (r1, b1, v)"
    "fd_array_release ops (nat d) ((upd_file (nat d) (\<lambda>x. x\<lparr>open_count := open_count x + 1\<rparr>) s)\<lparr>vfs := v\<rparr>) = Some s'"
    using r fd2file_ok[OF inv, of d] by (auto simp: file_getdirentry_def acquire_ok bind_Some_iff vop_Some)
  then show ?thesis using use_inode_ok[OF inv _ _ _ _] dirent_keeps[OF wf] True by blast
next
  case False
  then show ?thesis using r fd2file_ok[OF inv, of d] inv wf by (auto simp: file_getdirentry_def)
qed

lemma file_read_ok:
  assumes inv: "fd_inv N E R s" and wf: "wf (fsdata (vfs s)) N" and r: "file_read ops d base len s = Some (r, c, s')"
  shows "wf (fsdata (vfs s')) N \<and> fd_inv N E R s'"
proof (cases "testfd d \<and> status (the_file (nat d) s) = FD_OPENED \<and> readable (the_file (nat d) s)")
  case True
  then have i: "nat d < FILES_STRUCT_NENTRY" "status (the_file (nat d) s) = FD_OPENED" by (auto simp: testfd_def)
  have "file_transfer ops (op_read ops) (nat d) base len s = Some (r, c, s')"
    using r True fd2file_ok[OF inv, of d] by (simp add: file_read_def)
  from transfer_ok[OF inv i this _ wf] read_keeps show ?thesis by blast
next
  case False
  then show ?thesis using r fd2file_ok[OF inv, of d] inv wf by (auto simp: file_read_def split: if_splits)
qed

lemma file_write_ok:
  assumes inv: "fd_inv N E R s" and wf: "wf (fsdata (vfs s)) N" and r: "file_write ops d base len s = Some (r, c, s')"
  shows "wf (fsdata (vfs s')) N \<and> fd_inv N E R s'"
proof (cases "testfd d \<and> status (the_file (nat d) s) = FD_OPENED \<and> writable (the_file (nat d) s)")
  case True
  then have i: "nat d < FILES_STRUCT_NENTRY" "status (the_file (nat d) s) = FD_OPENED" by (auto simp: testfd_def)
  have "file_transfer ops (op_write ops) (nat d) base len s = Some (r, c, s')"
    using r True fd2file_ok[OF inv, of d] by (simp add: file_write_def)
  from transfer_ok[OF inv i this _ wf] write_keeps show ?thesis by blast
next
  case False
  then show ?thesis using r fd2file_ok[OF inv, of d] inv wf by (auto simp: file_write_def split: if_splits)
qed

end


text \<open>The calls a process can make on its descriptors.\<close>

datatype file_call = Open path "32 word" | Close int | Dup int int | Read int nat nat | Write int nat nat
  | Seek int int int | Fstat int | Fsync int | Getdirentry int nat int

definition file_call :: "'f inode_ops \<Rightarrow> 'f namespace \<Rightarrow> file_call \<Rightarrow> 'f fstate \<Rightarrow> 'f fstate option" where
  "file_call ops ns c s = (case c of
     Open p fl \<Rightarrow> map_option snd (file_open ops ns p fl s)
   | Close d \<Rightarrow> map_option snd (file_close ops d s)
   | Dup d1 d2 \<Rightarrow> map_option snd (file_dup d1 d2 s)
   | Read d base len \<Rightarrow> map_option (snd \<circ> snd) (file_read ops d base len s)
   | Write d base len \<Rightarrow> map_option (snd \<circ> snd) (file_write ops d base len s)
   | Seek d p whence \<Rightarrow> map_option snd (file_seek ops d p whence s)
   | Fstat d \<Rightarrow> map_option (snd \<circ> snd) (file_fstat ops d s)
   | Fsync d \<Rightarrow> map_option snd (file_fsync ops d s)
   | Getdirentry d name off \<Rightarrow> map_option (snd \<circ> snd) (file_getdirentry ops d name off s))"

fun file_calls :: "'f inode_ops \<Rightarrow> 'f namespace \<Rightarrow> file_call list \<Rightarrow> 'f fstate \<Rightarrow> 'f fstate option" where
  "file_calls ops ns [] s = Some s"
| "file_calls ops ns (c # cs) s = do { s1 \<leftarrow> file_call ops ns c s; file_calls ops ns cs s1 }"

fun plain_call :: "file_call \<Rightarrow> bool" where
  "plain_call (Open p fl) \<longleftrightarrow> fl AND O_CREAT = 0 \<and> fl AND O_APPEND = 0"
| "plain_call _ \<longleftrightarrow> True"

text \<open>The calls other than opening, on any file system.\<close>

fun held_call :: "file_call \<Rightarrow> bool" where
  "held_call (Open p fl) \<longleftrightarrow> False"
| "held_call _ \<longleftrightarrow> True"

context inode_contract
begin

lemma held_call_ok:
  assumes inv: "fd_inv N E R s" and wf: "wf (fsdata (vfs s)) N" and p: "held_call c" and r: "file_call ops ns c s = Some s'"
  shows "wf (fsdata (vfs s')) N \<and> fd_inv N E R s'"
proof (cases c)
  case (Open p fl)
  then show ?thesis using p by simp
next
  case (Close d)
  then show ?thesis using file_close_ok[OF wf inv, of d] r by (auto simp: file_call_def)
next
  case (Dup d1 d2)
  then show ?thesis using file_dup_ok[OF inv, of d1 d2] r wf by (auto simp: file_call_def)
next
  case (Read d base len)
  then show ?thesis using file_read_ok[OF inv wf] r by (auto simp: file_call_def)
next
  case (Write d base len)
  then show ?thesis using file_write_ok[OF inv wf] r by (auto simp: file_call_def)
next
  case (Seek d p whence)
  then show ?thesis using seek_ok[OF inv wf] r by (auto simp: file_call_def)
next
  case (Fstat d)
  then show ?thesis using fstat_ok[OF inv wf] r by (auto simp: file_call_def)
next
  case (Fsync d)
  then show ?thesis using fsync_ok[OF inv wf] r by (auto simp: file_call_def)
next
  case (Getdirentry d name off)
  then show ?thesis using getdirentry_ok[OF inv wf] r by (auto simp: file_call_def)
qed

lemma held_calls_ok:
  assumes "fd_inv N E R s" "wf (fsdata (vfs s)) N" "list_all held_call cs" "file_calls ops ns cs s = Some s'"
  shows "wf (fsdata (vfs s')) N \<and> fd_inv N E R s'"
  using assms
proof (induction cs arbitrary: s)
  case (Cons c cs)
  then obtain s1 where "file_call ops ns c s = Some s1" "file_calls ops ns cs s1 = Some s'" by (auto simp: bind_Some_iff)
  moreover have "held_call c" "list_all held_call cs" using Cons.prems by auto
  ultimately show ?case using held_call_ok[OF Cons.prems(1,2)] Cons.IH by blast
qed simp

end

context vfs_contract
begin

lemma fd_array_free_init:
  "status (the_file i s) = FD_INIT \<Longrightarrow> open_count (the_file i s) = 0 \<Longrightarrow>
   fd_array_free ops i s = Some (upd_file i (status_update (\<lambda>_. FD_NONE)) s)"
  by (simp add: fd_array_free_def)

text \<open>Undoing the allocation of an entry that is not opened.\<close>

lemma undo_alloc:
  assumes inv: "fd_inv N E R s" and i: "i < FILES_STRUCT_NENTRY" "status (the_file i s) = FD_NONE" and v: "inodes v = inodes (vfs s)"
  shows "\<exists>s'. fd_array_free ops i ((alloc_entry i s)\<lparr>vfs := v\<rparr>) = Some s' \<and> fd_inv N E R s' \<and> vfs s' = v
    \<and> (\<forall>j. status (the_file j s') = status (the_file j s)) \<and> (\<forall>j. j \<noteq> i \<longrightarrow> the_file j s' = the_file j s)"
proof -
  have len: "i < length (fd_array (filesp s))" using fd_inv_D(5)[OF inv i(1)] .
  have f: "fd (the_file i s) = int i" "open_count (the_file i s) = 0"
    using fd_inv_D(3)[OF inv i(1)] i(2) by (auto simp: file_ok_def)
  let ?s' = "(upd_file i (\<lambda>x. x\<lparr>node := None, status := FD_NONE\<rparr>) s)\<lparr>vfs := v\<rparr>"
  have "fd_array_free ops i ((alloc_entry i s)\<lparr>vfs := v\<rparr>) = Some ?s'"
    using len f by (simp add: fd_array_free_def alloc_entry_def)
  moreover have "has_ops (inodes (vfs s) m)" if "m \<in> N" for m using inv that by (simp add: fd_inv_def)
  then have "fd_inv N E R ?s'" using i f by (intro fd_inv_change[OF inv i(1)]) (auto simp: file_ok_def opened_on_def v)
  ultimately show ?thesis using len i(2) by (intro exI[of _ ?s']) auto
qed

lemma file_open_ok:
  assumes inv: "fd_inv N E R s" and wf: "wf (fsdata (vfs s)) N" and fl: "fl AND O_CREAT = 0" "fl AND O_APPEND = 0"
    and r: "file_open ops ns p fl s = Some (r, s')"
  shows "wf (fsdata (vfs s')) N \<and> fd_inv N E R s'
    \<and> ((\<exists>i < FILES_STRUCT_NENTRY. r = int i \<and> status (the_file i s) = FD_NONE \<and> (\<forall>m < i. status (the_file m s) \<noteq> FD_NONE)
          \<and> status (the_file i s') = FD_OPENED \<and> pos (the_file i s') = 0 \<and> (\<forall>j. j \<noteq> i \<longrightarrow> the_file j s' = the_file j s))
       \<or> (\<forall>j. status (the_file j s') = status (the_file j s)))"
proof (cases "s' = s")
  case True
  then show ?thesis using inv wf by simp
next
  case False
  from fd_array_alloc_ok[OF inv refl, of NO_FD] r False obtain i where
    i: "i < FILES_STRUCT_NENTRY" "fd_array_alloc NO_FD s = Some (0, Some i, alloc_entry i s)" "status (the_file i s) = FD_NONE"
      "\<forall>m < i. status (the_file m s) \<noteq> FD_NONE"
    by (auto simp: file_open_def split: if_splits)
  have len: "i < length (fd_array (filesp s))" using fd_inv_D(5)[OF inv i(1)] .
  have f: "fd (the_file i s) = int i" "open_count (the_file i s) = 0"
    using fd_inv_D(3)[OF inv i(1)] i(3) by (auto simp: file_ok_def)
  have vs: "vfs (alloc_entry i s) = vfs s" by (simp add: alloc_entry_def)
  from r False i(2) fl obtain r1 nd v where o: "vfs_open ops ns p fl (vfs s) = Some (r1, nd, v)"
    "(if r1 \<noteq> 0 then do { s3 \<leftarrow> fd_array_free ops i ((alloc_entry i s)\<lparr>vfs := v\<rparr>); Some (r1, s3) }
      else do { n \<leftarrow> nd; file_open_fill i n 0 fl ((alloc_entry i s)\<lparr>vfs := v\<rparr>) }) = Some (r, s')"
    by (auto simp: file_open_def vs bind_Some_iff Let_def split: if_splits)
  have "has_ops (inodes (vfs s) n) \<and> 0 \<le> iopen_count (inodes (vfs s) n)
      \<and> iopen_count (inodes (vfs s) n) < ref_count (inodes (vfs s) n) \<and> ref_count (inodes (vfs s) n) + 1 < MAX_INODE_COUNT"
    if "n \<in> N" for n
  proof -
    have "\<not> opened_on n (the_file i s)" using i(3) by (simp add: opened_on_def)
    moreover have "the_file i s \<in> set (fd_array (filesp s))" using len by (simp add: the_file_def)
    ultimately have "fds_on s n < int FILES_STRUCT_NENTRY"
      using length_filter_less[of "the_file i s" "fd_array (filesp s)" "opened_on n"] fd_inv_D(2)[OF inv] by (simp add: fds_on_def)
    moreover have "0 \<le> fds_on s n" by (simp add: fds_on_def)
    ultimately show ?thesis using inv that by (auto simp: fd_inv_def)
  qed
  note k = vfs_open_ok[OF wf this fl(1) o(1)]
  show ?thesis
  proof (cases "r1 = 0")
    case False
    then have v: "inodes v = inodes (vfs s)" "wf (fsdata v) N" using k by auto
    from undo_alloc[OF inv i(1,3) v(1)] o(2) False show ?thesis using v(2) by auto
  next
    case True
    then obtain n where n: "n \<in> N" "nd = Some n" "wf (fsdata v) N"
      "inodes v = (inodes (vfs s))(n := (inodes (vfs s) n)\<lparr>ref_count := ref_count (inodes (vfs s) n) + 1,
          iopen_count := iopen_count (inodes (vfs s) n) + 1\<rparr>)" using k by auto
    let ?f = "\<lambda>x. x\<lparr>pos := 0, node := Some n, readable := (fl AND O_ACCMODE \<noteq> O_WRONLY),
        writable := (fl AND O_ACCMODE \<noteq> O_RDONLY), status := FD_OPENED, open_count := open_count x + 1\<rparr>"
    have s': "s' = (upd_file i ?f s)\<lparr>vfs := v\<rparr> \<and> r = int i"
      using o(2) True n(2) len f by (auto simp: file_open_fill_def fd_array_open_def alloc_entry_def)
    have "fd_inv N E R ((upd_file i ?f s)\<lparr>vfs := v\<rparr>)"
      by (rule fill_entry_inv[OF inv i(1,3) n(1,4)]) (use f in auto)
    then show ?thesis using s' n(3) i len by simp
  qed
qed


lemma file_call_ok:
  assumes inv: "fd_inv N E R s" and wf: "wf (fsdata (vfs s)) N" and p: "plain_call c" and r: "file_call ops ns c s = Some s'"
  shows "wf (fsdata (vfs s')) N \<and> fd_inv N E R s'"
proof (cases "held_call c")
  case False
  then obtain p fl where "c = Open p fl" by (cases c) auto
  then show ?thesis using file_open_ok[OF inv wf] p r by (auto simp: file_call_def)
qed (rule held_call_ok[OF inv wf _ r])

lemma file_calls_ok:
  assumes "fd_inv N E R s" "wf (fsdata (vfs s)) N" "list_all plain_call cs" "file_calls ops ns cs s = Some s'"
  shows "wf (fsdata (vfs s')) N \<and> fd_inv N E R s'"
  using assms
proof (induction cs arbitrary: s)
  case (Cons c cs)
  then obtain s1 where "file_call ops ns c s = Some s1" "file_calls ops ns cs s1 = Some s'" by (auto simp: bind_Some_iff)
  moreover have "plain_call c" "list_all plain_call cs" using Cons.prems by auto
  ultimately show ?case using file_call_ok[OF Cons.prems(1,2)] Cons.IH by blast
qed simp

end

section \<open>Properties\<close>

text \<open>A process without open files; \<open>stdout\<close> is inode 1, which the device table holds.\<close>

definition stdout_dev :: vfs_dev where
  "stdout_dev = \<lparr>devname = [115, 116, 100, 111, 117, 116], devnode = Some 1, dev_fs = None, mountable = False\<rparr>"

definition console_state :: "dev_state fstate" where
  "console_state = \<lparr>
     filesp = \<lparr>pwd = None, fd_array = map (\<lambda>i. \<lparr>status = FD_NONE, readable = False, writable = False, fd = int i, pos = 0,
        node = None, open_count = 0\<rparr>) [0..<FILES_STRUCT_NENTRY], files_count = 1\<rparr>,
     vfs = \<lparr>inodes = (\<lambda>_. \<lparr>has_ops = True, ref_count = 1, iopen_count = 0\<rparr>),
       fsdata = \<lparr>devs = [1 \<mapsto> \<lparr>d_blocks = 0, d_blocksize = 1, d_kind = Stdout\<rparr>], stdin_buffer = (\<lambda>_. 0), p_rpos = 0, p_wpos = 0,
         keys = [], console = [], ide_base = 0, ide_size = 0, disk0_buffer = 0, vdev_list = [stdout_dev],
         pwd_node = None, bootfs_node = None\<rparr>,
       vmemory = (\<lambda>a. 65)\<rparr>\<rparr>"

lemma console_inv: "fd_inv {1} (\<lambda>_. 0) (\<lambda>_. 1) console_state" "dev_wf (fsdata (vfs console_state)) {1}"
proof -
  have "filter (opened_on n) (fd_array (filesp console_state)) = []" for n
    by (simp add: console_state_def filter_empty_conv opened_on_def)
  then show "fd_inv {1} (\<lambda>_. 0) (\<lambda>_. 1) console_state"
    by (simp add: fd_inv_def fds_on_def file_ok_def the_file_def)
      (simp add: console_state_def FILES_STRUCT_NENTRY_def)
  show "dev_wf (fsdata (vfs console_state)) {1}" by (simp add: dev_wf_def console_state_def stdout_dev_def)
qed


definition console_calls :: "file_call list" where
  "console_calls = [Open [115, 116, 100, 111, 117, 116, 58] O_WRONLY, Dup 0 NO_FD, Write 1 100 2, Close 0, Close 5]"


text \<open>Duplicating a descriptor: \<open>file_dup\<close> returns; it succeeds only on an open descriptor and a free
  entry, which is the requested one or the least free one.  The new descriptor is a copy of the old
  one with the same inode, position and permissions, no other entry changes, and the counts of the
  inodes stay exact.  An error leaves the whole state as it was.\<close>

theorem file_dup_copies:
  assumes "fd_inv N E R s"
  shows "\<exists>r s'. file_dup d1 d2 s = Some (r, s') \<and> fd_inv N E R s'
    \<and> (if 0 \<le> r then testfd d1 \<and> status (the_file (nat d1) s) = FD_OPENED \<and> status (the_file (nat r) s) = FD_NONE
          \<and> (d2 \<noteq> NO_FD \<longrightarrow> r = d2) \<and> (d2 = NO_FD \<longrightarrow> (\<forall>m < nat r. status (the_file m s) \<noteq> FD_NONE))
          \<and> the_file (nat r) s' = (the_file (nat d1) s)\<lparr>fd := r\<rparr>
          \<and> (\<forall>j. j \<noteq> nat r \<longrightarrow> the_file j s' = the_file j s)
       else s' = s)"
  using file_dup_ok[OF assms, of d1 d2] by (metis (no_types, lifting))

text \<open>The same process with \<open>stdout\<close> open as descriptor 0.\<close>

definition console_open :: "dev_state fstate" where
  "console_open = (upd_file 0 (\<lambda>x. x\<lparr>status := FD_OPENED, node := Some 1, open_count := 1\<rparr>) console_state)
     \<lparr>vfs := inode_open_inc 1 (inode_ref_inc 1 (vfs console_state))\<rparr>"

lemma console_entry: "i < FILES_STRUCT_NENTRY \<Longrightarrow> status (the_file i console_state) = FD_NONE"
  "length (fd_array (filesp console_state)) = FILES_STRUCT_NENTRY"
  by (simp_all add: the_file_def console_state_def)

lemma console_open_inv: "fd_inv {1} (\<lambda>_. 0) (\<lambda>_. 1) console_open"
  unfolding console_open_def
  by (rule fill_entry_inv[OF console_inv(1), of 0 1])
    (simp_all add: console_entry FILES_STRUCT_NENTRY_def inode_open_inc_def inode_ref_inc_def)

theorem file_dup_copies_witness:
  "\<exists>r s'. file_dup 0 5 console_open = Some (r, s') \<and> (r = 5 \<and> node (the_file 5 s') = Some 1 \<or> s' = console_open)"
proof -
  have "node (the_file 0 console_open) = Some 1"
    by (simp add: console_open_def console_entry FILES_STRUCT_NENTRY_def)
  then show ?thesis using file_dup_copies[OF console_open_inv, of 0 5] by (auto split: if_splits)
qed

section \<open>A count that is lost\<close>

text \<open>The error path of \<open>O_CREAT | O_EXCL\<close> on a file that exists does not give back the reference
  that the lookup took: each such call adds one to the reference count of the inode.\<close>

lemma vfs_open_excl_leaks:
  assumes "vfs_lookup ops ns p s = Some (0, Some n, s1)" "ref_count (inodes s1 n) = ref_count (inodes s n) + 1"
  shows "\<exists>s'. vfs_open ops ns p (O_RDWR OR O_CREAT OR O_EXCL) s = Some (- E_EXISTS, None, s')
    \<and> ref_count (inodes s' n) = ref_count (inodes s n) + 1"
  using assms by (simp add: vfs_open_def O_RDWR_def O_CREAT_def O_EXCL_def O_ACCMODE_def O_RDONLY_def O_WRONLY_def O_TRUNC_def)

end
