(* ===== verification/Proc_Ops.thy ===== *)
theory Proc_Ops
  imports Life_Cycle Sync Vmm Files
begin

unbundle bit_operations_syntax

text \<open>
  The process operations of \<open>kern/process/proc.c\<close> over the whole kernel: \<open>do_fork\<close>, \<open>do_exit\<close> and
  \<open>do_wait\<close> with the memory, the kernel stacks, the trap frames and the open files of a process.
  The state joins the states of the parts: the synchronisation layer with the process table, the
  memory descriptors with page tables and page frames, the tables of open files with the inode
  layer.  Objects that \<open>kmalloc\<close> returns come from pools, as in \<open>Vmm\<close>; a call that may sleep reports
  that its caller sleeps, and the code behind the sleep is a function of its own.
\<close>

section \<open>State\<close>

record trapframe =
  tf_gpr :: "nat \<Rightarrow> 64 word"
  tf_status :: "64 word"
  tf_epc :: "64 word"
  tf_tval :: "64 word"
  tf_cause :: "64 word"

record kcontext =
  ctx_ra :: "64 word"
  ctx_sp :: "64 word"
  ctx_s :: "nat \<Rightarrow> 64 word"

text \<open>The positions of three registers in \<open>struct pushregs\<close>.\<close>

abbreviation (input) reg_sp :: nat where "reg_sp \<equiv> 2"
abbreviation (input) reg_s0 :: nat where "reg_s0 \<equiv> 8"
abbreviation (input) reg_s1 :: nat where "reg_s1 \<equiv> 9"
abbreviation (input) reg_a0 :: nat where "reg_a0 \<equiv> 10"

text \<open>\<open>tf_mem\<close> is the memory that holds trap frames, by address; \<open>proc_tf\<close> and \<open>proc_ctx\<close> are the
  fields \<open>tf\<close> and \<open>context\<close> of the process blocks; \<open>mm_sem\<close> and \<open>locked_by\<close> are the lock of a memory
  descriptor; page tables are named by their frames, so \<open>boot_pgdir\<close> is the frame of the
  kernel's table.\<close>

record 'f psys =
  sy :: sync_state
  vm :: vmm_state
  ftab :: "nat \<Rightarrow> files_struct"
  fvfs :: "'f vfs_state"
  proc_pool :: "nat list"
  files_pool :: "(nat \<times> file_struct list) list"
  tf_mem :: "nat \<Rightarrow> trapframe"
  proc_tf :: "nat \<Rightarrow> nat"
  proc_ctx :: "nat \<Rightarrow> kcontext"
  mm_sem :: "nat \<Rightarrow> nat"
  locked_by :: "nat \<Rightarrow> int"
  boot_pgdir :: nat

abbreviation kst :: "'f psys \<Rightarrow> kstate" where
  "kst s \<equiv> kern (sy s)"

definition upd_kern :: "(kstate \<Rightarrow> kstate) \<Rightarrow> 'f psys \<Rightarrow> 'f psys" where
  "upd_kern f s = s\<lparr>sy := (sy s)\<lparr>kern := f (kst s)\<rparr>\<rparr>"

definition set_pt :: "pt_state \<Rightarrow> 'f psys \<Rightarrow> 'f psys" where
  "set_pt p s = s\<lparr>vm := (vm s)\<lparr>pt := p\<rparr>\<rparr>"

text \<open>What a call that may sleep did.\<close>

datatype outcome = Done int | Asleep

definition CLONE_VM :: "32 word" where "CLONE_VM = 0x100"
definition CLONE_FS :: "32 word" where "CLONE_FS = 0x800"

section \<open>Kernel stacks and page tables\<close>

abbreviation (input) KSTACKPAGE :: nat where "KSTACKPAGE \<equiv> 2"
abbreviation (input) KSTACKSIZE :: nat where "KSTACKSIZE \<equiv> 8192"

definition setup_kstack :: "nat \<Rightarrow> 'f psys \<Rightarrow> (int \<times> 'f psys) option" where
  "setup_kstack p s = do {
     (r, a) \<leftarrow> default_alloc_pages KSTACKPAGE (area (pt (vm s)));
     let s1 = set_pt ((pt (vm s))\<lparr>area := a\<rparr>) s;
     (case r of
        Some page \<Rightarrow> do {
          kva \<leftarrow> page2kva page (pt (vm s1));
          Some (0, upd_kern (upd_proc p (kstack_update (\<lambda>_. kva))) s1) }
      | None \<Rightarrow> Some (- E_NO_MEM, s1)) }"

definition put_kstack :: "nat \<Rightarrow> 'f psys \<Rightarrow> 'f psys option" where
  "put_kstack p s = do {
     page \<leftarrow> kva2page (kstack (procs (kst s) p)) (pt (vm s));
     a \<leftarrow> default_free_pages page KSTACKPAGE (area (pt (vm s)));
     Some (set_pt ((pt (vm s))\<lparr>area := a\<rparr>) s) }"

definition setup_pgdir :: "nat \<Rightarrow> 'f psys \<Rightarrow> (int \<times> 'f psys) option" where
  "setup_pgdir m s = do {
     (r, p) \<leftarrow> alloc_page (pt (vm s));
     (case r of
        None \<Rightarrow> Some (- E_NO_MEM, set_pt p s)
      | Some page \<Rightarrow> do {
          _ \<leftarrow> page2kva page p;
          let s1 = set_pt (p\<lparr>pmem := (pmem p)(page := pmem p (boot_pgdir s))\<rparr>) s;
          Some (0, s1\<lparr>vm := upd_mm m (mm_struct.pgdir_update (\<lambda>_. Some page)) (vm s1)\<rparr>) }) }"

definition put_pgdir :: "nat \<Rightarrow> 'f psys \<Rightarrow> 'f psys option" where
  "put_pgdir m s = do {
     pg \<leftarrow> mm_struct.pgdir (mms (vm s) m);
     page \<leftarrow> pa2page (page2ppn pg) (pt (vm s));
     p \<leftarrow> free_page page (pt (vm s));
     Some (set_pt p s) }"

section \<open>Memory descriptors of processes\<close>

definition mm_count_inc :: "nat \<Rightarrow> 'f psys \<Rightarrow> int \<times> 'f psys" where
  "mm_count_inc m s = (let v = upd_mm m (mm_count_update (\<lambda>n. n + 1)) (vm s) in (mm_count (mms v m), s\<lparr>vm := v\<rparr>))"

definition mm_count_dec :: "nat \<Rightarrow> 'f psys \<Rightarrow> int \<times> 'f psys" where
  "mm_count_dec m s = (let v = upd_mm m (mm_count_update (\<lambda>n. n - 1)) (vm s) in (mm_count (mms v m), s\<lparr>vm := v\<rparr>))"

text \<open>\<open>w\<close> is the address of the \<open>wait_t\<close> of \<open>__down\<close>; the first result says whether the lock is held.\<close>

definition lock_mm :: "sched_class \<Rightarrow> nat \<Rightarrow> nat option \<Rightarrow> 'f psys \<Rightarrow> (bool \<times> 'f psys) option" where
  "lock_mm sc w mo s = (case mo of
     None \<Rightarrow> Some (True, s)
   | Some m \<Rightarrow> do {
       (fin, y) \<leftarrow> down sc (mm_sem s m) w (sy s);
       let s1 = s\<lparr>sy := y\<rparr>;
       Some (fin, if fin then s1\<lparr>locked_by := (locked_by s1)(m := pid (procs (kst s1) (current (kst s1))))\<rparr> else s1) })"

definition unlock_mm :: "sched_class \<Rightarrow> nat option \<Rightarrow> 'f psys \<Rightarrow> 'f psys option" where
  "unlock_mm sc mo s = (case mo of
     None \<Rightarrow> Some s
   | Some m \<Rightarrow> do {
       y \<leftarrow> up sc (mm_sem s m) (sy s);
       let s1 = s\<lparr>sy := y\<rparr>;
       Some (s1\<lparr>locked_by := (locked_by s1)(m := 0)\<rparr>) })"

text \<open>\<open>mm_create\<close> with the initialisation of the lock.\<close>

definition mm_create_lock :: "'f psys \<Rightarrow> nat option \<times> 'f psys" where
  "mm_create_lock s = (case mm_create (vm s) of
     (None, v) \<Rightarrow> (None, s\<lparr>vm := v\<rparr>)
   | (Some m, v) \<Rightarrow> (Some m, s\<lparr>vm := v, sy := sem_init (mm_sem s m) 1 (sy s)\<rparr>))"

text \<open>The common end \<open>good_mm\<close> of \<open>copy_mm\<close>.\<close>

definition share_mm :: "nat \<Rightarrow> nat \<Rightarrow> 'f psys \<Rightarrow> 'f psys option" where
  "share_mm m p s = do {
     let s1 = snd (mm_count_inc m s);
     pg \<leftarrow> mm_struct.pgdir (mms (vm s1) m);
     Some (upd_kern (upd_proc p (\<lambda>pr. proc_struct.pgdir_update (\<lambda>_. pg) (mm_update (\<lambda>_. Some m) pr))) s1) }"

definition copy_mm :: "sched_class \<Rightarrow> nat \<Rightarrow> 32 word \<Rightarrow> nat \<Rightarrow> 'f psys \<Rightarrow> (outcome \<times> 'f psys) option" where
  "copy_mm sc w clone_flags p s =
     (case mm (procs (kst s) (current (kst s))) of
        None \<Rightarrow> Some (Done 0, s)
      | Some oldmm \<Rightarrow>
          if clone_flags AND CLONE_VM \<noteq> 0
          then do { s1 \<leftarrow> share_mm oldmm p s; Some (Done 0, s1) }
          else (case mm_create_lock s of
              (None, s1) \<Rightarrow> Some (Done (- E_NO_MEM), s1)
            | (Some m, s1) \<Rightarrow> do {
                (r, s2) \<leftarrow> setup_pgdir m s1;
                if r \<noteq> 0 then do {
                  v \<leftarrow> mm_destroy m (vm s2);
                  Some (Done (- E_NO_MEM), s2\<lparr>vm := v\<rparr>) }
                else do {
                  (fin, s3) \<leftarrow> lock_mm sc w (Some oldmm) s2;
                  if \<not> fin then Some (Asleep, s3)
                  else do {
                    (ret, v) \<leftarrow> dup_mmap (Some m) (Some oldmm) (vm s3);
                    s4 \<leftarrow> unlock_mm sc (Some oldmm) (s3\<lparr>vm := v\<rparr>);
                    if ret \<noteq> 0 then do {
                      v5 \<leftarrow> exit_mmap (Some m) (vm s4);
                      s6 \<leftarrow> put_pgdir m (s4\<lparr>vm := v5\<rparr>);
                      v7 \<leftarrow> mm_destroy m (vm s6);
                      Some (Done ret, s6\<lparr>vm := v7\<rparr>) }
                    else do { s5 \<leftarrow> share_mm m p s4; Some (Done 0, s5) } } } }))"

section \<open>Trap frames\<close>

text \<open>The trap frame lies at the top of the kernel stack; \<open>fr\<close> is the address of \<open>forkret\<close>, and
  288 is the size of a trap frame.\<close>

definition copy_thread :: "64 word \<Rightarrow> nat \<Rightarrow> 64 word \<Rightarrow> trapframe \<Rightarrow> 'f psys \<Rightarrow> 'f psys" where
  "copy_thread fr p esp tf s =
     (let a = kstack (procs (kst s) p) + KSTACKSIZE - 288;
          t = tf\<lparr>tf_gpr := (tf_gpr tf)(reg_a0 := 0)\<rparr>;
          t' = t\<lparr>tf_gpr := (tf_gpr t)(reg_sp := (if esp = 0 then word_of_nat a else esp))\<rparr>
      in s\<lparr>tf_mem := (tf_mem s)(a := t'), proc_tf := (proc_tf s)(p := a),
           proc_ctx := (proc_ctx s)(p := (proc_ctx s p)\<lparr>ctx_ra := fr, ctx_sp := word_of_nat a\<rparr>)\<rparr>)"

section \<open>Open files of processes\<close>

definition files_count_inc :: "nat \<Rightarrow> 'f psys \<Rightarrow> 'f psys" where
  "files_count_inc fp s = s\<lparr>ftab := (ftab s)(fp := (ftab s fp)\<lparr>files_count := files_count (ftab s fp) + 1\<rparr>)\<rparr>"

definition files_count_dec :: "nat \<Rightarrow> 'f psys \<Rightarrow> int \<times> 'f psys" where
  "files_count_dec fp s =
     (let f = (ftab s fp)\<lparr>files_count := files_count (ftab s fp) - 1\<rparr> in (files_count f, s\<lparr>ftab := (ftab s)(fp := f)\<rparr>))"

definition copy_files :: "'f inode_ops \<Rightarrow> 32 word \<Rightarrow> nat \<Rightarrow> 'f psys \<Rightarrow> (int \<times> 'f psys) option" where
  "copy_files ops clone_flags p s = do {
     old \<leftarrow> proc_struct.filesp (procs (kst s) (current (kst s)));
     let good = (\<lambda>fp s. upd_kern (upd_proc p (proc_struct.filesp_update (\<lambda>_. Some fp))) (files_count_inc fp s));
     if clone_flags AND CLONE_FS \<noteq> 0 then Some (0, good old s)
     else (case files_pool s of
         [] \<Rightarrow> Some (- E_NO_MEM, s)
       | (fp, raw) # rest \<Rightarrow> do {
           f \<leftarrow> files_create (Some raw);
           (ret, t) \<leftarrow> dup_files (ftab s old) \<lparr>fstate.filesp = f, vfs = fvfs s\<rparr>;
           let s1 = s\<lparr>files_pool := rest, ftab := (ftab s)(fp := fstate.filesp t), fvfs := vfs t\<rparr>;
           if ret \<noteq> 0 then do {
             t2 \<leftarrow> files_destroy ops \<lparr>fstate.filesp = ftab s1 fp, vfs = fvfs s1\<rparr>;
             Some (ret, s1\<lparr>files_pool := (fp, fd_array (fstate.filesp t2)) # rest, fvfs := vfs t2\<rparr>) }
           else Some (0, good fp s1) }) }"

definition put_files :: "'f inode_ops \<Rightarrow> nat \<Rightarrow> 'f psys \<Rightarrow> 'f psys option" where
  "put_files ops p s = (case proc_struct.filesp (procs (kst s) p) of
     None \<Rightarrow> Some s
   | Some fp \<Rightarrow>
       let (n, s1) = files_count_dec fp s in
       if n = 0 then do {
         t \<leftarrow> files_destroy ops \<lparr>fstate.filesp = ftab s1 fp, vfs = fvfs s1\<rparr>;
         Some (s1\<lparr>files_pool := (fp, fd_array (fstate.filesp t)) # files_pool s1, fvfs := vfs t\<rparr>) }
       else Some s1)"

section \<open>Fork\<close>

text \<open>\<open>alloc_proc\<close> with the two fields that are kept outside the process table.\<close>

definition alloc_proc_all :: "'f psys \<Rightarrow> nat option \<times> 'f psys" where
  "alloc_proc_all s = (case proc_pool s of
     [] \<Rightarrow> (None, s)
   | p # ps \<Rightarrow> (Some p, upd_kern (\<lambda>k. snd (alloc_proc (Some p) (boot_pgdir s) k))
       (s\<lparr>proc_pool := ps, proc_tf := (proc_tf s)(p := 0),
          proc_ctx := (proc_ctx s)(p := \<lparr>ctx_ra = 0, ctx_sp = 0, ctx_s = (\<lambda>_. 0)\<rparr>)\<rparr>)))"

definition kfree_proc :: "nat \<Rightarrow> 'f psys \<Rightarrow> 'f psys" where
  "kfree_proc p s = s\<lparr>proc_pool := p # proc_pool s\<rparr>"

text \<open>\<open>do_fork\<close> after the kernel stack and the memory have been set up.\<close>

definition do_fork_enter :: "sched_class \<Rightarrow> 'f inode_ops \<Rightarrow> 64 word \<Rightarrow> 32 word \<Rightarrow> 64 word \<Rightarrow> trapframe \<Rightarrow> nat
    \<Rightarrow> 'f psys \<Rightarrow> (outcome \<times> 'f psys) option" where
  "do_fork_enter sc ops fr clone_flags stack tf p s = do {
     let s1 = copy_thread fr p stack tf s;
     k2 \<leftarrow> fork_number p (kst s1);
     (ret, s3) \<leftarrow> copy_files ops clone_flags p (upd_kern (\<lambda>_. k2) s1);
     if ret \<noteq> 0 then do {
       s4 \<leftarrow> put_files ops p s3;
       s5 \<leftarrow> put_kstack p s4;
       Some (Done ret, kfree_proc p s5) }
     else do {
       k4 \<leftarrow> fork_link sc p (kst s3);
       let s4 = upd_kern (\<lambda>_. k4) s3;
       Some (Done (pid (procs (kst s4) p)), s4) } }"

definition do_fork :: "sched_class \<Rightarrow> 'f inode_ops \<Rightarrow> 64 word \<Rightarrow> nat \<Rightarrow> 32 word \<Rightarrow> 64 word \<Rightarrow> trapframe
    \<Rightarrow> 'f psys \<Rightarrow> (outcome \<times> 'f psys) option" where
  "do_fork sc ops fr w clone_flags stack tf s =
     (if nr_process (kst s) \<ge> MAX_PROCESS then Some (Done (- E_NO_FREE_PROC), s)
      else case alloc_proc_all s of
        (None, s1) \<Rightarrow> Some (Done (- E_NO_MEM), s1)
      | (Some p, s1) \<Rightarrow> do {
          (ret, s2) \<leftarrow> setup_kstack p s1;
          if ret \<noteq> 0 then Some (Done ret, kfree_proc p s2)
          else do {
            (r, s3) \<leftarrow> copy_mm sc w clone_flags p s2;
            (case r of
               Asleep \<Rightarrow> Some (Asleep, s3)
             | Done ret \<Rightarrow>
                 if ret \<noteq> 0 then do {
                   s4 \<leftarrow> put_kstack p s3;
                   Some (Done ret, kfree_proc p s4) }
                 else do_fork_enter sc ops fr clone_flags stack tf p s3) } })"

text \<open>\<open>kernel_thread\<close>: \<open>fn\<close> and \<open>arg\<close> go to the registers \<open>s0\<close> and \<open>s1\<close>, \<open>ke\<close> is the address of
  \<open>kernel_thread_entry\<close>, and \<open>sst\<close> is what \<open>sstatus\<close> reads.\<close>

definition SSTATUS_SIE :: "64 word" where "SSTATUS_SIE = 2"
definition SSTATUS_SPIE :: "64 word" where "SSTATUS_SPIE = 0x20"
definition SSTATUS_SPP :: "64 word" where "SSTATUS_SPP = 0x100"

definition kernel_thread :: "sched_class \<Rightarrow> 'f inode_ops \<Rightarrow> 64 word \<Rightarrow> 64 word \<Rightarrow> 64 word \<Rightarrow> nat
    \<Rightarrow> 64 word \<Rightarrow> 64 word \<Rightarrow> 32 word \<Rightarrow> 'f psys \<Rightarrow> (outcome \<times> 'f psys) option" where
  "kernel_thread sc ops fr ke sst w fn arg clone_flags s =
     do_fork sc ops fr w (clone_flags OR CLONE_VM) 0
       \<lparr>tf_gpr = (\<lambda>_. 0)(reg_s0 := fn, reg_s1 := arg),
        tf_status = (sst OR SSTATUS_SPP OR SSTATUS_SPIE) AND NOT SSTATUS_SIE,
        tf_epc = ke, tf_tval = 0, tf_cause = 0\<rparr> s"

section \<open>Exit\<close>

text \<open>Giving up the memory descriptor, as \<open>do_exit\<close> and \<open>do_execve\<close> do.\<close>

definition drop_mm :: "nat \<Rightarrow> 'f psys \<Rightarrow> 'f psys option" where
  "drop_mm m s = do {
     let s1 = upd_kern (\<lambda>k. k\<lparr>satp := boot_pgdir s\<rparr>) s;
     let (n, s2) = mm_count_dec m s1;
     s3 \<leftarrow> (if n = 0 then do {
             v \<leftarrow> exit_mmap (Some m) (vm s2);
             s' \<leftarrow> put_pgdir m (s2\<lparr>vm := v\<rparr>);
             v' \<leftarrow> mm_destroy m (vm s');
             Some (s'\<lparr>vm := v'\<rparr>) }
           else Some s2);
     Some (upd_kern (\<lambda>k. upd_proc (current k) (mm_update (\<lambda>_. None)) k) s3) }"

definition do_exit :: "sched_class \<Rightarrow> 'f inode_ops \<Rightarrow> int \<Rightarrow> 'f psys \<Rightarrow> 'f psys option" where
  "do_exit sc ops error_code s = do {
     kassert (current (kst s) \<noteq> idleproc (kst s));
     kassert (current (kst s) \<noteq> initproc (kst s));
     s1 \<leftarrow> (case mm (procs (kst s) (current (kst s))) of
             None \<Rightarrow> Some s
           | Some m \<Rightarrow> do { s' \<leftarrow> drop_mm m s; put_files ops (current (kst s')) s' });
     k \<leftarrow> do_exit_tail sc error_code (kst s1);
     Some (upd_kern (\<lambda>_. k) s1) }"

section \<open>Wait\<close>

text \<open>The four bytes of an \<open>int\<close> in memory, lowest first.\<close>

definition store_int :: "nat \<Rightarrow> int \<Rightarrow> mem \<Rightarrow> mem" where
  "store_int a v m = (\<lambda>x. if a \<le> x \<and> x < a + 4 then word_of_int (v div 2 ^ (8 * (x - a))) else m x)"

text \<open>\<open>do_wait\<close> from the label \<open>found\<close> on; the null pointer is address 0.\<close>

definition do_wait_found :: "nat \<Rightarrow> nat \<Rightarrow> 'f psys \<Rightarrow> (outcome \<times> 'f psys) option" where
  "do_wait_found code_store p s = do {
     kassert (p \<noteq> idleproc (kst s) \<and> p \<noteq> initproc (kst s));
     let s1 = (if code_store \<noteq> 0
               then s\<lparr>vm := (vm s)\<lparr>vmem := store_int code_store (exit_code (procs (kst s) p)) (vmem (vm s))\<rparr>\<rparr> else s);
     k \<leftarrow> wait_unlink p (kst s1);
     s2 \<leftarrow> put_kstack p (upd_kern (\<lambda>_. k) s1);
     Some (Done 0, kfree_proc p s2) }"

definition do_wait_repeat :: "sched_class \<Rightarrow> int \<Rightarrow> nat \<Rightarrow> 'f psys \<Rightarrow> (outcome \<times> 'f psys) option" where
  "do_wait_repeat sc n code_store s = do {
     (haskid, r) \<leftarrow> wait_search n (kst s);
     (case r of
        Some p \<Rightarrow> do_wait_found code_store p s
      | None \<Rightarrow>
          if haskid then do { k \<leftarrow> wait_sleep sc (kst s); Some (Asleep, upd_kern (\<lambda>_. k) s) }
          else Some (Done (- E_BAD_PROC), s)) }"

definition do_wait :: "sched_class \<Rightarrow> int \<Rightarrow> nat \<Rightarrow> 'f psys \<Rightarrow> (outcome \<times> 'f psys) option" where
  "do_wait sc n code_store s =
     (if code_store \<noteq> 0
      then do {
        (ok, v) \<leftarrow> user_mem_check (mm (procs (kst s) (current (kst s)))) code_store 4 True (vm s);
        let s1 = s\<lparr>vm := v\<rparr>;
        if \<not> ok then Some (Done (- E_INVAL), s1) else do_wait_repeat sc n code_store s1 }
      else do_wait_repeat sc n code_store s)"

text \<open>What a sleeper in \<open>do_wait\<close> does when it runs again.\<close>

definition do_wait_resume :: "sched_class \<Rightarrow> 'f inode_ops \<Rightarrow> int \<Rightarrow> nat \<Rightarrow> 'f psys \<Rightarrow> (outcome \<times> 'f psys) option" where
  "do_wait_resume sc ops n code_store s =
     (if flags (procs (kst s) (current (kst s))) AND PF_EXITING \<noteq> 0
      then do { s1 \<leftarrow> do_exit sc ops (- E_KILLED) s; Some (Asleep, s1) }
      else do_wait_repeat sc n code_store s)"

section \<open>Simplification rules\<close>

lemma psys_simps [simp]:
  "kst (upd_kern f s) = f (kst s)" "vm (upd_kern f s) = vm s" "ftab (upd_kern f s) = ftab s"
  "fvfs (upd_kern f s) = fvfs s" "proc_pool (upd_kern f s) = proc_pool s" "files_pool (upd_kern f s) = files_pool s"
  "tf_mem (upd_kern f s) = tf_mem s" "proc_tf (upd_kern f s) = proc_tf s" "proc_ctx (upd_kern f s) = proc_ctx s"
  "boot_pgdir (upd_kern f s) = boot_pgdir s" "mm_sem (upd_kern f s) = mm_sem s"
  "sy (set_pt p s) = sy s" "pt (vm (set_pt p s)) = p" "ftab (set_pt p s) = ftab s" "mms (vm (set_pt p s)) = mms (vm s)"
  "fvfs (set_pt p s) = fvfs s" "proc_pool (set_pt p s) = proc_pool s" "files_pool (set_pt p s) = files_pool s"
  "tf_mem (set_pt p s) = tf_mem s" "proc_tf (set_pt p s) = proc_tf s" "proc_ctx (set_pt p s) = proc_ctx s"
  "boot_pgdir (set_pt p s) = boot_pgdir s"
  by (simp_all add: upd_kern_def set_pt_def)

lemma set_pt_same: "set_pt (pt (vm s)) s = s" "(pt (vm s))\<lparr>area := area (pt (vm s))\<rparr> = pt (vm s)"
  by (simp_all add: set_pt_def)

section \<open>Kernel stacks\<close>

text \<open>The frames the page manager may hand out lie in the kernel's part of memory.\<close>

definition frames_ok :: "'f psys \<Rightarrow> nat set \<Rightarrow> bool" where
  "frames_ok s G \<longleftrightarrow> frame_rel (area (pt (vm s))) G
     \<and> (\<forall>g \<in> G. 0x200 \<le> g \<and> page2ppn g < npage (pt (vm s)) \<and> page2ppn g < 0xC0000)"

lemma setup_kstack_ok:
  assumes "frames_ok s G"
  shows "(\<exists>g kva s'. setup_kstack p s = Some (0, s') \<and> {g, g + 1} \<subseteq> G \<and> frames_ok s' (G - {g, g + 1})
      \<and> page2kva g (pt (vm s)) = Some kva
      \<and> (\<exists>a. s' = upd_kern (upd_proc p (kstack_update (\<lambda>_. kva))) (set_pt ((pt (vm s))\<lparr>area := a\<rparr>) s)))
    \<or> setup_kstack p s = Some (- E_NO_MEM, s)"
proof -
  have f: "frame_rel (area (pt (vm s))) G" "\<And>g. g \<in> G \<Longrightarrow> 0x200 \<le> g \<and> page2ppn g < npage (pt (vm s)) \<and> page2ppn g < 0xC0000"
    using assms by (auto simp: frames_ok_def)
  have two: "{g..<g + 2} = {g, g + 1}" for g :: nat by auto
  from first_fit.rel_alloc[OF f(1), of 2] consider
    (got) g a where "default_alloc_pages 2 (area (pt (vm s))) = Some (Some g, a)" "{g, g + 1} \<subseteq> G" "frame_rel a (G - {g, g + 1})"
    | (none) "default_alloc_pages 2 (area (pt (vm s))) = Some (None, area (pt (vm s)))" unfolding two by auto
  then show ?thesis
  proof cases
    case got
    from kva_page[of g "pt (vm s)"] f(2)[of g] got(2) obtain kva where kva: "page2kva g (pt (vm s)) = Some kva" by auto
    let ?p = "(pt (vm s))\<lparr>area := a\<rparr>"
    let ?s = "upd_kern (upd_proc p (kstack_update (\<lambda>_. kva))) (set_pt ?p s)"
    have "page2kva g ?p = Some kva" using kva by (simp add: page2kva_def)
    then have "setup_kstack p s = Some (0, ?s)" using got(1) by (simp add: setup_kstack_def)
    moreover have "frames_ok ?s (G - {g, g + 1})" using got(3) f(2) by (auto simp: frames_ok_def)
    ultimately show ?thesis using got(2) kva by blast
  next
    case none
    then show ?thesis using set_pt_same[of s] by (simp add: setup_kstack_def)
  qed
qed

section \<open>Fork\<close>

lemma embryo_life:
  assumes l: "life_inv s P F" and e: "embryo k s P F p"
  shows "life_inv k P F"
proof -
  note D = life_D[OF l]
  have g: "current k = current s" "idleproc k = idleproc s" "initproc k = initproc s" "p \<notin> P" "rr_inv k P"
    "\<exists>ch ps. table_inv k P F ch ps" using e by (auto simp: embryo_def)
  have same: "procs k x = procs s x" if "x \<in> P" for x using e that g(4) by (auto simp: embryo_def)
  show ?thesis unfolding life_defs g(1-3) using g(5,6) l same[OF D(4)] same[OF D(5)] same[OF D(6)] same
    by (auto simp: life_defs wait_ok_def)
qed

text \<open>Whether the new process gets no memory of its own: the caller is a kernel thread, or it shares.\<close>

definition shares_mm :: "32 word \<Rightarrow> 'f psys \<Rightarrow> bool" where
  "shares_mm fl s \<longleftrightarrow> (case mm (procs (kst s) (current (kst s))) of
     None \<Rightarrow> True | Some m \<Rightarrow> fl AND CLONE_VM \<noteq> 0 \<and> mm_struct.pgdir (mms (vm s) m) \<noteq> None)"

definition mm_refs :: "nat option \<Rightarrow> 'f psys \<Rightarrow> int" where
  "mm_refs mo s = (case mo of None \<Rightarrow> 0 | Some m \<Rightarrow> mm_count (mms (vm s) m))"

lemma copy_mm_shares:
  assumes sh: "shares_mm fl s" and e: "embryo (kst s) k0 P F p" and c: "current (kst s) \<noteq> p" and m: "mm (procs (kst s) p) = None"
  shows "\<exists>s'. copy_mm sc w fl p s = Some (Done 0, s') \<and> embryo (kst s') k0 P F p
    \<and> mm (procs (kst s') p) = mm (procs (kst s) (current (kst s)))
    \<and> kstack (procs (kst s') p) = kstack (procs (kst s) p)
    \<and> mm_refs (mm (procs (kst s') p)) s' = mm_refs (mm (procs (kst s') p)) s
        + (if mm (procs (kst s') p) = None then 0 else 1)
    \<and> pt (vm s') = pt (vm s) \<and> ftab s' = ftab s \<and> fvfs s' = fvfs s
    \<and> proc_pool s' = proc_pool s \<and> files_pool s' = files_pool s"
proof (cases "mm (procs (kst s) (current (kst s)))")
  case None
  then show ?thesis using e m by (simp add: copy_mm_def mm_refs_def)
next
  case (Some m')
  with sh obtain pg where pg: "fl AND CLONE_VM \<noteq> 0" "mm_struct.pgdir (mms (vm s) m') = Some pg"
    by (auto simp: shares_mm_def)
  let ?f = "\<lambda>pr. proc_struct.pgdir_update (\<lambda>_. pg) (mm_update (\<lambda>_. Some m') pr)"
  have "embryo (upd_proc p ?f (kst s)) k0 P F p" using e by (rule embryo_upd) (simp add: proc_born_def)
  then show ?thesis using Some pg
    by (simp add: copy_mm_def share_mm_def mm_count_inc_def Let_def upd_mm_def mm_refs_def)
qed

lemma do_fork_enter_ok:
  assumes l: "life_inv k0 P F" and e: "embryo (kst s) k0 P F p" and nr: "nr_process k0 < MAX_PROCESS"
    and fs: "fl AND CLONE_FS \<noteq> 0" "proc_struct.filesp (procs k0 (current k0)) = Some fp"
  shows "\<exists>s' n. do_fork_enter default_sched_class ops fr fl stack tf p s = Some (Done n, s')
    \<and> life_inv (kst s') (insert p P) (F(current k0 := p # F (current k0), p := []))
    \<and> state (procs (kst s') p) = PROC_RUNNABLE \<and> pid (procs (kst s') p) = n \<and> 1 \<le> n \<and> n < MAX_PID
    \<and> (\<forall>x \<in> P - {idleproc k0}. pid (procs k0 x) \<noteq> n)
    \<and> kstack (procs (kst s') p) = kstack (procs (kst s) p) \<and> mm (procs (kst s') p) = mm (procs (kst s) p)
    \<and> proc_struct.filesp (procs (kst s') p) = Some fp
    \<and> files_count (ftab s' fp) = files_count (ftab s fp) + 1 \<and> vm s' = vm s
    \<and> tf_gpr (tf_mem s' (proc_tf s' p)) reg_a0 = 0 \<and> ctx_ra (proc_ctx s' p) = fr
    \<and> tf_gpr (tf_mem s' (proc_tf s' p)) reg_sp = (if stack = 0 then word_of_nat (proc_tf s' p) else stack)
    \<and> proc_tf s' p = kstack (procs (kst s) p) + KSTACKSIZE - 288"
proof -
  define s1 where "s1 = copy_thread fr p stack tf s"
  have s1: "kst s1 = kst s" "vm s1 = vm s" "ftab s1 = ftab s" by (simp_all add: s1_def copy_thread_def Let_def)
  from fork_number_embryo[OF l e] nr obtain k2 where k2: "fork_number p (kst s) = Some k2" "numbered k2 k0 P F p"
    "kstack (procs k2 p) = kstack (procs (kst s) p)" "mm (procs k2 p) = mm (procs (kst s) p)" by auto
  have c: "current k2 = current k0" "current k0 \<noteq> p" "p \<notin> P"
    using k2(2) life_D(5)[OF l] by (auto simp: numbered_def embryo_def)
  have old: "proc_struct.filesp (procs k2 (current k2)) = Some fp"
    using k2(2) c(1,2) fs(2) by (simp add: numbered_def embryo_def)
  define s3 where "s3 = upd_kern (upd_proc p (proc_struct.filesp_update (\<lambda>_. Some fp))) (files_count_inc fp (upd_kern (\<lambda>_. k2) s1))"
  have cf: "copy_files ops fl p (upd_kern (\<lambda>_. k2) s1) = Some (0, s3)"
    using old fs(1) by (simp add: copy_files_def s3_def)
  have kf: "kst (files_count_inc x t) = kst t" "vm (files_count_inc x t) = vm t" for x t by (simp_all add: files_count_inc_def)
  have k3: "kst s3 = upd_proc p (proc_struct.filesp_update (\<lambda>_. Some fp)) k2" by (simp add: s3_def kf)
  have n3: "numbered (kst s3) k0 P F p" unfolding k3 using k2(2) by (rule numbered_upd) (simp_all add: proc_born_def)
  from fork_link_life[OF l n3] obtain k4 where k4: "fork_link default_sched_class p (kst s3) = Some k4"
    "life_inv k4 (insert p P) (F(current k0 := p # F (current k0), p := []))" "state (procs k4 p) = PROC_RUNNABLE"
    "\<forall>x. pid (procs k4 x) = pid (procs (kst s3) x)" "kstack (procs k4 p) = kstack (procs (kst s3) p)"
    "mm (procs k4 p) = mm (procs (kst s3) p)" "proc_struct.filesp (procs k4 p) = proc_struct.filesp (procs (kst s3) p)" by blast
  have same: "procs (kst s3) x = procs k0 x" if "x \<in> P" for x
    using n3 that c(3) by (auto simp: numbered_def embryo_def)
  have pid: "1 \<le> pid (procs k4 p)" "pid (procs k4 p) < MAX_PID" "\<forall>x \<in> P - {idleproc k0}. pid (procs k0 x) \<noteq> pid (procs k4 p)"
    using n3 k4(4) same by (auto simp: numbered_def)
  have "do_fork_enter default_sched_class ops fr fl stack tf p s = Some (Done (pid (procs k4 p)), upd_kern (\<lambda>_. k4) s3)"
    unfolding do_fork_enter_def s1_def[symmetric] Let_def s1(1) k2(1) using cf k4(1) by simp
  moreover have "files_count (ftab s3 fp) = files_count (ftab s fp) + 1" "vm s3 = vm s"
    by (simp_all add: s3_def kf s1) (simp add: files_count_inc_def s1)
  moreover have "tf_mem s3 = tf_mem s1" "proc_tf s3 = proc_tf s1" "proc_ctx s3 = proc_ctx s1"
    by (simp_all add: s3_def files_count_inc_def)
  moreover have "tf_gpr (tf_mem s1 (proc_tf s1 p)) reg_a0 = 0" "ctx_ra (proc_ctx s1 p) = fr"
    "proc_tf s1 p = kstack (procs (kst s) p) + KSTACKSIZE - 288"
    "tf_gpr (tf_mem s1 (proc_tf s1 p)) reg_sp = (if stack = 0 then word_of_nat (proc_tf s1 p) else stack)"
    by (simp_all add: s1_def copy_thread_def Let_def)
  ultimately show ?thesis using k4 pid k2(3,4) by (auto simp: k3)
qed


lemma alloc_proc_all_ok:
  assumes l: "life_inv (kst s) P F" and pool: "proc_pool s = p # ps" and p: "p \<notin> P"
  shows "\<exists>s1. alloc_proc_all s = (Some p, s1) \<and> embryo (kst s1) (kst s) P F p \<and> mm (procs (kst s1) p) = None
    \<and> vm s1 = vm s \<and> ftab s1 = ftab s \<and> proc_pool s1 = ps \<and> current (kst s1) = current (kst s)
    \<and> (\<forall>x. x \<noteq> p \<longrightarrow> procs (kst s1) x = procs (kst s) x)"
proof -
  define s1 where "s1 = snd (alloc_proc_all s)"
  from alloc_embryo[OF l p, of "boot_pgdir s"] obtain k where
    k: "alloc_proc (Some p) (boot_pgdir s) (kst s) = (Some p, k)" "embryo k (kst s) P F p" by blast
  have f: "kst s1 = k" "vm s1 = vm s" "ftab s1 = ftab s" "proc_pool s1 = ps" "alloc_proc_all s = (Some p, s1)"
    using k(1) pool by (simp_all add: s1_def alloc_proc_all_def upd_kern_def)
  have "mm (procs k p) = None" using k(1) by (auto simp: alloc_proc_def Let_def)
  with f k(2) show ?thesis by (simp add: embryo_def)
qed

text \<open>C12. A process that forks, sharing its open files and with its memory shared or absent, meets
  one of three fates.  At the limit of processes it gets \<open>E_NO_FREE_PROC\<close> and nothing changes.
  Without two adjacent free frames it gets \<open>E_NO_MEM\<close>: the process table stays correct, and
  memory and files are as before.  Otherwise the call returns the number of the child, which no
  process bears and lies in the range of numbers; the child is runnable and the first of its
  parent's children; the process table, the relations and the run queue are correct with it;
  exactly the two frames of its kernel stack left the free ones; the counts of the shared memory
  and files rose by one; and the child will start in \<open>forkret\<close> with a copy of the trap frame that
  reports 0, on the stack that was asked for.\<close>

theorem do_fork_shares:
  assumes l: "life_inv (kst s) P F" and pool: "proc_pool s = p # ps" and p: "p \<notin> P" and fr: "frames_ok s G"
    and sh: "shares_mm fl s" and fs: "fl AND CLONE_FS \<noteq> 0"
      "proc_struct.filesp (procs (kst s) (current (kst s))) = Some fp"
  defines "c \<equiv> current (kst s)"
  shows "(nr_process (kst s) \<ge> MAX_PROCESS
       \<and> do_fork default_sched_class ops ret w fl stack tf s = Some (Done (- E_NO_FREE_PROC), s))
    \<or> (\<exists>s'. do_fork default_sched_class ops ret w fl stack tf s = Some (Done (- E_NO_MEM), s')
       \<and> life_inv (kst s') P F \<and> vm s' = vm s \<and> ftab s' = ftab s \<and> proc_pool s' = proc_pool s)
    \<or> (\<exists>s' n g kva. do_fork default_sched_class ops ret w fl stack tf s = Some (Done n, s')
       \<and> life_inv (kst s') (insert p P) (F(c := p # F c, p := []))
       \<and> state (procs (kst s') p) = PROC_RUNNABLE \<and> pid (procs (kst s') p) = n \<and> 1 \<le> n \<and> n < MAX_PID
       \<and> (\<forall>x \<in> P - {idleproc (kst s)}. pid (procs (kst s) x) \<noteq> n)
       \<and> {g, g + 1} \<subseteq> G \<and> frames_ok s' (G - {g, g + 1})
       \<and> kstack (procs (kst s') p) = kva \<and> page2kva g (pt (vm s)) = Some kva
       \<and> mm (procs (kst s') p) = mm (procs (kst s) c)
       \<and> mm_refs (mm (procs (kst s) c)) s' = mm_refs (mm (procs (kst s) c)) s
           + (if mm (procs (kst s) c) = None then 0 else 1)
       \<and> proc_struct.filesp (procs (kst s') p) = Some fp
       \<and> files_count (ftab s' fp) = files_count (ftab s fp) + 1
       \<and> tf_gpr (tf_mem s' (proc_tf s' p)) 10 = 0 \<and> ctx_ra (proc_ctx s' p) = ret
       \<and> tf_gpr (tf_mem s' (proc_tf s' p)) 2 = (if stack = 0 then word_of_nat (proc_tf s' p) else stack))"
proof (cases "nr_process (kst s) \<ge> MAX_PROCESS")
  case True
  then show ?thesis by (simp add: do_fork_def)
next
  case False
  have cp: "c \<noteq> p" using life_D(5)[OF l] p by (auto simp: c_def)
  from alloc_proc_all_ok[OF l pool p] obtain s1 where
    s1: "alloc_proc_all s = (Some p, s1)" "embryo (kst s1) (kst s) P F p" "mm (procs (kst s1) p) = None"
      "vm s1 = vm s" "ftab s1 = ftab s" "proc_pool s1 = ps" "current (kst s1) = c"
      "\<forall>x. x \<noteq> p \<longrightarrow> procs (kst s1) x = procs (kst s) x" unfolding c_def by blast
  have fr1: "frames_ok s1 G" using fr s1(4) by (simp add: frames_ok_def)
  from setup_kstack_ok[OF fr1, of p] show ?thesis
  proof (elim disjE exE conjE)
    assume no: "setup_kstack p s1 = Some (- E_NO_MEM, s1)"
    have "life_inv (kst s1) P F" using l s1(2) by (rule embryo_life)
    then show ?thesis using False no s1(1,4-6) pool by (simp add: do_fork_def kfree_proc_def)
  next
    fix g kva s2 a
    assume s2: "setup_kstack p s1 = Some (0, s2)" and g: "{g, g + 1} \<subseteq> G" "frames_ok s2 (G - {g, g + 1})"
      "page2kva g (pt (vm s1)) = Some kva"
      and e2: "s2 = upd_kern (upd_proc p (kstack_update (\<lambda>_. kva))) (set_pt ((pt (vm s1))\<lparr>area := a\<rparr>) s1)"
    have k2: "kst s2 = upd_proc p (kstack_update (\<lambda>_. kva)) (kst s1)" "mms (vm s2) = mms (vm s)" "ftab s2 = ftab s"
      unfolding e2 using s1(4,5) by simp_all
    have em2: "embryo (kst s2) (kst s) P F p" unfolding k2(1) using s1(2) by (rule embryo_upd) (simp add: proc_born_def)
    have cur: "current (kst s2) = c" "procs (kst s2) c = procs (kst s) c" "mm (procs (kst s2) p) = None"
      using s1(3,7,8) cp by (simp_all add: k2)
    have sh2: "shares_mm fl s2" using sh cur(1,2) k2(2) by (simp add: shares_mm_def c_def split: option.splits)
    have st2: "kstack (procs (kst s2) p) = kva" "current (kst s2) \<noteq> p" using cur(1) cp by (simp_all add: k2)
    from copy_mm_shares[OF sh2 em2 st2(2) cur(3), of default_sched_class w] obtain s3 where
      s3: "copy_mm default_sched_class w fl p s2 = Some (Done 0, s3)" "embryo (kst s3) (kst s) P F p"
        "mm (procs (kst s3) p) = mm (procs (kst s) c)" "kstack (procs (kst s3) p) = kva"
        "mm_refs (mm (procs (kst s3) p)) s3 = mm_refs (mm (procs (kst s3) p)) s2
          + (if mm (procs (kst s3) p) = None then 0 else 1)" "pt (vm s3) = pt (vm s2)" "ftab s3 = ftab s"
      unfolding st2(1) cur(1,2) k2(3) by blast
    have refs: "mm_refs mo s2 = mm_refs mo s" for mo using k2(2) by (simp add: mm_refs_def split: option.split)
    from do_fork_enter_ok[OF l s3(2) _ fs, of ops ret stack tf] False obtain s4 n where
      s4: "do_fork_enter default_sched_class ops ret fl stack tf p s3 = Some (Done n, s4)"
        "life_inv (kst s4) (insert p P) (F(c := p # F c, p := []))"
        "state (procs (kst s4) p) = PROC_RUNNABLE" "pid (procs (kst s4) p) = n" "1 \<le> n" "n < MAX_PID"
        "\<forall>x \<in> P - {idleproc (kst s)}. pid (procs (kst s) x) \<noteq> n"
        "kstack (procs (kst s4) p) = kva" "mm (procs (kst s4) p) = mm (procs (kst s) c)"
        "proc_struct.filesp (procs (kst s4) p) = Some fp"
        "files_count (ftab s4 fp) = files_count (ftab s fp) + 1" "vm s4 = vm s3"
        "tf_gpr (tf_mem s4 (proc_tf s4 p)) 10 = 0" "ctx_ra (proc_ctx s4 p) = ret"
        "tf_gpr (tf_mem s4 (proc_tf s4 p)) 2 = (if stack = 0 then word_of_nat (proc_tf s4 p) else stack)"
      unfolding s3(3,4,7) c_def[symmetric] by auto
    have "do_fork default_sched_class ops ret w fl stack tf s = Some (Done n, s4)"
      using False s1(1) s2 s3(1) s4(1) by (simp add: do_fork_def)
    moreover have "frames_ok s4 (G - {g, g + 1})" using g(2) s3(6) s4(12) by (simp add: frames_ok_def)
    moreover have "mm_refs (mm (procs (kst s) c)) s4 = mm_refs (mm (procs (kst s) c)) s
      + (if mm (procs (kst s) c) = None then 0 else 1)"
      using s3(5) s4(12) unfolding s3(3) refs by (simp add: mm_refs_def split: option.splits)
    ultimately show ?thesis using g(1,3) s1(4) s4(2-11,13-15) by (intro disjI2 exI conjI) simp_all
  qed
qed


section \<open>Wait\<close>

text \<open>The kernel stack of a process: two allocated frames that the page manager takes back.\<close>

definition stack_at :: "'f psys \<Rightarrow> nat set \<Rightarrow> nat \<Rightarrow> nat \<Rightarrow> bool" where
  "stack_at s G p g \<longleftrightarrow> page2kva g (pt (vm s)) = Some (kstack (procs (kst s) p)) \<and> {g, g + 1} \<inter> G = {}
     \<and> (\<forall>x \<in> {g, g + 1}. 0x200 \<le> x \<and> page2ppn x < npage (pt (vm s)) \<and> page2ppn x < 0xC0000)
     \<and> default_releasable (area (pt (vm s))) g 2"

lemma put_kstack_ok:
  assumes f: "frames_ok s G" and g: "stack_at s G p g"
  shows "\<exists>a. put_kstack p s = Some (set_pt ((pt (vm s))\<lparr>area := a\<rparr>) s) \<and> frames_ok (set_pt ((pt (vm s))\<lparr>area := a\<rparr>) s) (G \<union> {g, g + 1})"
proof -
  have two: "{g..<g + 2} = {g, g + 1}" by auto
  from first_fit.rel_free[of "area (pt (vm s))" G 2 g] f g obtain a where
    a: "default_free_pages g 2 (area (pt (vm s))) = Some a" "frame_rel a (G \<union> {g, g + 1})"
    unfolding two by (auto simp: frames_ok_def stack_at_def)
  from kva_page[of g "pt (vm s)"] g have "kva2page (kstack (procs (kst s) p)) (pt (vm s)) = Some g"
    by (auto simp: stack_at_def)
  moreover have "frames_ok (set_pt ((pt (vm s))\<lparr>area := a\<rparr>) s) (G \<union> {g, g + 1})"
    using a(2) f g by (auto simp: frames_ok_def stack_at_def)
  ultimately show ?thesis using a(1) by (auto simp: put_kstack_def)
qed

lemma do_wait_found_ok:
  assumes l: "life_inv (kst s) P F" and p: "p \<in> set (F (current (kst s)))" "zombie (kst s) p"
    and f: "frames_ok s G" and g: "stack_at s G p g"
  shows "\<exists>s'. do_wait_found 0 p s = Some (Done 0, s')
    \<and> life_inv (kst s') (P - {p}) (F(current (kst s) := remove1 p (F (current (kst s)))))
    \<and> frames_ok s' (G \<union> {g, g + 1}) \<and> proc_pool s' = p # proc_pool s \<and> mms (vm s') = mms (vm s) \<and> ftab s' = ftab s"
proof -
  from life_reap[OF l p] obtain k where k: "wait_unlink p (kst s) = Some k"
    "life_inv k (P - {p}) (F(current (kst s) := remove1 p (F (current (kst s)))))"
    "p \<noteq> idleproc (kst s)" "p \<noteq> initproc (kst s)" "kstack (procs k p) = kstack (procs (kst s) p)" by blast
  have "stack_at (upd_kern (\<lambda>_. k) s) G p g" "frames_ok (upd_kern (\<lambda>_. k) s) G"
    using f g k(5) by (simp_all add: stack_at_def frames_ok_def)
  from put_kstack_ok[OF this(2,1)] obtain a where
    a: "put_kstack p (upd_kern (\<lambda>_. k) s) = Some (set_pt ((pt (vm s))\<lparr>area := a\<rparr>) (upd_kern (\<lambda>_. k) s))"
      "frames_ok (set_pt ((pt (vm s))\<lparr>area := a\<rparr>) (upd_kern (\<lambda>_. k) s)) (G \<union> {g, g + 1})" by auto
  then show ?thesis using k by (simp add: do_wait_found_def kfree_proc_def frames_ok_def)
qed


section \<open>Killing \<open>initproc\<close>\<close>

text \<open>C31. Nothing protects \<open>initproc\<close> from being killed: while it waits for its children in \<open>do_wait\<close>, a
  \<open>do_kill\<close> of its number succeeds, marks it and makes it runnable; when it then runs, in whatever
  state the rest of the kernel is, \<open>do_wait\<close> calls \<open>do_exit\<close>, which does not return because the caller
  is \<open>initproc\<close>: the kernel panics.\<close>

theorem kill_init_panics:
  assumes l: "life_inv k P F" and i: "initproc k \<in> P" "initproc k \<noteq> idleproc k" "pid (procs k (initproc k)) = n"
    "flags (procs k (initproc k)) AND PF_EXITING = 0" "wait_state (procs k (initproc k)) = WT_CHILD"
  shows "\<exists>k'. do_kill default_sched_class n k = Some (0, k') \<and> life_inv k' P F
    \<and> state (procs k' (initproc k)) = PROC_RUNNABLE
    \<and> (\<forall>s. current (kst s) = initproc (kst s) \<and> flags (procs (kst s) (initproc (kst s))) = flags (procs k' (initproc k))
        \<longrightarrow> do_wait_resume sc ops m code_store s = None)"
proof -
  have w: "WT_CHILD AND WT_INTERRUPTED \<noteq> 0" by code_simp
  have e: "(x OR PF_EXITING) AND PF_EXITING \<noteq> 0" for x :: "32 word"
    by (simp add: PF_EXITING_def and.commute[of _ 1] bit.conj_disj_distrib2)
  from life_kill(2)[OF l i(1-4)] obtain k' where k': "do_kill default_sched_class n k = Some (0, k')" "life_inv k' P F"
    "flags (procs k' (initproc k)) = flags (procs k (initproc k)) OR PF_EXITING" "state (procs k' (initproc k)) = PROC_RUNNABLE"
    using w i(5) by auto
  moreover have "do_wait_resume sc ops m code_store s = None"
    if "current (kst s) = initproc (kst s)" "flags (procs (kst s) (initproc (kst s))) = flags (procs k' (initproc k))" for s
    using that k'(3) e by (simp add: do_wait_resume_def do_exit_def kassert_def)
  ultimately show ?thesis by blast
qed


section \<open>An example\<close>

text \<open>A kernel with the table \<open>k\<close> and the free frames of \<open>a\<close>.\<close>

definition psys_of :: "free_area \<Rightarrow> kstate \<Rightarrow> dev_state psys" where
  "psys_of a k = \<lparr>sy = (sync_two 1)\<lparr>kern := k\<rparr>, vm = one_area\<lparr>pt := \<lparr>area = a, pmem = (\<lambda>_ _. 0), npage = 0x90000\<rparr>\<rparr>,
     ftab = (\<lambda>_. fstate.filesp console_state), fvfs = vfs console_state, proc_pool = [2, 3, 4], files_pool = [],
     tf_mem = (\<lambda>_. \<lparr>tf_gpr = (\<lambda>_. 0), tf_status = 0, tf_epc = 0, tf_tval = 0, tf_cause = 0\<rparr>), proc_tf = (\<lambda>_. 0),
     proc_ctx = (\<lambda>_. \<lparr>ctx_ra = 0, ctx_sp = 0, ctx_s = (\<lambda>_. 0)\<rparr>), mm_sem = (\<lambda>m. m), locked_by = (\<lambda>_. 0), boot_pgdir = 0\<rparr>"

definition plain_tf :: trapframe where
  "plain_tf = \<lparr>tf_gpr = (\<lambda>_. 0), tf_status = 0, tf_epc = 0x800000, tf_tval = 0, tf_cause = 0\<rparr>"

lemma psys_of_simps [simp]: "kst (psys_of a k) = k" "pt (vm (psys_of a k)) = \<lparr>area = a, pmem = (\<lambda>_ _. 0), npage = 0x90000\<rparr>"
  "proc_pool (psys_of a k) = [2, 3, 4]" "files_count (ftab (psys_of a k) fp) = 1"
  by (simp_all add: psys_of_def console_state_def)

lemma psys_frames: "0x200 \<le> g \<Longrightarrow> g < 0x1000 \<Longrightarrow> frames_ok (psys_of (area8 g) k) {g..<g + 8}"
  using area8_rel by (auto simp: frames_ok_def page2ppn_def)

text \<open>The idle process forks a kernel thread.\<close>

theorem do_fork_shares_witness:
  "\<exists>s' n. do_fork default_sched_class dev_node_ops 0x1000 0 (CLONE_VM OR CLONE_FS) 0 plain_tf (psys_of (area8 0x200) first_two)
      = Some (Done n, s') \<and> (n = - E_NO_MEM \<or> life_inv (kst s') {0, 1, 2} ((\<lambda>_. [])(0 := [2, 1], 2 := [])))"
proof -
  have e: "current first_two = 0" "proc_struct.filesp (procs first_two 0) = Some 0" "mm (procs first_two 0) = None"
    "\<not> nr_process first_two \<ge> MAX_PROCESS" "(CLONE_VM OR CLONE_FS) AND CLONE_FS \<noteq> 0"
    by code_simp+
  have l: "life_inv (kst (psys_of (area8 0x200) first_two)) {0, 1} (kids_of first_fam)"
    using first_two_ok by (simp add: first_fam_def)
  have "frames_ok (psys_of (area8 0x200) first_two) {0x200..<0x208}" using psys_frames[of "0x200"] by simp
  moreover have "shares_mm (CLONE_VM OR CLONE_FS) (psys_of (area8 0x200) first_two)" by (simp add: shares_mm_def e)
  ultimately show ?thesis
    using do_fork_shares[OF l psys_of_simps(3), of "{0x200..<0x208}" "CLONE_VM OR CLONE_FS" 0 dev_node_ops "0x1000" 0 0 plain_tf] e
    by (auto simp: first_fam_def insert_commute)
qed

lemma life_kstack:
  assumes l: "life_inv k P F"
  shows "life_inv (upd_proc p (kstack_update f) k) P F"
proof -
  have t: "table_inv (upd_proc p (kstack_update f) k) P F ch ps" if "table_inv k P F ch ps" for ch ps
    by (rule table_cong[OF _ _ _ _ _ _ _ that]) simp_all
  have r: "rr_inv (upd_proc p (kstack_update f) k) P" using life_D(2)[OF l]
    by (rule rr_sched.sched_inv_same) (simp_all add: same_queue_def)
  have "life_core k P F" using l by (simp add: life_inv_def)
  then have "life_core (upd_proc p (kstack_update f) k) P F"
    using t r by (rule life_core_mono) (use l in \<open>auto simp: life_defs wait_ok_def split: if_splits\<close>)
  then show ?thesis using l by (auto simp: life_inv_def)
qed

text \<open>Process 2 waits for process 3, which has exited and whose kernel stack lies in the frames below the
  free ones.\<close>

definition mourning :: "dev_state psys" where
  "mourning = psys_of (area8 0x202) (upd_proc 3 (kstack_update (\<lambda>_. 0xFFFFFFFFC0200000)) (fst bereaved))"


theorem kill_init_panics_witness:
  "\<exists>k'. do_kill default_sched_class 1 first_two = Some (0, k')
     \<and> (\<forall>s. current (kst s) = initproc (kst s) \<and> flags (procs (kst s) (initproc (kst s))) = flags (procs k' 1)
        \<longrightarrow> do_wait_resume default_sched_class dev_node_ops 0 0 s = None)"
proof -
  have e: "initproc first_two = 1" "idleproc first_two = 0" "pid (procs first_two 1) = 1"
    "flags (procs first_two 1) AND PF_EXITING = 0" "wait_state (procs first_two 1) = WT_CHILD"
    by code_simp+
  have l: "life_inv first_two {0, 1} (kids_of first_fam)" using first_two_ok by (simp add: first_fam_def)
  show ?thesis using kill_init_panics[OF l, of 1 default_sched_class dev_node_ops 0 0] e by auto
qed

end
