(* ===== verification/Sfs.thy ===== *)
theory Sfs
  imports Devices Bitmap Linked_List
begin

unbundle bit_operations_syntax

text \<open>
  The simple file system: blocks and files.  \<open>kern/fs/sfs/sfs_io.c\<close> (blocks through the device),
  \<open>sfs_lock.c\<close>, and of \<open>sfs_inode.c\<close> the allocation of blocks, the block map of a file with its direct and
  indirect entries, reading, writing and resizing.

  One file system is mounted; its state stands beside that of the devices.  Structures that the
  code reads from a block or writes to one (\<open>struct sfs_disk_inode\<close>, entries of an indirect block) are
  records and numbers here, with their layout in \<open>decode\<close> and \<open>encode\<close> functions: \<open>sfs_rbuf\<close> yields the bytes
  that the code copies to its argument \<open>buf\<close>, \<open>sfs_wbuf\<close> takes the bytes at \<open>buf\<close> (no caller passes a part of
  the kernel's own block buffers).  File data stays in memory.
  A lock is a flag: the functions run one after the other, and taking a lock twice never returns.
\<close>

section \<open>State\<close>

record sfs_super =
  magic :: nat
  sblocks :: nat
  unused_blocks :: nat
  sinfo :: "8 word list"

record sfs_disk_inode =
  dsize :: nat
  dtype :: nat
  nlinks :: nat
  dblocks :: nat
  direct :: "nat list"
  indirect :: nat

record sfs_inode =
  din :: sfs_disk_inode
  ino :: nat
  dirty :: bool
  reclaim_count :: int
  sin_locked :: bool

datatype sfs_link = InodeHead | HashHead nat | InodeLink nat | SinLink nat

text \<open>\<open>sins\<close> is \<open>vop_info(node, sfs_inode)\<close>: none if the inode is not one of this file system.  \<open>inode_pool\<close>
  are the inodes that \<open>alloc_inode\<close> will return, \<open>kmems\<close> what the next calls of \<open>kmalloc\<close> will return; at
  the end of each list memory is exhausted.\<close>

record sfs_data =
  sdev :: dev_state
  super :: sfs_super
  fs_dev :: device
  freemap :: bitmap
  freemap_addr :: nat
  super_dirty :: bool
  sfs_buffer :: nat
  fs_locked :: bool
  io_locked :: bool
  sins :: "nat \<Rightarrow> sfs_inode option"
  ilinks :: "sfs_link links"
  inode_pool :: "nat list"
  kmems :: "nat option list"

type_synonym sstate = "sfs_data vfs_state"

abbreviation (input) SFS_BLKSIZE :: nat where "SFS_BLKSIZE \<equiv> 4096"
abbreviation (input) SFS_NDIRECT :: nat where "SFS_NDIRECT \<equiv> 12"
abbreviation (input) SFS_BLK_NENTRY :: nat where "SFS_BLK_NENTRY \<equiv> 1024"
abbreviation (input) SFS_MAX_FILE_SIZE :: nat where "SFS_MAX_FILE_SIZE \<equiv> 0x8000000"
abbreviation (input) SFS_TYPE_FILE :: nat where "SFS_TYPE_FILE \<equiv> 1"
abbreviation (input) SFS_TYPE_DIR :: nat where "SFS_TYPE_DIR \<equiv> 2"
abbreviation (input) SFS_TYPE_LINK :: nat where "SFS_TYPE_LINK \<equiv> 3"
abbreviation (input) SFS_BLKN_SUPER :: nat where "SFS_BLKN_SUPER \<equiv> 0"
abbreviation (input) SFS_BLKN_ROOT :: nat where "SFS_BLKN_ROOT \<equiv> 1"
abbreviation (input) SFS_BLKN_FREEMAP :: nat where "SFS_BLKN_FREEMAP \<equiv> 2"

definition upd_sfs :: "(sfs_data \<Rightarrow> sfs_data) \<Rightarrow> sstate \<Rightarrow> sstate" where
  "upd_sfs f s = s\<lparr>fsdata := f (fsdata s)\<rparr>"

definition upd_sin :: "nat \<Rightarrow> (sfs_inode \<Rightarrow> sfs_inode) \<Rightarrow> sstate \<Rightarrow> sstate" where
  "upd_sin n f s = upd_sfs (\<lambda>d. d\<lparr>sins := (sins d)(n := map_option f (sins d n))\<rparr>) s"

abbreviation sin_of :: "nat \<Rightarrow> sstate \<Rightarrow> sfs_inode option" where "sin_of n s \<equiv> sins (fsdata s) n"

text \<open>Bytes stored at an address, and numbers in little-endian order.\<close>

definition put :: "nat \<Rightarrow> 8 word list \<Rightarrow> mem \<Rightarrow> mem" where
  "put a xs m = (\<lambda>x. if a \<le> x \<and> x < a + length xs then xs ! (x - a) else m x)"

fun le_nat :: "8 word list \<Rightarrow> nat" where
  "le_nat [] = 0"
| "le_nat (b # bs) = unat b + 256 * le_nat bs"

fun le_bytes :: "nat \<Rightarrow> nat \<Rightarrow> 8 word list" where
  "le_bytes 0 v = []"
| "le_bytes (Suc k) v = word_of_nat (v mod 256) # le_bytes k (v div 256)"

definition field :: "8 word list \<Rightarrow> nat \<Rightarrow> nat \<Rightarrow> nat" where
  "field bs off len = le_nat (take len (drop off bs))"

definition decode_din :: "8 word list \<Rightarrow> sfs_disk_inode" where
  "decode_din bs = \<lparr>dsize = field bs 0 4, dtype = field bs 4 2, nlinks = field bs 6 2, dblocks = field bs 8 4,
     direct = map (\<lambda>i. field bs (12 + 4 * i) 4) [0..<SFS_NDIRECT], indirect = field bs 60 4\<rparr>"

definition encode_din :: "sfs_disk_inode \<Rightarrow> 8 word list" where
  "encode_din d = le_bytes 4 (dsize d) @ le_bytes 2 (dtype d) @ le_bytes 2 (nlinks d) @ le_bytes 4 (dblocks d)
     @ concat (map (le_bytes 4) (direct d)) @ le_bytes 4 (indirect d)"

definition encode_super :: "sfs_super \<Rightarrow> 8 word list" where
  "encode_super u = le_bytes 4 (magic u) @ le_bytes 4 (sblocks u) @ le_bytes 4 (unused_blocks u) @ sinfo u"

definition decode_super :: "8 word list \<Rightarrow> sfs_super" where
  "decode_super bs = \<lparr>magic = field bs 0 4, sblocks = field bs 4 4, unused_blocks = field bs 8 4,
     sinfo = take 32 (drop 12 bs)\<rparr>"

section \<open>Locks\<close>

definition lock_sfs_fs :: "sstate \<Rightarrow> sstate option" where
  "lock_sfs_fs s = do { kassert (\<not> fs_locked (fsdata s)); Some (upd_sfs (fs_locked_update (\<lambda>_. True)) s) }"

definition unlock_sfs_fs :: "sstate \<Rightarrow> sstate" where
  "unlock_sfs_fs s = upd_sfs (fs_locked_update (\<lambda>_. False)) s"

definition lock_sfs_io :: "sstate \<Rightarrow> sstate option" where
  "lock_sfs_io s = do { kassert (\<not> io_locked (fsdata s)); Some (upd_sfs (io_locked_update (\<lambda>_. True)) s) }"

definition unlock_sfs_io :: "sstate \<Rightarrow> sstate" where
  "unlock_sfs_io s = upd_sfs (io_locked_update (\<lambda>_. False)) s"

definition lock_sin :: "nat \<Rightarrow> sstate \<Rightarrow> sstate option" where
  "lock_sin n s = do {
     i \<leftarrow> sin_of n s;
     kassert (\<not> sin_locked i);
     Some (upd_sin n (sin_locked_update (\<lambda>_. True)) s) }"

definition unlock_sin :: "nat \<Rightarrow> sstate \<Rightarrow> sstate" where
  "unlock_sin n s = upd_sin n (sin_locked_update (\<lambda>_. False)) s"

section \<open>Blocks\<close>

text \<open>\<open>dop_io(sfs->dev, iob, write)\<close>.\<close>

definition sfs_dop_io :: "iobuf \<Rightarrow> bool \<Rightarrow> sstate \<Rightarrow> (int \<times> sstate) option" where
  "sfs_dop_io iob wr s = do {
     (ret, _, d) \<leftarrow> dop_io (fs_dev (fsdata s)) iob wr \<lparr>inodes = inodes s, fsdata = sdev (fsdata s), vmemory = vmemory s\<rparr>;
     Some (ret, \<lparr>inodes = inodes d, fsdata = (fsdata s)\<lparr>sdev := fsdata d\<rparr>, vmemory = vmemory d\<rparr>) }"

definition sfs_rwblock_nolock :: "nat \<Rightarrow> nat \<Rightarrow> bool \<Rightarrow> bool \<Rightarrow> sstate \<Rightarrow> (int \<times> sstate) option" where
  "sfs_rwblock_nolock buf blkno wr check s = do {
     kassert ((blkno \<noteq> 0 \<or> \<not> check) \<and> blkno < sblocks (super (fsdata s)));
     sfs_dop_io (iobuf_init buf SFS_BLKSIZE (int (blkno * SFS_BLKSIZE mod 2 ^ 32))) wr s }"

fun sfs_rwblock_loop :: "nat \<Rightarrow> nat \<Rightarrow> nat \<Rightarrow> bool \<Rightarrow> sstate \<Rightarrow> (int \<times> sstate) option" where
  "sfs_rwblock_loop 0 buf blkno wr s = Some (0, s)"
| "sfs_rwblock_loop (Suc nblks) buf blkno wr s = do {
     (ret, s1) \<leftarrow> sfs_rwblock_nolock buf blkno wr True s;
     if ret \<noteq> 0 then Some (ret, s1) else sfs_rwblock_loop nblks (buf + SFS_BLKSIZE) (blkno + 1) wr s1 }"

definition sfs_rwblock :: "nat \<Rightarrow> nat \<Rightarrow> nat \<Rightarrow> bool \<Rightarrow> sstate \<Rightarrow> (int \<times> sstate) option" where
  "sfs_rwblock buf blkno nblks wr s = do {
     s1 \<leftarrow> lock_sfs_io s;
     (ret, s2) \<leftarrow> sfs_rwblock_loop nblks buf blkno wr s1;
     Some (ret, unlock_sfs_io s2) }"

definition sfs_rblock :: "nat \<Rightarrow> nat \<Rightarrow> nat \<Rightarrow> sstate \<Rightarrow> (int \<times> sstate) option" where
  "sfs_rblock buf blkno nblks s = sfs_rwblock buf blkno nblks False s"

definition sfs_wblock :: "nat \<Rightarrow> nat \<Rightarrow> nat \<Rightarrow> sstate \<Rightarrow> (int \<times> sstate) option" where
  "sfs_wblock buf blkno nblks s = sfs_rwblock buf blkno nblks True s"

definition sfs_rbuf :: "nat \<Rightarrow> nat \<Rightarrow> nat \<Rightarrow> sstate \<Rightarrow> (int \<times> 8 word list \<times> sstate) option" where
  "sfs_rbuf len blkno offset s = do {
     kassert (offset < SFS_BLKSIZE \<and> offset + len \<le> SFS_BLKSIZE);
     s1 \<leftarrow> lock_sfs_io s;
     (ret, s2) \<leftarrow> sfs_rwblock_nolock (sfs_buffer (fsdata s1)) blkno False True s1;
     let data = (if ret = 0 then bytes (vmemory s2) (sfs_buffer (fsdata s2) + offset) len else []);
     Some (ret, data, unlock_sfs_io s2) }"

definition sfs_wbuf :: "8 word list \<Rightarrow> nat \<Rightarrow> nat \<Rightarrow> sstate \<Rightarrow> (int \<times> sstate) option" where
  "sfs_wbuf data blkno offset s = do {
     kassert (offset < SFS_BLKSIZE \<and> offset + length data \<le> SFS_BLKSIZE);
     s1 \<leftarrow> lock_sfs_io s;
     (ret, s2) \<leftarrow> sfs_rwblock_nolock (sfs_buffer (fsdata s1)) blkno False True s1;
     (ret, s3) \<leftarrow>
       (if ret = 0
        then let s2' = s2\<lparr>vmemory := put (sfs_buffer (fsdata s2) + offset) data (vmemory s2)\<rparr>
             in sfs_rwblock_nolock (sfs_buffer (fsdata s2)) blkno True True s2'
        else Some (ret, s2));
     Some (ret, unlock_sfs_io s3) }"

definition sfs_sync_super :: "sstate \<Rightarrow> (int \<times> sstate) option" where
  "sfs_sync_super s = do {
     s1 \<leftarrow> lock_sfs_io s;
     let b = sfs_buffer (fsdata s1);
     let s2 = s1\<lparr>vmemory := put b (encode_super (super (fsdata s1))) (snd (memset b 0 SFS_BLKSIZE (vmemory s1)))\<rparr>;
     (ret, s3) \<leftarrow> sfs_rwblock_nolock b SFS_BLKN_SUPER True False s2;
     Some (ret, unlock_sfs_io s3) }"

text \<open>The words of the bitmap are an array in memory at \<open>freemap_addr\<close>.\<close>

definition sfs_sync_freemap :: "sstate \<Rightarrow> (int \<times> sstate) option" where
  "sfs_sync_freemap s =
     (let d = fsdata s;
          nblks = (sblocks (super d) + SFS_BLKSIZE * 8 - 1) div (SFS_BLKSIZE * 8);
          data = concat (map (\<lambda>w. le_bytes 4 (unat w)) (fst (bitmap_getdata (freemap d))))
      in sfs_wblock (freemap_addr d) SFS_BLKN_FREEMAP nblks (s\<lparr>vmemory := put (freemap_addr d) data (vmemory s)\<rparr>))"

fun sfs_clear_loop :: "nat \<Rightarrow> nat \<Rightarrow> sstate \<Rightarrow> (int \<times> sstate) option" where
  "sfs_clear_loop 0 blkno s = Some (0, s)"
| "sfs_clear_loop (Suc nblks) blkno s = do {
     (ret, s1) \<leftarrow> sfs_rwblock_nolock (sfs_buffer (fsdata s)) blkno True True s;
     if ret \<noteq> 0 then Some (ret, s1) else sfs_clear_loop nblks (blkno + 1) s1 }"

definition sfs_clear_block :: "nat \<Rightarrow> nat \<Rightarrow> sstate \<Rightarrow> (int \<times> sstate) option" where
  "sfs_clear_block blkno nblks s = do {
     s1 \<leftarrow> lock_sfs_io s;
     let s2 = s1\<lparr>vmemory := snd (memset (sfs_buffer (fsdata s1)) 0 SFS_BLKSIZE (vmemory s1))\<rparr>;
     (ret, s3) \<leftarrow> sfs_clear_loop nblks blkno s2;
     Some (ret, unlock_sfs_io s3) }"

section \<open>Allocation of blocks\<close>

definition sfs_block_inuse :: "nat \<Rightarrow> sstate \<Rightarrow> bool option" where
  "sfs_block_inuse b s =
     (if b \<noteq> 0 \<and> b < sblocks (super (fsdata s)) then map_option Not (bitmap_test (freemap (fsdata s)) b) else None)"

definition sfs_block_alloc :: "sstate \<Rightarrow> (int \<times> nat \<times> sstate) option" where
  "sfs_block_alloc s = do {
     (ret, b, bm) \<leftarrow> bitmap_alloc (freemap (fsdata s));
     if ret \<noteq> 0 then Some (ret, 0, s)
     else do {
       kassert (unused_blocks (super (fsdata s)) > 0);
       let s1 = upd_sfs (\<lambda>d. d\<lparr>freemap := bm, super := (super d)\<lparr>unused_blocks := unused_blocks (super d) - 1\<rparr>,
                  super_dirty := True\<rparr>) s;
       u \<leftarrow> sfs_block_inuse b s1;
       kassert u;
       (ret, s2) \<leftarrow> sfs_clear_block b 1 s1;
       Some (ret, b, s2) } }"

definition sfs_block_free :: "nat \<Rightarrow> sstate \<Rightarrow> sstate option" where
  "sfs_block_free b s = do {
     u \<leftarrow> sfs_block_inuse b s;
     kassert u;
     bm \<leftarrow> bitmap_free (freemap (fsdata s)) b;
     Some (upd_sfs (\<lambda>d. d\<lparr>freemap := bm, super := (super d)\<lparr>unused_blocks := unused_blocks (super d) + 1\<rparr>,
             super_dirty := True\<rparr>) s) }"

section \<open>The block map of a file\<close>

text \<open>\<open>ent\<close> is the value of \<open>*entp\<close>; the results are the code, the new value of \<open>*entp\<close> and the block.\<close>

definition bmap_new_sub :: "nat \<Rightarrow> nat \<Rightarrow> nat \<Rightarrow> sstate \<Rightarrow> (int \<times> nat \<times> nat \<times> sstate) option" where
  "bmap_new_sub ent0 ent index s = do {
     (ret, b, s1) \<leftarrow> sfs_block_alloc s;
     (ret, s2) \<leftarrow>
       (if ret \<noteq> 0 then Some (ret, s1)
        else do {
          (ret, s2) \<leftarrow> sfs_wbuf (le_bytes 4 b) ent (index * 4) s1;
          if ret \<noteq> 0 then do { s3 \<leftarrow> sfs_block_free b s2; Some (ret, s3) } else Some (0, s2) });
     if ret \<noteq> 0
     then do { s3 \<leftarrow> (if ent \<noteq> ent0 then sfs_block_free ent s2 else Some s2); Some (ret, ent0, 0, s3) }
     else Some (0, ent, b, s2) }"

definition sfs_bmap_get_sub_nolock :: "nat \<Rightarrow> nat \<Rightarrow> bool \<Rightarrow> sstate \<Rightarrow> (int \<times> nat \<times> nat \<times> sstate) option" where
  "sfs_bmap_get_sub_nolock ent0 index create s = do {
     kassert (index < SFS_BLK_NENTRY);
     if ent0 \<noteq> 0
     then do {
       (ret, data, s1) \<leftarrow> sfs_rbuf 4 ent0 (index * 4) s;
       if ret \<noteq> 0 then Some (ret, ent0, 0, s1)
       else if le_nat data \<noteq> 0 \<or> \<not> create then Some (0, ent0, le_nat data, s1)
       else bmap_new_sub ent0 ent0 index s1 }
     else if \<not> create then Some (0, ent0, 0, s)
     else do {
       (ret, ent, s1) \<leftarrow> sfs_block_alloc s;
       if ret \<noteq> 0 then Some (ret, ent0, 0, s1) else bmap_new_sub ent0 ent index s1 } }"

definition bmap_check :: "nat \<Rightarrow> sstate \<Rightarrow> (int \<times> nat \<times> sstate) option" where
  "bmap_check b s =
     (if b = 0 then Some (0, b, s) else do { u \<leftarrow> sfs_block_inuse b s; kassert u; Some (0, b, s) })"

definition sfs_bmap_get_nolock :: "nat \<Rightarrow> nat \<Rightarrow> bool \<Rightarrow> sstate \<Rightarrow> (int \<times> nat \<times> sstate) option" where
  "sfs_bmap_get_nolock n index create s = do {
     i \<leftarrow> sin_of n s;
     if index < SFS_NDIRECT
     then let b = direct (din i) ! index in
       if b = 0 \<and> create
       then do {
         (ret, b, s1) \<leftarrow> sfs_block_alloc s;
         if ret \<noteq> 0 then Some (ret, 0, s1)
         else bmap_check b (upd_sin n (\<lambda>i. i\<lparr>din := (din i)\<lparr>direct := (direct (din i))[index := b]\<rparr>, dirty := True\<rparr>) s1) }
       else bmap_check b s
     else do {
       kassert (index - SFS_NDIRECT < SFS_BLK_NENTRY);
       (ret, ent, b, s1) \<leftarrow> sfs_bmap_get_sub_nolock (indirect (din i)) (index - SFS_NDIRECT) create s;
       if ret \<noteq> 0 then Some (ret, 0, s1)
       else do {
         s2 \<leftarrow> (if ent \<noteq> indirect (din i)
               then do {
                 kassert (indirect (din i) = 0);
                 Some (upd_sin n (\<lambda>i. i\<lparr>din := (din i)\<lparr>indirect := ent\<rparr>, dirty := True\<rparr>) s1) }
               else Some s1);
         bmap_check b s2 } } }"

definition sfs_bmap_free_sub_nolock :: "nat \<Rightarrow> nat \<Rightarrow> sstate \<Rightarrow> (int \<times> sstate) option" where
  "sfs_bmap_free_sub_nolock ent index s = do {
     u \<leftarrow> sfs_block_inuse ent s;
     kassert (u \<and> index < SFS_BLK_NENTRY);
     (ret, data, s1) \<leftarrow> sfs_rbuf 4 ent (index * 4) s;
     if ret \<noteq> 0 then Some (ret, s1)
     else if le_nat data \<noteq> 0
     then do {
       (ret, s2) \<leftarrow> sfs_wbuf (le_bytes 4 0) ent (index * 4) s1;
       if ret \<noteq> 0 then Some (ret, s2)
       else do { s3 \<leftarrow> sfs_block_free (le_nat data) s2; Some (0, s3) } }
     else Some (0, s1) }"

definition sfs_bmap_free_nolock :: "nat \<Rightarrow> nat \<Rightarrow> sstate \<Rightarrow> (int \<times> sstate) option" where
  "sfs_bmap_free_nolock n index s = do {
     i \<leftarrow> sin_of n s;
     if index < SFS_NDIRECT
     then let b = direct (din i) ! index in
       if b \<noteq> 0
       then do {
         s1 \<leftarrow> sfs_block_free b s;
         Some (0, upd_sin n (\<lambda>i. i\<lparr>din := (din i)\<lparr>direct := (direct (din i))[index := 0]\<rparr>, dirty := True\<rparr>) s1) }
       else Some (0, s)
     else if index - SFS_NDIRECT < SFS_BLK_NENTRY \<and> indirect (din i) \<noteq> 0
     then sfs_bmap_free_sub_nolock (indirect (din i)) (index - SFS_NDIRECT) s
     else Some (0, s) }"

definition sfs_bmap_load_nolock :: "nat \<Rightarrow> nat \<Rightarrow> sstate \<Rightarrow> (int \<times> nat \<times> sstate) option" where
  "sfs_bmap_load_nolock n index s = do {
     i \<leftarrow> sin_of n s;
     kassert (index \<le> dblocks (din i));
     let create = (index = dblocks (din i));
     (ret, b, s1) \<leftarrow> sfs_bmap_get_nolock n index create s;
     if ret \<noteq> 0 then Some (ret, 0, s1)
     else do {
       u \<leftarrow> sfs_block_inuse b s1;
       kassert u;
       let s2 = (if create then upd_sin n (\<lambda>i. i\<lparr>din := (din i)\<lparr>dblocks := dblocks (din i) + 1\<rparr>\<rparr>) s1 else s1);
       Some (0, b, s2) } }"

definition sfs_bmap_truncate_nolock :: "nat \<Rightarrow> sstate \<Rightarrow> (int \<times> sstate) option" where
  "sfs_bmap_truncate_nolock n s = do {
     i \<leftarrow> sin_of n s;
     kassert (dblocks (din i) \<noteq> 0);
     (ret, s1) \<leftarrow> sfs_bmap_free_nolock n (dblocks (din i) - 1) s;
     if ret \<noteq> 0 then Some (ret, s1)
     else Some (0, upd_sin n (\<lambda>i. i\<lparr>din := (din i)\<lparr>dblocks := dblocks (din i) - 1\<rparr>, dirty := True\<rparr>) s1) }"

section \<open>Reading and writing\<close>

text \<open>\<open>sfs_buf_op\<close> and \<open>sfs_block_op\<close> for file data at \<open>bufp\<close>.\<close>

definition sfs_buf_op :: "bool \<Rightarrow> nat \<Rightarrow> nat \<Rightarrow> nat \<Rightarrow> nat \<Rightarrow> sstate \<Rightarrow> (int \<times> sstate) option" where
  "sfs_buf_op wr bufp len b offset s =
     (if wr then sfs_wbuf (bytes (vmemory s) bufp len) b offset s
      else do {
        (ret, data, s1) \<leftarrow> sfs_rbuf len b offset s;
        Some (ret, if ret = 0 then s1\<lparr>vmemory := put bufp data (vmemory s1)\<rparr> else s1) })"

definition sfs_block_op :: "bool \<Rightarrow> nat \<Rightarrow> nat \<Rightarrow> sstate \<Rightarrow> (int \<times> sstate) option" where
  "sfs_block_op wr bufp b s = (if wr then sfs_wblock bufp b 1 s else sfs_rblock bufp b 1 s)"

text \<open>The three parts of \<open>sfs_io_nolock\<close>: the rest of a first block, whole blocks, the beginning of a last
  block.  A part yields the code and the number of bytes it moved.\<close>

definition sfs_io_part :: "bool \<Rightarrow> nat \<Rightarrow> nat \<Rightarrow> nat \<Rightarrow> nat \<Rightarrow> nat \<Rightarrow> sstate \<Rightarrow> (int \<times> nat \<times> sstate) option" where
  "sfs_io_part wr n bufp len blkno blkoff s = do {
     (ret, b, s1) \<leftarrow> sfs_bmap_load_nolock n blkno s;
     if ret \<noteq> 0 then Some (ret, 0, s1)
     else do {
       (ret, s2) \<leftarrow> sfs_buf_op wr bufp len b blkoff s1;
       if ret \<noteq> 0 then Some (ret, 0, s2) else Some (0, len, s2) } }"

fun sfs_io_blocks :: "bool \<Rightarrow> nat \<Rightarrow> nat \<Rightarrow> nat \<Rightarrow> nat \<Rightarrow> sstate \<Rightarrow> (int \<times> nat \<times> sstate) option" where
  "sfs_io_blocks wr n bufp blkno 0 s = Some (0, 0, s)"
| "sfs_io_blocks wr n bufp blkno (Suc nblks) s = do {
     (ret, b, s1) \<leftarrow> sfs_bmap_load_nolock n blkno s;
     if ret \<noteq> 0 then Some (ret, 0, s1)
     else do {
       (ret, s2) \<leftarrow> sfs_block_op wr bufp b s1;
       if ret \<noteq> 0 then Some (ret, 0, s2)
       else do {
         (ret, alen, s3) \<leftarrow> sfs_io_blocks wr n (bufp + SFS_BLKSIZE) (blkno + 1) nblks s2;
         Some (ret, SFS_BLKSIZE + alen, s3) } } }"

text \<open>The code after the label \<open>out\<close>.\<close>

definition sfs_io_out :: "nat \<Rightarrow> nat \<Rightarrow> nat \<Rightarrow> int \<Rightarrow> sstate \<Rightarrow> (int \<times> nat \<times> sstate) option" where
  "sfs_io_out n offset alen ret s = do {
     i \<leftarrow> sin_of n s;
     Some (ret, alen,
       if offset + alen > dsize (din i)
       then upd_sin n (\<lambda>i. i\<lparr>din := (din i)\<lparr>dsize := offset + alen\<rparr>, dirty := True\<rparr>) s else s) }"

text \<open>The transfer from \<open>offset\<close> to \<open>endpos\<close>; note that \<open>offset\<close> moves on with the first part only.\<close>

definition sfs_io_range :: "bool \<Rightarrow> nat \<Rightarrow> nat \<Rightarrow> nat \<Rightarrow> nat \<Rightarrow> sstate \<Rightarrow> (int \<times> nat \<times> sstate) option" where
  "sfs_io_range wr n buf offset endpos s =
     (let blkno = offset div SFS_BLKSIZE;
          nblks = endpos div SFS_BLKSIZE - blkno;
          blkoff = offset mod SFS_BLKSIZE;
          len = (if nblks \<noteq> 0 then SFS_BLKSIZE - blkoff else endpos - offset)
      in do {
        (ret, alen, s1) \<leftarrow> (if blkoff \<noteq> 0 then sfs_io_part wr n buf len blkno blkoff s else Some (0, 0, s));
        if ret \<noteq> 0 then sfs_io_out n offset alen ret s1
        else do {
          let offset1 = offset + alen;
          let blkno1 = (if blkoff \<noteq> 0 then blkno + 1 else blkno);
          let nblks1 = (if blkoff \<noteq> 0 \<and> nblks > 0 then nblks - 1 else nblks);
          (ret, moved, s2) \<leftarrow> sfs_io_blocks wr n (buf + alen) blkno1 nblks1 s1;
          let alen1 = alen + moved;
          if ret \<noteq> 0 then sfs_io_out n offset1 alen1 ret s2
          else do {
            let rest = endpos mod SFS_BLKSIZE;
            (ret, moved, s3) \<leftarrow>
              (if offset1 < endpos \<and> rest \<noteq> 0 then sfs_io_part wr n (buf + alen1) rest (blkno1 + nblks1) 0 s2
               else Some (0, 0, s2));
            sfs_io_out n offset1 (alen1 + moved) ret s3 } } })"

text \<open>A 64-bit sum, read as a signed number.\<close>

definition wrap64 :: "int \<Rightarrow> int" where
  "wrap64 x = (x + 2 ^ 63) mod 2 ^ 64 - 2 ^ 63"

definition sfs_io_nolock :: "nat \<Rightarrow> nat \<Rightarrow> int \<Rightarrow> nat \<Rightarrow> bool \<Rightarrow> sstate \<Rightarrow> (int \<times> nat \<times> sstate) option" where
  "sfs_io_nolock n buf offset alen wr s = do {
     i \<leftarrow> sin_of n s;
     kassert (dtype (din i) \<noteq> SFS_TYPE_DIR);
     let endpos = wrap64 (offset + int alen);
     if offset < 0 \<or> offset \<ge> int SFS_MAX_FILE_SIZE \<or> offset > endpos then Some (- E_INVAL, 0, s)
     else if offset = endpos then Some (0, 0, s)
     else let endpos = (if endpos > int SFS_MAX_FILE_SIZE then int SFS_MAX_FILE_SIZE else endpos) in
       if \<not> wr \<and> offset \<ge> int (dsize (din i)) then Some (0, 0, s)
       else let endpos = (if \<not> wr \<and> endpos > int (dsize (din i)) then int (dsize (din i)) else endpos)
            in sfs_io_range wr n buf (nat offset) (nat endpos) s }"

definition sfs_io :: "nat \<Rightarrow> iobuf \<Rightarrow> bool \<Rightarrow> sstate \<Rightarrow> (int \<times> iobuf \<times> sstate) option" where
  "sfs_io n iob wr s = do {
     s1 \<leftarrow> lock_sin n s;
     (ret, alen, s2) \<leftarrow> sfs_io_nolock n (io_base iob) (io_offset iob) (io_resid iob) wr s1;
     iob1 \<leftarrow> (if alen \<noteq> 0 then iobuf_skip iob alen else Some iob);
     Some (ret, iob1, unlock_sin n s2) }"

definition sfs_read :: "nat \<Rightarrow> iobuf \<Rightarrow> sstate \<Rightarrow> (int \<times> iobuf \<times> sstate) option" where
  "sfs_read n iob s = sfs_io n iob False s"

definition sfs_write :: "nat \<Rightarrow> iobuf \<Rightarrow> sstate \<Rightarrow> (int \<times> iobuf \<times> sstate) option" where
  "sfs_write n iob s = sfs_io n iob True s"

section \<open>Resizing\<close>

fun sfs_grow_loop :: "nat \<Rightarrow> nat \<Rightarrow> nat \<Rightarrow> sstate \<Rightarrow> (int \<times> sstate) option" where
  "sfs_grow_loop n 0 nblks s = Some (0, s)"
| "sfs_grow_loop n (Suc k) nblks s = do {
     (ret, _, s1) \<leftarrow> sfs_bmap_load_nolock n nblks s;
     if ret \<noteq> 0 then Some (ret, s1) else sfs_grow_loop n k (nblks + 1) s1 }"

fun sfs_shrink_loop :: "nat \<Rightarrow> nat \<Rightarrow> sstate \<Rightarrow> (int \<times> sstate) option" where
  "sfs_shrink_loop n 0 s = Some (0, s)"
| "sfs_shrink_loop n (Suc k) s = do {
     (ret, s1) \<leftarrow> sfs_bmap_truncate_nolock n s;
     if ret \<noteq> 0 then Some (ret, s1) else sfs_shrink_loop n k s1 }"

definition sfs_truncfile :: "nat \<Rightarrow> int \<Rightarrow> sstate \<Rightarrow> (int \<times> sstate) option" where
  "sfs_truncfile n len s =
     (if len < 0 \<or> len > int SFS_MAX_FILE_SIZE then Some (- E_INVAL, s)
      else do {
        i \<leftarrow> sin_of n s;
        let tblks = (nat len + SFS_BLKSIZE - 1) div SFS_BLKSIZE;
        if dsize (din i) = nat len then do { kassert (tblks = dblocks (din i)); Some (0, s) }
        else do {
          s1 \<leftarrow> lock_sin n s;
          let nblks = dblocks (din i);
          (ret, s2) \<leftarrow>
            (if nblks < tblks then sfs_grow_loop n (tblks - nblks) nblks s1
             else if tblks < nblks then sfs_shrink_loop n (nblks - tblks) s1
             else Some (0, s1));
          if ret \<noteq> 0 then Some (ret, unlock_sin n s2)
          else do {
            i2 \<leftarrow> sin_of n s2;
            kassert (dblocks (din i2) = tblks);
            Some (0, unlock_sin n (upd_sin n (\<lambda>i. i\<lparr>din := (din i)\<lparr>dsize := nat len\<rparr>, dirty := True\<rparr>) s2)) } } })"

definition sfs_tryseek :: "nat \<Rightarrow> int \<Rightarrow> sstate \<Rightarrow> (int \<times> sstate) option" where
  "sfs_tryseek n pos s =
     (if pos < 0 \<or> pos \<ge> int SFS_MAX_FILE_SIZE then Some (- E_INVAL, s)
      else do {
        i \<leftarrow> sin_of n s;
        if pos > int (dsize (din i)) then vop n (sfs_truncfile n pos) s else Some (0, s) })"

end
