(* ===== verification/Sfs_Blocks.thy ===== *)
theory Sfs_Blocks
  imports Sfs
begin

text \<open>
  What the block layer of the simple file system does to the disk.  The state is seen as three
  things: the contents of the blocks in use, the memory outside the disk and the two buffers, and
  the rest of the state without memory.  Each routine is an equation for each of the three.
\<close>

section \<open>Memory\<close>

lemma bytes_nth [simp]: "i < n \<Longrightarrow> bytes m a n ! i = m (a + i)"
  by (simp add: bytes_def)

lemma bytes_put [simp]: "bytes (put a xs m) a (length xs) = xs"
  by (rule nth_equalityI) (simp_all add: put_def)

lemma bytes_put_len: "length xs = n \<Longrightarrow> bytes (put a xs m) a n = xs"
  using bytes_put[of a xs m] by simp

lemma bytes_put_other: "a + n \<le> b \<or> b + length xs \<le> a \<Longrightarrow> bytes (put b xs m) a n = bytes m a n"
  by (rule bytes_cong) (auto simp: put_def)

lemma put_same [simp]: "length xs = length ys \<Longrightarrow> put a xs (put a ys m) = put a xs m"
  by (simp add: put_def fun_eq_iff)

lemma memmove_put: "snd (memmove d s n m) = put d (bytes m s n) m"
  by (auto simp: put_def memmove_at fun_eq_iff)

lemma memcpy_put: "d + n \<le> s \<or> s + n \<le> d \<Longrightarrow> snd (memcpy d s n m) = put d (bytes m s n) m"
  by (auto simp: put_def memcpy_def copy_up_at fun_eq_iff)

lemma memset_put: "snd (memset a c n m) = put a (replicate n c) m"
  by (auto simp: put_def memset_def memset_at fun_eq_iff)

lemma take_drop_bytes: "off + len \<le> n \<Longrightarrow> take len (drop off (bytes m a n)) = bytes m (a + off) len"
  by (rule nth_equalityI) (simp_all add: add.assoc)

section \<open>One block of the disk\<close>

definition disk_fits :: "device \<Rightarrow> dev_state \<Rightarrow> bool" where
  "disk_fits dev d \<longleftrightarrow> d_kind dev = Disk0 \<and> d_blocks dev * DISK0_BLK_NSECT \<le> ide_size d \<and> ide_size d \<le> 0x10000000
     \<and> (ide_base d + ide_size d * SECTSIZE \<le> disk0_buffer d \<or> disk0_buffer d + DISK0_BUFSIZE \<le> ide_base d)"

lemma disk0_secs:
  assumes "disk_fits dev d" "b < d_blocks dev"
  shows "ide_check (b * 8 mod 2 ^ 32) (1 * 8 mod 2 ^ 32) = Some ()" "ramdisk_nsecs (b * 8 mod 2 ^ 32) (1 * 8 mod 2 ^ 32) d = 8"
    "b * 8 mod 2 ^ 32 = b * 8"
proof -
  have b: "b * 8 + 8 \<le> ide_size d" "ide_size d \<le> 0x10000000" using assms by (auto simp: disk_fits_def)
  then show m: "b * 8 mod 2 ^ 32 = b * 8" by simp
  show "ide_check (b * 8 mod 2 ^ 32) (1 * 8 mod 2 ^ 32) = Some ()" unfolding m using b by (simp add: ide_check_def)
  have "ide_size d + 2 ^ 64 - b * 8 = (ide_size d - b * 8) + 2 ^ 64" using b by simp
  moreover have "((ide_size d - b * 8) + 2 ^ 64) mod 2 ^ 64 = ide_size d - b * 8" unfolding mod_add_self2 using b by simp
  ultimately show "ramdisk_nsecs (b * 8 mod 2 ^ 32) (1 * 8 mod 2 ^ 32) d = 8" unfolding m ramdisk_nsecs_def using b by simp
qed

lemma disk0_apart:
  assumes "disk_fits dev d" "b < d_blocks dev"
  shows "ide_base d + b * 4096 + 4096 \<le> disk0_buffer d \<or> disk0_buffer d + 4096 \<le> ide_base d + b * 4096"
proof -
  have "b * 8 + 8 \<le> ide_size d" using assms by (auto simp: disk_fits_def)
  then have "b * 4096 + 4096 \<le> ide_size d * 512" by linarith
  then show ?thesis using assms(1) by (auto simp: disk_fits_def)
qed

lemma disk0_block:
  fixes s :: dstate
  assumes f: "disk_fits dev (fsdata s)" and b: "b < d_blocks dev"
  shows "\<exists>iob. dop_io dev (iobuf_init buf 4096 (int (b * 4096))) wr s = Some (0, iob,
    if wr then s\<lparr>vmemory := put (ide_base (fsdata s) + b * 4096) (bytes (vmemory s) buf 4096)
        (put (disk0_buffer (fsdata s)) (bytes (vmemory s) buf 4096) (vmemory s))\<rparr>
    else s\<lparr>vmemory := put buf (bytes (vmemory s) (ide_base (fsdata s) + b * 4096) 4096)
        (put (disk0_buffer (fsdata s)) (bytes (vmemory s) (ide_base (fsdata s) + b * 4096) 4096) (vmemory s))\<rparr>)"
proof -
  let ?d = "fsdata s" and ?m = "vmemory s"
  let ?a = "ide_base ?d + b * 4096" and ?q = "disk0_buffer ?d"
  have k: "d_kind dev = Disk0" "b * 8 + 8 \<le> ide_size ?d" "ide_size ?d \<le> 0x10000000" using f b by (auto simp: disk_fits_def)
  note sec = disk0_secs[OF f b] and ap = disk0_apart[OF f b]
  have bl: "b * 4096 mod 4096 = 0" "int (b * 4096) div 4096 mod 2 ^ 32 = int b" "(b + 1) mod 2 ^ 32 = b + 1" "d_blocks dev < 2 ^ 32"
  proof -
    have "int (b * 4096) div 4096 = int b" by simp
    moreover have "b < 0x10000000" using k by simp
    ultimately show "int (b * 4096) div 4096 mod 2 ^ 32 = int b" "(b + 1) mod 2 ^ 32 = b + 1" by simp_all
    show "d_blocks dev < 2 ^ 32" using f by (auto simp: disk_fits_def)
  qed simp
  let ?iob = "iobuf_init buf 4096 (int (b * 4096))"
  let ?s' = "if wr then s\<lparr>vmemory := put ?a (bytes ?m buf 4096) (put ?q (bytes ?m buf 4096) ?m)\<rparr>
    else s\<lparr>vmemory := put buf (bytes ?m ?a 4096) (put ?q (bytes ?m ?a 4096) ?m)\<rparr>"
  obtain iob1 where step: "disk0_step ?iob 4096 b wr s = Some (4096, iob1, ?s')"
  proof (cases wr)
    case True
    have "bytes (put ?q (bytes ?m buf 4096) ?m) ?q 4096 = bytes ?m buf 4096" by (rule bytes_put_len) simp
    then show ?thesis using that True sec ap
      by (simp add: disk0_step_def iobuf_move_eq iobuf_init_def Let_def disk0_write_blks_nolock_def ide_write_secs_def ramdisk_write_def
          memmove_put memcpy_put mult.assoc)
  next
    case False
    have "bytes (put ?q (bytes ?m ?a 4096) ?m) ?q 4096 = bytes ?m ?a 4096" by (rule bytes_put_len) simp
    then show ?thesis using that False sec ap
      by (auto simp: disk0_step_def iobuf_move_eq iobuf_init_def Let_def disk0_read_blks_nolock_def ide_read_secs_def ramdisk_read_def
          memmove_put memcpy_put mult.assoc)
  qed
  then have "disk0_loop ?iob 4096 b wr s = Some (iob1, ?s')"
    by (subst disk0_loop.simps) (simp add: disk0_loop.simps[of _ 0])
  then show ?thesis using k(1) bl b by (simp add: dop_io_def disk0_io_def Let_def iobuf_init_def)
qed


section \<open>The view of the state\<close>

definition nblk :: "sstate \<Rightarrow> nat" where "nblk s = sblocks (super (fsdata s))"
definition blk_addr :: "sstate \<Rightarrow> nat \<Rightarrow> nat" where "blk_addr s b = ide_base (sdev (fsdata s)) + b * SFS_BLKSIZE"
definition free_blks :: "sstate \<Rightarrow> nat set" where "free_blks s = free_bits (freemap (fsdata s))"

definition scratch :: "sstate \<Rightarrow> nat set" where
  "scratch s = {disk0_buffer (sdev (fsdata s))..<disk0_buffer (sdev (fsdata s)) + DISK0_BUFSIZE}
     \<union> {sfs_buffer (fsdata s)..<sfs_buffer (fsdata s) + SFS_BLKSIZE}"

definition disk_area :: "sstate \<Rightarrow> nat set" where
  "disk_area s = {blk_addr s 0..<blk_addr s (nblk s)}"

definition blk :: "sstate \<Rightarrow> nat \<Rightarrow> 8 word list" where
  "blk s b = (if b < nblk s \<and> b \<notin> free_blks s then bytes (vmemory s) (blk_addr s b) SFS_BLKSIZE else [])"

definition umem :: "sstate \<Rightarrow> mem" where
  "umem s = (\<lambda>x. if x \<in> disk_area s \<union> scratch s then 0 else vmemory s x)"

definition core :: "sstate \<Rightarrow> sstate" where
  "core s = s\<lparr>vmemory := (\<lambda>_. 0)\<rparr>"

text \<open>A mounted file system: the disk is there, the buffers are apart from it, and the bitmap and the
  count of free blocks agree.\<close>

definition sfs_ok :: "sstate \<Rightarrow> bool" where
  "sfs_ok s \<longleftrightarrow> disk_fits (fs_dev (fsdata s)) (sdev (fsdata s)) \<and> nblk s \<le> d_blocks (fs_dev (fsdata s)) \<and> nblk s \<le> 0x100000
     \<and> scratch s \<inter> disk_area s = {}
     \<and> (disk0_buffer (sdev (fsdata s)) + DISK0_BUFSIZE \<le> sfs_buffer (fsdata s)
        \<or> sfs_buffer (fsdata s) + SFS_BLKSIZE \<le> disk0_buffer (sdev (fsdata s)))
     \<and> \<not> io_locked (fsdata s)
     \<and> bitmap_inv (freemap (fsdata s)) \<and> nblk s \<le> nbits (freemap (fsdata s)) \<and> free_blks s \<subseteq> {1..<nblk s}
     \<and> unused_blocks (super (fsdata s)) = card (free_blks s)"

lemmas view_defs = nblk_def blk_addr_def free_blks_def scratch_def disk_area_def

lemma view_vmem [simp]:
  "nblk (s\<lparr>vmemory := m\<rparr>) = nblk s" "blk_addr (s\<lparr>vmemory := m\<rparr>) = blk_addr s" "free_blks (s\<lparr>vmemory := m\<rparr>) = free_blks s"
  "scratch (s\<lparr>vmemory := m\<rparr>) = scratch s" "disk_area (s\<lparr>vmemory := m\<rparr>) = disk_area s" "core (s\<lparr>vmemory := m\<rparr>) = core s"
  "sfs_ok (s\<lparr>vmemory := m\<rparr>) = sfs_ok s"
  by (simp_all add: view_defs core_def sfs_ok_def fun_eq_iff)

lemma core_eqD:
  assumes "core s' = core s"
  shows "fsdata s' = fsdata s" "inodes s' = inodes s"
  using assms unfolding core_def by (metis vfs_state.select_convs(1,2) vfs_state.surjective vfs_state.update_convs(3))+

lemma blk_in_disk: "b < nblk s \<Longrightarrow> i < SFS_BLKSIZE \<Longrightarrow> blk_addr s b + i \<in> disk_area s"
proof -
  assume "b < nblk s" "i < SFS_BLKSIZE"
  then have "Suc b * SFS_BLKSIZE \<le> nblk s * SFS_BLKSIZE" by (intro mult_le_mono1) simp
  then show ?thesis using \<open>i < SFS_BLKSIZE\<close> by (auto simp: disk_area_def blk_addr_def)
qed

lemma blk_apart: "b < c \<Longrightarrow> blk_addr s b + SFS_BLKSIZE \<le> blk_addr s c"
  using mult_le_mono1[of "Suc b" c SFS_BLKSIZE] by (simp add: blk_addr_def)

lemma mem_view:
  assumes "\<And>x. x \<notin> scratch s \<Longrightarrow> m x = vmemory s x" "sfs_ok s"
  shows "blk (s\<lparr>vmemory := m\<rparr>) = blk s" "umem (s\<lparr>vmemory := m\<rparr>) = umem s"
proof -
  have "x \<in> disk_area s \<Longrightarrow> m x = vmemory s x" for x using assms by (auto simp: sfs_ok_def)
  then show "blk (s\<lparr>vmemory := m\<rparr>) = blk s"
    by (auto simp: blk_def fun_eq_iff intro!: bytes_cong intro: blk_in_disk)
  show "umem (s\<lparr>vmemory := m\<rparr>) = umem s" using assms(1) by (auto simp: umem_def fun_eq_iff)
qed

lemma mem_view_blk:
  assumes "\<And>x. x \<notin> scratch s \<Longrightarrow> m x = vmemory s x" "sfs_ok s" "b < nblk s" "b \<notin> free_blks s" "length xs = SFS_BLKSIZE"
  shows "blk (s\<lparr>vmemory := put (blk_addr s b) xs m\<rparr>) = (blk s)(b := xs)" "umem (s\<lparr>vmemory := put (blk_addr s b) xs m\<rparr>) = umem s"
proof -
  have m: "x \<in> disk_area s \<Longrightarrow> m x = vmemory s x" for x using assms(1,2) by (auto simp: sfs_ok_def)
  have other: "bytes (put (blk_addr s b) xs m) (blk_addr s c) 4096 = bytes (vmemory s) (blk_addr s c) 4096"
    if "c \<noteq> b" "c < nblk s" for c
  proof -
    have "blk_addr s c + 4096 \<le> blk_addr s b \<or> blk_addr s b + length xs \<le> blk_addr s c"
      using blk_apart[of b c s] blk_apart[of c b s] that(1) assms(5) by (cases "b < c") auto
    then have "bytes (put (blk_addr s b) xs m) (blk_addr s c) 4096 = bytes m (blk_addr s c) 4096" by (rule bytes_put_other)
    also have "\<dots> = bytes (vmemory s) (blk_addr s c) 4096" by (rule bytes_cong) (use m blk_in_disk that in auto)
    finally show ?thesis .
  qed
  show "blk (s\<lparr>vmemory := put (blk_addr s b) xs m\<rparr>) = (blk s)(b := xs)"
    using other assms(3-5) by (auto simp: blk_def fun_eq_iff bytes_put_len)
  have "put (blk_addr s b) xs m x = m x" if "x \<notin> disk_area s" for x
    using that blk_in_disk[OF assms(3)] assms(5) by (auto simp: put_def le_iff_add)
  then show "umem (s\<lparr>vmemory := put (blk_addr s b) xs m\<rparr>) = umem s" using assms(1) by (auto simp: umem_def fun_eq_iff)
qed

lemma user_bytes:
  assumes "{a..<a + n} \<inter> (disk_area s \<union> scratch s) = {}"
  shows "bytes (umem s) a n = bytes (vmemory s) a n"
proof (rule bytes_cong)
  fix i assume "i < n"
  then have "a + i \<in> {a..<a + n}" by simp
  then show "umem s (a + i) = vmemory s (a + i)" using assms by (auto simp: umem_def disjoint_iff)
qed

section \<open>Block transfers\<close>

lemma rw_nolock:
  assumes "sfs_ok (unlock_sfs_io s)" "b < nblk s" "b \<noteq> 0 \<or> \<not> check"
  shows "sfs_rwblock_nolock buf b wr check s = Some (0,
    if wr then s\<lparr>vmemory := put (blk_addr s b) (bytes (vmemory s) buf 4096)
        (put (disk0_buffer (sdev (fsdata s))) (bytes (vmemory s) buf 4096) (vmemory s))\<rparr>
    else s\<lparr>vmemory := put buf (bytes (vmemory s) (blk_addr s b) 4096)
        (put (disk0_buffer (sdev (fsdata s))) (bytes (vmemory s) (blk_addr s b) 4096) (vmemory s))\<rparr>)"
proof -
  have f: "disk_fits (fs_dev (fsdata s)) (sdev (fsdata s))" "b < d_blocks (fs_dev (fsdata s))" "b < 0x100000"
    using assms(1,2) by (auto simp: sfs_ok_def unlock_sfs_io_def upd_sfs_def view_defs)
  then have "b * 4096 mod 2 ^ 32 = b * 4096" by simp
  with disk0_block[of "fs_dev (fsdata s)" "\<lparr>inodes = inodes s, fsdata = sdev (fsdata s), vmemory = vmemory s\<rparr>" b buf wr] f
  show ?thesis using assms(2,3)
    by (auto simp: sfs_rwblock_nolock_def sfs_dop_io_def nblk_def blk_addr_def)
qed


lemma lock_io_ok:
  assumes "\<not> io_locked (fsdata s)"
  shows "\<exists>t. lock_sfs_io s = Some t \<and> vmemory t = vmemory s \<and> inodes t = inodes s \<and> unlock_sfs_io t = s
    \<and> fsdata t = (fsdata s)\<lparr>io_locked := True\<rparr>"
proof -
  have "(fsdata s)\<lparr>io_locked := False\<rparr> = fsdata s" using assms by (simp add: sfs_data.surjective)
  then show ?thesis using assms by (simp add: lock_sfs_io_def unlock_sfs_io_def upd_sfs_def)
qed

lemma unlock_io_vmem [simp]: "unlock_sfs_io (s\<lparr>vmemory := m\<rparr>) = (unlock_sfs_io s)\<lparr>vmemory := m\<rparr>"
  by (simp add: unlock_sfs_io_def upd_sfs_def)

lemma locked_view:
  assumes "fsdata t = (fsdata s)\<lparr>io_locked := True\<rparr>"
  shows "nblk t = nblk s" "blk_addr t = blk_addr s" "sfs_buffer (fsdata t) = sfs_buffer (fsdata s)"
    "sdev (fsdata t) = sdev (fsdata s)" "super (fsdata t) = super (fsdata s)"
  using assms by (simp_all add: view_defs fun_eq_iff)

text \<open>Stores to the buffers.\<close>

lemma put_scratch:
  assumes "sfs_buffer (fsdata s) \<le> a" "a + length xs \<le> sfs_buffer (fsdata s) + SFS_BLKSIZE"
    "x \<notin> scratch s"
  shows "put a xs m x = m x"
  using assms by (auto simp: put_def scratch_def)

lemma put_disk0:
  assumes "length xs = SFS_BLKSIZE" "x \<notin> scratch s"
  shows "put (disk0_buffer (sdev (fsdata s))) xs m x = m x"
  using assms by (auto simp: put_def scratch_def)

definition overlay :: "nat \<Rightarrow> 'a list \<Rightarrow> 'a list \<Rightarrow> 'a list" where
  "overlay off xs ys = take off ys @ xs @ drop (off + length xs) ys"

lemma length_overlay [simp]: "off + length xs \<le> length ys \<Longrightarrow> length (overlay off xs ys) = length ys"
  by (simp add: overlay_def)

lemma overlay_nth:
  "off + length xs \<le> length ys \<Longrightarrow> i < length ys \<Longrightarrow>
    overlay off xs ys ! i = (if off \<le> i \<and> i < off + length xs then xs ! (i - off) else ys ! i)"
  by (auto simp: overlay_def nth_append)

lemma bytes_overlay:
  "off + length xs \<le> n \<Longrightarrow> bytes (put (a + off) xs m) a n = overlay off xs (bytes m a n)"
  by (rule nth_equalityI) (auto simp: overlay_nth put_def)

lemma bytes_blk: "b < nblk s \<Longrightarrow> b \<notin> free_blks s \<Longrightarrow> bytes (vmemory s) (blk_addr s b) 4096 = blk s b"
  by (simp add: blk_def)

lemma length_blk: "b < nblk s \<Longrightarrow> b \<notin> free_blks s \<Longrightarrow> length (blk s b) = SFS_BLKSIZE"
  by (simp add: blk_def)

text \<open>A block that can be read and written: it is on the disk, not the superblock, and in use.\<close>

definition used :: "sstate \<Rightarrow> nat \<Rightarrow> bool" where
  "used s b \<longleftrightarrow> b \<noteq> 0 \<and> b < nblk s \<and> b \<notin> free_blks s"

text \<open>\<open>same s s'\<close>: the two states differ in the buffers at most.\<close>

definition same :: "sstate \<Rightarrow> sstate \<Rightarrow> bool" where
  "same s s' \<longleftrightarrow> core s' = core s \<and> blk s' = blk s \<and> umem s' = umem s"

lemma sfs_rbuf_ok:
  assumes ok: "sfs_ok s" and b: "used s b" and r: "off < SFS_BLKSIZE" "off + len \<le> SFS_BLKSIZE"
  shows "\<exists>s'. sfs_rbuf len b off s = Some (0, take len (drop off (blk s b)), s') \<and> same s s'"
proof -
  from lock_io_ok[of s] ok obtain t where
    t: "lock_sfs_io s = Some t" "vmemory t = vmemory s" "unlock_sfs_io t = s" "fsdata t = (fsdata s)\<lparr>io_locked := True\<rparr>"
    by (auto simp: sfs_ok_def)
  note v = locked_view[OF t(4)]
  have bb: "b < nblk s" "b \<notin> free_blks s" "b \<noteq> 0" using b by (auto simp: used_def)
  let ?b = "sfs_buffer (fsdata s)" and ?x = "blk s b"
  let ?m = "put ?b ?x (put (disk0_buffer (sdev (fsdata s))) ?x (vmemory s))"
  have len: "length ?x = 4096" by (rule length_blk[OF bb(1,2)])
  have rw: "sfs_rwblock_nolock ?b b False True t = Some (0, t\<lparr>vmemory := ?m\<rparr>)"
    using rw_nolock[of t b True ?b False] ok bb by (simp add: t(2,3) v bytes_blk)
  have data: "bytes ?m (?b + off) len = take len (drop off ?x)"
    using take_drop_bytes[OF r(2), of ?m ?b] bytes_put_len[OF len, of ?b] by simp
  have "?m x = vmemory s x" if "x \<notin> scratch s" for x
    using put_scratch[of s ?b ?x x] put_disk0[of ?x x s] that len by simp
  from mem_view[OF this ok] have "same s (s\<lparr>vmemory := ?m\<rparr>)" by (simp add: same_def)
  then show ?thesis using r t(1,3) rw data by (simp add: sfs_rbuf_def v)
qed

lemma sfs_wbuf_ok:
  assumes ok: "sfs_ok s" and b: "used s b" and r: "off < SFS_BLKSIZE" "off + length data \<le> SFS_BLKSIZE"
  shows "\<exists>s'. sfs_wbuf data b off s = Some (0, s') \<and> core s' = core s \<and> blk s' = (blk s)(b := overlay off data (blk s b))
    \<and> umem s' = umem s"
proof -
  from lock_io_ok[of s] ok obtain t where
    t: "lock_sfs_io s = Some t" "vmemory t = vmemory s" "unlock_sfs_io t = s" "fsdata t = (fsdata s)\<lparr>io_locked := True\<rparr>"
    by (auto simp: sfs_ok_def)
  note v = locked_view[OF t(4)]
  have bb: "b < nblk s" "b \<notin> free_blks s" "b \<noteq> 0" using b by (auto simp: used_def)
  let ?b = "sfs_buffer (fsdata s)" and ?q = "disk0_buffer (sdev (fsdata s))" and ?x = "blk s b"
  let ?m1 = "put ?b ?x (put ?q ?x (vmemory s))"
  let ?m2 = "put (?b + off) data ?m1"
  let ?y = "overlay off data ?x"
  have len: "length ?x = 4096" by (rule length_blk[OF bb(1,2)])
  have rw: "sfs_rwblock_nolock ?b b False True t = Some (0, t\<lparr>vmemory := ?m1\<rparr>)"
    using rw_nolock[of t b True ?b False] ok bb by (simp add: t(2,3) v bytes_blk)
  have y: "bytes ?m2 ?b 4096 = ?y" using bytes_overlay[OF r(2), of ?b] bytes_put_len[OF len, of ?b] by simp
  have wr: "sfs_rwblock_nolock ?b b True True (t\<lparr>vmemory := ?m2\<rparr>)
    = Some (0, t\<lparr>vmemory := put (blk_addr s b) ?y (put ?q ?y ?m2)\<rparr>)"
    using rw_nolock[of "t\<lparr>vmemory := ?m2\<rparr>" b True ?b True] ok bb by (simp add: t(3) v y)
  have ly: "length ?y = 4096" using len r(2) by simp
  have "put ?q ?y ?m2 x = vmemory s x" if "x \<notin> scratch s" for x
    using put_scratch[of s ?b ?x x] put_scratch[of s "?b + off" data x] put_disk0[of ?x x s] put_disk0[of ?y x s] that len ly r
    by simp
  from mem_view_blk[OF this ok bb(1,2) ly] show ?thesis
    using r t(1,3) rw wr by (simp add: sfs_wbuf_def v)
qed


definition user_buf :: "sstate \<Rightarrow> nat \<Rightarrow> nat \<Rightarrow> bool" where
  "user_buf s a n \<longleftrightarrow> {a..<a + n} \<inter> (disk_area s \<union> scratch s) = {}"

lemma umem_put:
  assumes "user_buf s a (length xs)" "sfs_ok s" "\<And>x. x \<notin> scratch s \<Longrightarrow> m x = vmemory s x"
  shows "blk (s\<lparr>vmemory := put a xs m\<rparr>) = blk s" "umem (s\<lparr>vmemory := put a xs m\<rparr>) = put a xs (umem s)"
proof -
  have u: "x \<notin> disk_area s \<and> x \<notin> scratch s" if "a \<le> x" "x < a + length xs" for x
    using assms(1) that by (auto simp: user_buf_def disjoint_iff)
  then have d: "put a xs m x = m x" if "x \<in> disk_area s \<union> scratch s" for x using that by (auto simp: put_def)
  have "put a xs m x = vmemory s x" if "x \<in> disk_area s" for x using d that assms(2,3) by (auto simp: sfs_ok_def)
  then show "blk (s\<lparr>vmemory := put a xs m\<rparr>) = blk s"
    by (auto simp: blk_def fun_eq_iff intro!: bytes_cong intro: blk_in_disk)
  show "umem (s\<lparr>vmemory := put a xs m\<rparr>) = put a xs (umem s)"
  proof
    fix x
    show "umem (s\<lparr>vmemory := put a xs m\<rparr>) x = put a xs (umem s) x"
      using u[of x] assms(3)[of x] by (auto simp: umem_def put_def)
  qed
qed

lemma sfs_rblock_ok:
  assumes ok: "sfs_ok s" and b: "used s b" and u: "user_buf s buf SFS_BLKSIZE"
  shows "\<exists>s'. sfs_rblock buf b 1 s = Some (0, s') \<and> core s' = core s \<and> blk s' = blk s \<and> umem s' = put buf (blk s b) (umem s)"
proof -
  from lock_io_ok[of s] ok obtain t where
    t: "lock_sfs_io s = Some t" "vmemory t = vmemory s" "unlock_sfs_io t = s" "fsdata t = (fsdata s)\<lparr>io_locked := True\<rparr>"
    by (auto simp: sfs_ok_def)
  note v = locked_view[OF t(4)]
  have bb: "b < nblk s" "b \<notin> free_blks s" "b \<noteq> 0" using b by (auto simp: used_def)
  let ?x = "blk s b" and ?q = "disk0_buffer (sdev (fsdata s))"
  have len: "length ?x = 4096" by (rule length_blk[OF bb(1,2)])
  have rw: "sfs_rwblock_nolock buf b False True t = Some (0, t\<lparr>vmemory := put buf ?x (put ?q ?x (vmemory s))\<rparr>)"
    using rw_nolock[of t b True buf False] ok bb by (simp add: t(2,3) v bytes_blk)
  have "put ?q ?x (vmemory s) x = vmemory s x" if "x \<notin> scratch s" for x using put_disk0[of ?x x s] that len by simp
  with umem_put[of s buf ?x "put ?q ?x (vmemory s)"] u ok len show ?thesis
    using t(1,3) rw by (simp add: sfs_rblock_def sfs_rwblock_def)
qed

lemma sfs_wblock_ok:
  assumes ok: "sfs_ok s" and b: "used s b" and u: "user_buf s buf SFS_BLKSIZE"
  shows "\<exists>s'. sfs_wblock buf b 1 s = Some (0, s') \<and> core s' = core s \<and> blk s' = (blk s)(b := bytes (umem s) buf SFS_BLKSIZE)
    \<and> umem s' = umem s"
proof -
  from lock_io_ok[of s] ok obtain t where
    t: "lock_sfs_io s = Some t" "vmemory t = vmemory s" "unlock_sfs_io t = s" "fsdata t = (fsdata s)\<lparr>io_locked := True\<rparr>"
    by (auto simp: sfs_ok_def)
  note v = locked_view[OF t(4)]
  have bb: "b < nblk s" "b \<notin> free_blks s" "b \<noteq> 0" using b by (auto simp: used_def)
  let ?q = "disk0_buffer (sdev (fsdata s))" and ?y = "bytes (vmemory s) buf 4096"
  have rw: "sfs_rwblock_nolock buf b True True t = Some (0, t\<lparr>vmemory := put (blk_addr s b) ?y (put ?q ?y (vmemory s))\<rparr>)"
    using rw_nolock[of t b True buf True] ok bb by (simp add: t(2,3) v)
  have "put ?q ?y (vmemory s) x = vmemory s x" if "x \<notin> scratch s" for x using put_disk0[of ?y x s] that by simp
  from mem_view_blk[OF this ok bb(1,2)] user_bytes[of buf 4096 s] show ?thesis
    using t(1,3) rw u by (simp add: sfs_wblock_def sfs_rwblock_def user_buf_def)
qed

lemma sfs_clear_ok:
  assumes ok: "sfs_ok s" and b: "used s b"
  shows "\<exists>s'. sfs_clear_block b 1 s = Some (0, s') \<and> core s' = core s \<and> blk s' = (blk s)(b := replicate SFS_BLKSIZE 0)
    \<and> umem s' = umem s"
proof -
  from lock_io_ok[of s] ok obtain t where
    t: "lock_sfs_io s = Some t" "vmemory t = vmemory s" "unlock_sfs_io t = s" "fsdata t = (fsdata s)\<lparr>io_locked := True\<rparr>"
    by (auto simp: sfs_ok_def)
  note v = locked_view[OF t(4)]
  have bb: "b < nblk s" "b \<notin> free_blks s" "b \<noteq> 0" using b by (auto simp: used_def)
  let ?b = "sfs_buffer (fsdata s)" and ?q = "disk0_buffer (sdev (fsdata s))" and ?z = "replicate SFS_BLKSIZE (0 :: 8 word)"
  let ?m = "put ?b ?z (vmemory s)"
  have z: "bytes ?m ?b 4096 = ?z" by (rule bytes_put_len) simp
  have rw: "sfs_rwblock_nolock ?b b True True (t\<lparr>vmemory := ?m\<rparr>) = Some (0, t\<lparr>vmemory := put (blk_addr s b) ?z (put ?q ?z ?m)\<rparr>)"
    using rw_nolock[of "t\<lparr>vmemory := ?m\<rparr>" b True ?b True] ok bb by (simp add: t(3) v z)
  have "put ?q ?z ?m x = vmemory s x" if "x \<notin> scratch s" for x
    using put_scratch[of s ?b ?z x] put_disk0[of ?z x s] that by (simp)
  from mem_view_blk[OF this ok bb(1,2)] show ?thesis
    using t(1,2,3) rw by (simp add: sfs_clear_block_def v memset_put)
qed

section \<open>Allocation\<close>

text \<open>The parts of the state that the block layer does not own.\<close>

definition others :: "sfs_data \<Rightarrow> sfs_data" where
  "others d = d\<lparr>freemap := \<lparr>nbits = 0, nwords = 0, bmap = []\<rparr>, super := (super d)\<lparr>unused_blocks := 0\<rparr>, super_dirty := False\<rparr>"

lemma block_inuse_ok:
  assumes "sfs_ok s" "b \<noteq> 0" "b < nblk s"
  shows "sfs_block_inuse b s = Some (b \<notin> free_blks s)"
proof -
  let ?bm = "freemap (fsdata s)"
  have "b < nbits ?bm" "bitmap_inv ?bm" using assms by (auto simp: sfs_ok_def)
  then have "b div 32 < nwords ?bm" using words_enough by (simp add: bitmap_inv_def)
  then show ?thesis using assms \<open>b < nbits ?bm\<close>
    by (simp add: sfs_block_inuse_def nblk_def bitmap_test_def bitmap_translate_def mask_bit free_blks_def free_bits_def free_at_def)
qed

lemma used_inuse: "sfs_ok s \<Longrightarrow> used s b \<Longrightarrow> sfs_block_inuse b s = Some True"
  by (simp add: used_def block_inuse_ok)


text \<open>\<open>frame s s'\<close>: of the state outside the block layer nothing has changed.\<close>

definition frame :: "sstate \<Rightarrow> sstate \<Rightarrow> bool" where
  "frame s s' \<longleftrightarrow> inodes s' = inodes s \<and> others (fsdata s') = others (fsdata s) \<and> umem s' = umem s \<and> sfs_ok s'"

lemma others_eqD:
  assumes "others d' = others d"
  shows "sdev d' = sdev d" "fs_dev d' = fs_dev d" "sblocks (super d') = sblocks (super d)" "magic (super d') = magic (super d)"
    "sinfo (super d') = sinfo (super d)" "freemap_addr d' = freemap_addr d"
    "sfs_buffer d' = sfs_buffer d" "fs_locked d' = fs_locked d" "io_locked d' = io_locked d" "sins d' = sins d" "ilinks d' = ilinks d"
    "inode_pool d' = inode_pool d" "kmems d' = kmems d"
  using arg_cong[OF assms, of sdev] arg_cong[OF assms, of fs_dev] arg_cong[OF assms, of "\<lambda>d. sblocks (super d)"]
    arg_cong[OF assms, of "\<lambda>d. magic (super d)"] arg_cong[OF assms, of "\<lambda>d. sinfo (super d)"] arg_cong[OF assms, of freemap_addr]
    arg_cong[OF assms, of sfs_buffer] arg_cong[OF assms, of fs_locked] arg_cong[OF assms, of io_locked] arg_cong[OF assms, of sins]
    arg_cong[OF assms, of ilinks] arg_cong[OF assms, of inode_pool] arg_cong[OF assms, of kmems]
  by (simp_all add: others_def)


lemma others_view:
  assumes "others (fsdata s') = others (fsdata s)"
  shows "nblk s' = nblk s" "blk_addr s' = blk_addr s" "scratch s' = scratch s" "disk_area s' = disk_area s"
  using others_eqD[OF assms] by (simp_all add: view_defs fun_eq_iff)

lemma frameD:
  assumes "frame s s'"
  shows "nblk s' = nblk s" "blk_addr s' = blk_addr s" "scratch s' = scratch s" "disk_area s' = disk_area s"
    "sins (fsdata s') = sins (fsdata s)" "inodes s' = inodes s" "umem s' = umem s" "sfs_ok s'"
  using assms others_eqD[of "fsdata s'" "fsdata s"] others_view[of s' s] by (simp_all add: frame_def)

lemma frame_refl [simp]: "frame s s \<longleftrightarrow> sfs_ok s" by (auto simp: frame_def)
lemma frame_trans [trans]: "frame s t \<Longrightarrow> frame t u \<Longrightarrow> frame s u" by (simp add: frame_def)

lemma core_ok:
  assumes "core s' = core s"
  shows "sfs_ok s' = sfs_ok s" "free_blks s' = free_blks s" "nblk s' = nblk s" "used s' = used s"
  using view_vmem(7)[where s = s and m = "\<lambda>_. 0"] view_vmem(7)[where s = s' and m = "\<lambda>_. 0"] assms core_eqD[OF assms]
  by (simp_all add: core_def[symmetric] view_defs used_def fun_eq_iff)

lemma frame_core: "sfs_ok s \<Longrightarrow> core s' = core s \<Longrightarrow> umem s' = umem s \<Longrightarrow> frame s s'"
  using core_eqD[of s' s] core_ok[of s' s] by (simp add: frame_def)

text \<open>A change of the bitmap, of the count and of the flag.\<close>

lemma freemap_view:
  assumes ok: "sfs_ok s" and d: "others (fsdata s') = others (fsdata s)" and m: "vmemory s' = vmemory s" "inodes s' = inodes s"
    and bm: "bitmap_inv (freemap (fsdata s'))" "nbits (freemap (fsdata s')) = nbits (freemap (fsdata s))"
    and fr: "free_blks s' \<subseteq> {1..<nblk s}" "unused_blocks (super (fsdata s')) = card (free_blks s')"
  shows "frame s s'" "blk s' b = (if b \<in> free_blks s' then [] else if b \<in> free_blks s \<and> b < nblk s
    then bytes (vmemory s) (blk_addr s b) SFS_BLKSIZE else blk s b)"
proof -
  note v = others_view[OF d] others_eqD[OF d]
  have "sfs_ok s'" using ok bm fr unfolding sfs_ok_def v bm(2) by blast
  moreover have "umem s' = umem s" unfolding umem_def v m by (rule refl)
  ultimately show "frame s s'" using m(2) d by (simp add: frame_def)
  show "blk s' b = (if b \<in> free_blks s' then [] else if b \<in> free_blks s \<and> b < nblk s
    then bytes (vmemory s) (blk_addr s b) SFS_BLKSIZE else blk s b)"
    using v m by (simp add: blk_def)
qed

lemma finite_free: "sfs_ok s \<Longrightarrow> finite (free_blks s)"
  by (rule finite_subset[of _ "{1..<nblk s}"]) (auto simp: sfs_ok_def)

lemma sfs_block_alloc_ok:
  assumes ok: "sfs_ok s"
  shows "free_blks s = {} \<and> sfs_block_alloc s = Some (- E_NO_MEM, 0, s)
    \<or> (\<exists>b s'. sfs_block_alloc s = Some (0, b, s') \<and> b \<in> free_blks s \<and> free_blks s' = free_blks s - {b}
        \<and> blk s' = (blk s)(b := replicate SFS_BLKSIZE 0) \<and> frame s s')"
proof (cases "free_blks s = {}")
  case True
  then have "bitmap_alloc (freemap (fsdata s)) = Some (- E_NO_MEM, 0, freemap (fsdata s))"
    using bitmap_alloc_ok[of "freemap (fsdata s)"] ok by (simp add: sfs_ok_def free_blks_def)
  with True show ?thesis by (simp add: sfs_block_alloc_def)
next
  case False
  then obtain b bm where bm: "bitmap_alloc (freemap (fsdata s)) = Some (0, b, bm)" "b \<in> free_blks s" "free_bits bm = free_blks s - {b}"
      "bitmap_inv bm" "nbits bm = nbits (freemap (fsdata s))"
    using bitmap_alloc_ok[of "freemap (fsdata s)"] ok by (auto simp: sfs_ok_def free_blks_def)
  let ?s1 = "upd_sfs (\<lambda>d. d\<lparr>freemap := bm, super := (super d)\<lparr>unused_blocks := unused_blocks (super d) - 1\<rparr>, super_dirty := True\<rparr>) s"
  have fr: "free_blks ?s1 = free_blks s - {b}" using bm(3) by (simp add: free_blks_def upd_sfs_def)
  have u: "unused_blocks (super (fsdata s)) = card (free_blks s)" "card (free_blks s) > 0"
    using ok False finite_free[OF ok] by (simp_all add: sfs_ok_def card_gt_0_iff)
  have s1: "others (fsdata ?s1) = others (fsdata s)" "vmemory ?s1 = vmemory s" "inodes ?s1 = inodes s" "freemap (fsdata ?s1) = bm"
    "unused_blocks (super (fsdata ?s1)) = unused_blocks (super (fsdata s)) - 1"
    by (simp_all add: upd_sfs_def others_def)
  have "free_blks ?s1 \<subseteq> {1..<nblk s}" "unused_blocks (super (fsdata ?s1)) = card (free_blks ?s1)"
    using ok fr s1(5) bm(2) u finite_free[OF ok] by (auto simp: sfs_ok_def)
  note fv = freemap_view[OF ok s1(1-3), unfolded s1(4), OF bm(4,5) this]
  have v: "frame s ?s1" and bl: "\<And>c. blk ?s1 c = (if c \<in> free_blks ?s1 then [] else if c \<in> free_blks s \<and> c < nblk s
    then bytes (vmemory s) (blk_addr s c) SFS_BLKSIZE else blk s c)"
    by (rule fv)+
  have b: "b \<noteq> 0" "b < nblk s" using bm(2) ok by (auto simp: sfs_ok_def)
  have us: "used ?s1 b" using b fr frameD(1)[OF v] by (simp add: used_def)
  from sfs_clear_ok[OF frameD(8)[OF v] us] obtain s2 where
    s2: "sfs_clear_block b 1 ?s1 = Some (0, s2)" "core s2 = core ?s1" "blk s2 = (blk ?s1)(b := replicate SFS_BLKSIZE 0)" "umem s2 = umem ?s1"
    by blast
  have "blk s2 = (blk s)(b := replicate SFS_BLKSIZE 0)" using s2(3) bl fr by (auto simp: fun_eq_iff blk_def[of s])
  moreover have "frame s s2" using frame_trans[OF v frame_core[OF frameD(8)[OF v] s2(2,4)]] .
  moreover have "free_blks s2 = free_blks s - {b}" using core_ok(2)[OF s2(2)] fr by simp
  moreover have "sfs_block_alloc s = Some (0, b, s2)"
    using bm(1) u used_inuse[OF frameD(8)[OF v] us] s2(1) by (simp add: sfs_block_alloc_def)
  ultimately show ?thesis using bm(2) by blast
qed

lemma sfs_block_free_ok:
  assumes ok: "sfs_ok s" and b: "used s b"
  shows "\<exists>s'. sfs_block_free b s = Some s' \<and> free_blks s' = insert b (free_blks s) \<and> blk s' = (blk s)(b := []) \<and> frame s s'"
proof -
  have bb: "b \<noteq> 0" "b < nblk s" "b \<notin> free_blks s" using b by (auto simp: used_def)
  then obtain bm where bm: "bitmap_free (freemap (fsdata s)) b = Some bm" "free_bits bm = insert b (free_blks s)" "bitmap_inv bm"
    using bitmap_free_exact[of "freemap (fsdata s)" b] ok by (auto simp: sfs_ok_def free_blks_def split: if_splits)
  have nb: "nbits bm = nbits (freemap (fsdata s))" using bm(1) by (auto simp: bitmap_free_def bind_Some_iff)
  let ?s1 = "upd_sfs (\<lambda>d. d\<lparr>freemap := bm, super := (super d)\<lparr>unused_blocks := unused_blocks (super d) + 1\<rparr>, super_dirty := True\<rparr>) s"
  have fr: "free_blks ?s1 = insert b (free_blks s)" using bm(2) by (simp add: free_blks_def upd_sfs_def)
  have s1: "others (fsdata ?s1) = others (fsdata s)" "vmemory ?s1 = vmemory s" "inodes ?s1 = inodes s" "freemap (fsdata ?s1) = bm"
    "unused_blocks (super (fsdata ?s1)) = unused_blocks (super (fsdata s)) + 1"
    by (simp_all add: upd_sfs_def others_def)
  have "free_blks ?s1 \<subseteq> {1..<nblk s}" "unused_blocks (super (fsdata ?s1)) = card (free_blks ?s1)"
    using ok fr s1(5) bb finite_free[OF ok] by (auto simp: sfs_ok_def)
  note fv = freemap_view[OF ok s1(1-3), unfolded s1(4), OF bm(3) nb this]
  have "frame s ?s1" and bl: "\<And>c. blk ?s1 c = (if c \<in> free_blks ?s1 then [] else if c \<in> free_blks s \<and> c < nblk s
    then bytes (vmemory s) (blk_addr s c) SFS_BLKSIZE else blk s c)"
    by (rule fv)+
  moreover have "blk ?s1 = (blk s)(b := [])" using bl fr by (auto simp: fun_eq_iff blk_def[of s])
  ultimately show ?thesis using bm(1) fr used_inuse[OF ok b] by (simp add: sfs_block_free_def)
qed

end
