(* ===== verification/Sfs_Files.thy ===== *)
theory Sfs_Files
  imports Sfs_Blocks
begin

text \<open>
  Files of the simple file system.  \<open>map_ok s i bl\<close> says that the direct and indirect entries of the inode
  \<open>i\<close> list the blocks \<open>bl\<close>; \<open>fbyte s bl p\<close> is the byte of the file at position \<open>p\<close>.  Reading and writing are
  shown against this view of a file as a sequence of bytes.
\<close>

section \<open>Numbers in blocks\<close>

lemma length_le_bytes [simp]: "length (le_bytes k v) = k"
  by (induction k arbitrary: v) auto

lemma le_nat_bytes: "le_nat (le_bytes k v) = v mod 256 ^ k"
proof (induction k arbitrary: v)
  case (Suc k)
  have "v mod 256 ^ Suc k = v mod 256 + 256 * (v div 256 mod 256 ^ k)" using mod_mult2_eq[of v 256 "256 ^ k"] by simp
  then show ?case using Suc by (simp add: unsigned_of_nat take_bit_eq_mod)
qed simp

definition entry :: "sstate \<Rightarrow> nat \<Rightarrow> nat \<Rightarrow> nat" where
  "entry s e j = le_nat (take 4 (drop (4 * j) (blk s e)))"

lemma entry_write:
  assumes "length ys = SFS_BLKSIZE" "j < SFS_BLK_NENTRY" "k < SFS_BLK_NENTRY" "v < 2 ^ 32"
  shows "le_nat (take 4 (drop (4 * k) (overlay (4 * j) (le_bytes 4 v) ys))) = (if k = j then v else le_nat (take 4 (drop (4 * k) ys)))"
proof -
  have "take 4 (drop (4 * k) (overlay (4 * j) (le_bytes 4 v) ys)) = (if k = j then le_bytes 4 v else take 4 (drop (4 * k) ys))"
    by (rule nth_equalityI) (use assms in \<open>auto simp: overlay_nth\<close>)
  then show ?thesis using assms(4) by (simp add: le_nat_bytes)
qed

lemma entry_zeros: "le_nat (take 4 (drop k (replicate n 0))) = 0"
proof -
  have "le_nat (replicate m 0) = 0" for m by (induction m) auto
  then show ?thesis by simp
qed

section \<open>The block map\<close>

definition inds :: "sfs_inode \<Rightarrow> nat list" where
  "inds i = (if indirect (din i) = 0 then [] else [indirect (din i)])"

definition owned :: "sfs_inode \<Rightarrow> nat list \<Rightarrow> nat list" where
  "owned i bl = ino i # inds i @ bl"

definition map_ok :: "sstate \<Rightarrow> sfs_inode \<Rightarrow> nat list \<Rightarrow> bool" where
  "map_ok s i bl \<longleftrightarrow> dblocks (din i) = length bl \<and> length bl \<le> SFS_NDIRECT + SFS_BLK_NENTRY
     \<and> length (direct (din i)) = SFS_NDIRECT
     \<and> (\<forall>k < SFS_NDIRECT. direct (din i) ! k = (if k < length bl then bl ! k else 0))
     \<and> (indirect (din i) = 0 \<longrightarrow> length bl \<le> SFS_NDIRECT)
     \<and> (indirect (din i) \<noteq> 0 \<longrightarrow> (\<forall>j < SFS_BLK_NENTRY. entry s (indirect (din i)) j
          = (if SFS_NDIRECT + j < length bl then bl ! (SFS_NDIRECT + j) else 0)))
     \<and> distinct (owned i bl) \<and> (\<forall>b \<in> set (owned i bl). used s b)"

lemma used_blk: "sfs_ok s \<Longrightarrow> used s b \<longleftrightarrow> b \<noteq> 0 \<and> blk s b \<noteq> []"
  by (auto simp: used_def blk_def bytes_def)

lemma map_ok_cong:
  assumes "map_ok s i bl" "sfs_ok s" "sfs_ok s'" "\<And>b. b \<in> set (owned i bl) \<Longrightarrow> blk s' b = blk s b"
  shows "map_ok s' i bl"
proof -
  have "used s' b" if "b \<in> set (owned i bl)" for b
    using assms that used_blk[of s b] used_blk[of s' b] by (auto simp: map_ok_def)
  moreover have "entry s' (indirect (din i)) j = entry s (indirect (din i)) j" if "indirect (din i) \<noteq> 0" for j
    using assms(4)[of "indirect (din i)"] that by (simp add: entry_def owned_def inds_def)
  ultimately show ?thesis using assms(1) by (simp add: map_ok_def)
qed

text \<open>\<open>fframe n s s'\<close>: outside the block layer and the inode \<open>n\<close> nothing has changed.\<close>

definition others_but :: "nat \<Rightarrow> sfs_data \<Rightarrow> sfs_data" where
  "others_but n d = (others d)\<lparr>sins := (sins d)(n := None)\<rparr>"

definition fframe :: "nat \<Rightarrow> sstate \<Rightarrow> sstate \<Rightarrow> bool" where
  "fframe n s s' \<longleftrightarrow> inodes s' = inodes s \<and> others_but n (fsdata s') = others_but n (fsdata s) \<and> umem s' = umem s \<and> sfs_ok s'"

lemma fframe_refl [simp]: "fframe n s s \<longleftrightarrow> sfs_ok s" by (auto simp: fframe_def)
lemma fframe_trans [trans]: "fframe n s t \<Longrightarrow> fframe n t u \<Longrightarrow> fframe n s u" by (simp add: fframe_def)

lemma frame_fframe: "frame s s' \<Longrightarrow> fframe n s s'"
  using others_eqD(10)[of "fsdata s'" "fsdata s"] by (simp add: frame_def fframe_def others_but_def)

lemma others_but_others: "others_but n d' = others_but n d \<Longrightarrow> others (d'\<lparr>sins := S\<rparr>) = others (d\<lparr>sins := S\<rparr>)"
proof -
  have e: "(others_but n d)\<lparr>sins := S\<rparr> = others (d\<lparr>sins := S\<rparr>)" for d by (cases d) (simp add: others_but_def others_def)
  assume "others_but n d' = others_but n d"
  then have "(others_but n d')\<lparr>sins := S\<rparr> = (others_but n d)\<lparr>sins := S\<rparr>" by simp
  then show ?thesis unfolding e .
qed

lemma fframe_view:
  assumes "fframe n s s'"
  shows "nblk s' = nblk s" "blk_addr s' = blk_addr s" "scratch s' = scratch s" "disk_area s' = disk_area s" "umem s' = umem s"
    "sfs_ok s'" "inodes s' = inodes s" "k \<noteq> n \<Longrightarrow> sin_of k s' = sin_of k s" "user_buf s' = user_buf s"
proof -
  have o: "others_but n (fsdata s') = others_but n (fsdata s)" using assms by (simp add: fframe_def)
  note v = others_eqD[OF others_but_others[OF o]]
  show "nblk s' = nblk s" "blk_addr s' = blk_addr s" "scratch s' = scratch s" "disk_area s' = disk_area s"
    using v by (simp_all add: view_defs fun_eq_iff)
  then show "user_buf s' = user_buf s" by (simp add: user_buf_def fun_eq_iff)
  show "sin_of k s' = sin_of k s" if "k \<noteq> n"
    using arg_cong[OF o, of "\<lambda>d. sins d k"] that by (simp add: others_but_def)
qed (use assms in \<open>simp_all add: fframe_def\<close>)

lemma upd_sin_simps [simp]:
  "sin_of n (upd_sin n f s) = map_option f (sin_of n s)" "vmemory (upd_sin n f s) = vmemory s" "inodes (upd_sin n f s) = inodes s"
  "k \<noteq> n \<Longrightarrow> sin_of k (upd_sin n f s) = sin_of k s"
  "freemap (fsdata (upd_sin n f s)) = freemap (fsdata s)" "super (fsdata (upd_sin n f s)) = super (fsdata s)"
  by (simp_all add: upd_sin_def upd_sfs_def)

lemma upd_sin_view [simp]:
  "blk (upd_sin n f s) = blk s" "umem (upd_sin n f s) = umem s" "free_blks (upd_sin n f s) = free_blks s"
  "sfs_ok (upd_sin n f s) = sfs_ok s" "nblk (upd_sin n f s) = nblk s" "used (upd_sin n f s) = used s"
  "scratch (upd_sin n f s) = scratch s" "disk_area (upd_sin n f s) = disk_area s" "blk_addr (upd_sin n f s) = blk_addr s"
  by (simp_all add: upd_sin_def upd_sfs_def blk_def umem_def sfs_ok_def view_defs used_def fun_eq_iff)

lemma upd_sin_fframe: "sfs_ok s \<Longrightarrow> fframe n s (upd_sin n f s)"
  by (simp add: fframe_def) (simp add: upd_sin_def upd_sfs_def others_but_def others_def)

lemma block_inuse_upd [simp]: "sfs_block_inuse b (upd_sin n f s) = sfs_block_inuse b s"
  by (simp add: sfs_block_inuse_def)

lemma map_ok_upd_sin [simp]: "map_ok (upd_sin n f s) i bl = map_ok s i bl"
  by (simp add: map_ok_def entry_def)

definition file_rel :: "sstate \<Rightarrow> nat \<Rightarrow> sfs_inode \<Rightarrow> nat list \<Rightarrow> bool" where
  "file_rel s n i bl \<longleftrightarrow> sfs_ok s \<and> sin_of n s = Some i \<and> map_ok s i bl"

lemma same_frame: "sfs_ok s \<Longrightarrow> same s s' \<Longrightarrow> frame s s' \<and> blk s' = blk s"
  by (simp add: same_def frame_core)

lemma file_rel_frame:
  assumes "file_rel s n i bl" "frame s s'" "\<And>b. b \<in> set (owned i bl) \<Longrightarrow> blk s' b = blk s b"
  shows "file_rel s' n i bl"
  using assms frameD(5,8)[OF assms(2)] map_ok_cong[of s i bl s'] by (simp add: file_rel_def)

text \<open>An existing block.\<close>

lemma bmap_check_ok: "sfs_ok s \<Longrightarrow> used s b \<Longrightarrow> bmap_check b s = Some (0, b, s)"
  using used_inuse[of s b] by (simp add: bmap_check_def used_def)

lemma bmap_load_old:
  assumes f: "file_rel s n i bl" and k: "k < length bl"
  shows "\<exists>s'. sfs_bmap_load_nolock n k s = Some (0, bl ! k, s') \<and> same s s'"
proof -
  have ok: "sfs_ok s" and si: "sin_of n s = Some i" and m: "map_ok s i bl" using f by (auto simp: file_rel_def)
  have u: "used s (bl ! k)" using m k by (auto simp: map_ok_def owned_def inds_def)
  show ?thesis
  proof (cases "k < SFS_NDIRECT")
    case True
    then have "sfs_bmap_get_nolock n k False s = Some (0, bl ! k, s)"
      using m k si bmap_check_ok[OF ok u] by (simp add: sfs_bmap_get_nolock_def map_ok_def)
    then show ?thesis using si m k used_inuse[OF ok u]
      by (intro exI[of _ s]) (simp add: sfs_bmap_load_nolock_def map_ok_def same_def)
  next
    case False
    let ?e = "indirect (din i)" and ?j = "k - SFS_NDIRECT"
    have e: "?e \<noteq> 0" "used s ?e" "?j < SFS_BLK_NENTRY" "entry s ?e ?j = bl ! k"
      using m k False by (auto simp: map_ok_def owned_def inds_def)
    from sfs_rbuf_ok[OF ok e(2), of "?j * 4" 4] e(3) obtain s' where
      s': "sfs_rbuf 4 ?e (?j * 4) s = Some (0, take 4 (drop (?j * 4) (blk s ?e)), s')" "same s s'" by auto
    have r: "le_nat (take 4 (drop (?j * 4) (blk s ?e))) = bl ! k" using e(4) by (simp add: entry_def mult.commute)
    have c: "core s' = core s" using s'(2) by (simp add: same_def)
    have ok': "sfs_ok s'" "used s' (bl ! k)" using core_ok[OF c] ok u by auto
    have "sfs_bmap_get_nolock n k False s = Some (0, bl ! k, s')"
      using False si e s'(1) r bmap_check_ok[OF ok'] by (simp add: sfs_bmap_get_nolock_def sfs_bmap_get_sub_nolock_def)
    then show ?thesis using si m k used_inuse[OF ok'] s'(2) by (simp add: sfs_bmap_load_nolock_def map_ok_def)
  qed
qed


text \<open>A new block at the end.\<close>

lemma free_not_used: "b \<in> free_blks s \<Longrightarrow> blk s b = []"
  by (simp add: blk_def)

lemma free_lt: "sfs_ok s \<Longrightarrow> b \<in> free_blks s \<Longrightarrow> b \<noteq> 0 \<and> b < nblk s \<and> b < 2 ^ 32"
  by (auto simp: sfs_ok_def)

lemma new_sub_ok:
  assumes ok: "sfs_ok s" and e: "used s ent" and j: "j < SFS_BLK_NENTRY"
  shows "free_blks s = {} \<and> (ent = ent0 \<longrightarrow> bmap_new_sub ent0 ent j s = Some (- E_NO_MEM, ent0, 0, s))
      \<and> (ent \<noteq> ent0 \<longrightarrow> (\<exists>s'. bmap_new_sub ent0 ent j s = Some (- E_NO_MEM, ent0, 0, s')
            \<and> frame s s' \<and> blk s' = (blk s)(ent := []) \<and> free_blks s' = {ent}))
    \<or> (\<exists>b s'. bmap_new_sub ent0 ent j s = Some (0, ent, b, s') \<and> b \<in> free_blks s \<and> free_blks s' = free_blks s - {b}
        \<and> blk s' = (blk s)(b := replicate SFS_BLKSIZE 0, ent := overlay (j * 4) (le_bytes 4 b) (blk s ent)) \<and> frame s s')"
  using sfs_block_alloc_ok[OF ok]
proof (elim disjE exE conjE)
  assume a: "free_blks s = {}" "sfs_block_alloc s = Some (- E_NO_MEM, 0, s)"
  from sfs_block_free_ok[OF ok e] obtain s' where
    "sfs_block_free ent s = Some s'" "free_blks s' = insert ent (free_blks s)" "blk s' = (blk s)(ent := [])" "frame s s'" by blast
  then show ?thesis using a by (simp add: bmap_new_sub_def)
next
  fix b s1
  assume a: "sfs_block_alloc s = Some (0, b, s1)" "b \<in> free_blks s" "free_blks s1 = free_blks s - {b}"
    "blk s1 = (blk s)(b := replicate SFS_BLKSIZE 0)" "frame s s1"
  have ne: "ent \<noteq> b" using e a(2) by (auto simp: used_def)
  have "used s1 ent" using e a(3) frameD(1)[OF a(5)] by (simp add: used_def)
  from sfs_wbuf_ok[OF frameD(8)[OF a(5)] this, of "j * 4" "le_bytes 4 b"] j obtain s2 where
    s2: "sfs_wbuf (le_bytes 4 b) ent (j * 4) s1 = Some (0, s2)" "core s2 = core s1"
      "blk s2 = (blk s1)(ent := overlay (j * 4) (le_bytes 4 b) (blk s1 ent))" "umem s2 = umem s1" by auto
  have "frame s s2" using frame_trans[OF a(5) frame_core[OF frameD(8)[OF a(5)] s2(2,4)]] .
  then show ?thesis using a s2 ne core_ok(2)[OF s2(2)] by (intro disjI2) (simp add: bmap_new_sub_def)
qed

definition spare :: "sfs_inode \<Rightarrow> nat" where
  "spare i = (if indirect (din i) = 0 then 1 else 0)"

definition meta :: "sfs_inode \<Rightarrow> sfs_inode" where
  "meta i = i\<lparr>din := (din i)\<lparr>direct := [], indirect := 0, dblocks := 0\<rparr>, dirty := False\<rparr>"

lemma map_ok_snoc:
  assumes m: "map_ok s i bl" and b: "used s' b" "b \<notin> set (owned i bl)" and l: "length bl < SFS_NDIRECT + SFS_BLK_NENTRY"
    and i': "ino i' = ino i" "dblocks (din i') = Suc (length bl)" "length (direct (din i')) = SFS_NDIRECT"
      "\<And>k. k < SFS_NDIRECT \<Longrightarrow> direct (din i') ! k = (if k = length bl then b else direct (din i) ! k)"
    and e: "indirect (din i') = indirect (din i) \<or> indirect (din i) = 0 \<and> indirect (din i') \<notin> set (owned i bl) \<and> indirect (din i') \<noteq> b"
      "SFS_NDIRECT \<le> length bl \<Longrightarrow> indirect (din i') \<noteq> 0"
      "indirect (din i') \<noteq> 0 \<Longrightarrow> used s' (indirect (din i'))"
      "\<And>j. indirect (din i') \<noteq> 0 \<Longrightarrow> j < SFS_BLK_NENTRY \<Longrightarrow> entry s' (indirect (din i')) j
         = (if SFS_NDIRECT + j = length bl then b else if SFS_NDIRECT + j < length bl then bl ! (SFS_NDIRECT + j) else 0)"
    and u: "\<And>c. c \<in> set (owned i bl) \<Longrightarrow> used s' c"
  shows "map_ok s' i' (bl @ [b])"
proof -
  have nth: "(bl @ [b]) ! k = (if k = length bl then b else bl ! k)" if "k < Suc (length bl)" for k
    using that by (auto simp: nth_append)
  have d: "direct (din i') ! k = (if k < length (bl @ [b]) then (bl @ [b]) ! k else 0)" if "k < SFS_NDIRECT" for k
    using m i'(4)[OF that] that nth[of k] by (auto simp: map_ok_def)
  have "distinct (owned i' (bl @ [b]))" using m b(2) e(1) i'(1) by (auto simp: map_ok_def owned_def inds_def split: if_splits)
  moreover have "used s' c" if "c \<in> set (owned i' (bl @ [b]))" for c
    using that u b(1) e(1,3) i'(1) by (auto simp: owned_def inds_def split: if_splits)
  moreover have "entry s' (indirect (din i')) j = (if SFS_NDIRECT + j < length (bl @ [b]) then (bl @ [b]) ! (SFS_NDIRECT + j) else 0)"
    if "indirect (din i') \<noteq> 0" "j < SFS_BLK_NENTRY" for j
    using e(4)[OF that] nth[of "SFS_NDIRECT + j"] by auto
  moreover have "indirect (din i') = 0 \<Longrightarrow> length (bl @ [b]) \<le> SFS_NDIRECT" using e(2) by (cases "SFS_NDIRECT \<le> length bl") auto
  ultimately show ?thesis using i'(2,3) d l unfolding map_ok_def by auto
qed


definition extended :: "sstate \<Rightarrow> nat \<Rightarrow> sfs_inode \<Rightarrow> nat list \<Rightarrow> nat \<Rightarrow> sstate \<Rightarrow> sfs_inode \<Rightarrow> bool" where
  "extended s n i bl b s' i' \<longleftrightarrow> file_rel s' n i' (bl @ [b]) \<and> fframe n s s' \<and> blk s b = [] \<and> blk s' b = replicate SFS_BLKSIZE 0
     \<and> (\<forall>c. blk s c \<noteq> [] \<and> c \<notin> set (inds i) \<longrightarrow> blk s' c = blk s c)
     \<and> set (owned i' (bl @ [b])) \<subseteq> set (owned i bl) \<union> {c. blk s c = []}
     \<and> card (free_blks s') + 1 + spare i = card (free_blks s) + spare i' \<and> meta i' = meta i"

abbreviation (input) count_block :: "nat \<Rightarrow> sstate \<Rightarrow> sstate" where
  "count_block n s \<equiv> upd_sin n (\<lambda>i. i\<lparr>din := (din i)\<lparr>dblocks := dblocks (din i) + 1\<rparr>\<rparr>) s"

lemma load_new:
  assumes f: "file_rel s n i bl" and g: "sfs_bmap_get_nolock n (length bl) True s = Some (0, b, s1)" and u: "sfs_ok s1" "used s1 b"
  shows "sfs_bmap_load_nolock n (length bl) s = Some (0, b, count_block n s1)"
  using f g used_inuse[OF u] by (simp add: sfs_bmap_load_nolock_def file_rel_def map_ok_def)

lemma load_fail:
  assumes f: "file_rel s n i bl" and g: "sfs_bmap_get_nolock n (length bl) True s = Some (- E_NO_MEM, 0, s1)"
  shows "sfs_bmap_load_nolock n (length bl) s = Some (- E_NO_MEM, 0, s1)"
  using f g by (simp add: sfs_bmap_load_nolock_def file_rel_def map_ok_def)

lemma bmap_load_direct:
  assumes f: "file_rel s n i bl" and l: "length bl < SFS_NDIRECT"
  shows "(\<exists>s'. sfs_bmap_load_nolock n (length bl) s = Some (- E_NO_MEM, 0, s') \<and> frame s s' \<and> blk s' = blk s
      \<and> free_blks s' = free_blks s \<and> card (free_blks s) \<le> spare i)
    \<or> (\<exists>b s' i'. sfs_bmap_load_nolock n (length bl) s = Some (0, b, s') \<and> extended s n i bl b s' i')"
proof -
  have ok: "sfs_ok s" and si: "sin_of n s = Some i" and m: "map_ok s i bl" using f by (auto simp: file_rel_def)
  have d0: "direct (din i) ! length bl = 0" "length (direct (din i)) = SFS_NDIRECT" using m l by (auto simp: map_ok_def)
  from sfs_block_alloc_ok[OF ok] show ?thesis
  proof (elim disjE exE conjE)
    assume a: "free_blks s = {}" "sfs_block_alloc s = Some (- E_NO_MEM, 0, s)"
    have "sfs_bmap_get_nolock n (length bl) True s = Some (- E_NO_MEM, 0, s)"
      using si l d0 a(2) by (simp add: sfs_bmap_get_nolock_def)
    from load_fail[OF f this] show ?thesis using ok a(1) by auto
  next
    fix b s1
    assume a: "sfs_block_alloc s = Some (0, b, s1)" "b \<in> free_blks s" "free_blks s1 = free_blks s - {b}"
      "blk s1 = (blk s)(b := replicate SFS_BLKSIZE 0)" "frame s s1"
    note fr = frameD[OF a(5)]
    have b: "blk s b = []" "b \<noteq> 0" "b < nblk s" using free_not_used[OF a(2)] free_lt[OF ok a(2)] by auto
    let ?s2 = "upd_sin n (\<lambda>i. i\<lparr>din := (din i)\<lparr>direct := (direct (din i))[length bl := b]\<rparr>, dirty := True\<rparr>) s1"
    let ?i' = "i\<lparr>din := (din i)\<lparr>direct := (direct (din i))[length bl := b], dblocks := Suc (length bl)\<rparr>, dirty := True\<rparr>"
    have u: "sfs_ok ?s2" "used ?s2 b" using fr(8) b(2,3) a(3) fr(1) by (simp_all add: used_def)
    have "sfs_bmap_get_nolock n (length bl) True s = Some (0, b, ?s2)"
      using si l d0 a(1) bmap_check_ok[OF u] by (simp add: sfs_bmap_get_nolock_def)
    note ld = load_new[OF f this u]
    have own: "blk s c \<noteq> []" if "c \<in> set (owned i bl)" for c using m that used_blk[OF ok] by (auto simp: map_ok_def)
    have keep: "blk s1 c = blk s c" if "blk s c \<noteq> []" for c using that a(4) b(1) by auto
    have "map_ok s1 ?i' (bl @ [b])"
    proof (rule map_ok_snoc[OF m])
      show "used s1 b" using u by simp
      show "b \<notin> set (owned i bl)" using own b(1) by blast
      show "used s1 c" if "c \<in> set (owned i bl)" for c
        using own[OF that] m that keep used_blk[OF ok] used_blk[OF fr(8)] by (auto simp: map_ok_def)
      then show "used s1 (indirect (din ?i'))" if "indirect (din ?i') \<noteq> 0" using that by (simp add: owned_def inds_def)
      show "entry s1 (indirect (din ?i')) j = (if SFS_NDIRECT + j = length bl then b else if SFS_NDIRECT + j < length bl then bl ! (SFS_NDIRECT + j) else 0)"
        if "indirect (din ?i') \<noteq> 0" "j < SFS_BLK_NENTRY" for j
        using that m l own keep by (simp add: map_ok_def entry_def owned_def inds_def)
    qed (use l d0 in auto)
    moreover have "sin_of n (count_block n ?s2) = Some ?i'" using fr(5) si m by (simp add: map_ok_def)
    moreover have "card (free_blks s1) + 1 = card (free_blks s)" using card.remove[OF finite_free[OF ok] a(2)] a(3) by simp
    moreover have "fframe n s (count_block n ?s2)"
      using fframe_trans[OF frame_fframe[OF a(5)] fframe_trans[OF upd_sin_fframe[OF fr(8)] upd_sin_fframe[OF u(1)]]] .
    ultimately have "extended s n i bl b (count_block n ?s2) ?i'"
      unfolding extended_def file_rel_def using b(1) keep a(4) u(1)
      by (auto simp: owned_def inds_def spare_def meta_def)
    then show ?thesis using ld by blast
  qed
qed


lemma extended_indirect:
  assumes f: "file_rel s n i bl" and l: "SFS_NDIRECT \<le> length bl" "length bl < SFS_NDIRECT + SFS_BLK_NENTRY"
    and e: "ent = indirect (din i) \<and> ent \<noteq> 0 \<and> blk s1 = blk s \<and> free_blks s1 = free_blks s
      \<or> indirect (din i) = 0 \<and> ent \<in> free_blks s \<and> blk s1 = (blk s)(ent := replicate SFS_BLKSIZE 0) \<and> free_blks s1 = free_blks s - {ent}"
    and b: "b \<in> free_blks s1" "free_blks s2 = free_blks s1 - {b}"
      "blk s2 = (blk s1)(b := replicate SFS_BLKSIZE 0, ent := overlay ((length bl - SFS_NDIRECT) * 4) (le_bytes 4 b) (blk s1 ent))"
    and s3: "fframe n s s3" "blk s3 = blk s2" "free_blks s3 = free_blks s2" "sin_of n s3 = Some i'"
    and i': "i' = i\<lparr>din := (din i)\<lparr>indirect := ent, dblocks := Suc (length bl)\<rparr>, dirty := d\<rparr>"
    and ok1: "sfs_ok s1"
  shows "extended s n i bl b s3 i'"
proof -
  let ?j = "length bl - SFS_NDIRECT"
  have ok: "sfs_ok s" "sfs_ok s3" and m: "map_ok s i bl" using f s3(1) by (auto simp: file_rel_def fframe_def)
  have own: "blk s c \<noteq> [] \<and> c \<noteq> 0" if "c \<in> set (owned i bl)" for c using m that used_blk[OF ok(1)] by (auto simp: map_ok_def)
  have bf: "b \<in> free_blks s" "b \<noteq> ent"
  proof -
    show "b \<noteq> ent"
    proof
      assume "b = ent"
      with e have "blk s ent = [] \<and> ent = indirect (din i) \<and> ent \<noteq> 0"
        by (elim disjE conjE) (use b(1) free_not_used[of b s] in simp_all)
      then show False using own[of ent] by (auto simp: owned_def inds_def)
    qed
    from e show "b \<in> free_blks s" by (elim disjE conjE) (use b(1) in simp_all)
  qed
  have bb: "blk s b = []" "b \<noteq> 0" "b < 2 ^ 32" using free_not_used[OF bf(1)] free_lt[OF ok(1) bf(1)] by auto
  from e have en: "ent \<noteq> 0" by (elim disjE conjE) (use free_lt[OF ok(1), of ent] in simp_all)
  have el: "length (blk s1 ent) = SFS_BLKSIZE"
    using e
  proof (elim disjE conjE)
    assume "ent = indirect (din i)" "ent \<noteq> 0" "blk s1 = blk s"
    then have "used s ent" using m by (simp add: map_ok_def owned_def inds_def)
    then show ?thesis using length_blk[of ent s] \<open>blk s1 = blk s\<close> by (simp add: used_def)
  qed simp
  have zero: "le_nat (take 4 (drop (4 * j) (blk s1 ent))) = (if SFS_NDIRECT + j < length bl then bl ! (SFS_NDIRECT + j) else 0)"
    if "j < SFS_BLK_NENTRY" for j
    using e
  proof (elim disjE conjE)
    assume "ent = indirect (din i)" "ent \<noteq> 0" "blk s1 = blk s"
    then show ?thesis using m that by (simp add: map_ok_def entry_def)
  next
    assume "indirect (din i) = 0" "blk s1 = (blk s)(ent := replicate SFS_BLKSIZE 0)"
    moreover from this(1) have "length bl \<le> SFS_NDIRECT" using m by (simp add: map_ok_def)
    ultimately show ?thesis using entry_zeros by simp
  qed
  have ent3: "entry s3 ent j = (if SFS_NDIRECT + j = length bl then b else if SFS_NDIRECT + j < length bl then bl ! (SFS_NDIRECT + j) else 0)"
    if "j < SFS_BLK_NENTRY" for j
  proof -
    have "blk s3 ent = overlay (4 * ?j) (le_bytes 4 b) (blk s1 ent)" unfolding s3(2) b(3) using bf(2) by (simp add: mult.commute)
    then have "entry s3 ent j = (if j = ?j then b else le_nat (take 4 (drop (4 * j) (blk s1 ent))))"
      unfolding entry_def using entry_write[OF el _ that bb(3), of ?j] l by simp
    moreover have "j = ?j \<longleftrightarrow> SFS_NDIRECT + j = length bl" using l by arith
    ultimately show ?thesis using zero[OF that] by simp
  qed
  have keep: "blk s3 c = blk s c" if "blk s c \<noteq> []" "c \<notin> set (inds i)" for c
  proof -
    from e have "c \<noteq> ent"
      by (elim disjE conjE) (use that free_not_used[of ent s] in \<open>auto simp: inds_def split: if_splits\<close>)
    moreover have "c \<noteq> b" using that bb(1) by auto
    moreover from e have "c \<noteq> ent \<Longrightarrow> blk s1 c = blk s c" by (elim disjE conjE) simp_all
    ultimately show ?thesis by (simp add: s3(2) b(3))
  qed
  have e3: "blk s3 ent \<noteq> []"
  proof -
    have "length (overlay (?j * 4) (le_bytes 4 b) (blk s1 ent)) = SFS_BLKSIZE" using el l by simp
    moreover have "blk s3 ent = overlay (?j * 4) (le_bytes 4 b) (blk s1 ent)" using bf(2) by (simp add: s3(2) b(3))
    ultimately show ?thesis by auto
  qed
  have u: "used s3 c" if "c \<in> set (owned i bl)" for c
  proof (cases "c \<in> set (inds i)")
    case True
    then have c: "c = indirect (din i)" "c \<noteq> 0" by (auto simp: inds_def split: if_splits)
    from e have "c = ent" by (elim disjE conjE) (use c in simp_all)
    then show ?thesis using e3 c(2) used_blk[OF ok(2)] by simp
  qed (use own[OF that] keep[of c] used_blk[OF ok(2), of c] in auto)
  have fe: "blk s ent = []" "ent \<notin> set (owned i bl)" if "indirect (din i) = 0"
  proof -
    from e show "blk s ent = []" by (elim disjE conjE) (use that free_not_used[of ent s] in simp_all)
    then show "ent \<notin> set (owned i bl)" using own[of ent] by blast
  qed
  have ub: "used s3 b" using bb(2) bf(2) used_blk[OF ok(2), of b] by (simp add: s3(2) b(3))
  have "map_ok s3 i' (bl @ [b])"
  proof (rule map_ok_snoc[OF m ub])
    show "b \<notin> set (owned i bl)" using own bb(1) by blast
    show "indirect (din i') = indirect (din i) \<or> indirect (din i) = 0 \<and> indirect (din i') \<notin> set (owned i bl) \<and> indirect (din i') \<noteq> b"
    proof -
      from e have "ent = indirect (din i) \<or> indirect (din i) = 0" by (elim disjE conjE) simp_all
      then show ?thesis using fe bf(2) by (auto simp: i')
    qed
    show "used s3 (indirect (din i'))" using e3 en used_blk[OF ok(2)] by (simp add: i')
  qed (use l i' en ent3 u m in \<open>auto simp: map_ok_def\<close>)
  moreover have "card (free_blks s3) + 1 = card (free_blks s1)" using card.remove[OF finite_free[OF ok1] b(1)] b(2) s3(3) by simp
  moreover have "card (free_blks s1) + spare i = card (free_blks s)"
    using e by (elim disjE conjE) (use card.remove[OF finite_free[OF ok(1)], of ent] in \<open>simp_all add: spare_def\<close>)
  moreover have "set (owned i' (bl @ [b])) \<subseteq> set (owned i bl) \<union> {c. blk s c = []}"
  proof -
    from e have "ent = indirect (din i) \<or> blk s ent = []" by (elim disjE conjE) (use fe in simp_all)
    then show ?thesis using en bb(1) by (auto simp: i' owned_def inds_def)
  qed
  moreover have "blk s3 b = replicate SFS_BLKSIZE 0" using bf(2) by (simp add: s3(2) b(3))
  moreover have "meta i' = meta i" "spare i' = 0" using en by (simp_all add: i' meta_def spare_def)
  ultimately show ?thesis unfolding extended_def file_rel_def using ok(2) s3(1,4) bb(1) keep by auto
qed


lemma get_indirect:
  assumes "sin_of n s = Some i" "SFS_NDIRECT \<le> k" "k < SFS_NDIRECT + SFS_BLK_NENTRY"
    "sfs_bmap_get_sub_nolock (indirect (din i)) (k - SFS_NDIRECT) True s = Some (0, ent, b, s1)"
    "ent = indirect (din i) \<or> indirect (din i) = 0" "sfs_ok s1" "used s1 b"
  shows "sfs_bmap_get_nolock n k True s = Some (0, b,
    if ent \<noteq> indirect (din i) then upd_sin n (\<lambda>i. i\<lparr>din := (din i)\<lparr>indirect := ent\<rparr>, dirty := True\<rparr>) s1 else s1)"
proof -
  let ?s2 = "upd_sin n (\<lambda>i. i\<lparr>din := (din i)\<lparr>indirect := ent\<rparr>, dirty := True\<rparr>) s1"
  have "bmap_check b s1 = Some (0, b, s1)" "bmap_check b ?s2 = Some (0, b, ?s2)" using assms(6,7) by (auto intro: bmap_check_ok)
  then show ?thesis using assms(1-5) by (auto simp: sfs_bmap_get_nolock_def)
qed

lemma bmap_load_indirect:
  assumes f: "file_rel s n i bl" and l: "SFS_NDIRECT \<le> length bl" "length bl < SFS_NDIRECT + SFS_BLK_NENTRY"
  shows "(\<exists>s'. sfs_bmap_load_nolock n (length bl) s = Some (- E_NO_MEM, 0, s') \<and> frame s s' \<and> blk s' = blk s
      \<and> free_blks s' = free_blks s \<and> card (free_blks s) \<le> spare i)
    \<or> (\<exists>b s' i'. sfs_bmap_load_nolock n (length bl) s = Some (0, b, s') \<and> extended s n i bl b s' i')"
proof -
  have ok: "sfs_ok s" and si: "sin_of n s = Some i" and m: "map_ok s i bl" using f by (auto simp: file_rel_def)
  let ?j = "length bl - SFS_NDIRECT" and ?e = "indirect (din i)"
  have j: "?j < SFS_BLK_NENTRY" using l by arith
  show ?thesis
  proof (cases "?e = 0")
    case False
    have e: "used s ?e" "entry s ?e ?j = 0" using m False l by (auto simp: map_ok_def owned_def inds_def)
    from sfs_rbuf_ok[OF ok e(1), of "?j * 4" 4] j obtain s1 where
      s1: "sfs_rbuf 4 ?e (?j * 4) s = Some (0, take 4 (drop (?j * 4) (blk s ?e)), s1)" "same s s1" by auto
    have z: "le_nat (take 4 (drop (?j * 4) (blk s ?e))) = 0" using e(2) by (simp add: entry_def mult.commute)
    have fr1: "frame s s1" "blk s1 = blk s" using same_frame[OF ok s1(2)] by auto
    have u1: "used s1 ?e" "free_blks s1 = free_blks s" using core_ok[of s1 s] s1(2) e(1) by (auto simp: same_def)
    have sub: "sfs_bmap_get_sub_nolock ?e ?j True s = bmap_new_sub ?e ?e ?j s1"
      using False j s1(1) z by (simp add: sfs_bmap_get_sub_nolock_def)
    from new_sub_ok[OF frameD(8)[OF fr1(1)] u1(1) j, of ?e] show ?thesis
    proof (elim disjE exE conjE)
      assume a: "free_blks s1 = {}" "?e = ?e \<longrightarrow> bmap_new_sub ?e ?e ?j s1 = Some (- E_NO_MEM, ?e, 0, s1)"
      then have "sfs_bmap_get_nolock n (length bl) True s = Some (- E_NO_MEM, 0, s1)"
        using si l sub by (simp add: sfs_bmap_get_nolock_def)
      from load_fail[OF f this] show ?thesis using fr1 u1(2) a(1) by auto
    next
      fix b s2
      assume a: "bmap_new_sub ?e ?e ?j s1 = Some (0, ?e, b, s2)" "b \<in> free_blks s1" "free_blks s2 = free_blks s1 - {b}"
        "blk s2 = (blk s1)(b := replicate SFS_BLKSIZE 0, ?e := overlay (?j * 4) (le_bytes 4 b) (blk s1 ?e))" "frame s1 s2"
      have fr2: "frame s s2" using frame_trans[OF fr1(1) a(5)] .
      have ub: "used s2 b" using free_lt[OF frameD(8)[OF fr1(1)] a(2)] a(3) frameD(1)[OF a(5)] by (simp add: used_def)
      have g: "sfs_bmap_get_nolock n (length bl) True s = Some (0, b, s2)"
        using get_indirect[OF si l, of ?e b s2] sub a(1) frameD(8)[OF fr2] ub by simp
      have "extended s n i bl b (count_block n s2) (i\<lparr>din := (din i)\<lparr>indirect := ?e, dblocks := Suc (length bl)\<rparr>, dirty := dirty i\<rparr>)"
      proof (rule extended_indirect[OF f l _ a(2,3,4) _ _ _ _ refl frameD(8)[OF fr1(1)]])
        show "fframe n s (count_block n s2)" using fframe_trans[OF frame_fframe[OF fr2] upd_sin_fframe[OF frameD(8)[OF fr2]]] .
        show "sin_of n (count_block n s2) = Some (i\<lparr>din := (din i)\<lparr>indirect := ?e, dblocks := Suc (length bl)\<rparr>, dirty := dirty i\<rparr>)"
          using frameD(5)[OF fr2] si m by (simp add: map_ok_def)
      qed (use False fr1(2) u1(2) in simp_all)
      then show ?thesis using load_new[OF f g frameD(8)[OF fr2] ub] by blast
    qed
  next
    case True
    from sfs_block_alloc_ok[OF ok] show ?thesis
    proof (elim disjE exE conjE)
      assume a: "free_blks s = {}" "sfs_block_alloc s = Some (- E_NO_MEM, 0, s)"
      then have "sfs_bmap_get_nolock n (length bl) True s = Some (- E_NO_MEM, 0, s)"
        using si l True by (simp add: sfs_bmap_get_nolock_def sfs_bmap_get_sub_nolock_def)
      from load_fail[OF f this] show ?thesis using ok a(1) by auto
    next
      fix ent s1
      assume e: "sfs_block_alloc s = Some (0, ent, s1)" "ent \<in> free_blks s" "free_blks s1 = free_blks s - {ent}"
        "blk s1 = (blk s)(ent := replicate SFS_BLKSIZE 0)" "frame s s1"
      have en: "ent \<noteq> 0" "used s1 ent" using free_lt[OF ok e(2)] e(3) frameD(1)[OF e(5)] by (auto simp: used_def)
      have sub: "sfs_bmap_get_sub_nolock ?e ?j True s = bmap_new_sub 0 ent ?j s1"
        using True j e(1) by (simp add: sfs_bmap_get_sub_nolock_def)
      from new_sub_ok[OF frameD(8)[OF e(5)] en(2) j, of 0] show ?thesis
      proof (elim disjE exE conjE)
        assume a: "free_blks s1 = {}" "ent \<noteq> 0 \<longrightarrow> (\<exists>s'. bmap_new_sub 0 ent ?j s1 = Some (- E_NO_MEM, 0, 0, s')
            \<and> frame s1 s' \<and> blk s' = (blk s1)(ent := []) \<and> free_blks s' = {ent})"
        then obtain s2 where s2: "bmap_new_sub 0 ent ?j s1 = Some (- E_NO_MEM, 0, 0, s2)" "frame s1 s2"
          "blk s2 = (blk s1)(ent := [])" "free_blks s2 = {ent}" using en(1) by blast
        have "sfs_bmap_get_nolock n (length bl) True s = Some (- E_NO_MEM, 0, s2)"
          using si l sub s2(1) by (simp add: sfs_bmap_get_nolock_def)
        note ld = load_fail[OF f this]
        have "free_blks s = {ent}" using a(1) e(2,3) by auto
        moreover have "blk s2 = blk s" using s2(3) e(4) free_not_used[OF e(2)] by (auto simp: fun_eq_iff)
        ultimately show ?thesis using ld frame_trans[OF e(5) s2(2)] s2(4) True by (auto simp: spare_def)
      next
        fix b s2
        assume a: "bmap_new_sub 0 ent ?j s1 = Some (0, ent, b, s2)" "b \<in> free_blks s1" "free_blks s2 = free_blks s1 - {b}"
          "blk s2 = (blk s1)(b := replicate SFS_BLKSIZE 0, ent := overlay (?j * 4) (le_bytes 4 b) (blk s1 ent))" "frame s1 s2"
        have fr2: "frame s s2" using frame_trans[OF e(5) a(5)] .
        have ub: "used s2 b" using free_lt[OF frameD(8)[OF e(5)] a(2)] a(3) frameD(1)[OF a(5)] by (simp add: used_def)
        let ?s3 = "upd_sin n (\<lambda>i. i\<lparr>din := (din i)\<lparr>indirect := ent\<rparr>, dirty := True\<rparr>) s2"
        have g: "sfs_bmap_get_nolock n (length bl) True s = Some (0, b, ?s3)"
          using get_indirect[OF si l, of ent b s2] sub a(1) frameD(8)[OF fr2] ub True en(1) by simp
        have "extended s n i bl b (count_block n ?s3) (i\<lparr>din := (din i)\<lparr>indirect := ent, dblocks := Suc (length bl)\<rparr>, dirty := True\<rparr>)"
        proof (rule extended_indirect[OF f l _ a(2,3,4) _ _ _ _ refl frameD(8)[OF e(5)]])
          show "fframe n s (count_block n ?s3)"
            using fframe_trans[OF frame_fframe[OF fr2] fframe_trans[OF upd_sin_fframe upd_sin_fframe]] frameD(8)[OF fr2] by simp
          show "sin_of n (count_block n ?s3) = Some (i\<lparr>din := (din i)\<lparr>indirect := ent, dblocks := Suc (length bl)\<rparr>, dirty := True\<rparr>)"
            using frameD(5)[OF fr2] si m by (simp add: map_ok_def)
        qed (use True e(2,3,4) in simp_all)
        then show ?thesis using load_new[OF f g] frameD(8)[OF fr2] ub by auto
      qed
    qed
  qed
qed

lemma bmap_load_new:
  assumes "file_rel s n i bl" "length bl < SFS_NDIRECT + SFS_BLK_NENTRY"
  shows "(\<exists>s'. sfs_bmap_load_nolock n (length bl) s = Some (- E_NO_MEM, 0, s') \<and> frame s s' \<and> blk s' = blk s
      \<and> free_blks s' = free_blks s \<and> card (free_blks s) \<le> spare i)
    \<or> (\<exists>b s' i'. sfs_bmap_load_nolock n (length bl) s = Some (0, b, s') \<and> extended s n i bl b s' i')"
  using bmap_load_direct[OF assms(1)] bmap_load_indirect[OF assms(1) _ assms(2)] by (cases "length bl < SFS_NDIRECT") auto


section \<open>Bytes of a file\<close>

definition fbyte :: "sstate \<Rightarrow> nat list \<Rightarrow> nat \<Rightarrow> 8 word" where
  "fbyte s bl p = blk s (bl ! (p div SFS_BLKSIZE)) ! (p mod SFS_BLKSIZE)"

text \<open>\<open>wrote s n i bl p data s' i' bl'\<close>: from \<open>s\<close> to \<open>s'\<close> the bytes \<open>data\<close> have been stored in the file at position \<open>p\<close>;
  the file has grown by zeros where needed, the blocks of other files are as before, and new
  blocks were free before.\<close>

definition wrote :: "sstate \<Rightarrow> nat \<Rightarrow> sfs_inode \<Rightarrow> nat list \<Rightarrow> nat \<Rightarrow> 8 word list \<Rightarrow> sstate \<Rightarrow> sfs_inode \<Rightarrow> nat list \<Rightarrow> bool" where
  "wrote s n i bl p data s' i' bl' \<longleftrightarrow> file_rel s' n i' bl' \<and> fframe n s s' \<and> meta i' = meta i \<and> (\<exists>new. bl' = bl @ new)
     \<and> (\<forall>c. blk s c \<noteq> [] \<and> c \<notin> set (inds i) \<union> set bl \<longrightarrow> blk s' c = blk s c)
     \<and> set (owned i' bl') \<subseteq> set (owned i bl) \<union> {c. blk s c = []}
     \<and> card (free_blks s') + (length bl' - length bl) + spare i = card (free_blks s) + spare i'
     \<and> (\<forall>q < SFS_BLKSIZE * length bl'. fbyte s' bl' q = (if p \<le> q \<and> q < p + length data then data ! (q - p)
          else if q < SFS_BLKSIZE * length bl then fbyte s bl q else 0))
     \<and> (data \<noteq> [] \<longrightarrow> p + length data \<le> SFS_BLKSIZE * length bl')"

lemma wroteD:
  assumes "wrote s n i bl p data s' i' bl'"
  shows "file_rel s' n i' bl'" "fframe n s s'" "meta i' = meta i" "\<exists>new. bl' = bl @ new"
    "blk s c \<noteq> [] \<Longrightarrow> c \<notin> set (inds i) \<union> set bl \<Longrightarrow> blk s' c = blk s c"
    "set (owned i' bl') \<subseteq> set (owned i bl) \<union> {c. blk s c = []}"
    "card (free_blks s') + (length bl' - length bl) + spare i = card (free_blks s) + spare i'"
    "q < SFS_BLKSIZE * length bl' \<Longrightarrow> fbyte s' bl' q = (if p \<le> q \<and> q < p + length data then data ! (q - p)
       else if q < SFS_BLKSIZE * length bl then fbyte s bl q else 0)"
    "data \<noteq> [] \<longrightarrow> p + length data \<le> SFS_BLKSIZE * length bl'"
proof -
  note w = assms[unfolded wrote_def, THEN conjunct2, THEN conjunct2, THEN conjunct2, THEN conjunct2]
  note k = w[THEN conjunct1] and b = w[THEN conjunct2, THEN conjunct2, THEN conjunct2, THEN conjunct1]
  show "blk s' c = blk s c" if "blk s c \<noteq> []" "c \<notin> set (inds i) \<union> set bl" using k that by blast
  show "fbyte s' bl' q = (if p \<le> q \<and> q < p + length data then data ! (q - p) else if q < SFS_BLKSIZE * length bl then fbyte s bl q else 0)"
    if "q < SFS_BLKSIZE * length bl'" using b that by blast
  show "data \<noteq> [] \<longrightarrow> p + length data \<le> SFS_BLKSIZE * length bl'"
    by (rule w[THEN conjunct2, THEN conjunct2, THEN conjunct2, THEN conjunct2])
qed (use assms in \<open>simp_all only: wrote_def\<close>)

lemma wrote_refl: "file_rel s n i bl \<Longrightarrow> wrote s n i bl p [] s i bl"
  by (auto simp: wrote_def file_rel_def)

lemma meta_ino: "meta i' = meta i \<Longrightarrow> ino i' = ino i"
  by (metis meta_def sfs_inode.select_convs(2) sfs_inode.surjective sfs_inode.update_convs(1,3))

lemma wrote_trans:
  assumes a: "wrote s n i bl p d1 s1 i1 bl1" and b: "wrote s1 n i1 bl1 (p + length d1) d2 s2 i2 bl2"
  shows "wrote s n i bl p (d1 @ d2) s2 i2 bl2"
proof -
  from wroteD(4)[OF a] wroteD(4)[OF b] obtain n1 n2 where bl: "bl1 = bl @ n1" "bl2 = bl1 @ n2" by blast
  have dist: "distinct (owned i1 bl1)" and ino: "ino i1 = ino i"
    using wroteD(1)[OF a] meta_ino[OF wroteD(3)[OF a]] by (simp_all add: file_rel_def map_ok_def)
  have keep: "blk s2 c = blk s c" if c: "blk s c \<noteq> []" "c \<notin> set (inds i) \<union> set bl" for c
  proof -
    have 1: "blk s1 c = blk s c" using wroteD(5)[OF a c] .
    have "c \<notin> set (inds i1) \<union> set bl1"
    proof
      assume "c \<in> set (inds i1) \<union> set bl1"
      then have "c \<in> set (owned i1 bl1)" "c \<noteq> ino i" using dist ino by (auto simp: owned_def)
      then show False using wroteD(6)[OF a] c by (auto simp: owned_def)
    qed
    with wroteD(5)[OF b, of c] 1 c(1) show ?thesis by simp
  qed
  have own: "set (owned i2 bl2) \<subseteq> set (owned i bl) \<union> {c. blk s c = []}"
  proof
    fix c assume "c \<in> set (owned i2 bl2)"
    then have "c \<in> set (owned i1 bl1) \<or> blk s1 c = []" using wroteD(6)[OF b] by auto
    then show "c \<in> set (owned i bl) \<union> {c. blk s c = []}"
    proof
      assume "blk s1 c = []"
      with wroteD(5)[OF a, of c] have "blk s c = [] \<or> c \<in> set (inds i) \<union> set bl" by auto
      then show ?thesis by (auto simp: owned_def)
    qed (use wroteD(6)[OF a] in blast)
  qed
  have byte: "fbyte s2 bl2 q = (if p \<le> q \<and> q < p + length (d1 @ d2) then (d1 @ d2) ! (q - p)
      else if q < SFS_BLKSIZE * length bl then fbyte s bl q else 0)" if q: "q < SFS_BLKSIZE * length bl2" for q
  proof (cases "p + length d1 \<le> q \<and> q < p + length d1 + length d2")
    case True
    then have "\<not> q - p < length d1" "q - p - length d1 = q - (p + length d1)" by auto
    then show ?thesis using wroteD(8)[OF b q] True by (simp add: nth_append)
  next
    case False
    then have 2: "fbyte s2 bl2 q = (if q < SFS_BLKSIZE * length bl1 then fbyte s1 bl1 q else 0)" using wroteD(8)[OF b q] by (simp only: if_False)
    show ?thesis
    proof (cases "q < SFS_BLKSIZE * length bl1")
      case True
      with wroteD(8)[OF a True] False 2 show ?thesis by (auto simp: nth_append)
    next
      case F: False
      then have "\<not> (p \<le> q \<and> q < p + length d1)" using wroteD(9)[OF a] by (cases "d1 = []") auto
      moreover have "\<not> q < SFS_BLKSIZE * length bl" using F bl(1) by simp
      ultimately show ?thesis using F False 2 by auto
    qed
  qed
  show ?thesis unfolding wrote_def
  proof (intro conjI)
    show "fframe n s s2" by (rule fframe_trans[OF wroteD(2)[OF a] wroteD(2)[OF b]])
    show "\<exists>new. bl2 = bl @ new" using bl by simp
    show "card (free_blks s2) + (length bl2 - length bl) + spare i = card (free_blks s) + spare i2"
      using wroteD(7)[OF a] wroteD(7)[OF b] bl by simp
    show "d1 @ d2 \<noteq> [] \<longrightarrow> p + length (d1 @ d2) \<le> SFS_BLKSIZE * length bl2"
      using wroteD(9)[OF a] wroteD(9)[OF b] bl by (cases "d2 = []") auto
    show "set (owned i2 bl2) \<subseteq> set (owned i bl) \<union> {c. blk s c = []}" by (rule own)
    show "file_rel s2 n i2 bl2" "meta i2 = meta i" using wroteD(1,3)[OF b] wroteD(3)[OF a] by simp_all
  qed (use keep byte in blast)+
qed

lemma wrote_extended:
  assumes f: "file_rel s n i bl" and e: "extended s n i bl b s' i'"
  shows "wrote s n i bl p [] s' i' (bl @ [b])"
proof -
  have m: "map_ok s i bl" "sfs_ok s" using f by (auto simp: file_rel_def)
  have own: "blk s c \<noteq> [] \<and> c \<notin> set (inds i)" if "c \<in> set bl" for c
    using m that used_blk[of s c] by (auto simp: map_ok_def owned_def)
  have "fbyte s' (bl @ [b]) q = (if q < SFS_BLKSIZE * length bl then fbyte s bl q else 0)" if "q < SFS_BLKSIZE * length (bl @ [b])" for q
  proof (cases "q < SFS_BLKSIZE * length bl")
    case True
    then have k: "q div SFS_BLKSIZE < length bl" by (simp add: less_mult_imp_div_less mult.commute)
    then have "blk s' (bl ! (q div SFS_BLKSIZE)) = blk s (bl ! (q div SFS_BLKSIZE))" using e own by (simp add: extended_def)
    then show ?thesis using True k by (simp add: fbyte_def nth_append)
  next
    case False
    then have k: "q div SFS_BLKSIZE = length bl" using that by (intro div_nat_eqI) auto
    then show ?thesis using False e by (simp add: fbyte_def nth_append extended_def)
  qed
  then show ?thesis using e by (auto simp: wrote_def extended_def)
qed

lemma wrote_overlay:
  assumes f: "file_rel s n i bl" and k: "k < length bl" and d: "off + length data \<le> SFS_BLKSIZE"
    and s': "core s' = core s" "blk s' = (blk s)(bl ! k := overlay off data (blk s (bl ! k)))" "umem s' = umem s"
  shows "wrote s n i bl (k * SFS_BLKSIZE + off) data s' i bl"
proof -
  have m: "map_ok s i bl" "sfs_ok s" using f by (auto simp: file_rel_def)
  have own: "used s c" if "c \<in> set (owned i bl)" for c using m that by (auto simp: map_ok_def)
  have bk: "used s (bl ! k)" "bl ! k \<notin> set (inds i)" using m k own[of "bl ! k"] by (auto simp: map_ok_def owned_def)
  have len: "length (blk s (bl ! k)) = SFS_BLKSIZE" using bk length_blk[of "bl ! k" s] by (simp add: used_def)
  have fr: "frame s s'" using frame_core[OF m(2) s'(1,3)] .
  have "entry s' (indirect (din i)) j = entry s (indirect (din i)) j" if "indirect (din i) \<noteq> 0" for j
    using bk(2) that by (auto simp: entry_def s'(2) inds_def)
  then have "map_ok s' i bl" using m core_ok(4)[OF s'(1)] by (simp add: map_ok_def)
  then have fr': "file_rel s' n i bl" using f frameD(5,8)[OF fr] by (simp add: file_rel_def)
  have "fbyte s' bl q = (if k * SFS_BLKSIZE + off \<le> q \<and> q < k * SFS_BLKSIZE + off + length data then data ! (q - (k * SFS_BLKSIZE + off))
      else fbyte s bl q)" if q: "q < SFS_BLKSIZE * length bl" for q
  proof -
    have ql: "q div SFS_BLKSIZE < length bl" using q by (simp add: less_mult_imp_div_less mult.commute)
    have eq: "q = q div SFS_BLKSIZE * SFS_BLKSIZE + q mod SFS_BLKSIZE" "q mod SFS_BLKSIZE < SFS_BLKSIZE" by simp_all
    show ?thesis
    proof (cases "q div SFS_BLKSIZE = k")
      case True
      then have "fbyte s' bl q = overlay off data (blk s (bl ! k)) ! (q mod SFS_BLKSIZE)" by (simp add: fbyte_def s'(2))
      also have "\<dots> = (if off \<le> q mod SFS_BLKSIZE \<and> q mod SFS_BLKSIZE < off + length data then data ! (q mod SFS_BLKSIZE - off)
          else blk s (bl ! k) ! (q mod SFS_BLKSIZE))" using overlay_nth[of off data "blk s (bl ! k)"] len d eq(2) by simp
      finally have 1: "fbyte s' bl q = (if off \<le> q mod SFS_BLKSIZE \<and> q mod SFS_BLKSIZE < off + length data
          then data ! (q mod SFS_BLKSIZE - off) else fbyte s bl q)" using True by (simp add: fbyte_def)
      have "q = k * SFS_BLKSIZE + q mod SFS_BLKSIZE" using eq(1) True by simp
      then have "off \<le> q mod SFS_BLKSIZE \<longleftrightarrow> k * SFS_BLKSIZE + off \<le> q" "q mod SFS_BLKSIZE < off + length data \<longleftrightarrow> q < k * SFS_BLKSIZE + off + length data"
        "q mod SFS_BLKSIZE - off = q - (k * SFS_BLKSIZE + off)" by linarith+
      with 1 show ?thesis by simp
    next
      case False
      then have "bl ! (q div SFS_BLKSIZE) \<noteq> bl ! k" using m(1) ql k by (auto simp: map_ok_def owned_def nth_eq_iff_index_eq)
      then have "fbyte s' bl q = fbyte s bl q" by (simp add: fbyte_def s'(2))
      moreover have "\<not> (k * SFS_BLKSIZE + off \<le> q \<and> q < k * SFS_BLKSIZE + off + length data)"
      proof
        assume "k * SFS_BLKSIZE + off \<le> q \<and> q < k * SFS_BLKSIZE + off + length data"
        then have "q div SFS_BLKSIZE = k" using d by (intro div_nat_eqI) auto
        with False show False by simp
      qed
      ultimately show ?thesis by (simp only: if_False)
    qed
  qed
  moreover have "k * SFS_BLKSIZE + off + length data \<le> SFS_BLKSIZE * length bl"
    using k d mult_le_mono1[of "Suc k" "length bl" SFS_BLKSIZE] by simp
  ultimately show ?thesis using fr' frame_fframe[OF fr] core_ok(2)[OF s'(1)] k by (auto simp: wrote_def s'(2))
qed


section \<open>Writing\<close>

text \<open>One step of a write: the block with number \<open>k\<close> is looked up, or added at the end of the file, and the
  bytes \<open>data\<close> are stored in it at \<open>off\<close>.\<close>

definition stores_at :: "(nat \<Rightarrow> sstate \<Rightarrow> (int \<times> sstate) option) \<Rightarrow> nat \<Rightarrow> 8 word list \<Rightarrow> sstate \<Rightarrow> bool" where
  "stores_at f off data s \<longleftrightarrow> (\<forall>t b. sfs_ok t \<and> used t b \<and> umem t = umem s \<and> disk_area t = disk_area s \<and> scratch t = scratch s \<longrightarrow>
     (\<exists>t'. f b t = Some (0, t') \<and> core t' = core t \<and> blk t' = (blk t)(b := overlay off data (blk t b)) \<and> umem t' = umem t))"

lemma write_block:
  assumes f: "file_rel s n i bl" and k: "k \<le> length bl" "k < SFS_NDIRECT + SFS_BLK_NENTRY" and d: "off + length data \<le> SFS_BLKSIZE"
    and op: "stores_at f off data s"
  shows "(\<exists>s'. sfs_bmap_load_nolock n k s = Some (- E_NO_MEM, 0, s') \<and> wrote s n i bl (k * SFS_BLKSIZE + off) [] s' i bl
      \<and> card (free_blks s') \<le> spare i \<and> k = length bl)
    \<or> (\<exists>b s1 s' i' bl'. sfs_bmap_load_nolock n k s = Some (0, b, s1) \<and> f b s1 = Some (0, s')
        \<and> wrote s n i bl (k * SFS_BLKSIZE + off) data s' i' bl' \<and> length bl' = max (length bl) (Suc k))"
proof (cases "k < length bl")
  case True
  from bmap_load_old[OF f True] obtain s1 where s1: "sfs_bmap_load_nolock n k s = Some (0, bl ! k, s1)" "same s s1" by blast
  have ok: "sfs_ok s" using f by (simp add: file_rel_def)
  note fr = same_frame[OF ok s1(2)]
  have f1: "file_rel s1 n i bl" using file_rel_frame[OF f] fr by simp
  have w1: "wrote s n i bl (k * SFS_BLKSIZE + off) [] s1 i bl"
    using f1 fr core_ok(2)[of s1 s] s1(2) by (auto simp: wrote_def fbyte_def same_def intro: frame_fframe)
  have "used s1 (bl ! k)" "sfs_ok s1" using f1 True by (auto simp: file_rel_def map_ok_def owned_def)
  with op[unfolded stores_at_def, rule_format, of s1 "bl ! k"] frameD[of s s1] fr obtain s' where
    s': "f (bl ! k) s1 = Some (0, s')" "core s' = core s1" "blk s' = (blk s1)(bl ! k := overlay off data (blk s1 (bl ! k)))"
      "umem s' = umem s1" by auto
  from wrote_overlay[OF f1 True d s'(2,3,4)] have "wrote s1 n i bl (k * SFS_BLKSIZE + off) data s' i bl" .
  with wrote_trans[OF w1, of data s' i bl] have "wrote s n i bl (k * SFS_BLKSIZE + off) data s' i bl" by simp
  moreover have "length bl = max (length bl) (Suc k)" using True by simp
  ultimately show ?thesis using s1(1) s'(1) by blast
next
  case False
  then have kl: "k = length bl" using k(1) by simp
  have ok: "sfs_ok s" using f by (simp add: file_rel_def)
  from bmap_load_new[OF f k(2)[unfolded kl]] show ?thesis
  proof (elim disjE exE conjE)
    fix s'
    assume a: "sfs_bmap_load_nolock n (length bl) s = Some (- E_NO_MEM, 0, s')" "frame s s'" "blk s' = blk s" "free_blks s' = free_blks s"
      "card (free_blks s) \<le> spare i"
    have "file_rel s' n i bl" using file_rel_frame[OF f a(2)] a(3) by simp
    then have "wrote s n i bl (k * SFS_BLKSIZE + off) [] s' i bl"
      using a by (auto simp: wrote_def fbyte_def intro: frame_fframe)
    then show ?thesis using a kl by auto
  next
    fix b s1 i1
    assume a: "sfs_bmap_load_nolock n (length bl) s = Some (0, b, s1)" "extended s n i bl b s1 i1"
    note w1 = wrote_extended[OF f a(2), of "k * SFS_BLKSIZE + off"]
    note f1 = wroteD(1)[OF w1] and fr = wroteD(2)[OF w1]
    have u: "used s1 b" "sfs_ok s1" using f1 by (auto simp: file_rel_def map_ok_def owned_def)
    from fr have area: "umem s1 = umem s" "disk_area s1 = disk_area s" "scratch s1 = scratch s"
      using fframe_view[OF fr] by auto
    from op[unfolded stores_at_def, rule_format, of s1 b] u area obtain s' where
      s': "f b s1 = Some (0, s')" "core s' = core s1" "blk s' = (blk s1)(b := overlay off data (blk s1 b))" "umem s' = umem s1" by auto
    have "(bl @ [b]) ! k = b" "k < length (bl @ [b])" using kl by auto
    with wrote_overlay[OF f1 this(2) d s'(2) _ s'(4)] s'(3)
    have "wrote s1 n i1 (bl @ [b]) (k * SFS_BLKSIZE + off) data s' i1 (bl @ [b])" by simp
    with wrote_trans[OF w1, of data s' i1 "bl @ [b]"] have "wrote s n i bl (k * SFS_BLKSIZE + off) data s' i1 (bl @ [b])" by simp
    moreover have "length (bl @ [b]) = max (length bl) (Suc k)" using kl by simp
    ultimately show ?thesis using a(1) s'(1) kl by blast
  qed
qed


lemma bytes_append: "bytes m a (x + y) = bytes m a x @ bytes m (a + x) y"
  by (rule nth_equalityI) (auto simp: nth_append bytes_def)

lemma user_buf_sub: "user_buf s a n \<Longrightarrow> a \<le> b \<Longrightarrow> b + m \<le> a + n \<Longrightarrow> user_buf s b m"
  by (auto simp: user_buf_def disjoint_iff)

text \<open>The outcome of a transfer of \<open>len\<close> bytes to the file: everything is stored, or the disk is full and a
  part is stored.\<close>

definition stored :: "sstate \<Rightarrow> nat \<Rightarrow> sfs_inode \<Rightarrow> nat list \<Rightarrow> nat \<Rightarrow> nat \<Rightarrow> nat \<Rightarrow> nat \<Rightarrow> int \<Rightarrow> nat \<Rightarrow> sstate \<Rightarrow> sfs_inode \<Rightarrow> nat list \<Rightarrow> bool" where
  "stored s n i bl p buf len k ret m s' i' bl' \<longleftrightarrow> wrote s n i bl p (bytes (umem s) buf m) s' i' bl' \<and> length bl' \<le> max (length bl) k
     \<and> (ret = 0 \<and> m = len \<or> ret = - E_NO_MEM \<and> m < len \<and> card (free_blks s') \<le> spare i' \<and> length bl' < k)"

lemma stored_more:
  assumes "stored s n i bl p buf len k ret m s' i' bl'" "k \<le> k'" "len' = len \<or> ret \<noteq> 0 \<and> len \<le> len'"
  shows "stored s n i bl p buf len' k' ret m s' i' bl'"
  using assms unfolding stored_def by (meson le_max_iff_disj less_le_trans order_trans)

lemma stored_trans:
  assumes a: "stored s n i bl p buf l1 k1 0 m1 s1 i1 bl1" and b: "stored s1 n i1 bl1 (p + l1) (buf + l1) l2 k2 ret m2 s2 i2 bl2" and k: "k1 \<le> k2"
  shows "stored s n i bl p buf (l1 + l2) k2 ret (l1 + m2) s2 i2 bl2"
proof -
  have m: "m1 = l1" and w1: "wrote s n i bl p (bytes (umem s) buf l1) s1 i1 bl1" using a by (auto simp: stored_def)
  have u: "umem s1 = umem s" using fframe_view(5)[OF wroteD(2)[OF w1]] .
  have w2: "wrote s1 n i1 bl1 (p + length (bytes (umem s) buf l1)) (bytes (umem s) (buf + l1) m2) s2 i2 bl2"
    using b u by (simp add: stored_def)
  from wrote_trans[OF w1 w2] show ?thesis using a b k by (auto simp: stored_def bytes_append)
qed

lemma part_write:
  assumes f: "file_rel s n i bl" and k: "k \<le> length bl" "k < SFS_NDIRECT + SFS_BLK_NENTRY" and l: "0 < len" "off + len \<le> SFS_BLKSIZE"
    and u: "user_buf s buf len"
  shows "\<exists>ret m s' i' bl'. sfs_io_part True n buf len k off s = Some (ret, m, s')
    \<and> stored s n i bl (k * SFS_BLKSIZE + off) buf len (Suc k) ret m s' i' bl' \<and> (ret = 0 \<longrightarrow> k < length bl')"
proof -
  let ?d = "bytes (umem s) buf len"
  have op: "stores_at (\<lambda>b. sfs_buf_op True buf len b off) off ?d s" unfolding stores_at_def
  proof (intro allI impI, elim conjE)
    fix t b assume that: "sfs_ok t" "used t b" "umem t = umem s" "disk_area t = disk_area s" "scratch t = scratch s"
    have "bytes (vmemory t) buf len = ?d" using user_bytes[of buf len t] u that(3-5) by (simp add: user_buf_def)
    then show "\<exists>t'. sfs_buf_op True buf len b off t = Some (0, t') \<and> core t' = core t
        \<and> blk t' = (blk t)(b := overlay off ?d (blk t b)) \<and> umem t' = umem t"
      using sfs_wbuf_ok[OF that(1,2), of off ?d] l by (simp add: sfs_buf_op_def)
  qed
  have "off + length ?d \<le> SFS_BLKSIZE" using l by simp
  from write_block[OF f k this op] show ?thesis
  proof (elim disjE exE conjE)
    fix s' assume "sfs_bmap_load_nolock n k s = Some (- E_NO_MEM, 0, s')" "wrote s n i bl (k * SFS_BLKSIZE + off) [] s' i bl"
      "card (free_blks s') \<le> spare i" "k = length bl"
    then have "sfs_io_part True n buf len k off s = Some (- E_NO_MEM, 0, s')"
      "stored s n i bl (k * SFS_BLKSIZE + off) buf len (Suc k) (- E_NO_MEM) 0 s' i bl"
      using l by (simp_all add: sfs_io_part_def stored_def)
    then show ?thesis by auto
  next
    fix b s1 s' i' bl'
    assume a: "sfs_bmap_load_nolock n k s = Some (0, b, s1)" "sfs_buf_op True buf len b off s1 = Some (0, s')"
      "wrote s n i bl (k * SFS_BLKSIZE + off) ?d s' i' bl'" "length bl' = max (length bl) (Suc k)"
    then have "sfs_io_part True n buf len k off s = Some (0, len, s')"
      "stored s n i bl (k * SFS_BLKSIZE + off) buf len (Suc k) 0 len s' i' bl'" "k < length bl'"
      by (simp_all add: sfs_io_part_def stored_def)
    then show ?thesis by blast
  qed
qed

lemma blocks_write:
  assumes "file_rel s n i bl" "k \<le> length bl" "k + nblks \<le> SFS_NDIRECT + SFS_BLK_NENTRY" "user_buf s buf (SFS_BLKSIZE * nblks)"
  shows "\<exists>ret m s' i' bl'. sfs_io_blocks True n buf k nblks s = Some (ret, m, s')
    \<and> stored s n i bl (k * SFS_BLKSIZE) buf (SFS_BLKSIZE * nblks) (k + nblks) ret m s' i' bl' \<and> (ret = 0 \<longrightarrow> k + nblks \<le> length bl')"
  using assms
proof (induction nblks arbitrary: s i bl k buf)
  case 0
  then show ?case using wrote_refl[OF 0(1), of "k * SFS_BLKSIZE"]
    by (intro exI[of _ 0] exI[of _ s] exI[of _ i] exI[of _ bl]) (simp add: stored_def)
next
  case (Suc nblks)
  let ?d = "bytes (umem s) buf SFS_BLKSIZE"
  have u: "user_buf s buf SFS_BLKSIZE" using Suc.prems(4) by (rule user_buf_sub) auto
  have op: "stores_at (sfs_block_op True buf) 0 ?d s" unfolding stores_at_def
  proof (intro allI impI, elim conjE)
    fix t b assume that: "sfs_ok t" "used t b" "umem t = umem s" "disk_area t = disk_area s" "scratch t = scratch s"
    have "length (blk t b) = SFS_BLKSIZE" using length_blk[of b t] that(2) by (simp add: used_def)
    then have "overlay 0 ?d (blk t b) = ?d" by (simp add: overlay_def)
    then show "\<exists>t'. sfs_block_op True buf b t = Some (0, t') \<and> core t' = core t
        \<and> blk t' = (blk t)(b := overlay 0 ?d (blk t b)) \<and> umem t' = umem t"
      using sfs_wblock_ok[OF that(1,2), of buf] u that(3-5) by (simp add: sfs_block_op_def user_buf_def)
  qed
  have "k < SFS_NDIRECT + SFS_BLK_NENTRY" "0 + length ?d \<le> SFS_BLKSIZE" using Suc.prems(3) by simp_all
  from write_block[OF Suc.prems(1,2) this op] show ?case
  proof (elim disjE exE conjE)
    fix s' assume "sfs_bmap_load_nolock n k s = Some (- E_NO_MEM, 0, s')" "wrote s n i bl (k * SFS_BLKSIZE + 0) [] s' i bl"
      "card (free_blks s') \<le> spare i" "k = length bl"
    then have "sfs_io_blocks True n buf k (Suc nblks) s = Some (- E_NO_MEM, 0, s')"
      "stored s n i bl (k * SFS_BLKSIZE) buf (SFS_BLKSIZE * Suc nblks) (k + Suc nblks) (- E_NO_MEM) 0 s' i bl"
      by (simp_all add: stored_def)
    then show ?thesis by auto
  next
    fix b s1 s2 i2 bl2
    assume a: "sfs_bmap_load_nolock n k s = Some (0, b, s1)" "sfs_block_op True buf b s1 = Some (0, s2)"
      "wrote s n i bl (k * SFS_BLKSIZE + 0) ?d s2 i2 bl2" "length bl2 = max (length bl) (Suc k)"
    have st: "stored s n i bl (k * SFS_BLKSIZE) buf SFS_BLKSIZE (Suc k) 0 SFS_BLKSIZE s2 i2 bl2" using a by (simp add: stored_def)
    have u2: "user_buf s2 (buf + SFS_BLKSIZE) (SFS_BLKSIZE * nblks)"
      using user_buf_sub[OF Suc.prems(4), of "buf + SFS_BLKSIZE" "SFS_BLKSIZE * nblks"] fframe_view(9)[OF wroteD(2)[OF a(3)]] by simp
    from Suc.IH[OF wroteD(1)[OF a(3)] _ _ u2, of "Suc k"] a(4) Suc.prems(3) obtain ret m s' i' bl' where
      r: "sfs_io_blocks True n (buf + SFS_BLKSIZE) (Suc k) nblks s2 = Some (ret, m, s')"
        "stored s2 n i2 bl2 (Suc k * SFS_BLKSIZE) (buf + SFS_BLKSIZE) (SFS_BLKSIZE * nblks) (Suc k + nblks) ret m s' i' bl'"
        "ret = 0 \<longrightarrow> Suc k + nblks \<le> length bl'" by auto
    have "stored s n i bl (k * SFS_BLKSIZE) buf (SFS_BLKSIZE + SFS_BLKSIZE * nblks) (Suc k + nblks) ret (SFS_BLKSIZE + m) s' i' bl'"
      by (rule stored_trans[OF st]) (use r(2) in \<open>simp_all add: add.commute\<close>)
    then show ?thesis using a(1,2) r(1,3) by auto
  qed
qed


text \<open>From a block boundary on: whole blocks, then the beginning of the last one.\<close>

lemma tail_write:
  assumes f: "file_rel s n i bl" and k: "k \<le> length bl" "k * SFS_BLKSIZE \<le> e" "e \<le> (SFS_NDIRECT + SFS_BLK_NENTRY) * SFS_BLKSIZE"
    and u: "user_buf s buf (e - k * SFS_BLKSIZE)"
  shows "\<exists>ret m s' i' bl'. (do {
      (ret, moved, s2) \<leftarrow> sfs_io_blocks True n buf k (e div SFS_BLKSIZE - k) s;
      if ret \<noteq> 0 then G moved ret s2
      else do {
        (ret, moved', s3) \<leftarrow> (if k * SFS_BLKSIZE < e \<and> e mod SFS_BLKSIZE \<noteq> 0
            then sfs_io_part True n (buf + moved) (e mod SFS_BLKSIZE) (k + (e div SFS_BLKSIZE - k)) 0 s2 else Some (0, 0, s2));
        G (moved + moved') ret s3 } }) = G m ret s'
    \<and> stored s n i bl (k * SFS_BLKSIZE) buf (e - k * SFS_BLKSIZE) ((e + SFS_BLKSIZE - 1) div SFS_BLKSIZE) ret m s' i' bl'"
proof -
  let ?q = "e div SFS_BLKSIZE" and ?r = "e mod SFS_BLKSIZE" and ?c = "(e + SFS_BLKSIZE - 1) div SFS_BLKSIZE"
  have e: "e = ?q * SFS_BLKSIZE + ?r" "?r < SFS_BLKSIZE" by simp_all
  have q: "k \<le> ?q" using div_le_mono[OF k(2), of SFS_BLKSIZE] by simp
  have q2: "?q \<le> SFS_NDIRECT + SFS_BLK_NENTRY" using div_le_mono[OF k(3), of SFS_BLKSIZE] by simp
  have c: "?c = (if ?r = 0 then ?q else Suc ?q)"
  proof (cases "?r = 0")
    case True
    then have "e + SFS_BLKSIZE - 1 = SFS_BLKSIZE - 1 + ?q * SFS_BLKSIZE" using e(1) by linarith
    then have "?c = (SFS_BLKSIZE - 1 + ?q * SFS_BLKSIZE) div SFS_BLKSIZE" by simp
    also have "\<dots> = ?q" by simp
    finally show ?thesis using True by simp
  next
    case False
    then have "e + SFS_BLKSIZE - 1 = (?r - 1) + Suc ?q * SFS_BLKSIZE" using e(1) by simp
    then have "?c = ((?r - 1) + Suc ?q * SFS_BLKSIZE) div SFS_BLKSIZE" by simp
    also have "\<dots> = Suc ?q" using e(2) by simp
    finally show ?thesis using False by simp
  qed
  have d: "e - k * SFS_BLKSIZE = SFS_BLKSIZE * (?q - k) + ?r" using e(1) q by (simp add: diff_mult_distrib2 mult.commute)
  have u1: "user_buf s buf (SFS_BLKSIZE * (?q - k))" by (rule user_buf_sub[OF u]) (use d in auto)
  from blocks_write[OF f k(1) _ u1] q q2 obtain ret m s2 i2 bl2 where
    b: "sfs_io_blocks True n buf k (?q - k) s = Some (ret, m, s2)"
      "stored s n i bl (k * SFS_BLKSIZE) buf (SFS_BLKSIZE * (?q - k)) ?q ret m s2 i2 bl2" "ret = 0 \<longrightarrow> ?q \<le> length bl2" by auto
  have w2: "wrote s n i bl (k * SFS_BLKSIZE) (bytes (umem s) buf m) s2 i2 bl2" using b(2) by (simp add: stored_def)
  consider (fail) "ret \<noteq> 0" | (whole) "ret = 0" "?r = 0" | (rest) "ret = 0" "?r \<noteq> 0" by blast
  then show ?thesis
  proof cases
    case fail
    then have "stored s n i bl (k * SFS_BLKSIZE) buf (e - k * SFS_BLKSIZE) ?c ret m s2 i2 bl2" using stored_more[OF b(2)] fail d c by simp
    with b(1) fail show ?thesis by (intro exI[of _ ret] exI[of _ m] exI[of _ s2] exI[of _ i2] exI[of _ bl2]) simp
  next
    case whole
    then have "stored s n i bl (k * SFS_BLKSIZE) buf (e - k * SFS_BLKSIZE) ?c 0 m s2 i2 bl2" using stored_more[OF b(2)] d c by simp
    with b(1) whole show ?thesis by (intro exI[of _ 0] exI[of _ m] exI[of _ s2] exI[of _ i2] exI[of _ bl2]) simp
  next
    case rest
    have m: "m = SFS_BLKSIZE * (?q - k)" using b(2) rest by (auto simp: stored_def)
    have b0: "stored s n i bl (k * SFS_BLKSIZE) buf (SFS_BLKSIZE * (?q - k)) ?q 0 m s2 i2 bl2" using b(2) rest by simp
    have "e \<noteq> (SFS_NDIRECT + SFS_BLK_NENTRY) * SFS_BLKSIZE" using rest(2) by auto
    then have "e < (SFS_NDIRECT + SFS_BLK_NENTRY) * SFS_BLKSIZE" using k(3) by simp
    then have qs: "?q < SFS_NDIRECT + SFS_BLK_NENTRY" by (rule less_mult_imp_div_less)
    have u2: "user_buf s2 (buf + m) ?r"
      using user_buf_sub[OF u, of "buf + m" ?r] d m fframe_view(9)[OF wroteD(2)[OF w2]] by simp
    from part_write[OF wroteD(1)[OF w2] _ qs _ _ u2, of 0] b(3) rest obtain ret' m' s' i' bl' where
      p: "sfs_io_part True n (buf + m) ?r ?q 0 s2 = Some (ret', m', s')"
        "stored s2 n i2 bl2 (?q * SFS_BLKSIZE) (buf + m) ?r (Suc ?q) ret' m' s' i' bl'" by auto
    have "?q * SFS_BLKSIZE = k * SFS_BLKSIZE + SFS_BLKSIZE * (?q - k)" using q by (simp add: diff_mult_distrib2 mult.commute)
    then have "stored s n i bl (k * SFS_BLKSIZE) buf (SFS_BLKSIZE * (?q - k) + ?r) (Suc ?q) ret' (SFS_BLKSIZE * (?q - k) + m') s' i' bl'"
      using stored_trans[OF b0, of ?r "Suc ?q" ret' m' s' i' bl'] p(2) m by simp
    moreover have "k * SFS_BLKSIZE < e" using rest(2) k(2) by (metis le_neq_implies_less mod_mult_self2_is_0)
    ultimately show ?thesis using b(1) p(1) rest m c q unfolding d by (intro exI[of _ ret'] exI[of _ "m + m'"] exI[of _ s'] exI[of _ i'] exI[of _ bl']) simp
  qed
qed


text \<open>How far \<open>sfs_io_nolock\<close> has moved its variable \<open>offset\<close> after \<open>m\<close> bytes.\<close>

definition moved_off :: "nat \<Rightarrow> nat \<Rightarrow> nat \<Rightarrow> nat" where
  "moved_off off e m = (if off mod SFS_BLKSIZE = 0 then 0 else min m (min (e - off) (SFS_BLKSIZE - off mod SFS_BLKSIZE)))"

text \<open>The length of the first part of a transfer.\<close>

lemma first_part:
  fixes off e :: nat
  assumes o: "off < e"
  defines "l \<equiv> (if e div SFS_BLKSIZE - off div SFS_BLKSIZE \<noteq> 0 then SFS_BLKSIZE - off mod SFS_BLKSIZE else e - off)"
  shows "0 < l" "off mod SFS_BLKSIZE + l \<le> SFS_BLKSIZE" "l \<le> e - off" "l = min (e - off) (SFS_BLKSIZE - off mod SFS_BLKSIZE)"
    "e div SFS_BLKSIZE - off div SFS_BLKSIZE \<noteq> 0 \<Longrightarrow> Suc (off div SFS_BLKSIZE) * SFS_BLKSIZE = off + l"
proof -
  let ?k = "off div SFS_BLKSIZE" and ?o = "off mod SFS_BLKSIZE" and ?n = "e div SFS_BLKSIZE - off div SFS_BLKSIZE"
  have oe: "off = ?k * SFS_BLKSIZE + ?o" "?o < SFS_BLKSIZE" by simp_all
  have kq: "?k \<le> e div SFS_BLKSIZE" using o by (simp add: div_le_mono)
  have "?o + (e - off) < SFS_BLKSIZE" if "?n = 0"
  proof -
    have "e div SFS_BLKSIZE = ?k" using that kq by simp
    then have "e = ?k * SFS_BLKSIZE + e mod SFS_BLKSIZE" using div_mult_mod_eq[of e SFS_BLKSIZE] by simp
    then show ?thesis using oe o mod_less_divisor[of SFS_BLKSIZE e] by linarith
  qed
  moreover have "SFS_BLKSIZE - ?o \<le> e - off" if "?n \<noteq> 0"
  proof -
    have "Suc ?k * SFS_BLKSIZE \<le> e div SFS_BLKSIZE * SFS_BLKSIZE" using that by (intro mult_le_mono1) simp
    also have "\<dots> \<le> e" by simp
    finally have "?k * SFS_BLKSIZE + SFS_BLKSIZE \<le> e" by simp
    moreover have "off = a + b \<Longrightarrow> a + SFS_BLKSIZE \<le> e \<Longrightarrow> SFS_BLKSIZE - b \<le> e - off" for a b by arith
    ultimately show ?thesis using oe(1) by blast
  qed
  ultimately show "0 < l" "?o + l \<le> SFS_BLKSIZE" "l \<le> e - off" "l = min (e - off) (SFS_BLKSIZE - ?o)"
    using o oe(2) by (auto simp: min_def l_def)
  have "off = a + b \<Longrightarrow> b < SFS_BLKSIZE \<Longrightarrow> SFS_BLKSIZE + a = off + (SFS_BLKSIZE - b)" for a b by arith
  from this[OF oe] show "Suc ?k * SFS_BLKSIZE = off + l" if "?n \<noteq> 0" using that by (simp add: l_def)
qed

lemma range_write:
  assumes f: "file_rel s n i bl" and o: "off < e" "off div SFS_BLKSIZE \<le> length bl" "e \<le> (SFS_NDIRECT + SFS_BLK_NENTRY) * SFS_BLKSIZE"
    and u: "user_buf s buf (e - off)"
  shows "\<exists>ret m s' i' bl'. sfs_io_range True n buf off e s = sfs_io_out n (off + moved_off off e m) m ret s'
    \<and> stored s n i bl off buf (e - off) ((e + SFS_BLKSIZE - 1) div SFS_BLKSIZE) ret m s' i' bl'"
proof -
  let ?k = "off div SFS_BLKSIZE" and ?o = "off mod SFS_BLKSIZE" and ?c = "(e + SFS_BLKSIZE - 1) div SFS_BLKSIZE"
  have oe: "off = ?k * SFS_BLKSIZE + ?o" "?o < SFS_BLKSIZE" by simp_all
  show ?thesis
  proof (cases "?o = 0")
    case True
    then have off: "?k * SFS_BLKSIZE = off" using oe by simp
    from tail_write[OF f o(2), of e buf "\<lambda>m ret s'. sfs_io_out n off m ret s'"] o u obtain ret m s' i' bl' where
      r: "(do {
        (ret, moved, s2) \<leftarrow> sfs_io_blocks True n buf ?k (e div SFS_BLKSIZE - ?k) s;
        if ret \<noteq> 0 then sfs_io_out n off moved ret s2
        else do {
          (ret, moved', s3) \<leftarrow> (if off < e \<and> e mod SFS_BLKSIZE \<noteq> 0
              then sfs_io_part True n (buf + moved) (e mod SFS_BLKSIZE) (?k + (e div SFS_BLKSIZE - ?k)) 0 s2 else Some (0, 0, s2));
          sfs_io_out n off (moved + moved') ret s3 } }) = sfs_io_out n off m ret s'"
      "stored s n i bl off buf (e - off) ?c ret m s' i' bl'" unfolding off by auto
    have "sfs_io_range True n buf off e s = sfs_io_out n off m ret s'"
      using r(1) True by (simp add: sfs_io_range_def Let_def cong: if_cong)
    then show ?thesis using r(2) True by (intro exI[of _ ret] exI[of _ m] exI[of _ s'] exI[of _ i'] exI[of _ bl']) (simp add: moved_off_def)
  next
    case False
    let ?n = "e div SFS_BLKSIZE - ?k"
    define l where "l = (if ?n \<noteq> 0 then SFS_BLKSIZE - ?o else e - off)"
    note lb = first_part[OF o(1), folded l_def]
    have k: "?k < SFS_NDIRECT + SFS_BLK_NENTRY" using o(1,3) by (simp add: less_mult_imp_div_less)
    have u1: "user_buf s buf l" by (rule user_buf_sub[OF u]) (use lb(3) in auto)
    from part_write[OF f o(2) k lb(1,2) u1] obtain ret m s1 i1 bl1 where
      p: "sfs_io_part True n buf l ?k ?o s = Some (ret, m, s1)" "stored s n i bl off buf l (Suc ?k) ret m s1 i1 bl1"
        "ret = 0 \<longrightarrow> ?k < length bl1" using oe(1) by auto
    have kc: "Suc ?k \<le> ?c"
    proof -
      have "?k * SFS_BLKSIZE + SFS_BLKSIZE \<le> e + SFS_BLKSIZE - 1" using oe(1) o(1) False by linarith
      then have "(?k * SFS_BLKSIZE + SFS_BLKSIZE) div SFS_BLKSIZE \<le> ?c" by (rule div_le_mono)
      then show ?thesis by simp
    qed
    show ?thesis
    proof (cases "ret = 0")
      case nz: False
      then have "m = 0" using p(1,2) by (auto simp: sfs_io_part_def bind_Some_iff split: if_splits)
      moreover have "stored s n i bl off buf (e - off) ?c ret m s1 i1 bl1" using stored_more[OF p(2) kc] nz lb(3) by simp
      moreover have "sfs_io_range True n buf off e s = sfs_io_out n off m ret s1"
        using p(1) nz False by (cases "?n = 0") (simp_all add: sfs_io_range_def Let_def l_def)
      ultimately show ?thesis by (intro exI[of _ ret] exI[of _ m] exI[of _ s1] exI[of _ i1] exI[of _ bl1]) (simp add: moved_off_def)
    next
      case z: True
      then have m: "m = l" using p(2) by (auto simp: stored_def)
      have w1: "wrote s n i bl off (bytes (umem s) buf m) s1 i1 bl1" using p(2) by (simp add: stored_def)
      have mo: "moved_off off e (l + x) = l" for x using False lb(4) by (simp add: moved_off_def)
      show ?thesis
      proof (cases "?n = 0")
        case True
        then have "sfs_io_range True n buf off e s = sfs_io_out n (off + l) l 0 s1"
          using p(1) z False m o(1) True by (simp add: sfs_io_range_def Let_def l_def)
        moreover have "stored s n i bl off buf (e - off) ?c 0 l s1 i1 bl1" using stored_more[OF p(2) kc, of l] z m True by (simp add: l_def)
        ultimately show ?thesis using mo[of 0]
          by (intro exI[of _ 0] exI[of _ l] exI[of _ s1] exI[of _ i1] exI[of _ bl1]) simp
      next
        case n: False
        have off1: "Suc ?k * SFS_BLKSIZE = off + l" using lb(5) n by simp
        have u2: "user_buf s1 (buf + l) (e - Suc ?k * SFS_BLKSIZE)"
          using user_buf_sub[OF u, of "buf + l" "e - (off + l)"] lb(3) fframe_view(9)[OF wroteD(2)[OF w1]] unfolding off1 by simp
        have "Suc ?k \<le> length bl1" "Suc ?k * SFS_BLKSIZE \<le> e" using p(3) z lb(3) o(1) unfolding off1 by auto
        from tail_write[OF wroteD(1)[OF w1] this o(3) u2, of "\<lambda>m ret s'. sfs_io_out n (off + l) (l + m) ret s'"] obtain ret' m' s' i' bl' where
          r: "(do {
            (ret, moved, s2) \<leftarrow> sfs_io_blocks True n (buf + l) (Suc ?k) (e div SFS_BLKSIZE - Suc ?k) s1;
            if ret \<noteq> 0 then sfs_io_out n (off + l) (l + moved) ret s2
            else do {
              (ret, moved', s3) \<leftarrow> (if off + l < e \<and> e mod SFS_BLKSIZE \<noteq> 0
                  then sfs_io_part True n (buf + l + moved) (e mod SFS_BLKSIZE) (Suc ?k + (e div SFS_BLKSIZE - Suc ?k)) 0 s2 else Some (0, 0, s2));
              sfs_io_out n (off + l) (l + (moved + moved')) ret s3 } }) = sfs_io_out n (off + l) (l + m') ret' s'"
          "stored s1 n i1 bl1 (off + l) (buf + l) (e - (off + l)) ?c ret' m' s' i' bl'" unfolding off1 by blast
        have "sfs_io_range True n buf off e s = sfs_io_out n (off + l) (l + m') ret' s'"
          using r(1) p(1) z False n m by (simp add: sfs_io_range_def Let_def add.assoc l_def cong: if_cong)
        moreover have "stored s n i bl off buf (l + (e - (off + l))) ?c ret' (l + m') s' i' bl'"
          using stored_trans[of s n i bl off buf l "Suc ?k" m s1 i1 bl1] p(2) z r(2) kc by simp
        moreover have "l + (e - (off + l)) = e - off" using lb(3) by simp
        ultimately show ?thesis using mo[of m']
          by (intro exI[of _ ret'] exI[of _ "l + m'"] exI[of _ s'] exI[of _ i'] exI[of _ bl']) simp
      qed
    qed
  qed
qed


section \<open>Reading\<close>

definition fetched :: "sstate \<Rightarrow> nat \<Rightarrow> 8 word list \<Rightarrow> sstate \<Rightarrow> bool" where
  "fetched s buf data s' \<longleftrightarrow> core s' = core s \<and> blk s' = blk s \<and> umem s' = put buf data (umem s)"

lemma put_append: "put (a + length xs) ys (put a xs m) = put a (xs @ ys) m"
  by (auto simp: put_def fun_eq_iff nth_append)

lemma fetched_trans: "fetched s buf d1 s1 \<Longrightarrow> fetched s1 (buf + length d1) d2 s2 \<Longrightarrow> fetched s buf (d1 @ d2) s2"
  by (simp add: fetched_def put_append)

lemma core_view: "core s' = core s \<Longrightarrow> scratch s' = scratch s \<and> disk_area s' = disk_area s \<and> user_buf s' = user_buf s"
  using core_eqD[of s' s] by (simp add: view_defs user_buf_def fun_eq_iff)

lemma file_rel_core: "file_rel s n i bl \<Longrightarrow> core s' = core s \<Longrightarrow> blk s' = blk s \<Longrightarrow> file_rel s' n i bl"
  using core_ok[of s' s] core_eqD[of s' s] by (simp add: file_rel_def map_ok_def entry_def)

lemma fbytes_block:
  assumes "length (blk s (bl ! k)) = SFS_BLKSIZE" "o' + len \<le> SFS_BLKSIZE"
  shows "map (fbyte s bl) [k * SFS_BLKSIZE + o'..<k * SFS_BLKSIZE + o' + len] = take len (drop o' (blk s (bl ! k)))"
proof (rule nth_equalityI)
  fix j assume "j < length (map (fbyte s bl) [k * SFS_BLKSIZE + o'..<k * SFS_BLKSIZE + o' + len])"
  then have j: "j < len" by simp
  have "(k * SFS_BLKSIZE + o' + j) div SFS_BLKSIZE = k" "(k * SFS_BLKSIZE + o' + j) mod SFS_BLKSIZE = o' + j"
    using j assms(2) by (auto simp: add.assoc)
  then show "map (fbyte s bl) [k * SFS_BLKSIZE + o'..<k * SFS_BLKSIZE + o' + len] ! j = take len (drop o' (blk s (bl ! k))) ! j"
    using j assms by (simp add: fbyte_def)
qed (use assms in simp)

lemma part_read:
  assumes f: "file_rel s n i bl" and k: "k < length bl" and l: "0 < len" "o' + len \<le> SFS_BLKSIZE" and u: "user_buf s buf len"
  shows "\<exists>s'. sfs_io_part False n buf len k o' s = Some (0, len, s')
    \<and> fetched s buf (map (fbyte s bl) [k * SFS_BLKSIZE + o'..<k * SFS_BLKSIZE + o' + len]) s'"
proof -
  have ok: "sfs_ok s" "used s (bl ! k)" using f k by (auto simp: file_rel_def map_ok_def owned_def)
  from bmap_load_old[OF f k] obtain s1 where s1: "sfs_bmap_load_nolock n k s = Some (0, bl ! k, s1)" "same s s1" by blast
  have c1: "core s1 = core s" "blk s1 = blk s" "umem s1 = umem s" using s1(2) by (auto simp: same_def)
  have ok1: "sfs_ok s1" "used s1 (bl ! k)" using core_ok[OF c1(1)] ok by auto
  let ?d = "take len (drop o' (blk s (bl ! k)))"
  from sfs_rbuf_ok[OF ok1, of o' len] l obtain s2 where s2: "sfs_rbuf len (bl ! k) o' s1 = Some (0, ?d, s2)" "same s1 s2"
    unfolding c1(2) by auto
  have c2: "core s2 = core s" "blk s2 = blk s" "umem s2 = umem s" using s2(2) c1 by (auto simp: same_def)
  have bl: "length (blk s (bl ! k)) = SFS_BLKSIZE" using length_blk[of "bl ! k" s] ok(2) by (simp add: used_def)
  have "sfs_ok s2" "user_buf s2 buf (length ?d)" using core_ok(1)[OF c2(1)] core_view[OF c2(1)] ok(1) u bl l(2) by auto
  from umem_put[OF this(2,1), of "vmemory s2"] have "fetched s buf ?d (s2\<lparr>vmemory := put buf ?d (vmemory s2)\<rparr>)"
    using c2 by (simp add: fetched_def)
  then show ?thesis using s1(1) s2(1) fbytes_block[OF bl l(2)] by (simp add: sfs_io_part_def sfs_buf_op_def)
qed

lemma blocks_read:
  assumes "file_rel s n i bl" "k + nblks \<le> length bl" "user_buf s buf (SFS_BLKSIZE * nblks)"
  shows "\<exists>s'. sfs_io_blocks False n buf k nblks s = Some (0, SFS_BLKSIZE * nblks, s')
    \<and> fetched s buf (map (fbyte s bl) [k * SFS_BLKSIZE..<(k + nblks) * SFS_BLKSIZE]) s'"
  using assms
proof (induction nblks arbitrary: s k buf)
  case 0
  then show ?case by (auto simp: fetched_def put_def fun_eq_iff)
next
  case (Suc nblks)
  note f = Suc.prems(1)
  have k: "k < length bl" using Suc.prems(2) by simp
  have ok: "sfs_ok s" "used s (bl ! k)" using f k by (auto simp: file_rel_def map_ok_def owned_def)
  from bmap_load_old[OF f k] obtain s1 where s1: "sfs_bmap_load_nolock n k s = Some (0, bl ! k, s1)" "same s s1" by blast
  have c1: "core s1 = core s" "blk s1 = blk s" "umem s1 = umem s" using s1(2) by (auto simp: same_def)
  have ok1: "sfs_ok s1" "used s1 (bl ! k)" using core_ok[OF c1(1)] ok by auto
  have u: "user_buf s1 buf SFS_BLKSIZE" using user_buf_sub[OF Suc.prems(3), of buf SFS_BLKSIZE] core_view[OF c1(1)] by simp
  from sfs_rblock_ok[OF ok1 u] obtain s2 where
    s2: "sfs_rblock buf (bl ! k) 1 s1 = Some (0, s2)" "fetched s buf (blk s (bl ! k)) s2" using c1 by (auto simp: fetched_def)
  have bl: "length (blk s (bl ! k)) = SFS_BLKSIZE" using length_blk[of "bl ! k" s] ok(2) by (simp add: used_def)
  have c2: "core s2 = core s" "blk s2 = blk s" using s2(2) by (auto simp: fetched_def)
  have "user_buf s2 (buf + SFS_BLKSIZE) (SFS_BLKSIZE * nblks)"
    using user_buf_sub[OF Suc.prems(3), of "buf + SFS_BLKSIZE" "SFS_BLKSIZE * nblks"] core_view[OF c2(1)] by simp
  from Suc.IH[OF file_rel_core[OF f c2] _ this, of "Suc k"] Suc.prems(2) obtain s' where
    s': "sfs_io_blocks False n (buf + SFS_BLKSIZE) (Suc k) nblks s2 = Some (0, SFS_BLKSIZE * nblks, s')"
      "fetched s2 (buf + SFS_BLKSIZE) (map (fbyte s2 bl) [Suc k * SFS_BLKSIZE..<(Suc k + nblks) * SFS_BLKSIZE]) s'" by auto
  have "fbyte s2 bl = fbyte s bl" using c2(2) by (simp add: fbyte_def fun_eq_iff)
  then have "fetched s buf (blk s (bl ! k) @ map (fbyte s bl) [Suc k * SFS_BLKSIZE..<(Suc k + nblks) * SFS_BLKSIZE]) s'"
    using fetched_trans[OF s2(2)] s'(2) bl by simp
  moreover have "blk s (bl ! k) = map (fbyte s bl) [k * SFS_BLKSIZE..<Suc k * SFS_BLKSIZE]"
    using fbytes_block[of s bl k 0 SFS_BLKSIZE] bl by (simp add: add.commute)
  moreover have "[k * SFS_BLKSIZE..<(k + Suc nblks) * SFS_BLKSIZE]
      = [k * SFS_BLKSIZE..<Suc k * SFS_BLKSIZE] @ [Suc k * SFS_BLKSIZE..<(Suc k + nblks) * SFS_BLKSIZE]"
    using upt_add_eq_append[of "k * SFS_BLKSIZE" "Suc k * SFS_BLKSIZE" "nblks * SFS_BLKSIZE"] by (simp add: algebra_simps)
  ultimately show ?case using s1(1) s2(1) s'(1) by (simp add: sfs_block_op_def)
qed

lemma tail_read:
  assumes f: "file_rel s n i bl" and k: "k * SFS_BLKSIZE \<le> e" "e \<le> SFS_BLKSIZE * length bl"
    and u: "user_buf s buf (e - k * SFS_BLKSIZE)"
  shows "\<exists>s'. (do {
      (ret, moved, s2) \<leftarrow> sfs_io_blocks False n buf k (e div SFS_BLKSIZE - k) s;
      if ret \<noteq> 0 then G moved ret s2
      else do {
        (ret, moved', s3) \<leftarrow> (if k * SFS_BLKSIZE < e \<and> e mod SFS_BLKSIZE \<noteq> 0
            then sfs_io_part False n (buf + moved) (e mod SFS_BLKSIZE) (k + (e div SFS_BLKSIZE - k)) 0 s2 else Some (0, 0, s2));
        G (moved + moved') ret s3 } }) = G (e - k * SFS_BLKSIZE) 0 s'
    \<and> fetched s buf (map (fbyte s bl) [k * SFS_BLKSIZE..<e]) s'"
proof -
  let ?q = "e div SFS_BLKSIZE" and ?r = "e mod SFS_BLKSIZE"
  have e: "e = ?q * SFS_BLKSIZE + ?r" "?r < SFS_BLKSIZE" by simp_all
  have q: "k \<le> ?q" using div_le_mono[OF k(1), of SFS_BLKSIZE] by simp
  have q2: "?q \<le> length bl" using div_le_mono[OF k(2), of SFS_BLKSIZE] by simp
  have d: "e - k * SFS_BLKSIZE = SFS_BLKSIZE * (?q - k) + ?r" using e(1) q by (simp add: diff_mult_distrib2 mult.commute)
  have u1: "user_buf s buf (SFS_BLKSIZE * (?q - k))" by (rule user_buf_sub[OF u]) (use d in auto)
  from blocks_read[OF f _ u1, of k] q q2 obtain s2 where
    b: "sfs_io_blocks False n buf k (?q - k) s = Some (0, SFS_BLKSIZE * (?q - k), s2)"
      "fetched s buf (map (fbyte s bl) [k * SFS_BLKSIZE..<?q * SFS_BLKSIZE]) s2" by auto
  show ?thesis
  proof (cases "?r = 0")
    case True
    then have "?q * SFS_BLKSIZE = e" using e(1) by simp
    then show ?thesis using b True d by (intro exI[of _ s2]) (simp add: mult.commute)
  next
    case False
    have c2: "core s2 = core s" "blk s2 = blk s" using b(2) by (auto simp: fetched_def)
    have "e \<noteq> SFS_BLKSIZE * length bl" using False by auto
    then have "e < length bl * SFS_BLKSIZE" using k(2) by simp
    then have ql: "?q < length bl" by (rule less_mult_imp_div_less)
    have "user_buf s2 (buf + SFS_BLKSIZE * (?q - k)) ?r"
      using user_buf_sub[OF u, of "buf + SFS_BLKSIZE * (?q - k)" ?r] d core_view[OF c2(1)] by simp
    from part_read[OF file_rel_core[OF f c2] ql _ _ this, of 0] False e(1) obtain s' where
      s': "sfs_io_part False n (buf + SFS_BLKSIZE * (?q - k)) ?r ?q 0 s2 = Some (0, ?r, s')"
        "fetched s2 (buf + SFS_BLKSIZE * (?q - k)) (map (fbyte s2 bl) [?q * SFS_BLKSIZE..<e]) s'" by auto
    have "fbyte s2 bl = fbyte s bl" using c2(2) by (simp add: fbyte_def fun_eq_iff)
    moreover have "length (map (fbyte s bl) [k * SFS_BLKSIZE..<?q * SFS_BLKSIZE]) = SFS_BLKSIZE * (?q - k)"
      by (simp add: diff_mult_distrib mult.commute)
    ultimately have "fetched s buf (map (fbyte s bl) [k * SFS_BLKSIZE..<?q * SFS_BLKSIZE] @ map (fbyte s bl) [?q * SFS_BLKSIZE..<e]) s'"
      using fetched_trans[OF b(2)] s'(2) by simp
    moreover have "[k * SFS_BLKSIZE..<e] = [k * SFS_BLKSIZE..<?q * SFS_BLKSIZE] @ [?q * SFS_BLKSIZE..<e]"
      using upt_add_eq_append[of "k * SFS_BLKSIZE" "?q * SFS_BLKSIZE" ?r] q e(1) by (simp add: mult_le_mono1)
    moreover have "k * SFS_BLKSIZE < e" using False k(1) by (metis le_neq_implies_less mod_mult_self2_is_0)
    ultimately show ?thesis using b(1) s'(1) False q d by (intro exI[of _ s']) simp
  qed
qed

lemma range_read:
  assumes f: "file_rel s n i bl" and o: "off < e" "e \<le> SFS_BLKSIZE * length bl" and u: "user_buf s buf (e - off)"
  shows "\<exists>s'. sfs_io_range False n buf off e s = sfs_io_out n (off + moved_off off e (e - off)) (e - off) 0 s'
    \<and> fetched s buf (map (fbyte s bl) [off..<e]) s'"
proof -
  let ?k = "off div SFS_BLKSIZE" and ?o = "off mod SFS_BLKSIZE"
  have oe: "off = ?k * SFS_BLKSIZE + ?o" "?o < SFS_BLKSIZE" by simp_all
  show ?thesis
  proof (cases "?o = 0")
    case True
    then have off: "?k * SFS_BLKSIZE = off" using oe by simp
    from tail_read[OF f _ o(2), of ?k buf "\<lambda>m ret s'. sfs_io_out n off m ret s'"] o u obtain s' where
      r: "(do {
        (ret, moved, s2) \<leftarrow> sfs_io_blocks False n buf ?k (e div SFS_BLKSIZE - ?k) s;
        if ret \<noteq> 0 then sfs_io_out n off moved ret s2
        else do {
          (ret, moved', s3) \<leftarrow> (if off < e \<and> e mod SFS_BLKSIZE \<noteq> 0
              then sfs_io_part False n (buf + moved) (e mod SFS_BLKSIZE) (?k + (e div SFS_BLKSIZE - ?k)) 0 s2 else Some (0, 0, s2));
          sfs_io_out n off (moved + moved') ret s3 } }) = sfs_io_out n off (e - off) 0 s'"
      "fetched s buf (map (fbyte s bl) [off..<e]) s'" unfolding off by auto
    have "sfs_io_range False n buf off e s = sfs_io_out n off (e - off) 0 s'"
      using r(1) True by (simp add: sfs_io_range_def Let_def cong: if_cong)
    then show ?thesis using r(2) True by (auto simp: moved_off_def)
  next
    case False
    let ?n = "e div SFS_BLKSIZE - ?k"
    define l where "l = (if ?n \<noteq> 0 then SFS_BLKSIZE - ?o else e - off)"
    note lb = first_part[OF o(1), folded l_def]
    have k: "?k < length bl" using o by (simp add: less_mult_imp_div_less mult.commute)
    have u1: "user_buf s buf l" by (rule user_buf_sub[OF u]) (use lb(3) in auto)
    from part_read[OF f k lb(1,2) u1] oe(1) obtain s1 where
      p: "sfs_io_part False n buf l ?k ?o s = Some (0, l, s1)" "fetched s buf (map (fbyte s bl) [off..<off + l]) s1" by auto
    have mo: "moved_off off e (e - off) = l" using False lb(4) by (simp add: moved_off_def)
    show ?thesis
    proof (cases "?n = 0")
      case True
      then have l: "l = e - off" by (simp add: l_def)
      have "sfs_io_range False n buf off e s = sfs_io_out n (off + l) l 0 s1"
        using p(1) False o(1) True by (simp add: sfs_io_range_def Let_def l_def)
      then show ?thesis using p(2) mo l o(1) by auto
    next
      case n: False
      note off1 = lb(5)[OF n]
      have c1: "core s1 = core s" "blk s1 = blk s" using p(2) by (auto simp: fetched_def)
      have u2: "user_buf s1 (buf + l) (e - Suc ?k * SFS_BLKSIZE)"
        using user_buf_sub[OF u, of "buf + l" "e - (off + l)"] lb(3) core_view[OF c1(1)] unfolding off1 by simp
      have "Suc ?k * SFS_BLKSIZE \<le> e" using lb(3) o(1) unfolding off1 by simp
      from tail_read[OF file_rel_core[OF f c1] this o(2) u2, of "\<lambda>m ret s'. sfs_io_out n (off + l) (l + m) ret s'"] obtain s' where
        r: "(do {
          (ret, moved, s2) \<leftarrow> sfs_io_blocks False n (buf + l) (Suc ?k) (e div SFS_BLKSIZE - Suc ?k) s1;
          if ret \<noteq> 0 then sfs_io_out n (off + l) (l + moved) ret s2
          else do {
            (ret, moved', s3) \<leftarrow> (if off + l < e \<and> e mod SFS_BLKSIZE \<noteq> 0
                then sfs_io_part False n (buf + l + moved) (e mod SFS_BLKSIZE) (Suc ?k + (e div SFS_BLKSIZE - Suc ?k)) 0 s2 else Some (0, 0, s2));
            sfs_io_out n (off + l) (l + (moved + moved')) ret s3 } }) = sfs_io_out n (off + l) (l + (e - (off + l))) 0 s'"
        "fetched s1 (buf + l) (map (fbyte s1 bl) [off + l..<e]) s'" unfolding off1 by blast
      have "sfs_io_range False n buf off e s = sfs_io_out n (off + l) (l + (e - (off + l))) 0 s'"
        using r(1) p(1) False n by (simp add: sfs_io_range_def Let_def add.assoc l_def cong: if_cong)
      moreover have "fbyte s1 bl = fbyte s bl" using c1(2) by (simp add: fbyte_def fun_eq_iff)
      then have "fetched s buf (map (fbyte s bl) [off..<off + l] @ map (fbyte s bl) [off + l..<e]) s'"
        using fetched_trans[OF p(2)] r(2) by simp
      moreover have "[off..<e] = [off..<off + l] @ [off + l..<e]" "l + (e - (off + l)) = e - off"
        using upt_add_eq_append[of off "off + l" "e - (off + l)"] lb(3) o(1) by auto
      ultimately show ?thesis using mo by auto
    qed
  qed
qed


section \<open>The operations on files\<close>

lemma map_ok_meta:
  assumes "ino i' = ino i" "dblocks (din i') = dblocks (din i)" "direct (din i') = direct (din i)" "indirect (din i') = indirect (din i)"
  shows "map_ok s i' bl = map_ok s i bl"
  using assms by (simp add: map_ok_def owned_def inds_def)

lemma file_rel_upd:
  assumes "file_rel s n i bl" "ino (g i) = ino i" "dblocks (din (g i)) = dblocks (din i)" "direct (din (g i)) = direct (din i)"
    "indirect (din (g i)) = indirect (din i)"
  shows "file_rel (upd_sin n g s) n (g i) bl"
  using assms map_ok_meta[of "g i" i s bl] by (simp add: file_rel_def)

lemma io_out_ok:
  assumes "file_rel s n i bl"
  shows "\<exists>s'. sfs_io_out n off m ret s = Some (ret, m, s') \<and> blk s' = blk s \<and> umem s' = umem s \<and> free_blks s' = free_blks s
    \<and> (\<exists>i'. file_rel s' n i' bl \<and> din i' = (din i)\<lparr>dsize := max (dsize (din i)) (off + m)\<rparr> \<and> owned i' bl = owned i bl \<and> spare i' = spare i)
    \<and> fframe n s s'"
proof -
  have f: "sin_of n s = Some i" "sfs_ok s" using assms by (auto simp: file_rel_def)
  let ?g = "\<lambda>i. i\<lparr>din := (din i)\<lparr>dsize := off + m\<rparr>, dirty := True\<rparr>"
  show ?thesis
  proof (cases "off + m > dsize (din i)")
    case True
    have "file_rel (upd_sin n ?g s) n (?g i) bl" by (rule file_rel_upd[OF assms]) simp_all
    then show ?thesis using True f upd_sin_fframe[of s n ?g]
      by (intro exI[of _ "upd_sin n ?g s"] conjI exI[of _ "?g i"]) (simp_all add: sfs_io_out_def owned_def inds_def spare_def)
  next
    case False
    then have "max (dsize (din i)) (off + m) = dsize (din i)" by simp
    then show ?thesis using False f assms by (intro exI[of _ s]) (auto simp: sfs_io_out_def)
  qed
qed

lemma wrap64_id: "0 \<le> x \<Longrightarrow> x < 2 ^ 63 \<Longrightarrow> wrap64 x = x"
  by (simp add: wrap64_def)

lemma lock_file:
  assumes "file_rel s n i bl" "\<not> sin_locked i"
  shows "lock_sin n s = Some (upd_sin n (sin_locked_update (\<lambda>_. True)) s)"
    "file_rel (upd_sin n (sin_locked_update (\<lambda>_. True)) s) n (i\<lparr>sin_locked := True\<rparr>) bl"
  using assms file_rel_upd[OF assms(1), of "sin_locked_update (\<lambda>_. True)"] by (auto simp: lock_sin_def file_rel_def)

lemma unlock_file:
  assumes "file_rel s n i bl"
  shows "file_rel (unlock_sin n s) n (i\<lparr>sin_locked := False\<rparr>) bl" "blk (unlock_sin n s) = blk s" "umem (unlock_sin n s) = umem s"
    "free_blks (unlock_sin n s) = free_blks s"
  using file_rel_upd[OF assms, of "sin_locked_update (\<lambda>_. False)"] by (simp_all add: unlock_sin_def)

lemma user_buf_upd [simp]: "user_buf (upd_sin n g s) = user_buf s"
  by (simp add: user_buf_def fun_eq_iff)

lemma meta_size: "meta i' = meta i \<Longrightarrow> dsize (din i') = dsize (din i) \<and> dtype (din i') = dtype (din i) \<and> sin_locked i' = sin_locked i"
proof -
  assume "meta i' = meta i"
  from arg_cong[OF this, of "\<lambda>i. (dsize (din i), dtype (din i), sin_locked i)"] show ?thesis by (simp add: meta_def)
qed

text \<open>A write at position \<open>off\<close> of at least one byte that ends within the largest file.\<close>

lemma io_write:
  assumes f: "file_rel s n i bl" "\<not> sin_locked i" "dtype (din i) = SFS_TYPE_FILE"
    and o: "io_offset iob = int off" "0 < io_resid iob" "off div SFS_BLKSIZE \<le> length bl"
      "off + io_resid iob \<le> (SFS_NDIRECT + SFS_BLK_NENTRY) * SFS_BLKSIZE"
    and u: "user_buf s (io_base iob) (io_resid iob)"
  shows "\<exists>ret m iob' s' i' bl'. sfs_io n iob True s = Some (ret, iob', s') \<and> file_rel s' n i' bl' \<and> \<not> sin_locked i'
    \<and> io_resid iob' = io_resid iob - m
    \<and> (ret = 0 \<and> m = io_resid iob \<or> ret = - E_NO_MEM \<and> m < io_resid iob
          \<and> card (free_blks s) \<le> (off + io_resid iob + SFS_BLKSIZE - 1) div SFS_BLKSIZE - length bl)
    \<and> (\<forall>q < SFS_BLKSIZE * length bl'. fbyte s' bl' q = (if off \<le> q \<and> q < off + m then umem s (io_base iob + (q - off))
          else if q < SFS_BLKSIZE * length bl then fbyte s bl q else 0))
    \<and> (0 < m \<longrightarrow> off + m \<le> SFS_BLKSIZE * length bl') \<and> length bl \<le> length bl'
    \<and> dsize (din i') = max (dsize (din i)) (off + moved_off off (off + io_resid iob) m + m) \<and> dtype (din i') = dtype (din i)
    \<and> (\<forall>c. blk s c \<noteq> [] \<and> c \<notin> set (owned i bl) \<longrightarrow> blk s' c = blk s c) \<and> umem s' = umem s \<and> user_buf s' = user_buf s"
proof -
  let ?b = "io_base iob" and ?l = "io_resid iob" and ?s1 = "upd_sin n (sin_locked_update (\<lambda>_. True)) s" and ?i1 = "i\<lparr>sin_locked := True\<rparr>"
  note lk = lock_file[OF f(1,2)]
  have ends: "off < off + ?l" "off + ?l - off = ?l" using o(2) by simp_all
  have u1: "user_buf ?s1 ?b (off + ?l - off)" using u by simp
  from range_write[OF lk(2) ends(1) o(3,4) u1] obtain ret m s2 i2 bl' where
    r: "sfs_io_range True n ?b off (off + ?l) ?s1 = sfs_io_out n (off + moved_off off (off + ?l) m) m ret s2"
    and st: "stored ?s1 n ?i1 bl off ?b ?l ((off + ?l + SFS_BLKSIZE - 1) div SFS_BLKSIZE) ret m s2 i2 bl'" unfolding ends(2) by blast
  have w: "wrote ?s1 n ?i1 bl off (bytes (umem s) ?b m) s2 i2 bl'" using st by (simp add: stored_def)
  note wd = wroteD[OF w]
  from io_out_ok[OF wd(1), of "off + moved_off off (off + ?l) m" m ret] obtain s3 i3 where
    s3: "sfs_io_out n (off + moved_off off (off + ?l) m) m ret s2 = Some (ret, m, s3)" "blk s3 = blk s2" "umem s3 = umem s2"
      "free_blks s3 = free_blks s2" "file_rel s3 n i3 bl'" "din i3 = (din i2)\<lparr>dsize := max (dsize (din i2)) (off + moved_off off (off + ?l) m + m)\<rparr>"
      "fframe n s2 s3" by blast
  have small: "wrap64 (int off + int ?l) = int (off + ?l)" "off + ?l \<le> SFS_MAX_FILE_SIZE" using o(4) wrap64_id[of "int (off + ?l)"] by simp_all
  have nl: "sfs_io_nolock n ?b (io_offset iob) ?l True ?s1 = Some (ret, m, s3)"
    using r s3(1) small o(1,2) f(1,3) lk(2) by (simp add: sfs_io_nolock_def file_rel_def Let_def nat_int_add)
  have m: "m \<le> ?l" using st by (auto simp: stored_def)
  have io: "sfs_io n iob True s = Some (ret, if m \<noteq> 0 then iob\<lparr>io_base := ?b + m, io_offset := io_offset iob + int m, io_resid := ?l - m\<rparr> else iob,
      unlock_sin n s3)"
    using nl lk(1) iobuf_skip_ok[OF m] by (simp add: sfs_io_def)
  note ul = unlock_file[OF s3(5)]
  have fb: "fbyte ?s1 bl = fbyte s bl" "fbyte (unlock_sin n s3) bl' = fbyte s2 bl'" using s3(2) ul(2) by (simp_all add: fbyte_def fun_eq_iff)
  have bytes: "fbyte (unlock_sin n s3) bl' q = (if off \<le> q \<and> q < off + m then umem s (?b + (q - off))
      else if q < SFS_BLKSIZE * length bl then fbyte s bl q else 0)" if "q < SFS_BLKSIZE * length bl'" for q
    using wd(8)[OF that] bytes_nth[of "q - off" m "umem s" ?b] unfolding fb by auto
  have keep: "blk (unlock_sin n s3) c = blk s c" if "blk s c \<noteq> []" "c \<notin> set (owned i bl)" for c
  proof -
    have "inds ?i1 = inds i" by (simp add: inds_def)
    then show ?thesis using wd(5)[of c] that s3(2) ul(2) by (auto simp: owned_def)
  qed
  have len: "length bl \<le> length bl'" "0 < m \<longrightarrow> off + m \<le> SFS_BLKSIZE * length bl'" using wd(4) wd(9) by (auto simp: bytes_def)
  have ms: "dsize (din i2) = dsize (din i)" "dtype (din i2) = dtype (din i)" using meta_size[OF wd(3)] by simp_all
  have full: "ret = 0 \<and> m = ?l \<or> ret = - E_NO_MEM \<and> m < ?l
      \<and> card (free_blks s) \<le> (off + ?l + SFS_BLKSIZE - 1) div SFS_BLKSIZE - length bl"
  proof (cases "ret = 0")
    case False
    then have "ret = - E_NO_MEM" "m < ?l" "card (free_blks s2) \<le> spare i2" "length bl' < (off + ?l + SFS_BLKSIZE - 1) div SFS_BLKSIZE"
      using st by (auto simp: stored_def)
    moreover have "spare ?i1 \<le> 1" by (simp add: spare_def)
    ultimately show ?thesis using wd(7) len(1) by simp
  qed (use st in \<open>auto simp: stored_def\<close>)
  have um: "umem (unlock_sin n s3) = umem s" "user_buf (unlock_sin n s3) = user_buf s"
    using fframe_view(5,9)[OF wd(2)] fframe_view(9)[OF s3(7)] s3(3) ul(3) by (simp_all add: unlock_sin_def)
  show ?thesis
    by (rule exI[of _ ret], rule exI[of _ m], rule exI, rule exI, rule exI, rule exI[of _ bl'], intro conjI, rule io, rule ul(1))
      (use bytes keep len ms full um s3(6) in auto)
qed

text \<open>A read at a position inside the file.\<close>

lemma io_read:
  assumes f: "file_rel s n i bl" "\<not> sin_locked i" "dtype (din i) = SFS_TYPE_FILE"
    and z: "dsize (din i) \<le> SFS_BLKSIZE * length bl" "dsize (din i) \<le> SFS_MAX_FILE_SIZE"
    and o: "io_offset iob = int off" "0 < io_resid iob" "off < dsize (din i)" "io_resid iob < 2 ^ 62"
      "e = min (off + io_resid iob) (dsize (din i))"
    and u: "user_buf s (io_base iob) (e - off)"
  shows "\<exists>iob' s' i'. sfs_io n iob False s = Some (0, iob', s') \<and> file_rel s' n i' bl \<and> \<not> sin_locked i'
    \<and> io_resid iob' = io_resid iob - (e - off) \<and> blk s' = blk s
    \<and> umem s' = put (io_base iob) (map (fbyte s bl) [off..<e]) (umem s)
    \<and> dsize (din i') = max (dsize (din i)) (off + moved_off off e (e - off) + (e - off)) \<and> dtype (din i') = dtype (din i)
    \<and> user_buf s' = user_buf s"
proof -
  let ?b = "io_base iob" and ?s1 = "upd_sin n (sin_locked_update (\<lambda>_. True)) s" and ?i1 = "i\<lparr>sin_locked := True\<rparr>"
  note lk = lock_file[OF f(1,2)]
  have oe: "off < e" "e \<le> SFS_BLKSIZE * length bl" using o z by auto
  from range_read[OF lk(2) oe, of ?b] u obtain s2 where
    r: "sfs_io_range False n ?b off e ?s1 = sfs_io_out n (off + moved_off off e (e - off)) (e - off) 0 s2"
      "fetched ?s1 ?b (map (fbyte ?s1 bl) [off..<e]) s2" by auto
  have c2: "core s2 = core ?s1" "blk s2 = blk ?s1" "umem s2 = put ?b (map (fbyte ?s1 bl) [off..<e]) (umem s)" using r(2) by (auto simp: fetched_def)
  from io_out_ok[OF file_rel_core[OF lk(2) c2(1,2)], of "off + moved_off off e (e - off)" "e - off" 0] obtain s3 i3 where
    s3: "sfs_io_out n (off + moved_off off e (e - off)) (e - off) 0 s2 = Some (0, e - off, s3)" "blk s3 = blk s2" "umem s3 = umem s2"
      "file_rel s3 n i3 bl" "din i3 = (din ?i1)\<lparr>dsize := max (dsize (din ?i1)) (off + moved_off off e (e - off) + (e - off))\<rparr>"
      "fframe n s2 s3" by blast
  have small: "wrap64 (int off + int (io_resid iob)) = int (off + io_resid iob)"
    using wrap64_id[of "int (off + io_resid iob)"] o(3,4) z(2) by simp
  have "sfs_io_nolock n ?b (io_offset iob) (io_resid iob) False ?s1 = Some (0, e - off, s3)"
    using r(1) s3(1) small o f(1,3) lk(2) z(2) by (auto simp: sfs_io_nolock_def file_rel_def Let_def min_def nat_int_add split: if_splits)
  moreover have m: "e - off \<le> io_resid iob" "e - off \<noteq> 0" using o by auto
  ultimately have io: "sfs_io n iob False s = Some (0, iob\<lparr>io_base := ?b + (e - off), io_offset := io_offset iob + int (e - off),
      io_resid := io_resid iob - (e - off)\<rparr>, unlock_sin n s3)"
    using lk(1) iobuf_skip_ok[OF m(1)] by (simp add: sfs_io_def)
  note ul = unlock_file[OF s3(4)]
  have "user_buf (unlock_sin n s3) = user_buf s"
    using fframe_view(9)[OF s3(6)] core_view[OF c2(1)] by (simp add: unlock_sin_def)
  moreover have "fbyte ?s1 bl = fbyte s bl" by (simp add: fbyte_def fun_eq_iff)
  ultimately show ?thesis using io ul s3 c2 by auto
qed

end
