(* ===== verification/Sfs_Rw.thy ===== *)
theory Sfs_Rw
  imports Sfs_Files
begin

text \<open>
  Reading and writing files of the simple file system: the properties, on top of the lemmas of the
  theory of files, and a small concrete file system that the witnesses use.
\<close>

section \<open>A small file system\<close>

text \<open>Sixteen blocks at address \<open>0x100000\<close>: superblock, root, bitmap, the inode of a file of ten bytes in
  block 3, its data in block 4; the blocks from 6 on are free.\<close>

definition ten_bytes :: sfs_inode where
  "ten_bytes = \<lparr>din = \<lparr>dsize = 10, dtype = SFS_TYPE_FILE, nlinks = 1, dblocks = 1, direct = 4 # replicate 11 0, indirect = 0\<rparr>,
     ino = 3, dirty = False, reclaim_count = 1, sin_locked = False\<rparr>"

definition small_fs :: sstate where
  "small_fs = \<lparr>inodes = (\<lambda>_. \<lparr>has_ops = True, ref_count = 1, iopen_count = 0\<rparr>),
     fsdata = \<lparr>sdev = full_stdin\<lparr>ide_base := 0x100000, ide_size := 128, disk0_buffer := 0x10000\<rparr>,
       super = \<lparr>magic = 0x2f8dbe2a, sblocks = 16, unused_blocks = 10, sinfo = []\<rparr>,
       fs_dev = \<lparr>d_blocks = 16, d_blocksize = 4096, d_kind = Disk0\<rparr>,
       freemap = \<lparr>nbits = 32, nwords = 1, bmap = [push_bit 6 (mask 10)]\<rparr>, freemap_addr = 0x40000, super_dirty = False,
       sfs_buffer = 0x20000, fs_locked = False, io_locked = False, sins = [7 \<mapsto> ten_bytes],
       ilinks = \<lparr>nxt = (\<lambda>x. x), prv = (\<lambda>x. x)\<rparr>, inode_pool = [], kmems = []\<rparr>,
     vmemory = (\<lambda>_. 0)\<rparr>"

lemma small_fs_free: "free_blks small_fs = {6..<16}"
proof -
  have m: "nwords (freemap (fsdata small_fs)) = 1" "bmap (freemap (fsdata small_fs)) = [push_bit 6 (mask 10)]"
    by (simp_all add: small_fs_def del: push_bit_of_1 mask_numeral)
  have "free_at (freemap (fsdata small_fs)) i \<longleftrightarrow> 6 \<le> i \<and> i < 16" for i
  proof (cases "i < 32")
    case True
    then have "i div 32 = 0" "i mod 32 = i" by simp_all
    then show ?thesis using True unfolding free_at_def m by (auto simp add: bit_push_bit_iff bit_mask_iff)
  next
    case False
    then have "0 < i div 32" by (simp add: div_greater_zero_iff)
    then have "\<not> i div 32 < 1" by linarith
    then show ?thesis using False unfolding free_at_def m(1) by auto
  qed
  then have "{i. free_at (freemap (fsdata small_fs)) i} = {i. 6 \<le> i \<and> i < 16}" by presburger
  then show ?thesis unfolding free_blks_def free_bits_def by (simp add: set_eq_iff)
qed

lemma small_fs_ok: "sfs_ok small_fs"
proof -
  have "disk_fits (fs_dev (fsdata small_fs)) (sdev (fsdata small_fs))" by (simp add: disk_fits_def small_fs_def)
  moreover have "nblk small_fs = 16" "\<not> io_locked (fsdata small_fs)" "d_blocks (fs_dev (fsdata small_fs)) = 16"
    "nbits (freemap (fsdata small_fs)) = 32" "unused_blocks (super (fsdata small_fs)) = 10" by (simp_all add: nblk_def small_fs_def)
  moreover have "disk_area small_fs = {0x100000..<0x110000}" "scratch small_fs = {0x10000..<0x14000} \<union> {0x20000..<0x21000}"
    "disk0_buffer (sdev (fsdata small_fs)) = 0x10000" "sfs_buffer (fsdata small_fs) = 0x20000"
    by (simp_all add: view_defs small_fs_def)
  moreover have "bitmap_inv (freemap (fsdata small_fs))"
  proof -
    have "length (bmap (freemap (fsdata small_fs))) = 1" "nwords (freemap (fsdata small_fs)) = 1" "nbits (freemap (fsdata small_fs)) = 32"
      by (simp_all add: small_fs_def)
    then show ?thesis using small_fs_free by (auto simp: bitmap_inv_def free_blks_def)
  qed
  moreover have "({0x10000..<0x14000} \<union> {0x20000..<0x21000}) \<inter> {0x100000..<0x110000} = ({} :: nat set)" by auto
  ultimately show ?thesis using small_fs_free unfolding sfs_ok_def by simp
qed

lemma small_fs_file: "file_rel small_fs 7 ten_bytes [4]"
proof -
  have "direct (din ten_bytes) ! k = (if k = 0 then 4 else 0)" if "k < 12" for k
    using that by (cases k) (simp_all add: ten_bytes_def)
  moreover have "nblk small_fs = 16" by (simp add: nblk_def small_fs_def)
  moreover have "dblocks (din ten_bytes) = 1" "length (direct (din ten_bytes)) = 12" "indirect (din ten_bytes) = 0" "ino ten_bytes = 3"
    by (simp_all add: ten_bytes_def)
  ultimately have "map_ok small_fs ten_bytes [4]"
    using small_fs_free by (simp add: map_ok_def owned_def inds_def used_def)
  then show ?thesis using small_fs_ok by (simp add: file_rel_def) (simp add: small_fs_def)
qed

lemma small_fs_buf: "n \<le> 0xD0000 \<Longrightarrow> user_buf small_fs 0x30000 n"
proof -
  have "disk_area small_fs = {0x100000..<0x110000}" "scratch small_fs = {0x10000..<0x14000} \<union> {0x20000..<0x21000}"
    by (simp_all add: view_defs small_fs_def)
  moreover assume "n \<le> 0xD0000"
  ultimately show ?thesis by (auto simp: user_buf_def)
qed

section \<open>Properties\<close>





text \<open>C40. A defect of \<open>sfs_io_nolock\<close>: it moves \<open>offset\<close> on behind the first block and adds the number of all bytes
  to it afterwards.  A mere read that starts inside a block and reaches the end of the file makes
  the file longer.\<close>

theorem sfs_read_grows:
  assumes "file_rel s n i bl" "\<not> sin_locked i" "dtype (din i) = SFS_TYPE_FILE"
    "dsize (din i) \<le> SFS_BLKSIZE * length bl" "dsize (din i) \<le> SFS_MAX_FILE_SIZE"
    "io_offset iob = int off" "off mod SFS_BLKSIZE \<noteq> 0" "off < dsize (din i)"
    "dsize (din i) \<le> off + io_resid iob" "io_resid iob < 2 ^ 62" "user_buf s (io_base iob) (dsize (din i) - off)"
  shows "\<exists>iob' s' i'. sfs_read n iob s = Some (0, iob', s') \<and> file_rel s' n i' bl
    \<and> dsize (din i') = dsize (din i) + min (dsize (din i) - off) (SFS_BLKSIZE - off mod SFS_BLKSIZE)
    \<and> dsize (din i) < dsize (din i')"
proof -
  let ?z = "dsize (din i)"
  have "0 < io_resid iob" "?z = min (off + io_resid iob) ?z" using assms(8,9) by auto
  from io_read[OF assms(1-6) this(1) assms(8,10) this(2) assms(11)] obtain iob' s' i' where
    r: "sfs_io n iob False s = Some (0, iob', s')" "file_rel s' n i' bl"
      "dsize (din i') = max ?z (off + moved_off off ?z (?z - off) + (?z - off))" by blast
  have m: "moved_off off ?z (?z - off) = min (?z - off) (SFS_BLKSIZE - off mod SFS_BLKSIZE)" using assms(7) by (simp add: moved_off_def)
  moreover have "0 < SFS_BLKSIZE - off mod SFS_BLKSIZE" by simp
  ultimately have "0 < moved_off off ?z (?z - off)" using assms(8) by simp
  then show ?thesis using r m assms(8) unfolding sfs_read_def by auto
qed

theorem sfs_read_grows_witness:
  "\<exists>iob' s' i'. sfs_read 7 (iobuf_init 0x30000 100 4) small_fs = Some (0, iob', s') \<and> file_rel s' 7 i' [4]
    \<and> dsize (din ten_bytes) = 10 \<and> dsize (din i') = 16"
proof -
  have "\<exists>iob' s' i'. sfs_read 7 (iobuf_init 0x30000 100 4) small_fs = Some (0, iob', s') \<and> file_rel s' 7 i' [4]
    \<and> dsize (din i') = dsize (din ten_bytes) + min (dsize (din ten_bytes) - 4) (SFS_BLKSIZE - 4 mod SFS_BLKSIZE)
    \<and> dsize (din ten_bytes) < dsize (din i')"
    by (rule sfs_read_grows[OF small_fs_file]) (simp_all add: ten_bytes_def iobuf_init_def small_fs_buf)
  then show ?thesis by (auto simp: ten_bytes_def)
qed

end
