(* ===== verification/Sfs_Dir.thy ===== *)
theory Sfs_Dir
  imports Process Sfs
begin

unbundle bit_operations_syntax

text \<open>
  The simple file system above its files: the inodes in memory with their list and hash table,
  directories and lookup, synchronisation and release of an inode (the rest of \<open>sfs_inode.c\<close>), and
  mounting, synchronising and unmounting the file system (\<open>sfs_fs.c\<close>, \<open>sfs.c\<close>).

  A file name is the list of its characters before the terminating zero, as paths are; equality of
  such lists is \<open>strcmp\<close> being 0.  The two tables of operations are chosen by the type of the inode, which
  \<open>sfs_get_ops\<close> fixes when the inode is made.
\<close>

section \<open>Inodes in memory\<close>

definition sfs_kmalloc :: "sstate \<Rightarrow> nat option \<times> sstate" where
  "sfs_kmalloc s = (case kmems (fsdata s) of
     [] \<Rightarrow> (None, s) | r # rs \<Rightarrow> (r, upd_sfs (kmems_update (\<lambda>_. rs)) s))"

datatype sfs_optab = DirOps | FileOps

definition sfs_get_ops :: "nat \<Rightarrow> sfs_optab option" where
  "sfs_get_ops t = (if t = SFS_TYPE_DIR then Some DirOps else if t = SFS_TYPE_FILE then Some FileOps else None)"

definition sin_hashfn :: "nat \<Rightarrow> nat" where
  "sin_hashfn x = unat (hash32 (word_of_nat x) 10)"

definition sfs_hash_list :: "nat \<Rightarrow> sfs_link" where
  "sfs_hash_list n = HashHead (sin_hashfn n)"

definition sfs_set_links :: "nat \<Rightarrow> sstate \<Rightarrow> sstate option" where
  "sfs_set_links n s = do {
     i \<leftarrow> sin_of n s;
     Some (upd_sfs (\<lambda>d. d\<lparr>ilinks := list_add (sfs_hash_list (ino i)) (SinLink n)
            (list_add InodeHead (InodeLink n) (ilinks d))\<rparr>) s) }"

definition sfs_remove_links :: "nat \<Rightarrow> sstate \<Rightarrow> sstate" where
  "sfs_remove_links n s = upd_sfs (\<lambda>d. d\<lparr>ilinks := list_del (SinLink n) (list_del (InodeLink n) (ilinks d))\<rparr>) s"

definition sfs_create_inode :: "sfs_disk_inode \<Rightarrow> nat \<Rightarrow> sstate \<Rightarrow> (int \<times> nat option \<times> sstate) option" where
  "sfs_create_inode d b s = (case inode_pool (fsdata s) of
     [] \<Rightarrow> Some (- E_NO_MEM, None, s)
   | n # ns \<Rightarrow> do {
       ops \<leftarrow> sfs_get_ops (dtype d);
       let s1 = inode_init n (upd_sfs (inode_pool_update (\<lambda>_. ns)) s);
       let sin = \<lparr>din = d, ino = b, dirty = False, reclaim_count = 1, sin_locked = False\<rparr>;
       Some (0, Some n, upd_sfs (\<lambda>d. d\<lparr>sins := (sins d)(n \<mapsto> sin)\<rparr>) s1) })"

partial_function (option) lookup_sfs_loop :: "sfs_link \<Rightarrow> nat \<Rightarrow> sfs_link \<Rightarrow> sstate \<Rightarrow> (nat option \<times> sstate) option" where
  "lookup_sfs_loop l b le s =
     (let le1 = list_next (ilinks (fsdata s)) le in
      if le1 = l then Some (None, s)
      else (case le1 of
        SinLink n \<Rightarrow> do {
          i \<leftarrow> sin_of n s;
          if ino i = b
          then let s1 = inode_ref_inc n s in
            Some (Some n, if ref_count (inodes s1 n) = 1
                          then upd_sin n (\<lambda>i. i\<lparr>reclaim_count := reclaim_count i + 1\<rparr>) s1 else s1)
          else lookup_sfs_loop l b le1 s }
      | _ \<Rightarrow> None))"

definition lookup_sfs_nolock :: "nat \<Rightarrow> sstate \<Rightarrow> (nat option \<times> sstate) option" where
  "lookup_sfs_nolock b s = lookup_sfs_loop (sfs_hash_list b) b (sfs_hash_list b) s"

definition sfs_load_new :: "nat \<Rightarrow> sstate \<Rightarrow> (int \<times> nat option \<times> sstate) option" where
  "sfs_load_new b s =
     (let (p, s1) = sfs_kmalloc s in
      if p = None then Some (- E_NO_MEM, None, s1)
      else do {
        u \<leftarrow> sfs_block_inuse b s1;
        kassert u;
        (ret, data, s2) \<leftarrow> sfs_rbuf 64 b 0 s1;
        if ret \<noteq> 0 then Some (ret, None, s2)
        else do {
          let d = decode_din data;
          kassert (nlinks d \<noteq> 0);
          (ret, node, s3) \<leftarrow> sfs_create_inode d b s2;
          if ret \<noteq> 0 then Some (ret, None, s3)
          else do {
            n \<leftarrow> node;
            s4 \<leftarrow> sfs_set_links n s3;
            Some (0, Some n, s4) } } })"

definition sfs_load_inode :: "nat \<Rightarrow> sstate \<Rightarrow> (int \<times> nat option \<times> sstate) option" where
  "sfs_load_inode b s = do {
     s1 \<leftarrow> lock_sfs_fs s;
     (node, s2) \<leftarrow> lookup_sfs_nolock b s1;
     if node \<noteq> None then Some (0, node, unlock_sfs_fs s2)
     else do {
       (ret, node, s3) \<leftarrow> sfs_load_new b s2;
       Some (ret, node, unlock_sfs_fs s3) } }"

section \<open>Directories\<close>

record sfs_disk_entry =
  entry_ino :: nat
  entry_name :: "8 word list"

definition decode_entry :: "8 word list \<Rightarrow> sfs_disk_entry" where
  "decode_entry bs = \<lparr>entry_ino = field bs 0 4, entry_name = take 256 (drop 4 bs)\<rparr>"

text \<open>The string in an array of characters.\<close>

definition str_in :: "8 word list \<Rightarrow> path" where
  "str_in bs = takeWhile (\<lambda>c. c \<noteq> 0) bs"

definition sfs_dirent_read_nolock :: "nat \<Rightarrow> nat \<Rightarrow> sstate \<Rightarrow> (int \<times> sfs_disk_entry option \<times> sstate) option" where
  "sfs_dirent_read_nolock n slot s = do {
     i \<leftarrow> sin_of n s;
     kassert (dtype (din i) = SFS_TYPE_DIR \<and> slot < dblocks (din i));
     (ret, b, s1) \<leftarrow> sfs_bmap_load_nolock n slot s;
     if ret \<noteq> 0 then Some (ret, None, s1)
     else do {
       u \<leftarrow> sfs_block_inuse b s1;
       kassert u;
       (ret, data, s2) \<leftarrow> sfs_rbuf 260 b 0 s1;
       if ret \<noteq> 0 then Some (ret, None, s2)
       else let e = decode_entry data in Some (0, Some (e\<lparr>entry_name := (entry_name e)[255 := 0]\<rparr>), s2) } }"

text \<open>The three loops over the entries of a directory; \<open>todo\<close> counts the slots that are left.  The search
  yields the inode, the slot and the last empty slot it has passed.\<close>

fun dirent_search_loop :: "nat \<Rightarrow> path \<Rightarrow> nat \<Rightarrow> nat \<Rightarrow> nat \<Rightarrow> sstate \<Rightarrow> (int \<times> nat \<times> nat \<times> nat \<times> sstate) option" where
  "dirent_search_loop n name i spare 0 s = Some (- E_NOENT, 0, 0, spare, s)"
| "dirent_search_loop n name i spare (Suc todo) s = do {
     (ret, e, s1) \<leftarrow> sfs_dirent_read_nolock n i s;
     if ret \<noteq> 0 then Some (ret, 0, 0, spare, s1)
     else do {
       entry \<leftarrow> e;
       if entry_ino entry = 0 then dirent_search_loop n name (i + 1) i todo s1
       else if name = str_in (entry_name entry) then Some (0, entry_ino entry, i, spare, s1)
       else dirent_search_loop n name (i + 1) spare todo s1 } }"

definition sfs_dirent_search_nolock :: "nat \<Rightarrow> path \<Rightarrow> sstate \<Rightarrow> (int \<times> nat \<times> nat \<times> nat \<times> sstate) option" where
  "sfs_dirent_search_nolock n name s = do {
     kassert (length name \<le> 255);
     let (p, s1) = sfs_kmalloc s;
     if p = None then Some (- E_NO_MEM, 0, 0, 0, s1)
     else do {
       i \<leftarrow> sin_of n s1;
       dirent_search_loop n name 0 (dblocks (din i)) (dblocks (din i)) s1 } }"

fun dirent_findino_loop :: "nat \<Rightarrow> nat \<Rightarrow> nat \<Rightarrow> nat \<Rightarrow> sstate \<Rightarrow> (int \<times> sfs_disk_entry option \<times> sstate) option" where
  "dirent_findino_loop n b i 0 s = Some (- E_NOENT, None, s)"
| "dirent_findino_loop n b i (Suc todo) s = do {
     (ret, e, s1) \<leftarrow> sfs_dirent_read_nolock n i s;
     if ret \<noteq> 0 then Some (ret, None, s1)
     else do {
       entry \<leftarrow> e;
       if entry_ino entry = b then Some (0, Some entry, s1) else dirent_findino_loop n b (i + 1) todo s1 } }"

definition sfs_dirent_findino_nolock :: "nat \<Rightarrow> nat \<Rightarrow> sstate \<Rightarrow> (int \<times> sfs_disk_entry option \<times> sstate) option" where
  "sfs_dirent_findino_nolock n b s = do { i \<leftarrow> sin_of n s; dirent_findino_loop n b 0 (dblocks (din i)) s }"

definition sfs_lookup_once :: "nat \<Rightarrow> path \<Rightarrow> sstate \<Rightarrow> (int \<times> nat option \<times> sstate) option" where
  "sfs_lookup_once n name s = do {
     s1 \<leftarrow> lock_sin n s;
     (ret, b, _, _, s2) \<leftarrow> sfs_dirent_search_nolock n name s1;
     let s3 = unlock_sin n s2;
     if ret = 0 then sfs_load_inode b s3 else Some (ret, None, s3) }"

fun getdirentry_loop :: "nat \<Rightarrow> nat \<Rightarrow> nat \<Rightarrow> nat \<Rightarrow> sstate \<Rightarrow> (int \<times> sfs_disk_entry option \<times> sstate) option" where
  "getdirentry_loop n slot i 0 s = Some (- E_NOENT, None, s)"
| "getdirentry_loop n slot i (Suc todo) s = do {
     (ret, e, s1) \<leftarrow> sfs_dirent_read_nolock n i s;
     if ret \<noteq> 0 then Some (ret, None, s1)
     else do {
       entry \<leftarrow> e;
       if entry_ino entry \<noteq> 0
       then if slot = 0 then Some (0, Some entry, s1) else getdirentry_loop n (slot - 1) (i + 1) todo s1
       else getdirentry_loop n slot (i + 1) todo s1 } }"

definition sfs_getdirentry_sub_nolock :: "nat \<Rightarrow> nat \<Rightarrow> sstate \<Rightarrow> (int \<times> sfs_disk_entry option \<times> sstate) option" where
  "sfs_getdirentry_sub_nolock n slot s = do { i \<leftarrow> sin_of n s; getdirentry_loop n slot 0 (dblocks (din i)) s }"

text \<open>The entry is an object at the address that \<open>kmalloc\<close> returned; its name is at offset 4.  The slot is a
  32-bit number.\<close>

definition sfs_getdirentry :: "nat \<Rightarrow> iobuf \<Rightarrow> sstate \<Rightarrow> (int \<times> iobuf \<times> sstate) option" where
  "sfs_getdirentry n iob s = (case sfs_kmalloc s of
     (None, s1) \<Rightarrow> Some (- E_NO_MEM, iob, s1)
   | (Some p, s1) \<Rightarrow> do {
       i \<leftarrow> sin_of n s1;
       let offset = io_offset iob;
       if offset < 0 \<or> offset mod 256 \<noteq> 0 then Some (- E_INVAL, iob, s1)
       else let slot = nat (offset div 256 mod 2 ^ 32) in
         if slot > dblocks (din i) then Some (- E_NOENT, iob, s1)
       else do {
         s2 \<leftarrow> lock_sin n s1;
         (ret, e, s3) \<leftarrow> sfs_getdirentry_sub_nolock n slot s2;
         let s4 = unlock_sin n s3;
         if ret \<noteq> 0 then Some (ret, iob, s4)
         else do {
           entry \<leftarrow> e;
           let m = put p (le_bytes 4 (entry_ino entry) @ entry_name entry) (vmemory s4);
           (ret, _, iob1, m1) \<leftarrow> iobuf_move iob (p + 4) 256 True m;
           Some (ret, iob1, s4\<lparr>vmemory := m1\<rparr>) } } })"

section \<open>Opening, closing, synchronising\<close>

definition sfs_opendir :: "nat \<Rightarrow> 32 word \<Rightarrow> sstate \<Rightarrow> (int \<times> sstate) option" where
  "sfs_opendir n fl s =
     (if fl AND O_ACCMODE \<noteq> O_RDONLY then Some (- E_ISDIR, s)
      else if fl AND O_APPEND \<noteq> 0 then Some (- E_ISDIR, s) else Some (0, s))"

definition sfs_openfile :: "nat \<Rightarrow> 32 word \<Rightarrow> sstate \<Rightarrow> (int \<times> sstate) option" where
  "sfs_openfile n fl s = Some (0, s)"

definition sfs_fsync :: "nat \<Rightarrow> sstate \<Rightarrow> (int \<times> sstate) option" where
  "sfs_fsync n s = do {
     i \<leftarrow> sin_of n s;
     if dirty i
     then do {
       s1 \<leftarrow> lock_sin n s;
       (ret, s2) \<leftarrow> sfs_wbuf (encode_din (din i)) (ino i) 0 (upd_sin n (dirty_update (\<lambda>_. False)) s1);
       let s3 = (if ret \<noteq> 0 then upd_sin n (dirty_update (\<lambda>_. True)) s2 else s2);
       Some (ret, unlock_sin n s3) }
     else Some (0, s) }"

definition sfs_close :: "nat \<Rightarrow> sstate \<Rightarrow> (int \<times> sstate) option" where
  "sfs_close n s = vop n (sfs_fsync n) s"

definition S_IFREG :: "32 word" where "S_IFREG = 0x1000"
definition S_IFDIR :: "32 word" where "S_IFDIR = 0x2000"
definition S_IFLNK :: "32 word" where "S_IFLNK = 0x3000"

definition sfs_gettype :: "nat \<Rightarrow> sstate \<Rightarrow> (int \<times> 32 word \<times> sstate) option" where
  "sfs_gettype n s = do {
     i \<leftarrow> sin_of n s;
     if dtype (din i) = SFS_TYPE_DIR then Some (0, S_IFDIR, s)
     else if dtype (din i) = SFS_TYPE_FILE then Some (0, S_IFREG, s)
     else if dtype (din i) = SFS_TYPE_LINK then Some (0, S_IFLNK, s)
     else None }"

definition sfs_fstat :: "nat \<Rightarrow> sstate \<Rightarrow> (int \<times> stat \<times> sstate) option" where
  "sfs_fstat n s = do {
     (ret, mode, s1) \<leftarrow> vop n (sfs_gettype n) s;
     if ret \<noteq> 0 then Some (ret, \<lparr>st_mode = mode, st_nlinks = 0, st_blocks = 0, st_size = 0\<rparr>, s1)
     else do {
       i \<leftarrow> sin_of n s1;
       Some (0, \<lparr>st_mode = mode, st_nlinks = nlinks (din i), st_blocks = dblocks (din i), st_size = dsize (din i)\<rparr>, s1) } }"

section \<open>Release\<close>

text \<open>\<open>vop_truncate(node, 0)\<close>: the table of directories has no such operation.\<close>

definition sfs_vop_truncate :: "nat \<Rightarrow> int \<Rightarrow> sstate \<Rightarrow> (int \<times> sstate) option" where
  "sfs_vop_truncate n len s = do {
     i \<leftarrow> sin_of n s;
     kassert (sfs_get_ops (dtype (din i)) = Some FileOps);
     vop n (sfs_truncfile n len) s }"

text \<open>\<open>sfs_reclaim\<close> after the lock is given back.\<close>

definition reclaim_free :: "nat \<Rightarrow> sstate \<Rightarrow> (int \<times> sstate) option" where
  "reclaim_free n s = do {
     i \<leftarrow> sin_of n s;
     s1 \<leftarrow> (if nlinks (din i) = 0
           then do {
             s1 \<leftarrow> sfs_block_free (ino i) s;
             if indirect (din i) \<noteq> 0 then sfs_block_free (indirect (din i)) s1 else Some s1 }
           else Some s);
     s2 \<leftarrow> inode_kill n s1;
     Some (0, upd_sfs (\<lambda>d. d\<lparr>sins := (sins d)(n := None)\<rparr>) s2) }"

definition sfs_reclaim :: "nat \<Rightarrow> sstate \<Rightarrow> (int \<times> sstate) option" where
  "sfs_reclaim n s = do {
     s1 \<leftarrow> lock_sfs_fs s;
     i \<leftarrow> sin_of n s1;
     kassert (reclaim_count i > 0);
     let s2 = upd_sin n (\<lambda>i. i\<lparr>reclaim_count := reclaim_count i - 1\<rparr>) s1;
     if reclaim_count i - 1 \<noteq> 0 \<or> ref_count (inodes s2 n) \<noteq> 0 then Some (- E_BUSY, unlock_sfs_fs s2)
     else do {
       (ret, s3) \<leftarrow> (if nlinks (din i) = 0 then sfs_vop_truncate n 0 s2 else Some (0, s2));
       if ret \<noteq> 0 then Some (ret, unlock_sfs_fs s3)
       else do {
         i3 \<leftarrow> sin_of n s3;
         (ret, s4) \<leftarrow> (if dirty i3 then vop n (sfs_fsync n) s3 else Some (0, s3));
         if ret \<noteq> 0 then Some (ret, unlock_sfs_fs s4)
         else reclaim_free n (unlock_sfs_fs (sfs_remove_links n s4)) } } }"

section \<open>Lookup and the operation tables\<close>

text \<open>A table with the release operation only, as \<open>vop_ref_dec\<close> needs it.\<close>

definition sfs_ref_ops :: "sfs_data inode_ops" where
  "sfs_ref_ops = \<lparr>op_open = (\<lambda>_ _ _. None), op_close = (\<lambda>_ _. None), op_read = (\<lambda>_ _ _. None), op_write = (\<lambda>_ _ _. None),
     op_fstat = (\<lambda>_ _. None), op_fsync = (\<lambda>_ _. None), op_getdirentry = (\<lambda>_ _ _. None), op_reclaim = sfs_reclaim,
     op_tryseek = (\<lambda>_ _ _. None), op_truncate = (\<lambda>_ _ _. None), op_create = (\<lambda>_ _ _ _. None), op_lookup = (\<lambda>_ _ _. None)\<rparr>"

definition sfs_lookup :: "nat \<Rightarrow> path \<Rightarrow> sstate \<Rightarrow> (int \<times> nat option \<times> sstate) option" where
  "sfs_lookup n path s = do {
     kassert (path \<noteq> [] \<and> hd path \<noteq> 47);
     let s1 = inode_ref_inc n s;
     i \<leftarrow> sin_of n s1;
     if dtype (din i) \<noteq> SFS_TYPE_DIR
     then do { (_, s2) \<leftarrow> inode_ref_dec sfs_ref_ops n s1; Some (- E_NOTDIR, None, s2) }
     else do {
       (ret, sub, s2) \<leftarrow> sfs_lookup_once n path s1;
       (_, s3) \<leftarrow> inode_ref_dec sfs_ref_ops n s2;
       if ret \<noteq> 0 then Some (ret, None, s3) else Some (0, sub, s3) } }"

definition sfs_node_dirops :: "sfs_data inode_ops" where
  "sfs_node_dirops = sfs_ref_ops\<lparr>op_open := sfs_opendir, op_close := sfs_close, op_fstat := sfs_fstat, op_fsync := sfs_fsync,
     op_getdirentry := sfs_getdirentry, op_lookup := sfs_lookup\<rparr>"

definition sfs_node_fileops :: "sfs_data inode_ops" where
  "sfs_node_fileops = sfs_ref_ops\<lparr>op_open := sfs_openfile, op_close := sfs_close, op_read := sfs_read, op_write := sfs_write,
     op_fstat := sfs_fstat, op_fsync := sfs_fsync, op_tryseek := sfs_tryseek, op_truncate := sfs_truncfile\<rparr>"

text \<open>The table of an inode.\<close>

definition table_of :: "nat \<Rightarrow> sstate \<Rightarrow> sfs_data inode_ops option" where
  "table_of n s = do {
     i \<leftarrow> sin_of n s;
     t \<leftarrow> sfs_get_ops (dtype (din i));
     Some (case t of DirOps \<Rightarrow> sfs_node_dirops | FileOps \<Rightarrow> sfs_node_fileops) }"

definition sfs_node_ops :: "sfs_data inode_ops" where
  "sfs_node_ops = \<lparr>op_open = (\<lambda>n fl s. table_of n s \<bind> (\<lambda>t. op_open t n fl s)),
     op_close = (\<lambda>n s. table_of n s \<bind> (\<lambda>t. op_close t n s)),
     op_read = (\<lambda>n b s. table_of n s \<bind> (\<lambda>t. op_read t n b s)),
     op_write = (\<lambda>n b s. table_of n s \<bind> (\<lambda>t. op_write t n b s)),
     op_fstat = (\<lambda>n s. table_of n s \<bind> (\<lambda>t. op_fstat t n s)),
     op_fsync = (\<lambda>n s. table_of n s \<bind> (\<lambda>t. op_fsync t n s)),
     op_getdirentry = (\<lambda>n b s. table_of n s \<bind> (\<lambda>t. op_getdirentry t n b s)),
     op_reclaim = (\<lambda>n s. table_of n s \<bind> (\<lambda>t. op_reclaim t n s)),
     op_tryseek = (\<lambda>n p s. table_of n s \<bind> (\<lambda>t. op_tryseek t n p s)),
     op_truncate = (\<lambda>n p s. table_of n s \<bind> (\<lambda>t. op_truncate t n p s)),
     op_create = (\<lambda>n p x s. table_of n s \<bind> (\<lambda>t. op_create t n p x s)),
     op_lookup = (\<lambda>n p s. table_of n s \<bind> (\<lambda>t. op_lookup t n p s))\<rparr>"

section \<open>The name of a directory\<close>

text \<open>The loop ends with the code, the inode reached, the place and the room that is left.\<close>

partial_function (option) namefile_loop :: "nat \<Rightarrow> nat \<Rightarrow> nat \<Rightarrow> sstate \<Rightarrow> (int \<times> nat \<times> nat \<times> nat \<times> sstate) option" where
  "namefile_loop n ptr resid s = do {
     (ret, parent, s1) \<leftarrow> sfs_lookup_once n [46, 46] s;
     if ret \<noteq> 0 then Some (ret, n, ptr, resid, s1)
     else do {
       p \<leftarrow> parent;
       i \<leftarrow> sin_of n s1;
       (c, s2) \<leftarrow> inode_ref_dec sfs_ref_ops n s1;
       if n = p then do { (c, s3) \<leftarrow> inode_ref_dec sfs_ref_ops n s2; Some (0, n, ptr, resid, s3) }
       else do {
         j \<leftarrow> sin_of p s2;
         kassert (ino i \<noteq> ino j \<and> dtype (din j) = SFS_TYPE_DIR);
         s3 \<leftarrow> lock_sin p s2;
         (ret, e, s4) \<leftarrow> sfs_dirent_findino_nolock p (ino i) s3;
         let s5 = unlock_sin p s4;
         if ret \<noteq> 0 then Some (ret, p, ptr, resid, s5)
         else do {
           entry \<leftarrow> e;
           let name = str_in (entry_name entry);
           let alen = length name + 1;
           if alen > resid then Some (- E_NO_MEM, p, ptr, resid, s5)
           else namefile_loop p (ptr - alen) (resid - alen)
                  (s5\<lparr>vmemory := put (ptr - alen) (name @ [47]) (vmemory s5)\<rparr>) } } } }"

definition sfs_namefile :: "nat \<Rightarrow> iobuf \<Rightarrow> sstate \<Rightarrow> (int \<times> iobuf \<times> sstate) option" where
  "sfs_namefile n iob s =
     (if io_resid iob \<le> 2 then Some (- E_NO_MEM, iob, s)
      else let (p, s0) = sfs_kmalloc s in
        if p = None then Some (- E_NO_MEM, iob, s0)
        else do {
          (ret, m, ptr, resid, s1) \<leftarrow> namefile_loop n (io_base iob + io_resid iob) (io_resid iob - 2) (inode_ref_inc n s0);
          if ret \<noteq> 0 then do { (_, s2) \<leftarrow> inode_ref_dec sfs_ref_ops m s1; Some (ret, iob, s2) }
          else do {
            let alen = io_resid iob - resid - 2;
            let m1 = snd (memmove (io_base iob + 1) ptr alen (vmemory s1));
            iob1 \<leftarrow> iobuf_skip iob alen;
            Some (0, iob1, s1\<lparr>vmemory := m1(io_base iob := 47, io_base iob + 1 + alen := 0)\<rparr>) } })"

section \<open>The file system as a whole\<close>

partial_function (option) sfs_sync_loop :: "sfs_link \<Rightarrow> sstate \<Rightarrow> sstate option" where
  "sfs_sync_loop le s =
     (let le1 = list_next (ilinks (fsdata s)) le in
      if le1 = InodeHead then Some s
      else (case le1 of
        InodeLink n \<Rightarrow> do { (ret, s1) \<leftarrow> vop n (sfs_fsync n) s; sfs_sync_loop le1 s1 }
      | _ \<Rightarrow> None))"

definition sfs_sync :: "sstate \<Rightarrow> (int \<times> sstate) option" where
  "sfs_sync s = do {
     s1 \<leftarrow> lock_sfs_fs s;
     s2 \<leftarrow> sfs_sync_loop InodeHead s1;
     let s3 = unlock_sfs_fs s2;
     if super_dirty (fsdata s3)
     then do {
       (ret, s4) \<leftarrow> sfs_sync_super (upd_sfs (super_dirty_update (\<lambda>_. False)) s3);
       if ret \<noteq> 0 then Some (ret, upd_sfs (super_dirty_update (\<lambda>_. True)) s4)
       else do {
         (ret, s5) \<leftarrow> sfs_sync_freemap s4;
         if ret \<noteq> 0 then Some (ret, upd_sfs (super_dirty_update (\<lambda>_. True)) s5) else Some (0, s5) } }
     else Some (0, s3) }"

definition sfs_get_root :: "sstate \<Rightarrow> (nat option \<times> sstate) option" where
  "sfs_get_root s = do {
     (ret, node, s1) \<leftarrow> sfs_load_inode SFS_BLKN_ROOT s;
     kassert (ret = 0);
     Some (node, s1) }"

text \<open>The memory that \<open>sfs_unmount\<close> gives back is not part of the state.\<close>

definition sfs_unmount :: "sstate \<Rightarrow> (int \<times> sstate) option" where
  "sfs_unmount s =
     (if \<not> list_empty (ilinks (fsdata s)) InodeHead then Some (- E_BUSY, s)
      else do { kassert (\<not> super_dirty (fsdata s)); Some (0, s) })"

fun sfs_cleanup_loop :: "nat \<Rightarrow> sstate \<Rightarrow> sstate option" where
  "sfs_cleanup_loop 0 s = Some s"
| "sfs_cleanup_loop (Suc k) s = do {
     (ret, s1) \<leftarrow> sfs_sync s;
     if ret = 0 then Some s1 else sfs_cleanup_loop k s1 }"

definition sfs_cleanup :: "sstate \<Rightarrow> sstate option" where
  "sfs_cleanup s = sfs_cleanup_loop 32 s"

definition sfs_init_read :: "device \<Rightarrow> nat \<Rightarrow> nat \<Rightarrow> dstate \<Rightarrow> (int \<times> dstate) option" where
  "sfs_init_read dev blkno buf s = do {
     (ret, _, s1) \<leftarrow> dop_io dev (iobuf_init buf SFS_BLKSIZE (int (blkno * SFS_BLKSIZE mod 2 ^ 32))) False s;
     Some (ret, s1) }"

fun init_freemap_loop :: "device \<Rightarrow> nat \<Rightarrow> nat \<Rightarrow> nat \<Rightarrow> dstate \<Rightarrow> (int \<times> dstate) option" where
  "init_freemap_loop dev blkno 0 data s = Some (0, s)"
| "init_freemap_loop dev blkno (Suc nblks) data s = do {
     (ret, s1) \<leftarrow> sfs_init_read dev blkno data s;
     if ret \<noteq> 0 then Some (ret, s1) else init_freemap_loop dev (blkno + 1) nblks (data + SFS_BLKSIZE) s1 }"

text \<open>The words of the bitmap are at the address \<open>data\<close>; the last result is the bitmap as it is in memory
  afterwards.\<close>

definition sfs_init_freemap :: "device \<Rightarrow> bitmap \<Rightarrow> nat \<Rightarrow> nat \<Rightarrow> nat \<Rightarrow> dstate \<Rightarrow> (int \<times> bitmap \<times> dstate) option" where
  "sfs_init_freemap dev bm data blkno nblks s = do {
     kassert (snd (bitmap_getdata bm) = nblks * SFS_BLKSIZE);
     (ret, s1) \<leftarrow> init_freemap_loop dev blkno nblks data s;
     Some (ret, bm\<lparr>bmap := map (\<lambda>k. word_of_nat (le_nat (bytes (vmemory s1) (data + 4 * k) 4))) [0..<nwords bm]\<rparr>, s1) }"

fun count_free :: "bitmap \<Rightarrow> nat \<Rightarrow> nat option" where
  "count_free bm 0 = Some 0"
| "count_free bm (Suc i) = do {
     k \<leftarrow> count_free bm i;
     f \<leftarrow> bitmap_test bm i;
     Some (if f then k + 1 else k) }"

text \<open>The results of the five allocations are arguments: the file system, its buffer, the hash table, the
  bitmap and the array of the bitmap.\<close>

definition mount_freemap :: "device \<Rightarrow> nat option \<Rightarrow> nat option \<Rightarrow> nat option \<Rightarrow> nat \<Rightarrow> sfs_super \<Rightarrow> nat list \<Rightarrow> nat option list
    \<Rightarrow> dstate \<Rightarrow> (int \<times> sfs_data option \<times> dstate) option" where
  "mount_freemap dev hl bm arr buf sb nodes mems s =
     (if hl = None then Some (- E_NO_MEM, None, s)
      else do {
        let bits = (sblocks sb + SFS_BLKSIZE * 8 - 1) div (SFS_BLKSIZE * 8) * (SFS_BLKSIZE * 8);
        r \<leftarrow> bitmap_create (bm \<noteq> None) (arr \<noteq> None) bits;
        (case (r, arr) of
           (Some fm, Some data) \<Rightarrow> do {
             (ret, fm1, s1) \<leftarrow> sfs_init_freemap dev fm data SFS_BLKN_FREEMAP
                ((sblocks sb + SFS_BLKSIZE * 8 - 1) div (SFS_BLKSIZE * 8)) s;
             if ret \<noteq> 0 then Some (ret, None, s1)
             else do {
               unused \<leftarrow> count_free fm1 bits;
               kassert (unused = unused_blocks sb);
               Some (0, Some \<lparr>sdev = fsdata s1, super = sb, fs_dev = dev, freemap = fm1, freemap_addr = data,
                 super_dirty = False, sfs_buffer = buf, fs_locked = False, io_locked = False, sins = Map.empty,
                 ilinks = \<lparr>nxt = (\<lambda>x. x), prv = (\<lambda>x. x)\<rparr>, inode_pool = nodes, kmems = mems\<rparr>, s1) } }
         | _ \<Rightarrow> Some (- E_NO_MEM, None, s)) })"

definition sfs_do_mount :: "nat option \<Rightarrow> nat option \<Rightarrow> nat option \<Rightarrow> nat option \<Rightarrow> nat option \<Rightarrow> nat list \<Rightarrow> nat option list
    \<Rightarrow> device \<Rightarrow> dstate \<Rightarrow> (int \<times> sfs_data option \<times> dstate) option" where
  "sfs_do_mount fs buf hl bm arr nodes mems dev s =
     (if d_blocksize dev \<noteq> SFS_BLKSIZE then Some (- E_NA_DEV, None, s)
      else if fs = None then Some (- E_NO_MEM, None, s)
      else (case buf of
        None \<Rightarrow> Some (- E_NO_MEM, None, s)
      | Some b \<Rightarrow> do {
          (ret, s1) \<leftarrow> sfs_init_read dev SFS_BLKN_SUPER b s;
          if ret \<noteq> 0 then Some (ret, None, s1)
          else let sb = decode_super (bytes (vmemory s1) b 44) in
            if magic sb \<noteq> 0x2f8dbe2a then Some (- E_INVAL, None, s1)
            else if sblocks sb > d_blocks dev then Some (- E_INVAL, None, s1)
            else let s2 = s1\<lparr>vmemory := (vmemory s1)(b + 43 := 0)\<rparr>
                 in mount_freemap dev hl bm arr b (sb\<lparr>sinfo := (sinfo sb)[31 := 0]\<rparr>) nodes mems s2 }))"

text \<open>\<open>sfs_mount\<close> and \<open>sfs_init\<close>. The table of devices records the address \<open>fs\<close> of the file system; what
  that address holds is the second result of \<open>sfs_do_mount\<close>.\<close>

definition sfs_mount :: "nat option \<Rightarrow> nat option \<Rightarrow> nat option \<Rightarrow> nat option \<Rightarrow> nat option \<Rightarrow> path \<Rightarrow> dstate \<Rightarrow> (int \<times> dstate) option" where
  "sfs_mount fs buf hl bm arr name s =
     vfs_mount (\<lambda>dev s. do {
       (ret, mounted, s1) \<leftarrow> sfs_do_mount fs buf hl bm arr [] [] dev s;
       Some (ret, if mounted = None then None else fs, s1) }) name s"

definition sfs_init :: "nat option \<Rightarrow> nat option \<Rightarrow> nat option \<Rightarrow> nat option \<Rightarrow> nat option \<Rightarrow> dstate \<Rightarrow> dstate option" where
  "sfs_init fs buf hl bm arr s = do {
     (ret, s1) \<leftarrow> sfs_mount fs buf hl bm arr [100, 105, 115, 107, 48] s;
     kassert (ret = 0);
     Some s1 }"

declare lookup_sfs_loop.simps [code] namefile_loop.simps [code] sfs_sync_loop.simps [code]

end
