(* ===== verification/Sfs_Tree.thy ===== *)
theory Sfs_Tree
  imports Sfs_Rw Sfs_Dir
begin

text \<open>
  The inodes of the simple file system in memory.  \<open>cache_rel\<close> relates the list of inodes and the hash chains
  to the set of inodes in memory, one for each number at most; looking up an inode, loading it,
  and looking up a name in a directory are shown against it.
\<close>

section \<open>A write and a read\<close>

lemma write_read:
  assumes f: "file_rel s n i bl" "\<not> sin_locked i" "dtype (din i) = SFS_TYPE_FILE" "dsize (din i) \<le> SFS_BLKSIZE * length bl"
    and o: "io_offset iob = int off" "0 < io_resid iob" "off mod SFS_BLKSIZE = 0" "off div SFS_BLKSIZE \<le> length bl"
      "off + io_resid iob \<le> (SFS_NDIRECT + SFS_BLK_NENTRY) * SFS_BLKSIZE"
    and u: "user_buf s (io_base iob) (io_resid iob)" "user_buf s dst (io_resid iob)"
    and free: "(off + io_resid iob + SFS_BLKSIZE - 1) div SFS_BLKSIZE - length bl < card (free_blks s)"
  shows "\<exists>iob1 s1 iob2 s2. sfs_write n iob s = Some (0, iob1, s1)
    \<and> sfs_read n (iobuf_init dst (io_resid iob) (io_offset iob)) s1 = Some (0, iob2, s2) \<and> io_resid iob1 = 0 \<and> io_resid iob2 = 0
    \<and> bytes (umem s2) dst (io_resid iob) = bytes (umem s) (io_base iob) (io_resid iob)"
proof -
  let ?l = "io_resid iob" and ?r = "iobuf_init dst (io_resid iob) (io_offset iob)"
  from io_write[OF f(1-3) o(1,2,4,5) u(1)] obtain ret m iob1 s1 i1 bl1 where
    w: "sfs_io n iob True s = Some (ret, iob1, s1)" "file_rel s1 n i1 bl1" "\<not> sin_locked i1" "io_resid iob1 = ?l - m"
      "ret = 0 \<and> m = ?l \<or> ret = - E_NO_MEM \<and> m < ?l \<and> card (free_blks s) \<le> (off + ?l + SFS_BLKSIZE - 1) div SFS_BLKSIZE - length bl"
      "\<forall>q < SFS_BLKSIZE * length bl1. fbyte s1 bl1 q = (if off \<le> q \<and> q < off + m then umem s (io_base iob + (q - off))
          else if q < SFS_BLKSIZE * length bl then fbyte s bl q else 0)"
      "0 < m \<longrightarrow> off + m \<le> SFS_BLKSIZE * length bl1" "length bl \<le> length bl1"
      "dsize (din i1) = max (dsize (din i)) (off + moved_off off (off + ?l) m + m)" "dtype (din i1) = dtype (din i)"
      "umem s1 = umem s" "user_buf s1 = user_buf s"
    by (elim exE conjE) (rule that)
  have m: "ret = 0" "m = ?l" using w(5) free by auto
  have le: "off + ?l \<le> SFS_BLKSIZE * length bl1" using w(7) m o(2) by simp
  have z: "dsize (din i1) = max (dsize (din i)) (off + ?l)" using w(9) m o(3) by (simp add: moved_off_def)
  have "length bl1 \<le> SFS_NDIRECT + SFS_BLK_NENTRY" using w(2) by (simp add: file_rel_def map_ok_def)
  then have r: "dsize (din i1) \<le> SFS_BLKSIZE * length bl1" "dsize (din i1) \<le> SFS_MAX_FILE_SIZE" "off < dsize (din i1)"
    using z le w(8) f(4) o(2) by auto
  have e: "off + ?l = min (off + io_resid ?r) (dsize (din i1))" using z by (simp add: iobuf_init_def)
  have "io_offset ?r = int off" "0 < io_resid ?r" "io_resid ?r < 2 ^ 62" "user_buf s1 (io_base ?r) (off + ?l - off)"
    using o u(2) w(12) by (simp_all add: iobuf_init_def)
  from io_read[OF w(2,3) w(10)[unfolded f(3)] r(1,2) this(1,2) r(3) this(3) e this(4)] obtain iob2 s2 where
    rd: "sfs_io n ?r False s1 = Some (0, iob2, s2)" "io_resid iob2 = io_resid ?r - (off + ?l - off)"
      "umem s2 = put (io_base ?r) (map (fbyte s1 bl1) [off..<off + ?l]) (umem s1)"
    by (elim exE conjE) (rule that)
  have "map (fbyte s1 bl1) [off..<off + ?l] = bytes (umem s) (io_base iob) ?l"
    by (rule nth_equalityI) (use w(6) m le in auto)
  then have "bytes (umem s2) dst ?l = bytes (umem s) (io_base iob) ?l"
    using rd(3) bytes_put_len[of "bytes (umem s) (io_base iob) ?l" ?l dst] by (simp add: iobuf_init_def)
  then show ?thesis using w(1,4) m rd(1,2) by (auto simp: sfs_write_def sfs_read_def iobuf_init_def)
qed


section \<open>The inodes in memory\<close>

text \<open>\<open>xs\<close> are the inodes of the list, \<open>hs h\<close> those of the hash chain \<open>h\<close>.\<close>

definition cache_rel :: "sfs_data \<Rightarrow> nat list \<Rightarrow> (nat \<Rightarrow> nat list) \<Rightarrow> bool" where
  "cache_rel d xs hs \<longleftrightarrow> dlist (ilinks d) InodeHead (map InodeLink xs) \<and> (\<forall>h. dlist (ilinks d) (HashHead h) (map SinLink (hs h)))
     \<and> set xs = dom (sins d) \<and> (\<forall>h. set (hs h) = {n. \<exists>i. sins d n = Some i \<and> sin_hashfn (ino i) = h})
     \<and> (\<forall>m n i j. sins d m = Some i \<and> sins d n = Some j \<and> ino i = ino j \<longrightarrow> m = n)
     \<and> distinct (inode_pool d) \<and> set (inode_pool d) \<inter> dom (sins d) = {}"

definition cache_inv :: "sfs_data \<Rightarrow> bool" where
  "cache_inv d \<longleftrightarrow> (\<exists>xs hs. cache_rel d xs hs)"

definition taken :: "nat \<Rightarrow> sstate \<Rightarrow> sstate" where
  "taken n s = (let s1 = inode_ref_inc n s in
     if ref_count (inodes s1 n) = 1 then upd_sin n (\<lambda>i. i\<lparr>reclaim_count := reclaim_count i + 1\<rparr>) s1 else s1)"

lemma lookup_loop_ok:
  assumes "dlist (ilinks (fsdata s)) l (map SinLink (ys @ zs))" "\<And>n. n \<in> set zs \<Longrightarrow> sin_of n s \<noteq> None"
  shows "lookup_sfs_loop l b (last (l # map SinLink ys)) s
    = Some (case find (\<lambda>n. ino (the (sin_of n s)) = b) zs of None \<Rightarrow> (None, s) | Some n \<Rightarrow> (Some n, taken n s))"
  using assms
proof (induction zs arbitrary: ys)
  case Nil
  then have "nxt (ilinks (fsdata s)) (last (l # map SinLink ys)) = l" using dlist_nxt_pos[of _ l "map SinLink ys" "[]"] by simp
  then show ?case by (subst lookup_sfs_loop.simps) (simp add: list_next_def Let_def)
next
  case (Cons n zs)
  have e: "nxt (ilinks (fsdata s)) (last (l # map SinLink ys)) = SinLink n"
    using dlist_nxt_pos[of _ l "map SinLink ys" "map SinLink (n # zs)"] Cons.prems(1) by simp
  have ne: "SinLink n \<noteq> l" using dlist_distinct[OF Cons.prems(1)] by auto
  obtain i where i: "sin_of n s = Some i" using Cons.prems(2)[of n] by auto
  show ?case
  proof (cases "ino i = b")
    case True
    then show ?thesis using e ne i by (subst lookup_sfs_loop.simps) (simp add: list_next_def Let_def taken_def)
  next
    case False
    have "lookup_sfs_loop l b (last (l # map SinLink ys)) s = lookup_sfs_loop l b (SinLink n) s"
      using e ne i False by (subst lookup_sfs_loop.simps) (simp add: list_next_def Let_def)
    also have "SinLink n = last (l # map SinLink (ys @ [n]))" by simp
    finally show ?thesis using Cons.IH[of "ys @ [n]"] Cons.prems False i by simp
  qed
qed

lemma lookup_nolock_ok:
  assumes c: "cache_rel (fsdata s) xs hs"
  shows "sin_of n s = Some i \<Longrightarrow> ino i = b \<Longrightarrow> lookup_sfs_nolock b s = Some (Some n, taken n s)"
    "(\<And>n i. sin_of n s = Some i \<Longrightarrow> ino i \<noteq> b) \<Longrightarrow> lookup_sfs_nolock b s = Some (None, s)"
proof -
  let ?h = "sin_hashfn b"
  have h: "set (hs ?h) = {n. \<exists>i. sin_of n s = Some i \<and> sin_hashfn (ino i) = ?h}"
    "dlist (ilinks (fsdata s)) (HashHead ?h) (map SinLink ([] @ hs ?h))" using c by (simp_all add: cache_rel_def)
  have "sin_of n s \<noteq> None" if "n \<in> set (hs ?h)" for n using that h(1) by auto
  from lookup_loop_ok[OF h(2) this, of b]
  have l: "lookup_sfs_nolock b s = Some (case find (\<lambda>n. ino (the (sin_of n s)) = b) (hs ?h) of
      None \<Rightarrow> (None, s) | Some n \<Rightarrow> (Some n, taken n s))" by (simp add: lookup_sfs_nolock_def sfs_hash_list_def)
  show "lookup_sfs_nolock b s = Some (None, s)" if "\<And>n i. sin_of n s = Some i \<Longrightarrow> ino i \<noteq> b"
  proof -
    have "ino (the (sin_of m s)) \<noteq> b" if m: "m \<in> set (hs ?h)" for m
    proof -
      obtain j where "sin_of m s = Some j" using m unfolding h(1) by blast
      then show ?thesis using \<open>\<And>n i. sin_of n s = Some i \<Longrightarrow> ino i \<noteq> b\<close>[of m j] by simp
    qed
    then have "find (\<lambda>n. ino (the (sin_of n s)) = b) (hs ?h) = None" by (simp add: find_None_iff)
    then show ?thesis using l by simp
  qed
  show "lookup_sfs_nolock b s = Some (Some n, taken n s)" if n: "sin_of n s = Some i" "ino i = b"
  proof (cases "find (\<lambda>n. ino (the (sin_of n s)) = b) (hs ?h)")
    case None
    moreover have "n \<in> set (hs ?h)" unfolding h(1) using n by simp
    ultimately have "ino (the (sin_of n s)) \<noteq> b" by (simp add: find_None_iff)
    then show ?thesis using n by simp
  next
    case (Some m)
    then have m: "m \<in> set (hs ?h)" "ino (the (sin_of m s)) = b" by (auto simp: find_Some_iff)
    then obtain j where "sin_of m s = Some j" "ino j = b" unfolding h(1) by auto
    moreover have "\<forall>m n i j. sin_of m s = Some i \<and> sin_of n s = Some j \<and> ino i = ino j \<longrightarrow> m = n" using c by (simp add: cache_rel_def)
    ultimately have "m = n" using n by blast
    then show ?thesis using l Some by simp
  qed
qed


text \<open>\<open>mframe s s'\<close>: memory, blocks and everything of the block layer are the same.\<close>

definition mframe :: "sstate \<Rightarrow> sstate \<Rightarrow> bool" where
  "mframe s s' \<longleftrightarrow> sfs_ok s' = sfs_ok s \<and> blk s' = blk s \<and> umem s' = umem s \<and> free_blks s' = free_blks s \<and> nblk s' = nblk s
     \<and> user_buf s' = user_buf s"

lemma mframe_refl [simp]: "mframe s s" by (simp add: mframe_def)
lemma mframe_trans [trans]: "mframe s t \<Longrightarrow> mframe t u \<Longrightarrow> mframe s u" by (simp add: mframe_def)

lemma mframe_used: "mframe s s' \<Longrightarrow> used s' = used s" by (simp add: mframe_def used_def fun_eq_iff)

lemma mframe_map: "mframe s s' \<Longrightarrow> map_ok s' i bl = map_ok s i bl"
  using mframe_used[of s s'] by (simp add: mframe_def map_ok_def entry_def)

lemma mframe_same: "same s s' \<Longrightarrow> mframe s s'"
  using core_ok[of s' s] core_view[of s' s] by (simp add: same_def mframe_def)

lemma mframe_eq:
  assumes "vmemory s' = vmemory s" "sdev (fsdata s') = sdev (fsdata s)" "super (fsdata s') = super (fsdata s)"
    "fs_dev (fsdata s') = fs_dev (fsdata s)" "freemap (fsdata s') = freemap (fsdata s)" "sfs_buffer (fsdata s') = sfs_buffer (fsdata s)"
    "io_locked (fsdata s') = io_locked (fsdata s)"
  shows "mframe s s'"
proof -
  have v: "nblk s' = nblk s" "blk_addr s' = blk_addr s" "free_blks s' = free_blks s" "scratch s' = scratch s" "disk_area s' = disk_area s"
    using assms by (simp_all add: view_defs fun_eq_iff)
  show ?thesis unfolding mframe_def sfs_ok_def blk_def umem_def user_buf_def v assms by simp
qed

lemma mframe_upd [simp]:
  "mframe s (upd_inode n g s)" "mframe s (upd_sin n f s)" "mframe s (upd_sfs (ilinks_update a) s)" "mframe s (upd_sfs (fs_locked_update b) s)"
  "mframe s (upd_sfs (sins_update c) s)" "mframe s (upd_sfs (inode_pool_update d) s)" "mframe s (upd_sfs (kmems_update e) s)"
  by (rule mframe_eq; simp add: upd_sfs_def upd_sin_def)+

lemma mframe_taken [simp]: "mframe s (taken n s)"
proof -
  have "mframe s (inode_ref_inc n s)" by (simp add: inode_ref_inc_def)
  then show ?thesis by (auto simp: taken_def Let_def intro: mframe_trans)
qed

text \<open>Lists of inodes that do not touch each other.\<close>

lemma cache_disjoint:
  "h \<noteq> h' \<Longrightarrow> (\<And>n. n \<in> set ys \<Longrightarrow> n \<notin> set zs) \<Longrightarrow> set (HashHead h # map SinLink ys) \<inter> set (HashHead h' # map SinLink zs) = {}"
  "set (InodeHead # map InodeLink xs) \<inter> set (HashHead h # map SinLink ys) = {}"
  "set (HashHead h # map SinLink ys) \<inter> set (InodeHead # map InodeLink xs) = {}"
  by auto

lemma cache_relI:
  assumes "ilinks d = l" "sins d = S" "inode_pool d = p" "dlist l InodeHead (map InodeLink xs)" "\<And>h. dlist l (HashHead h) (map SinLink (hs h))"
    "set xs = dom S" "\<And>h. set (hs h) = {n. \<exists>i. S n = Some i \<and> sin_hashfn (ino i) = h}"
    "\<And>m n i j. S m = Some i \<Longrightarrow> S n = Some j \<Longrightarrow> ino i = ino j \<Longrightarrow> m = n" "distinct p" "set p \<inter> dom S = {}"
  shows "cache_rel d xs hs"
  unfolding cache_rel_def assms(1-3) using assms(4-) by blast

lemma cache_add:
  assumes c: "cache_rel d xs hs" and n: "sins d n = None" "n \<notin> set (inode_pool d)" and b: "\<And>m i. sins d m = Some i \<Longrightarrow> ino i \<noteq> ino i0"
  shows "cache_rel (d\<lparr>sins := (sins d)(n \<mapsto> i0), ilinks := list_add (HashHead (sin_hashfn (ino i0))) (SinLink n)
      (list_add InodeHead (InodeLink n) (ilinks d))\<rparr>) (n # xs) (hs(sin_hashfn (ino i0) := n # hs (sin_hashfn (ino i0))))"
    (is "cache_rel ?d _ _")
proof -
  let ?h = "sin_hashfn (ino i0)" and ?l1 = "list_add InodeHead (InodeLink n) (ilinks d)"
  have l: "dlist (ilinks d) InodeHead (map InodeLink xs)" "\<And>h. dlist (ilinks d) (HashHead h) (map SinLink (hs h))"
    "set xs = dom (sins d)" "\<And>h. set (hs h) = {n. \<exists>i. sins d n = Some i \<and> sin_hashfn (ino i) = h}" using c by (auto simp: cache_rel_def)
  have inj: "\<forall>m n i j. sins d m = Some i \<and> sins d n = Some j \<and> ino i = ino j \<longrightarrow> m = n" using c by (simp add: cache_rel_def)
  have nx: "n \<notin> set xs" "\<And>h. n \<notin> set (hs h)" using n l(3,4) by auto
  have x1: "dlist ?l1 InodeHead (map InodeLink (n # xs))" using dlist_add_head[OF l(1), of "InodeLink n"] nx by auto
  have h1: "dlist ?l1 (HashHead h) (map SinLink (hs h))" for h
    by (rule dlist_add_head_other[OF l(2) l(1) cache_disjoint(3)]) auto
  have "dlist (list_add (HashHead ?h) (SinLink n) ?l1) InodeHead (map InodeLink (n # xs))"
    by (rule dlist_add_head_other[OF x1 h1 cache_disjoint(2)]) auto
  moreover have "dlist (list_add (HashHead ?h) (SinLink n) ?l1) (HashHead h) (map SinLink ((hs(?h := n # hs ?h)) h))" for h
  proof (cases "h = ?h")
    case True
    then show ?thesis using dlist_add_head[OF h1, of "SinLink n" ?h] nx by auto
  next
    case False
    have "dlist (list_add (HashHead ?h) (SinLink n) ?l1) (HashHead h) (map SinLink (hs h))"
      by (rule dlist_add_head_other[OF h1 h1 cache_disjoint(1)]) (use False nx l(4) in auto)
    then show ?thesis using False by simp
  qed
  moreover have "set ((hs(?h := n # hs ?h)) h) = {m. \<exists>i. ((sins d)(n \<mapsto> i0)) m = Some i \<and> sin_hashfn (ino i) = h}" for h
    using n(1) l(4) by (auto split: if_splits)
  moreover have "m = k" if "((sins d)(n \<mapsto> i0)) m = Some i" "((sins d)(n \<mapsto> i0)) k = Some j" "ino i = ino j" for m k i j
  proof (cases "m = n \<or> k = n")
    case True
    then show ?thesis using that b by (auto split: if_splits)
  next
    case False
    then have "sins d m = Some i" "sins d k = Some j" using that by simp_all
    then show ?thesis using inj that(3) by blast
  qed
  moreover have "distinct (inode_pool d)" "set (inode_pool d) \<inter> dom ((sins d)(n \<mapsto> i0)) = {}" using c n(2) by (auto simp: cache_rel_def)
  moreover have "set (n # xs) = dom ((sins d)(n \<mapsto> i0))" using l(3) by simp
  moreover have "ilinks ?d = list_add (HashHead ?h) (SinLink n) ?l1" "sins ?d = (sins d)(n \<mapsto> i0)" "inode_pool ?d = inode_pool d" by simp_all
  ultimately show ?thesis by (intro cache_relI)
qed

lemma cache_cong:
  assumes c: "cache_rel d xs hs" and e: "ilinks d' = ilinks d" "\<And>n. map_option ino (sins d' n) = map_option ino (sins d n)"
    and p: "distinct (inode_pool d')" "set (inode_pool d') \<subseteq> set (inode_pool d)"
  shows "cache_rel d' xs hs"
proof -
  have s: "(\<exists>i. sins d' n = Some i \<and> P (ino i)) \<longleftrightarrow> (\<exists>i. sins d n = Some i \<and> P (ino i))" for n P
    using e(2)[of n] by (cases "sins d n"; cases "sins d' n") auto
  have dom: "dom (sins d') = dom (sins d)" using s[of _ "\<lambda>_. True"] by (auto simp: dom_def)
  have m: "m = n" if a: "sins d' m = Some i" "sins d' n = Some j" "ino i = ino j" for m n i j
  proof -
    obtain i1 j1 where "sins d m = Some i1" "ino i1 = ino i" "sins d n = Some j1" "ino j1 = ino j"
      using s[of m "\<lambda>x. x = ino i"] s[of n "\<lambda>x. x = ino j"] a by auto
    moreover have "\<forall>m n i j. sins d m = Some i \<and> sins d n = Some j \<and> ino i = ino j \<longrightarrow> m = n" using c by (simp add: cache_rel_def)
    ultimately show ?thesis using a(3) by metis
  qed
  have h: "set (hs h) = {n. \<exists>i. sins d' n = Some i \<and> sin_hashfn (ino i) = h}" for h
    using c s[of _ "\<lambda>x. sin_hashfn x = h"] by (simp add: cache_rel_def)
  have "dlist (ilinks d) InodeHead (map InodeLink xs)" "\<And>h. dlist (ilinks d) (HashHead h) (map SinLink (hs h))"
    "set xs = dom (sins d')" "set (inode_pool d') \<inter> dom (sins d') = {}" using c p(2) dom by (auto simp: cache_rel_def)
  then show ?thesis using h m p(1) e(1) by (intro cache_relI[of d' "ilinks d" "sins d'" "inode_pool d'"]) simp_all
qed

lemma cache_remove:
  assumes c: "cache_rel d xs hs" and n: "sins d n = Some i"
  shows "cache_rel (d\<lparr>sins := (sins d)(n := None), ilinks := list_del (SinLink n) (list_del (InodeLink n) (ilinks d))\<rparr>)
      (remove1 n xs) (hs(sin_hashfn (ino i) := remove1 n (hs (sin_hashfn (ino i)))))"
    (is "cache_rel ?d _ _")
proof -
  let ?h = "sin_hashfn (ino i)" and ?l1 = "list_del (InodeLink n) (ilinks d)"
  have l: "dlist (ilinks d) InodeHead (map InodeLink xs)" "\<And>h. dlist (ilinks d) (HashHead h) (map SinLink (hs h))"
    "set xs = dom (sins d)" "\<And>h. set (hs h) = {n. \<exists>i. sins d n = Some i \<and> sin_hashfn (ino i) = h}" using c by (auto simp: cache_rel_def)
  have inj: "\<forall>m n i j. sins d m = Some i \<and> sins d n = Some j \<and> ino i = ino j \<longrightarrow> m = n" using c by (simp add: cache_rel_def)
  have "n \<in> set xs" "n \<in> set (hs ?h)" using n l(3,4) by auto
  then obtain xs1 xs2 hs1 hs2 where sp: "xs = xs1 @ n # xs2" "hs ?h = hs1 @ n # hs2" by (metis split_list)
  have di: "distinct xs" "distinct (hs h)" for h
    using dlist_distinct[OF l(1)] dlist_distinct[OF l(2)[of h]] by (auto simp: distinct_map)
  have r: "remove1 n xs = xs1 @ xs2" "remove1 n (hs ?h) = hs1 @ hs2" using di(1) di(2)[of ?h] unfolding sp by (simp_all add: remove1_append)
  have x0: "dlist (ilinks d) InodeHead (map InodeLink xs1 @ InodeLink n # map InodeLink xs2)" using l(1) unfolding sp by simp
  then have x1: "dlist ?l1 InodeHead (map InodeLink (remove1 n xs))" unfolding r using dlist_del by fastforce
  have h1: "dlist ?l1 (HashHead h) (map SinLink (hs h))" for h
    by (rule dlist_del_other[OF l(2) x0]) auto
  have h0: "dlist ?l1 (HashHead ?h) (map SinLink hs1 @ SinLink n # map SinLink hs2)" using h1[of ?h] unfolding sp by simp
  have "dlist (list_del (SinLink n) ?l1) InodeHead (map InodeLink (remove1 n xs))"
    by (rule dlist_del_other[OF x1 h0]) auto
  moreover have "dlist (list_del (SinLink n) ?l1) (HashHead h) (map SinLink ((hs(?h := remove1 n (hs ?h))) h))" for h
  proof (cases "h = ?h")
    case True
    then show ?thesis using dlist_del[OF h0] r(2) by simp
  next
    case False
    have "set (hs h) \<inter> set (hs1 @ n # hs2) = {}" using False l(4)[of h] l(4)[of ?h] unfolding sp by auto
    then have "dlist (list_del (SinLink n) ?l1) (HashHead h) (map SinLink (hs h))"
      by (intro dlist_del_other[OF h1 h0]) (use False in auto)
    then show ?thesis using False by simp
  qed
  moreover have "set ((hs(?h := remove1 n (hs ?h))) h) = {m. \<exists>i. ((sins d)(n := None)) m = Some i \<and> sin_hashfn (ino i) = h}" for h
  proof (cases "h = ?h")
    case True
    then show ?thesis using l(4)[of ?h] di(2)[of ?h] by (auto simp: set_remove1_eq split: if_splits)
  next
    case False
    then show ?thesis using l(4)[of h] n by (auto split: if_splits)
  qed
  moreover have "m = k" if "((sins d)(n := None)) m = Some i" "((sins d)(n := None)) k = Some j" "ino i = ino j" for m k i j
  proof -
    have "sins d m = Some i" "sins d k = Some j" using that(1,2) by (auto split: if_splits)
    then show ?thesis using inj that(3) by blast
  qed
  moreover have "distinct (inode_pool d)" "set (inode_pool d) \<inter> dom ((sins d)(n := None)) = {}" using c by (auto simp: cache_rel_def)
  moreover have "set (remove1 n xs) = dom ((sins d)(n := None))" using l(3) di(1) by (auto simp: set_remove1_eq)
  moreover have "ilinks ?d = list_del (SinLink n) ?l1" "sins ?d = (sins d)(n := None)" "inode_pool ?d = inode_pool d" by simp_all
  ultimately show ?thesis by (intro cache_relI)
qed

section \<open>Loading an inode\<close>

lemma lock_fs_ok: "\<not> fs_locked (fsdata s) \<Longrightarrow> lock_sfs_fs s = Some (upd_sfs (fs_locked_update (\<lambda>_. True)) s)"
  by (simp add: lock_sfs_fs_def)

text \<open>What remains of an inode in memory when another reference to it is handed out.\<close>

definition again :: "sstate \<Rightarrow> nat \<Rightarrow> sfs_inode \<Rightarrow> sfs_inode" where
  "again s n i = (if ref_count (inodes s n) = 0 then i\<lparr>reclaim_count := reclaim_count i + 1\<rparr> else i)"

lemma again_simps [simp]: "din (again s n i) = din i" "ino (again s n i) = ino i" "dirty (again s n i) = dirty i"
  "sin_locked (again s n i) = sin_locked i"
  by (simp_all add: again_def)

lemma taken_effect:
  assumes "sin_of n s = Some i"
  shows "inodes (taken n s) = inodes (inode_ref_inc n s)" "sins (fsdata (taken n s)) = (sins (fsdata s))(n \<mapsto> again s n i)"
    "ilinks (fsdata (taken n s)) = ilinks (fsdata s)" "inode_pool (fsdata (taken n s)) = inode_pool (fsdata s)"
    "kmems (fsdata (taken n s)) = kmems (fsdata s)" "fs_locked (fsdata (taken n s)) = fs_locked (fsdata s)"
  using assms by (auto simp: taken_def Let_def inode_ref_inc_def upd_sin_def upd_sfs_def again_def fun_eq_iff)

lemma load_cached:
  assumes c: "cache_inv (fsdata s)" "\<not> fs_locked (fsdata s)" and n: "sin_of n s = Some i"
  shows "\<exists>s'. sfs_load_inode (ino i) s = Some (0, Some n, s') \<and> mframe s s' \<and> cache_inv (fsdata s') \<and> \<not> fs_locked (fsdata s')
    \<and> inodes s' = inodes (inode_ref_inc n s) \<and> sins (fsdata s') = (sins (fsdata s))(n \<mapsto> again s n i)"
proof -
  let ?s1 = "upd_sfs (fs_locked_update (\<lambda>_. True)) s" let ?s' = "unlock_sfs_fs (taken n ?s1)"
  obtain xs hs where cr: "cache_rel (fsdata s) xs hs" using c by (auto simp: cache_inv_def)
  have n1: "sin_of n ?s1 = Some i" "inodes ?s1 = inodes s" using n by (simp_all add: upd_sfs_def)
  have cr1: "cache_rel (fsdata ?s1) xs hs" by (rule cache_cong[OF cr]) (use cr in \<open>simp_all add: upd_sfs_def cache_rel_def\<close>)
  note t = taken_effect[OF n1(1)]
  have ag: "again ?s1 n i = again s n i" using n1(2) by (simp add: again_def)
  have "cache_rel (fsdata ?s') xs hs"
    by (rule cache_cong[OF cr1]) (use t n1 cr in \<open>simp_all add: unlock_sfs_fs_def upd_sfs_def cache_rel_def\<close>)
  moreover have "mframe s ?s'"
    using mframe_trans[OF mframe_upd(4) mframe_trans[OF mframe_taken mframe_upd(4)]] by (simp add: unlock_sfs_fs_def)
  moreover have "sfs_load_inode (ino i) s = Some (0, Some n, ?s')"
    using lock_fs_ok[OF c(2)] lookup_nolock_ok(1)[OF cr1 n1(1) refl] by (simp add: sfs_load_inode_def)
  ultimately show ?thesis using t n1 ag
    by (intro exI[of _ ?s']) (auto simp: cache_inv_def unlock_sfs_fs_def upd_sfs_def inode_ref_inc_def)
qed

definition on_disk :: "sstate \<Rightarrow> nat \<Rightarrow> sfs_disk_inode" where
  "on_disk s b = decode_din (take 64 (blk s b))"

definition exhausted :: "sstate \<Rightarrow> bool" where
  "exhausted s \<longleftrightarrow> inode_pool (fsdata s) = [] \<or> kmems (fsdata s) = [] \<or> hd (kmems (fsdata s)) = None"

definition fresh_inode :: "sfs_disk_inode \<Rightarrow> nat \<Rightarrow> sfs_inode" where
  "fresh_inode d b = \<lparr>din = d, ino = b, dirty = False, reclaim_count = 1, sin_locked = False\<rparr>"

lemma kmalloc_effect:
  assumes "sfs_kmalloc s = (p, s1)"
  shows "mframe s s1" "inodes s1 = inodes s" "sins (fsdata s1) = sins (fsdata s)" "ilinks (fsdata s1) = ilinks (fsdata s)"
    "inode_pool (fsdata s1) = inode_pool (fsdata s)" "fs_locked (fsdata s1) = fs_locked (fsdata s)"
    "p = None \<longleftrightarrow> kmems (fsdata s) = [] \<or> hd (kmems (fsdata s)) = None" "kmems (fsdata s1) = tl (kmems (fsdata s))"
  using assms by (auto simp: sfs_kmalloc_def upd_sfs_def split: list.splits)
    (auto simp: upd_sfs_def intro!: mframe_eq)

lemma load_new_ok:
  assumes ok: "sfs_ok s" "used s b" and c: "cache_rel (fsdata s) xs hs" "\<forall>m j. sin_of m s = Some j \<longrightarrow> ino j \<noteq> b"
    and d: "nlinks (on_disk s b) \<noteq> 0" "sfs_get_ops (dtype (on_disk s b)) \<noteq> None"
  shows "(\<exists>s'. sfs_load_new b s = Some (- E_NO_MEM, None, s') \<and> mframe s s' \<and> cache_rel (fsdata s') xs hs \<and> inodes s' = inodes s
        \<and> sins (fsdata s') = sins (fsdata s) \<and> exhausted s)
    \<or> (\<exists>n s' xs' hs'. sfs_load_new b s = Some (0, Some n, s') \<and> mframe s s' \<and> cache_rel (fsdata s') xs' hs' \<and> sin_of n s = None
        \<and> inodes s' = (inodes s)(n := \<lparr>has_ops = True, ref_count = 1, iopen_count = 0\<rparr>)
        \<and> sins (fsdata s') = (sins (fsdata s))(n \<mapsto> fresh_inode (on_disk s b) b))"
proof -
  obtain p s1 where k: "sfs_kmalloc s = (p, s1)" by (cases "sfs_kmalloc s")
  note e = kmalloc_effect[OF k]
  have c1: "cache_rel (fsdata s1) xs hs" by (rule cache_cong[OF c(1)]) (use e c(1) in \<open>simp_all add: cache_rel_def\<close>)
  show ?thesis
  proof (cases "p = None")
    case True
    then have "sfs_load_new b s = Some (- E_NO_MEM, None, s1)" using k by (simp add: sfs_load_new_def)
    then show ?thesis using True e c1 by (auto simp: exhausted_def)
  next
    case False
    have u: "sfs_ok s1" "used s1 b" using ok mframe_used[OF e(1)] e(1) by (simp_all add: mframe_def)
    from sfs_rbuf_ok[OF u, of 0 64] obtain s2 where
      s2: "sfs_rbuf 64 b 0 s1 = Some (0, take 64 (blk s1 b), s2)" "same s1 s2" by auto
    have od: "decode_din (take 64 (blk s1 b)) = on_disk s b" using e(1) by (simp add: on_disk_def mframe_def)
    note f2 = core_eqD[OF conjunct1[OF s2(2)[unfolded same_def]]]
    have m2: "mframe s s2" using mframe_trans[OF e(1) mframe_same[OF s2(2)]] .
    have ld: "sfs_load_new b s = (do { (ret, node, s3) \<leftarrow> sfs_create_inode (on_disk s b) b s2;
        if ret \<noteq> 0 then Some (ret, None, s3) else do { n \<leftarrow> node; s4 \<leftarrow> sfs_set_links n s3; Some (0, Some n, s4) } })"
      using k used_inuse[OF u] s2(1) od d(1) by (simp add: sfs_load_new_def False)
    show ?thesis
    proof (cases "inode_pool (fsdata s)")
      case Nil
      then have "sfs_load_new b s = Some (- E_NO_MEM, None, s2)" using ld f2 e(5) by (simp add: sfs_create_inode_def)
      then show ?thesis using m2 f2 e c1 Nil by (auto simp: exhausted_def)
    next
      case (Cons n ns)
      let ?i = "fresh_inode (on_disk s b) b"
      let ?s3 = "upd_sfs (\<lambda>d. d\<lparr>sins := (sins d)(n \<mapsto> ?i)\<rparr>) (inode_init n (upd_sfs (inode_pool_update (\<lambda>_. ns)) s2))"
      let ?s4 = "upd_sfs (\<lambda>d. d\<lparr>ilinks := list_add (HashHead (sin_hashfn b)) (SinLink n) (list_add InodeHead (InodeLink n) (ilinks d))\<rparr>) ?s3"
      obtain ops where "sfs_get_ops (dtype (on_disk s b)) = Some ops" using d(2) by auto
      then have cr: "sfs_create_inode (on_disk s b) b s2 = Some (0, Some n, ?s3)"
        using Cons f2 e(5) by (simp add: sfs_create_inode_def fresh_inode_def Let_def)
      have "sin_of n ?s3 = Some ?i" by (simp add: upd_sfs_def)
      then have sl: "sfs_set_links n ?s3 = Some ?s4" by (simp add: sfs_set_links_def sfs_hash_list_def fresh_inode_def)
      have nn: "sins (fsdata s) n = None" "n \<notin> set ns" "distinct ns" using c(1) Cons by (auto simp: cache_rel_def)
      let ?d = "(fsdata s2)\<lparr>inode_pool := ns\<rparr>"
      have cd: "cache_rel ?d xs hs" by (rule cache_cong[OF c(1)]) (use f2 e nn Cons in auto)
      have "cache_rel (?d\<lparr>sins := (sins ?d)(n \<mapsto> ?i), ilinks := list_add (HashHead (sin_hashfn (ino ?i))) (SinLink n)
          (list_add InodeHead (InodeLink n) (ilinks ?d))\<rparr>) (n # xs) (hs(sin_hashfn (ino ?i) := n # hs (sin_hashfn (ino ?i))))"
        by (rule cache_add[OF cd]) (use nn f2 e c(2) in \<open>auto simp: fresh_inode_def\<close>)
      moreover have "fsdata ?s4 = ?d\<lparr>sins := (sins ?d)(n \<mapsto> ?i), ilinks := list_add (HashHead (sin_hashfn (ino ?i))) (SinLink n)
          (list_add InodeHead (InodeLink n) (ilinks ?d))\<rparr>"
        by (simp add: upd_sfs_def inode_init_def inode_ref_inc_def fresh_inode_def)
      ultimately have "cache_rel (fsdata ?s4) (n # xs) (hs(sin_hashfn (ino ?i) := n # hs (sin_hashfn (ino ?i))))" by simp
      moreover have "mframe s2 ?s4" by (rule mframe_eq) (simp_all add: upd_sfs_def inode_init_def inode_ref_inc_def)
      moreover have "inodes ?s4 = (inodes s)(n := \<lparr>has_ops = True, ref_count = 1, iopen_count = 0\<rparr>)"
        using f2 e by (cases "inodes s n") (simp add: upd_sfs_def inode_init_def inode_ref_inc_def)
      moreover have "sins (fsdata ?s4) = (sins (fsdata s))(n \<mapsto> ?i)" using f2 e by (simp add: upd_sfs_def inode_init_def inode_ref_inc_def)
      moreover have "sfs_load_new b s = Some (0, Some n, ?s4)" using ld cr sl by simp
      ultimately show ?thesis using mframe_trans[OF m2] nn(1) by blast
    qed
  qed
qed

text \<open>\<open>handed s b n s'\<close>: the inode with number \<open>b\<close> is handed out as \<open>n\<close>, with one reference more if it was in
  memory, and loaded from its block if not.\<close>

definition handed :: "sstate \<Rightarrow> nat \<Rightarrow> nat \<Rightarrow> sstate \<Rightarrow> bool" where
  "handed s b n s' \<longleftrightarrow>
     (\<exists>i. sin_of n s = Some i \<and> ino i = b \<and> inodes s' = inodes (inode_ref_inc n s) \<and> sins (fsdata s') = (sins (fsdata s))(n \<mapsto> again s n i))
   \<or> (\<forall>m j. sin_of m s = Some j \<longrightarrow> ino j \<noteq> b) \<and> sin_of n s = None
       \<and> inodes s' = (inodes s)(n := \<lparr>has_ops = True, ref_count = 1, iopen_count = 0\<rparr>)
       \<and> sins (fsdata s') = (sins (fsdata s))(n \<mapsto> fresh_inode (on_disk s b) b)"

definition loadable :: "sstate \<Rightarrow> nat \<Rightarrow> bool" where
  "loadable s b \<longleftrightarrow> used s b \<and> ((\<forall>m j. sin_of m s = Some j \<longrightarrow> ino j \<noteq> b) \<longrightarrow>
     nlinks (on_disk s b) \<noteq> 0 \<and> sfs_get_ops (dtype (on_disk s b)) \<noteq> None)"

lemma load_inode_ok:
  assumes ok: "sfs_ok s" "loadable s b" and c: "cache_inv (fsdata s)" "\<not> fs_locked (fsdata s)"
  shows "\<exists>r node s'. sfs_load_inode b s = Some (r, node, s') \<and> mframe s s' \<and> cache_inv (fsdata s') \<and> \<not> fs_locked (fsdata s')
    \<and> ((\<exists>n. r = 0 \<and> node = Some n \<and> handed s b n s')
     \<or> r = - E_NO_MEM \<and> node = None \<and> inodes s' = inodes s \<and> sins (fsdata s') = sins (fsdata s) \<and> exhausted s)"
proof (cases "\<exists>n i. sin_of n s = Some i \<and> ino i = b")
  case True
  then obtain n i where n: "sin_of n s = Some i" "ino i = b" by blast
  from load_cached[OF c n(1)] show ?thesis unfolding n(2) handed_def using n by blast
next
  case False
  let ?t = "upd_sfs (fs_locked_update (\<lambda>_. True)) s"
  obtain xs hs where cr: "cache_rel (fsdata s) xs hs" using c by (auto simp: cache_inv_def)
  have cr1: "cache_rel (fsdata ?t) xs hs" by (rule cache_cong[OF cr]) (use cr in \<open>simp_all add: upd_sfs_def cache_rel_def\<close>)
  have m: "mframe s ?t" by simp
  have t: "sfs_ok ?t" "used ?t b" "on_disk ?t b = on_disk s b" using m ok mframe_used[OF m] by (simp_all add: mframe_def on_disk_def loadable_def)
  have td: "inodes ?t = inodes s" "sins (fsdata ?t) = sins (fsdata s)" "inode_pool (fsdata ?t) = inode_pool (fsdata s)"
    "kmems (fsdata ?t) = kmems (fsdata s)" by (simp_all add: upd_sfs_def)
  have ab: "\<forall>m j. sin_of m ?t = Some j \<longrightarrow> ino j \<noteq> b" using False td by auto
  have ld: "sfs_load_inode b s = (do { (ret, node, s3) \<leftarrow> sfs_load_new b ?t; Some (ret, node, unlock_sfs_fs s3) })"
    using lock_fs_ok[OF c(2)] lookup_nolock_ok(2)[OF cr1] ab by (simp add: sfs_load_inode_def)
  have un: "mframe s (unlock_sfs_fs s')" "cache_inv (fsdata (unlock_sfs_fs s'))" "\<not> fs_locked (fsdata (unlock_sfs_fs s'))"
      "inodes (unlock_sfs_fs s') = inodes s'" "sins (fsdata (unlock_sfs_fs s')) = sins (fsdata s')"
    if a: "mframe ?t s'" "cache_rel (fsdata s') xs' hs'" for s' xs' hs'
  proof -
    show "mframe s (unlock_sfs_fs s')" using mframe_trans[OF m mframe_trans[OF a(1) mframe_upd(4)]] by (simp add: unlock_sfs_fs_def)
    have "cache_rel (fsdata (unlock_sfs_fs s')) xs' hs'"
      by (rule cache_cong[OF a(2)]) (use a(2) in \<open>simp_all add: unlock_sfs_fs_def upd_sfs_def cache_rel_def\<close>)
    then show "cache_inv (fsdata (unlock_sfs_fs s'))" by (auto simp: cache_inv_def)
  qed (simp_all add: unlock_sfs_fs_def upd_sfs_def)
  have nd: "nlinks (on_disk ?t b) \<noteq> 0" "sfs_get_ops (dtype (on_disk ?t b)) \<noteq> None" using ok(2) False t(3) by (auto simp: loadable_def)
  from load_new_ok[OF t(1,2) cr1 ab nd] show ?thesis
  proof (elim disjE exE conjE)
    fix s' assume a: "sfs_load_new b ?t = Some (- E_NO_MEM, None, s')" "mframe ?t s'" "cache_rel (fsdata s') xs hs" "inodes s' = inodes ?t"
      "sins (fsdata s') = sins (fsdata ?t)" "exhausted ?t"
    then have "sfs_load_inode b s = Some (- E_NO_MEM, None, unlock_sfs_fs s')" using ld by simp
    then show ?thesis using un[OF a(2,3)] a(4-) td by (auto simp: exhausted_def)
  next
    fix n s' xs' hs'
    assume a: "sfs_load_new b ?t = Some (0, Some n, s')" "mframe ?t s'" "cache_rel (fsdata s') xs' hs'" "sin_of n ?t = None"
      "inodes s' = (inodes ?t)(n := \<lparr>has_ops = True, ref_count = 1, iopen_count = 0\<rparr>)"
      "sins (fsdata s') = (sins (fsdata ?t))(n \<mapsto> fresh_inode (on_disk ?t b) b)"
    then have l: "sfs_load_inode b s = Some (0, Some n, unlock_sfs_fs s')" using ld by simp
    have "handed s b n (unlock_sfs_fs s')" unfolding handed_def
      by (rule disjI2) (use un[OF a(2,3)] a(4-) td t(3) False in auto)
    then show ?thesis using un[OF a(2,3)] l by blast
  qed
qed

section \<open>Directories\<close>

definition dent :: "8 word list \<Rightarrow> sfs_disk_entry" where
  "dent bs = (decode_entry (take 260 bs))\<lparr>entry_name := (entry_name (decode_entry (take 260 bs)))[255 := 0]\<rparr>"

definition dents :: "sstate \<Rightarrow> nat list \<Rightarrow> sfs_disk_entry list" where
  "dents s bl = map (\<lambda>b. dent (blk s b)) bl"

definition is_entry :: "path \<Rightarrow> sfs_disk_entry \<Rightarrow> bool" where
  "is_entry name e \<longleftrightarrow> entry_ino e \<noteq> 0 \<and> name = str_in (entry_name e)"

lemma blocks_same_trans: "same s t \<Longrightarrow> same t u \<Longrightarrow> same s u" by (simp add: same_def)
lemma blocks_same_refl [simp]: "same s s" by (simp add: same_def)

lemma same_file:
  assumes "same s s'" "file_rel s n i bl"
  shows "file_rel s' n i bl" "dents s' bl' = dents s bl'"
  using assms file_rel_core[of s n i bl s'] by (auto simp: same_def dents_def)

lemma dirent_read_ok:
  assumes f: "file_rel s n d bl" "dtype (din d) = SFS_TYPE_DIR" and k: "k < length bl"
  shows "\<exists>s'. sfs_dirent_read_nolock n k s = Some (0, Some (dents s bl ! k), s') \<and> same s s'"
proof -
  from bmap_load_old[OF f(1) k] obtain s1 where s1: "sfs_bmap_load_nolock n k s = Some (0, bl ! k, s1)" "same s s1" by blast
  have f1: "file_rel s1 n d bl" using same_file[OF s1(2) f(1)] by simp
  have u: "sfs_ok s1" "used s1 (bl ! k)" using f1 k by (auto simp: file_rel_def map_ok_def owned_def inds_def)
  from sfs_rbuf_ok[OF u, of 0 260] obtain s2 where
    s2: "sfs_rbuf 260 (bl ! k) 0 s1 = Some (0, take 260 (blk s1 (bl ! k)), s2)" "same s1 s2" by auto
  have "sin_of n s = Some d" "k < dblocks (din d)" using f(1) k by (auto simp: file_rel_def map_ok_def)
  then have "sfs_dirent_read_nolock n k s = Some (0, Some (dents s1 bl ! k), s2)"
    using s1(1) s2(1) f(2) k used_inuse[OF u] by (simp add: sfs_dirent_read_nolock_def dents_def dent_def Let_def)
  then show ?thesis using blocks_same_trans[OF s1(2) s2(2)] same_file(2)[OF s1(2) f(1)] by simp
qed

lemma dents_length [simp]: "length (dents s bl) = length bl" by (simp add: dents_def)

lemma search_loop_ok:
  assumes "file_rel s n d bl" "dtype (din d) = SFS_TYPE_DIR" "i + todo = length bl"
  shows "\<exists>r b slot spare s'. dirent_search_loop n name i sp todo s = Some (r, b, slot, spare, s') \<and> same s s'
    \<and> (case find (is_entry name) (drop i (dents s bl)) of None \<Rightarrow> r = - E_NOENT | Some e \<Rightarrow> r = 0 \<and> b = entry_ino e)"
  using assms
proof (induction todo arbitrary: i sp s)
  case (Suc todo)
  have i: "i < length bl" using Suc.prems(3) by simp
  from dirent_read_ok[OF Suc.prems(1,2) i] obtain s1 where
    s1: "sfs_dirent_read_nolock n i s = Some (0, Some (dents s bl ! i), s1)" "same s s1" by blast
  have dr: "drop i (dents s bl) = dents s bl ! i # drop (Suc i) (dents s bl)" using i by (simp add: Cons_nth_drop_Suc)
  note f1 = same_file[OF s1(2) Suc.prems(1)]
  have IH: "\<exists>r b slot spare s'. dirent_search_loop n name (Suc i) sp' todo s1 = Some (r, b, slot, spare, s') \<and> same s s'
    \<and> (case find (is_entry name) (drop (Suc i) (dents s bl)) of None \<Rightarrow> r = - E_NOENT | Some e \<Rightarrow> r = 0 \<and> b = entry_ino e)" for sp'
    using Suc.IH[OF f1(1) Suc.prems(2), of "Suc i" sp'] Suc.prems(3) blocks_same_trans[OF s1(2)] unfolding f1(2) by fastforce
  show ?case
  proof (cases "is_entry name (dents s bl ! i)")
    case True
    then show ?thesis using s1 dr by (auto simp: is_entry_def)
  next
    case False
    then obtain sp' where "dirent_search_loop n name i sp (Suc todo) s = dirent_search_loop n name (Suc i) sp' todo s1"
      using s1(1) by (cases "entry_ino (dents s bl ! i) = 0") (auto simp: is_entry_def)
    then show ?thesis using IH[of sp'] dr False by simp
  qed
qed simp

lemma search_ok:
  assumes f: "file_rel s n d bl" "dtype (din d) = SFS_TYPE_DIR" and l: "length name \<le> 255"
  shows "\<exists>r b slot spare s'. sfs_dirent_search_nolock n name s = Some (r, b, slot, spare, s') \<and> mframe s s' \<and> inodes s' = inodes s
    \<and> sins (fsdata s') = sins (fsdata s) \<and> ilinks (fsdata s') = ilinks (fsdata s) \<and> inode_pool (fsdata s') = inode_pool (fsdata s)
    \<and> fs_locked (fsdata s') = fs_locked (fsdata s) \<and> kmems (fsdata s') = tl (kmems (fsdata s))
    \<and> (if kmems (fsdata s) = [] \<or> hd (kmems (fsdata s)) = None then r = - E_NO_MEM
       else case find (is_entry name) (dents s bl) of None \<Rightarrow> r = - E_NOENT | Some e \<Rightarrow> r = 0 \<and> b = entry_ino e)"
proof -
  obtain p s1 where k: "sfs_kmalloc s = (p, s1)" by (cases "sfs_kmalloc s")
  note e = kmalloc_effect[OF k]
  show ?thesis
  proof (cases "p = None")
    case True
    then show ?thesis using k e l by (auto simp: sfs_dirent_search_nolock_def)
  next
    case False
    have f1: "file_rel s1 n d bl" using f(1) e(3) mframe_map[OF e(1)] e(1) by (simp add: file_rel_def mframe_def)
    have d1: "dents s1 bl = dents s bl" using e(1) by (simp add: dents_def mframe_def)
    have sn: "sin_of n s1 = Some d" "dblocks (din d) = length bl" using f1 by (simp_all add: file_rel_def map_ok_def)
    have "0 + length bl = length bl" by simp
    from search_loop_ok[OF f1 f(2) this, of name "length bl"] obtain r b slot spare s' where
      s': "dirent_search_loop n name 0 (length bl) (length bl) s1 = Some (r, b, slot, spare, s')" "same s1 s'"
        "case find (is_entry name) (dents s bl) of None \<Rightarrow> r = - E_NOENT | Some e \<Rightarrow> r = 0 \<and> b = entry_ino e"
      unfolding d1 by auto
    have "sfs_dirent_search_nolock n name s = Some (r, b, slot, spare, s')"
      using k l sn s'(1) by (simp add: sfs_dirent_search_nolock_def False)
    moreover note core_eqD[OF conjunct1[OF s'(2)[unfolded same_def]]] mframe_trans[OF e(1) mframe_same[OF s'(2)]]
    ultimately show ?thesis using s'(3) e False by auto
  qed
qed

text \<open>Memory that is too short for a lookup: two objects and an inode may be needed.\<close>

definition short_mem :: "sstate \<Rightarrow> bool" where
  "short_mem s \<longleftrightarrow> inode_pool (fsdata s) = [] \<or> length (kmems (fsdata s)) < 2 \<or> None \<in> set (take 2 (kmems (fsdata s)))"

definition looked_up :: "sstate \<Rightarrow> sfs_disk_entry option \<Rightarrow> int \<Rightarrow> nat option \<Rightarrow> sstate \<Rightarrow> bool" where
  "looked_up s fd r node s' \<longleftrightarrow> mframe s s' \<and> cache_inv (fsdata s') \<and> \<not> fs_locked (fsdata s')
     \<and> ((\<exists>e m. fd = Some e \<and> r = 0 \<and> node = Some m \<and> handed s (entry_ino e) m s')
       \<or> (r = - E_NOENT \<and> fd = None \<or> r = - E_NO_MEM \<and> short_mem s) \<and> node = None
           \<and> inodes s' = inodes s \<and> sins (fsdata s') = sins (fsdata s))"

lemma lookup_once_ok:
  assumes f: "file_rel s n d bl" "dtype (din d) = SFS_TYPE_DIR" "\<not> sin_locked d" and l: "length name \<le> 255"
    and c: "cache_inv (fsdata s)" "\<not> fs_locked (fsdata s)"
    and g: "\<And>e. find (is_entry name) (dents s bl) = Some e \<Longrightarrow> loadable s (entry_ino e)"
  shows "\<exists>r node s'. sfs_lookup_once n name s = Some (r, node, s') \<and> looked_up s (find (is_entry name) (dents s bl)) r node s'"
proof -
  let ?t = "upd_sin n (sin_locked_update (\<lambda>_. True)) s" and ?fd = "find (is_entry name) (dents s bl)"
  note lk = lock_file[OF f(1,3)]
  have dt: "dents ?t bl = dents s bl" by (simp add: dents_def)
  have ty: "dtype (din (d\<lparr>sin_locked := True\<rparr>)) = SFS_TYPE_DIR" using f(2) by simp
  have td: "ilinks (fsdata ?t) = ilinks (fsdata s)" "inode_pool (fsdata ?t) = inode_pool (fsdata s)" "kmems (fsdata ?t) = kmems (fsdata s)"
    "fs_locked (fsdata ?t) = fs_locked (fsdata s)" by (simp_all add: upd_sin_def upd_sfs_def)
  from search_ok[OF lk(2) ty l] obtain r b slot spare s2 where
    s2: "sfs_dirent_search_nolock n name ?t = Some (r, b, slot, spare, s2)" "mframe ?t s2" "inodes s2 = inodes ?t"
      "sins (fsdata s2) = sins (fsdata ?t)" "ilinks (fsdata s2) = ilinks (fsdata s)" "inode_pool (fsdata s2) = inode_pool (fsdata s)"
      "fs_locked (fsdata s2) = fs_locked (fsdata s)" "kmems (fsdata s2) = tl (kmems (fsdata s))"
      "if kmems (fsdata s) = [] \<or> hd (kmems (fsdata s)) = None then r = - E_NO_MEM
       else case ?fd of None \<Rightarrow> r = - E_NOENT | Some e \<Rightarrow> r = 0 \<and> b = entry_ino e" unfolding dt td by (elim exE conjE) (rule that)
  let ?s3 = "unlock_sin n s2"
  have sn: "sin_of n s = Some d" using f(1) by (simp add: file_rel_def)
  have s3: "sins (fsdata ?s3) = sins (fsdata s)"
  proof
    fix k
    have "d\<lparr>sin_locked := False\<rparr> = d" using f(3) by simp
    then show "sins (fsdata ?s3) k = sins (fsdata s) k" using s2(4) sn by (cases "k = n") (simp_all add: unlock_sin_def)
  qed
  have s3': "inodes ?s3 = inodes s" "ilinks (fsdata ?s3) = ilinks (fsdata s)" "inode_pool (fsdata ?s3) = inode_pool (fsdata s)"
    "fs_locked (fsdata ?s3) = fs_locked (fsdata s)" "kmems (fsdata ?s3) = tl (kmems (fsdata s))"
    using s2(3,5-8) by (simp_all add: unlock_sin_def) (simp_all add: upd_sin_def upd_sfs_def)
  have m3: "mframe s ?s3" using mframe_trans[OF mframe_upd(2) mframe_trans[OF s2(2) mframe_upd(2)]] by (simp add: unlock_sin_def)
  obtain xs hs where cr: "cache_rel (fsdata s) xs hs" using c by (auto simp: cache_inv_def)
  have "cache_rel (fsdata ?s3) xs hs" by (rule cache_cong[OF cr]) (use s3 s3' cr in \<open>simp_all add: cache_rel_def\<close>)
  then have c3: "cache_inv (fsdata ?s3)" "\<not> fs_locked (fsdata ?s3)" using c s3' by (auto simp: cache_inv_def)
  have lo: "sfs_lookup_once n name s = (if r = 0 then sfs_load_inode b ?s3 else Some (r, None, ?s3))"
    using lk(1) s2(1) by (simp add: sfs_lookup_once_def Let_def)
  show ?thesis
  proof (cases "r = 0")
    case False
    then have "r = - E_NOENT \<and> ?fd = None \<or> r = - E_NO_MEM \<and> short_mem s"
      using s2(9) by (cases "kmems (fsdata s)") (auto simp: short_mem_def split: if_splits option.splits)
    then show ?thesis using lo False m3 c3 s3 s3' by (auto simp: looked_up_def)
  next
    case True
    then obtain e where e: "?fd = Some e" "b = entry_ino e" "kmems (fsdata s) \<noteq> []" "hd (kmems (fsdata s)) \<noteq> None"
      using s2(9) by (auto split: if_splits option.splits)
    have od: "on_disk ?s3 = on_disk s" using m3 by (simp add: on_disk_def mframe_def fun_eq_iff)
    have ld: "loadable ?s3 b" "sfs_ok ?s3"
      using g[OF e(1)] e(2) m3 mframe_used[OF m3] s3 od f(1) by (simp_all add: loadable_def file_rel_def mframe_def)
    have ha: "handed ?s3 b m s' = handed s b m s'" for m s' using s3 s3' od by (simp add: handed_def again_def inode_ref_inc_def)
    have ex: "exhausted ?s3 \<Longrightarrow> short_mem s"
      using e(3,4) s3' by (cases "kmems (fsdata s)"; cases "tl (kmems (fsdata s))") (auto simp: exhausted_def short_mem_def)
    from load_inode_ok[OF ld(2,1) c3] obtain r' node s' where
      "sfs_load_inode b ?s3 = Some (r', node, s')" "mframe ?s3 s'" "cache_inv (fsdata s')" "\<not> fs_locked (fsdata s')"
      "(\<exists>m. r' = 0 \<and> node = Some m \<and> handed s b m s')
        \<or> r' = - E_NO_MEM \<and> node = None \<and> inodes s' = inodes ?s3 \<and> sins (fsdata s') = sins (fsdata ?s3) \<and> exhausted ?s3"
      unfolding ha by (elim exE conjE) (rule that)
    then show ?thesis using lo True e ex mframe_trans[OF m3] s3 s3' by (auto simp: looked_up_def)
  qed
qed

lemma ref_dec_sub:
  "1 < ref_count (inodes s n) \<Longrightarrow>
   inode_ref_dec ops n s = Some (ref_count (inodes s n) - 1, upd_inode n (\<lambda>i. i\<lparr>ref_count := ref_count i - 1\<rparr>) s)"
  by (simp add: inode_ref_dec_def Let_def)

lemma inode_ref_self: "i\<lparr>ref_count := ref_count i + 1 - 1\<rparr> = (i :: inode)"
  by simp

lemma looked_up_back:
  assumes l: "looked_up (inode_ref_inc n s) fd r node s2" and n: "sin_of n s = Some d" "0 < ref_count (inodes s n)"
  shows "1 < ref_count (inodes s2 n)" "looked_up s fd r node (upd_inode n (\<lambda>i. i\<lparr>ref_count := ref_count i - 1\<rparr>) s2)"
proof -
  let ?s1 = "inode_ref_inc n s" and ?s3 = "upd_inode n (\<lambda>i. i\<lparr>ref_count := ref_count i - 1\<rparr>) s2"
  have i1: "inodes ?s1 = (inodes s)(n := (inodes s n)\<lparr>ref_count := ref_count (inodes s n) + 1\<rparr>)" "fsdata ?s1 = fsdata s"
    by (simp_all add: inode_ref_inc_def)
  have m1: "mframe s ?s1" by (simp add: inode_ref_inc_def)
  have od: "on_disk ?s1 = on_disk s" using m1 by (simp add: on_disk_def mframe_def fun_eq_iff)
  have ag: "again ?s1 m i = again s m i" for m i using n(2) by (auto simp: again_def i1)
  have f3: "fsdata ?s3 = fsdata s2" by simp
  have m3: "mframe s ?s3" using mframe_trans[OF m1 mframe_trans[OF _ mframe_upd(1)]] l by (simp add: looked_up_def)
  have handed: "1 < ref_count (inodes s2 n) \<and> handed s b m ?s3" if h: "handed ?s1 b m s2" for b m
  proof -
    consider (old) i where "sin_of m s = Some i" "ino i = b" "inodes s2 = inodes (inode_ref_inc m ?s1)" "sins (fsdata s2) = (sins (fsdata s))(m \<mapsto> again s m i)"
      | (new) "\<forall>m j. sin_of m s = Some j \<longrightarrow> ino j \<noteq> b" "sin_of m s = None"
        "inodes s2 = (inodes ?s1)(m := \<lparr>has_ops = True, ref_count = 1, iopen_count = 0\<rparr>)"
        "sins (fsdata s2) = (sins (fsdata s))(m \<mapsto> fresh_inode (on_disk s b) b)"
      using h unfolding handed_def i1(2) ag od by (elim disjE exE conjE) (erule (3) that(1), erule (3) that(2))
    then show ?thesis
    proof cases
      case old
      have "1 < ref_count (inodes s2 n)" "inodes ?s3 = inodes (inode_ref_inc m s)"
        using old(3) n(2) by (auto simp: inode_ref_inc_def fun_eq_iff)
      then show ?thesis using old f3 unfolding handed_def by auto
    next
      case new
      have "m \<noteq> n" using new(2) n(1) by auto
      then have "1 < ref_count (inodes s2 n)" "inodes ?s3 = (inodes s)(m := \<lparr>has_ops = True, ref_count = 1, iopen_count = 0\<rparr>)"
        using new(3) n(2) i1 by (auto simp: fun_eq_iff)
      then show ?thesis using new f3 unfolding handed_def by auto
    qed
  qed
  have quiet: "1 < ref_count (inodes s2 n) \<and> inodes ?s3 = inodes s" if "inodes s2 = inodes ?s1"
    using that n(2) i1 by (auto simp: fun_eq_iff)
  have sh: "short_mem ?s1 = short_mem s" using i1 by (simp add: short_mem_def)
  show "1 < ref_count (inodes s2 n)" using l handed quiet unfolding looked_up_def by blast
  show "looked_up s fd r node ?s3" using l handed quiet m3 unfolding looked_up_def f3 i1(2) sh by blast
qed

lemma lookup_ok:
  assumes f: "file_rel s n d bl" "dtype (din d) = SFS_TYPE_DIR" "\<not> sin_locked d"
    and l: "name \<noteq> []" "hd name \<noteq> 47" "length name \<le> 255"
    and c: "cache_inv (fsdata s)" "\<not> fs_locked (fsdata s)" "0 < ref_count (inodes s n)"
    and g: "\<And>e. find (is_entry name) (dents s bl) = Some e \<Longrightarrow> loadable s (entry_ino e)"
  shows "\<exists>r node s'. sfs_lookup n name s = Some (r, node, s') \<and> looked_up s (find (is_entry name) (dents s bl)) r node s'"
proof -
  let ?s1 = "inode_ref_inc n s"
  have i1: "fsdata ?s1 = fsdata s" and m1: "mframe s ?s1" by (simp_all add: inode_ref_inc_def)
  have f1: "file_rel ?s1 n d bl" using f(1) i1 m1 mframe_map[OF m1] by (simp add: file_rel_def mframe_def)
  have e1: "dents ?s1 bl = dents s bl" "loadable ?s1 b = loadable s b" for b
    using m1 mframe_used[OF m1] i1 by (simp_all add: dents_def mframe_def loadable_def on_disk_def)
  from lookup_once_ok[OF f1 f(2,3) l(3), unfolded i1 e1, OF c(1,2) g] obtain r node s2 where
    s2: "sfs_lookup_once n name ?s1 = Some (r, node, s2)" "looked_up ?s1 (find (is_entry name) (dents s bl)) r node s2" by blast
  have sn: "sin_of n s = Some d" using f(1) by (simp add: file_rel_def)
  note b = looked_up_back[OF s2(2) sn c(3)]
  let ?s3 = "upd_inode n (\<lambda>i. i\<lparr>ref_count := ref_count i - 1\<rparr>) s2"
  have "sfs_lookup n name s = (if r \<noteq> 0 then Some (r, None, ?s3) else Some (0, node, ?s3))"
    using s2(1) l(1,2) f(2) sn i1 ref_dec_sub[OF b(1)] by (simp add: sfs_lookup_def)
  moreover have "r \<noteq> 0 \<Longrightarrow> node = None" using b(2) by (auto simp: looked_up_def)
  ultimately show ?thesis using b(2) by auto
qed

end
