(* ===== verification/Sfs_Persist.thy ===== *)
theory Sfs_Persist
  imports Sfs_Tree
begin

text \<open>
  Inodes of the simple file system on disk: the layout of an inode is read back as it was written,
  \<open>sfs_fsync\<close> stores an inode, and \<open>sfs_reclaim\<close> forgets it without losing anything.
\<close>

section \<open>Inodes on disk\<close>

definition din_fits :: "sfs_disk_inode \<Rightarrow> bool" where
  "din_fits d \<longleftrightarrow> dsize d < 2 ^ 32 \<and> dtype d < 2 ^ 16 \<and> nlinks d < 2 ^ 16 \<and> dblocks d < 2 ^ 32 \<and> length (direct d) = SFS_NDIRECT
     \<and> (\<forall>x \<in> set (direct d). x < 2 ^ 32) \<and> indirect d < 2 ^ 32"

lemma field_skip: "length xs \<le> off \<Longrightarrow> field (xs @ ys) off len = field ys (off - length xs) len"
  by (simp add: field_def)

lemma field_bytes: "field (le_bytes k v @ ys) 0 k = v mod 256 ^ k"
  by (simp add: field_def le_nat_bytes)

lemma field_array:
  "i < length ds \<Longrightarrow> field (concat (map (le_bytes 4) ds) @ ys) (4 * i) 4 = ds ! i mod 256 ^ 4"
proof (induction ds arbitrary: i)
  case (Cons d ds)
  show ?case
  proof (cases i)
    case 0
    then show ?thesis using field_bytes[of 4 d "concat (map (le_bytes 4) ds) @ ys"] by simp
  next
    case (Suc j)
    then show ?thesis using Cons field_skip[of "le_bytes 4 d" "4 * i" "concat (map (le_bytes 4) ds) @ ys" 4] by simp
  qed
qed simp

lemma length_array: "length (concat (map (le_bytes 4) ds)) = 4 * length ds"
  by (induction ds) simp_all

lemma length_encode_din: "din_fits d \<Longrightarrow> length (encode_din d) = 64"
  by (simp add: encode_din_def din_fits_def length_array)

lemma decode_encode_din:
  assumes "din_fits d"
  shows "decode_din (encode_din d) = d"
proof -
  let ?a = "concat (map (le_bytes 4) (direct d))"
  have la: "length ?a = 48" using assms by (simp add: length_array din_fits_def)
  have f: "field (encode_din d) 0 4 = dsize d" "field (encode_din d) 4 2 = dtype d" "field (encode_din d) 6 2 = nlinks d"
    "field (encode_din d) 8 4 = dblocks d"
    using assms unfolding encode_din_def by (simp_all add: field_skip field_bytes din_fits_def)
  have i: "field (encode_din d) 60 4 = indirect d"
    using assms la field_bytes[of 4 "indirect d" "[]"] unfolding encode_din_def by (simp add: field_skip din_fits_def)
  have "field (encode_din d) (12 + 4 * k) 4 = direct d ! k" if "k < SFS_NDIRECT" for k
    using assms that field_array[of k "direct d" "le_bytes 4 (indirect d)"] unfolding encode_din_def
    by (simp add: field_skip din_fits_def)
  then have "map (\<lambda>k. field (encode_din d) (12 + 4 * k) 4) [0..<SFS_NDIRECT] = direct d"
    using assms by (intro nth_equalityI) (auto simp: din_fits_def)
  then show ?thesis using f i unfolding decode_din_def by simp
qed

lemma map_ok_used:
  assumes "map_ok s i bl" "\<And>b. b \<in> set (owned i bl) \<Longrightarrow> used s' b" "\<And>b. b \<in> set (inds i) \<Longrightarrow> blk s' b = blk s b"
  shows "map_ok s' i bl"
  using assms by (auto simp: map_ok_def entry_def inds_def)

lemma sfs_fsync_ok:
  assumes f: "file_rel s n i bl" "\<not> sin_locked i" and d: "din_fits (din i)" "dirty i \<or> on_disk s (ino i) = din i"
  shows "\<exists>s'. sfs_fsync n s = Some (0, s') \<and> fframe n s s' \<and> file_rel s' n (i\<lparr>dirty := False\<rparr>) bl \<and> on_disk s' (ino i) = din i
    \<and> (\<forall>c. c \<noteq> ino i \<longrightarrow> blk s' c = blk s c) \<and> free_blks s' = free_blks s"
proof (cases "dirty i")
  case False
  then have "i\<lparr>dirty := False\<rparr> = i" by simp
  then have "file_rel s n (i\<lparr>dirty := False\<rparr>) bl" using f(1) by simp
  then show ?thesis using False f d(2) by (intro exI[of _ s]) (auto simp: sfs_fsync_def file_rel_def)
next
  case True
  have ok: "sfs_ok s" and sn: "sin_of n s = Some i" and m: "map_ok s i bl" using f by (auto simp: file_rel_def)
  have u: "used s (ino i)" using m by (simp add: map_ok_def owned_def)
  let ?t = "upd_sin n (dirty_update (\<lambda>_. False)) (upd_sin n (sin_locked_update (\<lambda>_. True)) s)"
  have t: "sfs_ok ?t" "used ?t (ino i)" using ok u by simp_all
  have le: "length (encode_din (din i)) = 64" by (rule length_encode_din[OF d(1)])
  from sfs_wbuf_ok[OF t, of 0 "encode_din (din i)"] le obtain s2 where
    s2: "sfs_wbuf (encode_din (din i)) (ino i) 0 ?t = Some (0, s2)" "core s2 = core ?t"
      "blk s2 = (blk s)(ino i := overlay 0 (encode_din (din i)) (blk s (ino i)))" "umem s2 = umem ?t" by auto
  let ?s' = "unlock_sin n s2" and ?i = "i\<lparr>dirty := False\<rparr>"
  have r: "sfs_fsync n s = Some (0, ?s')" using True sn f(2) s2(1) by (simp add: sfs_fsync_def lock_sin_def)
  have b: "blk ?s' = blk s2" "free_blks ?s' = free_blks s" using core_ok(2)[OF s2(2)] by (simp_all add: unlock_sin_def)
  have ff: "fframe n s ?s'"
    using fframe_trans[OF fframe_trans[OF upd_sin_fframe[OF ok] upd_sin_fframe]
        fframe_trans[OF frame_fframe[OF frame_core[OF t(1) s2(2,4)]] upd_sin_fframe]] ok core_ok(1)[OF s2(2)]
    by (simp add: unlock_sin_def)
  have si: "sin_of n ?s' = Some ?i"
    using core_eqD(1)[OF s2(2)] sn f(2) by (simp add: unlock_sin_def)
  have us: "used ?s' c = used s c" for c using b(2) fframe_view(1)[OF ff] by (simp add: used_def)
  have "blk ?s' c = blk s c" if "c \<in> set (inds i)" for c using m that b(1) s2(3) by (auto simp: map_ok_def owned_def)
  then have "map_ok ?s' i bl" using map_ok_used[OF m] us m by (auto simp: map_ok_def)
  then have fr: "file_rel ?s' n ?i bl" using si fframe_view(6)[OF ff] map_ok_meta[of ?i i ?s' bl] by (simp add: file_rel_def)
  have "take 64 (overlay 0 (encode_din (din i)) (blk s (ino i))) = encode_din (din i)" using le by (simp add: overlay_def)
  then have "on_disk ?s' (ino i) = din i" using decode_encode_din[OF d(1)] b(1) s2(3) by (simp add: on_disk_def)
  then show ?thesis using r ff fr b s2(3) by auto
qed

section \<open>Release\<close>

lemma fframe_links:
  assumes "fframe n s s'"
  shows "ilinks (fsdata s') = ilinks (fsdata s)" "inode_pool (fsdata s') = inode_pool (fsdata s)" "kmems (fsdata s') = kmems (fsdata s)"
    "fs_locked (fsdata s') = fs_locked (fsdata s)"
proof -
  have "others_but n (fsdata s') = others_but n (fsdata s)" using assms by (simp add: fframe_def)
  note others_eqD[OF others_but_others[OF this]]
  then show "ilinks (fsdata s') = ilinks (fsdata s)" "inode_pool (fsdata s') = inode_pool (fsdata s)" "kmems (fsdata s') = kmems (fsdata s)"
    "fs_locked (fsdata s') = fs_locked (fsdata s)" by simp_all
qed

lemma reclaim_ok:
  assumes f: "file_rel s n i bl" "\<not> sin_locked i" and d: "din_fits (din i)" "dirty i \<or> on_disk s (ino i) = din i" "nlinks (din i) \<noteq> 0"
    and c: "cache_inv (fsdata s)" "\<not> fs_locked (fsdata s)" "reclaim_count i = 1"
    and r: "inodes s n = \<lparr>has_ops = True, ref_count = 0, iopen_count = 0\<rparr>"
  shows "\<exists>s'. sfs_reclaim n s = Some (0, s') \<and> sfs_ok s' \<and> cache_inv (fsdata s') \<and> \<not> fs_locked (fsdata s')
    \<and> sins (fsdata s') = (sins (fsdata s))(n := None) \<and> on_disk s' (ino i) = din i \<and> (\<forall>c. c \<noteq> ino i \<longrightarrow> blk s' c = blk s c)
    \<and> map_ok s' i bl \<and> umem s' = umem s \<and> free_blks s' = free_blks s \<and> inode_pool (fsdata s') = inode_pool (fsdata s)
    \<and> kmems (fsdata s') = kmems (fsdata s) \<and> inodes s' = (inodes s)(n := (inodes s n)\<lparr>has_ops := False\<rparr>)"
proof -
  let ?g = "\<lambda>i. i\<lparr>reclaim_count := reclaim_count i - 1\<rparr>"
  let ?s1 = "upd_sfs (fs_locked_update (\<lambda>_. True)) s" let ?s2 = "upd_sin n ?g ?s1"
  have sn: "sin_of n s = Some i" and ok: "sfs_ok s" using f(1) by (simp_all add: file_rel_def)
  have sn1: "sin_of n ?s1 = Some i" using sn by (simp add: upd_sfs_def)
  have m2: "mframe s ?s2" using mframe_trans[OF mframe_upd(4) mframe_upd(2)] .
  have s2: "sin_of n ?s2 = Some (?g i)" "inodes ?s2 = inodes s" using sn by (simp_all add: upd_sfs_def)
  have f2: "file_rel ?s2 n (?g i) bl"
    using f(1) s2(1) m2 mframe_map[OF m2] map_ok_meta[of "?g i" i s bl] by (simp add: file_rel_def mframe_def)
  have od: "on_disk ?s2 = on_disk s" using m2 by (simp add: on_disk_def mframe_def fun_eq_iff)
  have sl: "\<not> sin_locked (?g i)" "din_fits (din (?g i))" "dirty (?g i) \<or> on_disk ?s2 (ino (?g i)) = din (?g i)"
    using f(2) d(1,2) od by simp_all
  from sfs_fsync_ok[OF f2 sl] obtain s4 where
    s4: "sfs_fsync n ?s2 = Some (0, s4)" "fframe n ?s2 s4" "file_rel s4 n ((?g i)\<lparr>dirty := False\<rparr>) bl" "on_disk s4 (ino i) = din i"
      "\<forall>c. c \<noteq> ino i \<longrightarrow> blk s4 c = blk ?s2 c" "free_blks s4 = free_blks ?s2" by auto
  have ck: "inode_check n ?s2 = Some ()" using r s2(2) by (simp add: inode_check_ok)
  have fs: "(if dirty (?g i) then vop n (sfs_fsync n) ?s2 else Some (0, ?s2)) = Some (0, s4)"
  proof (cases "dirty i")
    case False
    then have "sfs_fsync n ?s2 = Some (0, ?s2)" unfolding sfs_fsync_def s2(1) by simp
    then show ?thesis using s4(1) False by simp
  qed (use s4(1) ck in \<open>simp add: vop_def\<close>)
  let ?s5 = "unlock_sfs_fs (sfs_remove_links n s4)"
  let ?s' = "upd_sfs (\<lambda>d. d\<lparr>sins := (sins d)(n := None)\<rparr>) (upd_inode n (has_ops_update (\<lambda>_. False)) ?s5)"
  note v4 = fframe_view[OF s4(2)] fframe_links[OF s4(2)]
  have sn4: "sin_of n s4 = Some ((?g i)\<lparr>dirty := False\<rparr>)" using s4(3) by (simp add: file_rel_def)
  have i5: "inodes ?s5 = inodes s" "sin_of n ?s5 = Some ((?g i)\<lparr>dirty := False\<rparr>)"
    using v4(7) s2(2) sn4 by (simp_all add: unlock_sfs_fs_def sfs_remove_links_def upd_sfs_def)
  have "reclaim_free n ?s5 = Some (0, ?s')" using i5 r d(3) by (simp add: reclaim_free_def inode_kill_def)
  then have re: "sfs_reclaim n s = Some (0, ?s')"
    using lock_fs_ok[OF c(2)] c(3) sn1 fs r s2(2) d(3) by (simp add: sfs_reclaim_def)
  have m5: "mframe s4 ?s'"
    by (rule mframe_eq) (simp_all add: unlock_sfs_fs_def sfs_remove_links_def upd_sfs_def)
  obtain xs hs where cr: "cache_rel (fsdata s) xs hs" using c(1) by (auto simp: cache_inv_def)
  have sk: "map_option ino (sin_of k s4) = map_option ino (sin_of k s)" for k
    using sn4 sn v4(8)[of k] by (cases "k = n") (simp_all add: upd_sfs_def)
  have l4: "ilinks (fsdata s4) = ilinks (fsdata s)" "inode_pool (fsdata s4) = inode_pool (fsdata s)" "kmems (fsdata s4) = kmems (fsdata s)"
    using v4(10-12) by (simp_all add: upd_sin_def upd_sfs_def)
  have c4: "cache_rel (fsdata s4) xs hs" by (rule cache_cong[OF cr]) (use sk l4 cr in \<open>simp_all add: cache_rel_def\<close>)
  from cache_remove[OF c4 sn4] obtain ys gs where
    c5: "cache_rel ((fsdata s4)\<lparr>sins := (sins (fsdata s4))(n := None), ilinks := list_del (SinLink n) (list_del (InodeLink n) (ilinks (fsdata s4)))\<rparr>) ys gs"
    by blast
  have "cache_rel (fsdata ?s') ys gs"
    by (rule cache_cong[OF c5]) (use cr l4 in \<open>simp_all add: unlock_sfs_fs_def sfs_remove_links_def upd_sfs_def cache_rel_def\<close>)
  then have "cache_inv (fsdata ?s')" by (auto simp: cache_inv_def)
  moreover have "sins (fsdata ?s') = (sins (fsdata s))(n := None)"
    using v4(8) by (auto simp: unlock_sfs_fs_def sfs_remove_links_def upd_sfs_def fun_eq_iff upd_sin_def)
  moreover have "map_ok s4 i bl" using s4(3) map_ok_meta[of "(?g i)\<lparr>dirty := False\<rparr>" i s4 bl] by (simp add: file_rel_def)
  then have "map_ok ?s' i bl" using mframe_map[OF m5] by simp
  moreover have "inodes ?s' = (inodes s)(n := (inodes s n)\<lparr>has_ops := False\<rparr>)" using i5(1) by (simp add: upd_sfs_def)
  moreover have "\<not> fs_locked (fsdata ?s')" "inode_pool (fsdata ?s') = inode_pool (fsdata s)" "kmems (fsdata ?s') = kmems (fsdata s)"
    using l4 by (simp_all add: unlock_sfs_fs_def sfs_remove_links_def upd_sfs_def)
  moreover have "sfs_ok ?s'" "on_disk ?s' (ino i) = din i" "umem ?s' = umem s" "free_blks ?s' = free_blks s" "\<forall>c. c \<noteq> ino i \<longrightarrow> blk ?s' c = blk s c"
    using m5 m2 s4 v4(5,6) by (auto simp: mframe_def on_disk_def)
  ultimately show ?thesis using re by blast
qed

lemma forget_reload:
  assumes f: "file_rel s n i bl" "\<not> sin_locked i" and d: "din_fits (din i)" "dirty i \<or> on_disk s (ino i) = din i" "nlinks (din i) \<noteq> 0"
      "sfs_get_ops (dtype (din i)) \<noteq> None"
    and c: "cache_inv (fsdata s)" "\<not> fs_locked (fsdata s)" "reclaim_count i = 1" "\<not> exhausted s"
    and r: "inodes s n = \<lparr>has_ops = True, ref_count = 1, iopen_count = 0\<rparr>"
  shows "\<exists>s1 m s2. inode_ref_dec sfs_node_ops n s = Some (0, s1) \<and> sin_of n s1 = None
    \<and> sfs_load_inode (ino i) s1 = Some (0, Some m, s2) \<and> file_rel s2 m (fresh_inode (din i) (ino i)) bl \<and> cache_inv (fsdata s2)
    \<and> (\<forall>q < SFS_BLKSIZE * length bl. fbyte s2 bl q = fbyte s bl q) \<and> (\<forall>k. k \<noteq> n \<and> k \<noteq> m \<longrightarrow> sin_of k s2 = sin_of k s)"
proof -
  let ?s0 = "upd_inode n (\<lambda>i. i\<lparr>ref_count := ref_count i - 1\<rparr>) s"
  have m0: "mframe s ?s0" by simp
  have sn: "sin_of n s = Some i" and mo: "map_ok s i bl" using f(1) by (simp_all add: file_rel_def)
  have f0: "file_rel ?s0 n i bl" using f(1) m0 mframe_map[OF m0] by (simp add: file_rel_def mframe_def)
  have h0: "dirty i \<or> on_disk ?s0 (ino i) = din i" "cache_inv (fsdata ?s0)" "\<not> fs_locked (fsdata ?s0)"
    "inodes ?s0 n = \<lparr>has_ops = True, ref_count = 0, iopen_count = 0\<rparr>" using d(2) c r m0 by (auto simp: on_disk_def mframe_def)
  from reclaim_ok[OF f0 f(2) d(1) h0(1) d(3) h0(2,3) c(3) h0(4)] obtain s1 where
    s1: "sfs_reclaim n ?s0 = Some (0, s1)" "sfs_ok s1" "cache_inv (fsdata s1)" "\<not> fs_locked (fsdata s1)"
      "sins (fsdata s1) = (sins (fsdata s))(n := None)" "on_disk s1 (ino i) = din i" "\<forall>c. c \<noteq> ino i \<longrightarrow> blk s1 c = blk ?s0 c" "map_ok s1 i bl"
      "inode_pool (fsdata s1) = inode_pool (fsdata s)" "kmems (fsdata s1) = kmems (fsdata s)" by auto
  have "op_reclaim sfs_node_ops n ?s0 = sfs_reclaim n ?s0"
    using d(4) sn by (auto simp: sfs_node_ops_def table_of_def sfs_node_dirops_def sfs_node_fileops_def sfs_ref_ops_def split: sfs_optab.splits)
  then have rd: "inode_ref_dec sfs_node_ops n s = Some (0, s1)"
    using r s1(1) by (simp add: inode_ref_dec_def vop_def inode_check_def)
  have un: "ino j \<noteq> ino i" if "sin_of m s1 = Some j" for m j
  proof -
    have "m \<noteq> n" "sin_of m s = Some j" using that s1(5) by (auto split: if_splits)
    then show ?thesis using c(1) sn unfolding cache_inv_def cache_rel_def by blast
  qed
  have lo: "loadable s1 (ino i)" using s1(6,8) d(3,4) un by (auto simp: loadable_def map_ok_def owned_def)
  have ex: "\<not> exhausted s1" using c(4) s1(9,10) by (simp add: exhausted_def)
  from load_inode_ok[OF s1(2) lo s1(3,4)] obtain m s2 where
    s2: "sfs_load_inode (ino i) s1 = Some (0, Some m, s2)" "mframe s1 s2" "cache_inv (fsdata s2)" "handed s1 (ino i) m s2" using ex by blast
  then have m: "sins (fsdata s2) = (sins (fsdata s1))(m \<mapsto> fresh_inode (din i) (ino i))" using un s1(6) by (auto simp: handed_def)
  have "file_rel s2 m (fresh_inode (din i) (ino i)) bl"
    using s1(2,8) s2(2) mframe_map[OF s2(2)] m map_ok_meta[of "fresh_inode (din i) (ino i)" i s1 bl]
    by (simp add: file_rel_def mframe_def fresh_inode_def)
  moreover have "fbyte s2 bl q = fbyte s bl q" if "q < SFS_BLKSIZE * length bl" for q
  proof -
    have "bl ! (q div SFS_BLKSIZE) \<in> set bl" using that by (simp add: less_mult_imp_div_less mult.commute)
    then have "bl ! (q div SFS_BLKSIZE) \<noteq> ino i" using mo by (auto simp: map_ok_def owned_def)
    then show ?thesis using s1(7) s2(2) by (simp add: fbyte_def mframe_def) (simp add: m0[unfolded mframe_def])
  qed
  moreover have "\<forall>k. k \<noteq> n \<and> k \<noteq> m \<longrightarrow> sin_of k s2 = sin_of k s" using m s1(5) by simp
  ultimately show ?thesis using rd s1(5) s2(1,3) by (intro exI[of _ s1] exI[of _ m] exI[of _ s2]) simp
qed

section \<open>A directory with one file\<close>

text \<open>The small file system with a root directory whose only entry \<open>f\<close> is the file of ten bytes.\<close>

definition entry_f :: "8 word list" where
  "entry_f = le_bytes 4 3 @ 102 # 0 # replicate 254 0"

definition root_dir :: sfs_inode where
  "root_dir = \<lparr>din = \<lparr>dsize = 256, dtype = SFS_TYPE_DIR, nlinks = 1, dblocks = 1, direct = 5 # replicate 11 0, indirect = 0\<rparr>,
     ino = 1, dirty = False, reclaim_count = 1, sin_locked = False\<rparr>"

definition file_f :: sfs_inode where "file_f = ten_bytes\<lparr>dirty := True\<rparr>"

definition link_in :: "nat \<Rightarrow> sfs_inode \<Rightarrow> sfs_data \<Rightarrow> sfs_data" where
  "link_in n i d = d\<lparr>sins := (sins d)(n \<mapsto> i), ilinks := list_add (HashHead (sin_hashfn (ino i))) (SinLink n)
      (list_add InodeHead (InodeLink n) (ilinks d))\<rparr>"

definition tree_fs :: sstate where
  "tree_fs = small_fs\<lparr>fsdata := link_in 7 file_f (link_in 9 root_dir ((fsdata small_fs)\<lparr>sins := Map.empty, inode_pool := [11],
       kmems := [Some 0x50000, Some 0x50200]\<rparr>)),
     vmemory := put 0x105000 entry_f (vmemory small_fs)\<rparr>"

lemma tree_fs_data:
  "sdev (fsdata tree_fs) = sdev (fsdata small_fs)" "super (fsdata tree_fs) = super (fsdata small_fs)" "fs_dev (fsdata tree_fs) = fs_dev (fsdata small_fs)"
  "freemap (fsdata tree_fs) = freemap (fsdata small_fs)" "sfs_buffer (fsdata tree_fs) = sfs_buffer (fsdata small_fs)"
  "io_locked (fsdata tree_fs) = io_locked (fsdata small_fs)" "fs_locked (fsdata tree_fs) = fs_locked (fsdata small_fs)"
  "sins (fsdata tree_fs) = [9 \<mapsto> root_dir, 7 \<mapsto> file_f]" "inode_pool (fsdata tree_fs) = [11]"
  "kmems (fsdata tree_fs) = [Some 0x50000, Some 0x50200]" "inodes tree_fs = inodes small_fs"
  "vmemory tree_fs = put 0x105000 entry_f (vmemory small_fs)"
  by (simp_all add: tree_fs_def link_in_def)

lemma tree_fs_view: "free_blks tree_fs = {6..<16}" "nblk tree_fs = 16" "sfs_ok tree_fs"
proof -
  have v: "nblk tree_fs = nblk small_fs" "blk_addr tree_fs = blk_addr small_fs" "free_blks tree_fs = free_blks small_fs"
    "scratch tree_fs = scratch small_fs" "disk_area tree_fs = disk_area small_fs"
    by (simp_all add: view_defs tree_fs_data fun_eq_iff)
  then show "free_blks tree_fs = {6..<16}" "nblk tree_fs = 16" using small_fs_free by (simp_all add: nblk_def small_fs_def)
  show "sfs_ok tree_fs" using small_fs_ok unfolding sfs_ok_def v tree_fs_data .
qed

lemma tree_fs_cache: "cache_inv (fsdata tree_fs)"
proof -
  let ?d = "(fsdata small_fs)\<lparr>sins := Map.empty, inode_pool := [11], kmems := [Some 0x50000, Some 0x50200]\<rparr>"
  have "ilinks ?d = \<lparr>nxt = (\<lambda>x. x), prv = (\<lambda>x. x)\<rparr>" by (simp add: small_fs_def)
  then have "cache_rel ?d [] (\<lambda>_. [])" unfolding cache_rel_def by (simp add: dlist_def)
  then have "cache_rel (link_in 9 root_dir ?d) (9 # []) ((\<lambda>_. [])(sin_hashfn (ino root_dir) := 9 # []))"
    unfolding link_in_def by (rule cache_add) simp_all
  note c9 = this
  have "ino root_dir \<noteq> ino file_f" by (simp add: root_dir_def file_f_def ten_bytes_def)
  then have "ino j \<noteq> ino file_f" if "sins (link_in 9 root_dir ?d) m = Some j" for m j
    using that by (auto simp: link_in_def split: if_splits)
  then have "cache_rel (link_in 7 file_f (link_in 9 root_dir ?d)) (7 # [9])
      (((\<lambda>_. [])(sin_hashfn (ino root_dir) := [9]))(sin_hashfn (ino file_f) := 7 # ((\<lambda>_. [])(sin_hashfn (ino root_dir) := [9])) (sin_hashfn (ino file_f))))"
    unfolding link_in_def[of 7] by (intro cache_add[OF c9]) (simp_all add: link_in_def[of 9])
  then have "\<exists>xs hs. cache_rel (link_in 7 file_f (link_in 9 root_dir ?d)) xs hs" by blast
  then show ?thesis by (simp add: cache_inv_def tree_fs_def)
qed

lemma tree_fs_maps: "map_ok tree_fs root_dir [5]" "map_ok tree_fs file_f [4]"
proof -
  have d: "direct (din root_dir) ! k = (if k = 0 then 5 else 0)" "direct (din file_f) ! k = (if k = 0 then 4 else 0)" if "k < 12" for k
    using that by (cases k; simp add: root_dir_def file_f_def ten_bytes_def)+
  have f: "dblocks (din root_dir) = 1" "length (direct (din root_dir)) = 12" "indirect (din root_dir) = 0" "ino root_dir = 1"
    "dblocks (din file_f) = 1" "length (direct (din file_f)) = 12" "indirect (din file_f) = 0" "ino file_f = 3"
    by (simp_all add: root_dir_def file_f_def ten_bytes_def)
  show "map_ok tree_fs root_dir [5]" "map_ok tree_fs file_f [4]"
    using d f tree_fs_view by (simp_all add: map_ok_def owned_def inds_def used_def)
qed

lemma tree_fs_files: "file_rel tree_fs 9 root_dir [5]" "file_rel tree_fs 7 file_f [4]"
  using tree_fs_maps tree_fs_view(3) by (simp_all add: file_rel_def tree_fs_data)

lemma tree_fs_entry: "find (is_entry [102]) (dents tree_fs [5]) = Some (dent entry_f)" "entry_ino (dent entry_f) = 3"
proof -
  have l: "length entry_f = 260" by (simp add: entry_f_def)
  have a: "blk_addr tree_fs 5 = 0x105000" by (simp add: blk_addr_def tree_fs_data) (simp add: small_fs_def)
  have "take 260 (blk tree_fs 5) = bytes (vmemory tree_fs) 0x105000 260"
    using take_drop_bytes[of 0 260 4096] a tree_fs_view by (simp add: blk_def)
  then have b: "take 260 (blk tree_fs 5) = entry_f" using bytes_put_len[OF l] by (simp add: tree_fs_data)
  have e: "decode_entry entry_f = \<lparr>entry_ino = 3, entry_name = 102 # 0 # replicate 254 0\<rparr>"
    using field_bytes[of 4 3 "102 # 0 # replicate 254 0"] by (simp add: decode_entry_def entry_f_def)
  have t: "take 260 entry_f = entry_f" using l by simp
  have d: "dents tree_fs [5] = [dent entry_f]" using b t by (simp add: dents_def dent_def)
  show "entry_ino (dent entry_f) = 3" using e t by (simp add: dent_def)
  moreover have "str_in (entry_name (dent entry_f)) = [102]" using e t by (simp add: dent_def str_in_def)
  ultimately have "is_entry [102] (dent entry_f)" by (simp add: is_entry_def)
  then show "find (is_entry [102]) (dents tree_fs [5]) = Some (dent entry_f)" using d by simp
qed

section \<open>Properties\<close>



text \<open>C8. Forgetting an inode.  When the last reference to a file is dropped, its inode is written to its block if
  it has changed and leaves the memory.  Loading it again yields an inode with the same contents, block
  map and size, and every byte of the file is as before.\<close>

theorem sfs_reclaim_reload:
  assumes "file_rel s n i bl" "\<not> sin_locked i" "din_fits (din i)" "dirty i \<or> on_disk s (ino i) = din i" "nlinks (din i) \<noteq> 0"
    "sfs_get_ops (dtype (din i)) \<noteq> None" "cache_inv (fsdata s)" "\<not> fs_locked (fsdata s)" "reclaim_count i = 1" "\<not> exhausted s"
    "inodes s n = \<lparr>has_ops = True, ref_count = 1, iopen_count = 0\<rparr>"
  shows "\<exists>s1 m s2. inode_ref_dec sfs_node_ops n s = Some (0, s1) \<and> sin_of n s1 = None
    \<and> sfs_load_inode (ino i) s1 = Some (0, Some m, s2) \<and> file_rel s2 m (fresh_inode (din i) (ino i)) bl \<and> cache_inv (fsdata s2)
    \<and> (\<forall>q < SFS_BLKSIZE * length bl. fbyte s2 bl q = fbyte s bl q) \<and> (\<forall>k. k \<noteq> n \<and> k \<noteq> m \<longrightarrow> sin_of k s2 = sin_of k s)"
  by (rule forget_reload[OF assms])

theorem sfs_reclaim_reload_witness:
  "\<exists>s1 m s2. inode_ref_dec sfs_node_ops 7 tree_fs = Some (0, s1) \<and> sin_of 7 s1 = None \<and> sfs_load_inode 3 s1 = Some (0, Some m, s2)
    \<and> file_rel s2 m (fresh_inode (din ten_bytes) 3) [4]"
proof -
  have f: "\<not> sin_locked file_f" "din_fits (din file_f)" "dirty file_f \<or> on_disk tree_fs (ino file_f) = din file_f" "nlinks (din file_f) \<noteq> 0"
    "sfs_get_ops (dtype (din file_f)) \<noteq> None" "reclaim_count file_f = 1" "ino file_f = 3" "din file_f = din ten_bytes"
    by (simp_all add: file_f_def ten_bytes_def din_fits_def sfs_get_ops_def)
  have h: "\<not> fs_locked (fsdata tree_fs)" "\<not> exhausted tree_fs" "inodes tree_fs 7 = \<lparr>has_ops = True, ref_count = 1, iopen_count = 0\<rparr>"
    by (simp_all add: tree_fs_data exhausted_def) (simp_all add: small_fs_def)
  from sfs_reclaim_reload[OF tree_fs_files(2) f(1-5) tree_fs_cache h(1) f(6) h(2,3)] show ?thesis unfolding f(7,8) by blast
qed

text \<open>C39. What is written to a file is read back.  A write at a block boundary within the largest file, with
  enough free blocks, stores all bytes, and a following read at the same place delivers them.\<close>

theorem sfs_write_read:
  assumes "file_rel s n i bl" "\<not> sin_locked i" "dtype (din i) = SFS_TYPE_FILE" "dsize (din i) \<le> SFS_BLKSIZE * length bl"
    "io_offset iob = int off" "0 < io_resid iob" "off mod SFS_BLKSIZE = 0" "off div SFS_BLKSIZE \<le> length bl"
    "off + io_resid iob \<le> (SFS_NDIRECT + SFS_BLK_NENTRY) * SFS_BLKSIZE"
    "user_buf s (io_base iob) (io_resid iob)" "user_buf s dst (io_resid iob)"
    "(off + io_resid iob + SFS_BLKSIZE - 1) div SFS_BLKSIZE - length bl < card (free_blks s)"
  shows "\<exists>iob1 s1 iob2 s2. sfs_write n iob s = Some (0, iob1, s1)
    \<and> sfs_read n (iobuf_init dst (io_resid iob) (io_offset iob)) s1 = Some (0, iob2, s2) \<and> io_resid iob1 = 0 \<and> io_resid iob2 = 0
    \<and> bytes (umem s2) dst (io_resid iob) = bytes (umem s) (io_base iob) (io_resid iob)"
  by (rule write_read[OF assms])

theorem sfs_write_read_witness:
  "\<exists>iob1 s1 iob2 s2. sfs_write 7 (iobuf_init 0x30000 9000 4096) small_fs = Some (0, iob1, s1)
    \<and> sfs_read 7 (iobuf_init 0x40000 9000 4096) s1 = Some (0, iob2, s2)
    \<and> bytes (umem s2) 0x40000 9000 = bytes (umem small_fs) 0x30000 9000"
proof -
  have "user_buf small_fs 0x30000 0x20000" by (rule small_fs_buf) simp
  then have u: "user_buf small_fs 0x30000 9000" "user_buf small_fs 0x40000 9000" by (auto elim!: user_buf_sub)
  show ?thesis
    using sfs_write_read[OF small_fs_file, where iob = "iobuf_init 0x30000 9000 4096" and off = 4096 and dst = "0x40000"] u small_fs_free
    by (simp add: iobuf_init_def ten_bytes_def) blast
qed

end
