(* ===== verification/Sfs_Contract.thy ===== *)
theory Sfs_Contract
  imports Sfs_Persist Files
begin

text \<open>
  The simple file system behind the inode layer.  Every operation of its inodes that returns leaves the
  counts of all inodes, the locks and the shape of the file system alone, and closing returns; so the
  operation table is an interpretation of \<open>inode_contract\<close>, and what holds for the descriptors of any file
  system holds for files and directories of this one.
\<close>

section \<open>What every operation keeps\<close>

definition sig :: "sfs_inode \<Rightarrow> nat \<times> nat \<times> nat \<times> bool" where
  "sig i = (ino i, dtype (din i), length (direct (din i)), sin_locked i)"

definition kview :: "sstate \<Rightarrow> (nat \<Rightarrow> inode) \<times> device \<times> nat \<times> (nat \<times> nat \<times> nat) \<times> bool \<times> (nat \<Rightarrow> (nat \<times> nat \<times> nat \<times> bool) option)" where
  "kview s = (inodes s, fs_dev (fsdata s), sblocks (super (fsdata s)),
     (ide_base (sdev (fsdata s)), ide_size (sdev (fsdata s)), disk0_buffer (sdev (fsdata s))),
     io_locked (fsdata s), (\<lambda>n. map_option sig (sin_of n s)))"

named_theorems kept \<open>operations that keep the view\<close>

lemma kview_mem [simp]: "kview (s\<lparr>vmemory := m\<rparr>) = kview s"
  by (simp add: kview_def)

lemma kview_sin [simp]: "(\<And>i. sig (f i) = sig i) \<Longrightarrow> kview (upd_sin n f s) = kview s"
  by (auto simp: kview_def upd_sin_def upd_sfs_def Let_def fun_eq_iff option.map_comp comp_def)

lemma kview_free [simp]:
  "kview (upd_sfs (\<lambda>d. d\<lparr>freemap := bm, super := (super d)\<lparr>unused_blocks := g d\<rparr>, super_dirty := True\<rparr>) s) = kview s"
  by (simp add: kview_def upd_sfs_def)

lemma kview_io:
  assumes "lock_sfs_io s = Some t" "kview t' = kview t"
  shows "kview (unlock_sfs_io t') = kview s"
  using assms by (auto simp: kview_def lock_sfs_io_def unlock_sfs_io_def upd_sfs_def kassert_def split: if_splits)

lemma kview_lock:
  assumes l: "lock_sin n s = Some t" and k: "kview t' = kview t"
  shows "kview (unlock_sin n t') = kview s"
proof -
  from l obtain i where i: "sin_of n s = Some i" "\<not> sin_locked i" "t = upd_sin n (sin_locked_update (\<lambda>_. True)) s"
    by (auto simp: lock_sin_def bind_Some_iff kassert_def split: if_splits)
  have e: "map_option sig (sin_of m t') = map_option sig (sin_of m t)" for m
    using arg_cong[OF k, of "\<lambda>(a, b, c, d, e, f). f m"] by (simp add: kview_def)
  have "map_option sig (sin_of m (unlock_sin n t')) = map_option sig (sin_of m s)" for m
  proof (cases "m = n")
    case True
    obtain j where "sin_of n t' = Some j" "sig j = sig (i\<lparr>sin_locked := True\<rparr>)" using e[of n] i by auto
    then show ?thesis using True i(1,2) by (simp add: unlock_sin_def sig_def)
  next
    case False
    then show ?thesis using e[of m] i(3) by (simp add: unlock_sin_def)
  qed
  moreover have "fst (kview (unlock_sin n t')) = fst (kview s)" "fst (snd (kview (unlock_sin n t'))) = fst (snd (kview s))"
    "fst (snd (snd (kview (unlock_sin n t')))) = fst (snd (snd (kview s)))"
    "fst (snd (snd (snd (kview (unlock_sin n t'))))) = fst (snd (snd (snd (kview s))))"
    "fst (snd (snd (snd (snd (kview (unlock_sin n t')))))) = fst (snd (snd (snd (snd (kview s)))))"
    using k i(3) by (simp_all add: kview_def unlock_sin_def upd_sin_def upd_sfs_def)
  ultimately show ?thesis by (simp add: kview_def fun_eq_iff)
qed

lemma kept_dop [kept]: "sfs_dop_io iob wr s = Some (r, s') \<Longrightarrow> kview s' = kview s"
  by (auto simp: sfs_dop_io_def bind_Some_iff kview_def io_same_def dest!: dop_io_same)

lemma kept_rw [kept]: "sfs_rwblock_nolock buf b wr c s = Some (r, s') \<Longrightarrow> kview s' = kview s"
  by (auto simp: sfs_rwblock_nolock_def bind_Some_iff Let_def sig_def split: if_splits prod.splits dest!: kept)

lemma kept_rw_loop [kept]: "sfs_rwblock_loop k buf b wr s = Some (r, s') \<Longrightarrow> kview s' = kview s"
  by (induction k arbitrary: buf b s) (auto simp: bind_Some_iff split: if_splits dest!: kept)

lemma kept_clear_loop [kept]: "sfs_clear_loop k b s = Some (r, s') \<Longrightarrow> kview s' = kview s"
  by (induction k arbitrary: b s) (auto simp: bind_Some_iff split: if_splits dest!: kept)

lemma kept_rwblock [kept]: "sfs_rwblock buf b k wr s = Some (r, s') \<Longrightarrow> kview s' = kview s"
  by (auto simp: sfs_rwblock_def bind_Some_iff dest!: kept elim!: kview_io)

lemma kept_rbuf [kept]: "sfs_rbuf len b off s = Some (r, data, s') \<Longrightarrow> kview s' = kview s"
  by (auto simp: sfs_rbuf_def bind_Some_iff Let_def dest!: kept elim!: kview_io)

lemma kept_wbuf [kept]: "sfs_wbuf data b off s = Some (r, s') \<Longrightarrow> kview s' = kview s"
  by (auto simp: sfs_wbuf_def bind_Some_iff Let_def split: if_splits dest!: kept elim!: kview_io)

lemma kept_clear [kept]: "sfs_clear_block b k s = Some (r, s') \<Longrightarrow> kview s' = kview s"
  by (auto simp: sfs_clear_block_def bind_Some_iff Let_def dest!: kept elim!: kview_io)

lemma kept_alloc [kept]: "sfs_block_alloc s = Some (r, b, s') \<Longrightarrow> kview s' = kview s"
  by (auto simp: sfs_block_alloc_def bind_Some_iff Let_def sig_def split: if_splits prod.splits dest!: kept)

lemma kept_free [kept]: "sfs_block_free b s = Some s' \<Longrightarrow> kview s' = kview s"
  by (auto simp: sfs_block_free_def bind_Some_iff)

lemma kept_new_sub [kept]: "bmap_new_sub e0 e k s = Some (r, e1, b, s') \<Longrightarrow> kview s' = kview s"
  by (auto simp: bmap_new_sub_def bind_Some_iff Let_def sig_def split: if_splits prod.splits dest!: kept)

lemma kept_get_sub [kept]: "sfs_bmap_get_sub_nolock e k c s = Some (r, e1, b, s') \<Longrightarrow> kview s' = kview s"
  by (auto simp: sfs_bmap_get_sub_nolock_def bind_Some_iff Let_def sig_def split: if_splits prod.splits dest!: kept)

lemma kept_check [kept]: "bmap_check b s = Some (r, b1, s') \<Longrightarrow> kview s' = kview s"
  by (auto simp: bmap_check_def bind_Some_iff Let_def sig_def split: if_splits prod.splits dest!: kept)

lemma kept_get [kept]: "sfs_bmap_get_nolock n k c s = Some (r, b, s') \<Longrightarrow> kview s' = kview s"
  by (auto simp: sfs_bmap_get_nolock_def bind_Some_iff Let_def sig_def split: if_splits prod.splits dest!: kept)

lemma kept_free_sub [kept]: "sfs_bmap_free_sub_nolock e k s = Some (r, s') \<Longrightarrow> kview s' = kview s"
  by (auto simp: sfs_bmap_free_sub_nolock_def bind_Some_iff Let_def sig_def split: if_splits prod.splits dest!: kept)

lemma kept_bmap_free [kept]: "sfs_bmap_free_nolock n k s = Some (r, s') \<Longrightarrow> kview s' = kview s"
  by (auto simp: sfs_bmap_free_nolock_def bind_Some_iff Let_def sig_def split: if_splits prod.splits dest!: kept)

lemma kept_load [kept]: "sfs_bmap_load_nolock n k s = Some (r, b, s') \<Longrightarrow> kview s' = kview s"
  by (auto simp: sfs_bmap_load_nolock_def bind_Some_iff Let_def sig_def split: if_splits prod.splits dest!: kept)

lemma kept_truncate [kept]: "sfs_bmap_truncate_nolock n s = Some (r, s') \<Longrightarrow> kview s' = kview s"
  by (auto simp: sfs_bmap_truncate_nolock_def bind_Some_iff Let_def sig_def split: if_splits prod.splits dest!: kept)

lemma kept_buf_op [kept]: "sfs_buf_op wr bufp len b off s = Some (r, s') \<Longrightarrow> kview s' = kview s"
  by (auto simp: sfs_buf_op_def bind_Some_iff Let_def sig_def split: if_splits prod.splits dest!: kept)

lemma kept_block_op [kept]: "sfs_block_op wr bufp b s = Some (r, s') \<Longrightarrow> kview s' = kview s"
  by (auto simp: sfs_block_op_def sfs_wblock_def sfs_rblock_def bind_Some_iff Let_def sig_def split: if_splits prod.splits dest!: kept)

lemma kept_part [kept]: "sfs_io_part wr n bufp len k off s = Some (r, m, s') \<Longrightarrow> kview s' = kview s"
  by (auto simp: sfs_io_part_def bind_Some_iff Let_def sig_def split: if_splits prod.splits dest!: kept)

lemma kept_blocks [kept]: "sfs_io_blocks wr n bufp b k s = Some (r, m, s') \<Longrightarrow> kview s' = kview s"
  by (induction k arbitrary: bufp b s m) (auto simp: bind_Some_iff split: if_splits dest!: kept)

lemma kept_out [kept]: "sfs_io_out n off a r0 s = Some (r, m, s') \<Longrightarrow> kview s' = kview s"
  by (auto simp: sfs_io_out_def bind_Some_iff Let_def sig_def split: if_splits prod.splits dest!: kept)

lemma kept_range [kept]: "sfs_io_range wr n buf off e s = Some (r, m, s') \<Longrightarrow> kview s' = kview s"
  by (auto simp: sfs_io_range_def bind_Some_iff Let_def sig_def split: if_splits prod.splits dest!: kept)

lemma kept_io_nolock [kept]: "sfs_io_nolock n buf off a wr s = Some (r, m, s') \<Longrightarrow> kview s' = kview s"
  by (auto simp: sfs_io_nolock_def bind_Some_iff Let_def sig_def split: if_splits prod.splits dest!: kept)

lemma kept_io [kept]: "sfs_io n iob wr s = Some (r, iob', s') \<Longrightarrow> kview s' = kview s"
  by (auto simp: sfs_io_def bind_Some_iff split: if_splits dest!: kept elim!: kview_lock)

lemma kept_grow [kept]: "sfs_grow_loop n k b s = Some (r, s') \<Longrightarrow> kview s' = kview s"
  by (induction k arbitrary: b s) (auto simp: bind_Some_iff split: if_splits dest!: kept)

lemma kept_shrink [kept]: "sfs_shrink_loop n k s = Some (r, s') \<Longrightarrow> kview s' = kview s"
  by (induction k arbitrary: s) (auto simp: bind_Some_iff split: if_splits dest!: kept)

lemma kept_truncfile [kept]: "sfs_truncfile n len s = Some (r, s') \<Longrightarrow> kview s' = kview s"
  by (auto simp: sfs_truncfile_def bind_Some_iff Let_def split: if_splits dest!: kept) (erule kview_lock, simp add: sig_def)+

lemma kept_tryseek [kept]: "sfs_tryseek n p s = Some (r, s') \<Longrightarrow> kview s' = kview s"
  by (auto simp: sfs_tryseek_def bind_Some_iff vop_Some split: if_splits dest!: kept)

lemma kept_fsync [kept]: "sfs_fsync n s = Some (r, s') \<Longrightarrow> kview s' = kview s"
  by (auto simp: sfs_fsync_def bind_Some_iff Let_def sig_def split: if_splits dest!: kept) (erule kview_lock, simp add: sig_def)+

lemma kept_close [kept]: "sfs_close n s = Some (r, s') \<Longrightarrow> kview s' = kview s"
  by (auto simp: sfs_close_def vop_Some dest!: kept)

lemma kept_fstat [kept]: "sfs_fstat n s = Some (r, st, s') \<Longrightarrow> kview s' = kview s"
  by (auto simp: sfs_fstat_def sfs_gettype_def vop_Some bind_Some_iff split: if_splits)

lemma kept_kmalloc [kept]: "sfs_kmalloc s = (p, s') \<Longrightarrow> kview s' = kview s"
  by (auto simp: sfs_kmalloc_def kview_def upd_sfs_def split: list.splits)

lemma kept_dirent [kept]: "sfs_dirent_read_nolock n k s = Some (r, e, s') \<Longrightarrow> kview s' = kview s"
  by (auto simp: sfs_dirent_read_nolock_def bind_Some_iff Let_def split: if_splits dest!: kept)

lemma kept_dirent_loop [kept]: "getdirentry_loop n slot i k s = Some (r, e, s') \<Longrightarrow> kview s' = kview s"
  by (induction k arbitrary: slot i s) (auto simp: bind_Some_iff split: if_splits dest!: kept)

lemma kept_getdirentry [kept]: "sfs_getdirentry n iob s = Some (r, iob', s') \<Longrightarrow> kview s' = kview s"
proof -
  assume a: "sfs_getdirentry n iob s = Some (r, iob', s')"
  obtain p s1 where k: "sfs_kmalloc s = (p, s1)" by (cases "sfs_kmalloc s")
  note k1 = kept_kmalloc[OF k]
  show ?thesis
  proof (cases "s' = s1")
    case True
    then show ?thesis using k1 by simp
  next
    case False
    with a k obtain t s3 m where t: "lock_sin n s1 = Some t" "kview s3 = kview t" "s' = unlock_sin n s3 \<or> s' = (unlock_sin n s3)\<lparr>vmemory := m\<rparr>"
      by (auto simp: sfs_getdirentry_def sfs_getdirentry_sub_nolock_def bind_Some_iff Let_def split: if_splits option.splits dest!: kept_dirent_loop)
    then show ?thesis using kview_lock[OF t(1,2)] k1 by auto
  qed
qed

section \<open>The contract\<close>

definition sfs_disk_ok :: "sfs_data \<Rightarrow> bool" where
  "sfs_disk_ok d \<longleftrightarrow> \<not> io_locked d \<and> disk_fits (fs_dev d) (sdev d) \<and> sblocks (super d) \<le> d_blocks (fs_dev d) \<and> sblocks (super d) \<le> 0x100000"

definition sfs_wf :: "sfs_data \<Rightarrow> nat set \<Rightarrow> bool" where
  "sfs_wf d N \<longleftrightarrow> dom (sins d) = N \<and> sfs_disk_ok d
     \<and> (\<forall>n i. sins d n = Some i \<longrightarrow> \<not> sin_locked i \<and> 0 < ino i \<and> ino i < sblocks (super d)
          \<and> sfs_get_ops (dtype (din i)) \<noteq> None \<and> length (direct (din i)) = SFS_NDIRECT)"

lemma kview_disk:
  assumes k: "kview s' = kview s" and w: "sfs_disk_ok (fsdata s)"
  shows "sfs_disk_ok (fsdata s')"
  using assms by (auto simp: kview_def sfs_disk_ok_def disk_fits_def)

lemma kview_wf:
  assumes k: "kview s' = kview s" and w: "sfs_wf (fsdata s) N"
  shows "inodes s' = inodes s \<and> sfs_wf (fsdata s') N"
proof -
  have e: "inodes s' = inodes s" "sblocks (super (fsdata s')) = sblocks (super (fsdata s))"
    "\<And>n. map_option sig (sin_of n s') = map_option sig (sin_of n s)" using k by (simp_all add: kview_def fun_eq_iff)
  have "dom (sins (fsdata s')) = dom (sins (fsdata s))" 
  proof (intro set_eqI)
    show "n \<in> dom (sins (fsdata s')) \<longleftrightarrow> n \<in> dom (sins (fsdata s))" for n
      using e(3)[of n] by (cases "sin_of n s"; cases "sin_of n s'") auto
  qed
  moreover have "\<not> sin_locked i \<and> 0 < ino i \<and> ino i < sblocks (super (fsdata s)) \<and> sfs_get_ops (dtype (din i)) \<noteq> None
      \<and> length (direct (din i)) = SFS_NDIRECT" if i: "sin_of n s' = Some i" for n i
  proof -
    obtain j where j: "sin_of n s = Some j" "sig j = sig i" using e(3)[of n] i by (auto simp: map_option_case split: option.splits)
    have "\<not> sin_locked j \<and> 0 < ino j \<and> ino j < sblocks (super (fsdata s)) \<and> sfs_get_ops (dtype (din j)) \<noteq> None
        \<and> length (direct (din j)) = SFS_NDIRECT" using w j(1) unfolding sfs_wf_def by blast
    then show ?thesis using j(2) by (simp add: sig_def)
  qed
  moreover have "sfs_disk_ok (fsdata s')" using kview_disk[OF k] w by (simp add: sfs_wf_def)
  ultimately show ?thesis using w e unfolding sfs_wf_def by simp
qed

lemma rw_returns:
  assumes "sfs_disk_ok ((fsdata s)\<lparr>io_locked := False\<rparr>)" "0 < b" "b < sblocks (super (fsdata s))"
  shows "\<exists>s'. sfs_rwblock_nolock buf b wr True s = Some (0, s') \<and> kview s' = kview s \<and> sfs_buffer (fsdata s') = sfs_buffer (fsdata s)
    \<and> super (fsdata s') = super (fsdata s)"
proof -
  have f: "disk_fits (fs_dev (fsdata s)) (sdev (fsdata s))" "b < d_blocks (fs_dev (fsdata s))" "b < 0x100000"
    using assms by (auto simp: sfs_disk_ok_def)
  then have "b * 4096 mod 2 ^ 32 = b * 4096" by simp
  with disk0_block[of "fs_dev (fsdata s)" "\<lparr>inodes = inodes s, fsdata = sdev (fsdata s), vmemory = vmemory s\<rparr>" b buf wr] f
  obtain s' where s': "sfs_rwblock_nolock buf b wr True s = Some (0, s')" "fsdata s' = fsdata s"
    using assms(2,3) by (cases wr) (auto simp: sfs_rwblock_nolock_def sfs_dop_io_def)
  show ?thesis using s' kept_rw[OF s'(1)] by auto
qed

lemma wbuf_returns:
  assumes w: "sfs_disk_ok (fsdata s)" and b: "0 < b" "b < sblocks (super (fsdata s))" and l: "length data \<le> SFS_BLKSIZE"
  shows "\<exists>s'. sfs_wbuf data b 0 s = Some (0, s')"
proof -
  have "\<not> io_locked (fsdata s)" using w by (simp add: sfs_disk_ok_def)
  from lock_io_ok[OF this] obtain t where
    t: "lock_sfs_io s = Some t" "unlock_sfs_io t = s" "fsdata t = (fsdata s)\<lparr>io_locked := True\<rparr>" by blast
  have wt: "sfs_disk_ok ((fsdata t)\<lparr>io_locked := False\<rparr>)" "b < sblocks (super (fsdata t))" using w b t(3) by (simp_all add: sfs_disk_ok_def)
  let ?b = "sfs_buffer (fsdata t)"
  from rw_returns[OF wt(1) b(1) wt(2), of ?b False] obtain s2 where
    s2: "sfs_rwblock_nolock ?b b False True t = Some (0, s2)" "kview s2 = kview t" "sfs_buffer (fsdata s2) = ?b" "super (fsdata s2) = super (fsdata t)" by blast
  let ?s3 = "s2\<lparr>vmemory := put ?b data (vmemory s2)\<rparr>"
  have u: "kview (unlock_sfs_io ?s3) = kview s" using kview_io[OF t(1), of ?s3] s2(2) by simp
  have "sfs_disk_ok ((fsdata ?s3)\<lparr>io_locked := False\<rparr>)"
    using kview_disk[OF u w] by (simp add: unlock_sfs_io_def upd_sfs_def)
  from rw_returns[OF this b(1), of ?b True] wt(2) s2(4) obtain s4 where "sfs_rwblock_nolock ?b b True True ?s3 = Some (0, s4)" by auto
  then show ?thesis using t(1) s2(1,3) l by (simp add: sfs_wbuf_def)
qed

lemma sfs_close_returns:
  assumes w: "sfs_wf (fsdata s) N" and n: "n \<in> N" "inode_check n s = Some ()"
  shows "\<exists>r s'. sfs_close n s = Some (r, s')"
proof -
  obtain i where i: "sin_of n s = Some i" using w n by (auto simp: sfs_wf_def)
  then have f: "\<not> sin_locked i" "0 < ino i" "ino i < sblocks (super (fsdata s))" "length (direct (din i)) = SFS_NDIRECT"
    using w by (auto simp: sfs_wf_def)
  have l: "length (encode_din (din i)) \<le> SFS_BLKSIZE" using f(4) by (simp add: encode_din_def length_array)
  let ?t = "upd_sin n (dirty_update (\<lambda>_. False)) (upd_sin n (sin_locked_update (\<lambda>_. True)) s)"
  have "sfs_disk_ok (fsdata ?t)" using w by (simp add: sfs_wf_def sfs_disk_ok_def upd_sin_def upd_sfs_def)
  from wbuf_returns[OF this f(2) _ l] f(3) obtain s' where "sfs_wbuf (encode_din (din i)) (ino i) 0 ?t = Some (0, s')" by auto
  then show ?thesis using i f(1) n(2) by (cases "dirty i") (simp_all add: sfs_close_def vop_def sfs_fsync_def lock_sin_def)
qed

lemma table_cases:
  assumes "table_of n s = Some t"
  shows "t = sfs_node_dirops \<or> t = sfs_node_fileops"
  using assms by (auto simp: table_of_def sfs_get_ops_def bind_Some_iff split: if_splits)

interpretation sfs_nodes: inode_contract sfs_node_ops sfs_wf
proof
  fix s s' :: sstate and N n fl r b b' st p
  assume w: "sfs_wf (fsdata s) N"
  note k = kview_wf[OF _ w]
  note tabs = sfs_node_ops_def sfs_node_dirops_def sfs_node_fileops_def sfs_ref_ops_def bind_Some_iff
  show "\<exists>r s'. op_close sfs_node_ops n s = Some (r, s') \<and> inodes s' = inodes s \<and> sfs_wf (fsdata s') N"
    if n: "n \<in> N" "inode_check n s = Some ()"
  proof -
    obtain r s' where c: "sfs_close n s = Some (r, s')" using sfs_close_returns[OF w n] by blast
    obtain i where "sin_of n s = Some i" using w n(1) by (auto simp: sfs_wf_def)
    moreover from this obtain q where "sfs_get_ops (dtype (din i)) = Some q" using w by (auto simp: sfs_wf_def)
    ultimately obtain t where "table_of n s = Some t" by (simp add: table_of_def)
    then have "op_close sfs_node_ops n s = sfs_close n s" using table_cases[of n s t] by (auto simp: tabs)
    then show ?thesis using c k[OF kept_close[OF c]] by auto
  qed
  show "inodes s' = inodes s \<and> sfs_wf (fsdata s') N" if "op_open sfs_node_ops n fl s = Some (r, s')"
    using that w by (auto simp: tabs sfs_opendir_def sfs_openfile_def split: if_splits dest!: table_cases)
  show "inodes s' = inodes s \<and> sfs_wf (fsdata s') N" if "op_read sfs_node_ops n b s = Some (r, b', s')"
    using that by (intro k) (auto simp: tabs sfs_read_def dest!: table_cases kept_io)
  show "inodes s' = inodes s \<and> sfs_wf (fsdata s') N" if "op_write sfs_node_ops n b s = Some (r, b', s')"
    using that by (intro k) (auto simp: tabs sfs_write_def dest!: table_cases kept_io)
  show "inodes s' = inodes s \<and> sfs_wf (fsdata s') N" if "op_fstat sfs_node_ops n s = Some (r, st, s')"
    using that by (intro k) (auto simp: tabs dest!: table_cases kept_fstat)
  show "inodes s' = inodes s \<and> sfs_wf (fsdata s') N" if "op_fsync sfs_node_ops n s = Some (r, s')"
    using that by (intro k) (auto simp: tabs dest!: table_cases kept_fsync)
  show "inodes s' = inodes s \<and> sfs_wf (fsdata s') N" if "op_getdirentry sfs_node_ops n b s = Some (r, b', s')"
    using that by (intro k) (auto simp: tabs dest!: table_cases kept_getdirentry)
  show "inodes s' = inodes s \<and> sfs_wf (fsdata s') N" if "op_tryseek sfs_node_ops n p s = Some (r, s')"
    using that by (intro k) (auto simp: tabs dest!: table_cases kept_tryseek)
  show "inodes s' = inodes s \<and> sfs_wf (fsdata s') N" if "op_truncate sfs_node_ops n p s = Some (r, s')"
    using that by (intro k) (auto simp: tabs dest!: table_cases kept_truncfile)
qed

section \<open>Properties\<close>

text \<open>A process with the file of ten bytes open as descriptor 0.\<close>

definition open_file :: "sfs_data fstate" where
  "open_file = \<lparr>
     filesp = \<lparr>pwd = None, fd_array = map (\<lambda>i. \<lparr>status = if i = 0 then FD_OPENED else FD_NONE, readable = True, writable = True,
        fd = int i, pos = 0, node = if i = 0 then Some 7 else None, open_count = if i = 0 then 1 else 0\<rparr>) [0..<FILES_STRUCT_NENTRY],
        files_count = 1\<rparr>,
     vfs = small_fs\<lparr>inodes := \<lambda>_. \<lparr>has_ops = True, ref_count = 2, iopen_count = 1\<rparr>\<rparr>\<rparr>"

lemma open_file_inv: "fd_inv {7} (\<lambda>_. 0) (\<lambda>_. 1) open_file"
proof -
  have f: "the_file i open_file = \<lparr>status = if i = 0 then FD_OPENED else FD_NONE, readable = True, writable = True,
        fd = int i, pos = 0, node = if i = 0 then Some 7 else None, open_count = if i = 0 then 1 else 0\<rparr>" if "i < FILES_STRUCT_NENTRY" for i
    using that by (simp add: the_file_def open_file_def)
  have "length (filter (opened_on 7) (fd_array (filesp open_file))) = length (filter (\<lambda>i. i = 0) [0..<FILES_STRUCT_NENTRY])"
    by (auto simp: open_file_def filter_map comp_def opened_on_def intro!: arg_cong[of _ _ length] filter_cong split: if_splits)
  also have "[0..<FILES_STRUCT_NENTRY] = 0 # [Suc 0..<FILES_STRUCT_NENTRY]" by (simp add: upt_conv_Cons FILES_STRUCT_NENTRY_def)
  also have "length (filter (\<lambda>i. i = 0) (0 # [Suc 0..<FILES_STRUCT_NENTRY])) = 1" by (simp add: filter_empty_conv)
  finally have n: "fds_on open_file 7 = 1" by (simp add: fds_on_def)
  have "file_ok {7} i (the_file i open_file)" if "i < FILES_STRUCT_NENTRY" for i using f[OF that] by (simp add: file_ok_def)
  then show ?thesis using n by (simp add: fd_inv_def) (simp add: open_file_def FILES_STRUCT_NENTRY_def)
qed

lemma open_file_wf: "sfs_wf (fsdata (vfs open_file)) {7}"
proof -
  have "sfs_disk_ok (fsdata small_fs)" using small_fs_ok by (simp add: sfs_ok_def sfs_disk_ok_def nblk_def)
  moreover have "sins (fsdata small_fs) = [7 \<mapsto> ten_bytes]" "sblocks (super (fsdata small_fs)) = 16" by (simp_all add: small_fs_def)
  moreover have "\<not> sin_locked ten_bytes" "ino ten_bytes = 3" "sfs_get_ops (dtype (din ten_bytes)) \<noteq> None" "length (direct (din ten_bytes)) = 12"
    by (simp_all add: ten_bytes_def sfs_get_ops_def)
  ultimately show ?thesis by (simp add: sfs_wf_def open_file_def)
qed


definition no_names :: "sfs_data namespace" where
  "no_names = \<lparr>ns_curdir = (\<lambda>_. None), ns_root = (\<lambda>_ _. None), ns_bootfs = (\<lambda>_. None), ns_fsroot = (\<lambda>_ _. None)\<rparr>"


end
