(* ===== verification/Spec2Isabelle.thy ===== *)
theory Spec2Isabelle
  imports Best_Fit Buddy Kmalloc Stride Sync Printfmt Bitmap Vmm Proc_Ops Sfs_Contract
begin

text \<open>
  Verification of the ucore teaching kernel, a small Unix-like kernel for RISC-V that is built up
  over eight labs.  The models follow the final kernel, \<open>lab8\<close>; the best-fit and buddy page managers are those
  of \<open>lab2\<close>, the FIFO and stride schedulers are those of \<open>lab6\<close>.

  \<^bold>\<open>The program and its parts.\<close>  The physical memory is managed in page frames by one of several
  page managers behind the interface \<open>struct pmm_manager\<close>.  Page tables map user addresses to
  frames; a memory descriptor lists the areas of an address space and decides page faults.
  Processes are control blocks in a list, a hash table and a family tree; a scheduling class keeps
  the runnable ones, and the scheduler switches between them, wakes sleepers and runs timers.  Wait
  queues, semaphores and monitors are built on sleeping and waking.  Open files are descriptors of
  a process that refer to counted inodes, whose operations are supplied by devices or by a file
  system.  A string library and a formatter serve all of them.

  \<^bold>\<open>How C becomes HOL.\<close>  A kernel function is a function in the option monad over an explicit
  state record.  \<^term>\<open>Some r\<close> is a return; \<^term>\<open>None\<close> means that the call never returns: a failed
  \<open>assert\<close>, a panic, a null function pointer, or a loop that does not end.  Error codes and null
  pointers are values of the result.  Loops over pointer structures are \<open>partial_function (option)\<close>,
  so no fuel is used anywhere and a theorem that a call returns is a theorem about the loop; loops
  over counters are recursive functions with a measure.  Structures with pointers are addressed by
  numbers, and the two pointer fields of a list entry are functions, so that aliasing and broken
  lists are part of the model.  Where the width of an integer matters it is a word (page table
  entries, flags, strides, format arguments) or the wrap-around is written out (address sums, block
  numbers).  \<open>kmalloc\<close> appears as the object that it returned, an argument or the head of a pool.

  \<^bold>\<open>Theories.\<close>
  \<^item> \<open>Prelude\<close>: the monad, \<open>kassert\<close>, the error codes of \<open>libs/error.h\<close>.
  \<^item> \<open>Linked_List\<close> models \<open>libs/list.h\<close>; \<open>dlist\<close> abstracts a circular list to a HOL list, and every
    routine is shown to have its effect on it.
  \<^item> \<open>Page_Frames\<close>, \<open>Pmm_Manager\<close>, \<open>First_Fit\<close>, \<open>Best_Fit\<close>: \<open>struct Page\<close> and the free list, the
    interface of a page manager as locales \<open>pmm_manager\<close>, \<open>pmm_manager_reuse\<close> and \<open>block_manager\<close>, and the
    managers \<open>default_pmm.c\<close> and \<open>best_fit_pmm.c\<close> as interpretations.  Allocation takes the right
    block and nothing else, runs are disjoint, freeing restores the frames; a missing \<open>break\<close> in
    \<open>default_pmm.c\<close> lets one page be handed out twice.
  \<^item> \<open>Buddy\<close> models \<open>lab2/kern/mm/buddy_pmm.c\<close>, a binary tree in an array.  \<open>buddy_rel\<close> abstracts the array to
    a tree of free and used blocks; the manager is an interpretation of \<open>block_manager\<close>, its blocks
    are aligned, and freed buddies are always joined.
  \<^item> \<open>Kmalloc\<close> models \<open>kern/mm/kmalloc.c\<close> in units of 16 bytes: the ring of free blocks in the order of their
    addresses, its growth by pages, and the list of large objects.  \<open>heap_rel\<close> says that free blocks,
    held blocks and free frames are disjoint; objects never overlap, whatever the order of calls.
  \<^item> \<open>Page_Table\<close> models \<open>kern/mm/pmm.c\<close>: the three-level walk, mapping and unmapping, and the range
    operations.  \<open>pt_inv\<close> says that the tables form a tree of frames that are not free; mapping a
    page changes exactly one mapping.
  \<^item> \<open>Vmm\<close> models \<open>kern/mm/vmm.c\<close>: areas, their sorted list and cache, page faults, the checks and
    copies of user memory.  Lookup, insertion and the check of user memory are exact; a page fault
    maps one fresh frame with the permissions of the area.
  \<^item> \<open>Process\<close> models the table part of \<open>kern/process/proc.c\<close>: pid allocation, hash table, family
    links.
  \<^item> \<open>Skew_Heap\<close>, \<open>Run_Queue\<close>, \<open>Stride\<close>: \<open>libs/skew_heap.h\<close> with explicit pointers, and the
    scheduling classes behind the locales \<open>sched_contract\<close> and \<open>fifo_contract\<close>.  The stride class
    picks a least stride across wrap-around of the 32-bit strides.
  \<^item> \<open>Sched\<close> models \<open>kern/schedule/sched.c\<close> and \<open>proc_run\<close> over the locale \<open>scheduler\<close>, interpreted by
    round robin and FIFO; the run queue is always the set of waiting runnable processes, round robin
    is fair, timers fire when they are due.
  \<^item> \<open>Sync\<close> models \<open>kern/sync\<close>; a function that can block is split where it calls \<open>schedule\<close>.  A step
    relation interleaves processes that enter and leave a section with preemption, and mutual
    exclusion is an invariant of it.
  \<^item> \<open>Proc_Life\<close>, \<open>Life_Cycle\<close> model the parts of \<open>do_fork\<close>, \<open>do_exit\<close>, \<open>do_wait\<close> and \<open>do_kill\<close> that work on the
    process table, and sleeping, yielding and priorities.  \<open>table_inv\<close> relates process list, hash table,
    family pointers, numbers and count to one abstract family, a set of processes with the list of
    children of each; \<open>life_inv\<close> adds the run queue and the waiting processes.  Every sequence of
    calls refines the steps \<open>fam_step\<close> of the abstract family and no call gets stuck.
  \<^item> \<open>Proc_Ops\<close> joins the process table with memory, page frames, trap frames and open files in one
    state and models \<open>do_fork\<close>, \<open>kernel_thread\<close>, \<open>do_exit\<close> and \<open>do_wait\<close> in full; a call that may sleep
    says so in its result.  A fork either leaves no trace or yields a runnable child that every
    table knows; a wait gives back the stack and the block of the child.
  \<^item> \<open>Strings\<close>, \<open>Printfmt\<close>: \<open>libs/string.c\<close> over one byte memory, and \<open>libs/printfmt.c\<close>; copies are
    exact under overlap, printing stays in its buffer, and a printed integer is read back.
  \<^item> \<open>Bitmap\<close>, \<open>Iobuf\<close>: the block bitmap of the simple file system and the I/O buffers.
  \<^item> \<open>Inode\<close>, \<open>Devices\<close>, \<open>Files\<close>: the inode layer, lookup, open and close of \<open>kern/fs/vfs\<close>; the
    devices of \<open>kern/fs/devs\<close> on the RAM disk and the console, and the table of device names; the
    descriptors of \<open>kern/fs/file.c\<close> and \<open>fs.c\<close>.  The locales \<open>inode_contract\<close> and \<open>vfs_contract\<close> state
    what the inode layer expects of a file system, device inodes are an interpretation, and the
    reference counts of inodes are shown to be exact after any sequence of descriptor calls.
  \<^item> \<open>Sfs\<close>, \<open>Sfs_Blocks\<close>, \<open>Sfs_Files\<close>, \<open>Sfs_Rw\<close>: the simple file system of \<open>kern/fs/sfs\<close> on the disk.  \<open>Sfs\<close> has the
    definitions for \<open>sfs_io.c\<close>, \<open>sfs_lock.c\<close> and the blocks and files of \<open>sfs_inode.c\<close>.  \<open>Sfs_Blocks\<close> views the
    disk as an array \<open>blk\<close> of the blocks in use and shows what a transfer, an allocation and a release do to
    it; \<open>Sfs_Files\<close> relates an inode to the list of its blocks by \<open>file_rel\<close> and reduces the file to one
    sequence \<open>fbyte\<close> of bytes; \<open>Sfs_Rw\<close> states that reading and writing are transfers on this sequence, and
    that the recorded size is wrong after a transfer that starts inside a block.
  \<^item> \<open>Sfs_Dir\<close>, \<open>Sfs_Tree\<close>, \<open>Sfs_Persist\<close>, \<open>Sfs_Contract\<close>: the rest of it.  \<open>Sfs_Dir\<close> has the definitions for the inodes
    in memory, directories, release, synchronisation and mounting (\<open>sfs_inode.c\<close>, \<open>sfs_fs.c\<close>, \<open>sfs.c\<close>).
    \<open>Sfs_Tree\<close> shows by \<open>cache_rel\<close> that the inode list and the hash chains hold each inode once, and that a
    lookup hands out the right one; \<open>Sfs_Persist\<close> that an inode survives its release; \<open>Sfs_Contract\<close>
    interprets \<open>inode_contract\<close> by the operation tables, so that the results on descriptors apply.

  \<^bold>\<open>Assumptions.\<close>  Interrupts are off where the code turns them off, so the functions are atomic up
  to their calls of \<open>schedule\<close>.  Virtual memory that the kernel copies from and to is one byte memory;
  the faults that such a copy may take are resolved by \<open>do_pgfault\<close> and not visible to the copy.

  \<^bold>\<open>Not modelled.\<close>  The loading of programs (\<open>do_execve\<close>, \<open>load_icode\<close>), the
  system call layer, and the slab allocators of lab 2 are
  the next steps.  Trap entry, drivers, the device tree, start-up code, the
  debugger, \<open>riscv.h\<close> and the self-tests of the managers access hardware or only print; user programs
  and the image builder run outside the kernel; labs 1 to 7 hold earlier versions of the same code.
\<close>

end
